(* ===== verification/Prelude.thy ===== *)
theory Prelude
  imports Main "HOL-Library.Word" "HOL-Library.Multiset"
begin

text \<open>
  Shared vocabulary of the development: the error codes the C code returns, the named
  collections of simplification rules, and the generic facts on scans, bounded tables and
  wrap-around that the component theories use.

  The error codes are the names listed in \<^verbatim>\<open>src/Project_2/kernel/extracted-errno.h\<close>; their
  numeric values come from a header that is not part of the repository, and no code modelled here
  depends on them except for the test against \<^verbatim>\<open>OK\<close>, which is why they are a datatype.
\<close>

datatype errno =
    OK | E2BIG | EACCES | EAGAIN | EBADCALL | EBADEPT | EBUSY | ECALLDENIED | EDEADEPT
  | EDEADSRCDST | EDOM | EEXIST | EFAULT | EFBIG | EIDRM | EINTR | EINVAL | ELOCKED | ENOENT
  | ENOMEM | ENOSPC | ENOSYS | ENOTREADY | EPERM | ERANGE | ESRCH | ETRAPDENIED
  | EDONTREPLY | SUSPEND | EBADREQUEST | VMSUSPEND | ELOOP | EOTHER int

named_theorems table_simps \<open>scans and updates of fixed-size tables\<close>
named_theorems wrap_simps \<open>unsigned 32-bit wrap-around on natural numbers\<close>

subsection \<open>Scans of fixed-size tables\<close>

text \<open>
  The C code walks its static tables with
  \<^verbatim>\<open>for (i = 0; i < N; i++) if (P(tab[i])) return &tab[i]; return NULL;\<close>.
  The model returns the index of the slot.
\<close>

fun first_idx :: "('a \<Rightarrow> bool) \<Rightarrow> 'a list \<Rightarrow> nat option" where
  "first_idx P [] = None"
| "first_idx P (x # xs) = (if P x then Some 0 else map_option Suc (first_idx P xs))"

lemma first_idx_None_iff [table_simps]:
  "first_idx P xs = None \<longleftrightarrow> (\<forall>x \<in> set xs. \<not> P x)"
  by (induction xs) auto

lemma first_idx_SomeD:
  "first_idx P xs = Some i \<Longrightarrow>
     i < length xs \<and> P (xs ! i) \<and> (\<forall>j < i. \<not> P (xs ! j))"
proof (induction xs arbitrary: i)
  case Nil
  then show ?case by simp
next
  case (Cons x xs)
  show ?case
  proof (cases "P x")
    case True
    with Cons.prems show ?thesis by simp
  next
    case False
    with Cons.prems obtain k where k: "first_idx P xs = Some k" and i: "i = Suc k"
      by auto
    from Cons.IH [OF k] False show ?thesis
      by (auto simp: i less_Suc_eq_0_disj)
  qed
qed

lemma first_idx_length: "first_idx P xs = Some i \<Longrightarrow> i < length xs"
  by (simp add: first_idx_SomeD)

lemma first_idx_sat: "first_idx P xs = Some i \<Longrightarrow> P (xs ! i)"
  by (simp add: first_idx_SomeD)

lemma first_idx_least: "first_idx P xs = Some i \<Longrightarrow> j < i \<Longrightarrow> \<not> P (xs ! j)"
  by (simp add: first_idx_SomeD)

lemma first_idx_Some_iff:
  "first_idx P xs = Some i \<longleftrightarrow>
     i < length xs \<and> P (xs ! i) \<and> (\<forall>j < i. \<not> P (xs ! j))"
proof
  assume R: "i < length xs \<and> P (xs ! i) \<and> (\<forall>j < i. \<not> P (xs ! j))"
  then have "first_idx P xs \<noteq> None"
    by (auto simp: first_idx_None_iff)
  then obtain k where k: "first_idx P xs = Some k"
    by auto
  with R have "k = i"
    by (metis first_idx_SomeD linorder_neqE_nat)
  with k show "first_idx P xs = Some i" by simp
qed (rule first_idx_SomeD)

lemma first_idx_unique:
  assumes "i < length xs" "P (xs ! i)" "\<And>j. j < length xs \<Longrightarrow> P (xs ! j) \<Longrightarrow> j = i"
  shows "first_idx P xs = Some i"
  unfolding first_idx_Some_iff using assms by (metis less_irrefl less_trans)

lemma first_idx_cong:
  "length xs = length ys \<Longrightarrow> (\<And>i. i < length xs \<Longrightarrow> P (xs ! i) = Q (ys ! i)) \<Longrightarrow>
     first_idx P xs = first_idx Q ys"
proof (induction xs ys rule: list_induct2)
  case (Cons x xs y ys)
  from Cons.prems [of 0] have "P x = Q y" by simp
  moreover have "first_idx P xs = first_idx Q ys"
    using Cons.prems [of "Suc _"] by (intro Cons.IH) simp
  ultimately show ?case by simp
qed simp

subsection \<open>Unsigned 32-bit arithmetic on natural numbers\<close>

definition u32 :: "nat \<Rightarrow> nat" where
  "u32 n = n mod 2 ^ 32"

lemma u32_less [wrap_simps]: "u32 n < 2 ^ 32"
  by (simp add: u32_def)

lemma u32_id [wrap_simps]: "n < 2 ^ 32 \<Longrightarrow> u32 n = n"
  by (simp add: u32_def)

subsection \<open>32-bit words\<close>

lemma sint_small [wrap_simps]: "unat (w :: 32 word) < 2 ^ 31 \<Longrightarrow> sint w = int (unat w)"
proof -
  assume "unat w < 2 ^ 31"
  then have "int (unat w) < int (2 ^ 31)" by (simp only: of_nat_less_iff)
  then have "uint w < 2 ^ 31" by simp
  moreover have "- (2 ^ 31) \<le> uint w"
    by (rule order_trans [OF _ uint_ge_0]) simp
  ultimately have "signed_take_bit 31 (uint w) = uint w"
    by (rule signed_take_bit_int_eq_self [rotated])
  then show "sint w = int (unat w)" by (simp add: sint_uint)
qed

lemma unat_add_small [wrap_simps]:
  "unat a + unat (b :: 32 word) < 2 ^ 32 \<Longrightarrow> unat (a + b) = unat a + unat b"
  by (simp add: unat_word_ariths)

lemma unat_of_nat_small [wrap_simps]: "n < 2 ^ 32 \<Longrightarrow> unat (word_of_nat n :: 32 word) = n"
  by (simp add: unat_of_nat)

subsection \<open>Runs of fallible operations\<close>

text \<open>A sequence of operations that stops at the first failure.\<close>

fun run_ops :: "('s \<Rightarrow> 'o \<Rightarrow> 's option) \<Rightarrow> 's \<Rightarrow> 'o list \<Rightarrow> 's option" where
  "run_ops f s [] = Some s"
| "run_ops f s (x # xs) = (case f s x of None \<Rightarrow> None | Some s' \<Rightarrow> run_ops f s' xs)"

lemma run_ops_append:
  "run_ops f s (xs @ ys) = (case run_ops f s xs of None \<Rightarrow> None | Some s' \<Rightarrow> run_ops f s' ys)"
  by (induction xs arbitrary: s) (auto split: option.splits)

lemma run_ops_invariant:
  assumes "\<And>s x s'. I s \<Longrightarrow> f s x = Some s' \<Longrightarrow> I s'"
  shows "I s \<Longrightarrow> run_ops f s xs = Some s' \<Longrightarrow> I s'"
  using assms by (induction xs arbitrary: s) (auto split: option.splits)

subsection \<open>Tables of endpoints\<close>

text \<open>
  The process tables of SCHED, PM and the kernel are arrays in which a slot that is in use holds an
  endpoint whose process number is the slot's own number.  This is the law on which their
  endpoint checks rely; what follows from it is proved once here.
\<close>

locale endpoint_table =
  fixes slots :: "'s \<Rightarrow> 'p list"
    and live :: "'p \<Rightarrow> bool"
    and ep_of :: "'p \<Rightarrow> int"
    and slot_of :: "int \<Rightarrow> int"
    and nr_of :: "nat \<Rightarrow> int"
    and inv :: "'s \<Rightarrow> bool"
  assumes nr_of_inj: "nr_of i = nr_of j \<Longrightarrow> i = j"
    and own_slot: "inv s \<Longrightarrow> i < length (slots s) \<Longrightarrow> live (slots s ! i) \<Longrightarrow>
          slot_of (ep_of (slots s ! i)) = nr_of i"
begin

lemma endpoint_unique:
  assumes "inv s" "i < length (slots s)" "j < length (slots s)"
    and "live (slots s ! i)" "live (slots s ! j)"
    and "ep_of (slots s ! i) = ep_of (slots s ! j)"
  shows "i = j"
  using assms own_slot nr_of_inj by metis

lemma scan_finds_slot:
  assumes "inv s" "i < length (slots s)" "live (slots s ! i)" "ep_of (slots s ! i) = e"
  shows "first_idx (\<lambda>p. live p \<and> ep_of p = e) (slots s) = Some i"
  using assms by (intro first_idx_unique) (auto intro: endpoint_unique)

lemma live_endpoints_distinct:
  assumes "inv s"
  shows "distinct (List.map ep_of (filter live (slots s)))"
proof -
  have "distinct (List.map ep_of (filter live xs))"
    if "\<And>i j. i < length xs \<Longrightarrow> j < length xs \<Longrightarrow> live (xs ! i) \<Longrightarrow> live (xs ! j) \<Longrightarrow>
          ep_of (xs ! i) = ep_of (xs ! j) \<Longrightarrow> i = j" for xs
    using that
  proof (induction xs)
    case (Cons x xs)
    have "distinct (List.map ep_of (filter live xs))"
      using Cons.prems [of "Suc _" "Suc _"] by (intro Cons.IH) auto
    moreover have "ep_of y \<noteq> ep_of x" if "live x" "y \<in> set xs" "live y" for y
    proof -
      from \<open>y \<in> set xs\<close> obtain k where "k < length xs" "xs ! k = y"
        by (auto simp: in_set_conv_nth)
      with that Cons.prems [of "Suc k" 0] show ?thesis by auto
    qed
    ultimately show ?case by fastforce
  qed simp
  with assms endpoint_unique show ?thesis by blast
qed

end

end
