(* ===== verification/Slugmem.thy ===== *)
theory Slugmem
  imports Prelude "HOL-Library.Signed_Division"
begin

text \<open>
  The allocation tracker of \<^verbatim>\<open>src/Project_3/slugmem.c\<close>: an open-addressing hash table of
  allocation records, the wrappers \<^verbatim>\<open>slug_malloc\<close> and \<^verbatim>\<open>slug_free\<close>, and the two \<^verbatim>\<open>atexit\<close>
  handlers \<^verbatim>\<open>leak_detection\<close> and \<^verbatim>\<open>slug_memstats\<close>.

  A \<^verbatim>\<open>struct allocation *\<close> is stored in exactly one slot of the table, so a slot holds the
  record itself and a pointer returned by \<^verbatim>\<open>is_in_hashtable\<close> is the index of the slot.
  Addresses and sizes are 32-bit unsigned values kept as natural numbers, with \<^const>\<open>u32\<close> written
  where the C expression can wrap. What \<^verbatim>\<open>malloc\<close> and \<^verbatim>\<open>time\<close> return is an argument.
  The probing loops and the mutual recursion of \<^verbatim>\<open>insert_into_hashtable\<close> and
  \<^verbatim>\<open>double_hashtable\<close> are \<^theory_text>\<open>partial_function (option)\<close>: the value
  \<^const>\<open>None\<close> is a call that does not return (it loops, or divides by a table size of zero; the
  table invariant below excludes both). The tracker's own bookkeeping allocations are taken to
  succeed, as the C code does not check them.
\<close>

subsection \<open>Data\<close>

record allocation =
  loc :: nat
  where_at :: string
  when_at :: nat
  alloc_size :: nat
  active :: bool

record hashtable =
  ht_size :: nat
  ht_load :: nat
  table :: "allocation option list"
  active_entries :: "32 word"

datatype event =
    NoAllocations
  | UnusualZero string
  | ErrOver128MB string nat
  | ErrNotAllocated string nat
  | ErrAlreadyFreed string
  | ErrLeak string
  | TableEntry nat allocation
  | AverageSize int
  | StdDevOf int
  | Problems
  | NoProblems

datatype handler = H_memstats | H_leak

text \<open>The global pointer \<^verbatim>\<open>ht\<close>: \<^verbatim>\<open>destroy_hashtable\<close> frees the table without resetting it.\<close>

datatype ht_pointer = Null | Live hashtable | Dangling

record slug =
  ht :: ht_pointer
  EXIT_STATUS :: nat
  out :: "event list"
  released :: "nat list"
  handlers :: "handler list"

text \<open>
  How a call ends: it returns, it calls \<^verbatim>\<open>exit(0)\<close>, it never returns, or it performs an operation
  C leaves undefined (a division by zero, a use of a freed table).
\<close>

datatype 'a outcome = Ret 'a slug | Exits slug | Loops | Undefined

subsection \<open>The hash table\<close>

definition hash_pos :: "hashtable \<Rightarrow> nat \<Rightarrow> nat" where
  "hash_pos h l = l mod ht_size h"

definition next_pos :: "hashtable \<Rightarrow> nat \<Rightarrow> nat" where
  "next_pos h pos = u32 (pos + 1) mod ht_size h"

text \<open>The linear-probing loop of \<^verbatim>\<open>insert_into_hashtable\<close>: the first empty slot from \<^term>\<open>pos\<close> on.\<close>

partial_function (option) probe_free :: "hashtable \<Rightarrow> nat \<Rightarrow> nat option" where
  "probe_free h pos =
     (case table h ! pos of
        None \<Rightarrow> Some pos
      | Some a \<Rightarrow> probe_free h (next_pos h pos))"

text \<open>The loop of \<^verbatim>\<open>is_in_hashtable\<close>: the outer option is termination, the inner one the pointer.\<close>

partial_function (option) probe_find :: "hashtable \<Rightarrow> nat \<Rightarrow> nat \<Rightarrow> nat option option" where
  "probe_find h l pos =
     (case table h ! pos of
        None \<Rightarrow> Some None
      | Some a \<Rightarrow> if loc a = l then Some (Some pos) else probe_find h l (next_pos h pos))"

definition is_in_hashtable :: "hashtable \<Rightarrow> nat \<Rightarrow> nat option option" where
  "is_in_hashtable h l = (if ht_size h = 0 then None else probe_find h l (hash_pos h l))"

text \<open>The part of \<^verbatim>\<open>insert_into_hashtable\<close> after the load test.\<close>

definition place :: "hashtable \<Rightarrow> allocation \<Rightarrow> hashtable option" where
  "place h a =
     (case (if ht_size h = 0 then None else probe_free h (hash_pos h (loc a))) of
        None \<Rightarrow> None
      | Some pos \<Rightarrow> Some (h\<lparr>table := (table h)[pos := Some a],
                            ht_load := u32 (ht_load h + 1),
                            active_entries := active_entries h + 1\<rparr>))"

text \<open>The squared size and the fresh table \<^verbatim>\<open>double_hashtable\<close> installs.\<close>

definition enlarge :: "hashtable \<Rightarrow> hashtable" where
  "enlarge h =
     (let n = u32 (ht_size h * ht_size h) in h\<lparr>ht_size := n, table := replicate n None\<rparr>)"

definition entries :: "hashtable \<Rightarrow> allocation list" where
  "entries h = map the (filter (\<lambda>e. e \<noteq> None) (table h))"

text \<open>
  \<^verbatim>\<open>insert_into_hashtable\<close> calls \<^verbatim>\<open>double_hashtable\<close>, which calls \<^verbatim>\<open>insert_into_hashtable\<close> for every
  entry of the old table. \<open>insert_all\<close> is that recursion: it inserts a list of
  entries one after the other, each with its own load test.
\<close>

partial_function (option) insert_all :: "hashtable \<Rightarrow> allocation list \<Rightarrow> hashtable option" where
  "insert_all h as =
     (case as of
        [] \<Rightarrow> Some h
      | a # rest \<Rightarrow>
          Option.bind
            (if u32 (ht_load h * 4) > ht_size h then insert_all (enlarge h) (entries h) else Some h)
            (\<lambda>h1. Option.bind (place h1 a) (\<lambda>h2. insert_all h2 rest)))"

definition double_hashtable :: "hashtable \<Rightarrow> hashtable option" where
  "double_hashtable h = insert_all (enlarge h) (entries h)"

definition insert_into_hashtable :: "hashtable \<Rightarrow> allocation \<Rightarrow> hashtable option" where
  "insert_into_hashtable h a = insert_all h [a]"

definition init_hashtable :: "32 word \<Rightarrow> slug \<Rightarrow> slug" where
  "init_hashtable junk s =
     s\<lparr>ht := Live \<lparr>ht_size = 2049, ht_load = 0, table = replicate 2049 None,
                   active_entries = junk\<rparr>,
       handlers := handlers s @ [H_memstats, H_leak]\<rparr>"

definition destroy_hashtable :: "slug \<Rightarrow> slug" where
  "destroy_hashtable s = s\<lparr>ht := Dangling\<rparr>"

subsection \<open>The wrappers\<close>

text \<open>
  \<^verbatim>\<open>slug_malloc(size, where)\<close>. \<open>junk\<close> is the indeterminate initial value of
  \<^verbatim>\<open>active_entries\<close>, \<open>now\<close> the result of \<^verbatim>\<open>time\<close> and \<open>l\<close> the result of \<^verbatim>\<open>malloc(size)\<close>.
\<close>

definition slug_malloc ::
  "32 word \<Rightarrow> nat \<Rightarrow> nat \<Rightarrow> nat \<Rightarrow> string \<Rightarrow> slug \<Rightarrow> nat outcome" where
  "slug_malloc junk now l sz w s0 =
     (let s1 = (if ht s0 = Null then init_hashtable junk s0 else s0);
          s2 = (if sz = 0 then s1\<lparr>out := out s1 @ [UnusualZero w]\<rparr> else s1)
      in if sz \<ge> 128000000
         then Exits (s2\<lparr>out := out s2 @ [ErrOver128MB w sz], EXIT_STATUS := 1\<rparr>)
         else case ht s2 of
                Live h \<Rightarrow>
                  (case insert_into_hashtable h
                          \<lparr>loc = l, where_at = w, when_at = now, alloc_size = sz, active = True\<rparr> of
                     None \<Rightarrow> Loops
                   | Some h' \<Rightarrow> Ret l (s2\<lparr>ht := Live h'\<rparr>))
              | _ \<Rightarrow> Undefined)"

definition deactivate :: "hashtable \<Rightarrow> nat \<Rightarrow> hashtable" where
  "deactivate h i = h\<lparr>table := (table h)[i := map_option (active_update (\<lambda>_. False)) (table h ! i)]\<rparr>"

definition slug_free :: "nat \<Rightarrow> string \<Rightarrow> slug \<Rightarrow> unit outcome" where
  "slug_free addr w s =
     (case ht s of
        Null \<Rightarrow> Exits (s\<lparr>out := out s @ [ErrNotAllocated w addr], EXIT_STATUS := 1\<rparr>)
      | Dangling \<Rightarrow> Undefined
      | Live h \<Rightarrow>
          (case is_in_hashtable h addr of
             None \<Rightarrow> Loops
           | Some None \<Rightarrow> Exits (s\<lparr>out := out s @ [ErrNotAllocated w addr], EXIT_STATUS := 1\<rparr>)
           | Some (Some i) \<Rightarrow>
               (case table h ! i of
                  None \<Rightarrow> Undefined
                | Some a \<Rightarrow>
                    if \<not> active a
                    then Exits (s\<lparr>out := out s @ [ErrAlreadyFreed w], EXIT_STATUS := 1\<rparr>)
                    else Ret () (s\<lparr>ht := Live (deactivate h i),
                                    released := released s @ [loc a]\<rparr>))))"

subsection \<open>The exit handlers\<close>

text \<open>\<^verbatim>\<open>leak_detection\<close> keeps the position of the last active entry of the scan.\<close>

fun leak_scan :: "allocation option list \<Rightarrow> string option \<Rightarrow> string option" where
  "leak_scan [] found = found"
| "leak_scan (None # es) found = leak_scan es found"
| "leak_scan (Some a # es) found =
     leak_scan es (if active a then Some (where_at a) else found)"

definition leak_detection :: "slug \<Rightarrow> unit outcome" where
  "leak_detection s =
     (case ht s of
        Live h \<Rightarrow>
          (case leak_scan (table h) None of
             Some w \<Rightarrow> Exits (s\<lparr>out := out s @ [ErrLeak w], EXIT_STATUS := 1\<rparr>)
           | None \<Rightarrow> Ret () s)
      | _ \<Rightarrow> Undefined)"

text \<open>
  The first loop of \<^verbatim>\<open>slug_memstats\<close>: the printed entries, \<^verbatim>\<open>n_allocs\<close> and the 32-bit \<^verbatim>\<open>total\<close>.
\<close>

fun stat_scan ::
  "nat \<Rightarrow> allocation option list \<Rightarrow> event list \<times> nat \<times> 32 word \<Rightarrow> event list \<times> nat \<times> 32 word" where
  "stat_scan i [] acc = acc"
| "stat_scan i (None # es) acc = stat_scan (Suc i) es acc"
| "stat_scan i (Some a # es) (evs, n, tot) =
     stat_scan (Suc i) es (evs @ [TableEntry i a], n + 1, tot + of_nat (alloc_size a))"

text \<open>The second loop: the sum of squared differences that \<^verbatim>\<open>sqrt\<close> is applied to.\<close>

definition dev_sum :: "hashtable \<Rightarrow> int \<Rightarrow> int" where
  "dev_sum h mean = sum_list (map (\<lambda>a. (int (alloc_size a) - mean) ^ 2) (entries h))"

definition slug_memstats :: "slug \<Rightarrow> unit outcome" where
  "slug_memstats s =
     (case ht s of
        Null \<Rightarrow> Exits (s\<lparr>out := out s @ [NoAllocations]\<rparr>)
      | Dangling \<Rightarrow> Undefined
      | Live h \<Rightarrow>
          (let (evs, n, tot) = stat_scan 0 (table h) ([], 0, 0)
           in if n = 0 then Undefined
              else let mean = sint tot sdiv int n
                   in Ret () (destroy_hashtable (s\<lparr>out := out s @ evs @
                        [AverageSize mean, StdDevOf (dev_sum h mean)] @
                        (if EXIT_STATUS s = 1 then [Problems] else []) @
                        (if EXIT_STATUS s = 0 then [NoProblems] else [])\<rparr>))))"

fun run_handler :: "handler \<Rightarrow> slug \<Rightarrow> unit outcome" where
  "run_handler H_memstats s = slug_memstats s"
| "run_handler H_leak s = leak_detection s"

text \<open>
  Process exit: the registered handlers run, last registered first. A handler that calls
  \<^verbatim>\<open>exit\<close> itself calls it a second time, which C leaves undefined.
\<close>

fun run_handlers :: "handler list \<Rightarrow> slug \<Rightarrow> unit outcome" where
  "run_handlers [] s = Ret () s"
| "run_handlers (x # xs) s =
     (case run_handler x s of
        Ret u s' \<Rightarrow> run_handlers xs s'
      | Exits s' \<Rightarrow> Undefined
      | Loops \<Rightarrow> Loops
      | Undefined \<Rightarrow> Undefined)"

definition process_exit :: "slug \<Rightarrow> unit outcome" where
  "process_exit s = run_handlers (rev (handlers s)) s"

subsection \<open>Probing\<close>

text \<open>
  \<open>slot_at h l k\<close> is the slot the probe for address \<open>l\<close> inspects in its \<open>k\<close>-th iteration.
\<close>

definition slot_at :: "hashtable \<Rightarrow> nat \<Rightarrow> nat \<Rightarrow> allocation option" where
  "slot_at h l k = table h ! ((l + k) mod ht_size h)"

definition ht_dims :: "hashtable \<Rightarrow> bool" where
  "ht_dims h \<longleftrightarrow> length (table h) = ht_size h \<and> 0 < ht_size h \<and> ht_size h < 2 ^ 31"

lemma next_pos_mod: "ht_dims h \<Longrightarrow> next_pos h (l mod ht_size h) = Suc l mod ht_size h"
proof -
  assume d: "ht_dims h"
  then have "l mod ht_size h < ht_size h" and "ht_size h < 2 ^ 31"
    by (simp_all add: ht_dims_def)
  then have "Suc (l mod ht_size h) < 2 ^ 32" by simp
  then show ?thesis by (simp add: next_pos_def u32_def mod_Suc_eq)
qed

lemma probe_free_step:
  assumes "ht_dims h" and "\<And>j. j < k \<Longrightarrow> slot_at h l j \<noteq> None" and "slot_at h l k = None"
  shows "probe_free h (l mod ht_size h) = Some ((l + k) mod ht_size h)"
  using assms(2,3)
proof (induction k arbitrary: l)
  case 0
  then show ?case by (subst probe_free.simps) (simp add: slot_at_def)
next
  case (Suc k)
  from Suc.prems(1) [of 0] obtain a where "table h ! (l mod ht_size h) = Some a"
    by (auto simp: slot_at_def)
  moreover have "probe_free h (Suc l mod ht_size h) = Some ((Suc l + k) mod ht_size h)"
    using Suc.prems by (intro Suc.IH) (force simp: slot_at_def)+
  ultimately show ?case
    by (subst probe_free.simps) (simp add: next_pos_mod assms(1))
qed

definition misses :: "nat \<Rightarrow> allocation option \<Rightarrow> bool" where
  "misses l e \<longleftrightarrow> (\<exists>a. e = Some a \<and> loc a \<noteq> l)"

lemma probe_find_step:
  assumes "ht_dims h" and "\<And>j. j < k \<Longrightarrow> misses x (slot_at h l j)" and "\<not> misses x (slot_at h l k)"
  shows "probe_find h x (l mod ht_size h) =
           Some (if slot_at h l k = None then None else Some ((l + k) mod ht_size h))"
  using assms(2,3)
proof (induction k arbitrary: l)
  case 0
  then show ?case
    by (subst probe_find.simps) (auto simp: slot_at_def misses_def split: option.splits)
next
  case (Suc k)
  from Suc.prems(1) [of 0] obtain a where "table h ! (l mod ht_size h) = Some a" "loc a \<noteq> x"
    by (auto simp: slot_at_def misses_def)
  moreover have "probe_find h x (Suc l mod ht_size h) =
      Some (if slot_at h (Suc l) k = None then None else Some ((Suc l + k) mod ht_size h))"
    using Suc.prems by (intro Suc.IH) (force simp: slot_at_def)+
  ultimately show ?case
    by (subst probe_find.simps) (simp add: next_pos_mod assms(1) slot_at_def)
qed

text \<open>Every slot is reached by the probe of every address.\<close>

lemma slot_reached:
  assumes "i < n"
  shows "\<exists>k < n. (l + k) mod n = (i::nat)"
proof -
  let ?k = "(i + (n - l mod n)) mod n"
  have "(l + ?k) mod n = (l mod n + (i + (n - l mod n))) mod n"
    by (metis mod_add_eq mod_add_right_eq mod_mod_trivial)
  also have "l mod n + (i + (n - l mod n)) = i + n"
    using assms mod_less_divisor [of n l] by linarith
  finally have "(l + ?k) mod n = i" using assms by simp
  moreover have "?k < n" using assms by simp
  ultimately show ?thesis by blast
qed

lemma least_stop:
  assumes "\<exists>k < n. Q k"
  shows "\<exists>k < (n::nat). Q k \<and> (\<forall>j < k. \<not> Q j)"
proof -
  from assms obtain k where k: "k < n" "Q k" by blast
  then obtain m where m: "Q m" "\<forall>j < m. \<not> Q j"
    using exists_least_iff [of Q] by blast
  with k have "m < n" by (meson le_less_trans not_le)
  with m show ?thesis by blast
qed

lemma free_slot:
  assumes "ht_dims h" "None \<in> set (table h)"
  shows "\<exists>k < ht_size h. slot_at h l k = None \<and> (\<forall>j < k. slot_at h l j \<noteq> None)"
proof (rule least_stop)
  from assms obtain i where "i < ht_size h" "table h ! i = None"
    by (metis in_set_conv_nth ht_dims_def)
  then show "\<exists>k < ht_size h. slot_at h l k = None"
    using slot_reached [of i "ht_size h" l] by (auto simp: slot_at_def)
qed

subsection \<open>The table invariant\<close>

text \<open>
  Every stored record lies on its own probe sequence with no empty slot before it, the load counts
  at least the stored records, and the load never passes a quarter of the size by more than one
  insertion.
\<close>

definition on_path :: "hashtable \<Rightarrow> nat \<Rightarrow> nat \<Rightarrow> bool" where
  "on_path h l i \<longleftrightarrow>
     (\<exists>d < ht_size h. (l + d) mod ht_size h = i \<and> (\<forall>j < d. slot_at h l j \<noteq> None))"

definition ht_wf :: "hashtable \<Rightarrow> bool" where
  "ht_wf h \<longleftrightarrow> ht_dims h \<and>
     (\<forall>i < ht_size h. \<forall>a. table h ! i = Some a \<longrightarrow> on_path h (loc a) i)"

definition ht_inv :: "hashtable \<Rightarrow> bool" where
  "ht_inv h \<longleftrightarrow> ht_wf h \<and> length (entries h) \<le> ht_load h \<and> 16 \<le> ht_size h \<and>
     4 * ht_load h \<le> ht_size h + 4"

text \<open>The next insertion either needs no resize or can square the size without wrapping.\<close>

definition ht_grow :: "hashtable \<Rightarrow> bool" where
  "ht_grow h \<longleftrightarrow> 4 * ht_load h \<le> ht_size h \<or> ht_size h * ht_size h < 2 ^ 31"

lemma mset_entries: "mset (entries h) = image_mset the (filter_mset (\<lambda>e. e \<noteq> None) (mset (table h)))"
  by (simp add: entries_def mset_filter)

lemma set_entries: "a \<in> set (entries h) \<longleftrightarrow> Some a \<in> set (table h)"
  by (force simp: entries_def)

lemma entries_room: "length (entries h) < length (table h) \<Longrightarrow> None \<in> set (table h)"
proof (rule ccontr)
  assume "length (entries h) < length (table h)" "None \<notin> set (table h)"
  moreover from this(2) have "filter (\<lambda>e. e \<noteq> None) (table h) = table h"
    unfolding filter_id_conv by metis
  ultimately show False by (simp add: entries_def)
qed

lemma ht_wf_room: "ht_wf h \<Longrightarrow> length (entries h) < ht_size h \<Longrightarrow> None \<in> set (table h)"
  by (simp add: entries_room ht_wf_def ht_dims_def)

lemma ht_inv_room: "ht_inv h \<Longrightarrow> None \<in> set (table h)"
  by (rule ht_wf_room) (auto simp: ht_inv_def)

lemma mset_fill:
  assumes "p < length xs" "xs ! p = None"
  shows "image_mset the (filter_mset (\<lambda>e. e \<noteq> None) (mset (xs[p := Some a]))) =
         add_mset a (image_mset the (filter_mset (\<lambda>e. e \<noteq> None) (mset xs)))"
  using assms by (simp add: mset_update)

lemma place_ok:
  assumes "ht_wf h" "None \<in> set (table h)"
  obtains p where "p < ht_size h" "table h ! p = None"
    "place h a = Some (h\<lparr>table := (table h)[p := Some a], ht_load := u32 (ht_load h + 1),
                         active_entries := active_entries h + 1\<rparr>)"
    "on_path h (loc a) p"
proof -
  have d: "ht_dims h" using assms(1) by (simp add: ht_wf_def)
  obtain k where k: "k < ht_size h" "slot_at h (loc a) k = None"
      "\<forall>j < k. slot_at h (loc a) j \<noteq> None"
    using free_slot [OF d assms(2)] by blast
  have "probe_free h (hash_pos h (loc a)) = Some ((loc a + k) mod ht_size h)"
    unfolding hash_pos_def using k by (intro probe_free_step d) auto
  moreover have "on_path h (loc a) ((loc a + k) mod ht_size h)"
    using k by (auto simp: on_path_def)
  ultimately show ?thesis
    using that [of "(loc a + k) mod ht_size h"] k(2) d
    by (simp add: place_def slot_at_def ht_dims_def)
qed

lemma on_path_mono:
  assumes "on_path h l i" "ht_size h' = ht_size h"
    "\<And>j. j < ht_size h \<Longrightarrow> table h ! j \<noteq> None \<Longrightarrow> table h' ! j \<noteq> None" "0 < ht_size h"
  shows "on_path h' l i"
  using assms unfolding on_path_def slot_at_def by (metis mod_less_divisor)

lemma ht_wf_fill:
  assumes "ht_wf h" "p < ht_size h" "on_path h (loc a) p"
  shows "ht_wf (h\<lparr>table := (table h)[p := Some a], ht_load := n, active_entries := m\<rparr>)"
    (is "ht_wf ?h")
proof -
  have d: "length (table h) = ht_size h" "0 < ht_size h" "ht_size h < 2 ^ 31"
    using assms(1) by (auto simp: ht_wf_def ht_dims_def)
  have mono: "on_path ?h l i" if "on_path h l i" for l i
    by (rule on_path_mono [OF that]) (auto simp: nth_list_update d assms(2))
  show ?thesis
    using assms d by (auto simp: ht_wf_def ht_dims_def nth_list_update intro: mono)
qed

lemma place_spec:
  assumes "ht_wf h" "length (entries h) < ht_size h" "ht_load h + 1 < 2 ^ 32"
  obtains h' where "place h a = Some h'" "ht_wf h'" "ht_size h' = ht_size h"
    "ht_load h' = ht_load h + 1" "mset (entries h') = add_mset a (mset (entries h))"
proof -
  obtain p where p: "p < ht_size h" "table h ! p = None" "on_path h (loc a) p"
    "place h a = Some (h\<lparr>table := (table h)[p := Some a], ht_load := u32 (ht_load h + 1),
                         active_entries := active_entries h + 1\<rparr>)"
    using place_ok [OF assms(1) ht_wf_room [OF assms(1,2)]] by blast
  have "length (table h) = ht_size h" using assms(1) by (simp add: ht_wf_def ht_dims_def)
  with p that [OF p(4)] show ?thesis
    using assms(3) mset_fill [of p "table h" a]
    by (simp add: ht_wf_fill assms(1) mset_entries u32_id)
qed

text \<open>Insertions that all pass the load test.\<close>

lemma insert_all_fits:
  assumes "ht_wf h" "length (entries h) \<le> ht_load h"
    "as \<noteq> [] \<Longrightarrow> 4 * (ht_load h + length as) \<le> ht_size h + 4" "16 \<le> ht_size h"
  shows "\<exists>h'. insert_all h as = Some h' \<and> ht_wf h' \<and> ht_size h' = ht_size h \<and>
     ht_load h' = ht_load h + length as \<and> mset (entries h') = mset (entries h) + mset as"
  using assms
proof (induction as arbitrary: h)
  case Nil
  then show ?case by (subst insert_all.simps) simp
next
  case (Cons a as)
  have sz: "ht_size h < 2 ^ 31" using Cons.prems(1) by (simp add: ht_wf_def ht_dims_def)
  have ld: "4 * ht_load h \<le> ht_size h" using Cons.prems(3) by simp
  with sz have test: "\<not> u32 (ht_load h * 4) > ht_size h"
    by (simp add: u32_id mult.commute)
  obtain h1 where h1: "place h a = Some h1" "ht_wf h1" "ht_size h1 = ht_size h"
      "ht_load h1 = ht_load h + 1" "mset (entries h1) = add_mset a (mset (entries h))"
    using Cons.prems(2,4) ld sz by (rule_tac place_spec [OF Cons.prems(1), of a]) auto
  have "length (entries h1) = length (entries h) + 1"
    using h1(5) by (metis add_mset_add_single size_mset size_add_mset Suc_eq_plus1)
  then obtain h2 where "insert_all h1 as = Some h2" "ht_wf h2" "ht_size h2 = ht_size h1"
      "ht_load h2 = ht_load h1 + length as" "mset (entries h2) = mset (entries h1) + mset as"
    using Cons.IH [of h1] Cons.prems h1 by auto
  then show ?case
    using h1 test by (subst insert_all.simps) simp
qed

lemma enlarge_wf:
  assumes "ht_dims h" "ht_size h * ht_size h < 2 ^ 31"
  shows "ht_wf (enlarge h)" "ht_size (enlarge h) = ht_size h * ht_size h"
    "ht_load (enlarge h) = ht_load h" "entries (enlarge h) = []"
  using assms by (simp_all add: enlarge_def Let_def ht_wf_def ht_dims_def u32_id entries_def)

lemma double_hashtable_spec:
  assumes "ht_inv h" "ht_size h * ht_size h < 2 ^ 31"
  shows "\<exists>h'. double_hashtable h = Some h' \<and> ht_wf h' \<and> ht_size h' = ht_size h * ht_size h \<and>
     ht_load h' = ht_load h + length (entries h) \<and> mset (entries h') = mset (entries h)"
proof -
  have d: "ht_dims h" and inv: "length (entries h) \<le> ht_load h" "16 \<le> ht_size h"
      "4 * ht_load h \<le> ht_size h + 4"
    using assms(1) by (auto simp: ht_inv_def ht_wf_def)
  have "16 * ht_size h \<le> ht_size h * ht_size h" using inv(2) by (rule mult_le_mono1)
  note sq = this
  have "4 * (ht_load h + length (entries h)) \<le> 16 * ht_size h + 4" using inv by simp
  with sq have fit: "4 * (ht_load h + length (entries h)) \<le> ht_size h * ht_size h + 4"
    by (meson add_le_mono1 le_trans)
  have big: "16 \<le> ht_size h * ht_size h" using sq inv(2) by (meson le_trans mult_le_mono2 le_square)
  have "\<exists>h'. insert_all (enlarge h) (entries h) = Some h' \<and> ht_wf h' \<and>
      ht_size h' = ht_size (enlarge h) \<and>
      ht_load h' = ht_load (enlarge h) + length (entries h) \<and>
      mset (entries h') = mset (entries (enlarge h)) + mset (entries h)"
    using fit big by (intro insert_all_fits) (simp_all add: enlarge_wf [OF d assms(2)])
  then show ?thesis
    by (simp add: double_hashtable_def enlarge_wf [OF d assms(2)])
qed

lemma insert_into_hashtable_eq:
  "insert_into_hashtable h a =
     Option.bind (if u32 (ht_load h * 4) > ht_size h then double_hashtable h else Some h)
       (\<lambda>h1. place h1 a)"
proof -
  have "insert_all h2 [] = Some h2" for h2
    by (subst insert_all.simps) simp
  then show ?thesis
    unfolding insert_into_hashtable_def double_hashtable_def
    by (subst insert_all.simps) simp
qed

lemma insert_spec:
  assumes "ht_inv h" "ht_grow h"
  shows "\<exists>h'. insert_into_hashtable h a = Some h' \<and> ht_inv h' \<and>
     mset (entries h') = add_mset a (mset (entries h)) \<and>
     (ht_size h', ht_load h') =
       (if 4 * ht_load h \<le> ht_size h then (ht_size h, ht_load h + 1)
        else (ht_size h * ht_size h, ht_load h + length (entries h) + 1))"
proof -
  have wf: "ht_wf h" and inv: "length (entries h) \<le> ht_load h" "16 \<le> ht_size h"
      "4 * ht_load h \<le> ht_size h + 4" and sz: "ht_size h < 2 ^ 31"
    using assms(1) by (auto simp: ht_inv_def ht_wf_def ht_dims_def)
  have ld: "u32 (ht_load h * 4) = 4 * ht_load h"
    using inv sz by (simp add: u32_id mult.commute)
  obtain h1 where h1: "(if u32 (ht_load h * 4) > ht_size h then double_hashtable h else Some h) = Some h1"
      "ht_wf h1" "mset (entries h1) = mset (entries h)" "4 * ht_load h1 \<le> ht_size h1"
      "length (entries h) \<le> ht_load h1" "16 \<le> ht_size h1"
      "(ht_size h1, ht_load h1) =
         (if 4 * ht_load h \<le> ht_size h then (ht_size h, ht_load h)
          else (ht_size h * ht_size h, ht_load h + length (entries h)))"
  proof (cases "4 * ht_load h \<le> ht_size h")
    case True
    with that [of h] wf inv ld show ?thesis by simp
  next
    case False
    with assms(2) have sq: "ht_size h * ht_size h < 2 ^ 31" by (simp add: ht_grow_def)
    obtain h' where h': "double_hashtable h = Some h'" "ht_wf h'"
        "ht_size h' = ht_size h * ht_size h" "ht_load h' = ht_load h + length (entries h)"
        "mset (entries h') = mset (entries h)"
      using double_hashtable_spec [OF assms(1) sq] by blast
    have "16 * ht_size h \<le> ht_size h * ht_size h" using inv(2) by simp
    with False h' inv ld that [of h'] show ?thesis by simp
  qed
  have len: "length (entries h1) = length (entries h)"
    using h1(3) by (metis size_mset)
  have sz1: "ht_size h1 < 2 ^ 31" using h1(2) by (simp add: ht_wf_def ht_dims_def)
  obtain h2 where h2: "place h1 a = Some h2" "ht_wf h2" "ht_size h2 = ht_size h1"
      "ht_load h2 = ht_load h1 + 1" "mset (entries h2) = add_mset a (mset (entries h1))"
    using h1 len sz1 by (rule_tac place_spec [OF h1(2), of a]) auto
  have "length (entries h2) = length (entries h1) + 1"
    using h2(5) by (metis Suc_eq_plus1 size_add_mset size_mset)
  with h1 h2 len show ?thesis
    by (auto simp: insert_into_hashtable_eq ht_inv_def)
qed

subsection \<open>Lookup and deactivation\<close>

lemma nth_of_member:
  assumes "x \<in> set xs" obtains i where "i < length xs" "xs ! i = x"
  using assms by (auto simp: in_set_conv_nth)

lemma slot_at_in_table:
  assumes "ht_dims h" shows "slot_at h l k \<in> set (table h)"
  using assms by (simp add: slot_at_def ht_dims_def)

lemma is_in_hashtable_absent:
  assumes "ht_inv h" "l \<notin> loc ` set (entries h)"
  shows "is_in_hashtable h l = Some None"
proof -
  have d: "ht_dims h" using assms(1) by (simp add: ht_inv_def ht_wf_def)
  obtain k where k: "slot_at h l k = None" "\<forall>j < k. slot_at h l j \<noteq> None"
    using free_slot [OF d ht_inv_room [OF assms(1)]] by blast
  have "misses l (slot_at h l j)" if "j < k" for j
    using k(2) that slot_at_in_table [OF d, of l j] assms(2)
    by (fastforce simp: misses_def set_entries image_iff)
  then have "probe_find h l (l mod ht_size h) = Some None"
    using probe_find_step [OF d, of k l l] k(1) by (simp add: misses_def)
  with d show ?thesis by (simp add: is_in_hashtable_def hash_pos_def ht_dims_def)
qed

lemma is_in_hashtable_present:
  assumes "ht_inv h" "l \<in> loc ` set (entries h)"
  shows "\<exists>i a. is_in_hashtable h l = Some (Some i) \<and> i < length (table h) \<and>
     table h ! i = Some a \<and> loc a = l"
proof -
  have d: "ht_dims h" and wf: "ht_wf h" using assms(1) by (auto simp: ht_inv_def ht_wf_def)
  obtain a where "Some a \<in> set (table h)" "loc a = l"
    using assms(2) set_entries by blast
  with d obtain i where "i < ht_size h" "table h ! i = Some a"
    by (metis nth_of_member ht_dims_def)
  with wf \<open>loc a = l\<close> have "on_path h l i" by (auto simp: ht_wf_def)
  with \<open>table h ! i = Some a\<close> obtain n where n: "n < ht_size h" "slot_at h l n = Some a"
      "\<forall>j < n. slot_at h l j \<noteq> None"
    unfolding on_path_def slot_at_def by blast
  then have "\<exists>k < Suc n. \<not> misses l (slot_at h l k)"
    using \<open>loc a = l\<close> by (auto simp: misses_def)
  then obtain k where k: "k < Suc n" "\<not> misses l (slot_at h l k)"
      "\<forall>j < k. misses l (slot_at h l j)"
    using least_stop [of "Suc n" "\<lambda>k. \<not> misses l (slot_at h l k)"] by auto
  then obtain b where b: "slot_at h l k = Some b" "loc b = l"
    using n by (cases "k < n") (auto simp: misses_def less_Suc_eq)
  have "probe_find h l (l mod ht_size h) = Some (Some ((l + k) mod ht_size h))"
    using probe_find_step [OF d, of k l l] k b by simp
  with b d show ?thesis
    by (auto simp: is_in_hashtable_def hash_pos_def ht_dims_def slot_at_def)
qed

lemma deactivate_spec:
  assumes "ht_inv h" "i < length (table h)" "table h ! i = Some a"
  shows "ht_inv (deactivate h i)"
    "mset (entries (deactivate h i)) = add_mset (a\<lparr>active := False\<rparr>) (mset (entries h) - {#a#})"
proof -
  let ?t = "(table h)[i := Some (a\<lparr>active := False\<rparr>)]"
  have eq: "deactivate h i = h\<lparr>table := ?t\<rparr>" using assms(3) by (simp add: deactivate_def)
  have len: "length (table h) = ht_size h" "0 < ht_size h"
    using assms(1) by (auto simp: ht_inv_def ht_wf_def ht_dims_def)
  have in_t: "Some a \<in># mset (table h)" using assms(2,3) by (metis nth_mem_mset)
  show ms: "mset (entries (deactivate h i)) =
      add_mset (a\<lparr>active := False\<rparr>) (mset (entries h) - {#a#})"
    using assms(2,3) in_t by (simp add: eq mset_entries mset_update image_mset_Diff)
  have "a \<in># mset (entries h)" using in_t by (simp add: set_entries)
  then have same: "length (entries (deactivate h i)) = length (entries h)"
    using ms by (metis insert_DiffM size_add_mset size_mset)
  have path: "on_path (deactivate h i) l j" if "on_path h l j" for l j
    by (rule on_path_mono [OF that]) (auto simp: eq nth_list_update len(2) assms(2))
  have "ht_wf (deactivate h i)"
    using assms by (auto simp: ht_inv_def ht_wf_def ht_dims_def eq nth_list_update split: if_splits
        intro: path [unfolded eq])
  with assms(1) same show "ht_inv (deactivate h i)" by (auto simp: ht_inv_def eq)
qed

subsection \<open>The interface of the record store\<close>

text \<open>
  What the wrappers rely on: the store is a multiset of records; an insertion adds one, a lookup
  finds some record with the given address if there is one, and retiring a found record clears
  its \<^verbatim>\<open>active\<close> flag.
\<close>

locale alloc_store =
  fixes inv :: "'h \<Rightarrow> bool"
    and grow :: "'h \<Rightarrow> bool"
    and contents :: "'h \<Rightarrow> allocation multiset"
    and ins :: "'h \<Rightarrow> allocation \<Rightarrow> 'h option"
    and look :: "'h \<Rightarrow> nat \<Rightarrow> nat option option"
    and slot :: "'h \<Rightarrow> nat \<Rightarrow> allocation option"
    and retire :: "'h \<Rightarrow> nat \<Rightarrow> 'h"
  assumes ins_law: "inv h \<Longrightarrow> grow h \<Longrightarrow>
      \<exists>h'. ins h a = Some h' \<and> inv h' \<and> contents h' = add_mset a (contents h)"
    and look_absent: "inv h \<Longrightarrow> l \<notin> loc ` set_mset (contents h) \<Longrightarrow> look h l = Some None"
    and look_present: "inv h \<Longrightarrow> l \<in> loc ` set_mset (contents h) \<Longrightarrow>
      \<exists>i a. look h l = Some (Some i) \<and> slot h i = Some a \<and> a \<in># contents h \<and> loc a = l"
    and retire_law: "inv h \<Longrightarrow> look h l = Some (Some i) \<Longrightarrow> slot h i = Some a \<Longrightarrow>
      inv (retire h i) \<and> contents (retire h i) = add_mset (a\<lparr>active := False\<rparr>) (contents h - {#a#})"
begin

text \<open>A record whose address no other record carries is the one found.\<close>

lemma look_unique:
  assumes "inv h" "contents h = add_mset a M" "loc a \<notin> loc ` set_mset M"
  shows "\<exists>i. look h (loc a) = Some (Some i) \<and> slot h i = Some a"
proof -
  have "loc a \<in> loc ` set_mset (contents h)" by (simp add: assms(2))
  then obtain i b where b: "look h (loc a) = Some (Some i)" "slot h i = Some b"
      "b \<in># contents h" "loc b = loc a"
    using look_present [OF assms(1)] by blast
  with assms(2,3) have "b = a" by (auto dest: sym simp: image_iff)
  with b show ?thesis by blast
qed

lemma ins_then_look:
  assumes "inv h" "grow h" "loc a \<notin> loc ` set_mset (contents h)"
  shows "\<exists>h' i. ins h a = Some h' \<and> inv h' \<and> contents h' = add_mset a (contents h) \<and>
     look h' (loc a) = Some (Some i) \<and> slot h' i = Some a"
  using ins_law [OF assms(1,2), of a] look_unique [OF _ _ assms(3)] by blast

lemma retire_unique:
  assumes "inv h" "contents h = add_mset a M" "loc a \<notin> loc ` set_mset M"
  shows "\<exists>i. look h (loc a) = Some (Some i) \<and> slot h i = Some a \<and> inv (retire h i) \<and>
     contents (retire h i) = add_mset (a\<lparr>active := False\<rparr>) M"
  using look_unique [OF assms] retire_law [OF assms(1)] assms(2) by force

end

interpretation tracker: alloc_store ht_inv ht_grow "\<lambda>h. mset (entries h)" insert_into_hashtable
  is_in_hashtable "\<lambda>h i. table h ! i" deactivate
proof (unfold_locales, goal_cases)
  case (1 h a)
  then show ?case using insert_spec by blast
next
  case (2 h l)
  then show ?case by (simp add: is_in_hashtable_absent)
next
  case (3 h l)
  then obtain i a where "is_in_hashtable h l = Some (Some i)" "i < length (table h)"
      "table h ! i = Some a" "loc a = l"
    using is_in_hashtable_present [of h l] by auto
  then show ?case by (metis nth_mem set_entries set_mset_mset)
next
  case (4 h l i a)
  have "i < length (table h)"
    using 4(1,2) is_in_hashtable_absent [of h l] is_in_hashtable_present [of h l] by fastforce
  with 4 deactivate_spec show ?case by blast
qed

subsection \<open>States of the tracker\<close>

definition slug_init :: slug where
  "slug_init = \<lparr>ht = Null, EXIT_STATUS = 0, out = [], released = [], handlers = []\<rparr>"

definition records :: "slug \<Rightarrow> allocation multiset" where
  "records s = (case ht s of Live h \<Rightarrow> mset (entries h) | _ \<Rightarrow> {#})"

definition slug_inv :: "slug \<Rightarrow> bool" where
  "slug_inv s \<longleftrightarrow> (case ht s of Live h \<Rightarrow> ht_inv h | Null \<Rightarrow> True | Dangling \<Rightarrow> False)"

definition slug_room :: "slug \<Rightarrow> bool" where
  "slug_room s \<longleftrightarrow> (case ht s of Live h \<Rightarrow> ht_grow h | _ \<Rightarrow> True)"

abbreviation new_table :: "32 word \<Rightarrow> hashtable" where
  "new_table junk \<equiv> \<lparr>ht_size = 2049, ht_load = 0, table = replicate 2049 None, active_entries = junk\<rparr>"

lemma new_table_ok: "ht_inv (new_table junk)" "ht_grow (new_table junk)" "entries (new_table junk) = []"
  by (simp_all add: ht_inv_def ht_wf_def ht_dims_def ht_grow_def entries_def)

text \<open>The state in which \<^verbatim>\<open>slug_malloc\<close> performs its insertion.\<close>

definition prepared :: "32 word \<Rightarrow> nat \<Rightarrow> string \<Rightarrow> slug \<Rightarrow> slug" where
  "prepared junk sz w s0 =
     (let s1 = (if ht s0 = Null then init_hashtable junk s0 else s0)
      in if sz = 0 then s1\<lparr>out := out s1 @ [UnusualZero w]\<rparr> else s1)"

definition new_record :: "nat \<Rightarrow> nat \<Rightarrow> nat \<Rightarrow> string \<Rightarrow> allocation" where
  "new_record now l sz w = \<lparr>loc = l, where_at = w, when_at = now, alloc_size = sz, active = True\<rparr>"

lemma new_record_simps [simp]:
  "loc (new_record now l sz w) = l" "active (new_record now l sz w)"
  "where_at (new_record now l sz w) = w" "alloc_size (new_record now l sz w) = sz"
  by (simp_all add: new_record_def)

lemma prepared_simps [simp]:
  "ht (prepared junk sz w s) = (if ht s = Null then Live (new_table junk) else ht s)"
  "released (prepared junk sz w s) = released s"
  "EXIT_STATUS (prepared junk sz w s) = EXIT_STATUS s"
  "handlers (prepared junk sz w s) = handlers s @ (if ht s = Null then [H_memstats, H_leak] else [])"
  by (simp_all add: prepared_def init_hashtable_def Let_def)

lemma prepared_live:
  assumes "slug_inv s" "slug_room s"
  obtains h where "ht (prepared junk sz w s) = Live h" "ht_inv h" "ht_grow h"
    "mset (entries h) = records s"
  using assms that new_table_ok [of junk]
  by (cases "ht s") (auto simp: slug_inv_def slug_room_def records_def)

lemma slug_malloc_live:
  assumes "ht (prepared junk sz w s) = Live h" "sz < 128000000"
  shows "slug_malloc junk now l sz w s =
     (case insert_into_hashtable h (new_record now l sz w) of
        None \<Rightarrow> Loops
      | Some h' \<Rightarrow> Ret l ((prepared junk sz w s)\<lparr>ht := Live h'\<rparr>))"
  using assms by (simp add: slug_malloc_def prepared_def new_record_def Let_def split: option.splits)

lemma slug_malloc_spec:
  assumes "slug_inv s" "slug_room s" "sz < 128000000"
  obtains h' where "slug_malloc junk now l sz w s = Ret l ((prepared junk sz w s)\<lparr>ht := Live h'\<rparr>)"
    "ht_inv h'" "mset (entries h') = add_mset (new_record now l sz w) (records s)"
proof -
  obtain h where h: "ht (prepared junk sz w s) = Live h" "ht_inv h" "ht_grow h"
      "mset (entries h) = records s"
    using prepared_live [OF assms(1,2)] by blast
  obtain h' where "insert_into_hashtable h (new_record now l sz w) = Some h'" "ht_inv h'"
      "mset (entries h') = add_mset (new_record now l sz w) (mset (entries h))"
    using tracker.ins_law [OF h(2,3)] by blast
  then show ?thesis using that h slug_malloc_live [OF h(1) assms(3)] by simp
qed

text \<open>What \<^verbatim>\<open>slug_free\<close> does when the address has exactly one record.\<close>

lemma slug_free_unique:
  assumes "ht s = Live h" "ht_inv h" "mset (entries h) = add_mset a M" "loc a \<notin> loc ` set_mset M"
  shows "\<exists>h'. ht_inv h' \<and> mset (entries h') = add_mset (a\<lparr>active := False\<rparr>) M \<and>
     slug_free (loc a) w s =
       (if active a then Ret () (s\<lparr>ht := Live h', released := released s @ [loc a]\<rparr>)
        else Exits (s\<lparr>out := out s @ [ErrAlreadyFreed w], EXIT_STATUS := 1\<rparr>))"
  using tracker.retire_unique [OF assms(2-4)] assms(1) by (auto simp: slug_free_def)

text \<open>A lookup is not disturbed by filling an empty slot.\<close>

lemma place_keeps_lookup:
  assumes "ht_inv h" "is_in_hashtable h l = Some (Some i)" "place h a = Some h'"
  shows "is_in_hashtable h' l = Some (Some i) \<and> table h' ! i = table h ! i"
proof -
  have wf: "ht_wf h" and d: "ht_dims h" using assms(1) by (auto simp: ht_inv_def ht_wf_def)
  obtain p where p: "p < ht_size h" "table h ! p = None"
      "h' = h\<lparr>table := (table h)[p := Some a], ht_load := u32 (ht_load h + 1),
             active_entries := active_entries h + 1\<rparr>"
    using place_ok [OF wf ht_inv_room [OF assms(1)], of a] assms(3) by auto
  obtain n where "slot_at h l n = None" "\<forall>j < n. slot_at h l j \<noteq> None"
    using free_slot [OF d ht_inv_room [OF assms(1)], of l] by auto
  then have "\<exists>k < Suc n. \<not> misses l (slot_at h l k)" by (auto simp: misses_def)
  then obtain k where k: "\<not> misses l (slot_at h l k)" "\<forall>j < k. misses l (slot_at h l j)"
    using least_stop [of "Suc n" "\<lambda>k. \<not> misses l (slot_at h l k)"] by auto
  then have find: "is_in_hashtable h l =
      Some (if slot_at h l k = None then None else Some ((l + k) mod ht_size h))"
    using probe_find_step [OF d, of k l l] d
    by (simp add: is_in_hashtable_def hash_pos_def ht_dims_def)
  with assms(2) have full: "slot_at h l k \<noteq> None" and i: "i = (l + k) mod ht_size h"
    by (auto split: if_splits)
  have same: "slot_at h' l j = slot_at h l j" if "slot_at h l j \<noteq> None" for j
    using that p by (cases "(l + j) mod ht_size h = p") (auto simp: slot_at_def)
  have d': "ht_dims h'" using d p by (simp add: ht_dims_def)
  have "probe_find h' l (l mod ht_size h') =
      Some (if slot_at h' l k = None then None else Some ((l + k) mod ht_size h'))"
    using k same full by (intro probe_find_step d') (auto simp: misses_def)
  then show ?thesis
    using same [OF full] full i d' p
    by (simp add: is_in_hashtable_def hash_pos_def ht_dims_def slot_at_def)
qed

lemma leak_scan_Some:
  "leak_scan es found = Some w \<Longrightarrow>
     found = Some w \<or> (\<exists>a. Some a \<in> set es \<and> active a \<and> where_at a = w)"
  by (induction es found rule: leak_scan.induct) (auto split: if_splits)

lemma leak_scan_replicate: "leak_scan (replicate n None) found = found"
  by (induction n) auto

lemma leak_scan_None:
  "leak_scan es found = None \<longleftrightarrow> found = None \<and> (\<forall>a. Some a \<in> set es \<longrightarrow> \<not> active a)"
  by (induction es found rule: leak_scan.induct) auto

lemma stat_scan_count:
  "fst (snd (stat_scan i es (evs, n, tot))) = n + length (filter (\<lambda>e. e \<noteq> None) es)"
  by (induction i es "(evs, n, tot)" arbitrary: evs n tot rule: stat_scan.induct) auto

lemma slug_memstats_empty:
  assumes "ht s = Live h" "entries h = []"
  shows "slug_memstats s = Undefined"
proof -
  obtain evs n tot where scan: "stat_scan 0 (table h) ([], 0, 0) = (evs, n, tot)"
    by (cases "stat_scan 0 (table h) ([], 0, 0)") auto
  moreover have "n = 0"
    using assms(2) stat_scan_count [of 0 "table h" "[]" 0 0] by (simp add: scan entries_def)
  ultimately show ?thesis using assms(1) by (simp add: slug_memstats_def)
qed

subsection \<open>Client programs\<close>

text \<open>A run of a client: its calls of the wrappers in order, with the results of \<^verbatim>\<open>malloc\<close>.\<close>

datatype call = Malloc nat nat nat string | Free nat string


fun exec_call :: "32 word \<Rightarrow> call \<Rightarrow> slug \<Rightarrow> unit outcome" where
  "exec_call junk (Malloc now l sz w) s =
     (case slug_malloc junk now l sz w s of
        Ret r s' \<Rightarrow> Ret () s' | Exits s' \<Rightarrow> Exits s' | Loops \<Rightarrow> Loops | Undefined \<Rightarrow> Undefined)"
| "exec_call junk (Free l w) s = slug_free l w s"

fun run_calls :: "32 word \<Rightarrow> call list \<Rightarrow> slug \<Rightarrow> unit outcome" where
  "run_calls junk [] s = Ret () s"
| "run_calls junk (c # cs) s =
     (case exec_call junk c s of Ret u s' \<Rightarrow> run_calls junk cs s' | x \<Rightarrow> x)"

text \<open>The states after at most \<open>n\<close> successful allocations, with at most one resize.\<close>

definition cap_inv :: "nat \<Rightarrow> slug \<Rightarrow> bool" where
  "cap_inv n s \<longleftrightarrow> slug_inv s \<and> size (records s) \<le> n \<and>
     (\<forall>h. ht s = Live h \<longrightarrow>
        (ht_size h = 2049 \<and> ht_load h = length (entries h)) \<or>
        (ht_size h = 4198401 \<and> ht_load h \<le> 2 * length (entries h)))"

lemma cap_inv_room: "cap_inv n s \<Longrightarrow> n < 524800 \<Longrightarrow> slug_room s"
  by (cases "ht s") (auto simp: cap_inv_def slug_room_def ht_grow_def records_def)

lemma slug_malloc_cap:
  assumes "cap_inv n s" "n < 524800" "sz < 128000000"
  shows "\<exists>s'. slug_malloc junk now l sz w s = Ret l s' \<and> cap_inv (Suc n) s'"
proof -
  have inv: "slug_inv s" using assms(1) by (simp add: cap_inv_def)
  obtain h where h: "ht (prepared junk sz w s) = Live h" "ht_inv h" "ht_grow h"
      "mset (entries h) = records s"
    using prepared_live [OF inv cap_inv_room [OF assms(1,2)]] by blast
  have dims: "(ht_size h = 2049 \<and> ht_load h = length (entries h)) \<or>
      (ht_size h = 4198401 \<and> ht_load h \<le> 2 * length (entries h))"
    using h(1) assms(1) by (auto simp: cap_inv_def new_table_ok split: if_splits)
  have len: "length (entries h) \<le> n"
    using assms(1) h(4) by (metis cap_inv_def size_mset)
  obtain h' where h': "insert_into_hashtable h (new_record now l sz w) = Some h'" "ht_inv h'"
      "mset (entries h') = add_mset (new_record now l sz w) (mset (entries h))"
      "(ht_size h', ht_load h') =
        (if 4 * ht_load h \<le> ht_size h then (ht_size h, ht_load h + 1)
         else (ht_size h * ht_size h, ht_load h + length (entries h) + 1))"
    using insert_spec [OF h(2,3)] by blast
  have len': "length (entries h') = Suc (length (entries h))"
    using h'(3) by (metis size_add_mset size_mset)
  have "cap_inv (Suc n) ((prepared junk sz w s)\<lparr>ht := Live h'\<rparr>)"
    using h' len len' dims assms(2)
    by (auto simp: cap_inv_def slug_inv_def records_def split: if_splits)
  then show ?thesis using h' slug_malloc_live [OF h(1) assms(3)] by simp
qed

lemma slug_free_cap:
  assumes "cap_inv n s"
  shows "(\<exists>s'. slug_free l w s = Ret () s' \<and> cap_inv n s') \<or> (\<exists>s'. slug_free l w s = Exits s')"
proof (cases "ht s")
  case (Live h)
  then have inv: "ht_inv h" using assms by (simp add: cap_inv_def slug_inv_def)
  show ?thesis
  proof (cases "l \<in> loc ` set_mset (mset (entries h))")
    case False
    then show ?thesis using tracker.look_absent [OF inv] Live by (auto simp: slug_free_def)
  next
    case True
    obtain i a where ia: "is_in_hashtable h l = Some (Some i)" "table h ! i = Some a"
        "a \<in># mset (entries h)"
      using tracker.look_present [OF inv True] by blast
    have d: "ht_inv (deactivate h i)"
        "mset (entries (deactivate h i)) = add_mset (a\<lparr>active := False\<rparr>) (mset (entries h) - {#a#})"
      using tracker.retire_law [OF inv ia(1,2)] by auto
    then have "length (entries (deactivate h i)) = length (entries h)"
      using ia(3) by (metis insert_DiffM size_add_mset size_mset)
    then have "cap_inv n (s\<lparr>ht := Live (deactivate h i), released := released s @ [loc a]\<rparr>)"
      using assms d(1) Live by (auto simp: cap_inv_def slug_inv_def records_def deactivate_def)
    with ia Live show ?thesis by (simp add: slug_free_def)
  qed
qed (use assms in \<open>auto simp: cap_inv_def slug_inv_def slug_free_def\<close>)

lemma run_calls_append:
  "run_calls junk (xs @ ys) s =
     (case run_calls junk xs s of Ret u s' \<Rightarrow> run_calls junk ys s' | x \<Rightarrow> x)"
  by (induction xs arbitrary: s) (auto split: outcome.splits)


text \<open>Allocating a list of blocks and freeing them again.\<close>

definition frees :: "string \<Rightarrow> nat list \<Rightarrow> call list" where
  "frees w ls = map (\<lambda>l. Free l w) ls"

definition mallocs :: "nat \<Rightarrow> nat \<Rightarrow> string \<Rightarrow> nat list \<Rightarrow> call list" where
  "mallocs now sz w ls = map (\<lambda>l. Malloc now l sz w) ls"

lemma run_mallocs:
  assumes "cap_inv n s" "n + length ls \<le> 524800" "sz < 128000000" "ls \<noteq> []"
  shows "\<exists>s'. run_calls junk (mallocs now sz w ls) s = Ret () s' \<and> cap_inv (n + length ls) s' \<and>
     (\<exists>h. ht s' = Live h) \<and>
     records s' = records s + mset (map (\<lambda>l. new_record now l sz w) ls) \<and>
     EXIT_STATUS s' = EXIT_STATUS s \<and> released s' = released s \<and>
     handlers s' = handlers s @ (if ht s = Null then [H_memstats, H_leak] else [])"
  using assms
proof (induction ls arbitrary: n s)
  case (Cons l ls)
  have inv: "slug_inv s" and room: "slug_room s"
    using Cons.prems cap_inv_room [of n s] by (auto simp: cap_inv_def)
  obtain h where h: "slug_malloc junk now l sz w s = Ret l ((prepared junk sz w s)\<lparr>ht := Live h\<rparr>)"
      "mset (entries h) = add_mset (new_record now l sz w) (records s)"
    using slug_malloc_spec [OF inv room Cons.prems(3)] by blast
  then have cap: "cap_inv (Suc n) ((prepared junk sz w s)\<lparr>ht := Live h\<rparr>)"
    using slug_malloc_cap [of n s sz junk now l w] Cons.prems by auto
  show ?case
  proof (cases "ls = []")
    case True
    with h cap show ?thesis by (simp add: mallocs_def records_def)
  next
    case False
    with Cons.IH [OF cap] Cons.prems h show ?thesis by (auto simp: mallocs_def records_def)
  qed
qed simp

lemma run_frees:
  assumes "ht s = Live h" "ht_inv h" "mset (entries h) = mset as + mset bs"
    "distinct (map loc (as @ bs))" "\<forall>a \<in> set as. active a"
  shows "\<exists>s' h'. run_calls junk (frees w (map loc as)) s = Ret () s' \<and> ht s' = Live h' \<and> ht_inv h' \<and>
     mset (entries h') = mset (map (\<lambda>a. a\<lparr>active := False\<rparr>) as) + mset bs \<and>
     EXIT_STATUS s' = EXIT_STATUS s \<and> handlers s' = handlers s \<and>
     released s' = released s @ map loc as"
  using assms
proof (induction as arbitrary: s h bs)
  case (Cons a as)
  have "loc a \<notin> loc ` set_mset (mset as + mset bs)" using Cons.prems(4) by auto
  then obtain h' where h': "ht_inv h'"
      "mset (entries h') = add_mset (a\<lparr>active := False\<rparr>) (mset as + mset bs)"
      "slug_free (loc a) w s = Ret () (s\<lparr>ht := Live h', released := released s @ [loc a]\<rparr>)"
    using slug_free_unique [OF Cons.prems(1,2), of a "mset as + mset bs" w] Cons.prems(3,5) by auto
  with Cons.prems show ?case
    using Cons.IH [of "s\<lparr>ht := Live h', released := released s @ [loc a]\<rparr>" h' "a\<lparr>active := False\<rparr> # bs"]
    by (auto simp: frees_def)
qed (simp add: frees_def)

text \<open>The calls of \<^verbatim>\<open>perfect.c\<close>: ten blocks of \<^verbatim>\<open>sizeof(int)\<close>, all freed again.\<close>

definition perfect_main :: "nat \<Rightarrow> nat list \<Rightarrow> call list" where
  "perfect_main now mem =
     mallocs now 4 ''perfect.c:12'' (take 10 mem) @ frees ''perfect.c:18'' (take 10 mem)"

text \<open>Process exit in a state where every record is inactive.\<close>

lemma process_exit_clean:
  assumes "ht s = Live h" "entries h \<noteq> []" "\<forall>a \<in> set (entries h). \<not> active a"
    "handlers s = [H_memstats, H_leak]" "EXIT_STATUS s = 0"
  shows "\<exists>s'. process_exit s = Ret () s' \<and> last (out s') = NoProblems"
proof -
  obtain evs n tot where scan: "stat_scan 0 (table h) ([], 0, 0) = (evs, n, tot)"
    by (cases "stat_scan 0 (table h) ([], 0, 0)") auto
  have "n = length (entries h)"
    using stat_scan_count [of 0 "table h" "[]" 0 0] by (simp add: scan entries_def)
  with assms(2) have "n \<noteq> 0" by simp
  then have "\<exists>s'. slug_memstats s = Ret () s' \<and> last (out s') = NoProblems"
    using assms(1,5) scan by (simp add: slug_memstats_def destroy_hashtable_def Let_def)
  moreover have "leak_scan (table h) None = None"
    using assms(3) by (simp add: leak_scan_None set_entries)
  then have "leak_detection s = Ret () s" using assms(1) by (simp add: leak_detection_def)
  ultimately show ?thesis using assms(4) by (auto simp: process_exit_def)
qed







lemma cap_inv_init: "cap_inv 0 slug_init"
  by (simp add: cap_inv_def slug_inv_def slug_init_def records_def)

subsection \<open>Properties\<close>



text \<open>
  Every allocation below the limit is recorded: \<^verbatim>\<open>slug_malloc\<close> returns the address of
  \<^verbatim>\<open>malloc\<close>, adds exactly one active record with the address, size, time and position of the call to
  the multiset of records, changes no other record, and keeps the table invariant, also when the
  insertion resizes the table.
\<close>

theorem slug_malloc_records:
  assumes "slug_inv s" "slug_room s" "sz < 128000000"
  shows "\<exists>s'. slug_malloc junk now l sz w s = Ret l s' \<and> slug_inv s' \<and>
     records s' = add_mset \<lparr>loc = l, where_at = w, when_at = now, alloc_size = sz, active = True\<rparr> (records s)"
proof -
  obtain h' where "slug_malloc junk now l sz w s = Ret l ((prepared junk sz w s)\<lparr>ht := Live h'\<rparr>)"
      "ht_inv h'" "mset (entries h') = add_mset (new_record now l sz w) (records s)"
    using slug_malloc_spec [OF assms] by blast
  then show ?thesis
    by (simp add: slug_inv_def records_def new_record_def)
qed

theorem slug_malloc_records_witness:
  "\<exists>s'. slug_malloc 0 7 100 4 ''a.c:3'' slug_init = Ret 100 s' \<and> slug_inv s' \<and>
     records s' = add_mset \<lparr>loc = 100, where_at = ''a.c:3'', when_at = 7, alloc_size = 4, active = True\<rparr>
       (records slug_init)"
  by (rule slug_malloc_records) (simp_all add: slug_init_def slug_inv_def slug_room_def)

text \<open>
  (C24) A block at an address that has no record yet can be freed once and only once: after
  \<^verbatim>\<open>slug_malloc\<close> returned it, \<^verbatim>\<open>slug_free\<close> hands the address to \<^verbatim>\<open>free\<close> and returns, and a second
  \<^verbatim>\<open>slug_free\<close> of it reports a double free, sets the exit status and exits.
\<close>

theorem malloc_free_free:
  assumes "slug_inv s" "slug_room s" "sz < 128000000" "l \<notin> loc ` set_mset (records s)"
  shows "\<exists>s1 s2. slug_malloc junk now l sz w s = Ret l s1 \<and>
     slug_free l w1 s1 = Ret () s2 \<and> released s2 = released s @ [l] \<and>
     slug_free l w2 s2 = Exits (s2\<lparr>out := out s2 @ [ErrAlreadyFreed w2], EXIT_STATUS := 1\<rparr>)"
proof -
  let ?a = "new_record now l sz w"
  obtain h1 where h1: "slug_malloc junk now l sz w s = Ret l ((prepared junk sz w s)\<lparr>ht := Live h1\<rparr>)"
      "ht_inv h1" "mset (entries h1) = add_mset ?a (records s)"
    using slug_malloc_spec [OF assms(1-3)] by blast
  let ?s1 = "(prepared junk sz w s)\<lparr>ht := Live h1\<rparr>"
  obtain h2 where h2: "ht_inv h2" "mset (entries h2) = add_mset (?a\<lparr>active := False\<rparr>) (records s)"
      "slug_free l w1 ?s1 = Ret () (?s1\<lparr>ht := Live h2, released := released ?s1 @ [l]\<rparr>)"
    using slug_free_unique [of ?s1 h1 ?a "records s" w1] h1 assms(4) by auto
  let ?s2 = "?s1\<lparr>ht := Live h2, released := released ?s1 @ [l]\<rparr>"
  have "slug_free l w2 ?s2 = Exits (?s2\<lparr>out := out ?s2 @ [ErrAlreadyFreed w2], EXIT_STATUS := 1\<rparr>)"
    using slug_free_unique [of ?s2 h2 "?a\<lparr>active := False\<rparr>" "records s" w2] h2 assms(4) by auto
  with h1 h2 show ?thesis by (intro exI [of _ ?s1] exI [of _ ?s2]) simp
qed

theorem malloc_free_free_witness:
  "\<exists>s1 s2. slug_malloc 0 1 100 4 ''m'' slug_init = Ret 100 s1 \<and>
     slug_free 100 ''f'' s1 = Ret () s2 \<and> released s2 = released slug_init @ [100] \<and>
     slug_free 100 ''g'' s2 = Exits (s2\<lparr>out := out s2 @ [ErrAlreadyFreed ''g''], EXIT_STATUS := 1\<rparr>)"
  by (rule malloc_free_free) (simp_all add: slug_init_def slug_inv_def slug_room_def records_def)

text \<open>
  Freeing an address that was never recorded, before or after the first allocation, is
  reported, sets the exit status and exits without calling \<^verbatim>\<open>free\<close>.
\<close>

theorem free_unrecorded:
  assumes "slug_inv s" "l \<notin> loc ` set_mset (records s)"
  shows "slug_free l w s = Exits (s\<lparr>out := out s @ [ErrNotAllocated w l], EXIT_STATUS := 1\<rparr>)"
  using assms is_in_hashtable_absent
  by (cases "ht s") (auto simp: slug_free_def slug_inv_def records_def)

theorem free_unrecorded_witness:
  "slug_free 5 ''f'' slug_init =
     Exits (slug_init\<lparr>out := out slug_init @ [ErrNotAllocated ''f'' 5], EXIT_STATUS := 1\<rparr>)"
  by (rule free_unrecorded) (simp_all add: slug_init_def slug_inv_def records_def)

text \<open>
  Records of freed blocks stay in the table, so a block at a reused address cannot be freed:
  when \<^verbatim>\<open>malloc\<close> returns an address whose earlier block was freed (and the insertion does not resize
  the table), the first \<^verbatim>\<open>slug_free\<close> of the new, live block is reported as a double free.
\<close>

theorem reused_address_rejected:
  assumes "ht s = Live h" "ht_inv h" "4 * ht_load h \<le> ht_size h"
    "is_in_hashtable h l = Some (Some i)" "table h ! i = Some a" "\<not> active a" "sz < 128000000"
  shows "\<exists>s'. slug_malloc junk now l sz w s = Ret l s' \<and>
     slug_free l w' s' = Exits (s'\<lparr>out := out s' @ [ErrAlreadyFreed w'], EXIT_STATUS := 1\<rparr>)"
proof -
  have "ht_size h < 2 ^ 31" using assms(2) by (simp add: ht_inv_def ht_wf_def ht_dims_def)
  with assms(3) have "insert_into_hashtable h (new_record now l sz w) = place h (new_record now l sz w)"
    by (simp add: insert_into_hashtable_eq u32_id mult.commute)
  moreover obtain h' where "insert_into_hashtable h (new_record now l sz w) = Some h'"
    using tracker.ins_law [OF assms(2), of "new_record now l sz w"] assms(3)
    by (auto simp: ht_grow_def)
  ultimately have h': "insert_into_hashtable h (new_record now l sz w) = Some h'"
      "is_in_hashtable h' l = Some (Some i)" "table h' ! i = Some a"
    using place_keeps_lookup [OF assms(2,4)] assms(5) by auto
  then show ?thesis
    using assms(1,6) slug_malloc_live [of junk sz w s h now l] assms(7)
    by (auto simp: slug_free_def)
qed

theorem reused_address_rejected_witness:
  "\<exists>s h. run_calls 0 [Malloc 0 100 4 ''m'', Free 100 ''f''] slug_init = Ret () s \<and> ht s = Live h \<and>
     (\<exists>s'. slug_malloc 0 1 100 4 ''n'' s = Ret 100 s' \<and>
        slug_free 100 ''g'' s' = Exits (s'\<lparr>out := out s' @ [ErrAlreadyFreed ''g''], EXIT_STATUS := 1\<rparr>))"
proof -
  let ?a = "new_record 0 100 4 ''m''"
  obtain s1 h1 where s1: "run_calls 0 (mallocs 0 4 ''m'' [100]) slug_init = Ret () s1"
      "cap_inv 1 s1" "ht s1 = Live h1" "records s1 = {#?a#}"
    using run_mallocs [OF cap_inv_init, of "[100]" 4 0 0 "''m''"]
    by (auto simp: slug_init_def records_def)
  have inv1: "ht_inv h1" using s1 by (simp add: cap_inv_def slug_inv_def)
  obtain h where h: "ht_inv h" "mset (entries h) = {#?a\<lparr>active := False\<rparr>#}"
      "slug_free 100 ''f'' s1 = Ret () (s1\<lparr>ht := Live h, released := released s1 @ [100]\<rparr>)"
    using slug_free_unique [OF s1(3) inv1, of ?a "{#}" "''f''"] s1(3,4) by (auto simp: records_def)
  have "cap_inv 1 (s1\<lparr>ht := Live h, released := released s1 @ [100]\<rparr>)"
    using slug_free_cap [OF s1(2), of 100 "''f''"] h(3) by auto
  moreover have "length (entries h) = 1" using h(2) by (metis size_mset size_single)
  ultimately have ld: "4 * ht_load h \<le> ht_size h" by (auto simp: cap_inv_def)
  obtain i where i: "is_in_hashtable h 100 = Some (Some i)" "table h ! i = Some (?a\<lparr>active := False\<rparr>)"
    using tracker.look_unique [OF h(1), of "?a\<lparr>active := False\<rparr>" "{#}"] h(2) by auto
  show ?thesis
    using s1(1) h(3)
      reused_address_rejected [of "s1\<lparr>ht := Live h, released := released s1 @ [100]\<rparr>" h 100 i
        "?a\<lparr>active := False\<rparr>" 4 0 1 "''n''" "''g''"] h(1) ld i
    by (auto simp: mallocs_def split: outcome.splits)
qed

text \<open>
  (C23) \<^verbatim>\<open>leak_detection\<close> is exact: it returns quietly if and only if no record is active, and
  otherwise it names the position of an active record, sets the exit status and exits.
\<close>

theorem leak_detection_exact:
  assumes "ht s = Live h"
  shows "if \<exists>a \<in># records s. active a
         then \<exists>a \<in># records s. active a \<and> leak_detection s =
                Exits (s\<lparr>out := out s @ [ErrLeak (where_at a)], EXIT_STATUS := 1\<rparr>)
         else leak_detection s = Ret () s"
proof (cases "leak_scan (table h) None")
  case None
  then show ?thesis
    using assms leak_scan_None [of "table h" None]
    by (auto simp: leak_detection_def records_def set_entries)
next
  case (Some w)
  then obtain a where "Some a \<in> set (table h)" "active a" "where_at a = w"
    using leak_scan_Some [of "table h" None w] by auto
  with Some assms show ?thesis
    by (auto simp: leak_detection_def records_def set_entries)
qed

theorem leak_detection_exact_witness:
  "if \<exists>a \<in># records (init_hashtable 0 slug_init). active a
   then \<exists>a \<in># records (init_hashtable 0 slug_init). active a \<and>
          leak_detection (init_hashtable 0 slug_init) = Exits ((init_hashtable 0 slug_init)
            \<lparr>out := out (init_hashtable 0 slug_init) @ [ErrLeak (where_at a)], EXIT_STATUS := 1\<rparr>)
   else leak_detection (init_hashtable 0 slug_init) = Ret () (init_hashtable 0 slug_init)"
  by (rule leak_detection_exact [where h = "new_table 0"]) (simp add: init_hashtable_def)

text \<open>
  A program whose first allocation is over the limit crashes while it exits: \<^verbatim>\<open>slug_malloc\<close>
  registers the exit handlers before it rejects the size, and \<^verbatim>\<open>slug_memstats\<close> then divides by the
  number of recorded allocations, which is zero.
\<close>

theorem oversized_first_allocation_divides_by_zero:
  assumes "sz \<ge> 128000000"
  shows "\<exists>s. slug_malloc junk now l sz w slug_init = Exits s \<and> EXIT_STATUS s = 1 \<and>
     out s = [ErrOver128MB w sz] \<and> process_exit s = Undefined"
proof -
  let ?s = "(init_hashtable junk slug_init)\<lparr>out := [ErrOver128MB w sz], EXIT_STATUS := 1\<rparr>"
  have "slug_malloc junk now l sz w slug_init = Exits ?s"
    using assms by (simp add: slug_malloc_def slug_init_def init_hashtable_def Let_def)
  moreover have "leak_detection ?s = Ret () ?s"
    by (simp add: leak_detection_def init_hashtable_def leak_scan_replicate)
  moreover have "slug_memstats ?s = Undefined"
    by (rule slug_memstats_empty [of _ "new_table junk"]) (simp_all add: init_hashtable_def new_table_ok)
  ultimately show ?thesis
    by (simp add: process_exit_def init_hashtable_def slug_init_def)
qed

theorem oversized_first_allocation_divides_by_zero_witness:
  "\<exists>s. slug_malloc 0 0 0 129000000 ''big'' slug_init = Exits s \<and> EXIT_STATUS s = 1 \<and>
     out s = [ErrOver128MB ''big'' 129000000] \<and> process_exit s = Undefined"
  by (rule oversized_first_allocation_divides_by_zero) simp

text \<open>
  A client that frees every block it allocated is reported clean: for any distinct addresses
  returned by \<^verbatim>\<open>malloc\<close>, all calls return, every address is handed to \<^verbatim>\<open>free\<close> exactly once in order,
  and at exit \<^verbatim>\<open>leak_detection\<close> finds nothing and \<^verbatim>\<open>slug_memstats\<close> ends with the message that there were
  no problems.
\<close>

theorem balanced_client_clean:
  assumes "distinct ls" "ls \<noteq> []" "length ls \<le> 524800" "sz < 128000000"
  shows "\<exists>s s'. run_calls junk (mallocs now sz w ls @ frees w' ls) slug_init = Ret () s \<and>
     released s = ls \<and> process_exit s = Ret () s' \<and> last (out s') = NoProblems"
proof -
  let ?as = "map (\<lambda>l. new_record now l sz w) ls"
  obtain s1 h1 where s1: "run_calls junk (mallocs now sz w ls) slug_init = Ret () s1"
      "ht s1 = Live h1" "ht_inv h1" "mset (entries h1) = mset ?as" "EXIT_STATUS s1 = 0"
      "handlers s1 = [H_memstats, H_leak]" "released s1 = []"
    using run_mallocs [OF cap_inv_init, of ls sz junk now w] assms
    by (auto simp: slug_init_def records_def cap_inv_def slug_inv_def)
  have locs: "map loc ?as = ls" by (simp add: comp_def)
  obtain s2 h2 where s2: "run_calls junk (frees w' ls) s1 = Ret () s2" "ht s2 = Live h2"
      "mset (entries h2) = mset (map (\<lambda>a. a\<lparr>active := False\<rparr>) ?as)" "EXIT_STATUS s2 = 0"
      "handlers s2 = [H_memstats, H_leak]" "released s2 = ls"
    using run_frees [OF s1(2,3), of ?as "[]" junk w'] s1(4-7) assms(1) unfolding locs
    by (auto simp: comp_def)
  have "entries h2 \<noteq> []" "\<forall>a \<in> set (entries h2). \<not> active a"
    using s2(3) assms(2) mset_eq_setD [OF s2(3)] by auto
  then show ?thesis
    using process_exit_clean [OF s2(2)] s1(1) s2 by (auto simp: run_calls_append)
qed

theorem balanced_client_clean_witness:
  "\<exists>s s'. run_calls 0 (perfect_main 1 [100, 104, 108, 112, 116, 120, 124, 128, 132, 136]) slug_init = Ret () s \<and>
     released s = [100, 104, 108, 112, 116, 120, 124, 128, 132, 136] \<and>
     process_exit s = Ret () s' \<and> last (out s') = NoProblems"
  using balanced_client_clean [of "[100, 104, 108, 112, 116, 120, 124, 128, 132, 136]" 4 0 1
      "''perfect.c:12''" "''perfect.c:18''"]
  by (simp add: perfect_main_def)

end
