(* ===== verification/Shell.thy ===== *)
theory Shell
  imports Prelude "HOL-Library.Char_ord"
begin

text \<open>
  The command shell of \<^verbatim>\<open>src/Project_1/src\<close>: the scanner of \<^verbatim>\<open>lex.c\<close> with its static argument array,
  the command-line parser and the process launcher of \<^verbatim>\<open>shell.c\<close> and the main loops of
  \<^verbatim>\<open>shell.c\<close> and \<^verbatim>\<open>myshell.c\<close> (the two files differ only in \<^verbatim>\<open>main\<close>).

  The array \<^verbatim>\<open>_args\<close> is a list of ten cells, \<^const>\<open>None\<close> for a \<^verbatim>\<open>NULL\<close> pointer; it is passed from one
  scan to the next because the scanner does not clear the cells behind the terminator. A read behind
  the array and a use of a \<^verbatim>\<open>NULL\<close> pointer are outcomes of their own. The results of \<^verbatim>\<open>fork\<close>,
  \<^verbatim>\<open>fopen\<close> and \<^verbatim>\<open>execvp\<close> are arguments.
\<close>

subsection \<open>The scanner\<close>

type_synonym argv = "string option list"

definition word_char :: "char \<Rightarrow> bool" where
  "word_char c \<longleftrightarrow> (CHR ''a'' \<le> c \<and> c \<le> CHR ''z'') \<or> (CHR ''A'' \<le> c \<and> c \<le> CHR ''Z'') \<or>
     (CHR ''0'' \<le> c \<and> c \<le> CHR ''9'') \<or> c \<in> set ''/.-=''"

definition special_char :: "char \<Rightarrow> bool" where
  "special_char c \<longleftrightarrow> c \<in> set ''()><|&;*''"

definition numargs :: nat where
  "numargs = 10"

definition add_arg :: "string \<Rightarrow> nat \<times> argv \<Rightarrow> nat \<times> argv" where
  "add_arg t na =
     (case na of (n, a) \<Rightarrow>
        if n < numargs - 1 then (n + 1, a[n := Some t, n + 1 := None]) else (n, a))"

text \<open>
  The rules of the scanner, longest match first: a word or a special character is an argument,
  a newline returns, blanks and every other character are skipped. The first component of the
  result tells whether the end of the input was reached, where \<^verbatim>\<open>yylex\<close> returns \<^verbatim>\<open>NULL\<close>.
\<close>

function lex_from :: "string \<Rightarrow> nat \<times> argv \<Rightarrow> bool \<times> argv \<times> string" where
  "lex_from [] na = (True, snd na, [])"
| "lex_from (c # cs) na =
     (if word_char c
      then lex_from (dropWhile word_char cs) (add_arg (c # takeWhile word_char cs) na)
      else if special_char c then lex_from cs (add_arg [c] na)
      else if c = CHR 0x0A then (False, snd na, cs)
      else lex_from cs na)"
  by pat_completeness auto
termination
  by (relation "measure (\<lambda>(s, _). length s)") (auto simp: less_Suc_eq_le length_dropWhile_le)

definition yylex :: "argv \<Rightarrow> string \<Rightarrow> bool \<times> argv \<times> string" where
  "yylex a inp = lex_from inp (0, a[0 := None])"

subsection \<open>The parser\<close>

record pstate =
  background :: bool
  isCommand :: bool
  out_filename :: "string option"
  in_filename :: "string option"
  commands :: "string list"

definition pstate0 :: pstate where
  "pstate0 = \<lparr>background = False, isCommand = True, out_filename = None, in_filename = None,
              commands = []\<rparr>"

text \<open>A read of \<^verbatim>\<open>args[i]\<close>; the outer \<^const>\<open>None\<close> is a read behind the array.\<close>

definition rd :: "argv \<Rightarrow> nat \<Rightarrow> string option option" where
  "rd a i = (if i < length a then Some (a ! i) else None)"

function parse_loop :: "argv \<Rightarrow> nat \<Rightarrow> pstate \<Rightarrow> pstate option" where
  "parse_loop a i p =
     (case rd a i of
        None \<Rightarrow> None
      | Some None \<Rightarrow> Some p
      | Some (Some t) \<Rightarrow>
          if t = ''<'' then
            (case rd a (i + 1) of
               None \<Rightarrow> None
             | Some f \<Rightarrow> parse_loop a (i + 2) (p\<lparr>in_filename := f, isCommand := False\<rparr>))
          else if t = ''>'' then
            (case rd a (i + 1) of
               None \<Rightarrow> None
             | Some f \<Rightarrow> parse_loop a (i + 2) (p\<lparr>out_filename := f, isCommand := False\<rparr>))
          else if t = ''&'' then
            parse_loop a (i + 1) (p\<lparr>background := True, isCommand := False\<rparr>)
          else
            parse_loop a (i + 1)
              (if isCommand p then p\<lparr>commands := commands p @ [t]\<rparr> else p))"
  by pat_completeness auto
termination
  by (relation "measure (\<lambda>(a, i, _). length a - i)") (auto simp: rd_def split: if_splits)

declare parse_loop.simps [simp del]

definition parse_args :: "argv \<Rightarrow> pstate option" where
  "parse_args a = parse_loop a 0 pstate0"

subsection \<open>Launching the command\<close>

text \<open>
  What the operating system answers: the result of \<^verbatim>\<open>fork\<close>, which files open, and whether
  \<^verbatim>\<open>execvp\<close> finds the program.
\<close>

record os =
  fork_ok :: bool
  fopen_w :: "string \<Rightarrow> bool"
  fopen_r :: "string \<Rightarrow> bool"
  execvp_ok :: "string list \<Rightarrow> bool"

definition os_ok :: os where
  "os_ok = \<lparr>fork_ok = True, fopen_w = (\<lambda>_. True), fopen_r = (\<lambda>_. True), execvp_ok = (\<lambda>_. True)\<rparr>"

text \<open>
  The fate of the child: it becomes the program, with its redirections, or it prints an error and
  returns from \<^verbatim>\<open>execute\<close> into the main loop of the shell.
\<close>

datatype child = Runs "string list" "string option" "string option" | ReturnsToMain

datatype launched = ForkFailed | WaitFor child | PollFor child

definition child_body :: "os \<Rightarrow> pstate \<Rightarrow> child" where
  "child_body s p =
     (if (case out_filename p of None \<Rightarrow> False | Some f \<Rightarrow> \<not> fopen_w s f) then ReturnsToMain
      else if (case in_filename p of None \<Rightarrow> False | Some f \<Rightarrow> \<not> fopen_r s f) then ReturnsToMain
      else if execvp_ok s (commands p) then Runs (commands p) (in_filename p) (out_filename p)
      else ReturnsToMain)"

definition execute :: "os \<Rightarrow> pstate \<Rightarrow> launched" where
  "execute s p =
     (if \<not> fork_ok s then ForkFailed
      else if \<not> background p then WaitFor (child_body s p)
      else PollFor (child_body s p))"

definition parse :: "os \<Rightarrow> argv \<Rightarrow> launched option" where
  "parse s a = map_option (execute s) (parse_args a)"

subsection \<open>The main loops\<close>

datatype ending = Exited | NullDeref | OutOfBounds

lemma lex_from_shorter: "lex_from s na = (False, a, rest) \<Longrightarrow> length rest < length s"
proof (induction s na rule: lex_from.induct)
  case (2 c cs na)
  then show ?case
    by (auto split: if_splits simp: less_Suc_eq_le)
      (meson length_dropWhile_le less_imp_le less_le_trans order.trans)
qed simp

lemma yylex_shorter: "yylex a s = (False, a', rest) \<Longrightarrow> length rest < length s"
  by (simp add: yylex_def lex_from_shorter)

text \<open>
  \<^verbatim>\<open>main\<close> of \<^verbatim>\<open>shell.c\<close>: it tests \<^verbatim>\<open>args[0]\<close> without testing \<^verbatim>\<open>args\<close>, which is \<^verbatim>\<open>NULL\<close> at the end of the
  input. The result is the list of launched commands and how the loop ends.
\<close>

function shell_main :: "os \<Rightarrow> argv \<Rightarrow> string \<Rightarrow> launched list \<times> ending" where
  "shell_main s a inp =
     (case yylex a inp of
        (True, a', rest) \<Rightarrow> ([], NullDeref)
      | (False, a', rest) \<Rightarrow>
          (case a' ! 0 of
             None \<Rightarrow> shell_main s a' rest
           | Some t \<Rightarrow>
               if t = ''exit'' then ([], Exited)
               else (case parse s a' of
                       None \<Rightarrow> ([], OutOfBounds)
                     | Some l \<Rightarrow> (let (ls, e) = shell_main s a' rest in (l # ls, e)))))"
  by pat_completeness auto
termination
  by (relation "measure (\<lambda>(_, _, i). length i)") (auto dest: yylex_shorter [OF sym])

declare shell_main.simps [simp del]

text \<open>\<^verbatim>\<open>main\<close> of \<^verbatim>\<open>myshell.c\<close>: it tests \<^verbatim>\<open>args\<close> but passes \<^verbatim>\<open>args[0]\<close> to \<^verbatim>\<open>strcmp\<close> without testing it.\<close>

function myshell_main :: "os \<Rightarrow> argv \<Rightarrow> string \<Rightarrow> launched list \<times> ending" where
  "myshell_main s a inp =
     (case yylex a inp of
        (True, a', rest) \<Rightarrow> ([], Exited)
      | (False, a', rest) \<Rightarrow>
          (case a' ! 0 of
             None \<Rightarrow> ([], NullDeref)
           | Some t \<Rightarrow>
               if t = ''exit'' then ([], Exited)
               else (case parse s a' of
                       None \<Rightarrow> ([], OutOfBounds)
                     | Some l \<Rightarrow> (let (ls, e) = myshell_main s a' rest in (l # ls, e)))))"
  by pat_completeness auto
termination
  by (relation "measure (\<lambda>(_, _, i). length i)") (auto dest: yylex_shorter [OF sym])

declare myshell_main.simps [simp del]

subsection \<open>The scanner against a reference tokeniser\<close>

text \<open>The tokens of the first line, without the array and its limit of nine arguments.\<close>

function line_toks :: "string \<Rightarrow> string list" where
  "line_toks [] = []"
| "line_toks (c # cs) =
     (if word_char c then (c # takeWhile word_char cs) # line_toks (dropWhile word_char cs)
      else if special_char c then [c] # line_toks cs
      else if c = CHR 0x0A then []
      else line_toks cs)"
  by pat_completeness auto
termination
  by (relation "measure length") (auto simp: less_Suc_eq_le length_dropWhile_le)

definition argv_holds :: "nat \<times> argv \<Rightarrow> string list \<Rightarrow> bool" where
  "argv_holds na ts \<longleftrightarrow> length (snd na) = numargs \<and> fst na = length ts \<and> length ts < numargs \<and>
     take (length ts) (snd na) = map Some ts \<and> snd na ! length ts = None"

lemma add_arg_holds:
  assumes "argv_holds na ts"
  shows "argv_holds (add_arg t na) (take (numargs - 1) (ts @ [t]))"
  using assms
  by (cases na)
    (auto simp: argv_holds_def add_arg_def take_update_cancel take_Suc_conv_app_nth numargs_def
      less_Suc_eq)

lemma argv_holds_take: "argv_holds na ts \<Longrightarrow> take (numargs - 1) ts = ts"
  by (simp add: argv_holds_def numargs_def)

lemma take_take_append: "take k (take k ys @ xs) = take k (ys @ xs)"
  by (simp add: min_def)

lemma lex_from_holds:
  assumes "argv_holds na ts" "lex_from inp na = (e, a, rest)"
  shows "\<exists>n. argv_holds (n, a) (take (numargs - 1) (ts @ line_toks inp))"
  using assms
proof (induction inp na arbitrary: ts rule: lex_from.induct)
  case (1 na)
  then show ?case using argv_holds_take [OF "1.prems"(1)] by (cases na) auto
next
  case (2 c cs na)
  note step = add_arg_holds [OF "2.prems"(1)]
  consider "word_char c" | "\<not> word_char c" "special_char c"
    | "\<not> word_char c" "\<not> special_char c" "c = CHR 0x0A"
    | "\<not> word_char c" "\<not> special_char c" "c \<noteq> CHR 0x0A" by blast
  then show ?case
  proof cases
    case 1
    with "2.IH"(1) [OF 1 step] "2.prems"(2) show ?thesis
      unfolding take_take_append by simp
  next
    case 2
    with "2.IH"(2) [OF 2 step] "2.prems"(2) show ?thesis
      unfolding take_take_append by simp
  next
    case 3
    with "2.prems" argv_holds_take [OF "2.prems"(1)] show ?thesis by (cases na) auto
  next
    case 4
    with "2.IH"(3) [OF 4 "2.prems"(1)] "2.prems"(2) show ?thesis by simp
  qed
qed

lemma argv_holds_init: "length a = numargs \<Longrightarrow> argv_holds (0, a[0 := None]) []"
  by (simp add: argv_holds_def numargs_def)

lemma yylex_holds:
  assumes "length a = numargs" "yylex a inp = (e, a', rest)"
  shows "\<exists>n. argv_holds (n, a') (take (numargs - 1) (line_toks inp))"
  using lex_from_holds [OF argv_holds_init [OF assms(1)]] assms(2) by (simp add: yylex_def)

lemma takeWhile_terminated: "takeWhile (\<lambda>x. x \<noteq> None) (map Some ts @ None # r) = map Some ts"
  by (induction ts) auto

lemma argv_split:
  assumes "argv_holds (n, a) ts"
  shows "a = map Some ts @ None # drop (Suc (length ts)) a"
  using assms id_take_nth_drop [of "length ts" a] by (simp add: argv_holds_def)

lemma takeWhile_holds: "argv_holds (n, a) ts \<Longrightarrow> takeWhile (\<lambda>x. x \<noteq> None) a = map Some ts"
  using takeWhile_terminated [of ts] argv_split [of n a ts] by metis

subsection \<open>The parser against a reference on token lists\<close>

text \<open>\<^const>\<open>None\<close> is a redirection without a file name at the end of the line.\<close>

fun spec_parse :: "string list \<Rightarrow> pstate \<Rightarrow> pstate option" where
  "spec_parse [] p = Some p"
| "spec_parse [t] p =
     (if t = ''<'' \<or> t = ''>'' then None
      else if t = ''&'' then Some (p\<lparr>background := True, isCommand := False\<rparr>)
      else Some (if isCommand p then p\<lparr>commands := commands p @ [t]\<rparr> else p))"
| "spec_parse (t # f # ts) p =
     (if t = ''<'' then spec_parse ts (p\<lparr>in_filename := Some f, isCommand := False\<rparr>)
      else if t = ''>'' then spec_parse ts (p\<lparr>out_filename := Some f, isCommand := False\<rparr>)
      else if t = ''&'' then spec_parse (f # ts) (p\<lparr>background := True, isCommand := False\<rparr>)
      else spec_parse (f # ts) (if isCommand p then p\<lparr>commands := commands p @ [t]\<rparr> else p))"

lemma rd_tokens:
  "rd (map Some ts @ None # r) i =
     (if i < length ts then Some (Some (ts ! i))
      else if i = length ts then Some None
      else if i < length ts + 1 + length r then Some (r ! (i - length ts - 1)) else None)"
  by (auto simp: rd_def nth_append nth_Cons')

text \<open>On the cells of a line whose redirections all have a file name, the loop is the reference.\<close>

lemma parse_loop_spec:
  assumes "spec_parse ts p = Some p'"
  shows "parse_loop (map Some (us @ ts) @ None # r) (length us) p = Some p'"
  using assms
proof (induction ts p arbitrary: us rule: spec_parse.induct)
  case (1 p)
  then show ?case by (subst parse_loop.simps) (simp add: rd_tokens del: map_append)
next
  case (2 t p)
  have "parse_loop (map Some (us @ [t]) @ None # r) (Suc (length us)) q = Some q" for q
    by (subst parse_loop.simps) (simp add: rd_tokens del: map_append)
  with 2 show ?case
    by (subst parse_loop.simps) (auto simp: rd_tokens simp del: map_append split: if_splits)
next
  case (3 t f ts p)
  let ?A = "map Some (us @ t # f # ts) @ None # r"
  have reads: "rd ?A (length us) = Some (Some t)" "rd ?A (Suc (length us)) = Some (Some f)"
    by (simp_all add: rd_tokens nth_append del: map_append)
  have two: "parse_loop ?A (Suc (Suc (length us))) q = Some p'"
    if "spec_parse ts q = Some p'" "\<And>us. spec_parse ts q = Some p' \<Longrightarrow>
      parse_loop (map Some (us @ ts) @ None # r) (length us) q = Some p'" for q
    using that(2) [OF that(1), of "us @ [t, f]"] by simp
  have one: "parse_loop ?A (Suc (length us)) q = Some p'"
    if "spec_parse (f # ts) q = Some p'" "\<And>us. spec_parse (f # ts) q = Some p' \<Longrightarrow>
      parse_loop (map Some (us @ f # ts) @ None # r) (length us) q = Some p'" for q
    using that(2) [OF that(1), of "us @ [t]"] by simp
  show ?case
    using "3.prems" two [OF _ "3.IH"(1)] two [OF _ "3.IH"(2)] one [OF _ "3.IH"(3)] one [OF _ "3.IH"(4)]
    by (subst parse_loop.simps) (auto simp: reads rd_tokens nth_append simp del: map_append split: if_splits)
qed

text \<open>Printing tokens with blanks between them.\<close>

definition valid_tok :: "string \<Rightarrow> bool" where
  "valid_tok t \<longleftrightarrow> (t \<noteq> [] \<and> (\<forall>c \<in> set t. word_char c)) \<or> (\<exists>c. t = [c] \<and> special_char c)"

definition print_line :: "string list \<Rightarrow> string" where
  "print_line ts = concat (map (\<lambda>t. t @ '' '') ts) @ [CHR 0x0A]"

lemma word_not_special: "special_char c \<Longrightarrow> \<not> word_char c"
  by (auto simp: special_char_def word_char_def less_eq_char_def)

lemma blank_chars: "\<not> word_char CHR '' ''" "\<not> special_char CHR '' ''"
    "\<not> word_char CHR 0x0A" "\<not> special_char CHR 0x0A"
  by (simp_all add: word_char_def special_char_def less_eq_char_def)

lemma line_toks_print:
  "\<forall>t \<in> set ts. valid_tok t \<Longrightarrow> line_toks (print_line ts @ rest) = ts"
proof (induction ts)
  case Nil
  then show ?case by (simp add: print_line_def blank_chars)
next
  case (Cons t ts)
  let ?r = "CHR '' '' # print_line ts @ rest"
  have eq: "print_line (t # ts) @ rest = t @ ?r" by (simp add: print_line_def)
  have tl: "line_toks ?r = ts" using Cons by (simp add: blank_chars)
  from Cons.prems consider c cs where "t = c # cs" "\<forall>x \<in> set t. word_char x"
    | c where "t = [c]" "special_char c" "\<not> word_char c"
    by (cases t) (auto simp: valid_tok_def dest: word_not_special)
  then show ?case
  proof cases
    case 1
    then have "takeWhile word_char (cs @ ?r) = cs" "dropWhile word_char (cs @ ?r) = ?r"
      by (simp_all add: blank_chars)
    with 1 tl show ?thesis unfolding eq by simp
  next
    case 2
    with tl show ?thesis unfolding eq by simp
  qed
qed

lemma lex_from_rest:
  "lex_from (inp @ CHR 0x0A # rest) na = (e, a, r) \<Longrightarrow> CHR 0x0A \<notin> set inp \<Longrightarrow> e = False \<and> r = rest"
proof (induction inp arbitrary: na rule: length_induct)
  case (1 inp)
  show ?case
  proof (cases inp)
    case Nil
    with 1 show ?thesis by (simp add: blank_chars)
  next
    case (Cons c cs)
    show ?thesis
    proof (cases "word_char c")
      case True
      have "dropWhile word_char (cs @ CHR 0x0A # rest) = dropWhile word_char cs @ CHR 0x0A # rest"
        by (induction cs) (auto simp: blank_chars)
      moreover have "length (dropWhile word_char cs) < length inp"
        using Cons by (simp add: less_Suc_eq_le length_dropWhile_le)
      moreover have "CHR 0x0A \<notin> set (dropWhile word_char cs)"
        using "1.prems"(2) Cons by (auto dest: set_dropWhileD)
      ultimately show ?thesis using 1 Cons True by (metis append_Cons lex_from.simps(2))
    next
      case False
      have IH: "\<not> e \<and> r = rest" if "lex_from (cs @ CHR 0x0A # rest) na' = (e, a, r)" for na'
        using "1.IH" Cons that "1.prems"(2) by (metis length_Cons lessI list.set_intros(2))
      from False "1.prems" Cons IH [of na] IH [of "add_arg [c] na"] show ?thesis
        by (simp split: if_splits)
    qed
  qed
qed

lemma spec_parse_commands:
  "spec_parse ts p = Some p' \<Longrightarrow> commands p' = commands p @
     (if isCommand p then takeWhile (\<lambda>t. t \<notin> {''<'', ''>'', ''&''}) ts else [])"
  by (induction ts p rule: spec_parse.induct) (auto split: if_splits)

lemma spec_parse_background:
  "spec_parse ts p = Some p' \<Longrightarrow> ''&'' \<notin> set ts \<Longrightarrow> background p' = background p"
  by (induction ts p rule: spec_parse.induct) (auto split: if_splits)

lemma rd_length: "rd a i = Some x \<Longrightarrow> i < length a"
  by (simp add: rd_def split: if_splits)

lemma parse_loop_bound:
  "parse_loop a i p = Some p' \<Longrightarrow> length (commands p') \<le> length (commands p) + (length a - i)"
proof (induction "length a - i" arbitrary: i p rule: less_induct)
  case less
  have step: "length (commands p') \<le> length (commands q) + (length a - j)"
    if "parse_loop a j q = Some p'" "i < j" "i < length a" for j q
    using less.hyps [of j q] that by linarith
  show ?case
  proof (cases "i < length a")
    case True
    have same: ?thesis if "parse_loop a j q = Some p'" "i < j" "commands q = commands p" for j q
      using step [OF that(1,2) True] that by simp
    have more: ?thesis if "parse_loop a (Suc i) q = Some p'" "commands q = commands p @ [t]" for q t
      using step [OF that(1) _ True] that(2) True by simp
    from less.prems show ?thesis
      by (subst (asm) parse_loop.simps) (auto split: if_splits option.splits intro: same more)
  next
    case False
    with less.prems show ?thesis by (subst (asm) parse_loop.simps) (simp add: rd_def)
  qed
qed

lemma shell_line:
  assumes "length a = numargs" "CHR 0x0A \<notin> set inp"
  obtains a' n where "yylex a (inp @ CHR 0x0A # rest) = (False, a', rest)" "length a' = numargs"
    "argv_holds (n, a') (take (numargs - 1) (line_toks (inp @ CHR 0x0A # rest)))"
proof -
  obtain e a' r where y: "yylex a (inp @ CHR 0x0A # rest) = (e, a', r)"
    by (cases "yylex a (inp @ CHR 0x0A # rest)") auto
  with lex_from_rest [of inp rest "(0, a[0 := None])" e a' r] assms(2) have "e = False" "r = rest"
    by (simp_all add: yylex_def)
  with y yylex_holds [OF assms(1) y] that show ?thesis by (auto simp: argv_holds_def)
qed

lemma line_toks_blank:
  "\<forall>c \<in> set inp. \<not> word_char c \<and> \<not> special_char c \<and> c \<noteq> CHR 0x0A \<Longrightarrow>
     line_toks (inp @ CHR 0x0A # rest) = []"
  by (induction inp) (auto simp: blank_chars)

lemma lex_from_eof: "CHR 0x0A \<notin> set inp \<Longrightarrow> \<exists>a. lex_from inp na = (True, a, [])"
proof (induction inp na rule: lex_from.induct)
  case (2 c cs na)
  then show ?case by (auto dest: set_dropWhileD)
qed simp

subsection \<open>Properties\<close>

text \<open>
  (C25) The scanner is exact on every input line: the array it leaves has ten cells and holds,
  up to its terminator, exactly the first nine tokens of the line (maximal runs of word characters
  and single special characters, in order), whatever the array held before.
\<close>

theorem yylex_tokens:
  assumes "length a = numargs" "yylex a inp = (e, a', rest)"
  shows "length a' = 10 \<and> takeWhile (\<lambda>x. x \<noteq> None) a' = map Some (take 9 (line_toks inp))"
  using yylex_holds [OF assms] takeWhile_holds by (auto simp: argv_holds_def numargs_def)

theorem yylex_tokens_witness:
  "length (fst (snd (yylex (replicate 10 None) ''ls -l|wc''))) = 10 \<and>
   takeWhile (\<lambda>x. x \<noteq> None) (fst (snd (yylex (replicate 10 None) ''ls -l|wc''))) =
     map Some (take 9 (line_toks ''ls -l|wc''))"
  by (rule yylex_tokens [of "replicate 10 None" _ "fst (yylex (replicate 10 None) ''ls -l|wc'')" _
        "snd (snd (yylex (replicate 10 None) ''ls -l|wc''))"]) (simp_all add: numargs_def)

text \<open>
  (C26) Printing and scanning are inverse: up to nine tokens printed with blanks between them and
  ended by a newline are read back unchanged, and the scan stops right behind the newline.
\<close>

theorem print_scan_roundtrip:
  assumes "length a = numargs" "\<forall>t \<in> set ts. valid_tok t" "length ts \<le> 9"
  shows "\<exists>a'. yylex a (print_line ts @ rest) = (False, a', rest) \<and>
     takeWhile (\<lambda>x. x \<noteq> None) a' = map Some ts"
proof -
  have nl: "CHR 0x0A \<notin> set (concat (map (\<lambda>t. t @ '' '') ts))"
    using assms(2) blank_chars by (auto simp: valid_tok_def)
  have eq: "concat (map (\<lambda>t. t @ '' '') ts) @ CHR 0x0A # rest = print_line ts @ rest"
    by (simp add: print_line_def)
  obtain a' n where y: "yylex a (print_line ts @ rest) = (False, a', rest)"
      and h: "argv_holds (n, a') (take (numargs - 1) (line_toks (print_line ts @ rest)))"
    using shell_line [OF assms(1) nl, of rest] unfolding eq by blast
  from h have "argv_holds (n, a') ts"
    using assms(3) by (simp add: line_toks_print [OF assms(2)] numargs_def)
  with y takeWhile_holds show ?thesis by blast
qed

theorem print_scan_roundtrip_witness:
  "\<exists>a'. yylex (replicate 10 None) (print_line [''cat'', ''<'', ''f''] @ ''ls'') = (False, a', ''ls'') \<and>
     takeWhile (\<lambda>x. x \<noteq> None) a' = map Some [''cat'', ''<'', ''f'']"
  by (rule print_scan_roundtrip)
    (simp_all add: numargs_def valid_tok_def word_char_def special_char_def less_eq_char_def)

text \<open>
  On every line whose redirections have a file name, the index loop of \<^verbatim>\<open>parse\<close> over the array
  agrees with the reference on the token list, whatever lies behind the terminator; in particular
  the command and its arguments are the tokens before the first of the characters
  \<^verbatim>\<open><\<close>, \<^verbatim>\<open>>\<close> and \<^verbatim>\<open>&\<close>, and the command runs in the foreground if there is no \<^verbatim>\<open>&\<close>.
\<close>

theorem parse_args_reference:
  assumes "argv_holds (n, a) ts" "spec_parse ts pstate0 = Some p"
  shows "parse_args a = Some p \<and>
     commands p = takeWhile (\<lambda>t. t \<notin> {''<'', ''>'', ''&''}) ts \<and>
     (''&'' \<notin> set ts \<longrightarrow> \<not> background p)"
proof -
  have "parse_args a = Some p"
    using parse_loop_spec [OF assms(2), of "[]" "drop (Suc (length ts)) a"] argv_split [OF assms(1)]
    by (simp add: parse_args_def)
  then show ?thesis
    using spec_parse_commands [OF assms(2)] spec_parse_background [OF assms(2)]
    by (simp add: pstate0_def)
qed

theorem parse_args_reference_witness:
  "parse_args (map Some [''cat'', ''<'', ''f''] @ None # replicate 6 (Some ''&'')) =
     Some (pstate0\<lparr>commands := [''cat''], in_filename := Some ''f'', isCommand := False\<rparr>) \<and>
   \<not> background (pstate0\<lparr>commands := [''cat''], in_filename := Some ''f'', isCommand := False\<rparr>)"
  using parse_args_reference [of 3 "map Some [''cat'', ''<'', ''f''] @ None # replicate 6 (Some ''&'')"
      "[''cat'', ''<'', ''f'']" "pstate0\<lparr>commands := [''cat''], in_filename := Some ''f'', isCommand := False\<rparr>"]
  by (simp add: argv_holds_def numargs_def pstate0_def)

text \<open>
  The local array \<^verbatim>\<open>commands[64]\<close> of \<^verbatim>\<open>parse\<close> cannot overflow: whatever the ten cells of the
  argument array hold, at most ten arguments are collected before the terminating \<^verbatim>\<open>NULL\<close> is stored.
\<close>

theorem parse_commands_bounded:
  assumes "length a = numargs" "parse_args a = Some p"
  shows "length (commands p) + 1 \<le> 64"
  using parse_loop_bound [of a 0 pstate0 p] assms
  by (simp add: parse_args_def numargs_def pstate0_def)

theorem parse_commands_bounded_witness:
  "length (commands (pstate0\<lparr>commands := [''ls'']\<rparr>)) + 1 \<le> 64"
proof (rule parse_commands_bounded)
  show "length (Some ''ls'' # replicate 9 None) = numargs" by (simp add: numargs_def)
  show "parse_args (Some ''ls'' # replicate 9 None) = Some (pstate0\<lparr>commands := [''ls'']\<rparr>)"
    by (simp add: parse_args_def parse_loop.simps rd_def pstate0_def numeral_eq_Suc)
qed

text \<open>
  A redirection without a file name at the end of a line makes \<^verbatim>\<open>parse\<close> step over the terminator
  and read the cells of an earlier, longer line: after \<^verbatim>\<open>ls a b &\<close>, the line \<^verbatim>\<open>cat <\<close> is run in the
  background with no input file, because the stale \<^verbatim>\<open>&\<close> is still in the array.
\<close>

theorem dangling_redirection_reads_stale_cells:
  "(let a1 = fst (snd (yylex (replicate 10 None) (''ls a b &'' @ [CHR 0x0A])));
        a2 = fst (snd (yylex a1 (''cat <'' @ [CHR 0x0A])))
    in takeWhile (\<lambda>x. x \<noteq> None) a2 = [Some ''cat'', Some ''<''] \<and>
       parse_args a2 = Some (pstate0\<lparr>commands := [''cat''], isCommand := False, background := True\<rparr>))"
  by (simp add: yylex_def add_arg_def numargs_def word_char_def special_char_def less_eq_char_def
      parse_args_def parse_loop.simps rd_def pstate0_def numeral_eq_Suc)

text \<open>
  Each of the two programs handles one of the two special inputs and dereferences a null
  pointer on the other: at the end of the input \<^verbatim>\<open>shell.c\<close> reads \<^verbatim>\<open>args[0]\<close> of a null \<^verbatim>\<open>args\<close> while
  \<^verbatim>\<open>myshell.c\<close> exits, and on a line with no token \<^verbatim>\<open>shell.c\<close> prompts again while
  \<^verbatim>\<open>myshell.c\<close> passes a null \<^verbatim>\<open>args[0]\<close> to \<^verbatim>\<open>strcmp\<close>.
\<close>

theorem eof_and_blank_lines:
  assumes "length a = numargs" "CHR 0x0A \<notin> set inp"
    "\<forall>c \<in> set blank. \<not> word_char c \<and> \<not> special_char c \<and> c \<noteq> CHR 0x0A"
  shows "shell_main s a inp = ([], NullDeref) \<and> myshell_main s a inp = ([], Exited) \<and>
     myshell_main s a (blank @ CHR 0x0A # rest) = ([], NullDeref) \<and>
     (\<exists>a'. length a' = numargs \<and> shell_main s a (blank @ CHR 0x0A # rest) = shell_main s a' rest)"
proof -
  obtain a1 where eof: "yylex a inp = (True, a1, [])"
    using lex_from_eof [OF assms(2)] by (auto simp: yylex_def)
  have "CHR 0x0A \<notin> set blank" using assms(3) by auto
  then obtain a2 n where bl: "yylex a (blank @ CHR 0x0A # rest) = (False, a2, rest)"
      "length a2 = numargs" "argv_holds (n, a2) (take (numargs - 1) (line_toks (blank @ CHR 0x0A # rest)))"
    using shell_line [OF assms(1)] by blast
  then have "a2 ! 0 = None" by (simp add: line_toks_blank [OF assms(3)] argv_holds_def)
  with eof bl show ?thesis
    by (simp add: shell_main.simps [of s a] myshell_main.simps [of s a]) blast
qed

theorem eof_and_blank_lines_witness:
  "shell_main os_ok (replicate 10 None) ''ls'' = ([], NullDeref) \<and>
   myshell_main os_ok (replicate 10 None) ''ls'' = ([], Exited) \<and>
   myshell_main os_ok (replicate 10 None) ('' '' @ CHR 0x0A # ''ls'') = ([], NullDeref) \<and>
   (\<exists>a'. length a' = numargs \<and>
      shell_main os_ok (replicate 10 None) ('' '' @ CHR 0x0A # ''ls'') = shell_main os_ok a' ''ls'')"
  by (rule eof_and_blank_lines) (simp_all add: numargs_def blank_chars)

text \<open>
  (C27) End to end, both programs run a well-formed command line the same way: for up to nine valid
  tokens, not starting with \<^verbatim>\<open>exit\<close> and with complete redirections, scanning, parsing and launching
  yield exactly the launch of the parsed command, and the loop goes on with the rest of the input.
\<close>

theorem command_line_launched:
  assumes "length a = numargs" "\<forall>t \<in> set ts. valid_tok t" "length ts \<le> 9" "ts \<noteq> []"
    "hd ts \<noteq> ''exit''" "spec_parse ts pstate0 = Some p"
  shows "\<exists>a'. length a' = numargs \<and>
     shell_main s a (print_line ts @ rest) =
       (let (ls, e) = shell_main s a' rest in (execute s p # ls, e)) \<and>
     myshell_main s a (print_line ts @ rest) =
       (let (ls, e) = myshell_main s a' rest in (execute s p # ls, e))"
proof -
  have nl: "CHR 0x0A \<notin> set (concat (map (\<lambda>t. t @ '' '') ts))"
    using assms(2) blank_chars by (auto simp: valid_tok_def)
  have eq: "concat (map (\<lambda>t. t @ '' '') ts) @ CHR 0x0A # rest = print_line ts @ rest"
    by (simp add: print_line_def)
  obtain a' n where y: "yylex a (print_line ts @ rest) = (False, a', rest)" "length a' = numargs"
      and h: "argv_holds (n, a') (take (numargs - 1) (line_toks (print_line ts @ rest)))"
    using shell_line [OF assms(1) nl, of rest] unfolding eq by blast
  from h have h: "argv_holds (n, a') ts"
    using assms(3) by (simp add: line_toks_print [OF assms(2)] numargs_def)
  then have "parse_args a' = Some p"
    using parse_loop_spec [OF assms(6), of "[]" "drop (Suc (length ts)) a'"] argv_split [OF h]
    by (simp add: parse_args_def)
  moreover have "a' ! 0 = Some (hd ts)"
    using argv_split [OF h] assms(4) by (metis Nil_is_map_conv hd_append2 hd_conv_nth hd_map
        append_is_Nil_conv)
  ultimately show ?thesis
    using y assms(5)
    by (auto simp: shell_main.simps [of s a] myshell_main.simps [of s a] parse_def)
qed

theorem command_line_launched_witness:
  "\<exists>a'. length a' = numargs \<and>
     shell_main os_ok (replicate 10 None) (print_line [''ls'', ''&''] @ ''x'') =
       (let (ls, e) = shell_main os_ok a' ''x''
        in (execute os_ok (pstate0\<lparr>commands := [''ls''], background := True, isCommand := False\<rparr>) # ls, e)) \<and>
     myshell_main os_ok (replicate 10 None) (print_line [''ls'', ''&''] @ ''x'') =
       (let (ls, e) = myshell_main os_ok a' ''x''
        in (execute os_ok (pstate0\<lparr>commands := [''ls''], background := True, isCommand := False\<rparr>) # ls, e))"
  by (rule command_line_launched)
    (simp_all add: numargs_def valid_tok_def word_char_def special_char_def less_eq_char_def pstate0_def)

end
