(* ===== verification/Sched.thy ===== *)
theory Sched
  imports Prelude "HOL-Library.Signed_Division"
begin

text \<open>
  The user-level scheduler SCHED: \<^verbatim>\<open>src/Project_2/src/sched/schedule.c\<close> (the lottery scheduler of the
  project), \<^verbatim>\<open>src/Project_2/src/schedproc.h\<close>, and the main loop and helpers it is linked with,
  \<^verbatim>\<open>servers/sched/main.c\<close> and \<^verbatim>\<open>servers/sched/utility.c\<close>.

  Every handler is a function on the state record \<open>sched_state\<close>: the process table, the ticket counter,
  the balance interval, the timer, and the sequence of kernel calls made so far.  What is not in
  the repository is a field of \<open>sched_cfg\<close>: the macro that extracts the process number of an
  endpoint, the numbers of the system processes, the clock frequency, the kernel's answer to
  a call (which may depend on all earlier calls), and the value that the compiled program gets when
  it converts a negative double to \<^verbatim>\<open>unsigned\<close>, an operation C leaves undefined.
  The result \<^const>\<open>None\<close> of a step stands for a failed assertion or an undefined operation.
\<close>

unbundle bit_operations_syntax

subsection \<open>Configuration, table and messages\<close>

abbreviation "NR_SCHED_QUEUES \<equiv> 18"
abbreviation "MAX_USER_Q \<equiv> 16"
abbreviation "MIN_USER_Q \<equiv> NR_SCHED_QUEUES - 1"
abbreviation "IN_USE \<equiv> 0x00001 :: 32 word"
abbreviation "BALANCE_TIMEOUT \<equiv> 5 :: 32 word"

record schedproc =
  sp_endpoint :: int
  sp_parent :: int
  sp_flags :: "32 word"
  sp_max_priority :: "32 word"
  sp_priority :: "32 word"
  sp_time_slice :: "32 word"
  sp_tickets :: "32 word"   \<comment> \<open>a C \<^verbatim>\<open>int\<close>; its value is \<^const>\<open>sint\<close>\<close>

datatype kcall =
    Sys_schedctl (ctl_flags: "32 word") (ctl_ep: int) (ctl_prio: "32 word") (ctl_quantum: "32 word")
  | Sys_schedule (sch_ep: int) (sch_prio: "32 word") (sch_quantum: "32 word")

record sched_cfg =
  ENDPOINT_P :: "int \<Rightarrow> int"
  PM_PROC_NR :: int
  RS_PROC_NR :: int
  SCHED_PROC_NR :: int
  CLOCK :: int
  sys_hz :: "32 word"
  kern :: "kcall list \<Rightarrow> kcall \<Rightarrow> errno"
  conv :: "int \<Rightarrow> 32 word"

datatype sched_call =
    SCHEDULING_NO_QUANTUM | SCHEDULING_START | SCHEDULING_STOP | SCHEDULING_SET_NICE
  | SCHEDULING_INHERIT | Other_call int

record sched_msg =
  m_source :: int
  m_type :: sched_call
  SCHEDULING_ENDPOINT :: int
  SCHEDULING_PARENT :: int
  SCHEDULING_MAXPRIO :: int
  SCHEDULING_QUANTUM :: int
  SCHEDULING_SCHEDULER :: int

record sched_state =
  procs :: "schedproc list"
  total_tickets :: "32 word"
  balance_timeout :: "32 word"
  sched_timer :: "32 word option"   \<comment> \<open>the interval it was set to; \<^const>\<open>None\<close> when not running\<close>
  klog :: "kcall list"

definition in_use :: "schedproc \<Rightarrow> bool" where
  "in_use p \<longleftrightarrow> sp_flags p AND IN_USE \<noteq> 0"

subsection \<open>\<^verbatim>\<open>utility.c\<close>\<close>

definition no_sys :: "int \<Rightarrow> sched_call \<Rightarrow> errno" where
  "no_sys who_e call_nr = ENOSYS"

text \<open>The slot number is returned beside the code, as the C functions do through \<^verbatim>\<open>*proc\<close>.\<close>

definition sched_isokendpt :: "sched_cfg \<Rightarrow> sched_state \<Rightarrow> int \<Rightarrow> errno \<times> int" where
  "sched_isokendpt c s endpoint =
     (let p = ENDPOINT_P c endpoint in
      (if p < 0 then EBADEPT
       else if p \<ge> int (length (procs s)) then EINVAL
       else if endpoint \<noteq> sp_endpoint (procs s ! nat p) then EDEADEPT
       else if \<not> in_use (procs s ! nat p) then EDEADEPT
       else OK, p))"

definition sched_isemtyendpt :: "sched_cfg \<Rightarrow> sched_state \<Rightarrow> int \<Rightarrow> errno \<times> int" where
  "sched_isemtyendpt c s endpoint =
     (let p = ENDPOINT_P c endpoint in
      (if p < 0 then EBADEPT
       else if p \<ge> int (length (procs s)) then EINVAL
       else if in_use (procs s ! nat p) then EDEADEPT
       else OK, p))"

definition accept_message :: "sched_cfg \<Rightarrow> sched_msg \<Rightarrow> bool" where
  "accept_message c m \<longleftrightarrow> m_source m = PM_PROC_NR c \<or> m_source m = RS_PROC_NR c"

subsection \<open>\<^verbatim>\<open>schedule.c\<close>\<close>

definition upd_proc :: "nat \<Rightarrow> (schedproc \<Rightarrow> schedproc) \<Rightarrow> sched_state \<Rightarrow> sched_state" where
  "upd_proc i f s = s\<lparr>procs := (procs s)[i := f (procs s ! i)]\<rparr>"

definition kernel_call :: "sched_cfg \<Rightarrow> kcall \<Rightarrow> sched_state \<Rightarrow> errno \<times> sched_state" where
  "kernel_call c k s = (kern c (klog s) k, s\<lparr>klog := klog s @ [k]\<rparr>)"

definition schedule_process :: "sched_cfg \<Rightarrow> nat \<Rightarrow> sched_state \<Rightarrow> errno \<times> sched_state" where
  "schedule_process c i s =
     (let rmp = procs s ! i in
      kernel_call c (Sys_schedule (sp_endpoint rmp) (sp_priority rmp) (sp_time_slice rmp)) s)"

definition do_noquantum :: "sched_cfg \<Rightarrow> sched_msg \<Rightarrow> sched_state \<Rightarrow> errno \<times> sched_state" where
  "do_noquantum c m s =
     (let (rv, p) = sched_isokendpt c s (m_source m); i = nat p in
      if rv \<noteq> OK then (EBADEPT, s)
      else
        let s1 = (if sp_priority (procs s ! i) < MIN_USER_Q
                  then upd_proc i (\<lambda>r. r\<lparr>sp_priority := sp_priority r + 1\<rparr>) s else s)
        in schedule_process c i s1)"

definition do_stop_scheduling :: "sched_cfg \<Rightarrow> sched_msg \<Rightarrow> sched_state \<Rightarrow> errno \<times> sched_state" where
  "do_stop_scheduling c m s =
     (if \<not> accept_message c m then (EPERM, s)
      else let (rv, p) = sched_isokendpt c s (SCHEDULING_ENDPOINT m) in
      if rv \<noteq> OK then (EBADEPT, s)
      else (OK, upd_proc (nat p) (\<lambda>r. r\<lparr>sp_flags := 0\<rparr>) s))"

text \<open>
  The tail of \<^verbatim>\<open>do_start_scheduling\<close>, from the ticket count to the return, shared by both message types.
\<close>

definition start_finish ::
  "sched_cfg \<Rightarrow> nat \<Rightarrow> sched_msg \<Rightarrow> sched_state \<Rightarrow> errno \<times> sched_msg \<times> sched_state" where
  "start_finish c i m s =
     (let s1 = s\<lparr>total_tickets := total_tickets s + sp_tickets (procs s ! i)\<rparr>;
          (rv, s2) = kernel_call c (Sys_schedctl 0 (sp_endpoint (procs s1 ! i)) 0 0) s1 in
      if rv \<noteq> OK then (rv, m, s2)
      else
        let s3 = upd_proc i (\<lambda>r. r\<lparr>sp_flags := IN_USE\<rparr>) s2;
            (rv2, s4) = schedule_process c i s3 in
        if rv2 \<noteq> OK then (rv2, m, s4)
        else (OK, m\<lparr>SCHEDULING_SCHEDULER := SCHED_PROC_NR c\<rparr>, s4))"

definition do_start_scheduling ::
  "sched_cfg \<Rightarrow> sched_msg \<Rightarrow> sched_state \<Rightarrow> (errno \<times> sched_msg \<times> sched_state) option" where
  "do_start_scheduling c m s =
     (if m_type m \<noteq> SCHEDULING_START \<and> m_type m \<noteq> SCHEDULING_INHERIT then None
      else if \<not> accept_message c m then Some (EPERM, m, s)
      else let (rv, p) = sched_isemtyendpt c s (SCHEDULING_ENDPOINT m); i = nat p in
      if rv \<noteq> OK then Some (rv, m, s)
      else
        let s1 = upd_proc i (\<lambda>r. r\<lparr>sp_endpoint := SCHEDULING_ENDPOINT m,
                                   sp_parent := SCHEDULING_PARENT m,
                                   sp_max_priority := word_of_int (SCHEDULING_MAXPRIO m)\<rparr>) s in
        if sp_max_priority (procs s1 ! i) \<ge> NR_SCHED_QUEUES then Some (EINVAL, m, s1)
        else (case m_type m of
          SCHEDULING_START \<Rightarrow>
            Some (start_finish c i m
              (upd_proc i (\<lambda>r. r\<lparr>sp_priority := sp_max_priority r, sp_tickets := 20,
                                 sp_time_slice := word_of_int (SCHEDULING_QUANTUM m)\<rparr>) s1))
        | SCHEDULING_INHERIT \<Rightarrow>
            (let (rv2, q) = sched_isokendpt c s1 (SCHEDULING_PARENT m); par = procs s1 ! nat q in
             if rv2 \<noteq> OK then Some (rv2, m, s1)
             else Some (start_finish c i m
              (upd_proc i (\<lambda>r. r\<lparr>sp_priority := sp_priority par, sp_tickets := sp_tickets par,
                                 sp_time_slice := sp_time_slice par\<rparr>) s1)))
        | _ \<Rightarrow> None))"

text \<open>
  \<^verbatim>\<open>(nice / 20.0) * 100\<close> is exactly \<open>5 * nice\<close> for the queue numbers, the values for which it is used when it is not
  negative.  A negative value goes through the conversion to \<^verbatim>\<open>unsigned\<close> that C leaves undefined; so may a value that
  is then refused.
\<close>

definition tickets_to_add :: "sched_cfg \<Rightarrow> int \<Rightarrow> 32 word" where
  "tickets_to_add c nice = (if nice < 0 \<or> nice \<ge> NR_SCHED_QUEUES then conv c nice else word_of_int (5 * nice))"

definition new_tickets :: "sched_cfg \<Rightarrow> 32 word \<Rightarrow> 32 word \<Rightarrow> 32 word" where
  "new_tickets c tmp old =
     (if sint tmp > 0
      then let t = old + tickets_to_add c (sint tmp) in if sint t \<ge> 100 then 100 else t
      else let t = old - tickets_to_add c (sint tmp) in if sint t < 1 then 1 else t)"

definition do_nice :: "sched_cfg \<Rightarrow> sched_msg \<Rightarrow> sched_state \<Rightarrow> errno \<times> sched_state" where
  "do_nice c m s =
     (if \<not> accept_message c m then (EPERM, s)
      else let (rv, p) = sched_isokendpt c s (SCHEDULING_ENDPOINT m); i = nat p in
      if rv \<noteq> OK then (EBADEPT, s)
      else
        let tmp = word_of_int (SCHEDULING_MAXPRIO m) :: 32 word in
        if sint tmp \<ge> NR_SCHED_QUEUES then (EINVAL, s)
        else
          let s1 = upd_proc i (\<lambda>r. r\<lparr>sp_tickets := new_tickets c tmp (sp_tickets r)\<rparr>) s;
              old_q = sp_priority (procs s1 ! i);
              old_max_q = sp_max_priority (procs s1 ! i);
              s2 = upd_proc i (\<lambda>r. r\<lparr>sp_priority := tmp, sp_max_priority := tmp\<rparr>) s1;
              (rv2, s3) = schedule_process c i s2 in
          if rv2 \<noteq> OK
          then (rv2, upd_proc i (\<lambda>r. r\<lparr>sp_priority := old_q, sp_max_priority := old_max_q\<rparr>) s3)
          else (rv2, s3))"

definition init_scheduling :: "sched_cfg \<Rightarrow> sched_state \<Rightarrow> sched_state" where
  "init_scheduling c s =
     (let bt = BALANCE_TIMEOUT * sys_hz c in
      s\<lparr>balance_timeout := bt, sched_timer := Some bt, total_tickets := 0\<rparr>)"

text \<open>The scan of \<^verbatim>\<open>do_lottery\<close>: the first slot in use whose cumulated tickets exceed the draw.\<close>

fun lottery_scan :: "32 word \<Rightarrow> 32 word \<Rightarrow> schedproc list \<Rightarrow> nat option" where
  "lottery_scan lucky calculate_winner [] = None"
| "lottery_scan lucky calculate_winner (rmp # rest) =
     (if in_use rmp
      then let cw = calculate_winner + sp_tickets rmp in
           if cw > lucky then Some 0 else map_option Suc (lottery_scan lucky cw rest)
      else map_option Suc (lottery_scan lucky calculate_winner rest))"

text \<open>
  \<open>r\<close> is the value \<^verbatim>\<open>rand()\<close> returns.  A remainder by zero and the overflow of \<^verbatim>\<open>+ 1\<close> are undefined.
\<close>

definition lucky_ticket :: "nat \<Rightarrow> 32 word \<Rightarrow> 32 word option" where
  "lucky_ticket r tt =
     (let upper_bound = sint tt in
      if upper_bound = 0 then None
      else let lucky = int r smod upper_bound + 1 in
        if lucky > 2 ^ 31 - 1 then None else Some (word_of_int lucky))"

definition do_lottery :: "sched_cfg \<Rightarrow> nat \<Rightarrow> sched_state \<Rightarrow> sched_state option" where
  "do_lottery c r s =
     (case lucky_ticket r (total_tickets s) of
        None \<Rightarrow> None
      | Some lucky \<Rightarrow>
          Some (case lottery_scan lucky 0 (procs s) of
                  None \<Rightarrow> s
                | Some i \<Rightarrow> snd (schedule_process c i
                             (upd_proc i (\<lambda>p. p\<lparr>sp_priority := sp_priority p - 1\<rparr>) s))))"

definition balance_queues :: "sched_cfg \<Rightarrow> nat \<Rightarrow> sched_state \<Rightarrow> sched_state option" where
  "balance_queues c r s =
     map_option (\<lambda>s1. s1\<lparr>sched_timer := Some (balance_timeout s1)\<rparr>) (do_lottery c r s)"

subsection \<open>\<^verbatim>\<open>main.c\<close>\<close>

text \<open>
  One iteration of the main loop: what \<^verbatim>\<open>sef_receive_status\<close> delivered, together with the
  decision of the timer library whether the timer has expired and the next \<^verbatim>\<open>rand()\<close> value.
\<close>

record sched_event =
  is_ipc_notify :: bool
  from_kernel :: bool
  m_in :: sched_msg
  timer_expired :: bool
  next_rand :: nat

definition expire_timers :: "sched_cfg \<Rightarrow> sched_event \<Rightarrow> sched_state \<Rightarrow> sched_state option" where
  "expire_timers c ev s =
     (if timer_expired ev \<and> sched_timer s \<noteq> None
      then balance_queues c (next_rand ev) (s\<lparr>sched_timer := None\<rparr>) else Some s)"

type_synonym sched_reply = "(int \<times> errno \<times> sched_msg) option"

definition sendreply :: "int \<Rightarrow> errno \<times> sched_msg \<times> sched_state \<Rightarrow> sched_reply \<times> sched_state" where
  "sendreply who_e = (\<lambda>(result, m, s). (if result \<noteq> SUSPEND then Some (who_e, result, m) else None, s))"

definition sched_main :: "sched_cfg \<Rightarrow> sched_event \<Rightarrow> sched_state \<Rightarrow> (sched_reply \<times> sched_state) option" where
  "sched_main c ev s =
     (let m = m_in ev; who_e = m_source m in
      if is_ipc_notify ev then
        (if who_e = CLOCK c then map_option (Pair None) (expire_timers c ev s)
         else Some (sendreply who_e (ENOSYS, m, s)))
      else (case m_type m of
          SCHEDULING_INHERIT \<Rightarrow> map_option (sendreply who_e) (do_start_scheduling c m s)
        | SCHEDULING_START \<Rightarrow> map_option (sendreply who_e) (do_start_scheduling c m s)
        | SCHEDULING_STOP \<Rightarrow> (let (r, s') = do_stop_scheduling c m s in Some (sendreply who_e (r, m, s')))
        | SCHEDULING_SET_NICE \<Rightarrow> (let (r, s') = do_nice c m s in Some (sendreply who_e (r, m, s')))
        | SCHEDULING_NO_QUANTUM \<Rightarrow>
            (if from_kernel ev then Some (None, snd (do_noquantum c m s))
             else Some (sendreply who_e (EPERM, m, s)))
        | Other_call n \<Rightarrow> Some (sendreply who_e (no_sys who_e (m_type m), m, s))))"

definition sched_boot :: "sched_cfg \<Rightarrow> nat \<Rightarrow> sched_state" where
  "sched_boot c n =
     init_scheduling c
       \<lparr>procs = replicate n \<lparr>sp_endpoint = 0, sp_parent = 0, sp_flags = 0, sp_max_priority = 0,
                             sp_priority = 0, sp_time_slice = 0, sp_tickets = 0\<rparr>,
        total_tickets = 0, balance_timeout = 0, sched_timer = None, klog = []\<rparr>"

inductive sched_reach :: "sched_cfg \<Rightarrow> nat \<Rightarrow> sched_state \<Rightarrow> bool" for c n where
  boot: "sched_reach c n (sched_boot c n)"
| step: "sched_reach c n s \<Longrightarrow> sched_main c ev s = Some (rep, s') \<Longrightarrow> sched_reach c n s'"

subsection \<open>Simplification rules for the state operations\<close>

named_theorems sched_simps \<open>what the state operations do to each field\<close>

lemma in_use_simps [sched_simps, simp]:
  "\<not> in_use (r\<lparr>sp_flags := 0\<rparr>)" "in_use (r\<lparr>sp_flags := IN_USE\<rparr>)"
  "in_use (r\<lparr>sp_priority := x\<rparr>) = in_use r" "in_use (r\<lparr>sp_max_priority := x\<rparr>) = in_use r"
  "in_use (r\<lparr>sp_tickets := x\<rparr>) = in_use r" "in_use (r\<lparr>sp_time_slice := x\<rparr>) = in_use r"
  "in_use (r\<lparr>sp_endpoint := e\<rparr>) = in_use r" "in_use (r\<lparr>sp_parent := e\<rparr>) = in_use r"
  by (simp_all add: in_use_def)

lemma upd_proc_simps [sched_simps, simp]:
  "length (procs (upd_proc i f s)) = length (procs s)"
  "total_tickets (upd_proc i f s) = total_tickets s"
  "balance_timeout (upd_proc i f s) = balance_timeout s"
  "sched_timer (upd_proc i f s) = sched_timer s"
  "klog (upd_proc i f s) = klog s"
  "i < length (procs s) \<Longrightarrow> procs (upd_proc i f s) ! i = f (procs s ! i)"
  "j \<noteq> i \<Longrightarrow> procs (upd_proc i f s) ! j = procs s ! j"
  by (simp_all add: upd_proc_def)

lemma upd_proc_nth:
  "j < length (procs s) \<Longrightarrow>
     procs (upd_proc i f s) ! j = (if j = i then f (procs s ! j) else procs s ! j)"
  by (simp add: upd_proc_def nth_list_update)

lemma kernel_call_simps [sched_simps, simp]:
  "procs (snd (kernel_call c k s)) = procs s"
  "total_tickets (snd (kernel_call c k s)) = total_tickets s"
  "balance_timeout (snd (kernel_call c k s)) = balance_timeout s"
  "sched_timer (snd (kernel_call c k s)) = sched_timer s"
  "klog (snd (kernel_call c k s)) = klog s @ [k]"
  "fst (kernel_call c k s) = kern c (klog s) k"
  by (simp_all add: kernel_call_def)

lemma schedule_process_simps [sched_simps, simp]:
  "procs (snd (schedule_process c i s)) = procs s"
  "total_tickets (snd (schedule_process c i s)) = total_tickets s"
  "balance_timeout (snd (schedule_process c i s)) = balance_timeout s"
  "sched_timer (snd (schedule_process c i s)) = sched_timer s"
  "klog (snd (schedule_process c i s)) =
     klog s @ [Sys_schedule (sp_endpoint (procs s ! i)) (sp_priority (procs s ! i))
                 (sp_time_slice (procs s ! i))]"
  "fst (schedule_process c i s) =
     kern c (klog s) (Sys_schedule (sp_endpoint (procs s ! i)) (sp_priority (procs s ! i))
                 (sp_time_slice (procs s ! i)))"
  by (simp_all add: schedule_process_def Let_def)

lemma sched_isokendpt_OK:
  "sched_isokendpt c s e = (OK, p) \<longleftrightarrow>
     p = ENDPOINT_P c e \<and> 0 \<le> p \<and> nat p < length (procs s) \<and>
     sp_endpoint (procs s ! nat p) = e \<and> in_use (procs s ! nat p)"
  by (auto simp: sched_isokendpt_def Let_def)

lemma sched_isokendpt_slot: "snd (sched_isokendpt c s e) = ENDPOINT_P c e"
  by (simp add: sched_isokendpt_def Let_def)

lemma sched_isemtyendpt_OK:
  "sched_isemtyendpt c s e = (OK, p) \<longleftrightarrow>
     p = ENDPOINT_P c e \<and> 0 \<le> p \<and> nat p < length (procs s) \<and> \<not> in_use (procs s ! nat p)"
  by (auto simp: sched_isemtyendpt_def Let_def)

subsection \<open>The table invariant\<close>

definition sched_inv :: "sched_cfg \<Rightarrow> sched_state \<Rightarrow> bool" where
  "sched_inv c s \<longleftrightarrow>
     (\<forall>i < length (procs s). in_use (procs s ! i) \<longrightarrow>
        ENDPOINT_P c (sp_endpoint (procs s ! i)) = int i)"

lemma sched_invI:
  "(\<And>i. i < length (procs s) \<Longrightarrow> in_use (procs s ! i) \<Longrightarrow>
      ENDPOINT_P c (sp_endpoint (procs s ! i)) = int i) \<Longrightarrow> sched_inv c s"
  by (simp add: sched_inv_def)

lemma sched_invD:
  "sched_inv c s \<Longrightarrow> i < length (procs s) \<Longrightarrow> in_use (procs s ! i) \<Longrightarrow>
     ENDPOINT_P c (sp_endpoint (procs s ! i)) = int i"
  by (simp add: sched_inv_def)

lemma sched_inv_cong: "procs s = procs t \<Longrightarrow> sched_inv c s = sched_inv c t"
  by (simp add: sched_inv_def)

lemma sched_inv_upd:
  assumes "sched_inv c s"
    and "i < length (procs s) \<Longrightarrow> in_use (f (procs s ! i)) \<Longrightarrow>
           ENDPOINT_P c (sp_endpoint (f (procs s ! i))) = int i"
  shows "sched_inv c (upd_proc i f s)"
  using assms by (auto simp: sched_inv_def upd_proc_nth)

interpretation sp: endpoint_table procs in_use sp_endpoint "ENDPOINT_P c" int "sched_inv c"
  for c
  by unfold_locales (auto dest: sched_invD)

lemma schedule_process_inv [simp]:
  "sched_inv c (snd (schedule_process c i s)) = sched_inv c s"
  by (rule sched_inv_cong) simp

lemma do_noquantum_inv:
  assumes "sched_inv c s" shows "sched_inv c (snd (do_noquantum c m s))"
proof -
  have "sched_inv c (upd_proc i (\<lambda>r. r\<lparr>sp_priority := sp_priority r + 1\<rparr>) s)" for i
    using assms by (intro sched_inv_upd) (auto dest: sched_invD)
  with assms show ?thesis
    by (simp add: do_noquantum_def Let_def split: prod.split)
qed

lemma do_stop_inv:
  assumes "sched_inv c s" shows "sched_inv c (snd (do_stop_scheduling c m s))"
  using assms
  by (auto simp: do_stop_scheduling_def Let_def split: prod.split intro!: sched_inv_upd)

lemma do_nice_inv:
  assumes "sched_inv c s" shows "sched_inv c (snd (do_nice c m s))"
proof -
  have keep: "sched_inv c (upd_proc i f t)"
    if "sched_inv c t" "\<And>r. in_use (f r) = in_use r" "\<And>r. sp_endpoint (f r) = sp_endpoint r" for i f t
    using that by (intro sched_inv_upd) (auto dest: sched_invD)
  obtain rv p where E: "sched_isokendpt c s (SCHEDULING_ENDPOINT m) = (rv, p)"
    by fastforce
  define i where "i = nat p"
  define tmp where "tmp = (word_of_int (SCHEDULING_MAXPRIO m) :: 32 word)"
  define s2 where "s2 = upd_proc i (\<lambda>r. r\<lparr>sp_priority := tmp, sp_max_priority := tmp\<rparr>)
    (upd_proc i (\<lambda>r. r\<lparr>sp_tickets := new_tickets c tmp (sp_tickets r)\<rparr>) s)"
  have s2: "sched_inv c s2"
    unfolding s2_def by (intro keep assms) simp_all
  have s3: "sched_inv c (snd (schedule_process c i s2))"
    using s2 by simp
  have "sched_inv c (upd_proc i (\<lambda>r. r\<lparr>sp_priority := a, sp_max_priority := b\<rparr>)
          (snd (schedule_process c i s2)))" for a b
    by (intro keep s3) simp_all
  with s3 assms show ?thesis
    by (simp add: do_nice_def E Let_def case_prod_beta flip: i_def tmp_def s2_def)
qed

lemma start_finish_inv:
  assumes "sched_inv c s" "i < length (procs s)"
    and "ENDPOINT_P c (sp_endpoint (procs s ! i)) = int i"
  shows "sched_inv c (snd (snd (start_finish c i m s)))"
proof -
  define s2 where "s2 = snd (kernel_call c (Sys_schedctl 0 (sp_endpoint (procs s ! i)) 0 0)
    (s\<lparr>total_tickets := total_tickets s + sp_tickets (procs s ! i)\<rparr>))"
  have p2: "procs s2 = procs s"
    by (simp add: s2_def)
  have s2: "sched_inv c s2"
    using assms(1) sched_inv_cong [OF p2] by simp
  have "sched_inv c (upd_proc i (\<lambda>r. r\<lparr>sp_flags := IN_USE\<rparr>) s2)"
    using s2 assms(2,3) by (intro sched_inv_upd) (simp_all add: p2)
  with s2 show ?thesis
    by (simp add: start_finish_def Let_def case_prod_beta flip: s2_def)
qed

definition claim_slot :: "sched_msg \<Rightarrow> schedproc \<Rightarrow> schedproc" where
  "claim_slot m r = r\<lparr>sp_endpoint := SCHEDULING_ENDPOINT m, sp_parent := SCHEDULING_PARENT m,
     sp_max_priority := word_of_int (SCHEDULING_MAXPRIO m)\<rparr>"

lemma claim_slot_simps [simp]:
  "in_use (claim_slot m r) = in_use r" "sp_endpoint (claim_slot m r) = SCHEDULING_ENDPOINT m"
  "sp_max_priority (claim_slot m r) = word_of_int (SCHEDULING_MAXPRIO m)"
  by (simp_all add: claim_slot_def in_use_def)

definition grant :: "32 word \<Rightarrow> 32 word \<Rightarrow> 32 word \<Rightarrow> schedproc \<Rightarrow> schedproc" where
  "grant q t ts r = r\<lparr>sp_priority := q, sp_tickets := t, sp_time_slice := ts\<rparr>"

lemma grant_simps [simp]:
  "in_use (grant q t ts r) = in_use r" "sp_endpoint (grant q t ts r) = sp_endpoint r"
  "sp_priority (grant q t ts r) = q" "sp_tickets (grant q t ts r) = t" "sp_time_slice (grant q t ts r) = ts"
  "sp_max_priority (grant q t ts r) = sp_max_priority r"
  by (simp_all add: grant_def in_use_def)

text \<open>How \<^const>\<open>do_start_scheduling\<close> unfolds once the sender and the slot are accepted.\<close>

lemma do_start_accepted:
  fixes c m s
  defines "i \<equiv> nat (ENDPOINT_P c (SCHEDULING_ENDPOINT m))"
  defines "s1 \<equiv> upd_proc i (claim_slot m) s"
  assumes "accept_message c m" and E: "fst (sched_isemtyendpt c s (SCHEDULING_ENDPOINT m)) = OK"
  shows "do_start_scheduling c m s =
     (if m_type m = SCHEDULING_START \<or> m_type m = SCHEDULING_INHERIT then
        if (word_of_int (SCHEDULING_MAXPRIO m) :: 32 word) \<ge> NR_SCHED_QUEUES then Some (EINVAL, m, s1)
        else if m_type m = SCHEDULING_START
        then Some (start_finish c i m (upd_proc i (grant (word_of_int (SCHEDULING_MAXPRIO m)) 20
                     (word_of_int (SCHEDULING_QUANTUM m))) s1))
        else let e = sched_isokendpt c s1 (SCHEDULING_PARENT m); par = procs s1 ! nat (snd e) in
             if fst e \<noteq> OK then Some (fst e, m, s1)
             else Some (start_finish c i m (upd_proc i (grant (sp_priority par) (sp_tickets par)
                          (sp_time_slice par)) s1))
      else None)"
proof -
  have p: "sched_isemtyendpt c s (SCHEDULING_ENDPOINT m) = (OK, ENDPOINT_P c (SCHEDULING_ENDPOINT m))"
    using E by (simp add: sched_isemtyendpt_def Let_def)
  then have i: "i < length (procs s)"
    by (simp add: sched_isemtyendpt_OK i_def)
  have s1: "upd_proc i (\<lambda>r. r\<lparr>sp_endpoint := SCHEDULING_ENDPOINT m, sp_parent := SCHEDULING_PARENT m,
     sp_max_priority := word_of_int (SCHEDULING_MAXPRIO m)\<rparr>) s = s1"
    by (simp add: s1_def upd_proc_def claim_slot_def)
  have mp: "sp_max_priority (procs s1 ! i) = word_of_int (SCHEDULING_MAXPRIO m)"
    using i by (simp add: s1_def)
  have g: "upd_proc i (\<lambda>r. r\<lparr>sp_priority := sp_max_priority r, sp_tickets := 20,
      sp_time_slice := w\<rparr>) s1 = upd_proc i (grant (word_of_int (SCHEDULING_MAXPRIO m)) 20 w) s1" for w
    by (simp add: upd_proc_def grant_def mp)
  show ?thesis
    using assms(3)
    by (simp add: do_start_scheduling_def p Let_def s1 mp g grant_def [abs_def] case_prod_beta flip: i_def
        split: sched_call.split)
qed

lemma do_start_rejected:
  assumes "\<not> (accept_message c m \<and> fst (sched_isemtyendpt c s (SCHEDULING_ENDPOINT m)) = OK)"
    and "do_start_scheduling c m s = Some (rv, m', s')"
  shows "s' = s \<and> m' = m \<and> rv = (if accept_message c m then fst (sched_isemtyendpt c s (SCHEDULING_ENDPOINT m)) else EPERM)"
  using assms
  by (cases "sched_isemtyendpt c s (SCHEDULING_ENDPOINT m)")
     (auto simp: do_start_scheduling_def Let_def split: if_split_asm)

lemma do_start_inv:
  assumes I: "sched_inv c s" and D: "do_start_scheduling c m s = Some (rv, m', s')"
  shows "sched_inv c s'"
proof (cases "accept_message c m \<and> fst (sched_isemtyendpt c s (SCHEDULING_ENDPOINT m)) = OK")
  case True
  define i where "i = nat (ENDPOINT_P c (SCHEDULING_ENDPOINT m))"
  define s1 where "s1 = upd_proc i (claim_slot m) s"
  from True have O: "0 \<le> ENDPOINT_P c (SCHEDULING_ENDPOINT m)" "i < length (procs s)"
      "\<not> in_use (procs s ! i)"
    by (auto simp: sched_isemtyendpt_def Let_def i_def split: if_split_asm)
  have s1: "sched_inv c s1"
    unfolding s1_def using I O by (intro sched_inv_upd) auto
  have "sched_inv c (upd_proc i (grant q t ts) s1)" for q t ts
    using s1 O by (intro sched_inv_upd) (auto simp: s1_def)
  then have fin: "sched_inv c (snd (snd (start_finish c i m (upd_proc i (grant q t ts) s1))))" for q t ts
    using O by (intro start_finish_inv) (auto simp: s1_def i_def)
  have "s' = s1 \<or> (\<exists>q t ts. s' = snd (snd (start_finish c i m (upd_proc i (grant q t ts) s1))))"
    using D do_start_accepted [of c m s] True
    by (auto simp: Let_def simp flip: i_def s1_def split: if_split_asm) (metis snd_conv)+
  with s1 fin show ?thesis by auto
qed (use assms do_start_rejected in blast)

lemma do_lottery_inv:
  assumes "sched_inv c s" "do_lottery c r s = Some s'" shows "sched_inv c s'"
proof -
  have "sched_inv c (upd_proc i (\<lambda>p. p\<lparr>sp_priority := sp_priority p - 1\<rparr>) s)" for i
    using assms(1) by (intro sched_inv_upd) (auto dest: sched_invD)
  with assms show ?thesis
    by (auto simp: do_lottery_def split: option.splits)
qed

lemma expire_timers_inv:
  assumes "sched_inv c s" "expire_timers c ev s = Some s'" shows "sched_inv c s'"
proof (cases "timer_expired ev \<and> sched_timer s \<noteq> None")
  case True
  with assms(2) obtain t where "do_lottery c (next_rand ev) (s\<lparr>sched_timer := None\<rparr>) = Some t"
      "procs s' = procs t"
    by (auto simp: expire_timers_def balance_queues_def)
  moreover have "sched_inv c (s\<lparr>sched_timer := None\<rparr>)"
    using assms(1) by (simp add: sched_inv_def)
  ultimately show ?thesis
    using do_lottery_inv sched_inv_cong by blast
qed (use assms in \<open>auto simp: expire_timers_def\<close>)

lemma sendreply_state [simp]: "snd (sendreply w x) = snd (snd x)"
  by (simp add: sendreply_def case_prod_beta)

lemma sched_main_inv:
  assumes "sched_inv c s" "sched_main c ev s = Some (rep, s')" shows "sched_inv c s'"
proof (cases "is_ipc_notify ev")
  case True
  with assms show ?thesis
    by (auto simp: sched_main_def Let_def sendreply_def split: if_splits intro: expire_timers_inv)
next
  case False
  show ?thesis
  proof (cases "m_type (m_in ev) \<in> {SCHEDULING_START, SCHEDULING_INHERIT}")
    case True
    with False assms(2) obtain x where "do_start_scheduling c (m_in ev) s = Some x" "s' = snd (snd x)"
      by (auto simp: sched_main_def Let_def sendreply_def)
    with assms(1) do_start_inv show ?thesis by (metis prod.collapse)
  next
    case other: False
    have "s' \<in> {s, snd (do_stop_scheduling c (m_in ev) s), snd (do_nice c (m_in ev) s),
        snd (do_noquantum c (m_in ev) s)}"
      using False other assms(2)
      by (auto simp: sched_main_def Let_def case_prod_beta sendreply_def
          split: sched_call.split_asm if_split_asm)
    with assms(1) show ?thesis
      by (auto intro: do_stop_inv do_nice_inv do_noquantum_inv)
  qed
qed

lemma sched_boot_inv: "sched_inv c (sched_boot c n)"
  by (simp add: sched_inv_def sched_boot_def init_scheduling_def Let_def in_use_def)

lemma reach_inv: "sched_reach c n s \<Longrightarrow> sched_inv c s"
  by (induction rule: sched_reach.induct) (auto intro: sched_boot_inv sched_main_inv)

text \<open>
  (C28) In every state the scheduler can reach, from boot and through any sequence of messages, clock
  ticks and kernel answers, the endpoints of the slots in use are pairwise different, each lies in
  the slot of its own process number, and \<^verbatim>\<open>sched_isokendpt\<close> accepts exactly the endpoints that some
  slot in use holds.
\<close>

theorem sched_table_consistent:
  assumes "sched_reach c n s"
  shows "distinct (List.map sp_endpoint (filter in_use (procs s))) \<and>
    (fst (sched_isokendpt c s e) = OK \<longleftrightarrow>
       (\<exists>i < length (procs s). in_use (procs s ! i) \<and> sp_endpoint (procs s ! i) = e \<and>
          ENDPOINT_P c e = int i))  \<and>
    (first_idx (\<lambda>p. in_use p \<and> sp_endpoint p = e) (procs s) =
       (if fst (sched_isokendpt c s e) = OK then Some (nat (ENDPOINT_P c e)) else None))"
proof -
  have I: "sched_inv c s"
    using assms by (rule reach_inv)
  have ok: "fst (sched_isokendpt c s e) = OK \<longleftrightarrow>
       (\<exists>i < length (procs s). in_use (procs s ! i) \<and> sp_endpoint (procs s ! i) = e \<and>
          ENDPOINT_P c e = int i)"
    by (auto simp: sched_isokendpt_def Let_def) (metis int_nat_eq nat_less_iff not_le)
  have "first_idx (\<lambda>p. in_use p \<and> sp_endpoint p = e) (procs s) = None"
    if "fst (sched_isokendpt c s e) \<noteq> OK"
  proof -
    have "sp_endpoint p \<noteq> e" if p: "p \<in> set (procs s)" "in_use p" for p
    proof -
      from p obtain i where "i < length (procs s)" "procs s ! i = p"
        by (auto simp: in_set_conv_nth)
      with p(2) ok sched_invD [OF I, of i] \<open>fst (sched_isokendpt c s e) \<noteq> OK\<close> show ?thesis
        by blast
    qed
    then show ?thesis by (auto simp: first_idx_None_iff)
  qed
  moreover have "first_idx (\<lambda>p. in_use p \<and> sp_endpoint p = e) (procs s) = Some (nat (ENDPOINT_P c e))"
    if "fst (sched_isokendpt c s e) = OK"
  proof -
    from that ok obtain i where "i < length (procs s)" "in_use (procs s ! i)"
        "sp_endpoint (procs s ! i) = e" "ENDPOINT_P c e = int i"
      by blast
    then show ?thesis
      using sp.scan_finds_slot [OF I] by simp
  qed
  ultimately show ?thesis
    using ok sp.live_endpoints_distinct [OF I] by simp
qed

subsection \<open>The lottery\<close>

definition tickets_of :: "schedproc \<Rightarrow> nat" where
  "tickets_of p = (if in_use p then unat (sp_tickets p) else 0)"

definition ticket_sum :: "schedproc list \<Rightarrow> nat" where
  "ticket_sum ps = sum_list (List.map tickets_of ps)"

lemma ticket_sum_simps [simp]:
  "ticket_sum [] = 0" "ticket_sum (p # ps) = tickets_of p + ticket_sum ps"
  by (simp_all add: ticket_sum_def)

lemma ticket_sum_append [simp]: "ticket_sum (ps @ qs) = ticket_sum ps + ticket_sum qs"
  by (simp add: ticket_sum_def)

lemma ticket_sum_take_Suc:
  "i < length ps \<Longrightarrow> ticket_sum (take (Suc i) ps) = ticket_sum (take i ps) + tickets_of (ps ! i)"
  by (simp add: take_Suc_conv_app_nth)

lemma ticket_sum_take_le: "ticket_sum (take i ps) \<le> ticket_sum ps"
  by (metis append_take_drop_id le_add1 ticket_sum_append)

lemma lottery_scan_iff:
  assumes "unat cw + ticket_sum ps < 2 ^ 32" "unat cw \<le> unat lucky"
  shows "lottery_scan lucky cw ps = Some i \<longleftrightarrow>
    i < length ps \<and> unat cw + ticket_sum (take i ps) \<le> unat lucky \<and>
    unat lucky < unat cw + ticket_sum (take i ps) + tickets_of (ps ! i)"
  using assms
proof (induction ps arbitrary: cw i)
  case (Cons p ps)
  define cw' where "cw' = (if in_use p then cw + sp_tickets p else cw)"
  have sm: "unat cw' = unat cw + tickets_of p"
    using Cons.prems by (auto simp: cw'_def tickets_of_def intro!: unat_add_small)
  show ?case
  proof (cases "unat lucky < unat cw'")
    case True
    then have p: "in_use p" "lucky < cw + sp_tickets p"
      using Cons.prems(2) by (auto simp: cw'_def word_less_nat_alt split: if_split_asm)
    have "\<not> unat cw + ticket_sum (take i (p # ps)) \<le> unat lucky" if "i \<noteq> 0"
      using True that by (cases i) (simp_all add: sm)
    with True p Cons.prems(2) show ?thesis
      by (cases "i = 0") (simp_all add: sm)
  next
    case False
    then have step: "lottery_scan lucky cw (p # ps) = map_option Suc (lottery_scan lucky cw' ps)"
      by (cases "in_use p") (simp_all add: cw'_def word_less_nat_alt Let_def)
    have "lottery_scan lucky cw' ps = Some j \<longleftrightarrow>
        j < length ps \<and> unat cw' + ticket_sum (take j ps) \<le> unat lucky \<and>
        unat lucky < unat cw' + ticket_sum (take j ps) + tickets_of (ps ! j)" for j
      using Cons.prems False by (intro Cons.IH) (simp_all add: sm)
    with False show ?thesis
      unfolding step by (cases i) (simp_all add: sm add.assoc)
  qed
qed simp

lemma lottery_scan_None:
  assumes "unat cw + ticket_sum ps < 2 ^ 32" "unat cw \<le> unat lucky"
  shows "lottery_scan lucky cw ps = None \<longleftrightarrow> unat cw + ticket_sum ps \<le> unat lucky"
  using assms
proof (induction ps arbitrary: cw)
  case (Cons p ps)
  have sm: "unat (cw + sp_tickets p) = unat cw + unat (sp_tickets p)" if "in_use p"
    using Cons.prems that by (simp add: unat_word_ariths tickets_of_def)
  show ?case
  proof (cases "in_use p \<and> cw + sp_tickets p > lucky")
    case True
    then have "unat lucky < unat cw + unat (sp_tickets p)"
      using sm by (simp add: word_less_nat_alt)
    with True show ?thesis by (simp add: tickets_of_def Let_def)
  next
    case False
    with Cons.IH [of cw] Cons.IH [of "cw + sp_tickets p"] Cons.prems sm show ?thesis
      by (auto simp: tickets_of_def Let_def word_less_nat_alt)
  qed
qed simp

lemma lucky_ticket_pos:
  assumes "0 < unat tt" "unat tt < 2 ^ 31"
  shows "lucky_ticket r tt = Some (word_of_nat (r mod unat tt + 1))"
proof -
  have si: "sint tt = int (unat tt)"
    using assms(2) by (rule sint_small)
  have r: "int r smod int (unat tt) = int (r mod unat tt)"
    by (simp add: smod_mod_positive zmod_int)
  have "r mod unat tt < unat tt" using assms(1) by simp
  with assms(2) have "r mod unat tt + 1 \<le> 2147483647" by simp
  then have "int (r mod unat tt + 1) \<le> int 2147483647" by (simp only: of_nat_le_iff)
  then have "\<not> int (r mod unat tt) + 1 > 2 ^ 31 - 1" by (simp only: of_nat_add of_nat_1 of_nat_numeral) simp
  moreover have "(word_of_int (int (r mod unat tt) + 1) :: 32 word) = word_of_nat (r mod unat tt + 1)"
    by (simp only: of_nat_add of_nat_1 of_int_add of_int_of_nat_eq of_int_1)
  moreover have "tt \<noteq> 0" using assms(1) by auto
  ultimately show ?thesis
    by (simp only: lucky_ticket_def si r Let_def if_False) (simp add: uint_0_iff)
qed

definition winner :: "nat \<Rightarrow> sched_state \<Rightarrow> nat option" where
  "winner r s =
     (case lucky_ticket r (total_tickets s) of None \<Rightarrow> None | Some l \<Rightarrow> lottery_scan l 0 (procs s))"

lemma winner_iff:
  assumes "0 < unat (total_tickets s)" "unat (total_tickets s) < 2 ^ 31" "ticket_sum (procs s) < 2 ^ 32"
  shows "winner r s = Some i \<longleftrightarrow> i < length (procs s) \<and>
    ticket_sum (take i (procs s)) \<le> r mod unat (total_tickets s) + 1 \<and>
    r mod unat (total_tickets s) + 1 < ticket_sum (take i (procs s)) + tickets_of (procs s ! i)"
proof -
  have "r mod unat (total_tickets s) < unat (total_tickets s)"
    using assms(1) by simp
  with assms(2) have "r mod unat (total_tickets s) + 1 < 2 ^ 32" by simp
  then have "unat (word_of_nat (r mod unat (total_tickets s) + 1) :: 32 word)
      = r mod unat (total_tickets s) + 1"
    by (rule unat_of_nat_small)
  with lottery_scan_iff [of 0 "procs s" "word_of_nat (r mod unat (total_tickets s) + 1)" i] assms(3)
  show ?thesis
    by (simp add: winner_def lucky_ticket_pos [OF assms(1,2)] del: of_nat_add of_nat_Suc)
qed

lemma winner_None:
  assumes "0 < unat (total_tickets s)" "unat (total_tickets s) < 2 ^ 31" "ticket_sum (procs s) < 2 ^ 32"
  shows "winner r s = None \<longleftrightarrow> ticket_sum (procs s) \<le> r mod unat (total_tickets s) + 1"
proof -
  have "r mod unat (total_tickets s) < unat (total_tickets s)"
    using assms(1) by simp
  with assms(2) have "r mod unat (total_tickets s) + 1 < 2 ^ 32" by simp
  then have "unat (word_of_nat (r mod unat (total_tickets s) + 1) :: 32 word)
      = r mod unat (total_tickets s) + 1"
    by (rule unat_of_nat_small)
  with lottery_scan_None [of 0 "procs s" "word_of_nat (r mod unat (total_tickets s) + 1)"] assms(3)
  show ?thesis
    by (simp add: winner_def lucky_ticket_pos [OF assms(1,2)] del: of_nat_add of_nat_Suc)
qed

lemma winner_in_use: "winner r s = Some i \<Longrightarrow> i < length (procs s) \<and> in_use (procs s ! i)"
proof -
  have "lottery_scan l cw ps = Some i \<Longrightarrow> i < length ps \<and> in_use (ps ! i)" for l cw ps i
    by (induction ps arbitrary: cw i) (auto simp: Let_def split: if_split_asm)
  then show "winner r s = Some i \<Longrightarrow> i < length (procs s) \<and> in_use (procs s ! i)"
    by (auto simp: winner_def split: option.split_asm)
qed

lemma do_lottery_winner:
  "winner r s = Some i \<Longrightarrow> do_lottery c r s =
     Some (snd (schedule_process c i (upd_proc i (\<lambda>p. p\<lparr>sp_priority := sp_priority p - 1\<rparr>) s)))"
  by (auto simp: winner_def do_lottery_def split: option.split_asm)

lemma do_lottery_no_winner:
  "lucky_ticket r (total_tickets s) \<noteq> None \<Longrightarrow> winner r s = None \<Longrightarrow> do_lottery c r s = Some s"
  by (auto simp: winner_def do_lottery_def)

text \<open>
  (C21) Who wins the lottery.  Let \<open>T\<close> be the ticket counter, a positive \<^verbatim>\<open>int\<close>, and let the tickets of the processes
  in use not overflow.  The counter need not be their sum, as SCHED lets the two drift apart.  Of the \<open>T\<close> values of
  \<^verbatim>\<open>rand() % upper_bound\<close>, process \<open>i\<close>, before which the table holds \<open>b\<close> tickets and which has \<open>t\<close>, wins for those from
  \<open>b - 1\<close> up to \<open>b + t - 2\<close> as far as they lie below \<open>T\<close>, and nobody wins for those from the sum of all tickets minus one
  on.  Only when the counter is equal to the exact sum of the tickets of the processes in use does process \<open>i\<close> win as often
  as it has tickets, the first one once less, while the last value selects nobody.
\<close>

theorem lottery_shares:
  assumes T: "0 < unat (total_tickets s)" "unat (total_tickets s) < 2 ^ 31"
    and lt: "ticket_sum (procs s) < 2 ^ 32"
    and i: "i < length (procs s)" "tickets_of (procs s ! i) > 0"
  shows "do_lottery c r s =
           Some (case winner r s of
                   None \<Rightarrow> s
                 | Some j \<Rightarrow> snd (schedule_process c j
                              (upd_proc j (\<lambda>p. p\<lparr>sp_priority := sp_priority p - 1\<rparr>) s))) \<and>
         {r. r < unat (total_tickets s) \<and> winner r s = Some i} =
           {ticket_sum (take i (procs s)) - 1 ..<
              min (unat (total_tickets s)) (ticket_sum (take i (procs s)) + tickets_of (procs s ! i) - 1)} \<and>
         {r. r < unat (total_tickets s) \<and> winner r s = None} = {ticket_sum (procs s) - 1 ..< unat (total_tickets s)} \<and>
         (ticket_sum (procs s) = unat (total_tickets s) \<longrightarrow>
           card {r. r < unat (total_tickets s) \<and> winner r s = Some i} =
             tickets_of (procs s ! i) - (if ticket_sum (take i (procs s)) = 0 then 1 else 0) \<and>
           {r. r < unat (total_tickets s) \<and> winner r s = None} = {unat (total_tickets s) - 1})"
proof -
  let ?T = "unat (total_tickets s)" and ?b = "ticket_sum (take i (procs s))"
  let ?t = "tickets_of (procs s ! i)" and ?S = "ticket_sum (procs s)"
  have bt: "?b + ?t \<le> ?S"
    using ticket_sum_take_le [of "Suc i" "procs s"] ticket_sum_take_Suc [OF i(1)] by simp
  have wins: "{r. r < ?T \<and> winner r s = Some i} = {?b - 1 ..< min ?T (?b + ?t - 1)}"
    using i by (auto simp: winner_iff [OF T lt])
  have none: "{r. r < ?T \<and> winner r s = None} = {?S - 1 ..< ?T}"
    by (auto simp: winner_None [OF T lt])
  have "card {?b - 1 ..< min ?T (?b + ?t - 1)} = ?t - (if ?b = 0 then 1 else 0) \<and> {?S - 1 ..< ?T} = {?T - 1}"
    if "?S = ?T" using bt that T(1) by (auto simp: min_def)
  moreover have "lucky_ticket r (total_tickets s) \<noteq> None"
    using lucky_ticket_pos [OF T] by simp
  ultimately show ?thesis
    unfolding wins none using do_lottery_winner [of r s _ c] do_lottery_no_winner [of r s c] by (auto split: option.split)
qed

definition demo_cfg :: sched_cfg where
  "demo_cfg = \<lparr>ENDPOINT_P = id, PM_PROC_NR = 100, RS_PROC_NR = 101, SCHED_PROC_NR = 102, CLOCK = -3,
     sys_hz = 60, kern = (\<lambda>_ _. OK), conv = (\<lambda>n. word_of_int (5 * n))\<rparr>"

definition demo_proc :: "int \<Rightarrow> 32 word \<Rightarrow> 32 word \<Rightarrow> schedproc" where
  "demo_proc e q t = \<lparr>sp_endpoint = e, sp_parent = 0, sp_flags = IN_USE, sp_max_priority = q,
     sp_priority = q, sp_time_slice = 200, sp_tickets = t\<rparr>"

definition demo_state :: "schedproc list \<Rightarrow> 32 word \<Rightarrow> sched_state" where
  "demo_state ps t = \<lparr>procs = ps, total_tickets = t, balance_timeout = 300, sched_timer = Some 300, klog = []\<rparr>"

lemmas demo_defs = demo_cfg_def demo_proc_def demo_state_def in_use_def

theorem lottery_shares_witness:
  "card {r. r < 50 \<and> winner r (demo_state [demo_proc 0 16 20, demo_proc 1 16 30] 50) = Some 0} = 19 \<and>
   {r. r < 70 \<and> winner r (demo_state [demo_proc 0 16 20, demo_proc 1 16 30] 70) = None} = {49 ..< 70}"
  using lottery_shares [of "demo_state [demo_proc 0 16 20, demo_proc 1 16 30] 50" 0]
    lottery_shares [of "demo_state [demo_proc 0 16 20, demo_proc 1 16 30] 70" 0]
  by (simp add: demo_defs tickets_of_def)

subsection \<open>What the handlers do\<close>

lemma isok_pair: "fst (sched_isokendpt c s e) = OK \<Longrightarrow> sched_isokendpt c s e = (OK, ENDPOINT_P c e)"
  by (simp add: sched_isokendpt_def Let_def)

lemma isok_slot:
  "fst (sched_isokendpt c s e) = OK \<Longrightarrow>
     0 \<le> ENDPOINT_P c e \<and> nat (ENDPOINT_P c e) < length (procs s) \<and>
     sp_endpoint (procs s ! nat (ENDPOINT_P c e)) = e \<and> in_use (procs s ! nat (ENDPOINT_P c e))"
  using isok_pair sched_isokendpt_OK by metis

text \<open>
  A process that has used up its quantum is put one queue lower, never below the
  last queue \<^verbatim>\<open>MIN_USER_Q\<close>, and the kernel is asked once to run it there with the time slice it
  has; nothing else of the scheduler's state changes, and the kernel's answer is returned.
\<close>

theorem noquantum_lowers_priority:
  assumes "fst (sched_isokendpt c s (m_source m)) = OK"
  shows "let i = nat (ENDPOINT_P c (m_source m)); p = procs s ! i;
             q = (if sp_priority p < MIN_USER_Q then sp_priority p + 1 else sp_priority p);
             k = Sys_schedule (m_source m) q (sp_time_slice p)
         in do_noquantum c m s =
              (kern c (klog s) k, s\<lparr>procs := (procs s)[i := p\<lparr>sp_priority := q\<rparr>], klog := klog s @ [k]\<rparr>) \<and>
            (sp_priority p \<le> MIN_USER_Q \<longrightarrow> sp_priority p \<le> q \<and> q \<le> MIN_USER_Q)"
proof -
  define i where "i = nat (ENDPOINT_P c (m_source m))"
  define p where "p = procs s ! i"
  have ok: "i < length (procs s)" "sp_endpoint p = m_source m"
    using isok_slot [OF assms] by (simp_all add: i_def p_def)
  have "do_noquantum c m s = schedule_process c i (if sp_priority p < MIN_USER_Q
      then upd_proc i (\<lambda>r. r\<lparr>sp_priority := sp_priority r + 1\<rparr>) s else s)"
    by (simp add: do_noquantum_def isok_pair [OF assms] Let_def flip: i_def p_def)
  moreover have "sp_priority p + 1 \<le> MIN_USER_Q \<and> sp_priority p \<le> sp_priority p + 1"
    if "sp_priority p < MIN_USER_Q"
    using that by (simp add: word_less_nat_alt word_le_nat_alt unat_word_ariths)
  moreover have "p\<lparr>sp_priority := sp_priority p\<rparr> = p" "s\<lparr>procs := (procs s)[i := p]\<rparr> = s"
    using ok by (simp_all add: p_def)
  ultimately show ?thesis
    using ok
    by (auto simp: Let_def schedule_process_def kernel_call_def upd_proc_def simp flip: i_def p_def)
qed

theorem noquantum_lowers_priority_witness:
  "do_noquantum demo_cfg \<lparr>m_source = 1, m_type = SCHEDULING_NO_QUANTUM, SCHEDULING_ENDPOINT = 0,
      SCHEDULING_PARENT = 0, SCHEDULING_MAXPRIO = 0, SCHEDULING_QUANTUM = 0, SCHEDULING_SCHEDULER = 0\<rparr>
     (demo_state [demo_proc 0 16 20, demo_proc 1 16 30] 50) =
   (OK, \<lparr>procs = [demo_proc 0 16 20, (demo_proc 1 16 30)\<lparr>sp_priority := 17\<rparr>], total_tickets = 50,
         balance_timeout = 300, sched_timer = Some 300, klog = [Sys_schedule 1 17 200]\<rparr>)"
  using noquantum_lowers_priority [of demo_cfg "demo_state [demo_proc 0 16 20, demo_proc 1 16 30] 50"
      "\<lparr>m_source = 1, m_type = SCHEDULING_NO_QUANTUM, SCHEDULING_ENDPOINT = 0,
      SCHEDULING_PARENT = 0, SCHEDULING_MAXPRIO = 0, SCHEDULING_QUANTUM = 0, SCHEDULING_SCHEDULER = 0\<rparr>"]
  by (simp add: demo_defs sched_isokendpt_def Let_def)

text \<open>
  Taking over a process.  When PM or RS asks for a process whose slot is free, with a queue
  below \<^verbatim>\<open>NR_SCHED_QUEUES\<close> and the kernel accepts, the process gets twenty tickets, its queue and
  quantum from the message, the kernel sees exactly the take-over followed by one
  scheduling call, the reply names SCHED as the scheduler, and from then on the endpoint is known.
  When the kernel refuses the take-over the slot stays free, but the twenty tickets have been
  added to the counter all the same.
\<close>

theorem start_scheduling_outcome:
  fixes c m s
  defines "e \<equiv> SCHEDULING_ENDPOINT m"
  defines "i \<equiv> nat (ENDPOINT_P c e)"
  defines "q \<equiv> word_of_int (SCHEDULING_MAXPRIO m) :: 32 word"
  defines "ts \<equiv> word_of_int (SCHEDULING_QUANTUM m) :: 32 word"
  assumes "m_type m = SCHEDULING_START" "accept_message c m"
    and "fst (sched_isemtyendpt c s e) = OK" and "q < NR_SCHED_QUEUES"
  shows "\<exists>rv m' s'. do_start_scheduling c m s = Some (rv, m', s') \<and>
    total_tickets s' = total_tickets s + 20 \<and>
    (if kern c (klog s) (Sys_schedctl 0 e 0 0) = OK then
       klog s' = klog s @ [Sys_schedctl 0 e 0 0, Sys_schedule e q ts] \<and>
       rv = kern c (klog s @ [Sys_schedctl 0 e 0 0]) (Sys_schedule e q ts) \<and>
       (rv = OK \<longrightarrow> SCHEDULING_SCHEDULER m' = SCHED_PROC_NR c) \<and>
       sched_isokendpt c s' e = (OK, int i) \<and>
       procs s' = (procs s)[i := \<lparr>sp_endpoint = e, sp_parent = SCHEDULING_PARENT m, sp_flags = IN_USE,
          sp_max_priority = q, sp_priority = q, sp_time_slice = ts, sp_tickets = 20\<rparr>]
     else rv = kern c (klog s) (Sys_schedctl 0 e 0 0) \<and> klog s' = klog s @ [Sys_schedctl 0 e 0 0] \<and>
       m' = m \<and> fst (sched_isokendpt c s' e) \<noteq> OK)"
proof -
  have O: "ENDPOINT_P c e = int i" "i < length (procs s)" "\<not> in_use (procs s ! i)"
    using assms(7) by (auto simp: sched_isemtyendpt_def Let_def i_def split: if_split_asm)
  define s2 where "s2 = upd_proc i (grant q 20 ts) (upd_proc i (claim_slot m) s)"
  have D: "do_start_scheduling c m s = Some (start_finish c i m s2)"
    using do_start_accepted [of c m s] assms(5-8)
    by (simp add: s2_def i_def q_def ts_def e_def not_le [symmetric])
  have p2: "procs s2 ! i = (procs s ! i)\<lparr>sp_endpoint := e, sp_parent := SCHEDULING_PARENT m,
      sp_max_priority := q, sp_priority := q, sp_time_slice := ts, sp_tickets := 20\<rparr>"
      "length (procs s2) = length (procs s)" "klog s2 = klog s" "total_tickets s2 = total_tickets s"
    using O by (simp_all add: s2_def grant_def claim_slot_def e_def q_def)
  have lst: "(procs s2)[i := x] = (procs s)[i := x]" for x
    by (simp add: s2_def upd_proc_def)
  have full: "(procs s2 ! i)\<lparr>sp_flags := IN_USE\<rparr> = \<lparr>sp_endpoint = e, sp_parent = SCHEDULING_PARENT m,
      sp_flags = IN_USE, sp_max_priority = q, sp_priority = q, sp_time_slice = ts, sp_tickets = 20\<rparr>"
    by (cases "procs s ! i") (simp add: p2)
  obtain rv m' s' where R: "start_finish c i m s2 = (rv, m', s')"
    by (metis prod.collapse)
  show ?thesis
  proof (cases "kern c (klog s) (Sys_schedctl 0 e 0 0) = OK")
    case True
    with R have "procs s' = (procs s2)[i := (procs s2 ! i)\<lparr>sp_flags := IN_USE\<rparr>]"
        "klog s' = klog s @ [Sys_schedctl 0 e 0 0, Sys_schedule e q ts]"
        "rv = kern c (klog s @ [Sys_schedctl 0 e 0 0]) (Sys_schedule e q ts)"
        "rv = OK \<longrightarrow> SCHEDULING_SCHEDULER m' = SCHED_PROC_NR c"
        "total_tickets s' = total_tickets s + 20"
      using O p2
      by (auto simp: start_finish_def Let_def kernel_call_def schedule_process_def upd_proc_def
          split: if_split_asm)
    with True D R O show ?thesis
      by (auto simp: lst full sched_isokendpt_OK in_use_def)
  next
    case False
    with R O p2 have "rv = kern c (klog s) (Sys_schedctl 0 e 0 0)" "m' = m"
        "klog s' = klog s @ [Sys_schedctl 0 e 0 0]" "procs s' = procs s2"
        "total_tickets s' = total_tickets s + 20"
      by (auto simp: start_finish_def Let_def kernel_call_def)
    with False D R O p2 show ?thesis
      by (auto simp: sched_isokendpt_def Let_def in_use_def)
  qed
qed

definition demo_msg :: "int \<Rightarrow> sched_call \<Rightarrow> int \<Rightarrow> int \<Rightarrow> sched_msg" where
  "demo_msg src t e q = \<lparr>m_source = src, m_type = t, SCHEDULING_ENDPOINT = e, SCHEDULING_PARENT = 0,
     SCHEDULING_MAXPRIO = q, SCHEDULING_QUANTUM = 200, SCHEDULING_SCHEDULER = 0\<rparr>"

theorem start_scheduling_outcome_witness:
  "\<exists>rv m' s'. do_start_scheduling demo_cfg (demo_msg 100 SCHEDULING_START 1 7) (sched_boot demo_cfg 2) =
       Some (rv, m', s') \<and> total_tickets s' = 20 \<and> sched_isokendpt demo_cfg s' 1 = (OK, 1) \<and>
     klog s' = [Sys_schedctl 0 1 0 0, Sys_schedule 1 7 200]"
  using start_scheduling_outcome [of "demo_msg 100 SCHEDULING_START 1 7" demo_cfg "sched_boot demo_cfg 2"]
  by (auto simp: demo_defs demo_msg_def accept_message_def sched_isemtyendpt_def sched_boot_def
      init_scheduling_def Let_def)

lemma do_nice_effect:
  assumes "accept_message c m" and ok: "fst (sched_isokendpt c s (SCHEDULING_ENDPOINT m)) = OK"
    and n: "0 \<le> SCHEDULING_MAXPRIO m" "SCHEDULING_MAXPRIO m < NR_SCHED_QUEUES"
    and t: "1 \<le> unat (sp_tickets (procs s ! nat (ENDPOINT_P c (SCHEDULING_ENDPOINT m))))"
      "unat (sp_tickets (procs s ! nat (ENDPOINT_P c (SCHEDULING_ENDPOINT m)))) \<le> 100"
  shows "let i = nat (ENDPOINT_P c (SCHEDULING_ENDPOINT m)); p = procs s ! i;
             n = word_of_int (SCHEDULING_MAXPRIO m) :: 32 word;
             k = Sys_schedule (SCHEDULING_ENDPOINT m) n (sp_time_slice p);
             p' = procs (snd (do_nice c m s)) ! i
         in fst (do_nice c m s) = kern c (klog s) k \<and> klog (snd (do_nice c m s)) = klog s @ [k] \<and>
            unat (sp_tickets p') = min 100 (unat (sp_tickets p) + 5 * nat (SCHEDULING_MAXPRIO m)) \<and>
            (if fst (do_nice c m s) = OK then sp_priority p' = n \<and> sp_max_priority p' = n
             else sp_priority p' = sp_priority p \<and> sp_max_priority p' = sp_max_priority p) \<and>
            total_tickets (snd (do_nice c m s)) = total_tickets s \<and>
            (\<forall>j. j \<noteq> i \<longrightarrow> procs (snd (do_nice c m s)) ! j = procs s ! j)"
proof -
  define i where "i = nat (ENDPOINT_P c (SCHEDULING_ENDPOINT m))"
  define p where "p = procs s ! i"
  define n where "n = nat (SCHEDULING_MAXPRIO m)"
  have ok': "i < length (procs s)" "sp_endpoint p = SCHEDULING_ENDPOINT m"
    using isok_slot [OF ok] by (simp_all add: i_def p_def)
  have nn: "SCHEDULING_MAXPRIO m = int n" "n < 18"
    using n by (simp_all add: n_def)
  have un: "unat (word_of_nat n :: 32 word) = n"
    using nn(2) by (simp add: unat_of_nat_small)
  have sn: "sint (word_of_nat n :: 32 word) = int n"
    using nn(2) sint_small [of "word_of_nat n"] un by simp
  have add: "unat (sp_tickets p + word_of_int (5 * int n)) = unat (sp_tickets p) + 5 * n"
  proof -
    have "(word_of_int (5 * int n) :: 32 word) = word_of_nat (5 * n)" by simp
    moreover have "unat (word_of_nat (5 * n) :: 32 word) = 5 * n"
      using nn(2) by (intro unat_of_nat_small) simp
    ultimately show ?thesis
      using t nn(2) unat_add_small [of "sp_tickets p" "word_of_nat (5 * n)"]
      by (simp add: p_def i_def del: of_nat_mult)
  qed
  have tk: "unat (new_tickets c (word_of_int (int n)) (sp_tickets p)) = min 100 (unat (sp_tickets p) + 5 * n)"
  proof (cases "n = 0")
    case True
    have "sint (sp_tickets p) = int (unat (sp_tickets p))"
      using t by (intro sint_small) (simp add: p_def i_def)
    moreover have "1 \<le> unat (sp_tickets p)"
      using t(1) by (simp only: p_def i_def)
    ultimately have "\<not> sint (sp_tickets p) < 1" by linarith
    with True t show ?thesis
      by (simp add: new_tickets_def tickets_to_add_def Let_def p_def i_def)
  next
    case False
    have "sint (sp_tickets p + word_of_int (5 * int n)) = int (unat (sp_tickets p) + 5 * n)"
      using t nn(2) add by (subst sint_small) (simp_all add: p_def i_def)
    then have "100 \<le> sint (sp_tickets p + word_of_int (5 * int n)) \<longleftrightarrow> 100 \<le> unat (sp_tickets p) + 5 * n"
      by (simp only:) linarith
    moreover have "tickets_to_add c (int n) = word_of_int (5 * int n)" using nn(2) by (simp add: tickets_to_add_def)
    ultimately show ?thesis
      using False add by (simp add: new_tickets_def sn Let_def)
  qed
  show ?thesis
    using assms(1) ok' nn tk
    by (simp add: do_nice_def isok_pair [OF ok] case_prod_beta Let_def sn n_def [symmetric]
        flip: i_def p_def)
qed

text \<open>
  Changing the nice level.  For a known process with between 1 and 100 tickets and a value \<open>n\<close>
  from \<open>0\<close> to \<open>17\<close>, the handler gives it \<open>5 * n\<close> more tickets, at most 100, and asks the kernel to run it
  in queue \<open>n\<close>.  If the kernel refuses, the old queue is restored, but the new tickets stay.  The
  ticket counter used as the lottery's upper bound is not adjusted in either case.
\<close>

theorem nice_tickets_and_rollback:
  assumes "accept_message c m" and ok: "fst (sched_isokendpt c s (SCHEDULING_ENDPOINT m)) = OK"
    and n: "0 \<le> SCHEDULING_MAXPRIO m" "SCHEDULING_MAXPRIO m < NR_SCHED_QUEUES"
    and t: "1 \<le> unat (sp_tickets (procs s ! nat (ENDPOINT_P c (SCHEDULING_ENDPOINT m))))"
      "unat (sp_tickets (procs s ! nat (ENDPOINT_P c (SCHEDULING_ENDPOINT m)))) \<le> 100"
  shows "let i = nat (ENDPOINT_P c (SCHEDULING_ENDPOINT m)); p = procs s ! i;
             n = word_of_int (SCHEDULING_MAXPRIO m) :: 32 word;
             k = Sys_schedule (SCHEDULING_ENDPOINT m) n (sp_time_slice p);
             p' = procs (snd (do_nice c m s)) ! i
         in fst (do_nice c m s) = kern c (klog s) k \<and> klog (snd (do_nice c m s)) = klog s @ [k] \<and>
            unat (sp_tickets p') = min 100 (unat (sp_tickets p) + 5 * nat (SCHEDULING_MAXPRIO m)) \<and>
            (if fst (do_nice c m s) = OK then sp_priority p' = n \<and> sp_max_priority p' = n
             else sp_priority p' = sp_priority p \<and> sp_max_priority p' = sp_max_priority p) \<and>
            total_tickets (snd (do_nice c m s)) = total_tickets s \<and>
            (\<forall>j. j \<noteq> i \<longrightarrow> procs (snd (do_nice c m s)) ! j = procs s ! j)"
  by (rule do_nice_effect [OF assms])

theorem nice_tickets_and_rollback_witness:
  "let s = demo_state [demo_proc 0 16 20] 20; m = demo_msg 100 SCHEDULING_SET_NICE 0 4;
       c = demo_cfg\<lparr>kern := (\<lambda>_ _. EINVAL)\<rparr>
   in unat (sp_tickets (procs (snd (do_nice c m s)) ! 0)) = 40 \<and>
      sp_priority (procs (snd (do_nice c m s)) ! 0) = 16 \<and> fst (do_nice c m s) = EINVAL"
  using nice_tickets_and_rollback [of "demo_cfg\<lparr>kern := (\<lambda>_ _. EINVAL)\<rparr>"
      "demo_msg 100 SCHEDULING_SET_NICE 0 4" "demo_state [demo_proc 0 16 20] 20"]
  by (simp add: demo_defs demo_msg_def accept_message_def sched_isokendpt_def Let_def)

subsection \<open>When the main loop stops\<close>

lemma do_start_total:
  assumes "m_type m = SCHEDULING_START \<or> m_type m = SCHEDULING_INHERIT"
  shows "do_start_scheduling c m s \<noteq> None"
proof (cases "accept_message c m \<and> fst (sched_isemtyendpt c s (SCHEDULING_ENDPOINT m)) = OK")
  case True
  with do_start_accepted [of c m s] assms show ?thesis by (simp add: Let_def del: not_None_eq)
next
  case False
  with assms show ?thesis by (auto simp: do_start_scheduling_def Let_def case_prod_beta simp del: not_None_eq)
qed

lemma expire_timers_None:
  "expire_timers c ev s = None \<longleftrightarrow>
     timer_expired ev \<and> sched_timer s \<noteq> None \<and> lucky_ticket (next_rand ev) (total_tickets s) = None"
  by (auto simp: expire_timers_def balance_queues_def do_lottery_def split: option.splits)

text \<open>
  (C38) The main loop gets through every iteration, whatever message, notification or kernel
  answer arrives, with one exception: a clock tick with the balance timer expired while the
  ticket counter has no usable value.  A counter between \<open>1\<close> and \<open>2 ^ 31 - 1\<close> is always usable; with
  the counter still at zero, before the first process has been taken over, the first expiry of
  the timer divides by zero.
\<close>

theorem main_loop_only_fails_in_lottery:
  "(sched_main c ev s = None \<longleftrightarrow>
      is_ipc_notify ev \<and> m_source (m_in ev) = CLOCK c \<and> timer_expired ev \<and> sched_timer s \<noteq> None \<and>
      lucky_ticket (next_rand ev) (total_tickets s) = None) \<and>
   (0 < unat (total_tickets s) \<and> unat (total_tickets s) < 2 ^ 31 \<longrightarrow> sched_main c ev s \<noteq> None) \<and>
   (is_ipc_notify ev \<and> m_source (m_in ev) = CLOCK c \<and> timer_expired ev \<longrightarrow>
      sched_main c ev (sched_boot c n) = None)"
proof -
  have eq: "sched_main c ev s = None \<longleftrightarrow>
      is_ipc_notify ev \<and> m_source (m_in ev) = CLOCK c \<and> timer_expired ev \<and> sched_timer s \<noteq> None \<and>
      lucky_ticket (next_rand ev) (total_tickets s) = None" for s
    using do_start_total [of "m_in ev" c s] expire_timers_None [of c ev s]
    by (auto simp: sched_main_def Let_def sendreply_def case_prod_beta split: sched_call.split)
  moreover have "sched_timer (sched_boot c n) \<noteq> None" "lucky_ticket r (total_tickets (sched_boot c n)) = None" for r
    by (simp_all add: sched_boot_def init_scheduling_def Let_def lucky_ticket_def)
  ultimately show ?thesis
    using lucky_ticket_pos by simp
qed

definition demo_tick :: sched_event where
  "demo_tick = \<lparr>is_ipc_notify = True, from_kernel = True, m_in = demo_msg (-3) (Other_call 0) 0 0,
     timer_expired = True, next_rand = 7\<rparr>"

theorem main_loop_only_fails_in_lottery_witness:
  "sched_main demo_cfg demo_tick (sched_boot demo_cfg 2) = None \<and>
   sched_main demo_cfg demo_tick (demo_state [demo_proc 0 16 20] 20) \<noteq> None"
proof -
  let ?s = "demo_state [demo_proc 0 16 20] 20"
  have "is_ipc_notify demo_tick \<and> m_source (m_in demo_tick) = CLOCK demo_cfg \<and> timer_expired demo_tick"
    by (simp add: demo_tick_def demo_msg_def demo_cfg_def)
  moreover have "0 < unat (total_tickets ?s) \<and> unat (total_tickets ?s) < 2 ^ 31"
    by (simp add: demo_state_def)
  ultimately show ?thesis
    using main_loop_only_fails_in_lottery [of demo_cfg demo_tick ?s 2] by blast
qed

text \<open>
  The ticket counter drifts.  Giving a process up does not take its tickets out of the counter:
  after a successful \<^verbatim>\<open>do_stop_scheduling\<close> from an exact counter the counter exceeds the tickets of the
  remaining processes by those of the process that left, and the lottery selects nobody for that
  many of its draws and the one it already lost.
\<close>

theorem stop_keeps_counter:
  fixes s c m
  defines "i \<equiv> nat (ENDPOINT_P c (SCHEDULING_ENDPOINT m))"
  assumes "accept_message c m" "fst (sched_isokendpt c s (SCHEDULING_ENDPOINT m)) = OK"
    and T: "0 < unat (total_tickets s)" "unat (total_tickets s) < 2 ^ 31"
    and sum: "ticket_sum (procs s) = unat (total_tickets s)"
    and rest: "tickets_of (procs s ! i) < unat (total_tickets s)"
  shows "\<exists>s'. do_stop_scheduling c m s = (OK, s') \<and> total_tickets s' = total_tickets s \<and>
    fst (sched_isokendpt c s' (SCHEDULING_ENDPOINT m)) \<noteq> OK \<and>
    ticket_sum (procs s') = unat (total_tickets s') - tickets_of (procs s ! i) \<and>
    card {r. r < unat (total_tickets s') \<and> winner r s' = None} = tickets_of (procs s ! i) + 1"
proof -
  define s' where "s' = upd_proc i (\<lambda>r. r\<lparr>sp_flags := 0\<rparr>) s"
  have i: "i < length (procs s)" "0 \<le> ENDPOINT_P c (SCHEDULING_ENDPOINT m)"
    using isok_slot [OF assms(3)] by (simp_all add: i_def)
  have stop: "do_stop_scheduling c m s = (OK, s')"
    using assms(2) by (simp add: do_stop_scheduling_def isok_pair [OF assms(3)] s'_def i_def)
  have tt: "total_tickets s' = total_tickets s"
    by (simp add: s'_def)
  have gone: "fst (sched_isokendpt c s' (SCHEDULING_ENDPOINT m)) \<noteq> OK"
  proof -
    have "\<not> in_use (procs s' ! nat (ENDPOINT_P c (SCHEDULING_ENDPOINT m)))"
      using i by (simp add: s'_def flip: i_def)
    then show ?thesis by (simp add: sched_isokendpt_def Let_def)
  qed
  have "ticket_sum (procs s') + tickets_of (procs s ! i) = ticket_sum (procs s)"
  proof -
    let ?a = "take i (procs s)" and ?b = "drop (Suc i) (procs s)"
    have "ticket_sum (procs s) = ticket_sum (?a @ procs s ! i # ?b)"
      by (rule arg_cong [OF id_take_nth_drop [OF i(1)]])
    moreover have "procs s' = ?a @ (procs s ! i)\<lparr>sp_flags := 0\<rparr> # ?b"
      using i by (simp add: s'_def upd_proc_def upd_conv_take_nth_drop)
    moreover have "tickets_of ((procs s ! i)\<lparr>sp_flags := 0\<rparr>) = 0"
      by (simp add: tickets_of_def)
    ultimately have "ticket_sum (procs s') = ticket_sum ?a + ticket_sum ?b"
      "ticket_sum (procs s) = ticket_sum ?a + (tickets_of (procs s ! i) + ticket_sum ?b)"
      by (simp_all only: ticket_sum_append ticket_sum_simps)
    then show ?thesis by simp
  qed
  then have sum': "ticket_sum (procs s') = unat (total_tickets s') - tickets_of (procs s ! i)"
    by (simp add: tt flip: sum)
  have lt: "ticket_sum (procs s') < 2 ^ 32"
    using sum' T by (simp add: tt)
  have "{r. r < unat (total_tickets s') \<and> winner r s' = None} =
      {unat (total_tickets s) - tickets_of (procs s ! i) - 1 ..< unat (total_tickets s)}"
  proof (rule set_eqI)
    fix r
    show "r \<in> {r. r < unat (total_tickets s') \<and> winner r s' = None} \<longleftrightarrow>
        r \<in> {unat (total_tickets s) - tickets_of (procs s ! i) - 1 ..< unat (total_tickets s)}"
    proof (cases "r < unat (total_tickets s)")
      case True
      then have "winner r s' = None \<longleftrightarrow> unat (total_tickets s) - tickets_of (procs s ! i) \<le> r + 1"
        using winner_None [of s' r] T sum' lt by (simp only: tt mod_less)
      with True show ?thesis by (simp add: tt le_diff_conv)
    qed (simp add: tt)
  qed
  then have "card {r. r < unat (total_tickets s') \<and> winner r s' = None} = tickets_of (procs s ! i) + 1"
    using rest T by simp
  with stop tt gone sum' show ?thesis by blast
qed

theorem stop_keeps_counter_witness:
  "\<exists>s'. do_stop_scheduling demo_cfg (demo_msg 100 SCHEDULING_STOP 1 0)
      (demo_state [demo_proc 0 16 20, demo_proc 1 16 30] 50) = (OK, s') \<and> total_tickets s' = 50 \<and>
     card {r. r < 50 \<and> winner r s' = None} = 31"
  using stop_keeps_counter [of demo_cfg "demo_msg 100 SCHEDULING_STOP 1 0"
      "demo_state [demo_proc 0 16 20, demo_proc 1 16 30] 50"]
  by (auto simp: demo_defs demo_msg_def accept_message_def sched_isokendpt_def Let_def tickets_of_def)

definition demo_start :: sched_event where
  "demo_start = \<lparr>is_ipc_notify = False, from_kernel = False, m_in = demo_msg 100 SCHEDULING_START 1 7,
     timer_expired = False, next_rand = 0\<rparr>"

lemma demo_start_reach:
  "\<exists>s. sched_reach demo_cfg 2 s \<and> fst (sched_isokendpt demo_cfg s 1) = OK"
proof -
  let ?x = "the (sched_main demo_cfg demo_start (sched_boot demo_cfg 2))"
  have "sched_main demo_cfg demo_start (sched_boot demo_cfg 2) = Some (fst ?x, snd ?x) \<and>
      fst (sched_isokendpt demo_cfg (snd ?x) 1) = OK"
    by code_simp
  then show ?thesis
    using sched_reach.step [OF sched_reach.boot] by blast
qed

theorem sched_table_consistent_witness:
  "\<exists>s. sched_reach demo_cfg 2 s \<and>
     first_idx (\<lambda>p. in_use p \<and> sp_endpoint p = 1) (procs s) = Some 1"
proof -
  obtain s where s: "sched_reach demo_cfg 2 s" "fst (sched_isokendpt demo_cfg s 1) = OK"
    using demo_start_reach by blast
  from sched_table_consistent [OF s(1), of 1] s(2)
  have "first_idx (\<lambda>p. in_use p \<and> sp_endpoint p = 1) (procs s) = Some (nat (ENDPOINT_P demo_cfg 1))"
    by simp
  with s(1) show ?thesis by (auto simp: demo_cfg_def)
qed

end
