(* ===== verification/ProcMan.thy ===== *)
theory ProcMan
  imports Prelude "HOL-Library.Signed_Division"
begin

text \<open>
  The process manager PM, as far as scheduling, identity and process numbers go:
  \<^verbatim>\<open>src/Project_2/src/pm/schedule.c\<close> and \<^verbatim>\<open>src/pm/utility.c\<close> (the versions of the project),
  \<^verbatim>\<open>servers/pm/getset.c\<close>, and \<^verbatim>\<open>do_getsetpriority\<close> of \<^verbatim>\<open>servers/pm/misc.c\<close>.

  The process table \<^verbatim>\<open>mproc\<close> is a list of records with the fields these functions use.  Requests to other
  servers are appended to a log; the answers of the scheduler library, of the asynchronous send to VFS
  and of the copy to and from user space are fields of the configuration.
  \<^const>\<open>None\<close> is a failed assertion, a panic, or an arithmetic overflow.
\<close>

unbundle bit_operations_syntax

subsection \<open>Tables and parameters\<close>

abbreviation "PM_IN_USE \<equiv> 0x00001 :: 32 word"
abbreviation "VFS_CALL \<equiv> 0x00400 :: 32 word"
abbreviation "PRIV_PROC \<equiv> 0x02000 :: 32 word"
abbreviation "NR_PIDS \<equiv> 30000 :: int"
abbreviation "INIT_PID \<equiv> 1 :: int"
abbreviation "PM_MAX_USER_Q \<equiv> 16 :: int"
abbreviation "PM_MIN_USER_Q \<equiv> 17 :: int"
abbreviation "USER_Q \<equiv> (PM_MIN_USER_Q - PM_MAX_USER_Q) div 2 + PM_MAX_USER_Q"
abbreviation "USER_QUANTUM \<equiv> 200 :: int"
abbreviation "SUPER_USER \<equiv> 0 :: int"

record mproc =
  mp_pid :: int
  mp_endpoint :: int
  mp_procgrp :: int
  mp_parent :: nat
  mp_realuid :: int
  mp_effuid :: int
  mp_realgid :: int
  mp_effgid :: int
  mp_ngroups :: int
  mp_sgroups :: "int list"
  mp_flags :: "32 word"
  mp_nice :: int
  mp_scheduler :: int
  mp_reply_res2 :: int

datatype pm_request =
    Sched_start (rq_sched: int) (rq_ep: int) (rq_parent: int) (rq_maxprio: int) (rq_quantum: int)
  | Sched_inherit (rq_sched: int) (rq_ep: int) (rq_parent: int) (rq_maxprio: int)
  | Sched_set_nice (rq_sched: int) (rq_ep: int) (rq_maxprio: int)
  | Vfs_setuid (rq_ep: int) (rq_eid: int) (rq_rid: int)
  | Vfs_setgid (rq_ep: int) (rq_eid: int) (rq_rid: int)
  | Vfs_setgroups (rq_ep: int) (rq_n: int) (rq_groups: "int list")
  | Vfs_setsid (rq_ep: int)

record pm_cfg =
  pm_ENDPOINT_P :: "int \<Rightarrow> int"
  NR_TASKS :: int
  KERNEL :: int
  NONE :: int
  INIT_PROC_NR :: int
  pm_SCHED_PROC_NR :: int
  PRIO_MIN :: int
  PRIO_MAX :: int
  NGROUPS_MAX :: int
  answer :: "pm_request list \<Rightarrow> pm_request \<Rightarrow> errno"
  newsched :: "pm_request list \<Rightarrow> pm_request \<Rightarrow> int"
  copy_groups :: "int \<Rightarrow> int \<Rightarrow> int \<Rightarrow> errno + int list"   \<comment> \<open>from a caller's buffer, so many entries\<close>
  put_groups :: "int \<Rightarrow> int \<Rightarrow> int list \<Rightarrow> errno"
  as_uid :: "int \<Rightarrow> int"                       \<comment> \<open>the conversions to \<^verbatim>\<open>uid_t\<close> and \<^verbatim>\<open>gid_t\<close>\<close>
  as_gid :: "int \<Rightarrow> int"

record pm_state =
  mprocs :: "mproc list"
  next_pid :: int
  pm_log :: "pm_request list"

definition pm_in_use :: "mproc \<Rightarrow> bool" where
  "pm_in_use p \<longleftrightarrow> mp_flags p AND PM_IN_USE \<noteq> 0"

definition int_ok :: "int \<Rightarrow> bool" where
  "int_ok z \<longleftrightarrow> - (2 ^ 31) \<le> z \<and> z < 2 ^ 31"

definition upd_mp :: "nat \<Rightarrow> (mproc \<Rightarrow> mproc) \<Rightarrow> pm_state \<Rightarrow> pm_state" where
  "upd_mp i f s = s\<lparr>mprocs := (mprocs s)[i := f (mprocs s ! i)]\<rparr>"

definition request :: "pm_cfg \<Rightarrow> pm_request \<Rightarrow> pm_state \<Rightarrow> errno \<times> pm_state" where
  "request c q s = (answer c (pm_log s) q, s\<lparr>pm_log := pm_log s @ [q]\<rparr>)"

subsection \<open>\<^verbatim>\<open>utility.c\<close>\<close>

definition succ_pid :: "int \<Rightarrow> int" where
  "succ_pid p = (if p < NR_PIDS then p + 1 else INIT_PID + 1)"

definition pid_taken :: "mproc list \<Rightarrow> int \<Rightarrow> bool" where
  "pid_taken ps p \<longleftrightarrow> first_idx (\<lambda>rmp. mp_pid rmp = p \<or> mp_procgrp rmp = p) ps \<noteq> None"

partial_function (option) get_free_pid :: "mproc list \<Rightarrow> int \<Rightarrow> int option" where
  "get_free_pid ps p =
     (let p' = succ_pid p in if pid_taken ps p' then get_free_pid ps p' else Some p')"

definition find_proc :: "pm_state \<Rightarrow> int \<Rightarrow> nat option" where
  "find_proc s lpid = first_idx (\<lambda>rmp. pm_in_use rmp \<and> mp_pid rmp = lpid) (mprocs s)"

text \<open>The range check at the head of the C function is commented out.\<close>

definition nice_to_priority :: "pm_cfg \<Rightarrow> int \<Rightarrow> 32 word option" where
  "nice_to_priority c nice =
     (let d = nice - PRIO_MIN c;
          n = d * (PM_MIN_USER_Q - PM_MAX_USER_Q + 1);
          q = PRIO_MAX c - PRIO_MIN c + 1 in
      if \<not> int_ok d \<or> \<not> int_ok n \<or> q = 0 then None
      else
        let new_q = word_of_int (PM_MAX_USER_Q + n sdiv q) :: 32 word;
            q1 = (if new_q < 16 then 16 else new_q) in
        Some (if q1 > 17 then 17 else q1))"

definition pm_isokendpt :: "pm_cfg \<Rightarrow> pm_state \<Rightarrow> int \<Rightarrow> errno \<times> int" where
  "pm_isokendpt c s endpoint =
     (let p = pm_ENDPOINT_P c endpoint in
      (if p < - NR_TASKS c \<or> p \<ge> int (length (mprocs s)) then EINVAL
       else if p \<ge> 0 \<and> endpoint \<noteq> mp_endpoint (mprocs s ! nat p) then EDEADEPT
       else if p \<ge> 0 \<and> \<not> pm_in_use (mprocs s ! nat p) then EDEADEPT
       else OK, p))"

definition tell_vfs :: "pm_cfg \<Rightarrow> nat \<Rightarrow> pm_request \<Rightarrow> pm_state \<Rightarrow> pm_state option" where
  "tell_vfs c i q s =
     (if mp_flags (mprocs s ! i) AND VFS_CALL \<noteq> 0 then None
      else let (r, s1) = request c q s in
        if r \<noteq> OK then None
        else Some (upd_mp i (\<lambda>p. p\<lparr>mp_flags := mp_flags p OR VFS_CALL\<rparr>) s1))"

subsection \<open>\<^verbatim>\<open>schedule.c\<close>\<close>

definition sched_init_slot :: "pm_cfg \<Rightarrow> nat \<Rightarrow> pm_state \<Rightarrow> pm_state option" where
  "sched_init_slot c i s =
     (let trmp = mprocs s ! i in
      if pm_in_use trmp \<and> mp_flags trmp AND PRIV_PROC = 0 then
        let parent_e = mp_endpoint (mprocs s ! mp_parent trmp) in
        if pm_ENDPOINT_P c (mp_endpoint trmp) \<noteq> INIT_PROC_NR c \<or> parent_e \<noteq> mp_endpoint trmp then None
        else
          let q = Sched_start (pm_SCHED_PROC_NR c) (mp_endpoint trmp) parent_e USER_Q USER_QUANTUM;
              (r, s1) = request c q s in
          Some (if r = OK then upd_mp i (\<lambda>p. p\<lparr>mp_scheduler := newsched c (pm_log s) q\<rparr>) s1 else s1)
      else Some s)"

fun sched_init_from :: "pm_cfg \<Rightarrow> nat list \<Rightarrow> pm_state \<Rightarrow> pm_state option" where
  "sched_init_from c [] s = Some s"
| "sched_init_from c (i # is) s =
     (case sched_init_slot c i s of None \<Rightarrow> None | Some s' \<Rightarrow> sched_init_from c is s')"

definition sched_init :: "pm_cfg \<Rightarrow> pm_state \<Rightarrow> pm_state option" where
  "sched_init c s = sched_init_from c [0 ..< length (mprocs s)] s"

definition sched_start_user :: "pm_cfg \<Rightarrow> int \<Rightarrow> nat \<Rightarrow> pm_state \<Rightarrow> (errno \<times> pm_state) option" where
  "sched_start_user c ep i s =
     (let rmp = mprocs s ! i; par = mprocs s ! mp_parent rmp in
      case nice_to_priority c (mp_nice rmp) of
        None \<Rightarrow> None
      | Some maxprio \<Rightarrow>
          if mp_flags par AND PRIV_PROC \<noteq> 0 \<and> mp_scheduler par \<noteq> NONE c then None
          else
            let inherit_from = (if mp_flags par AND PRIV_PROC \<noteq> 0 then INIT_PROC_NR c else mp_endpoint par);
                q = Sched_inherit ep (mp_endpoint rmp) inherit_from (uint maxprio);
                (r, s1) = request c q s in
            Some (r, if r = OK then upd_mp i (\<lambda>p. p\<lparr>mp_scheduler := newsched c (pm_log s) q\<rparr>) s1 else s1))"

definition sched_nice :: "pm_cfg \<Rightarrow> nat \<Rightarrow> int \<Rightarrow> pm_state \<Rightarrow> (errno \<times> pm_state) option" where
  "sched_nice c i nice s =
     (let rmp = mprocs s ! i in
      if mp_scheduler rmp = KERNEL c \<or> mp_scheduler rmp = NONE c then Some (EINVAL, s)
      else case nice_to_priority c nice of
        None \<Rightarrow> None
      | Some maxprio \<Rightarrow> Some (request c (Sched_set_nice (mp_scheduler rmp) (mp_endpoint rmp) nice) s))"

subsection \<open>\<^verbatim>\<open>misc.c\<close>: \<^verbatim>\<open>do_getsetpriority\<close>\<close>

text \<open>The caller \<^verbatim>\<open>mp\<close> is slot \<open>me\<close>; \<^const>\<open>Inr\<close> carries the values the call returns, \<open>Inr 0\<close> being \<^verbatim>\<open>OK\<close>.\<close>

definition do_getsetpriority ::
  "pm_cfg \<Rightarrow> nat \<Rightarrow> bool \<Rightarrow> bool \<Rightarrow> int \<Rightarrow> int \<Rightarrow> pm_state \<Rightarrow> ((errno + int) \<times> pm_state) option" where
  "do_getsetpriority c me is_get which_is_process arg_who arg_pri s =
     (if \<not> which_is_process then Some (Inl EINVAL, s)
      else case (if arg_who = 0 then Some me else find_proc s arg_who) of
        None \<Rightarrow> Some (Inl ESRCH, s)
      | Some i \<Rightarrow>
          let mp = mprocs s ! me; rmp = mprocs s ! i in
          if mp_effuid mp \<noteq> SUPER_USER \<and> mp_effuid mp \<noteq> mp_effuid rmp \<and> mp_effuid mp \<noteq> mp_realuid rmp
          then Some (Inl EPERM, s)
          else if is_get then Some (Inr (mp_nice rmp - PRIO_MIN c), s)
          else if mp_nice rmp > arg_pri \<and> mp_effuid mp \<noteq> SUPER_USER then Some (Inl EACCES, s)
          else (case sched_nice c i arg_pri s of
                  None \<Rightarrow> None
                | Some (r, s1) \<Rightarrow>
                    if r \<noteq> OK then Some (Inl r, s1)
                    else Some (Inr 0, upd_mp i (\<lambda>p. p\<lparr>mp_nice := arg_pri\<rparr>) s1)))"

subsection \<open>\<^verbatim>\<open>getset.c\<close>\<close>

datatype pm_get_call = GETGROUPS int int | GETUID | GETGID | MINIX_GETPID | GETPGRP | Get_other

text \<open>\<open>GETGROUPS n buf\<close> carries \<^verbatim>\<open>m_in.grp_no\<close> and \<^verbatim>\<open>m_in.groupsp\<close>.\<close>

definition do_get :: "pm_cfg \<Rightarrow> nat \<Rightarrow> pm_get_call \<Rightarrow> pm_state \<Rightarrow> (errno + int) \<times> pm_state" where
  "do_get c me call s =
     (let rmp = mprocs s ! me in
      case call of
        GETGROUPS n buf \<Rightarrow>
          (if n > NGROUPS_MAX c \<or> n < 0 then (Inl EINVAL, s)
           else if n = 0 then (Inr (mp_ngroups rmp), s)
           else if n < mp_ngroups rmp then (Inl EINVAL, s)
           else let r = put_groups c (mp_endpoint rmp) buf (take (nat n) (mp_sgroups rmp)) in
             if r \<noteq> OK then (Inl r, s) else (Inr (mp_ngroups rmp), s))
      | GETUID \<Rightarrow> (Inr (mp_realuid rmp), upd_mp me (\<lambda>p. p\<lparr>mp_reply_res2 := mp_effuid rmp\<rparr>) s)
      | GETGID \<Rightarrow> (Inr (mp_realgid rmp), upd_mp me (\<lambda>p. p\<lparr>mp_reply_res2 := mp_effgid rmp\<rparr>) s)
      | MINIX_GETPID \<Rightarrow>
          (Inr (mp_pid rmp), upd_mp me (\<lambda>p. p\<lparr>mp_reply_res2 := mp_pid (mprocs s ! mp_parent rmp)\<rparr>) s)
      | GETPGRP \<Rightarrow> (Inr (mp_procgrp rmp), s)
      | Get_other \<Rightarrow> (Inl EINVAL, s))"

datatype pm_set_call =
  SETUID int | SETEUID int | SETGID int | SETEGID int | SETGROUPS int int | SETSID | Set_other

text \<open>
  The switch of \<^verbatim>\<open>do_set\<close>: either an error, or the updated slot and the message for VFS.
  A null group buffer is address \<open>0\<close>.
\<close>

definition set_ids :: "pm_cfg \<Rightarrow> mproc \<Rightarrow> pm_set_call \<Rightarrow> errno + mproc \<times> pm_request" where
  "set_ids c rmp call =
     (case call of
        SETUID n \<Rightarrow>
          (let u = as_uid c n in if mp_realuid rmp \<noteq> u \<and> mp_effuid rmp \<noteq> SUPER_USER then Inl EPERM
           else Inr (rmp\<lparr>mp_realuid := u, mp_effuid := u\<rparr>, Vfs_setuid (mp_endpoint rmp) u u))
      | SETEUID n \<Rightarrow>
          (let u = as_uid c n in if mp_realuid rmp \<noteq> u \<and> mp_effuid rmp \<noteq> SUPER_USER then Inl EPERM
           else Inr (rmp\<lparr>mp_effuid := u\<rparr>, Vfs_setuid (mp_endpoint rmp) u (mp_realuid rmp)))
      | SETGID n \<Rightarrow>
          (let g = as_gid c n in if mp_realgid rmp \<noteq> g \<and> mp_effuid rmp \<noteq> SUPER_USER then Inl EPERM
           else Inr (rmp\<lparr>mp_realgid := g, mp_effgid := g\<rparr>, Vfs_setgid (mp_endpoint rmp) g g))
      | SETEGID n \<Rightarrow>
          (let g = as_gid c n in if mp_realgid rmp \<noteq> g \<and> mp_effuid rmp \<noteq> SUPER_USER then Inl EPERM
           else Inr (rmp\<lparr>mp_effgid := g\<rparr>, Vfs_setgid (mp_endpoint rmp) g (mp_realgid rmp)))
      | SETGROUPS n buf \<Rightarrow>
          (if mp_effuid rmp \<noteq> SUPER_USER then Inl EPERM
           else if n > NGROUPS_MAX c \<or> n < 0 then Inl EINVAL
           else if buf = 0 then Inl EFAULT
           else case copy_groups c (mp_endpoint rmp) buf n of
               Inl r \<Rightarrow> Inl r
             | Inr gs \<Rightarrow>
                 let g = take (nat n) gs @ replicate (nat (NGROUPS_MAX c - n)) 0 in
                 Inr (rmp\<lparr>mp_sgroups := g, mp_ngroups := n\<rparr>, Vfs_setgroups (mp_endpoint rmp) n g))
      | SETSID \<Rightarrow>
          (if mp_procgrp rmp = mp_pid rmp then Inl EPERM
           else Inr (rmp\<lparr>mp_procgrp := mp_pid rmp\<rparr>, Vfs_setsid (mp_endpoint rmp)))
      | Set_other \<Rightarrow> Inl EINVAL)"

definition do_set :: "pm_cfg \<Rightarrow> nat \<Rightarrow> pm_set_call \<Rightarrow> pm_state \<Rightarrow> (errno \<times> pm_state) option" where
  "do_set c me call s =
     (case set_ids c (mprocs s ! me) call of
        Inl r \<Rightarrow> Some (r, s)
      | Inr (rmp', m) \<Rightarrow>
          map_option (Pair SUSPEND) (tell_vfs c me m (upd_mp me (\<lambda>_. rmp') s)))"

subsection \<open>Process numbers\<close>

text \<open>The \<open>k\<close>-th successor of a process number, and how the numbers run through the whole range.\<close>

lemma succ_pid_range: "1 \<le> p \<Longrightarrow> p \<le> NR_PIDS \<Longrightarrow> 2 \<le> succ_pid p \<and> succ_pid p \<le> NR_PIDS"
  by (auto simp: succ_pid_def)

definition nth_pid :: "int \<Rightarrow> nat \<Rightarrow> int" where
  "nth_pid p k = 2 + (p - 2 + int k) mod 29999"

lemma succ_nth_pid:
  assumes "2 \<le> p" "p \<le> NR_PIDS" shows "succ_pid (nth_pid p k) = nth_pid p (Suc k)"
proof -
  define m where "m = (p - 2 + int k) mod 29999"
  have m: "0 \<le> m" "m < 29999" by (simp_all add: m_def)
  have "nth_pid p (Suc k) = 2 + (m + 1) mod 29999"
    by (simp add: nth_pid_def m_def mod_simps algebra_simps)
  moreover have "(m + 1) mod 29999 = (if m = 29998 then 0 else m + 1)"
    using m by auto
  ultimately show ?thesis
    using m by (auto simp: succ_pid_def nth_pid_def m_def [symmetric])
qed

lemma nth_pid_0: "2 \<le> p \<Longrightarrow> p \<le> NR_PIDS \<Longrightarrow> nth_pid p 0 = p"
  by (simp add: nth_pid_def)

lemma nth_pid_inj: "inj_on (nth_pid p) {1..29999}"
proof (rule inj_onI)
  fix a b assume "a \<in> {1..29999}" "b \<in> {1..29999::nat}" "nth_pid p a = nth_pid p b"
  then have "29999 dvd int a - int b"
    by (simp add: nth_pid_def mod_eq_dvd_iff)
  moreover have "\<bar>int a - int b\<bar> < 29999"
    using \<open>a \<in> _\<close> \<open>b \<in> _\<close> by auto
  ultimately show "a = b"
    by (metis abs_of_nat dvd_imp_le_int eq_iff_diff_eq_0 not_le of_nat_eq_iff of_nat_numeral)
qed

lemma pid_taken_iff: "pid_taken ps p \<longleftrightarrow> p \<in> mp_pid ` set ps \<union> mp_procgrp ` set ps"
  by (auto simp: pid_taken_def first_idx_None_iff)

lemma taken_card: "card {p. pid_taken ps p} \<le> 2 * length ps"
proof -
  have "{p. pid_taken ps p} = set (List.map mp_pid ps @ List.map mp_procgrp ps)"
    by (auto simp: pid_taken_iff)
  then show ?thesis
    using card_length [of "List.map mp_pid ps @ List.map mp_procgrp ps"] by simp
qed

lemma free_pid_exists:
  assumes "2 * length ps < 29999"
  shows "\<exists>k \<in> {1..29999}. \<not> pid_taken ps (nth_pid p k)"
proof (rule ccontr)
  assume "\<not> ?thesis"
  then have "nth_pid p ` {1..29999} \<subseteq> {p. pid_taken ps p}" by auto
  moreover have "finite {p. pid_taken ps p}"
    by (simp add: pid_taken_iff)
  ultimately have "card (nth_pid p ` {1..29999}) \<le> 2 * length ps"
    using taken_card card_mono order_trans by metis
  moreover have "card (nth_pid p ` {1..29999}) = 29999"
    using card_image [OF nth_pid_inj] by simp
  ultimately show False
    using assms by linarith
qed

lemma get_free_pid_run:
  assumes "2 \<le> p" "p \<le> NR_PIDS"
    and "\<not> pid_taken ps (nth_pid p (Suc k))" "\<And>j. 1 \<le> j \<Longrightarrow> j \<le> k \<Longrightarrow> pid_taken ps (nth_pid p j)"
    and "i \<le> k"
  shows "get_free_pid ps (nth_pid p i) = Some (nth_pid p (Suc k))"
  using assms(5)
proof (induction "k - i" arbitrary: i)
  case 0
  then show ?case
    using assms by (subst get_free_pid.simps) (simp add: succ_nth_pid)
next
  case (Suc n)
  then have "get_free_pid ps (nth_pid p (Suc i)) = Some (nth_pid p (Suc k))"
    by (intro Suc.hyps(1)) auto
  moreover have "pid_taken ps (nth_pid p (Suc i))"
    using assms(4) Suc.hyps(2) by simp
  ultimately show ?case
    using assms by (subst get_free_pid.simps) (simp add: succ_nth_pid)
qed

text \<open>
  (C39) As long as twice the number of process slots is below the 29999 numbers that are cycled
  through, \<^verbatim>\<open>get_free_pid\<close> returns, whatever the table holds; the number it returns lies between
  2 and \<^verbatim>\<open>NR_PIDS\<close> and is neither the process number nor the process group of any slot.
\<close>

theorem get_free_pid_fresh:
  assumes "2 * length ps < 29999" "2 \<le> p" "p \<le> NR_PIDS"
  shows "\<exists>q. get_free_pid ps p = Some q \<and> 2 \<le> q \<and> q \<le> NR_PIDS \<and>
    q \<notin> mp_pid ` set ps \<and> q \<notin> mp_procgrp ` set ps"
proof -
  obtain k0 where "1 \<le> k0" "\<not> pid_taken ps (nth_pid p k0)"
    using free_pid_exists [OF assms(1), of p] by auto
  define k where "k = (LEAST k. \<not> pid_taken ps (nth_pid p (Suc k)))"
  have ex: "\<not> pid_taken ps (nth_pid p (Suc (k0 - 1)))"
    using \<open>1 \<le> k0\<close> \<open>\<not> pid_taken ps (nth_pid p k0)\<close> by simp
  have free: "\<not> pid_taken ps (nth_pid p (Suc k))"
    unfolding k_def by (rule LeastI [of "\<lambda>k. \<not> pid_taken ps (nth_pid p (Suc k))", OF ex])
  have "pid_taken ps (nth_pid p j)" if "1 \<le> j" "j \<le> k" for j
    using not_less_Least [of "j - 1" "\<lambda>k. \<not> pid_taken ps (nth_pid p (Suc k))"] that
    by (simp add: k_def)
  with free assms have "get_free_pid ps p = Some (nth_pid p (Suc k))"
    using get_free_pid_run [of p ps k 0] by (simp add: nth_pid_0)
  moreover have "2 \<le> nth_pid p (Suc k) \<and> nth_pid p (Suc k) \<le> NR_PIDS"
    using pos_mod_bound [of 29999 "p - 2 + int (Suc k)"] by (simp add: nth_pid_def)
  ultimately show ?thesis
    using free by (auto simp: pid_taken_iff)
qed

definition demo_mproc :: "int \<Rightarrow> int \<Rightarrow> int \<Rightarrow> int \<Rightarrow> mproc" where
  "demo_mproc pid e ruid euid = \<lparr>mp_pid = pid, mp_endpoint = e, mp_procgrp = 1, mp_parent = 0,
     mp_realuid = ruid, mp_effuid = euid, mp_realgid = 5, mp_effgid = 5, mp_ngroups = 0,
     mp_sgroups = [], mp_flags = PM_IN_USE, mp_nice = 0, mp_scheduler = 102, mp_reply_res2 = 0\<rparr>"

definition demo_pm_cfg :: pm_cfg where
  "demo_pm_cfg = \<lparr>pm_ENDPOINT_P = id, NR_TASKS = 4, KERNEL = -1, NONE = -9, INIT_PROC_NR = 0,
     pm_SCHED_PROC_NR = 102, PRIO_MIN = -20, PRIO_MAX = 20, NGROUPS_MAX = 8, answer = (\<lambda>_ _. OK),
     newsched = (\<lambda>_ _. 102), copy_groups = (\<lambda>_ _ _. Inl EFAULT), put_groups = (\<lambda>_ _ _. OK),
     as_uid = (\<lambda>n. n mod 2 ^ 16), as_gid = (\<lambda>n. n mod 2 ^ 8)\<rparr>"

definition demo_pm :: pm_state where
  "demo_pm = \<lparr>mprocs = [demo_mproc 1 0 0 0, demo_mproc 30000 1 7 8], next_pid = 2, pm_log = []\<rparr>"

lemmas demo_pm_defs = demo_mproc_def demo_pm_cfg_def demo_pm_def

theorem get_free_pid_fresh_witness:
  "\<exists>q. get_free_pid (mprocs demo_pm) 29999 = Some q \<and> q \<noteq> 30000 \<and> 2 \<le> q"
  using get_free_pid_fresh [of "mprocs demo_pm" 29999] by (auto simp: demo_pm_defs)

subsection \<open>Identity\<close>

text \<open>
  (C37) A process that does not run as the super-user cannot gain an identity through the
  \<^verbatim>\<open>set*\<close> calls: its real user id stays, its effective user id can only become its real one, the same holds for
  groups, and the supplementary groups do not change.  Every refused call leaves PM's state as it was,
  and an accepted one is announced to VFS once, with the new ids, and marks the process as waiting for VFS.
\<close>

theorem set_ids_no_privilege_gain:
  assumes "do_set c me call s = Some (r, s')" "me < length (mprocs s)"
    and "mp_effuid (mprocs s ! me) \<noteq> SUPER_USER"
  shows "let p = mprocs s ! me; p' = mprocs s' ! me in
    mp_realuid p' = mp_realuid p \<and> mp_effuid p' \<in> {mp_effuid p, mp_realuid p} \<and>
    mp_realgid p' = mp_realgid p \<and> mp_effgid p' \<in> {mp_effgid p, mp_realgid p} \<and>
    mp_sgroups p' = mp_sgroups p \<and> mp_ngroups p' = mp_ngroups p \<and>
    (if r = SUSPEND then (\<exists>m. pm_log s' = pm_log s @ [m]) \<and> mp_flags p' AND VFS_CALL \<noteq> 0
     else s' = s)"
proof (cases "set_ids c (mprocs s ! me) call")
  case (Inl e)
  moreover have "e \<noteq> SUSPEND"
    using Inl assms(3) by (auto simp: set_ids_def Let_def split: pm_set_call.split_asm if_split_asm)
  ultimately show ?thesis
    using assms by (auto simp: do_set_def Let_def)
next
  case (Inr x)
  obtain p' m where x: "x = (p', m)" by fastforce
  have p': "mp_realuid p' = mp_realuid (mprocs s ! me)"
      "mp_effuid p' \<in> {mp_effuid (mprocs s ! me), mp_realuid (mprocs s ! me)}"
      "mp_realgid p' = mp_realgid (mprocs s ! me)"
      "mp_effgid p' \<in> {mp_effgid (mprocs s ! me), mp_realgid (mprocs s ! me)}"
      "mp_sgroups p' = mp_sgroups (mprocs s ! me)" "mp_ngroups p' = mp_ngroups (mprocs s ! me)"
    using Inr x assms(3) by (auto simp: set_ids_def Let_def split: pm_set_call.split_asm if_split_asm)
  from Inr x assms(1) obtain t where t: "tell_vfs c me m (upd_mp me (\<lambda>_. p') s) = Some s'" "r = SUSPEND"
    by (auto simp: do_set_def)
  then have "mprocs s' ! me = p'\<lparr>mp_flags := mp_flags p' OR VFS_CALL\<rparr>" "pm_log s' = pm_log s @ [m]"
    using assms(2) by (auto simp: tell_vfs_def request_def upd_mp_def Let_def split: if_split_asm)
  moreover have "(w OR VFS_CALL) AND VFS_CALL \<noteq> 0" for w :: "32 word"
    by (simp add: and.commute [of _ VFS_CALL])
  ultimately show ?thesis
    using p' t by (simp add: Let_def)
qed

theorem set_ids_no_privilege_gain_witness:
  "\<exists>s'. do_set demo_pm_cfg 1 (SETUID 7) demo_pm = Some (SUSPEND, s') \<and> mp_effuid (mprocs s' ! 1) \<in> {8, 7} \<and>
     (\<exists>m. pm_log s' = [m])"
proof -
  let ?x = "the (do_set demo_pm_cfg 1 (SETUID 7) demo_pm)"
  have "do_set demo_pm_cfg 1 (SETUID 7) demo_pm = Some (SUSPEND, snd ?x)"
    by code_simp
  moreover from set_ids_no_privilege_gain [OF this]
  have "mp_effuid (mprocs (snd ?x) ! 1) \<in> {8, 7} \<and> (\<exists>m. pm_log (snd ?x) = [m])"
    by (simp add: demo_pm_defs Let_def)
  ultimately show ?thesis by blast
qed

subsection \<open>Nice levels\<close>

lemma nice_to_priority_range:
  assumes "nice_to_priority c n = Some q" shows "16 \<le> q \<and> q \<le> 17"
  using assms by (auto simp: nice_to_priority_def Let_def not_less split: if_split_asm)

text \<open>
  What a process can do to its own priority.  A process in the care of a user-level scheduler that
  calls \<^verbatim>\<open>setpriority(PRIO_PROCESS, 0, n)\<close> with \<open>n\<close> not below its current value needs no privilege, and the
  message that reaches the scheduler carries \<open>n\<close> itself as the requested queue, not the user queue (16 or 17)
  that \<^verbatim>\<open>nice_to_priority\<close> has computed for it; the new value is stored only if the scheduler agrees.
\<close>

theorem setpriority_sends_raw_nice:
  assumes "me < length (mprocs s)" "mp_scheduler (mprocs s ! me) \<notin> {KERNEL c, NONE c}"
    and "mp_nice (mprocs s ! me) \<le> n" and "nice_to_priority c n = Some q"
  shows "let p = mprocs s ! me; m = Sched_set_nice (mp_scheduler p) (mp_endpoint p) n;
             r = answer c (pm_log s) m; s1 = s\<lparr>pm_log := pm_log s @ [m]\<rparr>
         in do_getsetpriority c me False True 0 n s =
              (if r = OK then Some (Inr 0, upd_mp me (\<lambda>p. p\<lparr>mp_nice := n\<rparr>) s1) else Some (Inl r, s1)) \<and>
            16 \<le> q \<and> q \<le> 17"
  using assms nice_to_priority_range [OF assms(4)]
  by (simp add: do_getsetpriority_def sched_nice_def request_def Let_def)

theorem setpriority_sends_raw_nice_witness:
  "pm_log (snd (the (do_getsetpriority demo_pm_cfg 1 False True 0 3 demo_pm))) = [Sched_set_nice 102 1 3] \<and>
   nice_to_priority demo_pm_cfg 3 = Some 17"
proof -
  have "nice_to_priority demo_pm_cfg 3 = Some 17"
    by code_simp
  with setpriority_sends_raw_nice [of 1 demo_pm demo_pm_cfg 3 17] show ?thesis
    by (simp add: demo_pm_defs Let_def upd_mp_def)
qed

text \<open>
  Other processes are protected: a caller that is not the super-user and whose effective user
  id is neither the real nor the effective one of the target gets \<^verbatim>\<open>EPERM\<close>, a caller that is
  not the super-user cannot lower a nice value, and in both cases nothing changes and no
  message is sent.  Reading never changes anything.
\<close>

theorem setpriority_protection:
  assumes "arg_who \<noteq> 0" "find_proc s arg_who = Some i" "mp_effuid (mprocs s ! me) \<noteq> SUPER_USER"
  shows "(mp_effuid (mprocs s ! me) \<notin> {mp_effuid (mprocs s ! i), mp_realuid (mprocs s ! i)} \<longrightarrow>
            do_getsetpriority c me g True arg_who n s = Some (Inl EPERM, s)) \<and>
         (n < mp_nice (mprocs s ! i) \<longrightarrow>
            (\<exists>e \<in> {EPERM, EACCES}. do_getsetpriority c me False True arg_who n s = Some (Inl e, s))) \<and>
         (\<exists>v. do_getsetpriority c me True True arg_who n s = Some (v, s))"
  using assms by (auto simp: do_getsetpriority_def Let_def)

theorem setpriority_protection_witness:
  "do_getsetpriority demo_pm_cfg 1 False True 1 5 demo_pm = Some (Inl EPERM, demo_pm)"
proof -
  have "find_proc demo_pm 1 = Some 0"
    by code_simp
  with setpriority_protection [of 1 demo_pm 0 1 demo_pm_cfg False 5] show ?thesis
    by (simp add: demo_pm_defs)
qed

subsection \<open>Handing processes to the scheduler\<close>

text \<open>
  The endpoint law of PM's table; PM keeps it outside the functions modelled here, as the
  slots are filled by fork and cleared by exit.
\<close>

definition pm_table_ok :: "pm_cfg \<Rightarrow> pm_state \<Rightarrow> bool" where
  "pm_table_ok c s \<longleftrightarrow> (\<forall>i < length (mprocs s). pm_in_use (mprocs s ! i) \<longrightarrow>
     pm_ENDPOINT_P c (mp_endpoint (mprocs s ! i)) = int i)"

interpretation pm: endpoint_table mprocs pm_in_use mp_endpoint "pm_ENDPOINT_P c" int "pm_table_ok c"
  for c
  by unfold_locales (auto simp: pm_table_ok_def)

text \<open>
  In a table that obeys the endpoint law, \<^verbatim>\<open>pm_isokendpt\<close> accepts an endpoint of a user process
  exactly if some slot in use holds it, and then returns that slot.
\<close>

theorem pm_isokendpt_correct:
  assumes "pm_table_ok c s" "pm_ENDPOINT_P c e \<ge> 0" "NR_TASKS c \<ge> 0"
  shows "pm_isokendpt c s e = (OK, p) \<longleftrightarrow>
    (\<exists>i. p = int i \<and> first_idx (\<lambda>m. pm_in_use m \<and> mp_endpoint m = e) (mprocs s) = Some i)"
proof
  assume L: "pm_isokendpt c s e = (OK, p)"
  with assms have "p = pm_ENDPOINT_P c e" "nat p < length (mprocs s)"
      "mp_endpoint (mprocs s ! nat p) = e" "pm_in_use (mprocs s ! nat p)"
    by (auto simp: pm_isokendpt_def Let_def split: if_split_asm)
  with pm.scan_finds_slot [OF assms(1), of "nat p" e] assms(2)
  show "\<exists>i. p = int i \<and> first_idx (\<lambda>m. pm_in_use m \<and> mp_endpoint m = e) (mprocs s) = Some i"
    by (intro exI [of _ "nat p"]) simp
next
  assume "\<exists>i. p = int i \<and> first_idx (\<lambda>m. pm_in_use m \<and> mp_endpoint m = e) (mprocs s) = Some i"
  then obtain i where i: "p = int i" "i < length (mprocs s)" "pm_in_use (mprocs s ! i)"
      "mp_endpoint (mprocs s ! i) = e"
    by (auto dest: first_idx_SomeD)
  with assms(1) have "pm_ENDPOINT_P c e = int i"
    by (auto simp: pm_table_ok_def)
  with i assms show "pm_isokendpt c s e = (OK, p)"
    by (simp add: pm_isokendpt_def Let_def)
qed

theorem pm_isokendpt_correct_witness:
  "pm_isokendpt demo_pm_cfg demo_pm 1 = (OK, 1)"
proof -
  have "pm_table_ok demo_pm_cfg demo_pm"
    by (simp add: pm_table_ok_def demo_pm_defs less_Suc_eq)
  moreover have "first_idx (\<lambda>m. pm_in_use m \<and> mp_endpoint m = 1) (mprocs demo_pm) = Some 1"
    by code_simp
  ultimately show ?thesis
    using pm_isokendpt_correct [of demo_pm_cfg demo_pm 1 1] by (auto simp: demo_pm_cfg_def)
qed

end
