(* ===== verification/Chain.thy ===== *)
theory Chain
  imports Prelude
begin

text \<open>
  Linked lists in an array of structures: the kernel chains process slots through a
  \<^verbatim>\<open>next\<close> field, with a null pointer at the end.  \<open>chain nx p xs\<close> says that following \<open>nx\<close> from \<open>p\<close> visits
  exactly the slots \<open>xs\<close>.  The run queues (\<^verbatim>\<open>p_nextready\<close>) and the queues of waiting senders (\<^verbatim>\<open>p_q_link\<close>)
  both use these facts.
\<close>

fun chain :: "(nat \<Rightarrow> nat option) \<Rightarrow> nat option \<Rightarrow> nat list \<Rightarrow> bool" where
  "chain nx p [] \<longleftrightarrow> p = None"
| "chain nx p (x # xs) \<longleftrightarrow> p = Some x \<and> chain nx (nx x) xs"

named_theorems chain_simps \<open>following and updating chains\<close>

lemma chain_None [chain_simps, simp]: "chain nx None xs \<longleftrightarrow> xs = []"
  by (cases xs) auto

lemma chain_unique: "chain nx p xs \<Longrightarrow> chain nx p ys \<Longrightarrow> xs = ys"
proof (induction xs arbitrary: p ys)
  case (Cons x xs)
  then show ?case by (cases ys) auto
qed simp

lemma chain_suffix: "chain nx p (xs @ x # ys) \<Longrightarrow> chain nx (Some x) (x # ys)"
  by (induction xs arbitrary: p) auto

lemma chain_next: "chain nx p (xs @ x # ys) \<Longrightarrow> nx x = (case ys of [] \<Rightarrow> None | y # _ \<Rightarrow> Some y)"
proof (induction xs arbitrary: p)
  case Nil
  then show ?case by (cases ys) auto
qed auto

lemma chain_distinct: "chain nx p xs \<Longrightarrow> distinct xs"
proof (induction xs arbitrary: p)
  case (Cons x xs)
  have "x \<notin> set xs"
  proof
    assume "x \<in> set xs"
    then obtain us vs where xs: "xs = us @ x # vs" by (meson split_list)
    with Cons.prems have "chain nx (Some x) (x # vs)"
      using chain_suffix [of nx "nx x" us x vs] by simp
    with Cons.prems have "x # xs = x # vs"
      by (metis chain.simps(2) chain_unique)
    with xs show False by simp
  qed
  with Cons show ?case by auto
qed simp

lemma chain_cong:
  "(\<And>x. x \<in> set xs \<Longrightarrow> nx x = nx' x) \<Longrightarrow> chain nx p xs = chain nx' p xs"
  by (induction xs arbitrary: p) auto

lemma chain_upd_other [chain_simps]: "x \<notin> set xs \<Longrightarrow> chain (nx(x := v)) p xs = chain nx p xs"
  by (rule chain_cong) auto

lemma chain_append_last:
  assumes "chain nx p (xs @ [l])" "y \<notin> set (xs @ [l])"
  shows "chain (nx(l := Some y, y := None)) p (xs @ [l, y])"
  using assms
proof (induction xs arbitrary: p)
  case (Cons x xs)
  then have "distinct (x # xs @ [l])"
    using chain_distinct by fastforce
  with Cons show ?case by auto
qed auto

lemma chain_push: "chain nx p xs \<Longrightarrow> y \<notin> set xs \<Longrightarrow> chain (nx(y := p)) (Some y) (y # xs)"
  by (simp add: chain_upd_other)

lemma chain_remove_head: "chain nx p (x # xs) \<Longrightarrow> chain nx (nx x) xs"
  by simp

lemma chain_remove_mid:
  assumes "chain nx p (us @ a # x # vs)"
  shows "chain (nx(a := nx x)) p (us @ a # vs)"
  using assms
proof (induction us arbitrary: p)
  case Nil
  then have "distinct (a # x # vs)" using chain_distinct by fastforce
  with Nil have "chain (nx(a := nx x)) (nx x) vs"
    using chain_upd_other [of a vs nx "nx x" "nx x"] by simp
  moreover have "p = Some a" using Nil by simp
  ultimately show ?case
    by (simp only: append_Nil chain.simps fun_upd_same simp_thms)
next
  case (Cons u us)
  then have "distinct (u # us @ a # x # vs)" using chain_distinct by fastforce
  with Cons show ?case by auto
qed

lemma remove1_mid:
  "distinct (us @ x # vs) \<Longrightarrow> remove1 x (us @ x # vs) = us @ vs"
  by (simp add: remove1_append)

end
