(* ===== verification/KProc.thy ===== *)
theory KProc
  imports Chain
begin

text \<open>
  The process table of the kernel and its ready queues: \<^verbatim>\<open>src/Project_2/kernel/proc.h\<close> (the table, the
  run-time flags and the macros that set and clear them), \<^verbatim>\<open>priv.h\<close>, the queue operations of \<^verbatim>\<open>proc.c\<close>
  (\<^verbatim>\<open>enqueue\<close>, \<^verbatim>\<open>enqueue_head\<close>, \<^verbatim>\<open>dequeue\<close>, \<^verbatim>\<open>pick_proc\<close>), \<^verbatim>\<open>runqueues_ok\<close> of \<^verbatim>\<open>debug.c\<close>, and the kernel
  calls that schedule: \<^verbatim>\<open>sched_proc\<close> of \<^verbatim>\<open>system.c\<close>, \<^verbatim>\<open>system/do_schedule.c\<close> and \<^verbatim>\<open>system/do_schedctl.c\<close>.

  A process is its slot number in the table, a pointer to a process is \<open>Some\<close> slot or, for a null pointer,
  \<^const>\<open>None\<close>.  The queues are modelled at the level of the code, with the arrays \<^verbatim>\<open>rdy_head\<close> and
  \<^verbatim>\<open>rdy_tail\<close> and the link \<^verbatim>\<open>p_nextready\<close> in every slot.  The result \<^const>\<open>None\<close> of an operation is a failed assertion, a
  panic, a null dereference, an access outside an array, or a loop that does not end.
  The flags \<^verbatim>\<open>p_rts_flags\<close> and \<^verbatim>\<open>p_misc_flags\<close> are \<^verbatim>\<open>short\<close>s: 16-bit words.  The magic number of the
  slots and the stack guards, which the assertions also check, are not modelled.
\<close>

unbundle bit_operations_syntax

subsection \<open>The process table\<close>

abbreviation "NR_QUEUES \<equiv> 18 :: nat"

definition RTS_SLOT_FREE :: "16 word" where "RTS_SLOT_FREE = 0x01"
definition RTS_PROC_STOP :: "16 word" where "RTS_PROC_STOP = 0x02"
definition RTS_SENDING :: "16 word" where "RTS_SENDING = 0x04"
definition RTS_RECEIVING :: "16 word" where "RTS_RECEIVING = 0x08"
definition RTS_SIGNALED :: "16 word" where "RTS_SIGNALED = 0x10"
definition RTS_SIG_PENDING :: "16 word" where "RTS_SIG_PENDING = 0x20"
definition RTS_NO_PRIV :: "16 word" where "RTS_NO_PRIV = 0x80"
definition RTS_NO_ENDPOINT :: "16 word" where "RTS_NO_ENDPOINT = 0x100"
definition RTS_PREEMPTED :: "16 word" where "RTS_PREEMPTED = 0x4000"
definition RTS_NO_QUANTUM :: "16 word" where "RTS_NO_QUANTUM = 0x8000"

lemmas RTS_defs = RTS_SLOT_FREE_def RTS_PROC_STOP_def RTS_SENDING_def RTS_RECEIVING_def
  RTS_SIGNALED_def RTS_SIG_PENDING_def RTS_NO_PRIV_def RTS_NO_ENDPOINT_def RTS_PREEMPTED_def
  RTS_NO_QUANTUM_def

record kmessage =
  k_source :: int
  k_type :: int
  k_arg :: "int set"
  k_body :: nat

record kproc =
  p_nr :: int
  p_priv :: nat
  p_rts_flags :: "16 word"
  p_misc_flags :: "16 word"
  p_priority :: nat
  p_cpu_time_left :: "64 word"
  p_quantum_size_ms :: "32 word"
  p_scheduler :: "nat option"
  p_nextready :: "nat option"
  p_caller_q :: "nat option"
  p_q_link :: "nat option"
  p_getfrom_e :: int
  p_sendto_e :: int
  p_pending :: "int set"
  p_endpoint :: int
  p_sendmsg :: kmessage
  p_delivermsg :: kmessage
  p_delivermsg_vir :: nat
  p_ipc_status :: "32 word"
  p_retreg :: errno

record kpriv =
  s_proc_nr :: int
  s_id :: nat
  s_flags :: "16 word"
  s_asyntab :: nat
  s_asynsize :: nat
  s_trap_mask :: "16 word"
  s_ipc_to :: "bool list list"
  s_sig_mgr :: int
  s_bak_sig_mgr :: int
  s_notify_pending :: "bool list list"
  s_int_pending :: "int set"
  s_sig_pending :: "int set"

record kstate =
  kprocs :: "kproc list"
  kprivs :: "kpriv list"
  rdy_head :: "nat option list"
  rdy_tail :: "nat option list"
  proc_ptr :: nat
  bill_ptr :: nat

text \<open>Constants and functions that come from headers and assembly code outside the repository.\<close>

record kcfg =
  PREEMPTIBLE :: "16 word"
  BILLABLE :: "16 word"
  ms_2_cpu_time :: "32 word \<Rightarrow> 64 word"
  k_ENDPOINT_P :: "int \<Rightarrow> int"
  k_NR_TASKS :: nat
  IDLE :: int
  SCHEDCTL_FLAG_KERNEL :: "32 word"

definition upd_kp :: "nat \<Rightarrow> (kproc \<Rightarrow> kproc) \<Rightarrow> kstate \<Rightarrow> kstate" where
  "upd_kp i f s = s\<lparr>kprocs := (kprocs s)[i := f (kprocs s ! i)]\<rparr>"

abbreviation kp :: "kstate \<Rightarrow> nat \<Rightarrow> kproc" where
  "kp s i \<equiv> kprocs s ! i"

definition privof :: "kstate \<Rightarrow> nat \<Rightarrow> kpriv" where
  "privof s i = kprivs s ! p_priv (kp s i)"

definition kassert :: "bool \<Rightarrow> 'a option \<Rightarrow> 'a option" where
  "kassert b r = (if b then r else None)"

definition proc_is_runnable :: "kproc \<Rightarrow> bool" where
  "proc_is_runnable p \<longleftrightarrow> p_rts_flags p = 0"

definition RTS_ISSET :: "kproc \<Rightarrow> 16 word \<Rightarrow> bool" where
  "RTS_ISSET p f \<longleftrightarrow> p_rts_flags p AND f = f"

definition proc_kernel_scheduler :: "kstate \<Rightarrow> nat \<Rightarrow> bool" where
  "proc_kernel_scheduler s i \<longleftrightarrow> p_scheduler (kp s i) = None \<or> p_scheduler (kp s i) = Some i"

subsection \<open>Queue operations\<close>

definition set_next :: "nat \<Rightarrow> nat option \<Rightarrow> kstate \<Rightarrow> kstate" where
  "set_next i v = upd_kp i (\<lambda>p. p\<lparr>p_nextready := v\<rparr>)"

definition set_head :: "nat \<Rightarrow> nat option \<Rightarrow> kstate \<Rightarrow> kstate" where
  "set_head q v s = s\<lparr>rdy_head := (rdy_head s)[q := v]\<rparr>"

definition set_tail :: "nat \<Rightarrow> nat option \<Rightarrow> kstate \<Rightarrow> kstate" where
  "set_tail q v s = s\<lparr>rdy_tail := (rdy_tail s)[q := v]\<rparr>"

definition link_tail :: "nat \<Rightarrow> nat \<Rightarrow> kstate \<Rightarrow> kstate option" where
  "link_tail q rp s =
     (case rdy_head s ! q of
        None \<Rightarrow> Some (set_next rp None (set_tail q (Some rp) (set_head q (Some rp) s)))
      | Some _ \<Rightarrow>
         (case rdy_tail s ! q of
            None \<Rightarrow> None
          | Some t \<Rightarrow> Some (set_next rp None (set_tail q (Some rp) (set_next t (Some rp) s)))))"

definition link_head :: "nat \<Rightarrow> nat \<Rightarrow> kstate \<Rightarrow> kstate" where
  "link_head q rp s =
     (case rdy_head s ! q of
        None \<Rightarrow> set_head q (Some rp) (set_next rp None (set_tail q (Some rp) (set_head q (Some rp) s)))
      | Some h \<Rightarrow> set_head q (Some rp) (set_next rp (Some h) s))"

text \<open>
  The loop of \<^verbatim>\<open>dequeue\<close>: \<open>prev\<close> is \<^verbatim>\<open>prev_xp\<close>, and \<^verbatim>\<open>xpp\<close> is the address of the queue head or of the link in \<open>prev\<close>.
\<close>

partial_function (option) unlink :: "nat \<Rightarrow> nat \<Rightarrow> nat option \<Rightarrow> kstate \<Rightarrow> kstate option" where
  "unlink q rp prev s =
     (case (case prev of None \<Rightarrow> rdy_head s ! q | Some a \<Rightarrow> p_nextready (kp s a)) of
        None \<Rightarrow> Some s
      | Some x \<Rightarrow>
          if x = rp then
            let nx = p_nextready (kp s x);
                s1 = (case prev of None \<Rightarrow> set_head q nx s | Some a \<Rightarrow> set_next a nx s) in
            Some (if rdy_tail s1 ! q = Some rp then set_tail q prev s1 else s1)
          else unlink q rp (Some x) s)"

definition dequeue :: "nat \<Rightarrow> kstate \<Rightarrow> kstate option" where
  "dequeue rp s =
     kassert (\<not> proc_is_runnable (kp s rp))
      (kassert (p_priority (kp s rp) < length (rdy_head s))
        (unlink (p_priority (kp s rp)) rp None s))"

definition RTS_SET :: "nat \<Rightarrow> 16 word \<Rightarrow> kstate \<Rightarrow> kstate option" where
  "RTS_SET rp f s =
     (let rts = p_rts_flags (kp s rp);
          s1 = upd_kp rp (\<lambda>p. p\<lparr>p_rts_flags := p_rts_flags p OR f\<rparr>) s in
      if rts = 0 \<and> \<not> proc_is_runnable (kp s1 rp) then dequeue rp s1 else Some s1)"

definition enqueue :: "kcfg \<Rightarrow> nat \<Rightarrow> kstate \<Rightarrow> kstate option" where
  "enqueue c rp s =
     (let q = p_priority (kp s rp) in
      kassert (proc_is_runnable (kp s rp))
       (kassert (q < length (rdy_head s))
         (case link_tail q rp s of
            None \<Rightarrow> None
          | Some s1 \<Rightarrow>
              let cur = proc_ptr s1 in
              if p_priority (kp s1 cur) > p_priority (kp s1 rp) \<and> s_flags (privof s1 cur) AND PREEMPTIBLE c \<noteq> 0
              then RTS_SET cur RTS_PREEMPTED s1
              else Some s1)))"

definition enqueue_head :: "nat \<Rightarrow> kstate \<Rightarrow> kstate option" where
  "enqueue_head rp s =
     (let q = p_priority (kp s rp) in
      kassert (proc_is_runnable (kp s rp))
       (kassert (p_cpu_time_left (kp s rp) \<noteq> 0)
         (kassert (q < length (rdy_head s)) (Some (link_head q rp s)))))"

definition RTS_UNSET :: "kcfg \<Rightarrow> nat \<Rightarrow> 16 word \<Rightarrow> kstate \<Rightarrow> kstate option" where
  "RTS_UNSET c rp f s =
     (let rts = p_rts_flags (kp s rp);
          s1 = upd_kp rp (\<lambda>p. p\<lparr>p_rts_flags := p_rts_flags p AND NOT f\<rparr>) s in
      if rts \<noteq> 0 \<and> proc_is_runnable (kp s1 rp) then enqueue c rp s1 else Some s1)"

definition RTS_SETFLAGS :: "nat \<Rightarrow> 16 word \<Rightarrow> kstate \<Rightarrow> kstate option" where
  "RTS_SETFLAGS rp f s =
     map_option (upd_kp rp (\<lambda>p. p\<lparr>p_rts_flags := f\<rparr>))
       (if proc_is_runnable (kp s rp) \<and> f \<noteq> 0 then dequeue rp s else Some s)"

fun pick_from :: "kcfg \<Rightarrow> nat list \<Rightarrow> kstate \<Rightarrow> (nat option \<times> kstate) option" where
  "pick_from c [] s = Some (None, s)"
| "pick_from c (q # qs) s =
     (case rdy_head s ! q of
        None \<Rightarrow> pick_from c qs s
      | Some rp \<Rightarrow>
          kassert (proc_is_runnable (kp s rp))
            (Some (Some rp, if s_flags (privof s rp) AND BILLABLE c \<noteq> 0 then s\<lparr>bill_ptr := rp\<rparr> else s)))"

definition pick_proc :: "kcfg \<Rightarrow> kstate \<Rightarrow> (nat option \<times> kstate) option" where
  "pick_proc c s = pick_from c [0 ..< NR_QUEUES] s"

definition slot :: "kcfg \<Rightarrow> int \<Rightarrow> nat" where
  "slot c n = nat (n + int (k_NR_TASKS c))"

text \<open>
  The part of \<^verbatim>\<open>switch_to_user\<close> that chooses a process: a runnable current process goes on; otherwise a preempted
  one returns to the front of its queue (to the end if its time is used up) and a new process is picked.
  The first component is the process to run, \<^const>\<open>None\<close> when the processor idles; then the idle task is the
  current process, and is billed if it is billable, until the next interrupt lets the kernel pick again.
\<close>

definition go_idle :: "kcfg \<Rightarrow> kstate \<Rightarrow> kstate" where
  "go_idle c s =
     (let i = slot c (IDLE c); s1 = s\<lparr>proc_ptr := i\<rparr> in
      if s_flags (privof s1 i) AND BILLABLE c \<noteq> 0 then s1\<lparr>bill_ptr := i\<rparr> else s1)"

definition requeue_preempted :: "kcfg \<Rightarrow> kstate \<Rightarrow> kstate option" where
  "requeue_preempted c s =
     (let p = proc_ptr s in
      if p_rts_flags (kp s p) AND RTS_PREEMPTED \<noteq> 0 then
        let s1 = upd_kp p (\<lambda>r. r\<lparr>p_rts_flags := p_rts_flags r AND NOT RTS_PREEMPTED\<rparr>) s in
        if proc_is_runnable (kp s1 p)
        then (if p_cpu_time_left (kp s1 p) \<noteq> 0 then enqueue_head p s1 else enqueue c p s1)
        else Some s1
      else Some s)"

definition choose_next :: "kcfg \<Rightarrow> kstate \<Rightarrow> (nat option \<times> kstate) option" where
  "choose_next c s =
     (if proc_is_runnable (kp s (proc_ptr s)) then Some (Some (proc_ptr s), s)
      else case requeue_preempted c s of
        None \<Rightarrow> None
      | Some s1 \<Rightarrow>
          map_option (\<lambda>(r, s2). (r, case r of None \<Rightarrow> go_idle c s2 | Some p \<Rightarrow> s2\<lparr>proc_ptr := p\<rparr>)) (pick_proc c s1))"

subsection \<open>Kernel calls on scheduling\<close>

definition sched_proc :: "kcfg \<Rightarrow> nat \<Rightarrow> 32 word \<Rightarrow> 32 word \<Rightarrow> kstate \<Rightarrow> (errno \<times> kstate) option" where
  "sched_proc c rp priority quantum s =
     (if priority > 18 then Some (EINVAL, s)
      else if quantum = 0 then Some (EINVAL, s)
      else case (if proc_is_runnable (kp s rp) then RTS_SET rp RTS_NO_QUANTUM s else Some s) of
        None \<Rightarrow> None
      | Some s1 \<Rightarrow>
          map_option (Pair OK)
            (RTS_UNSET c rp RTS_NO_QUANTUM
              (upd_kp rp (\<lambda>p. p\<lparr>p_priority := unat priority, p_quantum_size_ms := quantum,
                                p_cpu_time_left := ms_2_cpu_time c quantum\<rparr>) s1)))"

definition isokprocn :: "kcfg \<Rightarrow> kstate \<Rightarrow> int \<Rightarrow> bool" where
  "isokprocn c s n \<longleftrightarrow> 0 \<le> n + int (k_NR_TASKS c) \<and> n + int (k_NR_TASKS c) < int (length (kprocs s))"

definition isemptyp :: "kproc \<Rightarrow> bool" where
  "isemptyp p \<longleftrightarrow> p_rts_flags p = RTS_SLOT_FREE"

text \<open>\<^verbatim>\<open>isokendpt\<close>: the slot of a valid endpoint.\<close>

definition isokendpt :: "kcfg \<Rightarrow> kstate \<Rightarrow> int \<Rightarrow> nat option" where
  "isokendpt c s e =
     (let p = k_ENDPOINT_P c e in
      if \<not> isokprocn c s p then None
      else if isemptyp (kp s (slot c p)) then None
      else if p_endpoint (kp s (slot c p)) \<noteq> e then None
      else Some (slot c p))"

definition do_schedule ::
  "kcfg \<Rightarrow> nat \<Rightarrow> int \<Rightarrow> 32 word \<Rightarrow> 32 word \<Rightarrow> kstate \<Rightarrow> (errno \<times> kstate) option" where
  "do_schedule c caller ep priority quantum s =
     (case isokendpt c s ep of
        None \<Rightarrow> Some (EINVAL, s)
      | Some p \<Rightarrow>
          if p_scheduler (kp s p) \<noteq> Some caller then Some (EPERM, s)
          else sched_proc c p priority quantum s)"

text \<open>
  The C text is \<^verbatim>\<open>if((r = sched_proc(...) != OK)) return r;\<close>: the comparison binds more tightly than
  the assignment, and the call returns the number 1.
\<close>

definition do_schedctl ::
  "kcfg \<Rightarrow> nat \<Rightarrow> 32 word \<Rightarrow> int \<Rightarrow> 32 word \<Rightarrow> 32 word \<Rightarrow> kstate \<Rightarrow> (errno \<times> kstate) option" where
  "do_schedctl c caller flags ep priority quantum s =
     (if flags AND NOT (SCHEDCTL_FLAG_KERNEL c) \<noteq> 0 then Some (EINVAL, s)
      else case isokendpt c s ep of
        None \<Rightarrow> Some (EINVAL, s)
      | Some p \<Rightarrow>
          if flags AND SCHEDCTL_FLAG_KERNEL c = SCHEDCTL_FLAG_KERNEL c then
            (case sched_proc c p priority quantum s of
               None \<Rightarrow> None
             | Some (r, s1) \<Rightarrow>
                 if r \<noteq> OK then Some (EOTHER 1, s1)
                 else Some (OK, upd_kp p (\<lambda>r. r\<lparr>p_scheduler := None\<rparr>) s1))
          else Some (OK, upd_kp p (\<lambda>r. r\<lparr>p_scheduler := Some caller\<rparr>) s))"

subsection \<open>What the queues represent\<close>

definition nxt :: "kstate \<Rightarrow> nat \<Rightarrow> nat option" where
  "nxt s i = p_nextready (kp s i)"

text \<open>
  \<open>queues s qs\<close>: following the links from head \<open>q\<close> visits exactly the list \<open>qs ! q\<close>, the tail is its
  last element, and no process is on two queues.
\<close>

definition queues :: "kstate \<Rightarrow> nat list list \<Rightarrow> bool" where
  "queues s qs \<longleftrightarrow>
     length (rdy_head s) = NR_QUEUES \<and> length (rdy_tail s) = NR_QUEUES \<and> length qs = NR_QUEUES \<and>
     (\<forall>q < NR_QUEUES. chain (nxt s) (rdy_head s ! q) (qs ! q) \<and>
        rdy_tail s ! q = (if qs ! q = [] then None else Some (last (qs ! q))) \<and>
        set (qs ! q) \<subseteq> {..< length (kprocs s)}) \<and>
     (\<forall>q < NR_QUEUES. \<forall>r < NR_QUEUES. q \<noteq> r \<longrightarrow> set (qs ! q) \<inter> set (qs ! r) = {})"

definition queued :: "nat list list \<Rightarrow> nat set" where
  "queued qs = \<Union> (set ` set qs)"

definition no_links :: "kstate \<Rightarrow> kstate" where
  "no_links s = s\<lparr>kprocs := List.map (\<lambda>p. p\<lparr>p_nextready := None\<rparr>) (kprocs s),
     rdy_head := [], rdy_tail := []\<rparr>"

lemma upd_kp_simps [simp]:
  "length (kprocs (upd_kp i f s)) = length (kprocs s)"
  "kprivs (upd_kp i f s) = kprivs s" "rdy_head (upd_kp i f s) = rdy_head s"
  "rdy_tail (upd_kp i f s) = rdy_tail s" "proc_ptr (upd_kp i f s) = proc_ptr s"
  "bill_ptr (upd_kp i f s) = bill_ptr s"
  "i < length (kprocs s) \<Longrightarrow> kp (upd_kp i f s) i = f (kp s i)"
  "j \<noteq> i \<Longrightarrow> kp (upd_kp i f s) j = kp s j"
  by (simp_all add: upd_kp_def)

lemma link_simps [simp]:
  "kprocs (set_head q v s) = kprocs s" "kprocs (set_tail q v s) = kprocs s"
  "rdy_head (set_tail q v s) = rdy_head s" "rdy_tail (set_head q v s) = rdy_tail s"
  "rdy_head (set_next i v s) = rdy_head s" "rdy_tail (set_next i v s) = rdy_tail s"
  "rdy_head (set_head q v s) = (rdy_head s)[q := v]" "rdy_tail (set_tail q v s) = (rdy_tail s)[q := v]"
  "length (kprocs (set_next i v s)) = length (kprocs s)"
  by (simp_all add: set_head_def set_tail_def set_next_def)

lemma nxt_simps [simp]:
  "nxt (set_head q v s) = nxt s" "nxt (set_tail q v s) = nxt s"
  "i < length (kprocs s) \<Longrightarrow> nxt (set_next i v s) = (nxt s)(i := v)"
  by (auto simp: nxt_def fun_eq_iff set_next_def upd_kp_def nth_list_update)

lemma no_links_simps [simp]:
  "no_links (set_head q v s) = no_links s" "no_links (set_tail q v s) = no_links s"
  "no_links (set_next i v s) = no_links s"
proof -
  have "(List.map (\<lambda>p. p\<lparr>p_nextready := None\<rparr>) (kprocs s))
      [i := (kprocs s ! i)\<lparr>p_nextready := None\<rparr>] = List.map (\<lambda>p. p\<lparr>p_nextready := None\<rparr>) (kprocs s)"
    by (cases "i < length (kprocs s)") (simp_all add: list_eq_iff_nth_eq nth_list_update)
  then show "no_links (set_next i v s) = no_links s"
    by (simp add: no_links_def set_next_def upd_kp_def map_update)
qed (simp_all add: no_links_def set_head_def set_tail_def)

lemma no_links_eqD:
  assumes "no_links s = no_links t"
  shows "length (kprocs s) = length (kprocs t)" "kprivs s = kprivs t" "proc_ptr s = proc_ptr t"
    "bill_ptr s = bill_ptr t"
    and "i < length (kprocs s) \<Longrightarrow> (kp s i)\<lparr>p_nextready := None\<rparr> = (kp t i)\<lparr>p_nextready := None\<rparr>"
proof -
  have m: "List.map (\<lambda>p. p\<lparr>p_nextready := None\<rparr>) (kprocs s) =
      List.map (\<lambda>p. p\<lparr>p_nextready := None\<rparr>) (kprocs t)"
    using arg_cong [OF assms, of kprocs] by (simp add: no_links_def)
  then show l: "length (kprocs s) = length (kprocs t)"
    using map_eq_imp_length_eq by blast
  show "i < length (kprocs s) \<Longrightarrow> (kp s i)\<lparr>p_nextready := None\<rparr> = (kp t i)\<lparr>p_nextready := None\<rparr>"
    using m l by (metis nth_map)
  show "kprivs s = kprivs t" using arg_cong [OF assms, of kprivs] by (simp add: no_links_def)
  show "proc_ptr s = proc_ptr t" using arg_cong [OF assms, of proc_ptr] by (simp add: no_links_def)
  show "bill_ptr s = bill_ptr t" using arg_cong [OF assms, of bill_ptr] by (simp add: no_links_def)
qed

lemma no_links_fields:
  assumes "no_links s = no_links t" "i < length (kprocs s)"
  shows "p_rts_flags (kp s i) = p_rts_flags (kp t i)" "p_priority (kp s i) = p_priority (kp t i)"
    "p_misc_flags (kp s i) = p_misc_flags (kp t i)" "p_priv (kp s i) = p_priv (kp t i)"
    "p_endpoint (kp s i) = p_endpoint (kp t i)" "p_scheduler (kp s i) = p_scheduler (kp t i)"
    "p_cpu_time_left (kp s i) = p_cpu_time_left (kp t i)"
proof -
  note eq = no_links_eqD(5) [OF assms]
  show "p_rts_flags (kp s i) = p_rts_flags (kp t i)" using arg_cong [OF eq, of p_rts_flags] by simp
  show "p_priority (kp s i) = p_priority (kp t i)" using arg_cong [OF eq, of p_priority] by simp
  show "p_misc_flags (kp s i) = p_misc_flags (kp t i)" using arg_cong [OF eq, of p_misc_flags] by simp
  show "p_priv (kp s i) = p_priv (kp t i)" using arg_cong [OF eq, of p_priv] by simp
  show "p_endpoint (kp s i) = p_endpoint (kp t i)" using arg_cong [OF eq, of p_endpoint] by simp
  show "p_scheduler (kp s i) = p_scheduler (kp t i)" using arg_cong [OF eq, of p_scheduler] by simp
  show "p_cpu_time_left (kp s i) = p_cpu_time_left (kp t i)"
    using arg_cong [OF eq, of p_cpu_time_left] by simp
qed

lemma no_links_upd:
  assumes "no_links s = no_links t"
    and "\<And>p. (f p)\<lparr>p_nextready := None\<rparr> = f (p\<lparr>p_nextready := None\<rparr>)"
  shows "no_links (upd_kp i f s) = no_links (upd_kp i f t)"
proof -
  have "no_links (upd_kp i f u) = upd_kp i f (no_links u)" for u
    by (cases "i < length (kprocs u)")
       (simp_all add: no_links_def upd_kp_def map_update assms(2) list_update_beyond)
  with assms(1) show ?thesis by simp
qed

lemma no_links_upd_flags:
  "no_links s = no_links t \<Longrightarrow>
     no_links (upd_kp i (\<lambda>p. p\<lparr>p_rts_flags := g (p_rts_flags p)\<rparr>) s) =
     no_links (upd_kp i (\<lambda>p. p\<lparr>p_rts_flags := g (p_rts_flags p)\<rparr>) t)"
  by (rule no_links_upd) simp_all

subsection \<open>The queue operations on the represented queues\<close>

lemma queuesD:
  assumes "queues s qs" "q < NR_QUEUES"
  shows "chain (nxt s) (rdy_head s ! q) (qs ! q)" "set (qs ! q) \<subseteq> {..< length (kprocs s)}"
    "rdy_tail s ! q = (if qs ! q = [] then None else Some (last (qs ! q)))"
    "q < length (rdy_head s)" "q < length (rdy_tail s)" "q < length qs" "distinct (qs ! q)"
  using assms chain_distinct unfolding queues_def by fastforce+

lemma queues_disjoint:
  "queues s qs \<Longrightarrow> q < NR_QUEUES \<Longrightarrow> r < NR_QUEUES \<Longrightarrow> q \<noteq> r \<Longrightarrow> x \<in> set (qs ! q) \<Longrightarrow> x \<notin> set (qs ! r)"
  unfolding queues_def by blast

lemma queued_nth: "queues s qs \<Longrightarrow> x \<in> queued qs \<longleftrightarrow> (\<exists>q < NR_QUEUES. x \<in> set (qs ! q))"
proof -
  assume "queues s qs"
  then have "length qs = NR_QUEUES" by (simp add: queues_def)
  then show ?thesis
    unfolding queued_def by (auto simp: set_conv_nth [of qs])
qed

text \<open>Replacing one queue: what has to be shown.\<close>

lemma queues_update:
  assumes Q: "queues s qs" and q: "q < NR_QUEUES"
    and len: "length (rdy_head s') = NR_QUEUES" "length (rdy_tail s') = NR_QUEUES"
      "length (kprocs s') = length (kprocs s)"
    and other: "\<And>r. r < NR_QUEUES \<Longrightarrow> r \<noteq> q \<Longrightarrow> rdy_head s' ! r = rdy_head s ! r"
      "\<And>r. r < NR_QUEUES \<Longrightarrow> r \<noteq> q \<Longrightarrow> rdy_tail s' ! r = rdy_tail s ! r"
      "\<And>x. x \<notin> set (qs ! q) \<Longrightarrow> x \<noteq> y \<Longrightarrow> nxt s' x = nxt s x"
    and y: "y \<notin> queued qs \<or> y \<in> set (qs ! q)"
    and new: "chain (nxt s') (rdy_head s' ! q) xs" "set xs \<subseteq> insert y (set (qs ! q))"
      "rdy_tail s' ! q = (if xs = [] then None else Some (last xs))" "set xs \<subseteq> {..< length (kprocs s)}"
  shows "queues s' (qs[q := xs])"
proof -
  have dj: "set (qs ! q) \<inter> set (qs ! r) = {} \<and> y \<notin> set (qs ! r)" if "r < NR_QUEUES" "r \<noteq> q" for r
    using queues_disjoint [OF Q q that(1)] that y queued_nth [OF Q] by blast
  have ch: "chain (nxt s') (rdy_head s' ! r) (qs ! r)" if "r < NR_QUEUES" "r \<noteq> q" for r
  proof -
    have "nxt s' x = nxt s x" if "x \<in> set (qs ! r)" for x
      using dj [of r] that \<open>r < _\<close> \<open>r \<noteq> q\<close> by (intro other(3)) auto
    then have "chain (nxt s') (rdy_head s ! r) (qs ! r) = chain (nxt s) (rdy_head s ! r) (qs ! r)"
      by (intro chain_cong) simp
    with queuesD(1) [OF Q that(1)] other(1) [OF that] show ?thesis by simp
  qed
  have lq: "length qs = NR_QUEUES"
    using Q by (simp add: queues_def)
  have "set (qs ! a) \<inter> set (qs ! b) = {}" if "a < NR_QUEUES" "b < NR_QUEUES" "a \<noteq> b" for a b
    using Q that unfolding queues_def by blast
  moreover have "set xs \<inter> set (qs ! r) = {}" if "r < NR_QUEUES" "r \<noteq> q" for r
    using dj [OF that] new(2) by blast
  ultimately have dis: "set ((qs[q := xs]) ! a) \<inter> set ((qs[q := xs]) ! b) = {}"
    if "a < NR_QUEUES" "b < NR_QUEUES" "a \<noteq> b" for a b
    using that q lq by (cases "a = q"; cases "b = q") (simp_all add: Int_commute)
  have "chain (nxt s') (rdy_head s' ! r) ((qs[q := xs]) ! r) \<and>
      rdy_tail s' ! r = (if (qs[q := xs]) ! r = [] then None else Some (last ((qs[q := xs]) ! r))) \<and>
      set ((qs[q := xs]) ! r) \<subseteq> {..< length (kprocs s')}" if "r < NR_QUEUES" for r
  proof (cases "r = q")
    case True
    with new q lq len show ?thesis by simp
  next
    case False
    with that ch [of r] other(2) [of r] queuesD(2,3) [OF Q that] len show ?thesis by simp
  qed
  with dis show ?thesis
    using len lq unfolding queues_def by simp
qed

lemma link_tail_spec:
  assumes Q: "queues s qs" and q: "q < NR_QUEUES" and rp: "rp < length (kprocs s)" "rp \<notin> queued qs"
  shows "\<exists>s'. link_tail q rp s = Some s' \<and> queues s' (qs[q := qs ! q @ [rp]]) \<and> no_links s' = no_links s"
proof -
  note D = queuesD [OF Q q]
  have new: "rp \<notin> set (qs ! q)"
    using rp(2) q queued_nth [OF Q] by blast
  have lens: "length (rdy_head s) = NR_QUEUES" "length (rdy_tail s) = NR_QUEUES"
    using Q by (simp_all add: queues_def)
  show ?thesis
  proof (cases "qs ! q = []")
    case True
    define s' where "s' = set_next rp None (set_tail q (Some rp) (set_head q (Some rp) s))"
    have "rdy_head s ! q = None" using D(1) True by simp
    then have "link_tail q rp s = Some s'" by (simp add: link_tail_def s'_def)
    moreover have "queues s' (qs[q := [rp]])"
      using rp q lens D True
      by (intro queues_update [OF Q q, where y = rp]) (simp_all add: s'_def)
    ultimately show ?thesis
      using True by (simp add: s'_def)
  next
    case False
    then obtain us t where us: "qs ! q = us @ [t]"
      by (meson rev_exhaust)
    define s' where "s' = set_next rp None (set_tail q (Some rp) (set_next t (Some rp) s))"
    from False D(1) obtain h where h: "rdy_head s ! q = Some h"
      by (cases "qs ! q") auto
    have t: "rdy_tail s ! q = Some t" using D(3) us by simp
    from h t have "link_tail q rp s = Some s'" by (simp add: link_tail_def s'_def)
    moreover have "queues s' (qs[q := qs ! q @ [rp]])"
    proof (rule queues_update [OF Q q, where y = rp])
      have "t < length (kprocs s)" using D(2) us by auto
      then have nx: "nxt s' = (nxt s)(t := Some rp, rp := None)"
        using rp by (simp add: s'_def)
      have "rdy_head s' = rdy_head s" by (simp add: s'_def)
      then show "chain (nxt s') (rdy_head s' ! q) (qs ! q @ [rp])"
        using chain_append_last [of "nxt s" _ us t rp] D(1) us new nx by simp
      show "nxt s' x = nxt s x" if "x \<notin> set (qs ! q)" "x \<noteq> rp" for x
        using that us nx by simp
    qed (use lens rp D q in \<open>simp_all add: s'_def\<close>)
    ultimately show ?thesis
      by (simp add: s'_def)
  qed
qed

lemma link_head_spec:
  assumes Q: "queues s qs" and q: "q < NR_QUEUES" and rp: "rp < length (kprocs s)" "rp \<notin> queued qs"
  shows "queues (link_head q rp s) (qs[q := rp # qs ! q]) \<and> no_links (link_head q rp s) = no_links s"
proof -
  note D = queuesD [OF Q q]
  have new: "rp \<notin> set (qs ! q)"
    using rp(2) q queued_nth [OF Q] by blast
  have lens: "length (rdy_head s) = NR_QUEUES" "length (rdy_tail s) = NR_QUEUES"
    using Q by (simp_all add: queues_def)
  have "queues (link_head q rp s) (qs[q := rp # qs ! q])"
  proof (cases "qs ! q")
    case Nil
    then have "rdy_head s ! q = None" using D(1) by simp
    then show ?thesis
      using rp q lens D Nil unfolding link_head_def
      by (intro queues_update [OF Q q, where y = rp]) simp_all
  next
    case (Cons h xs)
    then have h: "rdy_head s ! q = Some h" using D(1) by simp
    have "chain ((nxt s)(rp := Some h)) (Some rp) (rp # qs ! q)"
      using chain_push [of "nxt s" "rdy_head s ! q" "qs ! q" rp] D(1) new h by simp
    then show ?thesis
      using rp q lens D Cons h unfolding link_head_def
      by (intro queues_update [OF Q q, where y = rp]) simp_all
  qed
  then show ?thesis
    by (simp add: link_head_def split: option.split)
qed

text \<open>The loop of \<^const>\<open>dequeue\<close>, started behind the elements \<open>us\<close> that precede the process.\<close>

lemma unlink_walk:
  assumes "chain (nxt s) (rdy_head s ! q) (us @ a # vs @ xs)" "rp \<notin> set (a # vs)"
  shows "unlink q rp (Some a) s = unlink q rp (Some (last (a # vs))) s"
  using assms
proof (induction vs arbitrary: us a)
  case (Cons v vs)
  have "nxt s a = Some v"
    using chain_next [of "nxt s" _ us a "v # vs @ xs"] Cons.prems(1) by simp
  with Cons.prems(2) have "unlink q rp (Some a) s = unlink q rp (Some v) s"
    by (subst unlink.simps) (simp add: nxt_def)
  also have "\<dots> = unlink q rp (Some (last (v # vs))) s"
    using Cons.IH [of "us @ [a]" v] Cons.prems by simp
  finally show ?case by simp
qed simp

lemma unlink_absent:
  assumes "chain (nxt s) (rdy_head s ! q) xs" "rp \<notin> set xs"
  shows "unlink q rp None s = Some s"
proof (cases xs)
  case Nil
  with assms show ?thesis by (subst unlink.simps) simp
next
  case (Cons a vs)
  with assms have "unlink q rp None s = unlink q rp (Some a) s"
    by (subst unlink.simps) simp
  also have "\<dots> = unlink q rp (Some (last (a # vs))) s"
    using unlink_walk [of s q "[]" a vs "[]" rp] assms Cons by simp
  also have "\<dots> = Some s"
  proof -
    have "nxt s (last (a # vs)) = None"
      using chain_next [of "nxt s" "rdy_head s ! q" "butlast (a # vs)" "last (a # vs)" "[]"] assms Cons
      by (simp only: append_butlast_last_id list.simps not_False_eq_True)
    then show ?thesis by (subst unlink.simps) (simp add: nxt_def)
  qed
  finally show ?thesis .
qed

lemma unlink_present:
  assumes Q: "queues s qs" and q: "q < NR_QUEUES" and split: "qs ! q = us @ rp # vs"
  shows "\<exists>s'. unlink q rp None s = Some s' \<and> queues s' (qs[q := us @ vs]) \<and> no_links s' = no_links s"
proof -
  note D = queuesD [OF Q q]
  have lens: "length (rdy_head s) = NR_QUEUES" "length (rdy_tail s) = NR_QUEUES"
    using Q by (simp_all add: queues_def)
  have nrp: "nxt s rp = (case vs of [] \<Rightarrow> None | v # _ \<Rightarrow> Some v)"
    using chain_next [of "nxt s" _ us rp vs] D(1) split by simp
  have tail: "rdy_tail s ! q = Some rp \<longleftrightarrow> vs = []"
  proof (cases vs)
    case (Cons v vs')
    then have "last vs \<in> set vs" by simp
    with D(7) split have "last vs \<noteq> rp" by auto
    with D(3) split Cons show ?thesis by auto
  qed (use D(3) split in auto)
  show ?thesis
  proof (cases us rule: rev_cases)
    case Nil
    define s' where "s' = (if vs = [] then set_tail q None (set_head q (nxt s rp) s) else set_head q (nxt s rp) s)"
    have "unlink q rp None s = Some s'"
      using D(1) split Nil tail by (subst unlink.simps) (simp add: s'_def nxt_def Let_def)
    moreover have "queues s' (qs[q := vs])"
      using D split Nil lens nrp q
      by (intro queues_update [OF Q q, where y = rp]) (auto simp: s'_def split: list.splits)
    ultimately show ?thesis
      using Nil by (simp add: s'_def)
  next
    case (snoc us' a)
    define s' where "s' = (if vs = [] then set_tail q (Some a) (set_next a (nxt s rp) s) else set_next a (nxt s rp) s)"
    have a: "a < length (kprocs s)" "a \<noteq> rp" "rp \<notin> set us"
      using D(2,7) split snoc by auto
    have na: "nxt s a = Some rp"
      using chain_next [of "nxt s" _ us' a "rp # vs"] D(1) split snoc by simp
    have "unlink q rp None s = unlink q rp (Some a) s"
    proof (cases us')
      case Nil
      with D(1) split snoc a show ?thesis by (subst unlink.simps) simp
    next
      case (Cons h w)
      with D(1) split snoc a have "unlink q rp None s = unlink q rp (Some h) s"
        by (subst unlink.simps) simp
      also have "\<dots> = unlink q rp (Some a) s"
        using unlink_walk [of s q "[]" h "w @ [a]" "rp # vs" rp] D(1) split snoc a Cons by simp
      finally show ?thesis .
    qed
    also have "\<dots> = Some s'"
      using na tail by (subst unlink.simps) (simp add: s'_def nxt_def Let_def)
    finally have "unlink q rp None s = Some s'" .
    moreover have "queues s' (qs[q := us @ vs])"
    proof (rule queues_update [OF Q q, where y = rp])
      have "chain ((nxt s)(a := nxt s rp)) (rdy_head s ! q) (us @ vs)"
        using chain_remove_mid [of "nxt s" _ us' a rp vs] D(1) split snoc by simp
      moreover have "nxt s' = (nxt s)(a := nxt s rp)" "rdy_head s' = rdy_head s"
        using a by (simp_all add: s'_def)
      ultimately show "chain (nxt s') (rdy_head s' ! q) (us @ vs)" by simp
    qed (use D split snoc a lens q in \<open>auto simp: s'_def split: list.splits\<close>)
    ultimately show ?thesis
      by (simp add: s'_def)
  qed
qed

subsection \<open>The ready queues as an interface\<close>

text \<open>
  What the rest of the kernel relies on: an array of queues in which a process is added at the end or at the front
  of one queue and removed from wherever it is in it.
\<close>

locale ready_queues =
  fixes rep :: "'s \<Rightarrow> nat list list \<Rightarrow> bool"
    and size_of :: "'s \<Rightarrow> nat"
    and add_tail :: "nat \<Rightarrow> nat \<Rightarrow> 's \<Rightarrow> 's option"
    and add_head :: "nat \<Rightarrow> nat \<Rightarrow> 's \<Rightarrow> 's"
    and remove :: "nat \<Rightarrow> nat \<Rightarrow> 's \<Rightarrow> 's option"
    and rest :: "'s \<Rightarrow> 's"
  assumes rep_length: "rep s qs \<Longrightarrow> length qs = NR_QUEUES"
    and size_rest: "rest s = rest t \<Longrightarrow> size_of s = size_of t"
    and add_tail_rep: "rep s qs \<Longrightarrow> q < NR_QUEUES \<Longrightarrow> x < size_of s \<Longrightarrow> x \<notin> queued qs \<Longrightarrow>
          \<exists>s'. add_tail q x s = Some s' \<and> rep s' (qs[q := qs ! q @ [x]]) \<and> rest s' = rest s"
    and add_head_rep: "rep s qs \<Longrightarrow> q < NR_QUEUES \<Longrightarrow> x < size_of s \<Longrightarrow> x \<notin> queued qs \<Longrightarrow>
          rep (add_head q x s) (qs[q := x # qs ! q]) \<and> rest (add_head q x s) = rest s"
    and remove_rep: "rep s qs \<Longrightarrow> q < NR_QUEUES \<Longrightarrow>
          \<exists>s'. remove q x s = Some s' \<and> rep s' (qs[q := remove1 x (qs ! q)]) \<and> rest s' = rest s"
begin

lemma queued_update: "q < length qs \<Longrightarrow> x \<in> queued (qs[q := xs]) \<Longrightarrow> x \<in> set xs \<or> x \<in> queued qs"
  by (auto simp: queued_def dest!: set_update_subset_insert [THEN subsetD])

text \<open>Removing what was just added gives back the queues.\<close>

lemma add_remove:
  assumes "rep s qs" "q < NR_QUEUES" "x < size_of s" "x \<notin> queued qs"
  shows "\<exists>s1 s2. add_tail q x s = Some s1 \<and> remove q x s1 = Some s2 \<and> rep s2 qs \<and> rest s2 = rest s"
proof -
  obtain s1 where s1: "add_tail q x s = Some s1" "rep s1 (qs[q := qs ! q @ [x]])" "rest s1 = rest s"
    using add_tail_rep [OF assms] by blast
  have l: "q < length qs" using rep_length assms by simp
  have "x \<notin> set (qs ! q)"
    using assms(4) l by (auto simp: queued_def)
  then have "qs[q := remove1 x (qs ! q @ [x])] = qs"
    by (simp add: remove1_append)
  with remove_rep [OF s1(2) assms(2), of x] s1 l show ?thesis
    by auto
qed

text \<open>A queue serves in the order of arrival: what is added one after the other stands behind what was there.\<close>

lemma add_all_in_order:
  assumes "rep s qs" "q < NR_QUEUES" "distinct xs" "set xs \<subseteq> {..< size_of s}" "set xs \<inter> queued qs = {}"
  shows "\<exists>s'. run_ops (\<lambda>t x. add_tail q x t) s xs = Some s' \<and> rep s' (qs[q := qs ! q @ xs]) \<and> rest s' = rest s"
  using assms
proof (induction xs arbitrary: s qs)
  case (Cons x xs)
  obtain s1 where s1: "add_tail q x s = Some s1" "rep s1 (qs[q := qs ! q @ [x]])" "rest s1 = rest s"
    using add_tail_rep [of s qs q x] Cons.prems by auto
  have l: "q < length qs" using rep_length Cons.prems by simp
  have "set xs \<inter> queued (qs[q := qs ! q @ [x]]) = {}"
  proof -
    have "queued (qs[q := qs ! q @ [x]]) \<subseteq> insert x (queued qs)"
      using queued_update [OF l] l by (fastforce simp: queued_def)
    with Cons.prems show ?thesis by auto
  qed
  then obtain s' where "run_ops (\<lambda>t x. add_tail q x t) s1 xs = Some s'"
      "rep s' ((qs[q := qs ! q @ [x]])[q := (qs[q := qs ! q @ [x]]) ! q @ xs])" "rest s' = rest s1"
    using Cons.IH [OF s1(2) Cons.prems(2)] Cons.prems size_rest [OF s1(3)] by auto
  with s1 l show ?case by simp
qed simp

end

lemma remove_spec:
  assumes Q: "queues s qs" and q: "q < NR_QUEUES"
  shows "\<exists>s'. unlink q rp None s = Some s' \<and> queues s' (qs[q := remove1 rp (qs ! q)]) \<and>
    no_links s' = no_links s"
proof (cases "rp \<in> set (qs ! q)")
  case True
  then obtain us vs where split: "qs ! q = us @ rp # vs" by (meson split_list)
  moreover have "distinct (us @ rp # vs)"
    using queuesD(7) [OF Q q] split by simp
  ultimately show ?thesis
    using unlink_present [OF Q q split] by (simp add: remove1_append)
next
  case False
  then show ?thesis
    using unlink_absent [OF queuesD(1) [OF Q q] False] Q by (simp add: remove1_idem)
qed

interpretation rq: ready_queues queues "\<lambda>s. length (kprocs s)" link_tail link_head
    "\<lambda>q rp. unlink q rp None" no_links
proof
  show "length qs = NR_QUEUES" if "queues s qs" for s qs
    using that by (simp add: queues_def)
qed (use link_tail_spec link_head_spec remove_spec no_links_eqD(1) in \<open>blast+\<close>)

subsection \<open>The invariant of the scheduler\<close>

text \<open>
  \<open>ready_ok s qs X\<close>: exactly the runnable processes outside \<open>X\<close> are queued, each on the queue of its priority.
\<close>

definition ready_ok :: "kstate \<Rightarrow> nat list list \<Rightarrow> nat set \<Rightarrow> bool" where
  "ready_ok s qs X \<longleftrightarrow> queues s qs \<and> proc_ptr s < length (kprocs s) \<and>
     (\<forall>x < length (kprocs s). p_priority (kp s x) < NR_QUEUES) \<and>
     (\<forall>q < NR_QUEUES. \<forall>x < length (kprocs s).
        x \<in> set (qs ! q) \<longleftrightarrow> x \<notin> X \<and> proc_is_runnable (kp s x) \<and> p_priority (kp s x) = q)"

lemma ready_okD:
  assumes "ready_ok s qs X"
  shows "queues s qs" "proc_ptr s < length (kprocs s)"
    "x < length (kprocs s) \<Longrightarrow> p_priority (kp s x) < NR_QUEUES"
    "q < NR_QUEUES \<Longrightarrow> x < length (kprocs s) \<Longrightarrow>
       x \<in> set (qs ! q) \<longleftrightarrow> x \<notin> X \<and> proc_is_runnable (kp s x) \<and> p_priority (kp s x) = q"
  using assms by (auto simp: ready_ok_def)

lemma ready_ok_queued:
  assumes "ready_ok s qs X" "x < length (kprocs s)"
  shows "x \<in> queued qs \<longleftrightarrow> x \<notin> X \<and> proc_is_runnable (kp s x)"
  using ready_okD [OF assms(1)] queued_nth [OF ready_okD(1) [OF assms(1)]] assms(2) by blast

text \<open>The queues depend only on the links, the flags and the priorities.\<close>

lemma queues_cong:
  assumes "queues s qs" "rdy_head t = rdy_head s" "rdy_tail t = rdy_tail s"
    and "length (kprocs t) = length (kprocs s)"
    and "\<And>x. x < length (kprocs s) \<Longrightarrow> nxt t x = nxt s x"
  shows "queues t qs"
proof -
  have "chain (nxt t) (rdy_head s ! q) (qs ! q)" if "q < NR_QUEUES" for q
  proof -
    have "chain (nxt t) (rdy_head s ! q) (qs ! q) = chain (nxt s) (rdy_head s ! q) (qs ! q)"
      using queuesD(2) [OF assms(1) that] assms(5) by (intro chain_cong) auto
    with queuesD(1) [OF assms(1) that] show ?thesis by simp
  qed
  with assms show ?thesis unfolding queues_def by simp
qed

lemma queues_upd_kp:
  assumes "queues s qs" "\<And>p. p_nextready (f p) = p_nextready p"
  shows "queues (upd_kp i f s) qs"
  using assms(1)
proof (rule queues_cong)
  show "nxt (upd_kp i f s) x = nxt s x" if "x < length (kprocs s)" for x
    using that assms(2) by (cases "x = i") (simp_all add: nxt_def)
qed simp_all

lemma ready_ok_upd_same:
  assumes "ready_ok s qs X" "\<And>p. p_nextready (f p) = p_nextready p"
    and "\<And>p. p_rts_flags (f p) = p_rts_flags p" "\<And>p. p_priority (f p) = p_priority p"
  shows "ready_ok (upd_kp i f s) qs X"
proof -
  have k: "p_rts_flags (kp (upd_kp i f s) x) = p_rts_flags (kp s x)"
    "p_priority (kp (upd_kp i f s) x) = p_priority (kp s x)" if "x < length (kprocs s)" for x
    using that assms(3,4) by (cases "x = i"; simp)+
  show ?thesis
    using assms(1) queues_upd_kp [OF ready_okD(1) [OF assms(1)], of f i] assms(2)
    unfolding ready_ok_def by (simp add: k proc_is_runnable_def)
qed

text \<open>From a state with the same processes and links to one that differs in the links only.\<close>

lemma ready_ok_transfer:
  assumes "queues s' qs'" "no_links s' = no_links t"
    and "proc_ptr t < length (kprocs t)" "\<And>x. x < length (kprocs t) \<Longrightarrow> p_priority (kp t x) < NR_QUEUES"
    and "\<And>q x. q < NR_QUEUES \<Longrightarrow> x < length (kprocs t) \<Longrightarrow>
      x \<in> set (qs' ! q) \<longleftrightarrow> x \<notin> X \<and> proc_is_runnable (kp t x) \<and> p_priority (kp t x) = q"
  shows "ready_ok s' qs' X"
  unfolding ready_ok_def
  using assms no_links_eqD [OF assms(2)] no_links_fields [OF assms(2)]
  by (simp add: proc_is_runnable_def)

lemma dequeue_ok:
  assumes R: "ready_ok s qs X" and rp: "rp < length (kprocs s)" "proc_is_runnable (kp s rp)" "rp \<notin> X"
    and f: "f \<noteq> 0"
  defines "t \<equiv> upd_kp rp (\<lambda>p. p\<lparr>p_rts_flags := p_rts_flags p OR f\<rparr>) s"
    and "q \<equiv> p_priority (kp s rp)"
  shows "\<exists>s'. dequeue rp t = Some s' \<and> ready_ok s' (qs[q := remove1 rp (qs ! q)]) X \<and> no_links s' = no_links t"
proof -
  note D = ready_okD [OF R]
  have q: "q < NR_QUEUES" using D(3) rp by (simp add: q_def)
  have t: "kp t rp = (kp s rp)\<lparr>p_rts_flags := f\<rparr>" "length (kprocs t) = length (kprocs s)"
      "rdy_head t = rdy_head s" "proc_ptr t = proc_ptr s" "\<And>x. x \<noteq> rp \<Longrightarrow> kp t x = kp s x"
    using rp by (simp_all add: t_def proc_is_runnable_def)
  have Qt: "queues t qs"
    unfolding t_def using D(1) by (rule queues_upd_kp) simp
  then obtain s' where s': "unlink q rp None t = Some s'" "queues s' (qs[q := remove1 rp (qs ! q)])"
      "no_links s' = no_links t"
    using remove_spec [OF Qt q, of rp] by blast
  have "dequeue rp t = Some s'"
    using s'(1) q f t queuesD(4) [OF Qt q] by (simp add: dequeue_def kassert_def proc_is_runnable_def q_def)
  moreover have "ready_ok s' (qs[q := remove1 rp (qs ! q)]) X"
  proof (rule ready_ok_transfer [OF s'(2,3)])
    show "p_priority (kp t x) < NR_QUEUES" if "x < length (kprocs t)" for x
      using that D(3) [of x] t by (cases "x = rp") auto
    have d: "distinct (qs ! q)" "q < length qs"
      using queuesD [OF D(1) q] by simp_all
    show "x \<in> set (qs[q := remove1 rp (qs ! q)] ! r) \<longleftrightarrow>
        x \<notin> X \<and> proc_is_runnable (kp t x) \<and> p_priority (kp t x) = r"
      if "r < NR_QUEUES" "x < length (kprocs t)" for r x
    proof (cases "x = rp")
      case True
      have "rp \<notin> set (qs[q := remove1 rp (qs ! q)] ! r)"
        using d D(4) [OF that(1), of rp] rp by (cases "r = q") (auto simp: q_def)
      with True t f show ?thesis by (simp add: proc_is_runnable_def)
    next
      case False
      with t that D(4) [OF that(1), of x] d show ?thesis by (cases "r = q") auto
    qed
  qed (use D t in auto)
  ultimately show ?thesis using s'(3) by blast
qed

lemma ready_ok_blocked:
  assumes R: "ready_ok s qs X" and "\<not> proc_is_runnable (kp s rp)"
    and "\<not> proc_is_runnable (f (kp s rp))" "\<And>p. p_nextready (f p) = p_nextready p"
    and "rp < length (kprocs s) \<Longrightarrow> p_priority (f (kp s rp)) < NR_QUEUES"
  shows "ready_ok (upd_kp rp f s) qs X"
proof -
  note D = ready_okD [OF R]
  have Q: "queues (upd_kp rp f s) qs"
    using D(1) assms(4) by (rule queues_upd_kp)
  have k: "proc_is_runnable (kp (upd_kp rp f s) x) = proc_is_runnable (kp s x)"
    "p_priority (kp (upd_kp rp f s) x) < NR_QUEUES"
    "proc_is_runnable (kp s x) \<Longrightarrow> p_priority (kp (upd_kp rp f s) x) = p_priority (kp s x)"
    if "x < length (kprocs s)" for x
    using that assms(2,3,5) D(3) [OF that] by (cases "x = rp"; simp)+
  show ?thesis
    unfolding ready_ok_def
    using Q k D by auto
qed

lemma ready_ok_wake:
  assumes R: "ready_ok s qs {}" and rp: "rp < length (kprocs s)" "\<not> proc_is_runnable (kp s rp)"
    and f: "proc_is_runnable (f (kp s rp))" "\<And>p. p_nextready (f p) = p_nextready p"
      "p_priority (f (kp s rp)) = p_priority (kp s rp)"
  shows "ready_ok (upd_kp rp f s) qs {rp}"
proof -
  note D = ready_okD [OF R]
  have Q: "queues (upd_kp rp f s) qs"
    using D(1) f(2) by (rule queues_upd_kp)
  have k: "p_priority (kp (upd_kp rp f s) x) = p_priority (kp s x)"
    "x \<noteq> rp \<Longrightarrow> kp (upd_kp rp f s) x = kp s x" if "x < length (kprocs s)" for x
    using that f(3) rp by (cases "x = rp"; simp)+
  have "x \<in> set (qs ! q) \<longleftrightarrow> x \<notin> {rp} \<and> proc_is_runnable (kp (upd_kp rp f s) x) \<and>
      p_priority (kp (upd_kp rp f s) x) = q" if "q < NR_QUEUES" "x < length (kprocs s)" for q x
    using D(4) [OF that] k [OF that(2)] rp by (cases "x = rp") auto
  with Q D k show ?thesis
    unfolding ready_ok_def by simp
qed

lemma RTS_SET_ok:
  assumes R: "ready_ok s qs {}" and rp: "rp < length (kprocs s)"
  shows "\<exists>s' qs'. RTS_SET rp f s = Some s' \<and> ready_ok s' qs' {} \<and>
    no_links s' = no_links (upd_kp rp (\<lambda>p. p\<lparr>p_rts_flags := p_rts_flags p OR f\<rparr>) s) \<and>
    qs' = (if f \<noteq> 0 then qs[p_priority (kp s rp) := remove1 rp (qs ! p_priority (kp s rp))] else qs)"
proof -
  define t where "t = upd_kp rp (\<lambda>p. p\<lparr>p_rts_flags := p_rts_flags p OR f\<rparr>) s"
  define q where "q = p_priority (kp s rp)"
  have tr: "p_rts_flags (kp t rp) = p_rts_flags (kp s rp) OR f"
    using rp by (simp add: t_def)
  show ?thesis
  proof (cases "proc_is_runnable (kp s rp) \<and> f \<noteq> 0")
    case True
    then have "RTS_SET rp f s = dequeue rp t"
      using tr by (simp add: RTS_SET_def Let_def proc_is_runnable_def flip: t_def)
    with dequeue_ok [OF R rp, of f] True show ?thesis
      by (simp add: t_def q_def)
  next
    case False
    then have "RTS_SET rp f s = Some t"
      using tr by (auto simp: RTS_SET_def Let_def proc_is_runnable_def simp flip: t_def)
    moreover have "ready_ok t qs {}"
    proof (cases "f = 0")
      case True
      then have "t = s"
        using rp by (simp add: t_def upd_kp_def)
      with R show ?thesis by simp
    next
      case fn: False
      with False have "\<not> proc_is_runnable (kp s rp)" by simp
      moreover from this have "p_rts_flags (kp s rp) OR f \<noteq> 0"
        by (simp add: proc_is_runnable_def or_eq_0_iff)
      ultimately show ?thesis
        unfolding t_def using ready_okD(3) [OF R, of rp]
        by (intro ready_ok_blocked [OF R]) (simp_all add: proc_is_runnable_def)
    qed
    moreover have "remove1 rp (qs ! q) = qs ! q" if "f \<noteq> 0"
    proof -
      have "rp \<notin> set (qs ! q)"
        using False that ready_okD(3,4) [OF R] rp by (auto simp: q_def)
      then show ?thesis by (rule remove1_idem)
    qed
    ultimately show ?thesis
      unfolding t_def [symmetric] q_def [symmetric]
      by (intro exI [of _ t] exI [of _ qs]) simp
  qed
qed

lemma enqueue_ok:
  assumes R: "ready_ok s qs {rp}" and rp: "rp < length (kprocs s)" "proc_is_runnable (kp s rp)"
  defines "q \<equiv> p_priority (kp s rp)"
  defines "qs1 \<equiv> qs[q := qs ! q @ [rp]]"
  shows "\<exists>s' qs'. enqueue c rp s = Some s' \<and> ready_ok s' qs' {} \<and>
    (if p_priority (kp s (proc_ptr s)) > q \<and> s_flags (privof s (proc_ptr s)) AND PREEMPTIBLE c \<noteq> 0
     then no_links s' = no_links (upd_kp (proc_ptr s)
            (\<lambda>p. p\<lparr>p_rts_flags := p_rts_flags p OR RTS_PREEMPTED\<rparr>) s) \<and>
          qs' = qs1[p_priority (kp s (proc_ptr s)) := remove1 (proc_ptr s) (qs1 ! p_priority (kp s (proc_ptr s)))]
     else no_links s' = no_links s \<and> qs' = qs1)"
proof -
  note D = ready_okD [OF R]
  let ?cur = "proc_ptr s"
  have q: "q < NR_QUEUES" using D(3) rp by (simp add: q_def)
  have "rp \<notin> queued qs"
    using ready_ok_queued [OF R rp(1)] by simp
  then obtain s1 where s1: "link_tail q rp s = Some s1" "queues s1 qs1" "no_links s1 = no_links s"
    using rq.add_tail_rep [OF D(1) q rp(1)] by (auto simp: qs1_def)
  note N = no_links_eqD [OF s1(3)] no_links_fields [OF s1(3)]
  have R1: "ready_ok s1 qs1 {}"
  proof (rule ready_ok_transfer [OF s1(2,3)])
    fix r x assume rx: "r < NR_QUEUES" "x < length (kprocs s)"
    have "q < length qs" using queuesD [OF D(1) q] by simp
    then show "x \<in> set (qs1 ! r) \<longleftrightarrow> x \<notin> {} \<and> proc_is_runnable (kp s x) \<and> p_priority (kp s x) = r"
      using D(4) [OF rx] rx rp by (cases "r = q"; cases "x = rp") (auto simp: qs1_def q_def)
  qed (use D in auto)
  have cur: "?cur < length (kprocs s1)" "proc_ptr s1 = ?cur" "kprivs s1 = kprivs s"
    using D(2) N by simp_all
  have pre: "p_priority (kp s1 ?cur) = p_priority (kp s ?cur)" "p_priority (kp s1 rp) = q"
      "s_flags (privof s1 ?cur) = s_flags (privof s ?cur)"
    using N D(2) rp cur by (simp_all add: q_def privof_def)
  have E: "enqueue c rp s =
     (if p_priority (kp s ?cur) > q \<and> s_flags (privof s ?cur) AND PREEMPTIBLE c \<noteq> 0
      then RTS_SET ?cur RTS_PREEMPTED s1 else Some s1)"
    using rp(2) q s1(1) queuesD(4) [OF D(1) q] pre cur
    by (simp add: enqueue_def kassert_def Let_def flip: q_def)
  show ?thesis
  proof (cases "p_priority (kp s ?cur) > q \<and> s_flags (privof s ?cur) AND PREEMPTIBLE c \<noteq> 0")
    case False
    with E R1 s1(3) show ?thesis by auto
  next
    case True
    have nz: "RTS_PREEMPTED \<noteq> 0" by (simp add: RTS_PREEMPTED_def)
    obtain s' qs' where s': "RTS_SET ?cur RTS_PREEMPTED s1 = Some s'" "ready_ok s' qs' {}"
        "no_links s' = no_links (upd_kp ?cur (\<lambda>p. p\<lparr>p_rts_flags := p_rts_flags p OR RTS_PREEMPTED\<rparr>) s1)"
        "qs' = qs1[p_priority (kp s1 ?cur) := remove1 ?cur (qs1 ! p_priority (kp s1 ?cur))]"
      using RTS_SET_ok [OF R1 cur(1), of RTS_PREEMPTED] nz by auto
    have "no_links (upd_kp ?cur (\<lambda>p. p\<lparr>p_rts_flags := p_rts_flags p OR f\<rparr>) s1) =
        no_links (upd_kp ?cur (\<lambda>p. p\<lparr>p_rts_flags := p_rts_flags p OR f\<rparr>) s)" for f
      by (rule no_links_upd_flags [OF s1(3)])
    with E True s' pre show ?thesis by auto
  qed
qed

lemma enqueue_ok_length:
  assumes "ready_ok s qs {rp}" "rp < length (kprocs s)" "proc_is_runnable (kp s rp)"
  shows "\<exists>s' qs'. enqueue c rp s = Some s' \<and> ready_ok s' qs' {} \<and> length (kprocs s') = length (kprocs s)"
proof -
  obtain s' qs' where E: "enqueue c rp s = Some s'" "ready_ok s' qs' {}"
      and N: "no_links s' = no_links s \<or> (\<exists>f. no_links s' = no_links (upd_kp (proc_ptr s) f s))"
    using enqueue_ok [OF assms, of c] by meson
  from N have "length (kprocs s') = length (kprocs s)"
    by (auto dest: no_links_eqD(1))
  with E show ?thesis by blast
qed

text \<open>Clearing flags: the process joins the end of its queue exactly if it becomes runnable by it.\<close>

lemma RTS_UNSET_wakes:
  assumes R: "ready_ok s qs {}" and rp: "rp < length (kprocs s)" "\<not> proc_is_runnable (kp s rp)"
    and w: "p_rts_flags (kp s rp) AND NOT f = 0"
  defines "t \<equiv> upd_kp rp (\<lambda>p. p\<lparr>p_rts_flags := p_rts_flags p AND NOT f\<rparr>) s"
    and "q \<equiv> p_priority (kp s rp)"
  shows "RTS_UNSET c rp f s = enqueue c rp t \<and> ready_ok t qs {rp} \<and> proc_is_runnable (kp t rp) \<and>
    p_priority (kp t rp) = q \<and> rp < length (kprocs t)"
proof -
  have tr: "proc_is_runnable (kp t rp)"
    using rp w by (simp add: t_def proc_is_runnable_def)
  moreover have "ready_ok t qs {rp}"
    unfolding t_def using R rp w
    by (intro ready_ok_wake) (simp_all add: proc_is_runnable_def)
  ultimately show ?thesis
    using rp by (simp add: RTS_UNSET_def Let_def proc_is_runnable_def t_def q_def)
qed

lemma RTS_UNSET_stays:
  assumes R: "ready_ok s qs {}" and rp: "rp < length (kprocs s)"
    and w: "proc_is_runnable (kp s rp) \<or> p_rts_flags (kp s rp) AND NOT f \<noteq> 0"
  defines "t \<equiv> upd_kp rp (\<lambda>p. p\<lparr>p_rts_flags := p_rts_flags p AND NOT f\<rparr>) s"
  shows "RTS_UNSET c rp f s = Some t \<and> ready_ok t qs {}"
proof (cases "proc_is_runnable (kp s rp)")
  case True
  then have "(kprocs s)[rp := (kp s rp)\<lparr>p_rts_flags := p_rts_flags (kp s rp) AND NOT f\<rparr>] = kprocs s"
    using rp by (simp add: proc_is_runnable_def)
       (metis (no_types, lifting) kproc.surjective kproc.update_convs(3) list_update_id)
  then have "t = s" by (simp add: t_def upd_kp_def)
  moreover have "RTS_UNSET c rp f s = Some t"
    using True by (simp add: RTS_UNSET_def Let_def proc_is_runnable_def t_def)
  ultimately show ?thesis using R by simp
next
  case False
  with w have nz: "p_rts_flags (kp s rp) AND NOT f \<noteq> 0" by simp
  then have "ready_ok t qs {}"
    unfolding t_def using False ready_okD(3) [OF R, of rp]
    by (intro ready_ok_blocked [OF R]) (simp_all add: proc_is_runnable_def)
  moreover have "RTS_UNSET c rp f s = Some t"
    using nz rp by (simp add: RTS_UNSET_def Let_def proc_is_runnable_def t_def)
  ultimately show ?thesis by simp
qed

lemma RTS_UNSET_ok:
  assumes "ready_ok s qs {}" "rp < length (kprocs s)"
  shows "\<exists>s' qs'. RTS_UNSET c rp f s = Some s' \<and> ready_ok s' qs' {} \<and> length (kprocs s') = length (kprocs s)"
proof (cases "proc_is_runnable (kp s rp) \<or> p_rts_flags (kp s rp) AND NOT f \<noteq> 0")
  case True
  then show ?thesis using RTS_UNSET_stays [OF assms, of f c] by auto
next
  case False
  define t where "t = upd_kp rp (\<lambda>p. p\<lparr>p_rts_flags := p_rts_flags p AND NOT f\<rparr>) s"
  have "RTS_UNSET c rp f s = enqueue c rp t" "ready_ok t qs {rp}" "rp < length (kprocs t)"
      "proc_is_runnable (kp t rp)"
    unfolding t_def using RTS_UNSET_wakes [OF assms, of f c] False by blast+
  moreover have "length (kprocs t) = length (kprocs s)" by (simp add: t_def)
  ultimately show ?thesis using enqueue_ok_length [of t qs rp c] by simp
qed

subsection \<open>Scheduling a process\<close>

lemma NO_QUANTUM_simps:
  "RTS_NO_QUANTUM \<noteq> 0" "(0 OR RTS_NO_QUANTUM) AND NOT RTS_NO_QUANTUM = 0"
  by (simp_all add: RTS_NO_QUANTUM_def)

lemma remove1_all_queues:
  assumes "ready_ok s qs {}" "rp < length (kprocs s)" "q < NR_QUEUES"
  shows "qs[p_priority (kp s rp) := remove1 rp (qs ! p_priority (kp s rp))] ! q = remove1 rp (qs ! q)"
proof (cases "q = p_priority (kp s rp)")
  case True
  then show ?thesis using queuesD(6) [OF ready_okD(1) [OF assms(1)] assms(3)] by simp
next
  case False
  then have "rp \<notin> set (qs ! q)"
    using ready_okD(4) [OF assms(1,3,2)] by simp
  with False show ?thesis by (simp add: remove1_idem)
qed

lemma sched_proc_park:
  assumes R: "ready_ok s qs {}" and rp: "rp < length (kprocs s)"
  shows "\<exists>s1 qs1. (if proc_is_runnable (kp s rp) then RTS_SET rp RTS_NO_QUANTUM s else Some s) = Some s1 \<and>
    ready_ok s1 qs1 {} \<and> \<not> proc_is_runnable (kp s1 rp) \<and> length (kprocs s1) = length (kprocs s) \<and>
    (\<forall>q < NR_QUEUES. qs1 ! q = remove1 rp (qs ! q)) \<and>
    p_rts_flags (kp s1 rp) AND NOT RTS_NO_QUANTUM = p_rts_flags (kp s rp) AND NOT RTS_NO_QUANTUM \<and>
    proc_ptr s1 = proc_ptr s \<and> kprivs s1 = kprivs s"
proof (cases "proc_is_runnable (kp s rp)")
  case True
  obtain s1 qs1 where s1: "RTS_SET rp RTS_NO_QUANTUM s = Some s1" "ready_ok s1 qs1 {}"
      "no_links s1 = no_links (upd_kp rp (\<lambda>p. p\<lparr>p_rts_flags := p_rts_flags p OR RTS_NO_QUANTUM\<rparr>) s)"
      "qs1 = qs[p_priority (kp s rp) := remove1 rp (qs ! p_priority (kp s rp))]"
    using RTS_SET_ok [OF R rp, of RTS_NO_QUANTUM] NO_QUANTUM_simps(1) by auto
  note N = no_links_eqD [OF s1(3)] no_links_fields [OF s1(3)]
  have "p_rts_flags (kp s1 rp) = RTS_NO_QUANTUM"
    using N rp True by (simp add: proc_is_runnable_def)
  moreover have "\<forall>q < NR_QUEUES. qs1 ! q = remove1 rp (qs ! q)"
    using remove1_all_queues [OF R rp] s1(4) by simp
  ultimately show ?thesis
    using s1(1,2) N(1-3) True NO_QUANTUM_simps
    by (intro exI [of _ s1] exI [of _ qs1]) (simp add: proc_is_runnable_def)
next
  case False
  then have "remove1 rp (qs ! q) = qs ! q" if "q < NR_QUEUES" for q
    using ready_okD(4) [OF R that rp] by (simp add: remove1_idem)
  with False R show ?thesis
    by (intro exI [of _ s] exI [of _ qs]) simp
qed

lemma sched_proc_ok:
  assumes R: "ready_ok s qs {}" and rp: "rp < length (kprocs s)"
    and "unat priority < NR_QUEUES" "quantum \<noteq> 0"
  shows "\<exists>s' qs'. sched_proc c rp priority quantum s = Some (OK, s') \<and> ready_ok s' qs' {} \<and>
    length (kprocs s') = length (kprocs s) \<and> p_priority (kp s' rp) = unat priority \<and>
    (p_rts_flags (kp s rp) AND NOT RTS_NO_QUANTUM = 0 \<longrightarrow>
       qs' ! unat priority = remove1 rp (qs ! unat priority) @ [rp] \<and> p_rts_flags (kp s' rp) = 0)"
proof -
  let ?q = "unat priority"
  obtain s1 qs1 where s1: "(if proc_is_runnable (kp s rp) then RTS_SET rp RTS_NO_QUANTUM s else Some s) = Some s1"
      "ready_ok s1 qs1 {}" "\<not> proc_is_runnable (kp s1 rp)" "length (kprocs s1) = length (kprocs s)"
      "\<And>q. q < NR_QUEUES \<Longrightarrow> qs1 ! q = remove1 rp (qs ! q)"
      "p_rts_flags (kp s1 rp) AND NOT RTS_NO_QUANTUM = p_rts_flags (kp s rp) AND NOT RTS_NO_QUANTUM"
    using sched_proc_park [OF R rp] by blast
  define s2 where "s2 = upd_kp rp (\<lambda>p. p\<lparr>p_priority := ?q, p_quantum_size_ms := quantum,
      p_cpu_time_left := ms_2_cpu_time c quantum\<rparr>) s1"
  have R2: "ready_ok s2 qs1 {}"
    unfolding s2_def using s1(3) assms(3)
    by (intro ready_ok_blocked [OF s1(2)]) (simp_all add: proc_is_runnable_def)
  have rp2: "rp < length (kprocs s2)" "\<not> proc_is_runnable (kp s2 rp)" "p_priority (kp s2 rp) = ?q"
      "p_rts_flags (kp s2 rp) = p_rts_flags (kp s1 rp)"
    using rp s1 by (simp_all add: s2_def proc_is_runnable_def)
  have nat18: "\<not> priority > 18"
    using assms(3) by (simp add: word_less_nat_alt)
  have E: "sched_proc c rp priority quantum s = map_option (Pair OK) (RTS_UNSET c rp RTS_NO_QUANTUM s2)"
    using nat18 assms(4) s1(1) by (simp add: sched_proc_def s2_def)
  show ?thesis
  proof (cases "p_rts_flags (kp s rp) AND NOT RTS_NO_QUANTUM = 0")
    case False
    moreover have "length (kprocs s2) = length (kprocs s)" using s1(4) by (simp add: s2_def)
    ultimately show ?thesis
      using RTS_UNSET_stays [OF R2 rp2(1), of RTS_NO_QUANTUM c] E rp2 s1(6) by auto
  next
    case True
    define t where "t = upd_kp rp (\<lambda>p. p\<lparr>p_rts_flags := p_rts_flags p AND NOT RTS_NO_QUANTUM\<rparr>) s2"
    have W: "RTS_UNSET c rp RTS_NO_QUANTUM s2 = enqueue c rp t" "ready_ok t qs1 {rp}"
        "proc_is_runnable (kp t rp)" "p_priority (kp t rp) = ?q" "rp < length (kprocs t)"
      using RTS_UNSET_wakes [OF R2 rp2(1,2), of RTS_NO_QUANTUM c] True rp2 s1(6) by (simp_all add: t_def)
    let ?cur = "proc_ptr t" and ?qs2 = "qs1[?q := qs1 ! ?q @ [rp]]"
    let ?pre = "p_priority (kp t ?cur) > ?q \<and> s_flags (privof t ?cur) AND PREEMPTIBLE c \<noteq> 0"
    obtain s' qs' where s': "enqueue c rp t = Some s'" "ready_ok s' qs' {}"
        "if ?pre then no_links s' = no_links (upd_kp ?cur (\<lambda>p. p\<lparr>p_rts_flags := p_rts_flags p OR RTS_PREEMPTED\<rparr>) t) \<and>
            qs' = ?qs2[p_priority (kp t ?cur) := remove1 ?cur (?qs2 ! p_priority (kp t ?cur))]
         else no_links s' = no_links t \<and> qs' = ?qs2"
      using enqueue_ok [OF W(2,5,3), of c] W(4) by auto
    have lq: "?q < length qs1"
      using queuesD(6) [OF ready_okD(1) [OF R2] assms(3)] .
    have "qs' ! ?q = qs1 ! ?q @ [rp]"
      using s'(3) lq by (auto split: if_split_asm)
    moreover have "p_rts_flags (kp s' rp) = 0 \<and> p_priority (kp s' rp) = ?q"
    proof (cases ?pre)
      case True
      with W(4) have ne: "?cur \<noteq> rp" by auto
      from True s'(3) have "no_links s' = no_links (upd_kp ?cur (\<lambda>p. p\<lparr>p_rts_flags := p_rts_flags p OR RTS_PREEMPTED\<rparr>) t)"
        by simp
      from no_links_fields [OF this] no_links_eqD(1) [OF this] ne W show ?thesis
        by (simp add: proc_is_runnable_def)
    next
      case False
      with s'(3) have "no_links s' = no_links t" by auto
      from no_links_fields [OF this] no_links_eqD(1) [OF this] W show ?thesis
        by (simp add: proc_is_runnable_def)
    qed
    moreover have "length (kprocs s') = length (kprocs s)"
    proof -
      have "no_links s' = no_links t \<or> (\<exists>f. no_links s' = no_links (upd_kp ?cur f t))"
        using s'(3) by meson
      then have "length (kprocs s') = length (kprocs t)"
        by (auto dest: no_links_eqD(1))
      then show ?thesis using s1(4) by (simp add: t_def s2_def)
    qed
    ultimately show ?thesis
      using E W(1) s' s1(5) [OF assms(3)] by auto
  qed
qed

subsection \<open>The queue check of \<^verbatim>\<open>debug.c\<close>\<close>

text \<open>
  The inner loop of \<^verbatim>\<open>runqueues_ok\<close>: \<open>l\<close> counts the elements seen in all queues, \<open>found\<close> holds the slots whose
  \<^verbatim>\<open>p_found\<close> is set.  \<^const>\<open>None\<close> is a reported inconsistency.
\<close>

function check_queue ::
  "kstate \<Rightarrow> nat \<Rightarrow> nat option \<Rightarrow> nat \<Rightarrow> nat set \<Rightarrow> (nat \<times> nat set) option" where
  "check_queue s q None l found = Some (l, found)"
| "check_queue s q (Some xp) l found =
     (if xp \<ge> length (kprocs s) then None
      else if RTS_ISSET (kp s xp) RTS_SLOT_FREE then None
      else if \<not> proc_is_runnable (kp s xp) then None
      else if p_priority (kp s xp) \<noteq> q then None
      else if xp \<in> found then None
      else if p_nextready (kp s xp) = None \<and> rdy_tail s ! q \<noteq> Some xp then None
      else if l > length (kprocs s) then None
      else check_queue s q (p_nextready (kp s xp)) (Suc l) (insert xp found))"
  by pat_completeness auto

termination check_queue
  by (relation "measure (\<lambda>(s, q, x, l, f). Suc (length (kprocs s)) - l)") auto

fun check_queues :: "kstate \<Rightarrow> nat list \<Rightarrow> nat \<Rightarrow> nat set \<Rightarrow> nat set option" where
  "check_queues s [] l found = Some found"
| "check_queues s (q # qs) l found =
     (if rdy_head s ! q \<noteq> None \<and> rdy_tail s ! q = None then None
      else if rdy_head s ! q = None \<and> rdy_tail s ! q \<noteq> None then None
      else if (case rdy_tail s ! q of None \<Rightarrow> False | Some t \<Rightarrow> p_nextready (kp s t) \<noteq> None) then None
      else case check_queue s q (rdy_head s ! q) l found of
        None \<Rightarrow> None
      | Some (l', found') \<Rightarrow> check_queues s qs l' found')"

definition runqueues_ok :: "kstate \<Rightarrow> bool" where
  "runqueues_ok s \<longleftrightarrow>
     (case check_queues s [0 ..< NR_QUEUES] 0 {} of
        None \<Rightarrow> False
      | Some found \<Rightarrow>
          first_idx (\<lambda>x. \<not> isemptyp (kp s x) \<and> proc_is_runnable (kp s x) \<and> x \<notin> found)
            [0 ..< length (kprocs s)] = None)"

lemma check_queue_chain:
  assumes "chain (nxt s) p xs" "xs \<noteq> [] \<Longrightarrow> rdy_tail s ! q = Some (last xs)"
    and "set xs \<subseteq> {..< length (kprocs s)}" "\<And>x. x \<in> set xs \<Longrightarrow> p_rts_flags (kp s x) = 0 \<and> p_priority (kp s x) = q"
    and "set xs \<inter> found = {}" "l + length xs \<le> Suc (length (kprocs s))"
  shows "check_queue s q p l found = Some (l + length xs, found \<union> set xs)"
  using assms
proof (induction xs arbitrary: p l found)
  case (Cons x xs)
  have x: "p = Some x" "chain (nxt s) (nxt s x) xs" "x \<notin> set xs" "x < length (kprocs s)"
      "p_rts_flags (kp s x) = 0" "p_priority (kp s x) = q" "x \<notin> found"
    using Cons.prems chain_distinct [OF Cons.prems(1)] by auto
  have "check_queue s q (nxt s x) (Suc l) (insert x found) = Some (Suc l + length xs, insert x found \<union> set xs)"
    using Cons.prems x by (intro Cons.IH) auto
  moreover have "nxt s x = None \<Longrightarrow> rdy_tail s ! q = Some x"
    using Cons.prems(2) x(2) by (cases xs) auto
  moreover have "\<not> RTS_ISSET (kp s x) RTS_SLOT_FREE"
    using x(5) by (simp add: RTS_ISSET_def RTS_SLOT_FREE_def)
  ultimately show ?case
    using x Cons.prems(6) by (auto simp: nxt_def proc_is_runnable_def)
qed simp

lemma check_queues_ok:
  assumes R: "ready_ok s qs {}" and "m \<le> NR_QUEUES"
    and "found = (\<Union>q < m. set (qs ! q))" "l = card found"
  shows "check_queues s [m ..< NR_QUEUES] l found = Some (\<Union>q < NR_QUEUES. set (qs ! q))"
  using assms(2-)
proof (induction "NR_QUEUES - m" arbitrary: m l found)
  case (Suc k)
  note D = ready_okD [OF R]
  have m: "m < NR_QUEUES" using Suc.hyps(2) by simp
  note QD = queuesD [OF D(1) m]
  have sub: "found \<subseteq> {..< length (kprocs s)}" "finite found"
  proof -
    have "set (qs ! q) \<subseteq> {..< length (kprocs s)}" if "q < m" for q
      using queuesD(2) [OF D(1), of q] that m by simp
    then show "found \<subseteq> {..< length (kprocs s)}" using Suc.prems(2) by blast
  qed (simp add: Suc.prems(2))
  have dis: "set (qs ! m) \<inter> found = {}"
  proof -
    have "set (qs ! m) \<inter> set (qs ! q) = {}" if "q < m" for q
      using queues_disjoint [OF D(1) m, of q] that m by auto
    then show ?thesis using Suc.prems(2) by blast
  qed
  have "card (found \<union> set (qs ! m)) \<le> card {..< length (kprocs s)}"
    using sub QD(2) by (intro card_mono) auto
  moreover have cu: "card (found \<union> set (qs ! m)) = l + length (qs ! m)"
    using dis Suc.prems(3) distinct_card [OF QD(7)] sub by (subst card_Un_disjoint) auto
  ultimately have bound: "l + length (qs ! m) \<le> Suc (length (kprocs s))" by simp
  have "check_queue s m (rdy_head s ! m) l found = Some (l + length (qs ! m), found \<union> set (qs ! m))"
    using QD bound dis D(4) [OF m]
    by (intro check_queue_chain) (auto simp: proc_is_runnable_def)
  moreover have "rdy_head s ! m = None \<longleftrightarrow> rdy_tail s ! m = None"
    using QD(1,3) by (cases "qs ! m") auto
  moreover have "nxt s t = None" if "rdy_tail s ! m = Some t" for t
  proof -
    from that QD(3) have ne: "qs ! m \<noteq> []" "t = last (qs ! m)" by (auto split: if_split_asm)
    then have "qs ! m = butlast (qs ! m) @ [t]" by simp
    with QD(1) chain_next [of "nxt s" _ "butlast (qs ! m)" t "[]"] show ?thesis by simp
  qed
  moreover have "check_queues s [Suc m ..< NR_QUEUES] (l + length (qs ! m)) (found \<union> set (qs ! m)) =
      Some (\<Union>q < NR_QUEUES. set (qs ! q))"
    using Suc.hyps(2) m cu Suc.prems(2) by (intro Suc.hyps(1)) (auto simp: lessThan_Suc)
  moreover have "(case rdy_tail s ! m of None \<Rightarrow> False | Some t \<Rightarrow> p_nextready (kp s t) \<noteq> None) = False"
    if "\<And>t. rdy_tail s ! m = Some t \<Longrightarrow> nxt s t = None"
    using that by (cases "rdy_tail s ! m") (simp_all add: nxt_def)
  moreover have "[m ..< NR_QUEUES] = m # [Suc m ..< NR_QUEUES]"
    using m by (rule upt_conv_Cons)
  ultimately show ?case by simp
qed simp

lemma runqueues_ok_holds:
  assumes R: "ready_ok s qs {}" shows "runqueues_ok s"
proof -
  have "check_queues s [0 ..< NR_QUEUES] 0 {} = Some (\<Union>q < NR_QUEUES. set (qs ! q))"
    by (rule check_queues_ok [OF R]) auto
  then show ?thesis
    using ready_okD(3,4) [OF R] unfolding runqueues_ok_def
    by (simp add: first_idx_None_iff)
qed

subsection \<open>Choosing a process\<close>

lemma pick_from_spec:
  assumes R: "ready_ok s qs {}" and "set ql \<subseteq> {..< NR_QUEUES}"
  shows "pick_from c ql s =
    Some (case List.find (\<lambda>q. qs ! q \<noteq> []) ql of
            None \<Rightarrow> (None, s)
          | Some q \<Rightarrow> (Some (hd (qs ! q)),
              if s_flags (privof s (hd (qs ! q))) AND BILLABLE c \<noteq> 0 then s\<lparr>bill_ptr := hd (qs ! q)\<rparr> else s))"
  using assms(2)
proof (induction ql)
  case (Cons q ql)
  note D = ready_okD [OF R]
  have q: "q < NR_QUEUES" using Cons.prems by simp
  note QD = queuesD [OF D(1) q]
  show ?case
  proof (cases "qs ! q")
    case Nil
    with QD(1) Cons show ?thesis by simp
  next
    case (Cons x xs)
    with QD(1,2) have "rdy_head s ! q = Some x" "x < length (kprocs s)" by auto
    with Cons D(4) [OF q, of x] show ?thesis by (simp add: kassert_def)
  qed
qed simp

lemma pick_proc_spec:
  assumes R: "ready_ok s qs {}"
  shows "\<exists>r s'. pick_proc c s = Some (r, s') \<and> (s' = s \<or> (\<exists>p. s' = s\<lparr>bill_ptr := p\<rparr>)) \<and>
    (case r of
       None \<Rightarrow> \<forall>x < length (kprocs s). \<not> proc_is_runnable (kp s x)
     | Some p \<Rightarrow> p < length (kprocs s) \<and> proc_is_runnable (kp s p) \<and> qs ! p_priority (kp s p) \<noteq> [] \<and>
         p = hd (qs ! p_priority (kp s p)) \<and>
         (\<forall>x < length (kprocs s). proc_is_runnable (kp s x) \<longrightarrow> p_priority (kp s p) \<le> p_priority (kp s x)))"
proof (cases "List.find (\<lambda>q. qs ! q \<noteq> []) [0 ..< NR_QUEUES]")
  case None
  then have "qs ! q = []" if "q < NR_QUEUES" for q
    using that by (simp add: find_None_iff)
  then have "\<not> proc_is_runnable (kp s x)" if "x < length (kprocs s)" for x
    using ready_okD(3,4) [OF R] that by fastforce
  moreover have "pick_from c [0 ..< NR_QUEUES] s = Some (None, s)"
    using pick_from_spec [OF R, of "[0 ..< NR_QUEUES]" c] None by (simp add: atLeast0LessThan)
  ultimately show ?thesis
    by (simp add: pick_proc_def)
next
  case (Some q)
  then have q: "q < NR_QUEUES" "qs ! q \<noteq> []" "\<And>r. r < q \<Longrightarrow> qs ! r = []"
    by (auto simp: find_Some_iff)
  let ?p = "hd (qs ! q)"
  have p: "?p < length (kprocs s)" "proc_is_runnable (kp s ?p)" "p_priority (kp s ?p) = q"
    using queuesD(2) [OF ready_okD(1) [OF R] q(1)] ready_okD(4) [OF R q(1), of ?p] q(2)
    by (auto simp: subset_iff)
  have "q \<le> p_priority (kp s x)" if "x < length (kprocs s)" "proc_is_runnable (kp s x)" for x
    using ready_okD(3,4) [OF R] that q(3) [of "p_priority (kp s x)"] by (fastforce simp: not_le [symmetric])
  moreover have "pick_from c [0 ..< NR_QUEUES] s = Some (Some ?p,
      if s_flags (privof s ?p) AND BILLABLE c \<noteq> 0 then s\<lparr>bill_ptr := ?p\<rparr> else s)"
    using pick_from_spec [OF R, of "[0 ..< NR_QUEUES]" c] Some by (simp add: atLeast0LessThan)
  ultimately show ?thesis
    using p q(2) by (auto simp: pick_proc_def)
qed

text \<open>
  The scheduler runs the process that has waited longest in the best non-empty queue.  In a
  consistent state \<^verbatim>\<open>pick_proc\<close> returns a null pointer only if no process is runnable; otherwise it
  returns a runnable process whose priority no runnable process exceeds and which is the head of its
  queue, and it changes nothing but \<^verbatim>\<open>bill_ptr\<close>.
\<close>

theorem pick_proc_highest:
  assumes "ready_ok s qs {}"
  shows "\<exists>r s'. pick_proc c s = Some (r, s') \<and> (s' = s \<or> (\<exists>p. s' = s\<lparr>bill_ptr := p\<rparr>)) \<and>
    (case r of
       None \<Rightarrow> \<forall>x < length (kprocs s). \<not> proc_is_runnable (kp s x)
     | Some p \<Rightarrow> p < length (kprocs s) \<and> proc_is_runnable (kp s p) \<and> qs ! p_priority (kp s p) \<noteq> [] \<and>
         p = hd (qs ! p_priority (kp s p)) \<and>
         (\<forall>x < length (kprocs s). proc_is_runnable (kp s x) \<longrightarrow> p_priority (kp s p) \<le> p_priority (kp s x)))"
  by (rule pick_proc_spec [OF assms])

definition blocked_kproc :: "int \<Rightarrow> nat \<Rightarrow> kproc" where
  "blocked_kproc e q = \<lparr>p_nr = e, p_priv = 0, p_rts_flags = RTS_NO_QUANTUM, p_misc_flags = 0, p_priority = q,
     p_cpu_time_left = 9, p_quantum_size_ms = 200, p_scheduler = Some 0, p_nextready = None, p_caller_q = None,
     p_q_link = None, p_getfrom_e = 0, p_sendto_e = 0, p_pending = {}, p_endpoint = e,
     p_sendmsg = \<lparr>k_source = 0, k_type = 0, k_arg = {}, k_body = 0\<rparr>,
     p_delivermsg = \<lparr>k_source = 0, k_type = 0, k_arg = {}, k_body = 0\<rparr>, p_delivermsg_vir = 0,
     p_ipc_status = 0, p_retreg = OK\<rparr>"

definition demo_kcfg :: kcfg where
  "demo_kcfg = \<lparr>PREEMPTIBLE = 2, BILLABLE = 4, ms_2_cpu_time = (\<lambda>q. ucast q), k_ENDPOINT_P = id,
     k_NR_TASKS = 0, IDLE = 0, SCHEDCTL_FLAG_KERNEL = 1\<rparr>"

definition demo_priv :: kpriv where
  "demo_priv = \<lparr>s_proc_nr = 0, s_id = 0, s_flags = 2, s_asyntab = 0, s_asynsize = 0, s_trap_mask = 255,
     s_ipc_to = [[True, True, True, True]], s_sig_mgr = 0, s_bak_sig_mgr = 0,
     s_notify_pending = [[False, False, False, False]], s_int_pending = {}, s_sig_pending = {}\<rparr>"

definition demo_k :: kstate where
  "demo_k = \<lparr>kprocs = [blocked_kproc 0 16, blocked_kproc 1 16, blocked_kproc 2 7], kprivs = [demo_priv],
     rdy_head = replicate NR_QUEUES None, rdy_tail = replicate NR_QUEUES None, proc_ptr = 0, bill_ptr = 0\<rparr>"

lemma ready_ok_empty:
  assumes "rdy_head s = replicate NR_QUEUES None" "rdy_tail s = replicate NR_QUEUES None"
    and "proc_ptr s < length (kprocs s)"
    and "\<And>x. x < length (kprocs s) \<Longrightarrow> p_priority (kp s x) < NR_QUEUES \<and> \<not> proc_is_runnable (kp s x)"
  shows "ready_ok s (replicate NR_QUEUES []) {}"
  using assms unfolding ready_ok_def queues_def by simp

lemma demo_k_ok: "ready_ok demo_k (replicate NR_QUEUES []) {}"
  by (rule ready_ok_empty)
     (auto simp: demo_k_def blocked_kproc_def proc_is_runnable_def RTS_NO_QUANTUM_def less_Suc_eq)

definition demo_k1 :: kstate where
  "demo_k1 = the (RTS_UNSET demo_kcfg 2 RTS_NO_QUANTUM demo_k)"

lemma demo_k1_ok: "\<exists>qs. ready_ok demo_k1 qs {}"
proof -
  have "2 < length (kprocs demo_k)" by (simp add: demo_k_def)
  from RTS_UNSET_ok [OF demo_k_ok this, of demo_kcfg RTS_NO_QUANTUM] show ?thesis
    by (auto simp: demo_k1_def)
qed

lemma demo_k1_runnable: "proc_is_runnable (kp demo_k1 2)" "length (kprocs demo_k1) = 3"
  by code_simp+

theorem pick_proc_highest_witness:
  "\<exists>p s'. pick_proc demo_kcfg demo_k1 = Some (Some p, s') \<and> proc_is_runnable (kp demo_k1 p)"
proof -
  obtain qs where "ready_ok demo_k1 qs {}"
    using demo_k1_ok by blast
  from pick_proc_highest [OF this, of demo_kcfg] demo_k1_runnable show ?thesis
    by (force split: option.splits)
qed

lemma requeue_preempted_ok:
  assumes R: "ready_ok s qs {}"
  shows "\<exists>s' qs'. requeue_preempted c s = Some s' \<and> ready_ok s' qs' {} \<and> length (kprocs s') = length (kprocs s)"
proof -
  let ?p = "proc_ptr s"
  note D = ready_okD [OF R]
  define t where "t = upd_kp ?p (\<lambda>r. r\<lparr>p_rts_flags := p_rts_flags r AND NOT RTS_PREEMPTED\<rparr>) s"
  consider (no) "p_rts_flags (kp s ?p) AND RTS_PREEMPTED = 0"
    | (stays) "p_rts_flags (kp s ?p) AND RTS_PREEMPTED \<noteq> 0" "p_rts_flags (kp s ?p) AND NOT RTS_PREEMPTED \<noteq> 0"
    | (wakes) "p_rts_flags (kp s ?p) AND RTS_PREEMPTED \<noteq> 0" "p_rts_flags (kp s ?p) AND NOT RTS_PREEMPTED = 0"
    by blast
  then show ?thesis
  proof cases
    case no
    with R show ?thesis by (auto simp: requeue_preempted_def Let_def)
  next
    case stays
    then have "requeue_preempted c s = Some t"
      using D(2) by (simp add: requeue_preempted_def Let_def t_def proc_is_runnable_def)
    moreover have "ready_ok t qs {}"
      using RTS_UNSET_stays [OF R D(2), of RTS_PREEMPTED] stays by (simp add: t_def)
    ultimately show ?thesis by (auto simp: t_def)
  next
    case wakes
    then have nr: "\<not> proc_is_runnable (kp s ?p)" by (auto simp: proc_is_runnable_def)
    have lt: "length (kprocs t) = length (kprocs s)" by (simp add: t_def)
    have W: "ready_ok t qs {?p}" "proc_is_runnable (kp t ?p)" "?p < length (kprocs t)"
      unfolding t_def using RTS_UNSET_wakes [OF R D(2) nr wakes(2)] by blast+
    show ?thesis
    proof (cases "p_cpu_time_left (kp t ?p) = 0")
      case True
      then have "requeue_preempted c s = enqueue c ?p t"
        using wakes(1) W(2) by (simp add: requeue_preempted_def Let_def flip: t_def)
      with enqueue_ok_length [OF W(1,3,2), of c] lt show ?thesis by simp
    next
      case False
      let ?q = "p_priority (kp t ?p)"
      note DT = ready_okD [OF W(1)]
      have q: "?q < NR_QUEUES" using DT(3) W(3) by blast
      have "?p \<notin> queued qs"
        using ready_ok_queued [OF W(1,3)] by simp
      then have L: "queues (link_head ?q ?p t) (qs[?q := ?p # qs ! ?q])" "no_links (link_head ?q ?p t) = no_links t"
        using rq.add_head_rep [OF DT(1) q W(3)] by auto
      have lq: "?q < length qs" using queuesD(6) [OF DT(1) q] .
      have "ready_ok (link_head ?q ?p t) (qs[?q := ?p # qs ! ?q]) {}"
      proof (rule ready_ok_transfer [OF L])
        show "x \<in> set (qs[?q := ?p # qs ! ?q] ! r) \<longleftrightarrow> x \<notin> {} \<and> proc_is_runnable (kp t x) \<and> p_priority (kp t x) = r"
          if "r < NR_QUEUES" "x < length (kprocs t)" for r x
          using DT(4) [OF that] W(2) lq by (cases "r = ?q"; cases "x = ?p") auto
      qed (use DT in auto)
      moreover have "requeue_preempted c s = Some (link_head ?q ?p t)"
        using wakes(1) W(2) False q queuesD(4) [OF DT(1) q]
        by (simp add: requeue_preempted_def Let_def enqueue_head_def kassert_def flip: t_def)
      ultimately show ?thesis using no_links_eqD(1) [OF L(2)] lt by auto
    qed
  qed
qed

lemma nxt_other [simp]: "nxt (s\<lparr>bill_ptr := p\<rparr>) = nxt s" "nxt (s\<lparr>proc_ptr := p\<rparr>) = nxt s"
  by (simp_all add: nxt_def fun_eq_iff)

lemma ready_ok_bill [simp]: "ready_ok (s\<lparr>bill_ptr := p\<rparr>) qs X = ready_ok s qs X"
  by (simp add: ready_ok_def queues_def)

lemma ready_ok_current: "ready_ok s qs X \<Longrightarrow> p < length (kprocs s) \<Longrightarrow> ready_ok (s\<lparr>proc_ptr := p\<rparr>) qs X"
  by (simp add: ready_ok_def queues_def)

lemma ready_ok_idle:
  assumes "ready_ok s qs X" "slot c (IDLE c) < length (kprocs s)"
  shows "ready_ok (go_idle c s) qs X" "length (kprocs (go_idle c s)) = length (kprocs s)"
  using assms by (simp_all add: go_idle_def Let_def ready_ok_current)

lemma choose_next_ok:
  assumes R: "ready_ok s qs {}" and idle: "slot c (IDLE c) < length (kprocs s)"
  shows "\<exists>r s' qs'. choose_next c s = Some (r, s') \<and> ready_ok s' qs' {} \<and> length (kprocs s') = length (kprocs s)"
proof (cases "proc_is_runnable (kp s (proc_ptr s))")
  case True
  with R show ?thesis by (auto simp: choose_next_def)
next
  case False
  obtain s1 qs1 where s1: "requeue_preempted c s = Some s1" "ready_ok s1 qs1 {}"
      and len: "length (kprocs s1) = length (kprocs s)"
    using requeue_preempted_ok [OF R] by blast
  obtain r s2 where P: "pick_proc c s1 = Some (r, s2) \<and> (s2 = s1 \<or> (\<exists>p. s2 = s1\<lparr>bill_ptr := p\<rparr>))"
      and P3: "case r of None \<Rightarrow> \<forall>x < length (kprocs s1). \<not> proc_is_runnable (kp s1 x)
        | Some p \<Rightarrow> p < length (kprocs s1) \<and> proc_is_runnable (kp s1 p) \<and> qs1 ! p_priority (kp s1 p) \<noteq> [] \<and>
         p = hd (qs1 ! p_priority (kp s1 p)) \<and>
         (\<forall>x < length (kprocs s1). proc_is_runnable (kp s1 x) \<longrightarrow> p_priority (kp s1 p) \<le> p_priority (kp s1 x))"
    using pick_proc_spec [OF s1(2), of c] by blast
  have R2: "ready_ok s2 qs1 {}" and l2: "length (kprocs s2) = length (kprocs s1)"
    using P s1(2) by auto
  define s' where "s' = (case r of None \<Rightarrow> go_idle c s2 | Some p \<Rightarrow> s2\<lparr>proc_ptr := p\<rparr>)"
  have "ready_ok s' qs1 {} \<and> length (kprocs s') = length (kprocs s)"
  proof (cases r)
    case None
    then show ?thesis using ready_ok_idle [OF R2] idle l2 len by (simp add: s'_def)
  next
    case (Some p)
    with P3 have "p < length (kprocs s2)" by (simp add: l2)
    with Some R2 l2 len show ?thesis by (simp add: s'_def ready_ok_current)
  qed
  moreover have "choose_next c s = Some (r, s')"
    using s1(1) P False by (simp add: choose_next_def s'_def)
  ultimately show ?thesis by blast
qed

text \<open>The operations that change the queues, as one step function.\<close>

datatype kop =
    K_block nat "16 word" | K_wake nat "16 word" | K_schedule nat int "32 word" "32 word"
  | K_schedctl nat "32 word" int "32 word" "32 word" | K_switch

fun kop_ok :: "nat \<Rightarrow> kop \<Rightarrow> bool" where
  "kop_ok n (K_block p f) = (p < n)"
| "kop_ok n (K_wake p f) = (p < n)"
| "kop_ok n (K_schedule caller e q t) = (q \<noteq> 18)"
| "kop_ok n (K_schedctl caller fl e q t) = (q \<noteq> 18)"
| "kop_ok n K_switch = True"

definition kstep :: "kcfg \<Rightarrow> kstate \<Rightarrow> kop \<Rightarrow> kstate option" where
  "kstep c s op = (case op of
     K_block p f \<Rightarrow> RTS_SET p f s
   | K_wake p f \<Rightarrow> RTS_UNSET c p f s
   | K_schedule caller e q t \<Rightarrow> map_option snd (do_schedule c caller e q t s)
   | K_schedctl caller fl e q t \<Rightarrow> map_option snd (do_schedctl c caller fl e q t s)
   | K_switch \<Rightarrow> map_option snd (choose_next c s))"

lemma isokendpt_slot: "isokendpt c s e = Some p \<Longrightarrow> p < length (kprocs s) \<and> p_endpoint (kp s p) = e"
  by (auto simp: isokendpt_def Let_def isokprocn_def slot_def split: if_split_asm)

lemma sched_proc_total:
  assumes "ready_ok s qs {}" "rp < length (kprocs s)" "priority \<noteq> 18"
  shows "\<exists>r s' qs'. sched_proc c rp priority quantum s = Some (r, s') \<and> ready_ok s' qs' {} \<and>
    length (kprocs s') = length (kprocs s)"
proof (cases "priority > 18 \<or> quantum = 0")
  case True
  with assms show ?thesis by (auto simp: sched_proc_def)
next
  case False
  with assms(3) have "priority < 18" by (simp add: not_less order_le_less)
  then have "unat priority < NR_QUEUES" by (simp add: word_less_nat_alt)
  with sched_proc_ok [OF assms(1,2), of priority quantum c] False show ?thesis by blast
qed

lemma ready_ok_scheduler:
  "ready_ok s qs X \<Longrightarrow> ready_ok (upd_kp i (\<lambda>r. r\<lparr>p_scheduler := v\<rparr>) s) qs X"
  by (rule ready_ok_upd_same) simp_all

lemma RTS_SET_length:
  assumes "ready_ok s qs {}" "rp < length (kprocs s)"
  shows "\<exists>s' qs'. RTS_SET rp f s = Some s' \<and> ready_ok s' qs' {} \<and> length (kprocs s') = length (kprocs s)"
proof -
  obtain s' qs' where "RTS_SET rp f s = Some s'" "ready_ok s' qs' {}"
      "no_links s' = no_links (upd_kp rp (\<lambda>p. p\<lparr>p_rts_flags := p_rts_flags p OR f\<rparr>) s)"
    using RTS_SET_ok [OF assms, of f] by blast
  moreover from this(3) have "length (kprocs s') = length (kprocs s)"
    by (auto dest: no_links_eqD(1))
  ultimately show ?thesis by blast
qed

lemma do_schedctl_cases:
  assumes "isokendpt c s e = Some p" "sched_proc c p q t s = Some (r, s')"
  shows "do_schedctl c caller fl e q t s \<in> {Some (EINVAL, s), Some (EOTHER 1, s'),
    Some (OK, upd_kp p (\<lambda>r. r\<lparr>p_scheduler := None\<rparr>) s'),
    Some (OK, upd_kp p (\<lambda>r. r\<lparr>p_scheduler := Some caller\<rparr>) s)}"
  using assms by (simp add: do_schedctl_def)

lemma kstep_ok:
  assumes R: "ready_ok s qs {}" and ok: "kop_ok (length (kprocs s)) op"
    and idle: "slot c (IDLE c) < length (kprocs s)"
  shows "\<exists>s' qs'. kstep c s op = Some s' \<and> ready_ok s' qs' {} \<and> length (kprocs s') = length (kprocs s)"
proof (cases op)
  case (K_block p f)
  with ok RTS_SET_length [OF R, of p f] show ?thesis by (simp add: kstep_def)
next
  case (K_wake p f)
  with ok RTS_UNSET_ok [OF R, of p c f] show ?thesis by (simp add: kstep_def)
next
  case (K_schedule caller e q t)
  show ?thesis
  proof (cases "isokendpt c s e")
    case None
    with R K_schedule show ?thesis by (auto simp: kstep_def do_schedule_def)
  next
    case (Some p)
    with isokendpt_slot ok K_schedule have "p < length (kprocs s)" "q \<noteq> 18" by auto
    from sched_proc_total [OF R this, of c t] R K_schedule Some show ?thesis
      by (auto simp: kstep_def do_schedule_def)
  qed
next
  case (K_schedctl caller fl e q t)
  show ?thesis
  proof (cases "isokendpt c s e")
    case None
    with R K_schedctl show ?thesis by (auto simp: kstep_def do_schedctl_def)
  next
    case (Some p)
    with isokendpt_slot ok K_schedctl have "p < length (kprocs s)" "q \<noteq> 18" by auto
    then obtain r s' qs' where S: "sched_proc c p q t s = Some (r, s')" "ready_ok s' qs' {}"
        "length (kprocs s') = length (kprocs s)"
      using sched_proc_total [OF R, of p q c t] by blast
    have K: "ready_ok (upd_kp p (\<lambda>r. r\<lparr>p_scheduler := None\<rparr>) s') qs' {}"
      "ready_ok (upd_kp p (\<lambda>r. r\<lparr>p_scheduler := Some caller\<rparr>) s) qs {}"
      by (rule ready_ok_scheduler, fact)+
    have "kstep c s op = map_option snd (do_schedctl c caller fl e q t s)"
      by (simp add: kstep_def K_schedctl)
    moreover have "length (kprocs (upd_kp p g s')) = length (kprocs s)" for g
      using S(3) by simp
    ultimately show ?thesis
      using do_schedctl_cases [OF Some S(1), of caller fl] R S(2,3) K
      by (elim insertE emptyE) (simp_all, blast+)
  qed
next
  case K_switch
  with choose_next_ok [OF R idle] show ?thesis by (auto simp: kstep_def)
qed

text \<open>
  (C9) The ready queues do not break as long as nobody asks for queue number 18.  From a consistent state with the
  idle task in the table, any sequence of blocking and unblocking
  processes (with any flags), of schedule and schedctl kernel calls with any arguments but the queue
  number 18 (which the code lets pass although there is no such queue, see \<open>sched_proc_queue_18\<close> below), and of
  switches to another process or to the idle task runs to its end: no assertion fails, no
  null pointer is followed, no loop over a queue goes on forever.  Afterwards the queues again hold exactly the
  runnable processes, each once and in the queue of its priority, and the kernel's own check finds nothing.
\<close>

theorem ready_queues_consistent:
  assumes "ready_ok s qs {}" "list_all (kop_ok (length (kprocs s))) ops" "slot c (IDLE c) < length (kprocs s)"
  shows "\<exists>s' qs'. run_ops (kstep c) s ops = Some s' \<and> ready_ok s' qs' {} \<and> runqueues_ok s'"
  using assms
proof (induction ops arbitrary: s qs)
  case Nil
  then show ?case using runqueues_ok_holds by auto
next
  case (Cons op ops)
  obtain s1 qs1 where s1: "kstep c s op = Some s1" "ready_ok s1 qs1 {}" "length (kprocs s1) = length (kprocs s)"
    using kstep_ok [OF Cons.prems(1), of op c] Cons.prems(2,3) by auto
  with Cons.IH [OF s1(2)] Cons.prems(2,3) show ?case by simp
qed

theorem ready_queues_consistent_witness:
  "\<exists>s'. run_ops (kstep demo_kcfg) demo_k
     [K_wake 2 RTS_NO_QUANTUM, K_schedule 0 1 5 100, K_block 2 RTS_SENDING, K_switch] = Some s' \<and> runqueues_ok s'"
  using ready_queues_consistent [OF demo_k_ok,
      of "[K_wake 2 RTS_NO_QUANTUM, K_schedule 0 1 5 100, K_block 2 RTS_SENDING, K_switch]" demo_kcfg]
  by (auto simp: demo_k_def demo_kcfg_def slot_def)

text \<open>
  Round robin.  When its scheduler calls \<^verbatim>\<open>sys_schedule\<close> for a process that is blocked at most for want of
  quantum, with a queue below \<^verbatim>\<open>NR_SCHED_QUEUES\<close> and a positive quantum, the process becomes
  runnable, gets that priority, and stands at the end of that queue, behind everybody that was
  in it; it is in no other place of it.  The request of anybody but the scheduler of the process is refused
  with \<^verbatim>\<open>EPERM\<close> and changes nothing.
\<close>

theorem schedule_moves_to_end:
  assumes "ready_ok s qs {}" "isokendpt c s e = Some p"
    and "unat q < NR_QUEUES" "t \<noteq> 0" "p_rts_flags (kp s p) \<in> {0, RTS_NO_QUANTUM}"
  shows "(p_scheduler (kp s p) = Some caller \<longrightarrow>
      (\<exists>s' qs'. do_schedule c caller e q t s = Some (OK, s') \<and> ready_ok s' qs' {} \<and>
         qs' ! unat q = remove1 p (qs ! unat q) @ [p] \<and> p_priority (kp s' p) = unat q \<and>
         proc_is_runnable (kp s' p))) \<and>
    (p_scheduler (kp s p) \<noteq> Some caller \<longrightarrow> do_schedule c caller e q t s = Some (EPERM, s))"
proof -
  have "p < length (kprocs s)" using isokendpt_slot [OF assms(2)] by simp
  moreover have "p_rts_flags (kp s p) AND NOT RTS_NO_QUANTUM = 0"
    using assms(5) by (auto simp: RTS_NO_QUANTUM_def)
  ultimately show ?thesis
    using sched_proc_ok [OF assms(1) _ assms(3,4), of p c] assms(2)
    by (auto simp: do_schedule_def proc_is_runnable_def)
qed

theorem schedule_moves_to_end_witness:
  "\<exists>s' qs'. do_schedule demo_kcfg 0 1 7 50 demo_k = Some (OK, s') \<and> ready_ok s' qs' {} \<and> qs' ! 7 = [1]"
proof -
  have "isokendpt demo_kcfg demo_k 1 = Some 1" by code_simp
  from schedule_moves_to_end [OF demo_k_ok this, of 7 50 0] show ?thesis
    by (auto simp: demo_k_def blocked_kproc_def)
qed

text \<open>
  The bound of \<^verbatim>\<open>sched_proc\<close> is off by one: the queue number 18, for which there is no queue, passes its check, and
  for a process that is blocked at most for want of quantum the kernel then indexes \<^verbatim>\<open>rdy_head\<close> outside
  the array.  Every larger number, which includes the negative ones, is refused with \<^verbatim>\<open>EINVAL\<close>; but
  \<^verbatim>\<open>sys_schedctl\<close>, asked to let the kernel schedule the process, turns that error into the number 1.
\<close>

theorem sched_proc_queue_18:
  assumes "ready_ok s qs {}" "isokendpt c s e = Some p" "p_rts_flags (kp s p) \<in> {0, RTS_NO_QUANTUM}" "t \<noteq> 0"
  shows "sched_proc c p 18 t s = None \<and>
    (q > 18 \<longrightarrow> sched_proc c p q t s = Some (EINVAL, s) \<and>
       do_schedctl c caller (SCHEDCTL_FLAG_KERNEL c) e q t s = Some (EOTHER 1, s))"
proof -
  have p: "p < length (kprocs s)" using isokendpt_slot [OF assms(2)] by simp
  have fl: "p_rts_flags (kp s p) AND NOT RTS_NO_QUANTUM = 0"
    using assms(3) by (auto simp: RTS_NO_QUANTUM_def)
  obtain s1 qs1 where s1: "(if proc_is_runnable (kp s p) then RTS_SET p RTS_NO_QUANTUM s else Some s) = Some s1"
      "ready_ok s1 qs1 {}" "\<not> proc_is_runnable (kp s1 p)" "length (kprocs s1) = length (kprocs s)"
      "p_rts_flags (kp s1 p) AND NOT RTS_NO_QUANTUM = 0"
    using sched_proc_park [OF assms(1) p] fl by auto
  have "length (rdy_head s1) = NR_QUEUES"
    using ready_okD(1) [OF s1(2)] by (simp add: queues_def)
  then have "RTS_UNSET c p RTS_NO_QUANTUM (upd_kp p (\<lambda>r. r\<lparr>p_priority := unat (18 :: 32 word),
      p_quantum_size_ms := t, p_cpu_time_left := ms_2_cpu_time c t\<rparr>) s1) = None"
    using s1 p by (simp add: RTS_UNSET_def Let_def proc_is_runnable_def enqueue_def kassert_def)
  then have "sched_proc c p 18 t s = None"
    using s1(1) assms(4) by (simp add: sched_proc_def)
  moreover have "f AND NOT f = 0" for f :: "32 word" by simp
  ultimately show ?thesis
    using assms(2) by (simp add: sched_proc_def do_schedctl_def)
qed

theorem sched_proc_queue_18_witness:
  "sched_proc demo_kcfg 1 18 50 demo_k = None"
proof -
  have "isokendpt demo_kcfg demo_k 1 = Some 1" by code_simp
  from sched_proc_queue_18 [OF demo_k_ok this, of 50] show ?thesis
    by (auto simp: demo_k_def blocked_kproc_def)
qed

end
