(* ===== verification/SchedKernel.thy ===== *)
theory SchedKernel
  imports Sched ProcMan KProc
begin

text \<open>
  SCHED running on the kernel.  The scheduler's kernel calls, which its own theory leaves to a
  parameter, are answered here by the kernel's \<^verbatim>\<open>do_schedule\<close> and \<^verbatim>\<open>do_schedctl\<close> on the kernel's process
  table, so that one can follow a decision of SCHED, or a call that PM forwards to it, down to the ready
  queues.
\<close>

unbundle bit_operations_syntax

section \<open>Answering the calls\<close>

text \<open>One call of the process in slot \<open>caller\<close>.\<close>

definition kcall_step :: "kcfg \<Rightarrow> nat \<Rightarrow> kcall \<Rightarrow> kstate \<Rightarrow> (errno \<times> kstate) option" where
  "kcall_step kc caller call k =
     (case call of
        Sys_schedule e q t \<Rightarrow> do_schedule kc caller e q t k
      | Sys_schedctl fl e q t \<Rightarrow> do_schedctl kc caller fl e q t k)"

text \<open>The kernel after a sequence of calls; \<open>None\<close> when one of them stopped it.\<close>

definition kcalls :: "kcfg \<Rightarrow> nat \<Rightarrow> kstate \<Rightarrow> kcall list \<Rightarrow> kstate option" where
  "kcalls kc caller = run_ops (\<lambda>k call. map_option snd (kcall_step kc caller call k))"

text \<open>
  The scheduler's configuration when its calls from state \<open>s\<close> on meet the kernel in state \<open>k\<close>; a
  call that stops the kernel never answers, and the number returned for it does not matter.
\<close>

definition on_kernel :: "kcfg \<Rightarrow> nat \<Rightarrow> kstate \<Rightarrow> sched_state \<Rightarrow> sched_cfg \<Rightarrow> sched_cfg" where
  "on_kernel kc caller k s c = c\<lparr>kern := \<lambda>log call.
     (case kcalls kc caller k (drop (length (klog s)) log) of
        None \<Rightarrow> EOTHER 0
      | Some k' \<Rightarrow> (case kcall_step kc caller call k' of None \<Rightarrow> EOTHER 0 | Some (r, _) \<Rightarrow> r))\<rparr>"

definition kernel_after :: "kcfg \<Rightarrow> nat \<Rightarrow> kstate \<Rightarrow> sched_state \<Rightarrow> sched_state \<Rightarrow> kstate option" where
  "kernel_after kc caller k s s' = kcalls kc caller k (drop (length (klog s)) (klog s'))"

lemma on_kernel_simps [simp]:
  "ENDPOINT_P (on_kernel kc caller k s c) = ENDPOINT_P c"
  "sched_isokendpt (on_kernel kc caller k s c) t e = sched_isokendpt c t e"
  by (simp_all add: on_kernel_def sched_isokendpt_def)

lemma on_kernel_first:
  "kcall_step kc caller call k = Some (r, k') \<Longrightarrow>
     kern (on_kernel kc caller k s c) (klog s) call = r"
  by (simp add: on_kernel_def kcalls_def)

lemma kernel_after_one:
  "kcall_step kc caller call k = Some (r, k') \<Longrightarrow> klog s' = klog s @ [call] \<Longrightarrow>
     kernel_after kc caller k s s' = Some k'"
  by (simp add: kernel_after_def kcalls_def)

section \<open>A quantum is used up\<close>

definition next_queue :: "32 word \<Rightarrow> 32 word" where
  "next_queue q = (if q < MIN_USER_Q then q + 1 else q)"

lemma next_queue_bound: "q \<le> MIN_USER_Q \<Longrightarrow> unat (next_queue q) < NR_QUEUES"
proof -
  assume "q \<le> MIN_USER_Q"
  then have "unat q \<le> 17" by (simp add: word_le_nat_alt)
  then show ?thesis
    by (auto simp: next_queue_def word_less_nat_alt unat_word_ariths)
qed

text \<open>
  (C7) The promise that the kernel and SCHED keep together.  A process has used up its quantum, so that
  the kernel has taken it off the ready queues and SCHED receives its message.  When the two tables
  agree on the process, SCHED holds one of the 18 queues and a time slice for it, SCHED's one call
  makes the process ready again with a full quantum: at the end of the queue below its
  old one (or of the last queue), behind everybody there, and afterwards both tables hold that queue.
\<close>

theorem quantum_round_requeues:
  assumes "fst (sched_isokendpt c s (m_source m)) = OK" and "i = nat (ENDPOINT_P c (m_source m))"
    and "ready_ok k qs {}" "isokendpt kc k (m_source m) = Some p"
    and "p_scheduler (kp k p) = Some caller" "p_rts_flags (kp k p) = RTS_NO_QUANTUM"
    and "sp_priority (procs s ! i) \<le> MIN_USER_Q" "sp_time_slice (procs s ! i) \<noteq> 0"
    and "q = next_queue (sp_priority (procs s ! i))"
  shows "\<exists>s' k' qs'. do_noquantum (on_kernel kc caller k s c) m s = (OK, s') \<and>
           kernel_after kc caller k s s' = Some k' \<and> ready_ok k' qs' {} \<and>
           proc_is_runnable (kp k' p) \<and> qs' ! unat q = qs ! unat q @ [p] \<and>
           sp_priority (procs s' ! i) = q \<and> p_priority (kp k' p) = unat q"
proof -
  let ?e = "m_source m" and ?c = "on_kernel kc caller k s c"
  let ?call = "Sys_schedule ?e q (sp_time_slice (procs s ! i))"
  have p: "p < length (kprocs k)" using isokendpt_slot [OF assms(4)] by simp
  have q: "unat q < NR_QUEUES" unfolding assms(9) by (rule next_queue_bound [OF assms(7)])
  have "p_rts_flags (kp k p) AND NOT RTS_NO_QUANTUM = 0" using assms(6) by simp
  then obtain k' qs' where k': "sched_proc kc p q (sp_time_slice (procs s ! i)) k = Some (OK, k')"
      "ready_ok k' qs' {}" "p_priority (kp k' p) = unat q"
      "qs' ! unat q = remove1 p (qs ! unat q) @ [p]" "p_rts_flags (kp k' p) = 0"
    using sched_proc_ok [OF assms(3) p q assms(8)] by blast
  have "\<not> proc_is_runnable (kp k p)"
    using assms(6) by (simp add: proc_is_runnable_def RTS_NO_QUANTUM_def)
  then have fresh: "remove1 p (qs ! unat q) = qs ! unat q"
    using ready_okD(4) [OF assms(3) q p] by (simp add: remove1_idem)
  have call: "kcall_step kc caller ?call k = Some (OK, k')"
    using assms(4,5) k'(1) by (simp add: kcall_step_def do_schedule_def)
  have ok: "fst (sched_isokendpt ?c s ?e) = OK" using assms(1) by simp
  let ?s' = "s\<lparr>procs := (procs s)[i := (procs s ! i)\<lparr>sp_priority := q\<rparr>], klog := klog s @ [?call]\<rparr>"
  have "do_noquantum ?c m s = (kern ?c (klog s) ?call, ?s')"
    using noquantum_lowers_priority [OF ok] assms(2,9) by (simp add: Let_def next_queue_def)
  then have "do_noquantum ?c m s = (OK, ?s')" using on_kernel_first [OF call] by simp
  moreover have "kernel_after kc caller k s ?s' = Some k'" by (rule kernel_after_one [OF call]) simp
  moreover have "sp_priority (procs ?s' ! i) = q" using isok_slot [OF assms(1)] assms(2) by simp
  ultimately show ?thesis using k' fresh by (auto simp: proc_is_runnable_def)
qed

text \<open>Process 1 has used up its quantum in queue 16.\<close>

lemma demo_agree:
  "fst (sched_isokendpt demo_cfg (demo_state [demo_proc 0 16 20, demo_proc 1 q 30] 50) 1) = OK"
  "isokendpt demo_kcfg demo_k 1 = Some 1" "p_scheduler (kp demo_k 1) = Some 0"
  "p_rts_flags (kp demo_k 1) = RTS_NO_QUANTUM"
  by (simp_all add: demo_cfg_def demo_state_def demo_proc_def in_use_def sched_isokendpt_def Let_def
      isokendpt_def isokprocn_def slot_def demo_k_def demo_kcfg_def blocked_kproc_def isemptyp_def
      RTS_SLOT_FREE_def RTS_NO_QUANTUM_def)

theorem quantum_round_requeues_witness:
  "\<exists>s' k' qs'. do_noquantum (on_kernel demo_kcfg 0 demo_k
        (demo_state [demo_proc 0 16 20, demo_proc 1 16 30] 50) demo_cfg)
      (demo_msg 1 SCHEDULING_NO_QUANTUM 0 0) (demo_state [demo_proc 0 16 20, demo_proc 1 16 30] 50) = (OK, s') \<and>
    kernel_after demo_kcfg 0 demo_k (demo_state [demo_proc 0 16 20, demo_proc 1 16 30] 50) s' = Some k' \<and>
    ready_ok k' qs' {} \<and> qs' ! 17 = [1]"
proof -
  let ?s = "demo_state [demo_proc 0 16 20, demo_proc 1 16 30] 50"
  let ?m = "demo_msg 1 SCHEDULING_NO_QUANTUM 0 0"
  have "\<exists>s' k' qs'. do_noquantum (on_kernel demo_kcfg 0 demo_k ?s demo_cfg) ?m ?s = (OK, s') \<and>
      kernel_after demo_kcfg 0 demo_k ?s s' = Some k' \<and> ready_ok k' qs' {} \<and>
      proc_is_runnable (kp k' 1) \<and> qs' ! unat (17 :: 32 word) = replicate NR_QUEUES [] ! unat (17 :: 32 word) @ [1] \<and>
      sp_priority (procs s' ! 1) = 17 \<and> p_priority (kp k' 1) = unat (17 :: 32 word)"
    by (rule quantum_round_requeues [OF _ _ demo_k_ok])
       (use demo_agree in \<open>simp_all add: demo_msg_def demo_cfg_def demo_state_def demo_proc_def next_queue_def\<close>)
  then show ?thesis by auto
qed

section \<open>The winner who starves\<close>

text \<open>
  (C30) A fault between the lottery and the kernel.  A process that SCHED holds in queue 0 wins the
  lottery: SCHED lowers the unsigned number to \<open>2 ^ 32 - 1\<close> and asks for that queue, the kernel refuses
  and changes nothing, and SCHED ignores the answer.  Suppose that the process uses up its quantum while SCHED's table
  is still the one after the lottery; \<open>k2\<close> is the state of the kernel then.  The message about the quantum
  makes SCHED ask for the same queue again, the kernel refuses again and stays in the state \<open>k2\<close>, so that handling this
  message does not make the process runnable.  What later requests do, such as a new nice value, is not covered.
\<close>

theorem lottery_winner_refused:
  assumes "winner r s = Some i" "sp_priority (procs s ! i) = 0" "sp_endpoint (procs s ! i) = m_source m"
    and "nat (ENDPOINT_P c (m_source m)) = i" "0 \<le> ENDPOINT_P c (m_source m)"
    and "isokendpt kc k (m_source m) = Some p" "p_scheduler (kp k p) = Some caller"
    and "isokendpt kc k2 (m_source m) = Some p" "p_scheduler (kp k2 p) = Some caller"
    and "p_rts_flags (kp k2 p) = RTS_NO_QUANTUM"
  shows "\<exists>s' s''. do_lottery (on_kernel kc caller k s c) r s = Some s' \<and>
           sp_priority (procs s' ! i) = - 1 \<and> kernel_after kc caller k s s' = Some k \<and>
           do_noquantum (on_kernel kc caller k2 s' c) m s' = (EINVAL, s'') \<and>
           kernel_after kc caller k2 s' s'' = Some k2 \<and> \<not> proc_is_runnable (kp k2 p)"
proof -
  let ?e = "m_source m" and ?t = "sp_time_slice (procs s ! i)"
  let ?c = "on_kernel kc caller k s c"
  let ?call = "Sys_schedule ?e (- 1) ?t"
  have i: "i < length (procs s)" "in_use (procs s ! i)" using winner_in_use [OF assms(1)] by auto
  have big: "(18 :: 32 word) < - 1" 
    by (simp add: word_less_alt unsigned_minus_1_eq_mask mask_eq_exp_minus_1)
  have refused: "kcall_step kc caller ?call ks = Some (EINVAL, ks)"
    if "isokendpt kc ks ?e = Some p" "p_scheduler (kp ks p) = Some caller" for ks
    using that big by (simp add: kcall_step_def do_schedule_def sched_proc_def)
  define s1 where "s1 = upd_proc i (\<lambda>p. p\<lparr>sp_priority := sp_priority p - 1\<rparr>) s"
  define s' where "s' = snd (schedule_process ?c i s1)"
  have s1: "sp_priority (procs s1 ! i) = - 1" "sp_endpoint (procs s1 ! i) = ?e"
      "sp_time_slice (procs s1 ! i) = ?t" "in_use (procs s1 ! i)" "length (procs s1) = length (procs s)"
      "klog s1 = klog s"
    using i assms(2,3) by (simp_all add: s1_def)
  have s': "procs s' = procs s1" "klog s' = klog s @ [?call]"
    by (simp_all add: s'_def schedule_process_def kernel_call_def s1)
  have "do_lottery ?c r s = Some s'"
    using do_lottery_winner [OF assms(1)] by (simp add: s'_def s1_def)
  moreover have "kernel_after kc caller k s s' = Some k"
    by (rule kernel_after_one [OF refused [OF assms(6,7)] s'(2)])
  moreover have "\<exists>s''. do_noquantum (on_kernel kc caller k2 s' c) m s' = (EINVAL, s'') \<and>
      kernel_after kc caller k2 s' s'' = Some k2"
  proof -
    let ?c2 = "on_kernel kc caller k2 s' c"
    have ok: "fst (sched_isokendpt ?c2 s' ?e) = OK"
      using i s1 s' assms(4,5) by (auto simp: sched_isokendpt_def Let_def)
    have top: "\<not> (- 1 :: 32 word) < MIN_USER_Q"
      by (simp add: word_less_alt unsigned_minus_1_eq_mask mask_eq_exp_minus_1)
    have same: "(procs s1 ! i)\<lparr>sp_priority := - 1\<rparr> = procs s1 ! i"
      using s1(1) by (cases "procs s1 ! i") simp
    have "do_noquantum ?c2 m s' =
        (kern ?c2 (klog s') ?call,
         s'\<lparr>procs := (procs s')[i := procs s' ! i], klog := klog s' @ [?call]\<rparr>)"
      using noquantum_lowers_priority [OF ok] assms(4) s1 s' top same by (simp add: Let_def)
    then show ?thesis
      using on_kernel_first [OF refused [OF assms(8,9)]]
        kernel_after_one [OF refused [OF assms(8,9)], of _ s'] by auto
  qed
  moreover have "\<not> proc_is_runnable (kp k2 p)"
    using assms(10) by (simp add: proc_is_runnable_def RTS_NO_QUANTUM_def)
  ultimately show ?thesis using s1(1) s'(1) by auto
qed

theorem lottery_winner_refused_witness:
  "\<exists>s' s''. do_lottery (on_kernel demo_kcfg 0 demo_k
        (demo_state [demo_proc 0 16 20, demo_proc 1 0 30] 50) demo_cfg) 30
      (demo_state [demo_proc 0 16 20, demo_proc 1 0 30] 50) = Some s' \<and>
    do_noquantum (on_kernel demo_kcfg 0 demo_k s' demo_cfg) (demo_msg 1 SCHEDULING_NO_QUANTUM 0 0) s' = (EINVAL, s'')"
proof -
  let ?s = "demo_state [demo_proc 0 16 20, demo_proc 1 0 30] 50"
  let ?m = "demo_msg 1 SCHEDULING_NO_QUANTUM 0 0"
  have w: "winner 30 ?s = Some 1"
    by (subst winner_iff)
       (simp_all add: demo_state_def demo_proc_def in_use_def tickets_of_def take_Cons')
  show ?thesis
    using lottery_winner_refused [OF w, of ?m demo_cfg demo_kcfg demo_k 1 0 demo_k] demo_agree
    by (auto simp: demo_msg_def demo_cfg_def demo_state_def demo_proc_def)
qed

section \<open>From \<^verbatim>\<open>setpriority\<close> to the ready queues\<close>

text \<open>The message that PM sends for a new nice value.\<close>

definition nice_msg :: "sched_cfg \<Rightarrow> int \<Rightarrow> int \<Rightarrow> sched_msg" where
  "nice_msg sc e n =
     \<lparr>m_source = PM_PROC_NR sc, m_type = SCHEDULING_SET_NICE, SCHEDULING_ENDPOINT = e,
      SCHEDULING_PARENT = 0, SCHEDULING_MAXPRIO = n, SCHEDULING_QUANTUM = 0, SCHEDULING_SCHEDULER = 0\<rparr>"

text \<open>PM's configuration when SCHED, in state \<open>s\<close> and on the kernel \<open>k\<close>, answers these messages.\<close>

definition on_sched ::
    "sched_cfg \<Rightarrow> kcfg \<Rightarrow> nat \<Rightarrow> kstate \<Rightarrow> sched_state \<Rightarrow> pm_cfg \<Rightarrow> pm_cfg" where
  "on_sched sc kc caller k s c = c\<lparr>answer := \<lambda>log req.
     (case req of
        Sched_set_nice _ e n \<Rightarrow> fst (do_nice (on_kernel kc caller k s sc) (nice_msg sc e n) s)
      | _ \<Rightarrow> answer c log req)\<rparr>"

lemma nice_to_priority_on_sched [simp]:
  "nice_to_priority (on_sched sc kc caller k s c) n = nice_to_priority c n"
  "KERNEL (on_sched sc kc caller k s c) = KERNEL c" "NONE (on_sched sc kc caller k s c) = NONE c"
  "answer (on_sched sc kc caller k s c) log (Sched_set_nice sch e n) =
     fst (do_nice (on_kernel kc caller k s sc) (nice_msg sc e n) s)"
  by (simp_all add: on_sched_def nice_to_priority_def)

text \<open>A new nice value in SCHED, on the kernel.\<close>

lemma do_nice_on_kernel:
  assumes ok: "fst (sched_isokendpt sc s e) = OK" and n: "0 \<le> n" "n < NR_SCHED_QUEUES"
    and t: "1 \<le> unat (sp_tickets (procs s ! nat (ENDPOINT_P sc e)))"
      "unat (sp_tickets (procs s ! nat (ENDPOINT_P sc e))) \<le> 100"
      "sp_time_slice (procs s ! nat (ENDPOINT_P sc e)) \<noteq> 0"
    and k: "ready_ok k qs {}" "isokendpt kc k e = Some p" "p_scheduler (kp k p) = Some caller"
  shows "\<exists>s' k' qs'. do_nice (on_kernel kc caller k s sc) (nice_msg sc e n) s = (OK, s') \<and>
           kernel_after kc caller k s s' = Some k' \<and> ready_ok k' qs' {} \<and>
           sp_priority (procs s' ! nat (ENDPOINT_P sc e)) = word_of_int n \<and> p_priority (kp k' p) = nat n"
proof -
  let ?c = "on_kernel kc caller k s sc" and ?m = "nice_msg sc e n"
  let ?q = "word_of_int n :: 32 word" and ?t = "sp_time_slice (procs s ! nat (ENDPOINT_P sc e))"
  have q: "unat ?q = nat n"
    using n unat_of_nat_small [of "nat n"] by simp
  have qb: "unat ?q < NR_QUEUES" using q n by (simp add: nat_less_iff)
  have p: "p < length (kprocs k)" using isokendpt_slot [OF k(2)] by simp
  obtain k' qs' where k': "sched_proc kc p ?q ?t k = Some (OK, k')" "ready_ok k' qs' {}"
      "p_priority (kp k' p) = unat ?q"
    using sched_proc_ok [OF k(1) p qb t(3), of kc] by blast
  have call: "kcall_step kc caller (Sys_schedule e ?q ?t) k = Some (OK, k')"
    using k(2,3) k'(1) by (simp add: kcall_step_def do_schedule_def)
  have m: "SCHEDULING_ENDPOINT ?m = e" "SCHEDULING_MAXPRIO ?m = n" "accept_message ?c ?m"
    by (simp_all add: nice_msg_def accept_message_def on_kernel_def)
  let ?s' = "snd (do_nice ?c ?m s)"
  have eff: "fst (do_nice ?c ?m s) = kern ?c (klog s) (Sys_schedule e ?q ?t)"
      "klog ?s' = klog s @ [Sys_schedule e ?q ?t]"
      "fst (do_nice ?c ?m s) = OK \<longrightarrow> sp_priority (procs ?s' ! nat (ENDPOINT_P sc e)) = ?q"
    using do_nice_effect [OF m(3), of s] ok n t(1,2) by (simp_all add: m Let_def)
  have r: "fst (do_nice ?c ?m s) = OK" using eff(1) on_kernel_first [OF call] by simp
  moreover have "kernel_after kc caller k s ?s' = Some k'" by (rule kernel_after_one [OF call eff(2)])
  moreover have "do_nice ?c ?m s = (OK, ?s')" using r by (metis prod.collapse)
  ultimately show ?thesis using k' q eff(3) by auto
qed

text \<open>
  (C29) A call that crosses PM, SCHED and the kernel.  A process in SCHED's care calls
  \<^verbatim>\<open>setpriority(PRIO_PROCESS, 0, n)\<close> with \<open>n\<close> between its current nice value and 17; it needs no privilege.
  PM computes the user queue 16 or 17 for it and throws it away; SCHED takes \<open>n\<close> itself as the queue
  and the kernel accepts.  All three agree in the end, the call succeeds, and an ordinary process
  with the default nice value 0 has been moved to queue 0, above every driver and server.
\<close>

theorem setpriority_reaches_any_queue:
  assumes "me < length (mprocs pm)" "mp_scheduler (mprocs pm ! me) \<notin> {KERNEL c, NONE c}"
    and "mp_nice (mprocs pm ! me) \<le> n" "nice_to_priority c n = Some user_queue"
    and "mp_endpoint (mprocs pm ! me) = e" "0 \<le> n" "n < NR_SCHED_QUEUES"
    and "fst (sched_isokendpt sc s e) = OK" "sp = procs s ! nat (ENDPOINT_P sc e)"
    and "1 \<le> unat (sp_tickets sp)" "unat (sp_tickets sp) \<le> 100" "sp_time_slice sp \<noteq> 0"
    and "ready_ok k qs {}" "isokendpt kc k e = Some p" "p_scheduler (kp k p) = Some caller"
  shows "16 \<le> user_queue \<and>
    (\<exists>pm' s' k' qs'.
       do_getsetpriority (on_sched sc kc caller k s c) me False True 0 n pm = Some (Inr 0, pm') \<and>
       mp_nice (mprocs pm' ! me) = n \<and>
       do_nice (on_kernel kc caller k s sc) (nice_msg sc e n) s = (OK, s') \<and>
       kernel_after kc caller k s s' = Some k' \<and> ready_ok k' qs' {} \<and>
       sp_priority (procs s' ! nat (ENDPOINT_P sc e)) = word_of_int n \<and> p_priority (kp k' p) = nat n)"
proof -
  let ?c = "on_sched sc kc caller k s c"
  obtain s' k' qs' where d: "do_nice (on_kernel kc caller k s sc) (nice_msg sc e n) s = (OK, s')"
      "kernel_after kc caller k s s' = Some k'" "ready_ok k' qs' {}"
      "sp_priority (procs s' ! nat (ENDPOINT_P sc e)) = word_of_int n" "p_priority (kp k' p) = nat n"
    using do_nice_on_kernel [OF assms(8,6,7) _ _ _ assms(13-15)] assms(9-12) by blast
  have "do_getsetpriority ?c me False True 0 n pm =
      Some (Inr 0, upd_mp me (\<lambda>p. p\<lparr>mp_nice := n\<rparr>)
        (pm\<lparr>pm_log := pm_log pm @ [Sched_set_nice (mp_scheduler (mprocs pm ! me)) e n]\<rparr>))"
    using setpriority_sends_raw_nice [of me pm ?c n user_queue] assms(1-5) d(1) by (simp add: Let_def)
  then show ?thesis
    using d assms(1) nice_to_priority_range [OF assms(4)] by (auto simp: upd_mp_def)
qed

theorem setpriority_reaches_any_queue_witness:
  "\<exists>pm'. do_getsetpriority (on_sched demo_cfg demo_kcfg 0 demo_k
       (demo_state [demo_proc 0 16 20, demo_proc 1 16 30] 50) demo_pm_cfg) 1 False True 0 0 demo_pm =
     Some (Inr 0, pm') \<and> mp_nice (mprocs pm' ! 1) = 0"
proof -
  let ?s = "demo_state [demo_proc 0 16 20, demo_proc 1 16 30] 50"
  have q: "nice_to_priority demo_pm_cfg 0 = Some 16" by code_simp
  have "16 \<le> (16 :: 32 word) \<and> (\<exists>pm' s' k' qs'.
       do_getsetpriority (on_sched demo_cfg demo_kcfg 0 demo_k ?s demo_pm_cfg) 1 False True 0 0 demo_pm =
         Some (Inr 0, pm') \<and> mp_nice (mprocs pm' ! 1) = 0 \<and>
       do_nice (on_kernel demo_kcfg 0 demo_k ?s demo_cfg) (nice_msg demo_cfg 1 0) ?s = (OK, s') \<and>
       kernel_after demo_kcfg 0 demo_k ?s s' = Some k' \<and> ready_ok k' qs' {} \<and>
       sp_priority (procs s' ! nat (ENDPOINT_P demo_cfg 1)) = word_of_int 0 \<and> p_priority (kp k' 1) = nat 0)"
    by (rule setpriority_reaches_any_queue [OF _ _ _ q _ _ _ demo_agree(1) refl _ _ _ demo_k_ok demo_agree(2,3)])
       (simp_all add: demo_pm_defs demo_cfg_def demo_state_def demo_proc_def)
  then show ?thesis by blast
qed

end
