(* ===== verification/KIpc.thy ===== *)
theory KIpc
  imports KProc "HOL-Library.Monad_Syntax"
begin

text \<open>
  Message passing of the kernel: \<^verbatim>\<open>src/Project_2/kernel/proc.c\<close> (\<^verbatim>\<open>do_ipc\<close>, \<^verbatim>\<open>do_sync_ipc\<close>, \<^verbatim>\<open>deadlock\<close>,
  \<^verbatim>\<open>mini_send\<close>, \<^verbatim>\<open>mini_receive\<close>, \<^verbatim>\<open>mini_notify\<close>, \<^verbatim>\<open>mini_senda\<close>, \<^verbatim>\<open>try_async\<close>, \<^verbatim>\<open>try_one\<close>, \<^verbatim>\<open>notify_scheduler\<close>,
  \<^verbatim>\<open>proc_no_time\<close>), the macros of \<^verbatim>\<open>ipc.h\<close>, and of \<^verbatim>\<open>system.c\<close> the signals to system processes and the
  cleaning of a process that goes away (\<^verbatim>\<open>clear_ipc\<close>, \<^verbatim>\<open>clear_endpoint\<close>, \<^verbatim>\<open>clear_ipc_refs\<close>).

  The state is the kernel state of \<^verbatim>\<open>KProc\<close> and the tables of asynchronous messages in the memory of the
  senders.  As there, \<^const>\<open>None\<close> is a failed assertion, a panic, an access outside the process table, or a
  loop that does not end.  Copies of single messages from a user buffer are a parameter, and so are the
  outcomes of the copies that write results and flags back into a table of asynchronous messages
  (\<^verbatim>\<open>A_INSERT\<close>): \<open>put_result\<close> and \<open>put_flags\<close> say whether the copy to an entry of a process succeeds, and
  \<open>entry_msg\<close> whether \<^verbatim>\<open>mini_senda\<close> can read the message of an entry.
\<close>

unbundle bit_operations_syntax

subsection \<open>Flags, parameters and state\<close>

definition MF_REPLY_PEND :: "16 word" where "MF_REPLY_PEND = 0x001"
definition MF_ASYNMSG :: "16 word" where "MF_ASYNMSG = 0x010"
definition MF_DELIVERMSG :: "16 word" where "MF_DELIVERMSG = 0x040"
definition MF_SIG_DELAY :: "16 word" where "MF_SIG_DELAY = 0x080"
definition MF_SC_ACTIVE :: "16 word" where "MF_SC_ACTIVE = 0x100"
definition MF_SC_DEFER :: "16 word" where "MF_SC_DEFER = 0x200"
definition MF_SC_TRACE :: "16 word" where "MF_SC_TRACE = 0x400"
definition MF_SENDING_FROM_KERNEL :: "16 word" where "MF_SENDING_FROM_KERNEL = 0x2000"

lemmas MF_defs = MF_REPLY_PEND_def MF_ASYNMSG_def MF_DELIVERMSG_def MF_SIG_DELAY_def MF_SC_ACTIVE_def
  MF_SC_DEFER_def MF_SC_TRACE_def MF_SENDING_FROM_KERNEL_def

definition NON_BLOCKING :: "16 word" where "NON_BLOCKING = 0x0080"
definition FROM_KERNEL :: "16 word" where "FROM_KERNEL = 0x0100"

record asynmsg =
  a_flags :: "32 word"
  a_dst :: int
  a_result :: errno
  a_msg :: kmessage

record icfg =
  kc :: kcfg
  ANY :: int
  i_NONE :: int
  SELF :: int
  SEND :: nat
  RECEIVE :: nat
  SENDREC :: nat
  NOTIFY :: nat
  SENDNB :: nat
  SENDA :: nat
  IPCNO_HIGHEST :: int
  named_call :: "nat \<Rightarrow> bool"
  HARDWARE :: int
  SYSTEM :: int
  NOTIFY_FROM :: "int \<Rightarrow> int"
  i_NO_QUANTUM_type :: int
  get_uptime :: "kstate \<Rightarrow> nat"
  STATUS_CALL_TO :: "nat \<Rightarrow> 32 word"
  STATUS_FROM_KERNEL :: "32 word"
  BITCHUNK_BITS :: nat
  NR_SYS_PROCS :: nat
  USER_PRIV_ID :: nat
  SYS_PROC :: "16 word"
  AMF_VALID :: "32 word"
  AMF_DONE :: "32 word"
  AMF_NOTIFY :: "32 word"
  AMF_NOREPLY :: "32 word"
  SIGKSIG :: int
  SIGKSIGSM :: int
  SIGSNDELAY :: int
  SIGTRAP :: int
  SIGS_IS_LETHAL :: "int \<Rightarrow> bool"
  user_msg :: "nat \<Rightarrow> nat \<Rightarrow> kmessage option"
  entry_msg :: "nat \<Rightarrow> nat \<Rightarrow> nat \<Rightarrow> bool"
  put_result :: "nat \<Rightarrow> nat \<Rightarrow> nat \<Rightarrow> bool"
  put_flags :: "nat \<Rightarrow> nat \<Rightarrow> nat \<Rightarrow> bool"

record istate =
  ks :: kstate
  utab :: "nat \<Rightarrow> nat \<Rightarrow> nat \<Rightarrow> asynmsg option"   \<comment> \<open>process, table address, entry\<close>

datatype mptr = Uaddr nat | Kmsg kmessage

abbreviation ip :: "istate \<Rightarrow> nat \<Rightarrow> kproc" where
  "ip s i \<equiv> kp (ks s) i"

definition lift_k :: "(kstate \<Rightarrow> kstate option) \<Rightarrow> istate \<Rightarrow> istate option" where
  "lift_k f s = map_option (\<lambda>k. s\<lparr>ks := k\<rparr>) (f (ks s))"

definition upd_ip :: "nat \<Rightarrow> (kproc \<Rightarrow> kproc) \<Rightarrow> istate \<Rightarrow> istate" where
  "upd_ip i f s = s\<lparr>ks := upd_kp i f (ks s)\<rparr>"

definition upd_priv :: "nat \<Rightarrow> (kpriv \<Rightarrow> kpriv) \<Rightarrow> istate \<Rightarrow> istate" where
  "upd_priv i f s = s\<lparr>ks := (ks s)\<lparr>kprivs := (kprivs (ks s))[i := f (kprivs (ks s) ! i)]\<rparr>\<rparr>"

definition mf :: "kproc \<Rightarrow> 16 word \<Rightarrow> bool" where
  "mf p f \<longleftrightarrow> p_misc_flags p AND f \<noteq> 0"

definition set_mf :: "16 word \<Rightarrow> kproc \<Rightarrow> kproc" where
  "set_mf f p = p\<lparr>p_misc_flags := p_misc_flags p OR f\<rparr>"

definition clear_mf :: "16 word \<Rightarrow> kproc \<Rightarrow> kproc" where
  "clear_mf f p = p\<lparr>p_misc_flags := p_misc_flags p AND NOT f\<rparr>"

definition SET_RTS :: "nat \<Rightarrow> 16 word \<Rightarrow> istate \<Rightarrow> istate option" where
  "SET_RTS p f = lift_k (RTS_SET p f)"

definition UNSET_RTS :: "icfg \<Rightarrow> nat \<Rightarrow> 16 word \<Rightarrow> istate \<Rightarrow> istate option" where
  "UNSET_RTS c p f = lift_k (RTS_UNSET (kc c) p f)"

subsection \<open>Macros of \<^verbatim>\<open>ipc.h\<close>, \<^verbatim>\<open>priv.h\<close> and \<^verbatim>\<open>const.h\<close>\<close>

definition WILLRECEIVE :: "icfg \<Rightarrow> kproc \<Rightarrow> int \<Rightarrow> bool" where
  "WILLRECEIVE c target source_ep \<longleftrightarrow>
     RTS_ISSET target RTS_RECEIVING \<and> \<not> RTS_ISSET target RTS_SENDING \<and>
     (p_getfrom_e target = ANY c \<or> p_getfrom_e target = source_ep)"

definition IPC_STATUS_ADD :: "32 word \<Rightarrow> kproc \<Rightarrow> kproc" where
  "IPC_STATUS_ADD m p = (if \<not> mf p MF_REPLY_PEND then p\<lparr>p_ipc_status := p_ipc_status p OR m\<rparr> else p)"

definition P_BLOCKEDON :: "icfg \<Rightarrow> kproc \<Rightarrow> int" where
  "P_BLOCKEDON c p =
     (if p_rts_flags p AND RTS_SENDING \<noteq> 0 then p_sendto_e p
      else if p_rts_flags p AND RTS_RECEIVING \<noteq> 0 then p_getfrom_e p
      else i_NONE c)"

definition get_sys_bit :: "icfg \<Rightarrow> bool list list \<Rightarrow> nat \<Rightarrow> bool" where
  "get_sys_bit c m b = m ! (b div BITCHUNK_BITS c) ! (b mod BITCHUNK_BITS c)"

definition put_sys_bit :: "icfg \<Rightarrow> bool \<Rightarrow> nat \<Rightarrow> bool list list \<Rightarrow> bool list list" where
  "put_sys_bit c v b m =
     m[b div BITCHUNK_BITS c := (m ! (b div BITCHUNK_BITS c))[b mod BITCHUNK_BITS c := v]]"

definition may_send_to :: "icfg \<Rightarrow> istate \<Rightarrow> nat \<Rightarrow> nat \<Rightarrow> bool" where
  "may_send_to c s rp dst = get_sys_bit c (s_ipc_to (privof (ks s) rp)) (s_id (privof (ks s) dst))"

text \<open>\<^verbatim>\<open>BuildNotifyMessage\<close>: the message, and the pending sets it empties in the receiver's privileges.\<close>

definition notify_message :: "icfg \<Rightarrow> int \<Rightarrow> nat \<Rightarrow> istate \<Rightarrow> kmessage" where
  "notify_message c src dst s =
     \<lparr>k_source = 0, k_type = NOTIFY_FROM c src,
      k_arg = (if src = HARDWARE c then s_int_pending (privof (ks s) dst)
               else if src = SYSTEM c then s_sig_pending (privof (ks s) dst) else {}),
      k_body = get_uptime c (ks s)\<rparr>"

definition notify_consume :: "icfg \<Rightarrow> int \<Rightarrow> nat \<Rightarrow> istate \<Rightarrow> istate" where
  "notify_consume c src dst s =
     upd_priv (p_priv (ip s dst))
       (\<lambda>p. if src = HARDWARE c then p\<lparr>s_int_pending := {}\<rparr>
            else if src = SYSTEM c then p\<lparr>s_sig_pending := {}\<rparr> else p) s"

subsection \<open>\<^verbatim>\<open>deadlock\<close>\<close>

text \<open>
  The loop of \<^verbatim>\<open>deadlock\<close>; \<^verbatim>\<open>okendpt\<close> panics on an invalid endpoint.
\<close>

partial_function (option) deadlock_walk ::
  "icfg \<Rightarrow> nat \<Rightarrow> nat \<Rightarrow> istate \<Rightarrow> int \<Rightarrow> nat \<Rightarrow> nat option" where
  "deadlock_walk c fn cp s src_dst_e group_size =
     (if src_dst_e = ANY c then Some 0
      else case isokendpt (kc c) (ks s) src_dst_e of
        None \<Rightarrow> None
      | Some xp \<Rightarrow>
          if RTS_ISSET (ip s xp) RTS_SLOT_FREE then None
          else
            let e = P_BLOCKEDON c (ip s xp) in
            if e = i_NONE c then Some 0
            else if e = p_endpoint (ip s cp) then
              (if group_size + 1 = 2 \<and>
                  (p_rts_flags (ip s xp) XOR push_bit 2 (word_of_nat fn)) AND RTS_SENDING \<noteq> 0
               then Some 0 else Some (group_size + 1))
            else deadlock_walk c fn cp s e (group_size + 1))"

definition deadlock :: "icfg \<Rightarrow> nat \<Rightarrow> nat \<Rightarrow> int \<Rightarrow> istate \<Rightarrow> nat option" where
  "deadlock c fn cp src_dst_e s = deadlock_walk c fn cp s src_dst_e 1"

subsection \<open>Notifications and signals to system processes\<close>

text \<open>
  \<^verbatim>\<open>caller_nr\<close> is the slot of the sender.  The notification message is assembled before the pending set of
  the receiver is emptied.
\<close>

definition mini_notify :: "icfg \<Rightarrow> nat \<Rightarrow> int \<Rightarrow> istate \<Rightarrow> (errno \<times> istate) option" where
  "mini_notify c caller dst_e s =
     (case isokendpt (kc c) (ks s) dst_e of
        None \<Rightarrow> Some (EDEADSRCDST, s)
      | Some d \<Rightarrow>
          if WILLRECEIVE c (ip s d) (p_endpoint (ip s caller)) \<and> \<not> mf (ip s d) MF_REPLY_PEND then
            kassert (\<not> mf (ip s d) MF_DELIVERMSG)
              (let src = p_nr (ip s caller);
                   m = (notify_message c src d s)\<lparr>k_source := p_endpoint (ip s caller)\<rparr>;
                   s1 = upd_ip d (\<lambda>p. IPC_STATUS_ADD (STATUS_CALL_TO c (NOTIFY c))
                          (set_mf MF_DELIVERMSG (p\<lparr>p_delivermsg := m\<rparr>))) (notify_consume c src d s) in
               map_option (Pair OK) (UNSET_RTS c d RTS_RECEIVING s1))
          else
            Some (OK, upd_priv (p_priv (ip s d))
              (\<lambda>p. p\<lparr>s_notify_pending := put_sys_bit c True (s_id (privof (ks s) caller)) (s_notify_pending p)\<rparr>) s))"

definition send_sig :: "icfg \<Rightarrow> int \<Rightarrow> int \<Rightarrow> istate \<Rightarrow> istate option" where
  "send_sig c ep sig_nr s =
     (case isokendpt (kc c) (ks s) ep of
        None \<Rightarrow> None
      | Some rp \<Rightarrow>
          kassert (\<not> isemptyp (ip s rp))
           (map_option snd
             (mini_notify c (slot (kc c) (SYSTEM c)) (p_endpoint (ip s rp))
               (upd_priv (p_priv (ip s rp)) (\<lambda>p. p\<lparr>s_sig_pending := insert sig_nr (s_sig_pending p)\<rparr>) s))))"

partial_function (option) cause_sig :: "icfg \<Rightarrow> nat \<Rightarrow> int \<Rightarrow> istate \<Rightarrow> istate option" where
  "cause_sig c rp sig_nr s =
     (let pr = privof (ks s) rp;
          sig_mgr = (if s_sig_mgr pr = SELF c then p_endpoint (ip s rp) else s_sig_mgr pr) in
      if p_endpoint (ip s rp) = sig_mgr then
        if SIGS_IS_LETHAL c sig_nr then
          (case (if s_bak_sig_mgr pr \<noteq> i_NONE c then isokendpt (kc c) (ks s) (s_bak_sig_mgr pr) else None) of
             None \<Rightarrow> None
           | Some mgr \<Rightarrow>
               UNSET_RTS c mgr RTS_NO_PRIV
                 (upd_priv (p_priv (ip s rp))
                   (\<lambda>p. p\<lparr>s_sig_mgr := s_bak_sig_mgr pr, s_bak_sig_mgr := i_NONE c\<rparr>) s)
               \<bind> cause_sig c rp sig_nr)
        else
          send_sig c (p_endpoint (ip s rp)) (SIGKSIGSM c)
            (upd_priv (p_priv (ip s rp)) (\<lambda>p. p\<lparr>s_sig_pending := insert sig_nr (s_sig_pending p)\<rparr>) s)
      else if sig_nr \<in> p_pending (ip s rp) then Some s
      else
        let s1 = upd_ip rp (\<lambda>p. p\<lparr>p_pending := insert sig_nr (p_pending p)\<rparr>) s in
        if RTS_ISSET (ip s1 rp) RTS_SIGNALED then Some s1
        else SET_RTS rp (RTS_SIGNALED OR RTS_SIG_PENDING) s1 \<bind> send_sig c sig_mgr (SIGKSIG c))"

definition sig_delay_done :: "icfg \<Rightarrow> nat \<Rightarrow> istate \<Rightarrow> istate option" where
  "sig_delay_done c rp s = cause_sig c rp (SIGSNDELAY c) (upd_ip rp (clear_mf MF_SIG_DELAY) s)"

subsection \<open>\<^verbatim>\<open>mini_send\<close>\<close>

text \<open>Following the queue of senders to its last element.\<close>

partial_function (option) last_caller :: "kstate \<Rightarrow> nat \<Rightarrow> nat option" where
  "last_caller s x = (case p_q_link (kp s x) of None \<Rightarrow> Some x | Some y \<Rightarrow> last_caller s y)"

definition append_caller :: "nat \<Rightarrow> nat \<Rightarrow> istate \<Rightarrow> istate option" where
  "append_caller d x s =
     (case p_caller_q (ip s d) of
        None \<Rightarrow> Some (upd_ip d (\<lambda>p. p\<lparr>p_caller_q := Some x\<rparr>) s)
      | Some h \<Rightarrow> map_option (\<lambda>l. upd_ip l (\<lambda>p. p\<lparr>p_q_link := Some x\<rparr>) s) (last_caller (ks s) h))"

text \<open>The message to send: copied from the caller's buffer, or given by the kernel.\<close>

definition fetch_msg :: "icfg \<Rightarrow> nat \<Rightarrow> mptr \<Rightarrow> kmessage option" where
  "fetch_msg c caller mp = (case mp of Uaddr a \<Rightarrow> user_msg c caller a | Kmsg m \<Rightarrow> Some m)"

definition send_now :: "icfg \<Rightarrow> nat \<Rightarrow> nat \<Rightarrow> kmessage \<Rightarrow> 16 word \<Rightarrow> istate \<Rightarrow> istate option" where
  "send_now c caller d m flags s =
     (let call = (if mf (ip s caller) MF_REPLY_PEND then SENDREC c
                  else if flags AND NON_BLOCKING \<noteq> 0 then SENDNB c else SEND c);
          st = (\<lambda>p. if flags AND FROM_KERNEL \<noteq> 0 then IPC_STATUS_ADD (STATUS_FROM_KERNEL c) p else p) in
      UNSET_RTS c d RTS_RECEIVING
        (upd_ip d (\<lambda>p. clear_mf MF_REPLY_PEND
             (IPC_STATUS_ADD (STATUS_CALL_TO c call)
               (set_mf MF_DELIVERMSG
                 ((st p)\<lparr>p_delivermsg := m\<lparr>k_source := p_endpoint (ip s caller)\<rparr>\<rparr>)))) s))"

definition block_sender :: "nat \<Rightarrow> nat \<Rightarrow> int \<Rightarrow> kmessage \<Rightarrow> 16 word \<Rightarrow> istate \<Rightarrow> istate option" where
  "block_sender caller d dst_e m flags s =
     SET_RTS caller RTS_SENDING
       (upd_ip caller (\<lambda>p. (if flags AND FROM_KERNEL \<noteq> 0 then set_mf MF_SENDING_FROM_KERNEL p else p)
            \<lparr>p_sendmsg := m\<rparr>) s)
     \<bind> (\<lambda>s1. let s2 = upd_ip caller (\<lambda>p. p\<lparr>p_sendto_e := dst_e\<rparr>) s1 in
          kassert (p_q_link (ip s2 caller) = None) (append_caller d caller s2))"

definition mini_send ::
  "icfg \<Rightarrow> nat \<Rightarrow> int \<Rightarrow> mptr \<Rightarrow> 16 word \<Rightarrow> istate \<Rightarrow> (errno \<times> istate) option" where
  "mini_send c caller dst_e m_ptr flags s =
     (let dst_p = k_ENDPOINT_P (kc c) dst_e; d = slot (kc c) dst_p in
      kassert (isokprocn (kc c) (ks s) dst_p)
       (if RTS_ISSET (ip s d) RTS_NO_ENDPOINT then Some (EDEADSRCDST, s)
        else if WILLRECEIVE c (ip s d) (p_endpoint (ip s caller)) then
          kassert (\<not> mf (ip s d) MF_DELIVERMSG)
            (case fetch_msg c caller m_ptr of
               None \<Rightarrow> Some (EFAULT, s)
             | Some m \<Rightarrow> map_option (Pair OK) (send_now c caller d m flags s))
        else if flags AND NON_BLOCKING \<noteq> 0 then Some (ENOTREADY, s)
        else case deadlock c (SEND c) caller dst_e s of
          None \<Rightarrow> None
        | Some n \<Rightarrow>
            if n \<noteq> 0 then Some (ELOCKED, s)
            else (case fetch_msg c caller m_ptr of
               None \<Rightarrow> Some (EFAULT, s)
             | Some m \<Rightarrow> map_option (Pair OK) (block_sender caller d dst_e m flags s))))"

subsection \<open>Asynchronous messages\<close>

definition bad_aflags :: "icfg \<Rightarrow> 32 word \<Rightarrow> bool" where
  "bad_aflags c f \<longleftrightarrow>
     f AND NOT (AMF_VALID c OR AMF_DONE c OR AMF_NOTIFY c OR AMF_NOREPLY c) \<noteq> 0 \<or> f AND AMF_VALID c = 0"

definition put_entry :: "nat \<Rightarrow> nat \<Rightarrow> nat \<Rightarrow> asynmsg \<Rightarrow> istate \<Rightarrow> istate" where
  "put_entry p tab i e s = s\<lparr>utab := (utab s)(p := (utab s p)(tab := (utab s p tab)(i := Some e)))\<rparr>"

text \<open>
  \<^verbatim>\<open>A_INSERT(i, result); tabent.flags = flags | AMF_DONE; A_INSERT(i, flags)\<close>.  The boolean tells whether both copies
  succeeded; the macro returns \<^verbatim>\<open>EFAULT\<close> from the function around it when one fails, so that a failed second copy
  leaves the result of the first behind.
\<close>

definition finish_entry :: "icfg \<Rightarrow> nat \<Rightarrow> nat \<Rightarrow> nat \<Rightarrow> asynmsg \<Rightarrow> errno \<Rightarrow> istate \<Rightarrow> bool \<times> istate" where
  "finish_entry c p tab i e r s =
     (if \<not> put_result c p tab i then (False, s)
      else if \<not> put_flags c p tab i then (False, put_entry p tab i (e\<lparr>a_result := r\<rparr>) s)
      else (True, put_entry p tab i (e\<lparr>a_result := r, a_flags := a_flags e OR AMF_DONE c\<rparr>) s))"

text \<open>
  The loop of \<^verbatim>\<open>try_one\<close> over the entries of a table: the result, whether a message was postponed, and the state.
  The message is delivered before the entry is written back, so that a failing copy answers \<^verbatim>\<open>EFAULT\<close> with
  \<^verbatim>\<open>MF_DELIVERMSG\<close> already set.
\<close>

fun try_entries ::
  "icfg \<Rightarrow> nat \<Rightarrow> nat \<Rightarrow> nat \<Rightarrow> nat list \<Rightarrow> bool \<Rightarrow> bool \<Rightarrow> istate \<Rightarrow> errno \<times> bool \<times> istate" where
  "try_entries c src d tab [] dn pp s =
     (EAGAIN, pp, if dn then upd_priv (p_priv (ip s src)) (\<lambda>p. p\<lparr>s_asynsize := 0\<rparr>) s else s)"
| "try_entries c src d tab (i # is) dn pp s =
     (case utab s src tab i of
        None \<Rightarrow> (EFAULT, pp, s)
      | Some e \<Rightarrow>
          if a_flags e = 0 then try_entries c src d tab is dn pp s
          else if bad_aflags c (a_flags e)
          then (EINVAL, pp, upd_priv (p_priv (ip s src)) (\<lambda>p. p\<lparr>s_asynsize := 0\<rparr>) s)
          else if a_flags e AND AMF_DONE c \<noteq> 0 then try_entries c src d tab is dn pp s
          else if a_dst e \<noteq> p_endpoint (ip s d) then try_entries c src d tab is False pp s
          else if a_flags e AND AMF_NOREPLY c \<noteq> 0 \<and> mf (ip s d) MF_REPLY_PEND
          then try_entries c src d tab is False True s
          else
            (let (copied, s1) = finish_entry c src tab i e OK
               (upd_ip d (\<lambda>p. set_mf MF_DELIVERMSG
                  (p\<lparr>p_delivermsg := (a_msg e)\<lparr>k_source := p_endpoint (ip s src)\<rparr>\<rparr>)) s)
             in (if copied then OK else EFAULT, pp, s1)))"

definition try_one :: "icfg \<Rightarrow> nat \<Rightarrow> nat \<Rightarrow> bool \<Rightarrow> istate \<Rightarrow> errno \<times> bool \<times> istate" where
  "try_one c src d pp s =
     (let pr = privof (ks s) src in
      if s_id pr = USER_PRIV_ID c then (EAGAIN, pp, s)
      else if s_asynsize pr = 0 then (EAGAIN, pp, s)
      else if \<not> may_send_to c s src d then (EAGAIN, pp, s)
      else try_entries c src d (s_asyntab pr) [0 ..< s_asynsize pr] True pp s)"

fun try_privs :: "icfg \<Rightarrow> nat \<Rightarrow> nat list \<Rightarrow> bool \<Rightarrow> istate \<Rightarrow> (errno \<times> istate) option" where
  "try_privs c caller [] pp s =
     Some (ESRCH, if pp then s else upd_ip caller (clear_mf MF_ASYNMSG) s)"
| "try_privs c caller (i # is) pp s =
     (let n = s_proc_nr (kprivs (ks s) ! i) in
      if n = i_NONE c then try_privs c caller is pp s
      else kassert (\<not> mf (ip s caller) MF_DELIVERMSG)
        (let (r, pp1, s1) = try_one c (slot (kc c) n) caller pp s in
         if r = OK then Some (OK, s1) else try_privs c caller is pp1 s1))"

definition try_async :: "icfg \<Rightarrow> nat \<Rightarrow> istate \<Rightarrow> (errno \<times> istate) option" where
  "try_async c caller s = try_privs c caller [0 ..< NR_SYS_PROCS c] False s"

text \<open>
  One entry of the table in \<^verbatim>\<open>mini_senda\<close>: the boolean says whether its message is still to be delivered, \<open>Inl\<close> ends
  the call.
\<close>

definition senda_done :: "icfg \<Rightarrow> nat \<Rightarrow> nat \<Rightarrow> nat \<Rightarrow> asynmsg \<Rightarrow> errno \<Rightarrow> istate \<Rightarrow> (errno + bool) \<times> istate" where
  "senda_done c caller tab i e r s =
     (let (copied, s1) = finish_entry c caller tab i e r s in (if copied then Inr False else Inl EFAULT, s1))"

definition senda_entry :: "icfg \<Rightarrow> nat \<Rightarrow> nat \<Rightarrow> nat \<Rightarrow> asynmsg \<Rightarrow> istate \<Rightarrow> ((errno + bool) \<times> istate) option" where
  "senda_entry c caller tab i e s =
     (if a_flags e = 0 then Some (Inr False, s)
      else if bad_aflags c (a_flags e) then Some (Inl EINVAL, s)
      else if a_flags e AND AMF_DONE c \<noteq> 0 then Some (Inr False, s)
      else (case isokendpt (kc c) (ks s) (a_dst e) of
        None \<Rightarrow> Some (senda_done c caller tab i e EDEADSRCDST s)
      | Some d \<Rightarrow>
          if d < k_NR_TASKS (kc c) then Some (senda_done c caller tab i e ECALLDENIED s)
          else if \<not> may_send_to c s caller d then Some (senda_done c caller tab i e ECALLDENIED s)
          else if RTS_ISSET (ip s d) RTS_NO_ENDPOINT then Some (senda_done c caller tab i e EDEADSRCDST s)
          else if WILLRECEIVE c (ip s d) (p_endpoint (ip s caller)) \<and>
              (a_flags e AND AMF_NOREPLY c = 0 \<or> \<not> mf (ip s d) MF_REPLY_PEND) then
            (if \<not> entry_msg c caller tab i then Some (senda_done c caller tab i e EFAULT s)
             else
               let m = (a_msg e)\<lparr>k_source := p_endpoint (ip s caller)\<rparr> in
               map_option (senda_done c caller tab i e OK)
                 (UNSET_RTS c d RTS_RECEIVING
                   (upd_ip d (\<lambda>p. IPC_STATUS_ADD (STATUS_CALL_TO c (SENDA c))
                      (set_mf MF_DELIVERMSG (p\<lparr>p_delivermsg := m\<rparr>))) s)))
          else Some (Inr True, upd_ip d (set_mf MF_ASYNMSG) s)))"

text \<open>
  The loop of \<^verbatim>\<open>mini_senda\<close>; the boolean is \<^verbatim>\<open>done\<close>, and \<open>Inr\<close> carries it to the end of the table.
\<close>

fun senda_entries ::
  "icfg \<Rightarrow> nat \<Rightarrow> nat \<Rightarrow> nat list \<Rightarrow> bool \<Rightarrow> istate \<Rightarrow> ((errno + bool) \<times> istate) option" where
  "senda_entries c caller tab [] dn s = Some (Inr dn, s)"
| "senda_entries c caller tab (i # is) dn s =
     (case utab s caller tab i of
        None \<Rightarrow> Some (Inl EFAULT, s)
      | Some e \<Rightarrow>
         (case senda_entry c caller tab i e s of
            None \<Rightarrow> None
          | Some (Inl r, s1) \<Rightarrow> Some (Inl r, s1)
          | Some (Inr pending, s1) \<Rightarrow> senda_entries c caller tab is (dn \<and> \<not> pending) s1))"

definition mini_senda :: "icfg \<Rightarrow> nat \<Rightarrow> nat \<Rightarrow> nat \<Rightarrow> istate \<Rightarrow> (errno \<times> istate) option" where
  "mini_senda c caller table size_of s =
     (let pi = p_priv (ip s caller) in
      if s_flags (privof (ks s) caller) AND SYS_PROC c = 0 then Some (EPERM, s)
      else
        let s1 = upd_priv pi (\<lambda>p. p\<lparr>s_asyntab := 2 ^ 32 - 1, s_asynsize := 0\<rparr>) s in
        if size_of = 0 then Some (OK, s1)
        else if size_of > 16 * length (kprocs (ks s)) then Some (EDOM, s1)
        else (case senda_entries c caller table [0 ..< size_of] True s1 of
            None \<Rightarrow> None
          | Some (Inl r, s2) \<Rightarrow> Some (r, s2)
          | Some (Inr dn, s2) \<Rightarrow>
              Some (OK, if dn then s2
                        else upd_priv pi (\<lambda>p. p\<lparr>s_asyntab := table, s_asynsize := size_of\<rparr>) s2)))"

subsection \<open>\<^verbatim>\<open>mini_receive\<close>\<close>

text \<open>
  The search for a pending notification: of every chunk of the bit map only the lowest bit that is set is looked at.
  \<open>k\<close> is the number of the chunk; the result is the chunk, the bit and the process number of the source.
\<close>

fun scan_pending ::
  "icfg \<Rightarrow> kpriv list \<Rightarrow> int \<Rightarrow> int \<Rightarrow> nat \<Rightarrow> bool list list \<Rightarrow> (nat \<times> nat \<times> int) option" where
  "scan_pending c prs src_e src_p k [] = None"
| "scan_pending c prs src_e src_p k (chunk # chunks) =
     (case first_idx (\<lambda>b. b) chunk of
        None \<Rightarrow> scan_pending c prs src_e src_p (Suc k) chunks
      | Some i \<Rightarrow>
          let src_id = k * BITCHUNK_BITS c + i in
          if src_id \<ge> NR_SYS_PROCS c then None
          else
            let src_proc_nr = s_proc_nr (prs ! src_id) in
            if src_e \<noteq> ANY c \<and> src_p \<noteq> src_proc_nr
            then scan_pending c prs src_e src_p (Suc k) chunks
            else Some (k, i, src_proc_nr))"

definition take_notification ::
  "icfg \<Rightarrow> nat \<Rightarrow> int \<Rightarrow> nat \<times> nat \<times> int \<Rightarrow> istate \<Rightarrow> istate option" where
  "take_notification c caller src_e = (\<lambda>(k, i, nr) s.
     let hisep = p_endpoint (ip s (slot (kc c) nr));
         s1 = upd_priv (p_priv (ip s caller))
           (\<lambda>p. p\<lparr>s_notify_pending := (s_notify_pending p)[k := (s_notify_pending p ! k)[i := False]]\<rparr>) s in
     kassert (\<not> mf (ip s caller) MF_DELIVERMSG)
      (kassert (src_e = ANY c \<or> hisep = src_e)
        (Some (upd_ip caller (\<lambda>p. IPC_STATUS_ADD (STATUS_CALL_TO c (NOTIFY c))
            (set_mf MF_DELIVERMSG (p\<lparr>p_delivermsg := (notify_message c nr caller s1)\<lparr>k_source := hisep\<rparr>\<rparr>)))
          (notify_consume c nr caller s1)))))"

text \<open>
  The search of the queue of senders: the predecessor in the queue, if any, and the first acceptable sender.
\<close>

partial_function (option) find_sender ::
  "icfg \<Rightarrow> int \<Rightarrow> int \<Rightarrow> kstate \<Rightarrow> nat option \<Rightarrow> nat option \<Rightarrow> (nat option \<times> nat) option option" where
  "find_sender c src_e src_p s prev cur =
     (case cur of
        None \<Rightarrow> Some None
      | Some x \<Rightarrow>
          if src_e = ANY c \<or> src_p = p_nr (kp s x) then Some (Some (prev, x))
          else find_sender c src_e src_p s (Some x) (p_q_link (kp s x)))"

definition unlink_sender :: "nat \<Rightarrow> nat option \<Rightarrow> nat \<Rightarrow> istate \<Rightarrow> istate" where
  "unlink_sender caller prev x s =
     (let nx = p_q_link (ip s x);
          s1 = (case prev of
                  None \<Rightarrow> upd_ip caller (\<lambda>p. p\<lparr>p_caller_q := nx\<rparr>) s
                | Some a \<Rightarrow> upd_ip a (\<lambda>p. p\<lparr>p_q_link := nx\<rparr>) s) in
      upd_ip x (\<lambda>p. p\<lparr>p_q_link := None\<rparr>) s1)"

definition take_sender ::
  "icfg \<Rightarrow> nat \<Rightarrow> nat option \<Rightarrow> nat \<Rightarrow> istate \<Rightarrow> istate option" where
  "take_sender c caller prev x s =
     kassert (\<not> RTS_ISSET (ip s x) RTS_SLOT_FREE)
      (kassert (\<not> RTS_ISSET (ip s x) RTS_NO_ENDPOINT)
       (kassert (\<not> mf (ip s caller) MF_DELIVERMSG)
        (do {
          s2 \<leftarrow> UNSET_RTS c x RTS_SENDING
            (upd_ip caller (\<lambda>p. set_mf MF_DELIVERMSG
               (p\<lparr>p_delivermsg := (p_sendmsg (ip s x))\<lparr>k_source := p_endpoint (ip s x)\<rparr>\<rparr>)) s);
          let call = (if mf (ip s2 x) MF_REPLY_PEND then SENDREC c else SEND c);
          let s3 = upd_ip caller (IPC_STATUS_ADD (STATUS_CALL_TO c call)) s2;
          let s4 = (if mf (ip s3 x) MF_SENDING_FROM_KERNEL
                    then upd_ip x (clear_mf MF_SENDING_FROM_KERNEL)
                           (upd_ip caller (IPC_STATUS_ADD (STATUS_FROM_KERNEL c)) s3)
                    else s3);
          s5 \<leftarrow> (if mf (ip s4 x) MF_SIG_DELAY then sig_delay_done c x s4 else Some s4);
          Some (unlink_sender caller prev x s5)
        })))"

definition receive_done :: "nat \<Rightarrow> istate \<Rightarrow> (errno \<times> istate) option" where
  "receive_done caller s = Some (OK, upd_ip caller (clear_mf MF_REPLY_PEND) s)"

text \<open>No message was found: block, unless that is not wanted or would close a cycle.\<close>

definition block_receiver :: "icfg \<Rightarrow> nat \<Rightarrow> int \<Rightarrow> 16 word \<Rightarrow> istate \<Rightarrow> (errno \<times> istate) option" where
  "block_receiver c caller src_e flags s =
     (if flags AND NON_BLOCKING \<noteq> 0 then Some (ENOTREADY, s)
      else case deadlock c (RECEIVE c) caller src_e s of
        None \<Rightarrow> None
      | Some n \<Rightarrow>
          if n \<noteq> 0 then Some (ELOCKED, s)
          else map_option (Pair OK)
            (SET_RTS caller RTS_RECEIVING (upd_ip caller (\<lambda>p. p\<lparr>p_getfrom_e := src_e\<rparr>) s)))"

definition receive_async :: "icfg \<Rightarrow> nat \<Rightarrow> int \<Rightarrow> nat \<Rightarrow> istate \<Rightarrow> (errno \<times> istate) option" where
  "receive_async c caller src_e srcs s =
     (if \<not> mf (ip s caller) MF_ASYNMSG then Some (ESRCH, s)
      else if src_e \<noteq> ANY c
      then (let (r, _, s1) = try_one c srcs caller False s in Some (r, s1))
      else try_async c caller s)"

definition receive_queued :: "icfg \<Rightarrow> nat \<Rightarrow> int \<Rightarrow> int \<Rightarrow> 16 word \<Rightarrow> istate \<Rightarrow> (errno \<times> istate) option" where
  "receive_queued c caller src_e src_p flags s =
     (case find_sender c src_e src_p (ks s) None (p_caller_q (ip s caller)) of
        None \<Rightarrow> None
      | Some None \<Rightarrow> block_receiver c caller src_e flags s
      | Some (Some (prev, x)) \<Rightarrow> take_sender c caller prev x s \<bind> receive_done caller)"

definition mini_receive ::
  "icfg \<Rightarrow> nat \<Rightarrow> int \<Rightarrow> nat \<Rightarrow> 16 word \<Rightarrow> istate \<Rightarrow> (errno \<times> istate) option" where
  "mini_receive c caller src_e m_buff_usr flags s =
     kassert (\<not> mf (ip s caller) MF_DELIVERMSG)
      (let s0 = upd_ip caller (\<lambda>p. p\<lparr>p_delivermsg_vir := m_buff_usr\<rparr>) s in
       case (if src_e = ANY c then Some 0 else isokendpt (kc c) (ks s0) src_e) of
         None \<Rightarrow> None
       | Some srcs \<Rightarrow>
          let src_p = (if src_e = ANY c then ANY c else int srcs - int (k_NR_TASKS (kc c))) in
          if src_e \<noteq> ANY c \<and> RTS_ISSET (ip s0 srcs) RTS_NO_ENDPOINT then Some (EDEADSRCDST, s0)
          else if RTS_ISSET (ip s0 caller) RTS_SENDING then block_receiver c caller src_e flags s0
          else
            case (if mf (ip s0 caller) MF_REPLY_PEND then None
                  else scan_pending c (kprivs (ks s0)) src_e src_p 0 (s_notify_pending (privof (ks s0) caller))) of
              Some hit \<Rightarrow> take_notification c caller src_e hit s0 \<bind> receive_done caller
            | None \<Rightarrow>
                (case receive_async c caller src_e srcs s0 of
                   None \<Rightarrow> None
                 | Some (r, s1) \<Rightarrow>
                     if r = OK
                     then receive_done caller (upd_ip caller (IPC_STATUS_ADD (STATUS_CALL_TO c (SENDA c))) s1)
                     else receive_queued c caller src_e src_p flags s1))"

subsection \<open>\<^verbatim>\<open>do_sync_ipc\<close> and \<^verbatim>\<open>do_ipc\<close>\<close>

definition sync_call :: "icfg \<Rightarrow> nat \<Rightarrow> nat \<Rightarrow> int \<Rightarrow> nat \<Rightarrow> istate \<Rightarrow> (errno \<times> istate) option" where
  "sync_call c caller call_nr e buf s =
     (if call_nr = SENDREC c then
        (case mini_send c caller e (Uaddr buf) 0 (upd_ip caller (set_mf MF_REPLY_PEND) s) of
           None \<Rightarrow> None
         | Some (r, s1) \<Rightarrow> if r \<noteq> OK then Some (r, s1) else mini_receive c caller e buf 0 s1)
      else if call_nr = SEND c then mini_send c caller e (Uaddr buf) 0 s
      else if call_nr = RECEIVE c then
        mini_receive c caller e buf 0
          (upd_ip caller (\<lambda>p. (clear_mf MF_REPLY_PEND p)\<lparr>p_ipc_status := 0\<rparr>) s)
      else if call_nr = NOTIFY c then mini_notify c caller e s
      else if call_nr = SENDNB c then mini_send c caller e (Uaddr buf) NON_BLOCKING s
      else Some (EBADCALL, s))"

definition do_sync_ipc :: "icfg \<Rightarrow> nat \<Rightarrow> nat \<Rightarrow> int \<Rightarrow> nat \<Rightarrow> istate \<Rightarrow> (errno \<times> istate) option" where
  "do_sync_ipc c caller call_nr e buf s =
     kassert (call_nr \<noteq> SENDA c)
      (if int call_nr > IPCNO_HIGHEST c \<or> call_nr \<ge> 32 \<or> \<not> named_call c call_nr then Some (ETRAPDENIED, s)
       else if e = ANY c \<and> call_nr \<noteq> RECEIVE c then Some (EINVAL, s)
       else case (if e = ANY c then Some None else map_option Some (isokendpt (kc c) (ks s) e)) of
         None \<Rightarrow> Some (EDEADSRCDST, s)
       | Some d \<Rightarrow>
           if (case d of None \<Rightarrow> False | Some i \<Rightarrow> call_nr \<noteq> RECEIVE c \<and> \<not> may_send_to c s caller i)
           then Some (ECALLDENIED, s)
           else if \<not> bit (s_trap_mask (privof (ks s) caller)) call_nr then Some (ETRAPDENIED, s)
           else if call_nr \<noteq> SENDREC c \<and> call_nr \<noteq> RECEIVE c \<and>
             (case d of None \<Rightarrow> ANY c < 0 | Some i \<Rightarrow> i < k_NR_TASKS (kc c))
           then Some (ETRAPDENIED, s)
           else sync_call c caller call_nr e buf s)"

definition do_ipc :: "icfg \<Rightarrow> nat \<Rightarrow> int \<Rightarrow> nat \<Rightarrow> istate \<Rightarrow> (errno \<times> istate) option" where
  "do_ipc c call_nr r2 r3 s =
     (let caller = proc_ptr (ks s); p = ip s caller in
      kassert (\<not> RTS_ISSET p RTS_SLOT_FREE)
       (if p_misc_flags p AND (MF_SC_TRACE OR MF_SC_DEFER) = MF_SC_TRACE then
          map_option (\<lambda>s1. (p_retreg (ip s1 caller), s1))
            (cause_sig c caller (SIGTRAP c) (upd_ip caller (\<lambda>p. set_mf MF_SC_DEFER (clear_mf MF_SC_TRACE p)) s))
        else
          kassert (\<not> mf p (MF_SC_TRACE OR MF_SC_DEFER) \<or> \<not> mf p MF_SC_ACTIVE)
           (let s1 = (if mf p (MF_SC_TRACE OR MF_SC_DEFER)
                      then upd_ip caller (\<lambda>p. set_mf MF_SC_ACTIVE (clear_mf MF_SC_DEFER p)) s else s) in
            kassert (\<not> mf (ip s1 caller) MF_DELIVERMSG)
             (if call_nr \<in> {SENDREC c, SEND c, RECEIVE c, NOTIFY c, SENDNB c}
              then do_sync_ipc c caller call_nr r2 r3 s1
              else if call_nr = SENDA c then
                (let msg_size = nat (r2 mod 2 ^ 32) in
                 if msg_size > 16 * length (kprocs (ks s)) then Some (EDOM, s1)
                 else mini_senda c caller r3 msg_size s1)
              else Some (EBADCALL, s1)))))"

subsection \<open>Out of quantum\<close>

definition notify_scheduler :: "icfg \<Rightarrow> nat \<Rightarrow> istate \<Rightarrow> istate option" where
  "notify_scheduler c p s =
     kassert (\<not> proc_kernel_scheduler (ks s) p)
      (do {
         s1 \<leftarrow> SET_RTS p RTS_NO_QUANTUM s;
         (case p_scheduler (ip s1 p) of
            None \<Rightarrow> None
          | Some sch \<Rightarrow>
              (case mini_send c p (p_endpoint (ip s1 sch))
                 (Kmsg \<lparr>k_source = p_endpoint (ip s1 p), k_type = i_NO_QUANTUM_type c, k_arg = {}, k_body = 0\<rparr>)
                 FROM_KERNEL s1 of
                 None \<Rightarrow> None
               | Some (r, s2) \<Rightarrow> if r \<noteq> OK then None else Some s2))
       })"

definition proc_no_time :: "icfg \<Rightarrow> nat \<Rightarrow> istate \<Rightarrow> istate option" where
  "proc_no_time c p s =
     (if \<not> proc_kernel_scheduler (ks s) p \<and> s_flags (privof (ks s) p) AND PREEMPTIBLE (kc c) \<noteq> 0
      then notify_scheduler c p s
      else Some (upd_ip p (\<lambda>r. r\<lparr>p_cpu_time_left := ms_2_cpu_time (kc c) (p_quantum_size_ms r)\<rparr>) s))"

subsection \<open>Cleaning a process\<close>

text \<open>The loop of \<^verbatim>\<open>clear_ipc\<close> over the queue of the process \<open>d\<close> that \<open>rc\<close> was sending to.\<close>

partial_function (option) leave_queue :: "nat \<Rightarrow> nat \<Rightarrow> nat option \<Rightarrow> istate \<Rightarrow> istate option" where
  "leave_queue d rc prev s =
     (case (case prev of None \<Rightarrow> p_caller_q (ip s d) | Some a \<Rightarrow> p_q_link (ip s a)) of
        None \<Rightarrow> Some s
      | Some x \<Rightarrow>
          if x = rc then
            Some (case prev of
                    None \<Rightarrow> upd_ip d (\<lambda>p. p\<lparr>p_caller_q := p_q_link (ip s x)\<rparr>) s
                  | Some a \<Rightarrow> upd_ip a (\<lambda>p. p\<lparr>p_q_link := p_q_link (ip s x)\<rparr>) s)
          else leave_queue d rc (Some x) s)"

definition clear_rts :: "16 word \<Rightarrow> kproc \<Rightarrow> kproc" where
  "clear_rts f p = p\<lparr>p_rts_flags := p_rts_flags p AND NOT f\<rparr>"

definition clear_ipc :: "icfg \<Rightarrow> nat \<Rightarrow> istate \<Rightarrow> istate option" where
  "clear_ipc c rc s =
     map_option (upd_ip rc (clear_rts RTS_RECEIVING))
       (if RTS_ISSET (ip s rc) RTS_SENDING then
          (case isokendpt (kc c) (ks s) (p_sendto_e (ip s rc)) of
             None \<Rightarrow> None
           | Some d \<Rightarrow> map_option (upd_ip rc (clear_rts RTS_SENDING)) (leave_queue d rc None s))
        else Some s)"

fun clear_refs_from :: "icfg \<Rightarrow> nat \<Rightarrow> errno \<Rightarrow> nat list \<Rightarrow> istate \<Rightarrow> istate option" where
  "clear_refs_from c rc ret [] s = Some s"
| "clear_refs_from c rc ret (x # xs) s =
     (if isemptyp (ip s x) then clear_refs_from c rc ret xs s
      else
        let s1 = upd_priv (p_priv (ip s x))
              (\<lambda>p. p\<lparr>s_notify_pending := put_sys_bit c False (s_id (privof (ks s) rc)) (s_notify_pending p)\<rparr>) s in
        if P_BLOCKEDON c (ip s1 x) = p_endpoint (ip s1 rc) then
          UNSET_RTS c x (RTS_RECEIVING OR RTS_SENDING) (upd_ip x (\<lambda>p. p\<lparr>p_retreg := ret\<rparr>) s1)
            \<bind> clear_refs_from c rc ret xs
        else clear_refs_from c rc ret xs s1)"

definition clear_ipc_refs :: "icfg \<Rightarrow> nat \<Rightarrow> errno \<Rightarrow> istate \<Rightarrow> istate option" where
  "clear_ipc_refs c rc ret s = clear_refs_from c rc ret [0 ..< length (kprocs (ks s))] s"

definition clear_endpoint :: "icfg \<Rightarrow> nat \<Rightarrow> istate \<Rightarrow> istate option" where
  "clear_endpoint c rc s =
     kassert (\<not> isemptyp (ip s rc))
      (do {
         s1 \<leftarrow> SET_RTS rc RTS_NO_ENDPOINT s;
         s2 \<leftarrow> clear_ipc c rc
           (if s_flags (privof (ks s1) rc) AND SYS_PROC c \<noteq> 0
            then upd_priv (p_priv (ip s1 rc)) (\<lambda>p. p\<lparr>s_asynsize := 0\<rparr>) s1 else s1);
         clear_ipc_refs c rc EDEADSRCDST s2
       })"

end
