(* ===== verification/KWait.thy ===== *)
theory KWait
  imports KIpc
begin

text \<open>
  The wait graph of the kernel.  What matters of a process for it is its view \<open>pview\<close>: the blocking flags, the
  endpoints it sends to and wants to receive from, and the links of the queue of senders.  The invariant
  \<open>ipc_inv\<close> on the list of views says that the queues hold exactly the processes that are blocked sending, in the
  order of arrival, that no possible delivery was missed, and that the relation ``is blocked on'' has no cycle.
  The theory shows that the changes message passing makes to the views (a delivery, a sender that
  blocks, a receiver that blocks, a sender taken from its queue) keep the invariant, and that the loop of
  \<^verbatim>\<open>deadlock\<close> (\<^verbatim>\<open>src/Project_2/kernel/proc.c\<close>) finds a cycle exactly when there is one.  \<^verbatim>\<open>KDeadlock\<close> applies
  this to the calls themselves.
\<close>

unbundle bit_operations_syntax

subsection \<open>Views of processes\<close>

record pview =
  v_empty :: bool
  v_free :: bool
  v_sending :: bool
  v_receiving :: bool
  v_sendto :: int
  v_getfrom :: int
  v_callerq :: "nat option"
  v_qlink :: "nat option"
  v_ep :: int
  v_nr :: int
  v_deliver :: bool
  v_delay :: bool
  v_noep :: bool

definition pv :: "kproc \<Rightarrow> pview" where
  "pv p = \<lparr>v_empty = isemptyp p, v_free = bit (p_rts_flags p) 0, v_sending = bit (p_rts_flags p) 2,
     v_receiving = bit (p_rts_flags p) 3, v_sendto = p_sendto_e p, v_getfrom = p_getfrom_e p,
     v_callerq = p_caller_q p, v_qlink = p_q_link p, v_ep = p_endpoint p, v_nr = p_nr p,
     v_deliver = bit (p_misc_flags p) 6, v_delay = bit (p_misc_flags p) 7,
     v_noep = bit (p_rts_flags p) 8\<rparr>"

definition views :: "kstate \<Rightarrow> pview list" where
  "views k = List.map pv (kprocs k)"

lemma views_simps [simp]:
  "length (views k) = length (kprocs k)" "i < length (kprocs k) \<Longrightarrow> views k ! i = pv (kp k i)"
  by (simp_all add: views_def)

lemma pv_simps [simp]:
  "v_empty (pv p) = isemptyp p" "v_sendto (pv p) = p_sendto_e p" "v_getfrom (pv p) = p_getfrom_e p"
  "v_callerq (pv p) = p_caller_q p" "v_qlink (pv p) = p_q_link p" "v_ep (pv p) = p_endpoint p"
  "v_nr (pv p) = p_nr p" "v_free (pv p) = bit (p_rts_flags p) 0"
  "v_sending (pv p) = bit (p_rts_flags p) 2" "v_receiving (pv p) = bit (p_rts_flags p) 3"
  "v_deliver (pv p) = bit (p_misc_flags p) 6" "v_delay (pv p) = bit (p_misc_flags p) 7"
  "v_noep (pv p) = bit (p_rts_flags p) 8"
  by (simp_all add: pv_def)

text \<open>Tests of a single flag.\<close>

lemma and_exp_iff:
  fixes w :: "16 word"
  assumes "n < 16"
  shows "w AND push_bit n 1 = push_bit n 1 \<longleftrightarrow> bit w n" "w AND push_bit n 1 \<noteq> 0 \<longleftrightarrow> bit w n"
proof -
  have "w AND push_bit n 1 = (if bit w n then push_bit n 1 else 0)"
    by (rule bit_word_eqI) (auto simp: bit_and_iff bit_exp_iff)
  moreover have "push_bit n 1 \<noteq> (0 :: 16 word)"
    using assms by (simp add: push_bit_eq_0_iff)
  ultimately show "w AND push_bit n 1 = push_bit n 1 \<longleftrightarrow> bit w n" "w AND push_bit n 1 \<noteq> 0 \<longleftrightarrow> bit w n"
    by auto
qed

lemma flag_tests:
  "RTS_ISSET p RTS_SLOT_FREE = bit (p_rts_flags p) 0" "RTS_ISSET p RTS_SENDING = bit (p_rts_flags p) 2"
  "RTS_ISSET p RTS_RECEIVING = bit (p_rts_flags p) 3" "mf p MF_DELIVERMSG = bit (p_misc_flags p) 6"
  "mf p MF_SIG_DELAY = bit (p_misc_flags p) 7" "RTS_ISSET p RTS_NO_ENDPOINT = bit (p_rts_flags p) 8"
  "p_rts_flags p AND RTS_SENDING \<noteq> 0 \<longleftrightarrow> bit (p_rts_flags p) 2"
  "p_rts_flags p AND RTS_RECEIVING \<noteq> 0 \<longleftrightarrow> bit (p_rts_flags p) 3"
  using and_exp_iff [of 0 "p_rts_flags p"] and_exp_iff [of 2 "p_rts_flags p"]
    and_exp_iff [of 3 "p_rts_flags p"] and_exp_iff [of 6 "p_misc_flags p"] and_exp_iff [of 7 "p_misc_flags p"]
    and_exp_iff [of 8 "p_rts_flags p"]
  by (simp_all add: RTS_ISSET_def mf_def RTS_defs MF_defs)

subsection \<open>The wait graph\<close>

text \<open>The configuration facts used: \<^verbatim>\<open>ANY\<close> and \<^verbatim>\<open>NONE\<close> are different, the call numbers are different and fit the flags.\<close>

definition cfg_ok :: "icfg \<Rightarrow> bool" where
  "cfg_ok c \<longleftrightarrow> ANY c \<noteq> i_NONE c \<and> SEND c = 1 \<and> RECEIVE c = 2 \<and>
     distinct [SEND c, RECEIVE c, SENDREC c, NOTIFY c, SENDNB c]"

text \<open>
  The tables of asynchronous messages can be written back.  Without this the kernel fails an assertion, see
  \<open>failed_write_back_panics\<close> in \<open>KDeadlock\<close>.
\<close>

definition tables_writable :: "icfg \<Rightarrow> bool" where
  "tables_writable c \<longleftrightarrow> (\<forall>p tab i. put_result c p tab i \<and> put_flags c p tab i)"

definition okep :: "icfg \<Rightarrow> pview list \<Rightarrow> int \<Rightarrow> nat option" where
  "okep c vs e =
     (let p = k_ENDPOINT_P (kc c) e in
      if \<not> (0 \<le> p + int (k_NR_TASKS (kc c)) \<and> p + int (k_NR_TASKS (kc c)) < int (length vs)) then None
      else if v_empty (vs ! slot (kc c) p) then None
      else if v_ep (vs ! slot (kc c) p) \<noteq> e then None
      else Some (slot (kc c) p))"

lemma okep_views: "isokendpt (kc c) k e = okep c (views k) e"
  by (auto simp: isokendpt_def okep_def Let_def isokprocn_def slot_def)

lemma okepD: "okep c vs e = Some i \<Longrightarrow> i < length vs \<and> v_ep (vs ! i) = e \<and> \<not> v_empty (vs ! i)"
  by (auto simp: okep_def Let_def slot_def split: if_split_asm)

definition blockedon :: "icfg \<Rightarrow> pview \<Rightarrow> int" where
  "blockedon c v = (if v_sending v then v_sendto v else if v_receiving v then v_getfrom v else i_NONE c)"

lemma P_BLOCKEDON_view: "P_BLOCKEDON c p = blockedon c (pv p)"
  by (simp add: P_BLOCKEDON_def blockedon_def flag_tests)

definition waits :: "icfg \<Rightarrow> pview list \<Rightarrow> (nat \<times> nat) set" where
  "waits c vs = {(x, y). x < length vs \<and> blockedon c (vs ! x) \<notin> {ANY c, i_NONE c} \<and>
     okep c vs (blockedon c (vs ! x)) = Some y}"

definition willrecv :: "icfg \<Rightarrow> pview \<Rightarrow> int \<Rightarrow> bool" where
  "willrecv c v ep \<longleftrightarrow> v_receiving v \<and> \<not> v_sending v \<and> (v_getfrom v = ANY c \<or> v_getfrom v = ep)"

lemma WILLRECEIVE_view: "WILLRECEIVE c p ep = willrecv c (pv p) ep"
  by (simp add: WILLRECEIVE_def willrecv_def flag_tests)

lemma waits_functional: "(x, y) \<in> waits c vs \<Longrightarrow> (x, z) \<in> waits c vs \<Longrightarrow> y = z"
  by (auto simp: waits_def)

lemma waits_bounds: "(x, y) \<in> waits c vs \<Longrightarrow> x < length vs \<and> y < length vs"
  by (auto simp: waits_def dest: okepD)

lemma finite_waits: "finite (waits c vs)"
proof (rule finite_subset)
  show "waits c vs \<subseteq> {..< length vs} \<times> {..< length vs}" using waits_bounds by fastforce
qed simp

text \<open>
  The invariant, in five parts: the static facts about slots and endpoints; the queues of senders; what a
  blocked process is waiting for; no delivery was missed; no cycle.
\<close>

definition slots_ok :: "icfg \<Rightarrow> pview list \<Rightarrow> bool" where
  "slots_ok c vs \<longleftrightarrow> (\<forall>x < length vs.
     v_nr (vs ! x) = int x - int (k_NR_TASKS (kc c)) \<and> (v_free (vs ! x) \<longrightarrow> v_empty (vs ! x)) \<and>
     (\<not> v_empty (vs ! x) \<longrightarrow> k_ENDPOINT_P (kc c) (v_ep (vs ! x)) = v_nr (vs ! x) \<and>
        v_ep (vs ! x) \<noteq> ANY c \<and> v_ep (vs ! x) \<noteq> i_NONE c) \<and>
     (v_empty (vs ! x) \<longrightarrow> \<not> v_sending (vs ! x) \<and> \<not> v_receiving (vs ! x)) \<and> \<not> v_delay (vs ! x))"

definition wqs_ok :: "icfg \<Rightarrow> pview list \<Rightarrow> nat list list \<Rightarrow> bool" where
  "wqs_ok c vs wq \<longleftrightarrow> length wq = length vs \<and>
     (\<forall>d < length vs. chain (\<lambda>i. v_qlink (vs ! i)) (v_callerq (vs ! d)) (wq ! d) \<and>
        (\<forall>x. x \<in> set (wq ! d) \<longleftrightarrow> x < length vs \<and> v_sending (vs ! x) \<and> okep c vs (v_sendto (vs ! x)) = Some d)) \<and>
     (\<forall>x < length vs. \<not> v_sending (vs ! x) \<longrightarrow> v_qlink (vs ! x) = None)"

definition wants_ok :: "icfg \<Rightarrow> pview list \<Rightarrow> bool" where
  "wants_ok c vs \<longleftrightarrow> (\<forall>x < length vs.
     (v_sending (vs ! x) \<longrightarrow> okep c vs (v_sendto (vs ! x)) \<noteq> None) \<and>
     (v_receiving (vs ! x) \<longrightarrow> \<not> v_deliver (vs ! x)) \<and> (v_sending (vs ! x) \<longrightarrow> \<not> v_noep (vs ! x)) \<and>
     (v_receiving (vs ! x) \<longrightarrow> v_getfrom (vs ! x) \<noteq> ANY c \<longrightarrow> okep c vs (v_getfrom (vs ! x)) \<noteq> None) \<and>
     (v_sending (vs ! x) \<longrightarrow> v_receiving (vs ! x) \<longrightarrow> v_getfrom (vs ! x) = v_sendto (vs ! x)))"

definition none_missed :: "icfg \<Rightarrow> pview list \<Rightarrow> bool" where
  "none_missed c vs \<longleftrightarrow> (\<forall>x < length vs. \<forall>d. v_sending (vs ! x) \<longrightarrow> okep c vs (v_sendto (vs ! x)) = Some d \<longrightarrow>
     \<not> willrecv c (vs ! d) (v_ep (vs ! x)))"

definition ipc_inv :: "icfg \<Rightarrow> pview list \<Rightarrow> nat list list \<Rightarrow> bool" where
  "ipc_inv c vs wq \<longleftrightarrow>
     slots_ok c vs \<and> wqs_ok c vs wq \<and> wants_ok c vs \<and> none_missed c vs \<and> acyclic (waits c vs)"

lemma okep_cong:
  assumes "length vs = length vs'"
    and "\<And>i. i < length vs' \<Longrightarrow> v_empty (vs ! i) = v_empty (vs' ! i) \<and> v_ep (vs ! i) = v_ep (vs' ! i)"
  shows "okep c vs = okep c vs'"
proof
  fix e
  let ?p = "k_ENDPOINT_P (kc c) e + int (k_NR_TASKS (kc c))"
  show "okep c vs e = okep c vs' e"
  proof (cases "0 \<le> ?p \<and> ?p < int (length vs')")
    case True
    then have "nat ?p < length vs'" by linarith
    from assms(2) [OF this] show ?thesis using assms(1) by (simp add: okep_def Let_def slot_def)
  next
    case False
    then show ?thesis using assms(1) by (auto simp: okep_def Let_def)
  qed
qed

lemma okep_upd [simp]:
  assumes "v_empty v = v_empty (vs ! x)" "v_ep v = v_ep (vs ! x)"
  shows "okep c (vs[x := v]) = okep c vs"
proof (cases "x < length vs")
  case True
  with assms show ?thesis by (intro okep_cong) (simp_all add: nth_list_update)
qed (simp add: not_less list_update_beyond)

lemma nth_upd_field: "f v = f (vs ! x) \<Longrightarrow> f (vs[x := v] ! y) = f (vs ! y)"
  by (metis list_update_beyond not_le nth_list_update)

lemmas nth_fields = nth_upd_field [of v_empty] nth_upd_field [of v_free] nth_upd_field [of v_sending]
  nth_upd_field [of v_receiving] nth_upd_field [of v_sendto] nth_upd_field [of v_getfrom]
  nth_upd_field [of v_callerq] nth_upd_field [of v_qlink] nth_upd_field [of v_ep] nth_upd_field [of v_nr]
  nth_upd_field [of v_deliver] nth_upd_field [of v_delay]
  nth_upd_field [of v_noep]

lemma slots_ok_upd:
  assumes "slots_ok c vs" "x < length vs"
    and "v_empty v = v_empty (vs ! x)" "v_ep v = v_ep (vs ! x)" "v_nr v = v_nr (vs ! x)" "v_free v = v_free (vs ! x)"
    and "v_delay v = v_delay (vs ! x)" "v_empty v \<Longrightarrow> \<not> v_sending v \<and> \<not> v_receiving v"
  shows "slots_ok c (vs[x := v])"
  using assms unfolding slots_ok_def by (simp add: nth_list_update)

lemma okep_self:
  assumes "slots_ok c vs" "x < length vs" "\<not> v_empty (vs ! x)"
  shows "okep c vs (v_ep (vs ! x)) = Some x"
  using assms unfolding slots_ok_def by (simp add: okep_def Let_def slot_def)

text \<open>Two live processes never share an endpoint.\<close>

lemma ep_inj:
  assumes "slots_ok c vs" "x < length vs" "\<not> v_empty (vs ! x)" "y < length vs" "\<not> v_empty (vs ! y)"
    and "v_ep (vs ! x) = v_ep (vs ! y)"
  shows "x = y"
  by (metis okep_self [OF assms(1-3)] okep_self [OF assms(1,4,5)] assms(6) option.inject)

subsection \<open>How the operations change the views\<close>

text \<open>Removing edges from an acyclic relation, and adding one that closes no cycle.\<close>

lemma acyclic_le: "acyclic r \<Longrightarrow> r' \<subseteq> r \<Longrightarrow> acyclic r'"
  by (rule acyclic_subset)

lemma acyclic_add: "acyclic r \<Longrightarrow> (d, x) \<notin> r\<^sup>* \<Longrightarrow> r' \<subseteq> insert (x, d) r \<Longrightarrow> acyclic r'"
  by (rule acyclic_subset [of "insert (x, d) r"]) (auto simp: acyclic_insert)

lemma waits_iff:
  "(x, y) \<in> waits c vs \<longleftrightarrow> x < length vs \<and> blockedon c (vs ! x) \<noteq> ANY c \<and> blockedon c (vs ! x) \<noteq> i_NONE c \<and>
     okep c vs (blockedon c (vs ! x)) = Some y"
  by (auto simp: waits_def)

text \<open>An update that only unblocks a process, or changes what does not matter, removes edges at most.\<close>

lemma waits_upd_le:
  assumes "v_empty v = v_empty (vs ! x)" "v_ep v = v_ep (vs ! x)"
    and "blockedon c v = blockedon c (vs ! x) \<or> blockedon c v = i_NONE c \<or> blockedon c v = ANY c"
  shows "waits c (vs[x := v]) \<subseteq> waits c vs"
proof
  fix e assume "e \<in> waits c (vs[x := v])"
  then obtain a b where e: "e = (a, b)" "(a, b) \<in> waits c (vs[x := v])" by (cases e) auto
  then show "e \<in> waits c vs"
    using assms by (cases "a = x") (auto simp: waits_iff)
qed

lemma wqs_ok_upd:
  assumes "wqs_ok c vs wq" and "v_empty v = v_empty (vs ! x)" "v_ep v = v_ep (vs ! x)"
    and "v_sending v = v_sending (vs ! x)" "v_sendto v = v_sendto (vs ! x)"
    and "v_callerq v = v_callerq (vs ! x)" "v_qlink v = v_qlink (vs ! x)"
  shows "wqs_ok c (vs[x := v]) wq"
proof -
  have "(\<lambda>i. v_qlink (vs[x := v] ! i)) = (\<lambda>i. v_qlink (vs ! i))"
    by (rule ext) (use assms(7) in \<open>simp add: nth_fields\<close>)
  then show ?thesis using assms unfolding wqs_ok_def okep_upd [OF assms(2,3)] by (simp add: nth_fields)
qed

text \<open>Delivery of a message to a process that waits in receive, or the mark of a delivery on a running process.\<close>

lemma ipc_inv_deliver:
  assumes I: "ipc_inv c vs wq" and d: "d < length vs" "\<not> v_sending (vs ! d)"
  shows "ipc_inv c (vs[d := (vs ! d)\<lparr>v_receiving := False, v_deliver := b\<rparr>]) wq"
proof -
  let ?v = "(vs ! d)\<lparr>v_receiving := False, v_deliver := b\<rparr>"
  have ok: "okep c (vs[d := ?v]) = okep c vs" by simp
  have "slots_ok c (vs[d := ?v])"
    using I d by (intro slots_ok_upd) (auto simp: ipc_inv_def slots_ok_def)
  moreover have "wqs_ok c (vs[d := ?v]) wq"
    using I by (intro wqs_ok_upd) (simp_all add: ipc_inv_def)
  moreover have "wants_ok c (vs[d := ?v])"
    using I d unfolding ipc_inv_def wants_ok_def ok by (simp add: nth_list_update)
  moreover have "none_missed c (vs[d := ?v])"
    using I d unfolding ipc_inv_def none_missed_def ok
    by (auto simp: nth_list_update willrecv_def dest: okepD)
  moreover have "acyclic (waits c (vs[d := ?v]))"
    using I d by (intro acyclic_le [OF _ waits_upd_le]) (simp_all add: ipc_inv_def blockedon_def)
  ultimately show ?thesis by (simp add: ipc_inv_def)
qed

lemma ipc_invD:
  assumes "ipc_inv c vs wq"
  shows "slots_ok c vs" "wqs_ok c vs wq" "wants_ok c vs" "none_missed c vs" "acyclic (waits c vs)"
  using assms by (simp_all add: ipc_inv_def)

lemma slotsD:
  assumes "slots_ok c vs" "x < length vs"
  shows "v_nr (vs ! x) = int x - int (k_NR_TASKS (kc c))" "v_free (vs ! x) \<Longrightarrow> v_empty (vs ! x)"
    "\<not> v_empty (vs ! x) \<Longrightarrow> v_ep (vs ! x) \<noteq> ANY c" "\<not> v_empty (vs ! x) \<Longrightarrow> v_ep (vs ! x) \<noteq> i_NONE c"
    "v_sending (vs ! x) \<Longrightarrow> \<not> v_empty (vs ! x)" "v_receiving (vs ! x) \<Longrightarrow> \<not> v_empty (vs ! x)" "\<not> v_delay (vs ! x)"
  using assms by (auto simp: slots_ok_def)

lemma wqsD:
  assumes "wqs_ok c vs wq"
  shows "length wq = length vs"
    and "d < length vs \<Longrightarrow> chain (\<lambda>i. v_qlink (vs ! i)) (v_callerq (vs ! d)) (wq ! d)"
    and "d < length vs \<Longrightarrow> x \<in> set (wq ! d) \<longleftrightarrow>
           x < length vs \<and> v_sending (vs ! x) \<and> okep c vs (v_sendto (vs ! x)) = Some d"
    and "x < length vs \<Longrightarrow> \<not> v_sending (vs ! x) \<Longrightarrow> v_qlink (vs ! x) = None"
  using assms by (auto simp: wqs_ok_def)

text \<open>
  A process starts to wait in the queue of \<open>d\<close>: first its own record changes, then it is linked
  behind the last element of the queue.
\<close>

definition link_last :: "nat list \<Rightarrow> nat \<Rightarrow> nat \<Rightarrow> pview list \<Rightarrow> pview list" where
  "link_last q d x vs =
     (if q = [] then vs[d := (vs ! d)\<lparr>v_callerq := Some x\<rparr>]
      else vs[last q := (vs ! last q)\<lparr>v_qlink := Some x\<rparr>])"

lemma link_last_simps [simp]:
  "length (link_last q d x vs) = length vs"
  "y < length vs \<Longrightarrow> v_empty (link_last q d x vs ! y) = v_empty (vs ! y)"
  "y < length vs \<Longrightarrow> v_free (link_last q d x vs ! y) = v_free (vs ! y)"
  "y < length vs \<Longrightarrow> v_sending (link_last q d x vs ! y) = v_sending (vs ! y)"
  "y < length vs \<Longrightarrow> v_receiving (link_last q d x vs ! y) = v_receiving (vs ! y)"
  "y < length vs \<Longrightarrow> v_sendto (link_last q d x vs ! y) = v_sendto (vs ! y)"
  "y < length vs \<Longrightarrow> v_getfrom (link_last q d x vs ! y) = v_getfrom (vs ! y)"
  "y < length vs \<Longrightarrow> v_ep (link_last q d x vs ! y) = v_ep (vs ! y)"
  "y < length vs \<Longrightarrow> v_nr (link_last q d x vs ! y) = v_nr (vs ! y)"
  "y < length vs \<Longrightarrow> v_deliver (link_last q d x vs ! y) = v_deliver (vs ! y)"
  "y < length vs \<Longrightarrow> v_delay (link_last q d x vs ! y) = v_delay (vs ! y)"
  "y < length vs \<Longrightarrow> v_noep (link_last q d x vs ! y) = v_noep (vs ! y)"
  unfolding link_last_def by (simp_all add: nth_fields)

lemma okep_link_last [simp]: "okep c (link_last q d x vs) = okep c vs"
  by (rule okep_cong) simp_all

lemma blockedon_link_last: "y < length vs \<Longrightarrow> blockedon c (link_last q d x vs ! y) = blockedon c (vs ! y)"
  by (simp add: blockedon_def)

lemma willrecv_link_last: "y < length vs \<Longrightarrow> willrecv c (link_last q d x vs ! y) = willrecv c (vs ! y)"
  by (simp add: willrecv_def fun_eq_iff)

lemma waits_link_last [simp]: "waits c (link_last q d x vs) = waits c vs"
  by (auto simp: waits_iff blockedon_link_last)

lemma chain_link_last:
  assumes W: "wqs_ok c vs wq" and x: "x < length vs" "\<not> v_sending (vs ! x)" and d: "d < length vs" "x \<noteq> d"
    and v: "v_qlink v = None" "v_callerq v = v_callerq (vs ! x)" and e: "e < length vs"
  shows "chain (\<lambda>i. v_qlink (link_last (wq ! d) d x (vs[x := v]) ! i))
    (v_callerq (link_last (wq ! d) d x (vs[x := v]) ! e)) (if e = d then wq ! d @ [x] else wq ! e)"
proof -
  let ?us = "link_last (wq ! d) d x (vs[x := v])"
  note D = wqsD [OF W]
  have notin: "x \<notin> set (wq ! e)" if "e < length vs" for e
    using D(3) [OF that] x by blast
  have ql: "v_qlink (vs ! x) = None" using D(4) x by blast
  have links: "(\<lambda>i. v_qlink (vs[x := v] ! i)) = (\<lambda>i. v_qlink (vs ! i))"
    by (rule ext) (use v ql in \<open>simp add: nth_fields\<close>)
  show ?thesis
  proof (cases "wq ! d = []")
    case True
    then have us: "?us = (vs[x := v])[d := (vs ! d)\<lparr>v_callerq := Some x\<rparr>]"
      using d by (simp add: link_last_def)
    have "(\<lambda>i. v_qlink (?us ! i)) = (\<lambda>i. v_qlink (vs ! i))"
      unfolding us links [symmetric] using d by (intro ext nth_upd_field) simp
    moreover have "v_callerq (?us ! e) = (if e = d then Some x else v_callerq (vs ! e))"
      unfolding us using d e v x by (simp add: nth_list_update)
    ultimately show ?thesis using True D(2) [OF e] ql by (cases "e = d") simp_all
  next
    case False
    then obtain ys l where wd: "wq ! d = ys @ [l]" by (metis rev_exhaust)
    have l: "l \<in> set (wq ! d)" using wd by simp
    then have ll: "l < length vs" using D(3) [OF d(1)] by blast
    have lx: "l \<noteq> x" using l notin [OF d(1)] by blast
    have us: "?us = (vs[x := v])[l := (vs ! l)\<lparr>v_qlink := Some x\<rparr>]"
      using lx wd by (simp add: link_last_def)
    have links': "(\<lambda>i. v_qlink (?us ! i)) = (\<lambda>i. v_qlink (vs ! i))(l := Some x, x := None)"
    proof
      fix i
      show "v_qlink (?us ! i) = ((\<lambda>i. v_qlink (vs ! i))(l := Some x, x := None)) i"
        unfolding us using ll lx x v(1) by (cases "i = l"; cases "i = x") auto
    qed
    have cq: "v_callerq (?us ! e) = v_callerq (vs ! e)"
      unfolding us using v(2) lx by (cases "e = l"; cases "e = x") (simp_all add: ll x(1))
    show ?thesis
    proof (cases "e = d")
      case True
      have "chain ((\<lambda>i. v_qlink (vs ! i))(l := Some x, x := None)) (v_callerq (vs ! d)) (ys @ [l, x])"
        using D(2) [OF d(1)] notin [OF d(1)] unfolding wd by (rule chain_append_last)
      then show ?thesis unfolding links' cq using True wd by simp
    next
      case other: False
      have "l \<notin> set (wq ! e)" using D(3) [OF e] D(3) [OF d(1)] l other by auto
      then show ?thesis unfolding links' cq using other D(2) [OF e] notin [OF e]
        by (simp add: chain_upd_other)
    qed
  qed
qed

lemma ipc_inv_block_sender:
  assumes I: "ipc_inv c vs wq" and x: "x < length vs" "\<not> v_sending (vs ! x)" "\<not> v_receiving (vs ! x)" "\<not> v_empty (vs ! x)"
      "\<not> v_noep (vs ! x)"
    and d: "okep c vs e = Some d" "x \<noteq> d" and nr: "\<not> willrecv c (vs ! d) (v_ep (vs ! x))"
    and cyc: "(d, x) \<notin> (waits c vs)\<^sup>*"
  defines "vs1 \<equiv> vs[x := (vs ! x)\<lparr>v_sending := True, v_sendto := e\<rparr>]"
  shows "ipc_inv c (link_last (wq ! d) d x vs1) (wq[d := wq ! d @ [x]])"
proof -
  let ?v = "(vs ! x)\<lparr>v_sending := True, v_sendto := e\<rparr>"
  let ?us = "link_last (wq ! d) d x vs1"
  note D = ipc_invD [OF I] and W = wqsD [OF ipc_invD(2) [OF I]]
  have dl: "d < length vs" using okepD [OF d(1)] by simp
  have len: "length vs1 = length vs" by (simp add: vs1_def)
  have ok: "okep c ?us = okep c vs" by (simp add: vs1_def)
  have ok1: "okep c vs1 = okep c vs" by (simp add: vs1_def)
  have nth: "vs1 ! y = (if y = x then ?v else vs ! y)" if "y < length vs" for y
    using that x(1) by (simp add: vs1_def)
  have "slots_ok c vs1"
    unfolding vs1_def using D(1) x by (intro slots_ok_upd) simp_all
  then have "slots_ok c ?us" by (simp add: slots_ok_def)
  moreover have "wqs_ok c ?us (wq[d := wq ! d @ [x]])"
    unfolding wqs_ok_def
  proof (intro conjI allI impI)
    show "length (wq[d := wq ! d @ [x]]) = length ?us" using W(1) len by simp
  next
    fix f assume "f < length ?us"
    then have f: "f < length vs" by (simp add: len)
    have "chain (\<lambda>i. v_qlink (?us ! i)) (v_callerq (?us ! f)) (if f = d then wq ! d @ [x] else wq ! f)"
      unfolding vs1_def
      by (rule chain_link_last [OF D(2) x(1,2) dl d(2)]) (use f W(4) [OF x(1,2)] in simp_all)
    then show "chain (\<lambda>i. v_qlink (?us ! i)) (v_callerq (?us ! f)) (wq[d := wq ! d @ [x]] ! f)"
      using dl W(1) by (cases "f = d") simp_all
    fix y
    have "y \<in> set (if f = d then wq ! d @ [x] else wq ! f) \<longleftrightarrow>
        y < length vs \<and> v_sending (vs1 ! y) \<and> okep c vs (v_sendto (vs1 ! y)) = Some f"
    proof (cases "y = x")
      case True
      with W(3) [OF f, of y] x d(1) nth [OF x(1)] show ?thesis by auto
    next
      case False
      then have "vs1 ! y = vs ! y" if "y < length vs" using nth [OF that] by simp
      then show ?thesis using W(3) [OF f, of y] False by auto
    qed
    then show "y \<in> set (wq[d := wq ! d @ [x]] ! f) \<longleftrightarrow>
        y < length ?us \<and> v_sending (?us ! y) \<and> okep c ?us (v_sendto (?us ! y)) = Some f"
      using dl W(1) ok by (cases "f = d"; cases "y < length vs") (simp_all add: len)
  next
    fix y assume y: "y < length ?us" "\<not> v_sending (?us ! y)"
    then have yl: "y < length vs" by (simp add: len)
    with y nth [OF yl] have yx: "y \<noteq> x" by (auto simp: len)
    with y nth [OF yl] yl have ns: "\<not> v_sending (vs ! y)" by (simp add: len)
    show "v_qlink (?us ! y) = None"
    proof (cases "wq ! d = []")
      case True
      then show ?thesis using W(4) [OF yl ns] nth [OF yl] yx yl dl
        by (simp add: link_last_def len nth_list_update nth [OF dl] d(2) [symmetric])
    next
      case False
      then have "last (wq ! d) \<in> set (wq ! d)" by simp
      with W(3) [OF dl] ns have "y \<noteq> last (wq ! d)" by blast
      then show ?thesis using W(4) [OF yl ns] nth [OF yl] yx False by (simp add: link_last_def)
    qed
  qed
  moreover have "wants_ok c ?us"
    using D(3) x d(1) unfolding wants_ok_def ok by (simp add: len nth)
  moreover have "none_missed c ?us"
    unfolding none_missed_def ok
  proof (intro allI impI)
    fix y f
    assume y: "y < length ?us" "v_sending (?us ! y)" "okep c vs (v_sendto (?us ! y)) = Some f"
    then have yl: "y < length vs" by (simp add: len)
    have fl: "f < length vs" using okepD [OF y(3)] by simp
    have w: "willrecv c (?us ! f) (v_ep (?us ! y)) \<longrightarrow> willrecv c (vs ! f) (v_ep (vs ! y))"
      using fl yl nth [OF fl] nth [OF yl] by (auto simp: willrecv_link_last len willrecv_def)
    have "\<not> willrecv c (vs ! f) (v_ep (vs ! y))"
    proof (cases "y = x")
      case True
      with y nth [OF yl] d(1) yl have "f = d" by (simp add: len)
      with nr True show ?thesis by simp
    next
      case False
      with y nth [OF yl] yl D(4) show ?thesis by (auto simp: len none_missed_def)
    qed
    with w show "\<not> willrecv c (?us ! f) (v_ep (?us ! y))" by blast
  qed
  moreover have "acyclic (waits c ?us)"
  proof (rule acyclic_add [OF D(5) cyc])
    show "waits c ?us \<subseteq> insert (x, d) (waits c vs)"
    proof
      fix q assume "q \<in> waits c ?us"
      then obtain a b where q: "q = (a, b)" "(a, b) \<in> waits c vs1" by (cases q) auto
      then have al: "a < length vs" by (simp add: waits_iff len)
      show "q \<in> insert (x, d) (waits c vs)"
      proof (cases "a = x")
        case True
        with q d(1) nth [OF al] show ?thesis by (simp add: waits_iff ok1 blockedon_def)
      next
        case False
        with nth [OF al] have "vs1 ! a = vs ! a" by simp
        with q show ?thesis by (simp add: waits_iff ok1 len)
      qed
    qed
  qed
  ultimately show ?thesis by (simp add: ipc_inv_def)
qed

text \<open>A receiver blocks: a process that is not waiting at all, or one whose send of a \<^verbatim>\<open>SENDREC\<close> is queued.\<close>

lemma ipc_inv_block_receiver:
  assumes I: "ipc_inv c vs wq" and x: "x < length vs" "\<not> v_sending (vs ! x)" "\<not> v_empty (vs ! x)" "\<not> v_deliver (vs ! x)"
    and e: "e = ANY c \<or> (\<exists>s. okep c vs e = Some s \<and> (s, x) \<notin> (waits c vs)\<^sup>*)"
    and none: "\<And>y. y \<in> set (wq ! x) \<Longrightarrow> e \<noteq> ANY c \<and> v_ep (vs ! y) \<noteq> e"
  shows "ipc_inv c (vs[x := (vs ! x)\<lparr>v_receiving := True, v_getfrom := e\<rparr>]) wq"
proof -
  let ?v = "(vs ! x)\<lparr>v_receiving := True, v_getfrom := e\<rparr>"
  let ?us = "vs[x := ?v]"
  note D = ipc_invD [OF I] and W = wqsD [OF ipc_invD(2) [OF I]]
  have ok: "okep c ?us = okep c vs" by simp
  have nth: "?us ! y = (if y = x then ?v else vs ! y)" if "y < length vs" for y
    using that by simp
  have "slots_ok c ?us" using D(1) x by (intro slots_ok_upd) simp_all
  moreover have "wqs_ok c ?us wq" using D(2) by (rule wqs_ok_upd) simp_all
  moreover have "wants_ok c ?us"
    using D(3) x e unfolding wants_ok_def ok by (auto simp: nth)
  moreover have "none_missed c ?us"
    unfolding none_missed_def ok
  proof (intro allI impI)
    fix y f
    assume y: "y < length ?us" "v_sending (?us ! y)" "okep c vs (v_sendto (?us ! y)) = Some f"
    have fl: "f < length vs" using okepD [OF y(3)] by simp
    have y': "y < length vs" "v_sending (vs ! y)" "okep c vs (v_sendto (vs ! y)) = Some f" "v_ep (?us ! y) = v_ep (vs ! y)"
      using y by (simp_all add: nth_fields)
    show "\<not> willrecv c (?us ! f) (v_ep (?us ! y))"
    proof (cases "f = x")
      case True
      with y' W(3) [OF x(1), of y] have "y \<in> set (wq ! x)" by blast
      with none [OF this] True x(1) y'(4) show ?thesis by (simp add: willrecv_def)
    next
      case False
      with D(4) y' fl show ?thesis by (simp add: none_missed_def)
    qed
  qed
  moreover have "acyclic (waits c ?us)"
  proof (cases "e = ANY c")
    case True
    then have "waits c ?us \<subseteq> waits c vs"
      using x by (intro waits_upd_le) (simp_all add: blockedon_def)
    with D(5) show ?thesis by (rule acyclic_le)
  next
    case False
    with e obtain s where s: "okep c vs e = Some s" "(s, x) \<notin> (waits c vs)\<^sup>*" by blast
    show ?thesis
    proof (rule acyclic_add [OF D(5) s(2)])
      show "waits c ?us \<subseteq> insert (x, s) (waits c vs)"
      proof
        fix q assume "q \<in> waits c ?us"
        then obtain a b where q: "q = (a, b)" "(a, b) \<in> waits c ?us" by (cases q) auto
        then have al: "a < length vs" by (simp add: waits_iff)
        with q s(1) x(2) show "q \<in> insert (x, s) (waits c vs)"
          by (cases "a = x") (simp_all add: waits_iff blockedon_def)
      qed
    qed
  qed
  ultimately show ?thesis by (simp add: ipc_inv_def)
qed

lemma ipc_inv_block_sendrec:
  assumes I: "ipc_inv c vs wq" and x: "x < length vs" "v_sending (vs ! x)" "\<not> v_deliver (vs ! x)"
  shows "ipc_inv c (vs[x := (vs ! x)\<lparr>v_receiving := True, v_getfrom := v_sendto (vs ! x)\<rparr>]) wq"
proof -
  let ?v = "(vs ! x)\<lparr>v_receiving := True, v_getfrom := v_sendto (vs ! x)\<rparr>"
  let ?us = "vs[x := ?v]"
  note D = ipc_invD [OF I]
  have ok: "okep c ?us = okep c vs" by simp
  have nth: "?us ! y = (if y = x then ?v else vs ! y)" if "y < length vs" for y
    using that by simp
  have "slots_ok c ?us" using D(1) x slotsD(5) [OF D(1) x(1)] by (intro slots_ok_upd) simp_all
  moreover have "wqs_ok c ?us wq" using D(2) by (rule wqs_ok_upd) simp_all
  moreover have "wants_ok c ?us"
    using D(3) x unfolding wants_ok_def ok by (auto simp: nth)
  moreover have "none_missed c ?us"
    unfolding none_missed_def ok
  proof (intro allI impI)
    fix y f
    assume y: "y < length ?us" "v_sending (?us ! y)" "okep c vs (v_sendto (?us ! y)) = Some f"
    have fl: "f < length vs" using okepD [OF y(3)] by simp
    have y': "y < length vs" "v_sending (vs ! y)" "okep c vs (v_sendto (vs ! y)) = Some f" "v_ep (?us ! y) = v_ep (vs ! y)"
      using y by (simp_all add: nth_fields)
    with D(4) fl x(1,2) show "\<not> willrecv c (?us ! f) (v_ep (?us ! y))"
      by (cases "f = x") (simp_all add: none_missed_def willrecv_def)
  qed
  moreover have "acyclic (waits c ?us)"
    using x D(5) by (intro acyclic_le [OF _ waits_upd_le]) (simp_all add: blockedon_def)
  ultimately show ?thesis by (simp add: ipc_inv_def)
qed

text \<open>A queued sender is taken from the queue of \<open>r\<close>; \<open>prev\<close> is the element before it, if any.\<close>

definition unlink_view :: "nat option \<Rightarrow> nat \<Rightarrow> nat \<Rightarrow> pview list \<Rightarrow> pview list" where
  "unlink_view prev r x vs =
     (let nx = v_qlink (vs ! x);
          vs1 = (case prev of None \<Rightarrow> vs[r := (vs ! r)\<lparr>v_callerq := nx\<rparr>]
                 | Some a \<Rightarrow> vs[a := (vs ! a)\<lparr>v_qlink := nx\<rparr>]) in
      vs1[x := (vs1 ! x)\<lparr>v_qlink := None\<rparr>])"

lemma unlink_view_simps [simp]:
  "length (unlink_view prev r x vs) = length vs"
  "v_empty (unlink_view prev r x vs ! y) = v_empty (vs ! y)"
  "v_free (unlink_view prev r x vs ! y) = v_free (vs ! y)"
  "v_sending (unlink_view prev r x vs ! y) = v_sending (vs ! y)"
  "v_receiving (unlink_view prev r x vs ! y) = v_receiving (vs ! y)"
  "v_sendto (unlink_view prev r x vs ! y) = v_sendto (vs ! y)"
  "v_getfrom (unlink_view prev r x vs ! y) = v_getfrom (vs ! y)"
  "v_ep (unlink_view prev r x vs ! y) = v_ep (vs ! y)"
  "v_nr (unlink_view prev r x vs ! y) = v_nr (vs ! y)"
  "v_deliver (unlink_view prev r x vs ! y) = v_deliver (vs ! y)"
  "v_delay (unlink_view prev r x vs ! y) = v_delay (vs ! y)"
  "v_noep (unlink_view prev r x vs ! y) = v_noep (vs ! y)"
  unfolding unlink_view_def Let_def by (simp_all add: nth_fields split: option.split)

lemma okep_unlink_view [simp]: "okep c (unlink_view prev r x vs) = okep c vs"
  by (rule okep_cong) simp_all

lemma waits_unlink_view [simp]: "waits c (unlink_view prev r x vs) = waits c vs"
proof -
  have "blockedon c (unlink_view prev r x vs ! a) = blockedon c (vs ! a)" for a
    by (simp add: blockedon_def)
  then show ?thesis by (auto simp: waits_iff)
qed

definition last_opt :: "'a list \<Rightarrow> 'a option" where
  "last_opt xs = (if xs = [] then None else Some (last xs))"

lemma chain_unlink_view:
  assumes W: "wqs_ok c vs wq" and r: "r < length vs" "wq ! r = us @ x # ws" "r \<noteq> x"
    and ql: "\<And>i. v_qlink (vs1 ! i) = v_qlink (vs ! i)" and cq: "\<And>i. v_callerq (vs1 ! i) = v_callerq (vs ! i)"
    and len: "length vs1 = length vs" and e: "e < length vs"
  shows "chain (\<lambda>i. v_qlink (unlink_view (last_opt us) r x vs1 ! i))
    (v_callerq (unlink_view (last_opt us) r x vs1 ! e)) (if e = r then us @ ws else wq ! e)"
proof -
  note D = wqsD [OF W]
  let ?q = "\<lambda>i. v_qlink (vs ! i)"
  have xr: "x \<in> set (wq ! r)" using r(2) by simp
  have xl: "x < length vs" using D(3) [OF r(1)] xr by blast
  have dist: "distinct (us @ x # ws)" using chain_distinct [OF D(2) [OF r(1)]] r(2) by simp
  have other: "y \<notin> set (wq ! e)" if "y \<in> set (wq ! r)" "e \<noteq> r" for y
    using D(3) [OF r(1), of y] D(3) [OF e, of y] that by auto
  show ?thesis
  proof (cases us rule: rev_cases)
    case Nil
    have links: "(\<lambda>i. v_qlink (unlink_view (last_opt us) r x vs1 ! i)) = ?q(x := None)"
    proof
      fix i show "v_qlink (unlink_view (last_opt us) r x vs1 ! i) = (?q(x := None)) i"
        using Nil xl by (cases "i = x") (simp_all add: unlink_view_def Let_def last_opt_def len nth_fields ql)
    qed
    have head: "v_callerq (unlink_view (last_opt us) r x vs1 ! e) = (if e = r then ?q x else v_callerq (vs ! e))"
      using Nil r(1,3) by (simp add: unlink_view_def Let_def last_opt_def len nth_fields ql cq)
    show ?thesis
    proof (cases "e = r")
      case True
      have "chain ?q (?q x) ws" using D(2) [OF r(1)] r(2) Nil by simp
      then show ?thesis unfolding links head using True Nil dist by (simp add: chain_upd_other)
    next
      case False
      then show ?thesis unfolding links head using D(2) [OF e] other [OF xr] by (simp add: chain_upd_other)
    qed
  next
    case (snoc ys a)
    then have ar: "a \<in> set (wq ! r)" and ax: "a \<noteq> x" using r(2) dist by auto
    have al: "a < length vs" using D(3) [OF r(1)] ar by blast
    have links: "(\<lambda>i. v_qlink (unlink_view (last_opt us) r x vs1 ! i)) = ?q(a := ?q x, x := None)"
    proof
      fix i show "v_qlink (unlink_view (last_opt us) r x vs1 ! i) = (?q(a := ?q x, x := None)) i"
        using snoc xl al ax by (cases "i = x"; cases "i = a") (simp_all add: unlink_view_def Let_def last_opt_def len ql)
    qed
    have head: "v_callerq (unlink_view (last_opt us) r x vs1 ! e) = v_callerq (vs ! e)"
      using snoc by (simp add: unlink_view_def Let_def last_opt_def nth_fields cq)
    show ?thesis
    proof (cases "e = r")
      case True
      have "chain (?q(a := ?q x)) (v_callerq (vs ! r)) (ys @ a # ws)"
        using D(2) [OF r(1)] r(2) snoc by (intro chain_remove_mid) simp
      then show ?thesis unfolding links head using True snoc dist by (simp add: chain_upd_other)
    next
      case False
      then show ?thesis unfolding links head using D(2) [OF e] other [OF xr] other [OF ar]
        by (simp add: chain_upd_other)
    qed
  qed
qed

lemma ipc_inv_take_sender:
  assumes I: "ipc_inv c vs wq" and r: "r < length vs" "\<not> v_sending (vs ! r)" "\<not> v_receiving (vs ! r)"
    and q: "wq ! r = us @ x # ws"
  defines "vs1 \<equiv> (vs[r := (vs ! r)\<lparr>v_deliver := True\<rparr>])[x := (vs ! x)\<lparr>v_sending := False\<rparr>]"
  shows "ipc_inv c (unlink_view (last_opt us) r x vs1) (wq[r := us @ ws])"
proof -
  let ?us = "unlink_view (last_opt us) r x vs1"
  note D = ipc_invD [OF I] and W = wqsD [OF ipc_invD(2) [OF I]]
  have x: "x < length vs" "v_sending (vs ! x)" "okep c vs (v_sendto (vs ! x)) = Some r"
    using W(3) [OF r(1), of x] q by auto
  then have rx: "r \<noteq> x" using r(2) by blast
  have len: "length vs1 = length vs" by (simp add: vs1_def)
  have ok1: "okep c vs1 = okep c vs" using rx by (simp add: vs1_def)
  have nth: "vs1 ! y = (if y = x then (vs ! x)\<lparr>v_sending := False\<rparr>
      else if y = r then (vs ! r)\<lparr>v_deliver := True\<rparr> else vs ! y)" if "y < length vs" for y
    using that rx by (simp add: vs1_def)
  have same: "v_qlink (vs1 ! y) = v_qlink (vs ! y)" "v_callerq (vs1 ! y) = v_callerq (vs ! y)"
      "v_ep (vs1 ! y) = v_ep (vs ! y)" "v_sendto (vs1 ! y) = v_sendto (vs ! y)"
      "v_getfrom (vs1 ! y) = v_getfrom (vs ! y)" "v_receiving (vs1 ! y) = v_receiving (vs ! y)" for y
    using rx by (simp_all add: vs1_def nth_fields)
  have snd: "v_sending (vs1 ! y) \<longleftrightarrow> v_sending (vs ! y) \<and> y \<noteq> x" if "y < length vs" for y
    using nth [OF that] by auto
  have dist: "distinct (us @ x # ws)" using chain_distinct [OF W(2) [OF r(1)]] q by simp
  have "slots_ok c (vs[r := (vs ! r)\<lparr>v_deliver := True\<rparr>])"
    using D(1) r by (intro slots_ok_upd) simp_all
  then have "slots_ok c vs1"
    unfolding vs1_def by (rule slots_ok_upd) (use x slotsD(5) [OF D(1) x(1,2)] rx in simp_all)
  then have "slots_ok c ?us" by (simp add: slots_ok_def)
  moreover have "wqs_ok c ?us (wq[r := us @ ws])"
    unfolding wqs_ok_def
  proof (intro conjI allI impI)
    show "length (wq[r := us @ ws]) = length ?us" using W(1) len by simp
  next
    fix f assume "f < length ?us"
    then have f: "f < length vs" by (simp add: len)
    have "chain (\<lambda>i. v_qlink (?us ! i)) (v_callerq (?us ! f)) (if f = r then us @ ws else wq ! f)"
      by (rule chain_unlink_view [OF D(2) r(1) q rx same(1,2) len f])
    then show "chain (\<lambda>i. v_qlink (?us ! i)) (v_callerq (?us ! f)) (wq[r := us @ ws] ! f)"
      using r(1) W(1) by (cases "f = r") simp_all
    fix y
    have "y \<in> set (if f = r then us @ ws else wq ! f) \<longleftrightarrow>
        y \<in> set (wq ! f) \<and> y \<noteq> x"
      using q dist W(3) [OF f, of x] x(3) by auto
    moreover have "y \<in> set (wq ! f) \<and> y \<noteq> x \<longleftrightarrow>
        y < length vs \<and> v_sending (vs1 ! y) \<and> okep c vs (v_sendto (vs1 ! y)) = Some f"
      using W(3) [OF f, of y] snd [of y] by (auto simp: same)
    ultimately show "y \<in> set (wq[r := us @ ws] ! f) \<longleftrightarrow>
        y < length ?us \<and> v_sending (?us ! y) \<and> okep c ?us (v_sendto (?us ! y)) = Some f"
      using r(1) W(1) by (cases "f = r") (simp_all add: len ok1)
  next
    fix y assume y: "y < length ?us" "\<not> v_sending (?us ! y)"
    then have yl: "y < length vs" by (simp add: len)
    show "v_qlink (?us ! y) = None"
    proof (cases "y = x")
      case True
      then show ?thesis using x(1) by (simp add: unlink_view_def Let_def len split: option.split)
    next
      case False
      then have ns: "\<not> v_sending (vs ! y)" using y snd [OF yl] by simp
      have "last_opt us \<noteq> Some y"
        using W(3) [OF r(1), of y] q ns last_in_set [of us] by (auto simp: last_opt_def)
      then show ?thesis using False W(4) [OF yl ns]
        by (auto simp: unlink_view_def Let_def len nth_fields same split: option.split)
    qed
  qed
  moreover have "wants_ok c ?us"
    unfolding wants_ok_def
  proof (intro allI impI)
    fix y assume "y < length ?us"
    then have yl: "y < length vs" by (simp add: len)
    with D(3) r(3) nth [OF yl] show "(v_sending (?us ! y) \<longrightarrow> okep c ?us (v_sendto (?us ! y)) \<noteq> None) \<and>
       (v_receiving (?us ! y) \<longrightarrow> \<not> v_deliver (?us ! y)) \<and> (v_sending (?us ! y) \<longrightarrow> \<not> v_noep (?us ! y)) \<and>
       (v_receiving (?us ! y) \<longrightarrow> v_getfrom (?us ! y) \<noteq> ANY c \<longrightarrow> okep c ?us (v_getfrom (?us ! y)) \<noteq> None) \<and>
       (v_sending (?us ! y) \<longrightarrow> v_receiving (?us ! y) \<longrightarrow> v_getfrom (?us ! y) = v_sendto (?us ! y))"
      unfolding wants_ok_def by (simp add: ok1 del: not_None_eq)
  qed
  moreover have "none_missed c ?us"
    unfolding none_missed_def
  proof (intro allI impI)
    fix y f
    assume y: "y < length ?us" "v_sending (?us ! y)" "okep c ?us (v_sendto (?us ! y)) = Some f"
    then have yl: "y < length vs" by (simp add: len)
    from y snd [OF yl] have y': "v_sending (vs ! y)" "y \<noteq> x" "okep c vs (v_sendto (vs ! y)) = Some f"
      by (simp_all add: ok1 same)
    have fl: "f < length vs" using okepD [OF y'(3)] by simp
    show "\<not> willrecv c (?us ! f) (v_ep (?us ! y))"
    proof (cases "f = x")
      case False
      with D(4) yl y' snd [OF fl] show ?thesis by (auto simp: none_missed_def willrecv_def same)
    next
      case True
      show ?thesis
      proof (cases "v_receiving (vs ! x)")
        case rec: True
        with D(3) x have g: "v_getfrom (vs ! x) = v_sendto (vs ! x)" by (simp add: wants_ok_def)
        have er: "v_ep (vs ! r) = v_sendto (vs ! x)" "\<not> v_empty (vs ! r)" using okepD [OF x(3)] by simp_all
        have "v_getfrom (vs ! x) \<noteq> ANY c" using g er slotsD(3) [OF D(1) r(1)] by simp
        moreover have "v_getfrom (vs ! x) \<noteq> v_ep (vs ! y)"
        proof
          assume "v_getfrom (vs ! x) = v_ep (vs ! y)"
          then have "r = y" using g er slotsD(5) [OF D(1) yl y'(1)] yl
            by (intro ep_inj [OF D(1) r(1) er(2)]) simp_all
          with r(2) y'(1) show False by simp
        qed
        ultimately show ?thesis using True by (simp add: willrecv_def same)
      qed (simp add: True willrecv_def same)
    qed
  qed
  moreover have "acyclic (waits c ?us)"
  proof -
    have "waits c (vs[r := (vs ! r)\<lparr>v_deliver := True\<rparr>]) \<subseteq> waits c vs"
      by (rule waits_upd_le) (simp_all add: blockedon_def)
    moreover have "waits c vs1 \<subseteq> waits c (vs[r := (vs ! r)\<lparr>v_deliver := True\<rparr>])"
    proof -
      have "v_receiving (vs ! x) \<Longrightarrow> v_getfrom (vs ! x) = v_sendto (vs ! x)"
        using D(3) x by (simp add: wants_ok_def)
      then show ?thesis unfolding vs1_def using rx x
        by (intro waits_upd_le) (auto simp: blockedon_def)
    qed
    ultimately show ?thesis using D(5) by (simp add: acyclic_subset)
  qed
  ultimately show ?thesis by (simp add: ipc_inv_def)
qed

subsection \<open>\<^verbatim>\<open>deadlock\<close> is exact\<close>

lemma waits_trancl_step:
  assumes "(d, f) \<in> waits c vs"
  shows "(d, x) \<in> (waits c vs)\<^sup>+ \<longleftrightarrow> f = x \<or> (f, x) \<in> (waits c vs)\<^sup>+"
proof
  assume "(d, x) \<in> (waits c vs)\<^sup>+"
  then obtain g where "(d, g) \<in> waits c vs" "g = x \<or> (g, x) \<in> (waits c vs)\<^sup>+"
    using tranclD rtranclD by metis
  with waits_functional [OF assms] show "f = x \<or> (f, x) \<in> (waits c vs)\<^sup>+" by blast
qed (use assms in \<open>auto intro: trancl_into_trancl2\<close>)

text \<open>
  The result of the loop: a group size exactly if the caller \<open>x\<close> is reached from \<open>d\<close>; the only exception is a first
  process that waits for the caller in the other direction.
\<close>

lemma deadlock_walk_exact:
  assumes I: "ipc_inv c (views (ks s)) wq" and x: "x < length (kprocs (ks s))" "\<not> isemptyp (ip s x)"
    and e: "okep c (views (ks s)) e = Some d" and g: "1 \<le> g"
  shows "\<exists>n. deadlock_walk c fn x s e g = Some n \<and>
    (n \<noteq> 0 \<longleftrightarrow> (d, x) \<in> (waits c (views (ks s)))\<^sup>+ \<and>
       \<not> (g = 1 \<and> blockedon c (pv (ip s d)) = p_endpoint (ip s x) \<and>
          (p_rts_flags (ip s d) XOR push_bit 2 (word_of_nat fn)) AND RTS_SENDING \<noteq> 0))"
proof -
  let ?vs = "views (ks s)"
  let ?R = "waits c ?vs"
  note D = ipc_invD [OF I]
  have wf: "wf (?R\<inverse>)"
    using finite_waits D(5) by (rule finite_acyclic_wf_converse)
  show ?thesis
    using wf e g
  proof (induction d arbitrary: e g rule: wf_induct_rule)
    case (less d)
    show ?case
    proof -
      note g = less.prems(2) and dl = okepD [OF less.prems(1)]
      then have dl': "d < length (kprocs (ks s))" "p_endpoint (ip s d) = e" "\<not> isemptyp (ip s d)" by auto
      have eA: "e \<noteq> ANY c" using slotsD(3) [OF D(1)] dl by auto
      have nf: "\<not> RTS_ISSET (ip s d) RTS_SLOT_FREE"
        using slotsD(2) [OF D(1), of d] dl' by (auto simp: flag_tests)
      let ?e = "blockedon c (pv (ip s d))"
      have step: "deadlock_walk c fn x s e g =
          (if ?e = i_NONE c then Some 0
           else if ?e = p_endpoint (ip s x) then
             (if g + 1 = 2 \<and> (p_rts_flags (ip s d) XOR push_bit 2 (word_of_nat fn)) AND RTS_SENDING \<noteq> 0
              then Some 0 else Some (g + 1))
           else deadlock_walk c fn x s ?e (g + 1))"
        using eA nf less.prems(1)
        by (subst deadlock_walk.simps) (simp add: okep_views P_BLOCKEDON_view Let_def)
      have xs: "okep c ?vs (p_endpoint (ip s x)) = Some x"
        using okep_self [OF D(1), of x] x by simp
      have xep: "p_endpoint (ip s x) \<noteq> ANY c" "p_endpoint (ip s x) \<noteq> i_NONE c"
        using slotsD(3,4) [OF D(1), of x] x by simp_all
      have valid: "?e = i_NONE c \<or> ?e = ANY c \<or> (\<exists>f. okep c ?vs ?e = Some f)"
        using D(3) dl' by (auto simp: wants_ok_def blockedon_def)
      have no: "(d, x) \<notin> ?R\<^sup>+" if "?e = i_NONE c \<or> ?e = ANY c"
      proof
        assume "(d, x) \<in> ?R\<^sup>+"
        then obtain f where "(d, f) \<in> ?R" by (blast dest: tranclD)
        with that show False by (auto simp: waits_iff dl'(1))
      qed
      have edge: "(d, f) \<in> ?R" if "okep c ?vs ?e = Some f" "?e \<noteq> i_NONE c" "?e \<noteq> ANY c" for f
        using that dl'(1) by (simp add: waits_iff)
      consider (nobody) "?e = i_NONE c" | (closes) "?e = p_endpoint (ip s x)" | (anybody) "?e = ANY c" "?e \<noteq> i_NONE c"
        | (more_steps) f where "okep c ?vs ?e = Some f" "?e \<noteq> i_NONE c" "?e \<noteq> ANY c" "?e \<noteq> p_endpoint (ip s x)"
        using valid by blast
      then show ?thesis
      proof cases
        case nobody
        with step no xep show ?thesis by auto
      next
        case closes
        then have "(d, x) \<in> ?R\<^sup>+" using edge [of x] xs xep by auto
        with closes step xep show ?thesis by auto
      next
        case anybody
        then have "deadlock_walk c fn x s ?e (g + 1) = Some 0"
          by (subst deadlock_walk.simps) simp
        with anybody step no xep show ?thesis by auto
      next
        case (more_steps f) note more = this
        have "(f, d) \<in> ?R\<inverse>" using edge more by simp
        from less.IH [OF this more(1), of "g + 1"]
        obtain n where n: "deadlock_walk c fn x s ?e (g + 1) = Some n" "n \<noteq> 0 \<longleftrightarrow> (f, x) \<in> ?R\<^sup>+"
          using g by auto
        have "f \<noteq> x" using more(1,4) okepD [OF more(1)] by auto
        with waits_trancl_step [OF edge, of f x] more n(2) have "n \<noteq> 0 \<longleftrightarrow> (d, x) \<in> ?R\<^sup>+" by simp
        with n(1) step more(2,4) show ?thesis by auto
      qed
    qed
  qed
qed

end
