(* ===== verification/KDeadlock.thy ===== *)
theory KDeadlock
  imports KWait
begin

text \<open>
  Message passing keeps the invariant of \<^verbatim>\<open>KWait\<close>: every synchronous call of a process that is
  running returns, and leaves queues, flags and wait graph consistent.  It follows that no set of
  processes ever waits in a circle.
\<close>

unbundle bit_operations_syntax

subsection \<open>Views after the basic updates\<close>

definition ready :: "istate \<Rightarrow> bool" where
  "ready s \<longleftrightarrow> (\<exists>qs. ready_ok (ks s) qs {})"

lemma views_upd_ip: "views (ks (upd_ip x f s)) = (views (ks s))[x := pv (f (ip s x))]"
  by (simp add: views_def upd_ip_def upd_kp_def map_update)

lemma upd_frame [simp]:
  "length (kprocs (ks (upd_ip x f s))) = length (kprocs (ks s))" "proc_ptr (ks (upd_ip x f s)) = proc_ptr (ks s)"
  "views (ks (upd_priv i g s)) = views (ks s)" "kprocs (ks (upd_priv i g s)) = kprocs (ks s)"
  "proc_ptr (ks (upd_priv i g s)) = proc_ptr (ks s)"
  "x < length (kprocs (ks s)) \<Longrightarrow> ip (upd_ip x f s) x = f (ip s x)"
  "y \<noteq> x \<Longrightarrow> ip (upd_ip x f s) y = ip s y"
  by (simp_all add: upd_ip_def upd_priv_def views_def)

lemma ready_upd:
  assumes "ready s"
    and "\<And>p. p_nextready (f p) = p_nextready p" "\<And>p. p_rts_flags (f p) = p_rts_flags p"
    and "\<And>p. p_priority (f p) = p_priority p"
  shows "ready (upd_ip x f s)"
  using assms(1) ready_ok_upd_same [of "ks s" _ "{}" f x, OF _ assms(2-4)]
  unfolding ready_def upd_ip_def by auto

lemma ready_upd_priv [simp]: "ready (upd_priv i g s) = ready s"
proof -
  have "nxt (ks s\<lparr>kprivs := p\<rparr>) = nxt (ks s)" for p by (simp add: nxt_def fun_eq_iff)
  then show ?thesis by (simp add: ready_def upd_priv_def ready_ok_def queues_def)
qed

lemma mf_bits:
  fixes w :: "16 word"
  shows "bit (w OR 0x40) 6" "bit (w OR 0x40) 7 = bit w 7"
    "bit (w OR 1) 6 = bit w 6" "bit (w OR 1) 7 = bit w 7" "bit (w OR 0x2000) 6 = bit w 6" "bit (w OR 0x2000) 7 = bit w 7"
    "bit (w OR 0x10) 6 = bit w 6" "bit (w OR 0x10) 7 = bit w 7"
    "bit (w AND - 2) 6 = bit w 6" "bit (w AND - 2) 7 = bit w 7"
    "bit (w AND - 8193) 6 = bit w 6" "bit (w AND - 8193) 7 = bit w 7"
    "bit (w AND - 17) 6 = bit w 6" "bit (w AND - 17) 7 = bit w 7"
    "\<not> bit (w AND - 65) 6" "bit (w AND - 65) 7 = bit w 7"
  by (simp_all add: bit_simps)

lemma pv_mf [simp]:
  "pv (IPC_STATUS_ADD m p) = pv p"
  "pv (set_mf MF_DELIVERMSG p) = (pv p)\<lparr>v_deliver := True\<rparr>"
  "pv (clear_mf MF_DELIVERMSG p) = (pv p)\<lparr>v_deliver := False\<rparr>"
  "pv (set_mf MF_REPLY_PEND p) = pv p" "pv (clear_mf MF_REPLY_PEND p) = pv p"
  "pv (set_mf MF_SENDING_FROM_KERNEL p) = pv p" "pv (clear_mf MF_SENDING_FROM_KERNEL p) = pv p"
  "pv (set_mf MF_ASYNMSG p) = pv p" "pv (clear_mf MF_ASYNMSG p) = pv p"
  by (simp_all add: pv_def IPC_STATUS_ADD_def set_mf_def clear_mf_def MF_defs mf_bits isemptyp_def)

lemma mf_other:
  "p_nextready (set_mf f p) = p_nextready p" "p_rts_flags (set_mf f p) = p_rts_flags p"
  "p_priority (set_mf f p) = p_priority p" "p_nextready (clear_mf f p) = p_nextready p"
  "p_rts_flags (clear_mf f p) = p_rts_flags p" "p_priority (clear_mf f p) = p_priority p"
  by (simp_all add: set_mf_def clear_mf_def)

lemma pv_fields [simp]:
  "pv (p\<lparr>p_delivermsg := m\<rparr>) = pv p" "pv (p\<lparr>p_sendmsg := m\<rparr>) = pv p" "pv (p\<lparr>p_delivermsg_vir := a\<rparr>) = pv p"
  "pv (p\<lparr>p_ipc_status := st\<rparr>) = pv p" "pv (p\<lparr>p_sendto_e := e\<rparr>) = (pv p)\<lparr>v_sendto := e\<rparr>"
  "pv (p\<lparr>p_getfrom_e := e\<rparr>) = (pv p)\<lparr>v_getfrom := e\<rparr>" "pv (p\<lparr>p_caller_q := q\<rparr>) = (pv p)\<lparr>v_callerq := q\<rparr>"
  "pv (p\<lparr>p_q_link := q\<rparr>) = (pv p)\<lparr>v_qlink := q\<rparr>"
  by (simp_all add: pv_def isemptyp_def)

lemma empty_bit: "isemptyp p \<Longrightarrow> bit (p_rts_flags p) 0"
  by (simp add: isemptyp_def RTS_SLOT_FREE_def)

lemma rts_bits:
  fixes w :: "16 word"
  shows "bit (w OR 4) 0 = bit w 0" "bit (w OR 4) 2" "bit (w OR 4) 3 = bit w 3" "bit (w OR 4) 8 = bit w 8"
    "bit (w OR 8) 0 = bit w 0" "bit (w OR 8) 2 = bit w 2" "bit (w OR 8) 3" "bit (w OR 8) 8 = bit w 8"
    "bit (w OR 0x4000) 0 = bit w 0" "bit (w OR 0x4000) 2 = bit w 2" "bit (w OR 0x4000) 3 = bit w 3" "bit (w OR 0x4000) 8 = bit w 8"
    "bit (w AND - 5) 0 = bit w 0" "\<not> bit (w AND - 5) 2" "bit (w AND - 5) 3 = bit w 3" "bit (w AND - 5) 8 = bit w 8"
    "bit (w AND - 9) 0 = bit w 0" "bit (w AND - 9) 2 = bit w 2" "\<not> bit (w AND - 9) 3" "bit (w AND - 9) 8 = bit w 8"
  by (simp_all add: bit_simps)

lemma pv_rts:
  assumes "\<not> bit (p_rts_flags p) 0"
  shows "pv (p\<lparr>p_rts_flags := p_rts_flags p OR RTS_SENDING\<rparr>) = (pv p)\<lparr>v_sending := True\<rparr>"
    "pv (p\<lparr>p_rts_flags := p_rts_flags p OR RTS_RECEIVING\<rparr>) = (pv p)\<lparr>v_receiving := True\<rparr>"
    "pv (p\<lparr>p_rts_flags := p_rts_flags p OR RTS_PREEMPTED\<rparr>) = pv p"
    "pv (p\<lparr>p_rts_flags := p_rts_flags p AND NOT RTS_SENDING\<rparr>) = (pv p)\<lparr>v_sending := False\<rparr>"
    "pv (p\<lparr>p_rts_flags := p_rts_flags p AND NOT RTS_RECEIVING\<rparr>) = (pv p)\<lparr>v_receiving := False\<rparr>"
proof -
  have e: "isemptyp (p\<lparr>p_rts_flags := w\<rparr>) = isemptyp p" if "\<not> bit w 0" for w
    using empty_bit [of p] empty_bit [of "p\<lparr>p_rts_flags := w\<rparr>"] that assms by auto
  show "pv (p\<lparr>p_rts_flags := p_rts_flags p OR RTS_SENDING\<rparr>) = (pv p)\<lparr>v_sending := True\<rparr>"
    "pv (p\<lparr>p_rts_flags := p_rts_flags p OR RTS_RECEIVING\<rparr>) = (pv p)\<lparr>v_receiving := True\<rparr>"
    "pv (p\<lparr>p_rts_flags := p_rts_flags p OR RTS_PREEMPTED\<rparr>) = pv p"
    "pv (p\<lparr>p_rts_flags := p_rts_flags p AND NOT RTS_SENDING\<rparr>) = (pv p)\<lparr>v_sending := False\<rparr>"
    "pv (p\<lparr>p_rts_flags := p_rts_flags p AND NOT RTS_RECEIVING\<rparr>) = (pv p)\<lparr>v_receiving := False\<rparr>"
    using assms by (simp_all add: pv_def RTS_defs rts_bits e)
qed

text \<open>Updates that the views do not show.\<close>

lemma views_quiet: "(\<And>p. pv (f p) = pv p) \<Longrightarrow> views (ks (upd_ip x f s)) = views (ks s)"
  by (cases "x < length (kprocs (ks s))") (simp_all add: views_upd_ip list_update_beyond flip: views_simps(2))

lemma ready_quiet:
  assumes "ready s"
  shows "ready (upd_ip x (IPC_STATUS_ADD m) s)" "ready (upd_ip x (clear_mf f) s)" "ready (upd_ip x (set_mf f) s)"
  using ready_upd [OF assms, of "IPC_STATUS_ADD m" x] ready_upd [OF assms, of "clear_mf f" x]
    ready_upd [OF assms, of "set_mf f" x]
  by (simp_all add: IPC_STATUS_ADD_def clear_mf_def set_mf_def)

subsection \<open>Blocking and unblocking\<close>

lemma views_no_links:
  assumes "no_links k = no_links k'" shows "views k = views k'"
proof -
  have "views k = views (no_links k)" for k
    by (simp add: views_def no_links_def pv_def isemptyp_def)
  with assms show ?thesis by metis
qed

text \<open>The state outside the run queues is as expected, and the current process is a live one.\<close>

definition kernel_ok :: "icfg \<Rightarrow> istate \<Rightarrow> nat list list \<Rightarrow> bool" where
  "kernel_ok c s wq \<longleftrightarrow> ready s \<and> ipc_inv c (views (ks s)) wq \<and> \<not> v_free (views (ks s) ! proc_ptr (ks s))"

lemma SET_RTS_frame:
  assumes "ready s" "x < length (kprocs (ks s))"
  shows "\<exists>s'. SET_RTS x f s = Some s' \<and> ready s' \<and> proc_ptr (ks s') = proc_ptr (ks s) \<and>
    views (ks s') = (views (ks s))[x := pv ((ip s x)\<lparr>p_rts_flags := p_rts_flags (ip s x) OR f\<rparr>)]"
proof -
  obtain qs where "ready_ok (ks s) qs {}" using assms(1) by (auto simp: ready_def)
  from RTS_SET_ok [OF this assms(2), of f] obtain k' qs' where
    k': "RTS_SET x f (ks s) = Some k'" "ready_ok k' qs' {}"
      "no_links k' = no_links (upd_kp x (\<lambda>p. p\<lparr>p_rts_flags := p_rts_flags p OR f\<rparr>) (ks s))"
    by blast
  have "views k' = (views (ks s))[x := pv ((ip s x)\<lparr>p_rts_flags := p_rts_flags (ip s x) OR f\<rparr>)]"
    using views_no_links [OF k'(3)] by (simp add: views_def upd_kp_def map_update)
  moreover have "proc_ptr k' = proc_ptr (ks s)" using no_links_eqD(3) [OF k'(3)] by simp
  ultimately show ?thesis using k' by (auto simp: SET_RTS_def lift_k_def ready_def)
qed

lemma UNSET_RTS_frame:
  assumes R: "ready s" and x: "x < length (kprocs (ks s))"
    and cur: "\<not> v_free (views (ks s) ! proc_ptr (ks s))"
  shows "\<exists>s'. UNSET_RTS c x f s = Some s' \<and> ready s' \<and> proc_ptr (ks s') = proc_ptr (ks s) \<and>
    views (ks s') = (views (ks s))[x := pv ((ip s x)\<lparr>p_rts_flags := p_rts_flags (ip s x) AND NOT f\<rparr>)]"
proof -
  let ?k = "ks s"
  obtain qs where R: "ready_ok ?k qs {}" using R by (auto simp: ready_def)
  define t where "t = upd_kp x (\<lambda>p. p\<lparr>p_rts_flags := p_rts_flags p AND NOT f\<rparr>) ?k"
  have vt: "views t = (views ?k)[x := pv ((ip s x)\<lparr>p_rts_flags := p_rts_flags (ip s x) AND NOT f\<rparr>)]"
    by (simp add: t_def views_def upd_kp_def map_update)
  have cp: "proc_ptr ?k < length (kprocs ?k)" using ready_okD(2) [OF R] .
  have "\<exists>k' qs'. RTS_UNSET (kc c) x f ?k = Some k' \<and> ready_ok k' qs' {} \<and> proc_ptr k' = proc_ptr ?k \<and> views k' = views t"
  proof (cases "proc_is_runnable (kp ?k x) \<or> p_rts_flags (kp ?k x) AND NOT f \<noteq> 0")
    case True
    from RTS_UNSET_stays [OF R x this, of "kc c"] show ?thesis by (auto simp: t_def)
  next
    case False
    then have W: "RTS_UNSET (kc c) x f ?k = enqueue (kc c) x t" "ready_ok t qs {x}" "x < length (kprocs t)"
        "proc_is_runnable (kp t x)"
      unfolding t_def using RTS_UNSET_wakes [OF R x, of f "kc c"] by blast+
    let ?cur = "proc_ptr t"
    have nf: "\<not> bit (p_rts_flags (kp t ?cur)) 0"
      using cur cp x by (cases "?cur = x") (simp_all add: t_def bit_simps)
    have ct: "?cur < length (kprocs t)" using cp by (simp add: t_def)
    have pre: "views (upd_kp ?cur (\<lambda>p. p\<lparr>p_rts_flags := p_rts_flags p OR RTS_PREEMPTED\<rparr>) t) = views t"
    proof -
      have "views (upd_kp ?cur (\<lambda>p. p\<lparr>p_rts_flags := p_rts_flags p OR RTS_PREEMPTED\<rparr>) t) =
          (views t)[?cur := pv ((kp t ?cur)\<lparr>p_rts_flags := p_rts_flags (kp t ?cur) OR RTS_PREEMPTED\<rparr>)]"
        by (simp add: views_def upd_kp_def map_update)
      also have "\<dots> = (views t)[?cur := views t ! ?cur]"
        unfolding pv_rts(3) [OF nf] by (simp only: views_simps(2) [OF ct])
      finally show ?thesis by simp
    qed
    obtain k' qs' where k': "enqueue (kc c) x t = Some k'" "ready_ok k' qs' {}"
        "no_links k' = no_links t \<or>
         no_links k' = no_links (upd_kp ?cur (\<lambda>p. p\<lparr>p_rts_flags := p_rts_flags p OR RTS_PREEMPTED\<rparr>) t)"
      using enqueue_ok [OF W(2,3,4), of "kc c"] by meson
    have "views k' = views t" using k'(3)
    proof
      assume "no_links k' = no_links t"
      then show ?thesis by (rule views_no_links)
    next
      assume "no_links k' = no_links (upd_kp ?cur (\<lambda>p. p\<lparr>p_rts_flags := p_rts_flags p OR RTS_PREEMPTED\<rparr>) t)"
      then show ?thesis using pre by (rule views_no_links [THEN trans])
    qed
    moreover have "proc_ptr k' = proc_ptr t" using k'(3) by (auto dest: no_links_eqD(3))
    moreover have "proc_ptr t = proc_ptr ?k" by (simp add: t_def)
    ultimately show ?thesis using W(1) k'(1,2) by auto
  qed
  then show ?thesis using vt by (auto simp: UNSET_RTS_def lift_k_def ready_def)
qed

lemma kernel_okD:
  assumes "kernel_ok c s wq"
  shows "ready s" "ipc_inv c (views (ks s)) wq" "\<not> v_free (views (ks s) ! proc_ptr (ks s))"
  using assms by (simp_all add: kernel_ok_def)

lemma live_bit: "slots_ok c (views k) \<Longrightarrow> x < length (kprocs k) \<Longrightarrow> \<not> isemptyp (kp k x) \<Longrightarrow> \<not> bit (p_rts_flags (kp k x)) 0"
  using slotsD(2) [of c "views k" x] by auto

lemma v_free_upd: "v_free v = v_free (vs ! x) \<Longrightarrow> v_free (vs[x := v] ! y) = v_free (vs ! y)"
  by (rule nth_upd_field)

text \<open>A message is handed to a process that waits in receive, and the process is unblocked.\<close>

lemma deliver_unblock:
  assumes K: "kernel_ok c s wq" and d: "d < length (kprocs (ks s))" "willrecv c (pv (ip s d)) e"
    and f: "\<And>p. pv (f p) = (pv p)\<lparr>v_deliver := True\<rparr>" "\<And>p. p_nextready (f p) = p_nextready p"
      "\<And>p. p_rts_flags (f p) = p_rts_flags p" "\<And>p. p_priority (f p) = p_priority p"
  shows "\<not> mf (ip s d) MF_DELIVERMSG \<and> (\<exists>s'. UNSET_RTS c d RTS_RECEIVING (upd_ip d f s) = Some s' \<and> kernel_ok c s' wq \<and>
    views (ks s') = (views (ks s))[d := (views (ks s) ! d)\<lparr>v_receiving := False, v_deliver := True\<rparr>])"
proof -
  let ?vs = "views (ks s)"
  note D = kernel_okD [OF K]
  note S = ipc_invD(1) [OF D(2)]
  have wd: "v_receiving (?vs ! d)" "\<not> v_sending (?vs ! d)" using d by (simp_all add: willrecv_def)
  then have "\<not> isemptyp (ip s d)" using slotsD(6) [OF S, of d] d(1) by simp
  then have nb: "\<not> bit (p_rts_flags (ip s d)) 0" using live_bit [OF S d(1)] by simp
  have "\<not> v_deliver (?vs ! d)" using ipc_invD(3) [OF D(2)] wd(1) d(1) by (simp add: wants_ok_def)
  then have nd: "\<not> mf (ip s d) MF_DELIVERMSG" using d(1) by (simp add: flag_tests)
  let ?t = "upd_ip d f s"
  have fd: "pv (ip ?t d) = (pv (ip s d))\<lparr>v_deliver := True\<rparr>" "p_rts_flags (ip ?t d) = p_rts_flags (ip s d)"
    using d(1) f by simp_all
  have "\<not> v_free (views (ks ?t) ! proc_ptr (ks ?t))"
    using D(3) f(1) d(1) by (simp add: views_upd_ip v_free_upd)
  from UNSET_RTS_frame [OF ready_upd [OF D(1) f(2-4)] _ this, of d c RTS_RECEIVING] d(1)
  obtain s' where s': "UNSET_RTS c d RTS_RECEIVING ?t = Some s'" "ready s'" "proc_ptr (ks s') = proc_ptr (ks s)"
      "views (ks s') = (views (ks ?t))[d := pv ((ip ?t d)\<lparr>p_rts_flags := p_rts_flags (ip ?t d) AND NOT RTS_RECEIVING\<rparr>)]"
    by auto
  have "pv ((ip ?t d)\<lparr>p_rts_flags := p_rts_flags (ip ?t d) AND NOT RTS_RECEIVING\<rparr>) =
      (?vs ! d)\<lparr>v_receiving := False, v_deliver := True\<rparr>"
    using pv_rts(5) [of "ip ?t d"] nb fd d(1) by simp
  then have v: "views (ks s') = ?vs[d := (?vs ! d)\<lparr>v_receiving := False, v_deliver := True\<rparr>]"
    using s'(4) by (simp add: views_upd_ip)
  have "kernel_ok c s' wq"
    unfolding kernel_ok_def v s'(3)
    using s'(2) D(3) ipc_inv_deliver [OF D(2), of d True] wd d(1) by (simp add: nth_fields)
  with nd s'(1) v show ?thesis by blast
qed

subsection \<open>Sending\<close>

lemma last_caller_chain:
  assumes "chain (\<lambda>i. p_q_link (kp k i)) (Some h) (xs @ [l])"
  shows "last_caller k h = Some l"
  using assms
proof (induction xs arbitrary: h)
  case Nil
  then show ?case by (subst last_caller.simps) auto
next
  case (Cons x xs)
  then have "h = x" "chain (\<lambda>i. p_q_link (kp k i)) (p_q_link (kp k x)) (xs @ [l])" by simp_all
  then obtain y where y: "p_q_link (kp k x) = Some y" by (cases "p_q_link (kp k x)") auto
  with Cons.IH [of y] \<open>h = x\<close> \<open>chain _ (p_q_link (kp k x)) _\<close> show ?case
    by (subst last_caller.simps) simp
qed

lemma chain_start: "chain nx p xs \<Longrightarrow> p = (case xs of [] \<Rightarrow> None | x # _ \<Rightarrow> Some x)"
  by (cases xs) (cases p; simp)+

lemma append_caller_view:
  assumes ch: "chain (\<lambda>i. p_q_link (ip s i)) (p_caller_q (ip s d)) q"
    and d: "d < length (kprocs (ks s))" and ql: "\<And>y. y \<in> set q \<Longrightarrow> y < length (kprocs (ks s))"
    and R: "ready s"
  shows "\<exists>s'. append_caller d x s = Some s' \<and> ready s' \<and> proc_ptr (ks s') = proc_ptr (ks s) \<and>
    views (ks s') = link_last q d x (views (ks s))"
proof (cases q rule: rev_cases)
  case Nil
  then have "append_caller d x s = Some (upd_ip d (\<lambda>p. p\<lparr>p_caller_q := Some x\<rparr>) s)"
    using ch by (cases "p_caller_q (ip s d)") (simp_all add: append_caller_def)
  with Nil d ready_upd [OF R, of "\<lambda>p. p\<lparr>p_caller_q := Some x\<rparr>" d] show ?thesis
    by (simp add: views_upd_ip link_last_def)
next
  case (snoc ys l)
  then obtain h where h: "p_caller_q (ip s d) = Some h" using chain_start [OF ch] by (cases ys) auto
  have "l < length (kprocs (ks s))" using ql snoc by simp
  moreover have "last_caller (ks s) h = Some l"
    using ch h snoc by (intro last_caller_chain) simp
  ultimately show ?thesis
    using h snoc ready_upd [OF R, of "\<lambda>p. p\<lparr>p_q_link := Some x\<rparr>" l]
    by (simp add: append_caller_def views_upd_ip link_last_def)
qed

lemma block_sender_ok:
  assumes K: "kernel_ok c s wq" and x: "x < length (kprocs (ks s))" "\<not> v_sending (pv (ip s x))"
      "\<not> v_receiving (pv (ip s x))" "\<not> isemptyp (ip s x)" "\<not> v_noep (pv (ip s x))"
    and d: "okep c (views (ks s)) e = Some d" "x \<noteq> d" and nr: "\<not> willrecv c (pv (ip s d)) (p_endpoint (ip s x))"
    and cyc: "(d, x) \<notin> (waits c (views (ks s)))\<^sup>*"
  shows "\<exists>s'. block_sender x d e m fl s = Some s' \<and> kernel_ok c s' (wq[d := wq ! d @ [x]]) \<and>
    views (ks s') = link_last (wq ! d) d x ((views (ks s))[x := (views (ks s) ! x)\<lparr>v_sending := True, v_sendto := e\<rparr>])"
proof -
  let ?vs = "views (ks s)" and ?us = "(views (ks s))[x := (views (ks s) ! x)\<lparr>v_sending := True, v_sendto := e\<rparr>]"
  let ?f = "\<lambda>p. (if fl AND FROM_KERNEL \<noteq> 0 then set_mf MF_SENDING_FROM_KERNEL p else p)\<lparr>p_sendmsg := m\<rparr>"
  note D = kernel_okD [OF K]
  note W = wqsD [OF ipc_invD(2) [OF D(2)]]
  have dl: "d < length (kprocs (ks s))" using okepD [OF d(1)] by simp
  have nb: "\<not> bit (p_rts_flags (ip s x)) 0" using live_bit [OF ipc_invD(1) [OF D(2)] x(1,4)] .
  define t where "t = upd_ip x ?f s"
  have t: "ready t" "views (ks t) = ?vs" "proc_ptr (ks t) = proc_ptr (ks s)" "length (kprocs (ks t)) = length (kprocs (ks s))"
    "pv (ip t x) = pv (ip s x)" "p_rts_flags (ip t x) = p_rts_flags (ip s x)"
    using ready_upd [OF D(1), of ?f x] x(1)
    by (simp_all add: t_def set_mf_def views_upd_ip list_update_same_conv)
       (auto simp flip: set_mf_def)
  obtain s1 where s1: "SET_RTS x RTS_SENDING t = Some s1" "ready s1" "proc_ptr (ks s1) = proc_ptr (ks s)"
      "views (ks s1) = ?vs[x := (pv (ip s x))\<lparr>v_sending := True\<rparr>]"
    using SET_RTS_frame [OF t(1), of x RTS_SENDING] x(1) t pv_rts(1) [of "ip t x"] nb by auto
  define s2 where "s2 = upd_ip x (\<lambda>p. p\<lparr>p_sendto_e := e\<rparr>) s1"
  have l1: "length (kprocs (ks s1)) = length (kprocs (ks s))"
    using arg_cong [OF s1(4), of length] by simp
  have pv1: "pv (ip s1 x) = (pv (ip s x))\<lparr>v_sending := True\<rparr>"
    using arg_cong [OF s1(4), of "\<lambda>v. v ! x"] x(1) l1 by simp
  have s2: "views (ks s2) = ?us" "ready s2" "proc_ptr (ks s2) = proc_ptr (ks s)" "length (kprocs (ks s2)) = length (kprocs (ks s))"
    using x(1) pv1 s1(3,4) l1 ready_upd [OF s1(2), of "\<lambda>p. p\<lparr>p_sendto_e := e\<rparr>" x]
    by (simp_all add: s2_def views_upd_ip)
  have nth: "pv (ip s2 y) = ?us ! y" if "y < length (kprocs (ks s))" for y
    using arg_cong [OF s2(1), of "\<lambda>v. v ! y"] that s2(4) by simp
  have ql: "v_qlink (pv (ip s y)) = v_qlink (pv (ip s2 y))" "v_callerq (pv (ip s y)) = v_callerq (pv (ip s2 y))"
    if "y < length (kprocs (ks s))" for y
    using nth [OF that] that by (simp_all add: nth_fields)
  have "p_q_link (ip s2 x) = None"
    using ql(1) [OF x(1)] W(4) [of x] x by simp
  moreover have "chain (\<lambda>i. p_q_link (ip s2 i)) (p_caller_q (ip s2 d)) (wq ! d)"
  proof -
    have "chain (\<lambda>i. v_qlink (?vs ! i)) (p_caller_q (ip s2 d)) (wq ! d)"
      using W(2) [of d] dl ql(2) [OF dl] by simp
    moreover have "v_qlink (?vs ! y) = p_q_link (ip s2 y)" if "y \<in> set (wq ! d)" for y
      using W(3) [of d y] dl that ql(1) [of y] by simp
    ultimately show ?thesis by (simp cong: chain_cong)
  qed
  ultimately obtain s' where s': "append_caller d x s2 = Some s'" "ready s'" "proc_ptr (ks s') = proc_ptr (ks s)"
      "views (ks s') = link_last (wq ! d) d x ?us"
    using append_caller_view [of s2 d "wq ! d" x] dl W(3) [of d] s2 by auto
  have "block_sender x d e m fl s = Some s'"
    using s1(1) \<open>p_q_link (ip s2 x) = None\<close> s'(1)
    by (simp add: block_sender_def s2_def kassert_def Let_def flip: t_def)
  moreover have "ipc_inv c (views (ks s')) (wq[d := wq ! d @ [x]])"
    unfolding s'(4) using D(2) x d nr cyc dl by (intro ipc_inv_block_sender) simp_all
  moreover have "\<not> v_free (views (ks s') ! proc_ptr (ks s'))"
  proof -
    have "proc_ptr (ks s) < length (kprocs (ks s))" using D(1) by (auto simp: ready_def dest: ready_okD(2))
    with D(3) show ?thesis by (simp add: s'(3,4) nth_fields)
  qed
  ultimately show ?thesis using s' by (simp add: kernel_ok_def)
qed

text \<open>The process that calls: it runs, is alive, and has no message waiting to be copied to it.\<close>

definition caller_ok :: "istate \<Rightarrow> nat \<Rightarrow> bool" where
  "caller_ok s x \<longleftrightarrow> x < length (kprocs (ks s)) \<and> \<not> isemptyp (ip s x) \<and>
     \<not> v_sending (pv (ip s x)) \<and> \<not> v_receiving (pv (ip s x)) \<and> \<not> v_deliver (pv (ip s x)) \<and> \<not> v_noep (pv (ip s x))"

text \<open>The numbers of the calls are those of the kernel's flags, as \<^verbatim>\<open>deadlock\<close> expects.\<close>

lemma deadlock_no_cycle:
  assumes K: "kernel_ok c s wq" and x: "x < length (kprocs (ks s))" "\<not> isemptyp (ip s x)"
    and e: "okep c (views (ks s)) e = Some d" "d \<noteq> x"
    and ex: "\<not> (blockedon c (pv (ip s d)) = p_endpoint (ip s x) \<and>
      (p_rts_flags (ip s d) XOR push_bit 2 (word_of_nat fn)) AND RTS_SENDING \<noteq> 0)"
  shows "\<exists>n. deadlock c fn x e s = Some n \<and> (n = 0 \<longleftrightarrow> (d, x) \<notin> (waits c (views (ks s)))\<^sup>*)"
proof -
  obtain n where "deadlock_walk c fn x s e 1 = Some n" "n \<noteq> 0 \<longleftrightarrow> (d, x) \<in> (waits c (views (ks s)))\<^sup>+"
    using deadlock_walk_exact [OF kernel_okD(2) [OF K] x e(1), of 1 fn] ex by auto
  then show ?thesis using e(2) by (auto simp: deadlock_def rtrancl_eq_or_trancl)
qed

lemma send_exception:
  assumes "blockedon c (pv p) = e" "e \<noteq> i_NONE c" "(p_rts_flags p XOR push_bit 2 (word_of_nat 1)) AND RTS_SENDING \<noteq> 0"
  shows "willrecv c (pv p) e"
proof -
  have "\<not> bit (p_rts_flags p) 2"
    using assms(3) and_exp_iff(2) [of 2 "p_rts_flags p XOR 4"] by (simp add: RTS_SENDING_def bit_xor_iff)
  with assms(1,2) show ?thesis by (auto simp: willrecv_def blockedon_def split: if_split_asm)
qed

lemma receive_exception:
  assumes "blockedon c (pv p) = e" "e \<noteq> i_NONE c" "(p_rts_flags p XOR push_bit 2 (word_of_nat 2)) AND RTS_SENDING \<noteq> 0"
  shows "v_sending (pv p) \<and> v_sendto (pv p) = e"
proof -
  have "bit (p_rts_flags p) 2"
    using assms(3) and_exp_iff(2) [of 2 "p_rts_flags p XOR 8"] by (simp add: RTS_SENDING_def bit_xor_iff)
  with assms(1) show ?thesis by (simp add: blockedon_def)
qed

text \<open>
  After a send the caller is unchanged, or it waits for the destination; everybody keeps the endpoint.
\<close>

lemma mini_send_ok:
  assumes K: "kernel_ok c s wq" and C: "cfg_ok c" and x: "caller_ok s x"
    and d: "isokendpt (kc c) (ks s) e = Some d" "d \<noteq> x"
  shows "\<exists>r s' wq'. mini_send c x e m fl s = Some (r, s') \<and> kernel_ok c s' wq' \<and>
    okep c (views (ks s')) = okep c (views (ks s)) \<and> length (kprocs (ks s')) = length (kprocs (ks s)) \<and>
    \<not> isemptyp (ip s' x) \<and> \<not> v_receiving (pv (ip s' x)) \<and> \<not> v_deliver (pv (ip s' x)) \<and> \<not> v_noep (pv (ip s' x)) \<and>
    (v_sending (pv (ip s' x)) \<longrightarrow> v_sendto (pv (ip s' x)) = e)"
proof -
  let ?vs = "views (ks s)"
  note D = kernel_okD [OF K]
  have xl: "x < length (kprocs (ks s))" and xe: "\<not> isemptyp (ip s x)" and xs: "\<not> v_sending (pv (ip s x))"
    and xr: "\<not> v_receiving (pv (ip s x))" and xd: "\<not> v_deliver (pv (ip s x))"
    and xn: "\<not> v_noep (pv (ip s x))"
    using x by (simp_all add: caller_ok_def)
  have okd: "okep c ?vs e = Some d" using d(1) by (simp add: okep_views)
  have dl: "d < length (kprocs (ks s))" using okepD [OF okd] by simp
  have sl: "isokprocn (kc c) (ks s) (k_ENDPOINT_P (kc c) e)" "slot (kc c) (k_ENDPOINT_P (kc c) e) = d"
    using d(1) by (auto simp: isokendpt_def Let_def split: if_split_asm)
  have same: ?thesis if "mini_send c x e m fl s = Some (r, s)" for r
    using that K xe xs xr xd xn by blast
  have fin: ?thesis if r: "mini_send c x e m fl s = Some (r, s')" "kernel_ok c s' wq'"
      and v: "okep c (views (ks s')) = okep c ?vs" "length (views (ks s')) = length ?vs"
      "\<not> v_empty (views (ks s') ! x)" "\<not> v_receiving (views (ks s') ! x)" "\<not> v_deliver (views (ks s') ! x)"
      "\<not> v_noep (views (ks s') ! x)"
      "v_sending (views (ks s') ! x) \<longrightarrow> v_sendto (views (ks s') ! x) = e" for r s' wq'
    using r v xl by (intro exI [of _ r] exI [of _ s'] exI [of _ wq']) simp
  show ?thesis
  proof (cases "RTS_ISSET (ip s d) RTS_NO_ENDPOINT")
    case True
    with sl show ?thesis by (intro same [of EDEADSRCDST]) (simp add: mini_send_def Let_def kassert_def)
  next
    case ne: False
    show ?thesis
    proof (cases "willrecv c (pv (ip s d)) (p_endpoint (ip s x))")
      case True
      show ?thesis
      proof (cases "fetch_msg c x m")
        case None
        have "\<not> mf (ip s d) MF_DELIVERMSG"
          using ipc_invD(3) [OF D(2)] True dl by (simp add: wants_ok_def willrecv_def flag_tests)
        with sl ne True None show ?thesis
          by (intro same [of EFAULT]) (simp add: mini_send_def Let_def kassert_def WILLRECEIVE_view)
      next
        case (Some g)
        let ?f = "\<lambda>p. clear_mf MF_REPLY_PEND (IPC_STATUS_ADD (STATUS_CALL_TO c
               (if mf (ip s x) MF_REPLY_PEND then SENDREC c else if fl AND NON_BLOCKING \<noteq> 0 then SENDNB c else SEND c))
               (set_mf MF_DELIVERMSG (((if fl AND FROM_KERNEL \<noteq> 0 then IPC_STATUS_ADD (STATUS_FROM_KERNEL c) p else p))
                 \<lparr>p_delivermsg := g\<lparr>k_source := p_endpoint (ip s x)\<rparr>\<rparr>)))"
        have "\<not> mf (ip s d) MF_DELIVERMSG \<and> (\<exists>s'. UNSET_RTS c d RTS_RECEIVING (upd_ip d ?f s) = Some s' \<and> kernel_ok c s' wq \<and>
            views (ks s') = ?vs[d := (?vs ! d)\<lparr>v_receiving := False, v_deliver := True\<rparr>])"
          by (rule deliver_unblock [OF K dl True])
             (simp_all, simp_all add: clear_mf_def set_mf_def IPC_STATUS_ADD_def)
        then obtain s' where s': "\<not> mf (ip s d) MF_DELIVERMSG" "send_now c x d g fl s = Some s'" "kernel_ok c s' wq"
            "views (ks s') = ?vs[d := (?vs ! d)\<lparr>v_receiving := False, v_deliver := True\<rparr>]"
          by (auto simp: send_now_def Let_def)
        then have "mini_send c x e m fl s = Some (OK, s')"
          using sl ne True Some by (simp add: mini_send_def Let_def kassert_def WILLRECEIVE_view)
        from this s'(3) show ?thesis by (rule fin) (use s'(4) d(2) xl xe xs xr xd xn in simp_all)
      qed
    next
      case nw: False
      show ?thesis
      proof (cases "fl AND NON_BLOCKING \<noteq> 0")
        case True
        with sl ne nw show ?thesis by (intro same [of ENOTREADY]) (simp add: mini_send_def Let_def kassert_def WILLRECEIVE_view)
      next
        case bl: False
        have xep: "p_endpoint (ip s x) \<noteq> i_NONE c"
          using slotsD(4) [OF ipc_invD(1) [OF D(2)], of x] xl xe by simp
        have "\<exists>n. deadlock c (SEND c) x e s = Some n \<and> (n = 0 \<longleftrightarrow> (d, x) \<notin> (waits c ?vs)\<^sup>*)"
          using C send_exception [of c "ip s d", OF _ xep] nw
          by (intro deadlock_no_cycle [OF K xl xe okd d(2)]) (auto simp: cfg_ok_def)
        then obtain n where n: "deadlock c (SEND c) x e s = Some n" "n = 0 \<longleftrightarrow> (d, x) \<notin> (waits c ?vs)\<^sup>*"
          by blast
        show ?thesis
        proof (cases "n \<noteq> 0 \<or> fetch_msg c x m = None")
          case True
          with sl ne nw bl n(1) show ?thesis
            by (intro same [of "if n \<noteq> 0 then ELOCKED else EFAULT"])
               (auto simp: mini_send_def Let_def kassert_def WILLRECEIVE_view)
        next
          case False
          then obtain g where g: "n = 0" "fetch_msg c x m = Some g" by auto
          obtain s' where s': "block_sender x d e g fl s = Some s'" "kernel_ok c s' (wq[d := wq ! d @ [x]])"
              "views (ks s') = link_last (wq ! d) d x (?vs[x := (?vs ! x)\<lparr>v_sending := True, v_sendto := e\<rparr>])"
            using block_sender_ok [OF K xl xs xr xe xn okd d(2) [symmetric] nw, of g fl] n(2) g(1) by auto
          then have "mini_send c x e m fl s = Some (OK, s')"
            using sl ne nw bl n(1) g by (simp add: mini_send_def Let_def kassert_def WILLRECEIVE_view)
          from this s'(2) show ?thesis by (rule fin) (use s'(3) xl xe xs xr xd xn in simp_all)
        qed
      qed
    qed
  qed
qed

subsection \<open>Receiving\<close>

lemma find_sender_spec:
  assumes "chain (\<lambda>i. p_q_link (kp k i)) cur rest" "prev = last_opt us"
  shows "(find_sender c e p k prev cur = Some None \<and> (\<forall>y \<in> set rest. \<not> (e = ANY c \<or> p = p_nr (kp k y)))) \<or>
    (\<exists>us' y ws. rest = us' @ y # ws \<and> find_sender c e p k prev cur = Some (Some (last_opt (us @ us'), y)) \<and>
       (e = ANY c \<or> p = p_nr (kp k y)))"
  using assms
proof (induction rest arbitrary: cur prev us)
  case Nil
  then show ?case by (cases cur) (simp_all add: find_sender.simps)
next
  case (Cons y ys)
  then have cur: "cur = Some y" "chain (\<lambda>i. p_q_link (kp k i)) (p_q_link (kp k y)) ys" by simp_all
  show ?case
  proof (cases "e = ANY c \<or> p = p_nr (kp k y)")
    case True
    then have "find_sender c e p k prev cur = Some (Some (last_opt (us @ []), y))"
      using cur Cons.prems(2) by (subst find_sender.simps) simp
    then show ?thesis using True by (intro disjI2 exI [of _ "[]"]) auto
  next
    case False
    then have step: "find_sender c e p k prev cur = find_sender c e p k (Some y) (p_q_link (kp k y))"
      using cur by (subst find_sender.simps) simp
    have "Some y = last_opt (us @ [y])" by (simp add: last_opt_def)
    from Cons.IH [OF cur(2) this] show ?thesis
    proof
      assume "find_sender c e p k (Some y) (p_q_link (kp k y)) = Some None \<and>
        (\<forall>y \<in> set ys. \<not> (e = ANY c \<or> p = p_nr (kp k y)))"
      then show ?thesis using step False by simp
    next
      assume "\<exists>us' z ws. ys = us' @ z # ws \<and>
        find_sender c e p k (Some y) (p_q_link (kp k y)) = Some (Some (last_opt ((us @ [y]) @ us'), z)) \<and>
        (e = ANY c \<or> p = p_nr (kp k z))"
      then obtain us' z ws where "ys = us' @ z # ws" "e = ANY c \<or> p = p_nr (kp k z)"
        "find_sender c e p k (Some y) (p_q_link (kp k y)) = Some (Some (last_opt ((us @ [y]) @ us'), z))"
        by blast
      then show ?thesis using step by (intro disjI2 exI [of _ "y # us'"] exI [of _ z] exI [of _ ws]) simp
    qed
  qed
qed

lemma unlink_sender_views:
  "views (ks (unlink_sender r prev x s)) = unlink_view prev r x (views (ks s))"
  if "x < length (kprocs (ks s))" "r < length (kprocs (ks s))" "\<And>a. prev = Some a \<Longrightarrow> a < length (kprocs (ks s))"
proof (cases prev)
  case None
  then show ?thesis using that
    by (cases "x = r") (simp_all add: unlink_sender_def unlink_view_def Let_def views_upd_ip)
next
  case (Some a)
  then have "a < length (kprocs (ks s))" using that(3) by simp
  with Some that(1) show ?thesis
    by (cases "x = a") (simp_all add: unlink_sender_def unlink_view_def Let_def views_upd_ip)
qed

lemma unlink_sender_ready: "ready s \<Longrightarrow> ready (unlink_sender r prev x s)"
  unfolding unlink_sender_def Let_def by (intro ready_upd) (simp_all split: option.split add: ready_upd)

lemma unlink_sender_frame: "proc_ptr (ks (unlink_sender r prev x s)) = proc_ptr (ks s)"
  by (simp add: unlink_sender_def Let_def split: option.split)

lemma take_sender_ok:
  assumes K: "kernel_ok c s wq" and r: "caller_ok s r" and q: "wq ! r = us @ x # ws"
  shows "\<exists>s'. take_sender c r (last_opt us) x s = Some s' \<and> kernel_ok c s' (wq[r := us @ ws])"
proof -
  let ?vs = "views (ks s)"
  note D = kernel_okD [OF K]
  note S = ipc_invD(1) [OF D(2)] and W = wqsD [OF ipc_invD(2) [OF D(2)]]
  have rl: "r < length (kprocs (ks s))" using r by (simp add: caller_ok_def)
  have x: "x < length ?vs" "v_sending (?vs ! x)" using W(3) [of r x] q rl by auto
  then have xl: "x < length (kprocs (ks s))" and rx: "r \<noteq> x" using r by (auto simp: caller_ok_def)
  have live: "\<not> isemptyp (ip s x)" using slotsD(5) [OF S x] xl by simp
  have nb: "\<not> bit (p_rts_flags (ip s x)) 0" using live_bit [OF S xl live] .
  have ne: "\<not> RTS_ISSET (ip s x) RTS_NO_ENDPOINT"
    using ipc_invD(3) [OF D(2)] x by (simp add: wants_ok_def flag_tests)
  let ?f = "\<lambda>p. set_mf MF_DELIVERMSG (p\<lparr>p_delivermsg := (p_sendmsg (ip s x))\<lparr>k_source := p_endpoint (ip s x)\<rparr>\<rparr>)"
  define t where "t = upd_ip r ?f s"
  define v where "v = (?vs[r := (?vs ! r)\<lparr>v_deliver := True\<rparr>])[x := (?vs ! x)\<lparr>v_sending := False\<rparr>]"
  have t: "ready t" "views (ks t) = ?vs[r := (?vs ! r)\<lparr>v_deliver := True\<rparr>]" "proc_ptr (ks t) = proc_ptr (ks s)"
    "length (kprocs (ks t)) = length (kprocs (ks s))" "ip t x = ip s x"
    using ready_upd [OF D(1), of ?f r, unfolded set_mf_def] rl rx
    by (simp_all add: t_def views_upd_ip) (simp add: set_mf_def)
  have "\<not> v_free (views (ks t) ! proc_ptr (ks t))"
    using D(3) rl by (simp add: t(2,3) nth_fields)
  then obtain s2 where s2: "UNSET_RTS c x RTS_SENDING t = Some s2" "ready s2" "proc_ptr (ks s2) = proc_ptr (ks s)"
      "views (ks s2) = v"
    using UNSET_RTS_frame [OF t(1), of x c RTS_SENDING] xl t pv_rts(4) [of "ip s x"] nb
    by (auto simp: v_def)
  have l2: "length (kprocs (ks s2)) = length (kprocs (ks s))"
    using arg_cong [OF s2(4), of length] by (simp add: v_def)
  define s3 where "s3 = upd_ip r (IPC_STATUS_ADD (STATUS_CALL_TO c (if mf (ip s2 x) MF_REPLY_PEND then SENDREC c else SEND c))) s2"
  define s4 where "s4 = (if mf (ip s3 x) MF_SENDING_FROM_KERNEL
     then upd_ip x (clear_mf MF_SENDING_FROM_KERNEL) (upd_ip r (IPC_STATUS_ADD (STATUS_FROM_KERNEL c)) s3) else s3)"
  have s3: "ready s3" "views (ks s3) = v" "proc_ptr (ks s3) = proc_ptr (ks s)" "length (kprocs (ks s3)) = length (kprocs (ks s))"
    unfolding s3_def using s2 l2 by (simp_all add: views_quiet ready_quiet)
  have s4: "ready s4" "views (ks s4) = v" "proc_ptr (ks s4) = proc_ptr (ks s)" "length (kprocs (ks s4)) = length (kprocs (ks s))"
    unfolding s4_def using s3 by (simp_all add: views_quiet ready_quiet)
  have "\<not> v_delay (views (ks s4) ! x)"
    using slotsD(7) [OF S x(1)] rx by (simp add: s4(2) v_def nth_fields)
  then have nd: "\<not> mf (ip s4 x) MF_SIG_DELAY" using xl s4(4) by (simp add: flag_tests)
  have "take_sender c r (last_opt us) x s =
      (if mf (ip s4 x) MF_SIG_DELAY then sig_delay_done c x s4 else Some s4) \<bind>
      (\<lambda>s5. Some (unlink_sender r (last_opt us) x s5))"
    using nb ne r s2(1) unfolding take_sender_def kassert_def Let_def s4_def s3_def t_def
    by (simp add: flag_tests(1,4) caller_ok_def split del: if_split)
  then have "take_sender c r (last_opt us) x s = Some (unlink_sender r (last_opt us) x s4)"
    using nd by simp
  moreover have "views (ks (unlink_sender r (last_opt us) x s4)) = unlink_view (last_opt us) r x v"
  proof -
    have "a < length (kprocs (ks s4))" if "last_opt us = Some a" for a
    proof -
      have "a \<in> set (wq ! r)" using that q by (auto simp: last_opt_def split: if_split_asm)
      then show ?thesis using W(3) [of r a] rl s4(4) by simp
    qed
    then show ?thesis using unlink_sender_views [of x s4 r "last_opt us"] xl rl s4 by simp
  qed
  moreover have "ipc_inv c (unlink_view (last_opt us) r x v) (wq[r := us @ ws])"
    unfolding v_def using r rl q by (intro ipc_inv_take_sender [OF D(2)]) (simp_all add: caller_ok_def)
  moreover have "\<not> v_free (unlink_view (last_opt us) r x v ! proc_ptr (ks s))"
    using D(3) rx by (simp add: v_def nth_fields)
  ultimately show ?thesis
    using unlink_sender_ready [OF s4(1)] s4(3) by (simp add: kernel_ok_def unlink_sender_frame)
qed

text \<open>Blocking in receive: after no acceptable sender was found, or when the send of a \<^verbatim>\<open>SENDREC\<close> is queued.\<close>

lemma receiving_update:
  assumes K: "kernel_ok c s wq" and x: "x < length (kprocs (ks s))" "\<not> isemptyp (ip s x)"
    and I: "ipc_inv c ((views (ks s))[x := (views (ks s) ! x)\<lparr>v_receiving := True, v_getfrom := e\<rparr>]) wq"
  shows "\<exists>s'. SET_RTS x RTS_RECEIVING (upd_ip x (\<lambda>p. p\<lparr>p_getfrom_e := e\<rparr>) s) = Some s' \<and> kernel_ok c s' wq"
proof -
  note D = kernel_okD [OF K]
  let ?t = "upd_ip x (\<lambda>p. p\<lparr>p_getfrom_e := e\<rparr>) s"
  have nb: "\<not> bit (p_rts_flags (ip s x)) 0" using live_bit [OF ipc_invD(1) [OF D(2)] x] .
  have "ready ?t" by (rule ready_upd [OF D(1)]) simp_all
  from SET_RTS_frame [OF this, of x RTS_RECEIVING] x(1)
  obtain s' where s': "SET_RTS x RTS_RECEIVING ?t = Some s'" "ready s'" "proc_ptr (ks s') = proc_ptr (ks s)"
      "views (ks s') = (views (ks ?t))[x := pv ((ip ?t x)\<lparr>p_rts_flags := p_rts_flags (ip ?t x) OR RTS_RECEIVING\<rparr>)]"
    by auto
  have "views (ks s') = (views (ks s))[x := (views (ks s) ! x)\<lparr>v_receiving := True, v_getfrom := e\<rparr>]"
    using s'(4) x(1) nb pv_rts(2) [of "ip ?t x"] by (simp add: views_upd_ip) (cases "pv (ip s x)", simp)
  with I s'(1-3) D(3) show ?thesis by (simp add: kernel_ok_def nth_fields)
qed

lemma block_receiver_ok:
  assumes K: "kernel_ok c s wq" and C: "cfg_ok c" and x: "x < length (kprocs (ks s))" "\<not> isemptyp (ip s x)"
      "\<not> v_deliver (pv (ip s x))"
    and e: "e = ANY c \<or> (\<exists>d. okep c (views (ks s)) e = Some d \<and> d \<noteq> x)"
    and sr: "v_sending (pv (ip s x)) \<Longrightarrow> v_sendto (pv (ip s x)) = e"
    and none: "\<not> v_sending (pv (ip s x)) \<Longrightarrow> \<forall>y \<in> set (wq ! x). e \<noteq> ANY c \<and> p_endpoint (ip s y) \<noteq> e"
  shows "\<exists>r s'. block_receiver c x e fl s = Some (r, s') \<and> kernel_ok c s' wq"
proof (cases "fl AND NON_BLOCKING \<noteq> 0")
  case True
  with K show ?thesis by (auto simp: block_receiver_def)
next
  case nb: False
  let ?vs = "views (ks s)"
  note D = kernel_okD [OF K]
  note I = ipc_invD [OF D(2)]
  have vx: "x < length ?vs" "?vs ! x = pv (ip s x)" "\<not> v_empty (?vs ! x)" using x by simp_all
  have "\<exists>n. deadlock c (RECEIVE c) x e s = Some n \<and>
     (n = 0 \<longrightarrow> \<not> v_sending (pv (ip s x)) \<longrightarrow>
        e = ANY c \<or> (\<exists>d. okep c ?vs e = Some d \<and> (d, x) \<notin> (waits c ?vs)\<^sup>*))"
  proof (cases "e = ANY c")
    case True
    then show ?thesis by (auto simp: deadlock_def deadlock_walk.simps)
  next
    case False
    then obtain d where d: "okep c ?vs e = Some d" "d \<noteq> x" using e by blast
    have dl: "d < length (kprocs (ks s))" "p_endpoint (ip s d) = e" using okepD [OF d(1)] by auto
    show ?thesis
    proof (cases "v_sending (pv (ip s x))")
      case True
      then show ?thesis
        using deadlock_walk_exact [OF D(2) x(1,2) d(1), of 1 "RECEIVE c"] by (auto simp: deadlock_def)
    next
      case ns: False
      have "\<not> (blockedon c (pv (ip s d)) = p_endpoint (ip s x) \<and>
          (p_rts_flags (ip s d) XOR push_bit 2 (word_of_nat 2)) AND RTS_SENDING \<noteq> 0)"
      proof
        assume b: "blockedon c (pv (ip s d)) = p_endpoint (ip s x) \<and>
          (p_rts_flags (ip s d) XOR push_bit 2 (word_of_nat 2)) AND RTS_SENDING \<noteq> 0"
        then have "v_sending (pv (ip s d)) \<and> v_sendto (pv (ip s d)) = p_endpoint (ip s x)"
          using receive_exception [of c "ip s d"] slotsD(4) [OF I(1) vx(1,3)] vx(2) by auto
        then have "d \<in> set (wq ! x)"
          using wqsD(3) [OF I(2), of x d] okep_self [OF I(1) vx(1,3)] vx(1,2) dl(1) by simp
        with none ns dl(2) show False by blast
      qed
      then show ?thesis
        using deadlock_no_cycle [OF K x(1,2) d, of "RECEIVE c"] C d(1) by (auto simp: cfg_ok_def)
    qed
  qed
  then obtain n where n: "deadlock c (RECEIVE c) x e s = Some n"
    "n = 0 \<Longrightarrow> \<not> v_sending (pv (ip s x)) \<Longrightarrow>
        e = ANY c \<or> (\<exists>d. okep c ?vs e = Some d \<and> (d, x) \<notin> (waits c ?vs)\<^sup>*)" by blast
  show ?thesis
  proof (cases "n = 0")
    case False
    with nb n(1) K show ?thesis by (auto simp: block_receiver_def)
  next
    case True
    have "ipc_inv c (?vs[x := (?vs ! x)\<lparr>v_receiving := True, v_getfrom := e\<rparr>]) wq"
    proof (cases "v_sending (pv (ip s x))")
      case sending: True
      then show ?thesis
        using ipc_inv_block_sendrec [OF D(2) vx(1)] sr [OF sending] vx(2) x(3) by simp
    next
      case ns: False
      have "e \<noteq> ANY c \<and> v_ep (?vs ! y) \<noteq> e" if "y \<in> set (wq ! x)" for y
        using none [OF ns] that wqsD(3) [OF I(2), of x y] vx(1) by simp
      then show ?thesis
        using n(2) [OF True ns] ns vx x(3) by (intro ipc_inv_block_receiver [OF D(2) vx(1)]) simp_all
    qed
    from receiving_update [OF K x(1,2) this] nb n(1) True show ?thesis
      by (auto simp: block_receiver_def)
  qed
qed

text \<open>A message that the caller picks up itself: the caller goes on with the delivery flag set.\<close>

definition picked :: "nat \<Rightarrow> istate \<Rightarrow> istate \<Rightarrow> bool" where
  "picked x s s' \<longleftrightarrow> (ready s \<longrightarrow> ready s') \<and> proc_ptr (ks s') = proc_ptr (ks s) \<and>
     views (ks s') = (views (ks s))[x := (views (ks s) ! x)\<lparr>v_deliver := True\<rparr>]"

definition untouched :: "istate \<Rightarrow> istate \<Rightarrow> bool" where
  "untouched s s' \<longleftrightarrow> (ready s \<longrightarrow> ready s') \<and> proc_ptr (ks s') = proc_ptr (ks s) \<and> views (ks s') = views (ks s)"

lemma untouched_refl [simp]: "untouched s s"
  by (simp add: untouched_def)

lemma untouched_trans: "untouched s t \<Longrightarrow> untouched t u \<Longrightarrow> untouched s u"
  "untouched s t \<Longrightarrow> picked x t u \<Longrightarrow> picked x s u"
  by (auto simp: untouched_def picked_def)

lemma untouched_priv [simp]: "untouched s (upd_priv i f s)"
  by (simp add: untouched_def)

lemma untouched_length: "untouched s s' \<Longrightarrow> length (kprocs (ks s')) = length (kprocs (ks s))"
  unfolding untouched_def by (metis views_simps(1))

lemma kernel_ok_untouched: "kernel_ok c s wq \<Longrightarrow> untouched s s' \<Longrightarrow> kernel_ok c s' wq"
  by (simp add: kernel_ok_def untouched_def)

lemma kernel_ok_picked:
  assumes "kernel_ok c s wq" "picked x s s'" "x < length (kprocs (ks s))"
    and "\<not> v_sending (pv (ip s x))" "\<not> v_receiving (pv (ip s x))"
  shows "kernel_ok c s' wq"
proof -
  have "(views (ks s) ! x)\<lparr>v_deliver := True\<rparr> = (views (ks s) ! x)\<lparr>v_receiving := False, v_deliver := True\<rparr>"
    using assms(3,5) by (cases "pv (ip s x)") simp
  then show ?thesis
    using assms ipc_inv_deliver [OF kernel_okD(2) [OF assms(1)], of x True]
    by (simp add: kernel_ok_def picked_def nth_fields)
qed

lemma picked_upd:
  assumes "\<And>p. pv (f p) = (pv p)\<lparr>v_deliver := True\<rparr>" "\<And>p. p_nextready (f p) = p_nextready p"
    and "\<And>p. p_rts_flags (f p) = p_rts_flags p" "\<And>p. p_priority (f p) = p_priority p"
    and "x < length (kprocs (ks s))"
  shows "picked x s (upd_ip x f s)"
  using assms ready_upd [OF _ assms(2-4)] by (simp add: picked_def views_upd_ip)

lemma picked_put [simp]: "picked x s (put_entry p tab i e s') = picked x s s'"
  by (simp add: picked_def ready_def put_entry_def)

lemma try_entries_effect:
  assumes "try_entries c src x tab is dn pp s = (r, pp', s')" "x < length (kprocs (ks s))" "tables_writable c"
  shows "if r = OK then picked x s s' else untouched s s'"
  using assms
proof (induction c src x tab "is" dn pp s rule: try_entries.induct)
  case (1 c src x tab dn pp s)
  then show ?case by (auto split: if_split_asm)
next
  case (2 c src x tab i "is" dn pp s)
  show ?case
  proof (cases "utab s src tab i")
    case None
    with 2 show ?thesis by auto
  next
    case (Some en)
    let ?f = "\<lambda>p. set_mf MF_DELIVERMSG (p\<lparr>p_delivermsg := (a_msg en)\<lparr>k_source := p_endpoint (ip s src)\<rparr>\<rparr>)"
    have "picked x s (upd_ip x ?f s)"
      by (rule picked_upd) (use 2(6) in \<open>simp_all, simp_all add: set_mf_def\<close>)
    then show ?thesis using 2(1-4) [OF Some] 2(5-7) Some
      by (auto simp: finish_entry_def tables_writable_def split: if_split_asm)
  qed
qed

lemma try_one_effect:
  assumes "try_one c src x pp s = (r, pp', s')" "x < length (kprocs (ks s))" "tables_writable c"
  shows "if r = OK then picked x s s' else untouched s s'"
  using assms try_entries_effect [of c src x _ _ True pp s r pp' s']
  by (auto simp: try_one_def Let_def split: if_split_asm)

lemma try_privs_effect:
  assumes "x < length (kprocs (ks s))" "\<not> v_deliver (pv (ip s x))" "tables_writable c"
  shows "\<exists>r s'. try_privs c x is pp s = Some (r, s') \<and> (if r = OK then picked x s s' else untouched s s')"
  using assms
proof (induction "is" arbitrary: pp s)
  case Nil
  then show ?case by (auto simp: untouched_def views_quiet ready_quiet)
next
  case (Cons i "is")
  show ?case
  proof (cases "s_proc_nr (kprivs (ks s) ! i) = i_NONE c")
    case True
    with Cons show ?thesis by simp
  next
    case False
    obtain r pp1 s1 where t: "try_one c (slot (kc c) (s_proc_nr (kprivs (ks s) ! i))) x pp s = (r, pp1, s1)"
      by (cases "try_one c (slot (kc c) (s_proc_nr (kprivs (ks s) ! i))) x pp s")
    note eff = try_one_effect [OF t Cons.prems(1,3)]
    have nd: "\<not> mf (ip s x) MF_DELIVERMSG" using Cons.prems(2) by (simp add: flag_tests)
    show ?thesis
    proof (cases "r = OK")
      case True
      with False t nd eff show ?thesis by (auto simp: kassert_def Let_def)
    next
      case ne: False
      with eff have u: "untouched s s1" by simp
      have l: "x < length (kprocs (ks s1))" using untouched_length [OF u] Cons.prems(1) by simp
      have "views (ks s1) ! x = views (ks s) ! x" using u by (simp add: untouched_def)
      then have "\<not> v_deliver (pv (ip s1 x))" using Cons.prems l by simp
      from Cons.IH [OF l this Cons.prems(3), of pp1] obtain r' s' where
        "try_privs c x is pp1 s1 = Some (r', s')" "if r' = OK then picked x s1 s' else untouched s1 s'" by blast
      then show ?thesis using False t nd ne untouched_trans [OF u]
        by (auto simp: kassert_def Let_def split: if_split_asm)
    qed
  qed
qed

lemma receive_async_effect:
  assumes "x < length (kprocs (ks s))" "\<not> v_deliver (pv (ip s x))" "tables_writable c"
  shows "\<exists>r s'. receive_async c x e src s = Some (r, s') \<and> (if r = OK then picked x s s' else untouched s s')"
proof -
  obtain r pp s1 where t: "try_one c src x False s = (r, pp, s1)" by (cases "try_one c src x False s")
  show ?thesis
    using try_one_effect [OF t assms(1,3)] try_privs_effect [OF assms, of "[0 ..< NR_SYS_PROCS c]" False] t
    by (auto simp: receive_async_def try_async_def Let_def)
qed

lemma take_notification_effect:
  assumes "x < length (kprocs (ks s))" "\<not> v_deliver (pv (ip s x))"
    and "e = ANY c \<or> p_endpoint (ip s (slot (kc c) nr)) = e"
  shows "\<exists>s'. take_notification c x e (k, i, nr) s = Some s' \<and> picked x s s'"
proof -
  define s1 where "s1 = upd_priv (p_priv (ip s x))
    (\<lambda>p. p\<lparr>s_notify_pending := (s_notify_pending p)[k := (s_notify_pending p ! k)[i := False]]\<rparr>) s"
  let ?f = "\<lambda>p. IPC_STATUS_ADD (STATUS_CALL_TO c (NOTIFY c)) (set_mf MF_DELIVERMSG
    (p\<lparr>p_delivermsg := (notify_message c nr x s1)\<lparr>k_source := p_endpoint (ip s (slot (kc c) nr))\<rparr>\<rparr>))"
  have "untouched s s1" by (simp add: s1_def)
  then have u: "untouched s (notify_consume c nr x s1)"
    unfolding notify_consume_def using untouched_priv untouched_trans(1) by blast
  then have "picked x (notify_consume c nr x s1) (upd_ip x ?f (notify_consume c nr x s1))"
    using untouched_length [OF u] assms(1)
    by (intro picked_upd) (simp_all, simp_all add: IPC_STATUS_ADD_def set_mf_def)
  then have "picked x s (upd_ip x ?f (notify_consume c nr x s1))"
    by (rule untouched_trans(2) [OF u])
  then show ?thesis using assms(2,3)
    by (simp add: take_notification_def Let_def kassert_def flag_tests flip: s1_def)
qed

lemma scan_pending_source:
  "scan_pending c prs e p k chs = Some (k', i, nr) \<Longrightarrow> e = ANY c \<or> p = nr"
  by (induction chs arbitrary: k) (auto simp: Let_def split: option.split_asm if_split_asm)

lemma receive_done_ok:
  "kernel_ok c s wq \<Longrightarrow> \<exists>r s'. receive_done x s = Some (r, s') \<and> kernel_ok c s' wq"
  by (simp add: receive_done_def kernel_ok_def views_quiet ready_quiet)

lemma receive_queued_ok:
  assumes K: "kernel_ok c s wq" and C: "cfg_ok c" and x: "caller_ok s x"
    and e: "e = ANY c \<or> isokendpt (kc c) (ks s) e = Some srcs \<and> srcs \<noteq> x"
  shows "\<exists>r s' wq'. receive_queued c x e (if e = ANY c then ANY c else int srcs - int (k_NR_TASKS (kc c))) fl s = Some (r, s') \<and>
    kernel_ok c s' wq'"
proof -
  let ?vs = "views (ks s)" and ?p = "if e = ANY c then ANY c else int srcs - int (k_NR_TASKS (kc c))"
  note I = ipc_invD [OF kernel_okD(2) [OF K]]
  have xl: "x < length (kprocs (ks s))" and xs: "\<not> v_sending (pv (ip s x))" using x by (simp_all add: caller_ok_def)
  have yl: "y < length (kprocs (ks s))" if "y \<in> set (wq ! x)" for y
    using that wqsD(3) [OF I(2), of x y] xl by simp
  have "chain (\<lambda>i. v_qlink (?vs ! i)) (p_caller_q (ip s x)) (wq ! x)" using wqsD(2) [OF I(2), of x] xl by simp
  then have ch: "chain (\<lambda>i. p_q_link (ip s i)) (p_caller_q (ip s x)) (wq ! x)"
    using yl by (simp cong: chain_cong)
  from find_sender_spec [OF ch, of None "[]" c e ?p]
  consider (nobody) "find_sender c e ?p (ks s) None (p_caller_q (ip s x)) = Some None"
      "\<forall>y \<in> set (wq ! x). \<not> (e = ANY c \<or> ?p = p_nr (ip s y))"
    | (found) us y ws where "wq ! x = us @ y # ws"
      "find_sender c e ?p (ks s) None (p_caller_q (ip s x)) = Some (Some (last_opt us, y))"
    by (auto simp: last_opt_def)
  then show ?thesis
  proof cases
    case nobody
    have "\<forall>y \<in> set (wq ! x). e \<noteq> ANY c \<and> p_endpoint (ip s y) \<noteq> e"
    proof
      fix y assume y: "y \<in> set (wq ! x)"
      note l = yl [OF y]
      have "e \<noteq> ANY c" "p_nr (ip s y) \<noteq> int srcs - int (k_NR_TASKS (kc c))" using nobody(2) y by auto
      moreover have "p_nr (ip s y) = int y - int (k_NR_TASKS (kc c))" using slotsD(1) [OF I(1), of y] l by simp
      moreover have "\<not> isemptyp (ip s y)"
        using slotsD(5) [OF I(1), of y] wqsD(3) [OF I(2), of x y] y l xl by simp
      then have "okep c ?vs (p_endpoint (ip s y)) = Some y" using okep_self [OF I(1), of y] l by simp
      ultimately show "e \<noteq> ANY c \<and> p_endpoint (ip s y) \<noteq> e" using e by (auto simp: okep_views)
    qed
    moreover have "e = ANY c \<or> (\<exists>d. okep c ?vs e = Some d \<and> d \<noteq> x)"
      using e by (auto simp: okep_views split: if_split_asm)
    ultimately obtain r s' where "block_receiver c x e fl s = Some (r, s')" "kernel_ok c s' wq"
      using block_receiver_ok [OF K C, of x e fl] x by (auto simp: caller_ok_def)
    then show ?thesis using nobody(1) by (auto simp: receive_queued_def)
  next
    case found
    obtain s1 where s1: "take_sender c x (last_opt us) y s = Some s1" "kernel_ok c s1 (wq[x := us @ ws])"
      using take_sender_ok [OF K x found(1)] by blast
    from receive_done_ok [OF s1(2), of x] show ?thesis
      using s1(1) found(2) by (auto simp: receive_queued_def)
  qed
qed

lemma mini_receive_ok:
  assumes K: "kernel_ok c s wq" and C: "cfg_ok c" and W: "tables_writable c" and x: "x < length (kprocs (ks s))" "\<not> isemptyp (ip s x)"
      "\<not> v_receiving (pv (ip s x))" "\<not> v_deliver (pv (ip s x))" "\<not> v_noep (pv (ip s x))"
    and sr: "v_sending (pv (ip s x)) \<Longrightarrow> v_sendto (pv (ip s x)) = e"
    and e: "e = ANY c \<or> isokendpt (kc c) (ks s) e = Some srcs \<and> srcs \<noteq> x"
  shows "\<exists>r s' wq'. mini_receive c x e buf fl s = Some (r, s') \<and> kernel_ok c s' wq'"
proof -
  let ?s0 = "upd_ip x (\<lambda>p. p\<lparr>p_delivermsg_vir := buf\<rparr>) s"
  define s0 where "s0 = ?s0"
  have u: "untouched s s0"
    by (simp add: untouched_def s0_def views_quiet ready_upd)
  note K0 = kernel_ok_untouched [OF K u]
  note v0 = u [unfolded untouched_def, THEN conjunct2, THEN conjunct2]
  have l0: "length (kprocs (ks s0)) = length (kprocs (ks s))" using untouched_length [OF u] .
  have p0: "pv (ip s0 x) = pv (ip s x)" using arg_cong [OF v0, of "\<lambda>v. v ! x"] x(1) l0 by simp
  have em: "\<not> isemptyp (ip s0 x)" using p0 x(2) by (metis pv_simps(1))
  have e0: "e = ANY c \<or> isokendpt (kc c) (ks s0) e = Some srcs \<and> srcs \<noteq> x"
    using e by (simp add: okep_views v0)
  let ?srcs = "if e = ANY c then 0 else srcs"
  let ?p = "if e = ANY c then ANY c else int ?srcs - int (k_NR_TASKS (kc c))"
  define body where "body = (if e \<noteq> ANY c \<and> RTS_ISSET (ip s0 ?srcs) RTS_NO_ENDPOINT then Some (EDEADSRCDST, s0)
          else if RTS_ISSET (ip s0 x) RTS_SENDING then block_receiver c x e fl s0
          else
            case (if mf (ip s0 x) MF_REPLY_PEND then None
                  else scan_pending c (kprivs (ks s0)) e ?p 0 (s_notify_pending (privof (ks s0) x))) of
              Some hit \<Rightarrow> take_notification c x e hit s0 \<bind> receive_done x
            | None \<Rightarrow>
                (case receive_async c x e ?srcs s0 of
                   None \<Rightarrow> None
                 | Some (r, s1) \<Rightarrow>
                     if r = OK
                     then receive_done x (upd_ip x (IPC_STATUS_ADD (STATUS_CALL_TO c (SENDA c))) s1)
                     else receive_queued c x e ?p fl s1))"
  have "mini_receive c x e buf fl s = body"
    using x(4) e0 unfolding mini_receive_def body_def
    by (cases "e = ANY c") (simp_all add: kassert_def Let_def flag_tests(4) flip: s0_def)
  moreover have "\<exists>r s' wq'. body = Some (r, s') \<and> kernel_ok c s' wq'"
  proof (cases "e \<noteq> ANY c \<and> RTS_ISSET (ip s0 ?srcs) RTS_NO_ENDPOINT")
    case True
    with K0 show ?thesis by (auto simp: body_def)
  next
    case ne: False
    show ?thesis
    proof (cases "RTS_ISSET (ip s0 x) RTS_SENDING")
      case True
      then have sd: "v_sending (pv (ip s0 x))" by (simp add: flag_tests)
      have "e = ANY c \<or> (\<exists>d. okep c (views (ks s0)) e = Some d \<and> d \<noteq> x)"
        using e0 by (auto simp: okep_views split: if_split_asm)
      then obtain r s' where "block_receiver c x e fl s0 = Some (r, s')" "kernel_ok c s' wq"
        using block_receiver_ok [OF K0 C, of x e fl] x sd sr l0 p0 em by auto
      moreover have "body = block_receiver c x e fl s0" using ne True unfolding body_def by (simp only: if_False if_True)
      ultimately show ?thesis by auto
    next
      case ns: False
      then have nsd: "\<not> v_sending (pv (ip s0 x))" by (simp add: flag_tests)
      have c0: "caller_ok s0 x" using x nsd l0 p0 em by (simp add: caller_ok_def del: pv_simps)
      let ?scan = "if mf (ip s0 x) MF_REPLY_PEND then None
                  else scan_pending c (kprivs (ks s0)) e ?p 0 (s_notify_pending (privof (ks s0) x))"
      have b: "body = (case ?scan of
              Some hit \<Rightarrow> take_notification c x e hit s0 \<bind> receive_done x
            | None \<Rightarrow>
                (case receive_async c x e ?srcs s0 of
                   None \<Rightarrow> None
                 | Some (r, s1) \<Rightarrow>
                     if r = OK
                     then receive_done x (upd_ip x (IPC_STATUS_ADD (STATUS_CALL_TO c (SENDA c))) s1)
                     else receive_queued c x e ?p fl s1))"
        using ne ns unfolding body_def by (simp only: if_False)
      show ?thesis
      proof (cases ?scan)
        case (Some hit)
        obtain k i nr where hit: "hit = (k, i, nr)" by (cases hit)
        have "e = ANY c \<or> ?p = nr"
          using Some hit scan_pending_source [of c "kprivs (ks s0)" e ?p 0] by (auto split: if_split_asm)
        then have "e = ANY c \<or> p_endpoint (ip s0 (slot (kc c) nr)) = e"
          using e0 isokendpt_slot by (auto simp: slot_def split: if_split_asm)
        then obtain s' where s': "take_notification c x e (k, i, nr) s0 = Some s'" "picked x s0 s'"
          using take_notification_effect [of x s0 e c nr k i] c0 by (auto simp: caller_ok_def)
        have "kernel_ok c s' wq"
          using kernel_ok_picked [OF K0 s'(2)] c0 by (simp add: caller_ok_def)
        from receive_done_ok [OF this, of x] show ?thesis using s'(1) Some hit b by auto
      next
        case None
        obtain r s1 where A: "receive_async c x e ?srcs s0 = Some (r, s1)"
            "if r = OK then picked x s0 s1 else untouched s0 s1"
          using receive_async_effect [of x s0 c e ?srcs] c0 W by (auto simp: caller_ok_def)
        show ?thesis
        proof (cases "r = OK")
          case True
          then have "kernel_ok c s1 wq" using kernel_ok_picked [OF K0, of x s1] A(2) c0 by (simp add: caller_ok_def)
          then have "kernel_ok c (upd_ip x (IPC_STATUS_ADD (STATUS_CALL_TO c (SENDA c))) s1) wq"
            by (simp add: kernel_ok_def views_quiet ready_quiet)
          from receive_done_ok [OF this, of x] show ?thesis using True None A(1) b by auto
        next
          case False
          with A(2) have u1: "untouched s0 s1" by simp
          note v1 = u1 [unfolded untouched_def, THEN conjunct2, THEN conjunct2]
          have l1: "length (kprocs (ks s1)) = length (kprocs (ks s0))" using untouched_length [OF u1] .
          have p1: "pv (ip s1 x) = pv (ip s0 x)"
            using arg_cong [OF v1, of "\<lambda>v. v ! x"] x(1) l0 l1 by simp
          then have "isemptyp (ip s1 x) = isemptyp (ip s0 x)" by (metis pv_simps(1))
          then have "caller_ok s1 x" using c0 p1 l1 by (simp add: caller_ok_def del: pv_simps)
          moreover have "e = ANY c \<or> isokendpt (kc c) (ks s1) e = Some ?srcs \<and> ?srcs \<noteq> x"
            using e0 by (cases "e = ANY c") (simp_all add: okep_views v1)
          ultimately obtain r' s' wq' where "receive_queued c x e ?p fl s1 = Some (r', s')" "kernel_ok c s' wq'"
            using receive_queued_ok [OF kernel_ok_untouched [OF K0 u1] C] by blast
          then show ?thesis using False None A(1) b by auto
        qed
      qed
    qed
  qed
  ultimately show ?thesis by simp
qed

lemma mini_notify_ok:
  assumes K: "kernel_ok c s wq"
  shows "\<exists>r s'. mini_notify c x e s = Some (r, s') \<and> kernel_ok c s' wq"
proof (cases "isokendpt (kc c) (ks s) e")
  case None
  with K show ?thesis by (auto simp: mini_notify_def)
next
  case (Some d)
  have dl: "d < length (kprocs (ks s))" using isokendpt_slot [OF Some] by simp
  show ?thesis
  proof (cases "WILLRECEIVE c (ip s d) (p_endpoint (ip s x)) \<and> \<not> mf (ip s d) MF_REPLY_PEND")
    case False
    with Some kernel_ok_untouched [OF K untouched_priv] show ?thesis by (auto simp: mini_notify_def)
  next
    case True
    let ?src = "p_nr (ip s x)"
    let ?m = "(notify_message c ?src d s)\<lparr>k_source := p_endpoint (ip s x)\<rparr>"
    let ?f = "\<lambda>p. IPC_STATUS_ADD (STATUS_CALL_TO c (NOTIFY c)) (set_mf MF_DELIVERMSG (p\<lparr>p_delivermsg := ?m\<rparr>))"
    let ?t = "notify_consume c ?src d s"
    have u: "untouched s ?t" by (simp add: notify_consume_def)
    have "kprocs (ks ?t) = kprocs (ks s)" by (simp add: notify_consume_def)
    then have "\<not> mf (ip ?t d) MF_DELIVERMSG \<and> (\<exists>s'. UNSET_RTS c d RTS_RECEIVING (upd_ip d ?f ?t) = Some s' \<and>
        kernel_ok c s' wq \<and>
        views (ks s') = (views (ks ?t))[d := (views (ks ?t) ! d)\<lparr>v_receiving := False, v_deliver := True\<rparr>])"
      using True dl by (intro deliver_unblock [OF kernel_ok_untouched [OF K u], where e = "p_endpoint (ip s x)"])
        (simp_all add: WILLRECEIVE_view, simp_all add: IPC_STATUS_ADD_def set_mf_def)
    with \<open>kprocs (ks ?t) = kprocs (ks s)\<close> show ?thesis
      using Some True by (auto simp: mini_notify_def kassert_def Let_def)
  qed
qed

subsection \<open>Calls, and sequences of calls\<close>

lemma caller_quiet:
  assumes K: "kernel_ok c s wq" and x: "caller_ok s x"
    and f: "\<And>p. pv (f p) = pv p" "\<And>p. p_nextready (f p) = p_nextready p" "\<And>p. p_rts_flags (f p) = p_rts_flags p"
      "\<And>p. p_priority (f p) = p_priority p"
  shows "kernel_ok c (upd_ip x f s) wq \<and> caller_ok (upd_ip x f s) x \<and>
    isokendpt (kc c) (ks (upd_ip x f s)) = isokendpt (kc c) (ks s)"
proof -
  have u: "untouched s (upd_ip x f s)"
    using f by (simp add: untouched_def views_quiet ready_upd)
  have "isemptyp (f p) = isemptyp p" for p using f(1) by (metis pv_simps(1))
  then have "caller_ok (upd_ip x f s) x" using x f(1) by (simp add: caller_ok_def del: pv_simps)
  then show ?thesis using kernel_ok_untouched [OF K u] u by (simp add: fun_eq_iff okep_views untouched_def)
qed

lemma sync_call_ok:
  assumes K: "kernel_ok c s wq" and C: "cfg_ok c" and W: "tables_writable c" and x: "caller_ok s x"
    and e: "(call_nr = RECEIVE c \<and> e = ANY c) \<or> call_nr = NOTIFY c \<or> (\<exists>d. isokendpt (kc c) (ks s) e = Some d \<and> d \<noteq> x)"
  shows "\<exists>r s' wq'. sync_call c x call_nr e buf s = Some (r, s') \<and> kernel_ok c s' wq'"
proof -
  consider (srec) "call_nr = SENDREC c" | (snd) "call_nr = SEND c" | (rcv) "call_nr = RECEIVE c"
    | (notify) "call_nr = NOTIFY c" | (nblk) "call_nr = SENDNB c"
    | (bad) "call_nr \<notin> {SENDREC c, SEND c, RECEIVE c, NOTIFY c, SENDNB c}" by blast
  then show ?thesis
  proof cases
    case srec
    then obtain d where d: "isokendpt (kc c) (ks s) e = Some d" "d \<noteq> x" using e C by (auto simp: cfg_ok_def)
    define t where "t = upd_ip x (set_mf MF_REPLY_PEND) s"
    have T: "kernel_ok c t wq" "caller_ok t x" "isokendpt (kc c) (ks t) e = Some d"
      unfolding t_def using caller_quiet [OF K x, of "set_mf MF_REPLY_PEND"] d(1) by (simp_all add: mf_other)
    obtain r s1 wq1 where S: "mini_send c x e (Uaddr buf) 0 t = Some (r, s1)" "kernel_ok c s1 wq1"
        "okep c (views (ks s1)) = okep c (views (ks t))" "length (kprocs (ks s1)) = length (kprocs (ks t))"
        "\<not> isemptyp (ip s1 x)" "\<not> v_receiving (pv (ip s1 x))" "\<not> v_deliver (pv (ip s1 x))" "\<not> v_noep (pv (ip s1 x))"
        "v_sending (pv (ip s1 x)) \<longrightarrow> v_sendto (pv (ip s1 x)) = e"
      using mini_send_ok [OF T(1) C T(2,3) d(2), of "Uaddr buf" 0] by blast
    have "\<exists>r s' wq'. mini_receive c x e buf 0 s1 = Some (r, s') \<and> kernel_ok c s' wq'"
      using S T d(2) by (intro mini_receive_ok [OF S(2) C W, where srcs = d]) (auto simp: caller_ok_def okep_views)
    then show ?thesis using srec S(1,2) by (cases "r = OK") (auto simp: sync_call_def simp flip: t_def)
  next
    case snd
    then obtain d where d: "isokendpt (kc c) (ks s) e = Some d" "d \<noteq> x" using e C by (auto simp: cfg_ok_def)
    from mini_send_ok [OF K C x d, of "Uaddr buf" 0] snd C show ?thesis by (auto simp: sync_call_def cfg_ok_def)
  next
    case nblk
    then obtain d where d: "isokendpt (kc c) (ks s) e = Some d" "d \<noteq> x" using e C by (auto simp: cfg_ok_def)
    from mini_send_ok [OF K C x d, of "Uaddr buf" NON_BLOCKING] nblk C show ?thesis
      by (auto simp: sync_call_def cfg_ok_def)
  next
    case notify
    from mini_notify_ok [OF K, of x e] notify C show ?thesis by (auto simp: sync_call_def cfg_ok_def)
  next
    case rcv
    define t where "t = upd_ip x (\<lambda>p. (clear_mf MF_REPLY_PEND p)\<lparr>p_ipc_status := 0\<rparr>) s"
    have T: "kernel_ok c t wq" "caller_ok t x" "isokendpt (kc c) (ks t) = isokendpt (kc c) (ks s)"
      unfolding t_def using caller_quiet [OF K x, of "\<lambda>p. (clear_mf MF_REPLY_PEND p)\<lparr>p_ipc_status := 0\<rparr>"]
      by (simp_all add: mf_other)
    obtain srcs where "e = ANY c \<or> isokendpt (kc c) (ks t) e = Some srcs \<and> srcs \<noteq> x" using e T(3) rcv C by (auto simp: cfg_ok_def)
    then have "\<exists>r s' wq'. mini_receive c x e buf 0 t = Some (r, s') \<and> kernel_ok c s' wq'"
      using T(2) by (intro mini_receive_ok [OF T(1) C W]) (auto simp: caller_ok_def)
    then show ?thesis using rcv C by (auto simp: sync_call_def cfg_ok_def simp flip: t_def)
  next
    case bad
    with K show ?thesis by (auto simp: sync_call_def)
  qed
qed

text \<open>
  The calls a process can address to itself and that the kernel does not handle: RECEIVE, which no mask refuses,
  and sends, which \<^verbatim>\<open>set_sendto_bit\<close> never allows.
\<close>

definition self_call :: "icfg \<Rightarrow> istate \<Rightarrow> nat \<Rightarrow> nat \<Rightarrow> int \<Rightarrow> bool" where
  "self_call c s x call_nr e \<longleftrightarrow>
     e = p_endpoint (ip s x) \<and> (call_nr = RECEIVE c \<or> call_nr \<noteq> NOTIFY c \<and> may_send_to c s x x)"

lemma do_sync_ipc_ok:
  assumes K: "kernel_ok c s wq" and C: "cfg_ok c" and W: "tables_writable c" and x: "caller_ok s x" and n: "call_nr \<noteq> SENDA c"
    and self: "\<not> self_call c s x call_nr e"
  shows "\<exists>r s' wq'. do_sync_ipc c x call_nr e buf s = Some (r, s') \<and> kernel_ok c s' wq'"
proof -
  have "\<exists>r. do_sync_ipc c x call_nr e buf s = Some (r, s) \<or>
      (do_sync_ipc c x call_nr e buf s = sync_call c x call_nr e buf s \<and>
       ((call_nr = RECEIVE c \<and> e = ANY c) \<or>
        (\<exists>d. isokendpt (kc c) (ks s) e = Some d \<and> (call_nr \<noteq> RECEIVE c \<longrightarrow> may_send_to c s x d))))"
    using n by (auto simp: do_sync_ipc_def kassert_def split: option.split)
  then obtain r where "do_sync_ipc c x call_nr e buf s = Some (r, s) \<or>
      (do_sync_ipc c x call_nr e buf s = sync_call c x call_nr e buf s \<and>
       ((call_nr = RECEIVE c \<and> e = ANY c) \<or>
        (\<exists>d. isokendpt (kc c) (ks s) e = Some d \<and> (call_nr \<noteq> RECEIVE c \<longrightarrow> may_send_to c s x d))))" by blast
  moreover have "call_nr = NOTIFY c \<or> d \<noteq> x"
    if "isokendpt (kc c) (ks s) e = Some d" "call_nr \<noteq> RECEIVE c \<longrightarrow> may_send_to c s x d" for d
    using isokendpt_slot [OF that(1)] that(2) self unfolding self_call_def by blast
  ultimately show ?thesis using sync_call_ok [OF K C W x, of call_nr e buf] K by auto
qed

text \<open>
  One step of the system: a process that runs makes a synchronous call, not one of those to itself described above,
  or a message that was delivered is copied to a process before it runs, which clears the flag.
\<close>

inductive ipc_step :: "icfg \<Rightarrow> istate \<Rightarrow> istate \<Rightarrow> bool" for c where
  call: "x < length (kprocs (ks s)) \<Longrightarrow> proc_is_runnable (ip s x) \<Longrightarrow> \<not> mf (ip s x) MF_DELIVERMSG \<Longrightarrow>
    call_nr \<noteq> SENDA c \<Longrightarrow> \<not> self_call c s x call_nr e \<Longrightarrow> do_sync_ipc c x call_nr e buf s = Some (r, s') \<Longrightarrow> ipc_step c s s'"
| copied: "x < length (kprocs (ks s)) \<Longrightarrow> proc_is_runnable (ip s x) \<Longrightarrow>
    ipc_step c s (upd_ip x (clear_mf MF_DELIVERMSG) s)"

lemma runnable_caller:
  assumes "x < length (kprocs (ks s))" "proc_is_runnable (ip s x)" "\<not> mf (ip s x) MF_DELIVERMSG"
  shows "caller_ok s x"
  using assms by (simp add: caller_ok_def proc_is_runnable_def isemptyp_def RTS_SLOT_FREE_def flag_tests(4))

lemma ipc_step_ok:
  assumes "ipc_step c s s'" "kernel_ok c s wq" "cfg_ok c" "tables_writable c"
  shows "\<exists>wq'. kernel_ok c s' wq'"
  using assms(1)
proof cases
  case (call x call_nr e buf r)
  from do_sync_ipc_ok [OF assms(2-4) runnable_caller [OF call(1-3)] call(4,5), of buf] call(6) show ?thesis by auto
next
  case (copied x)
  note D = kernel_okD [OF assms(2)]
  have fl: "\<not> v_receiving (pv (ip s x))" "\<not> v_sending (pv (ip s x))"
    using copied(3) by (simp_all add: proc_is_runnable_def)
  then have "(pv (ip s x))\<lparr>v_deliver := False\<rparr> = (views (ks s) ! x)\<lparr>v_receiving := False, v_deliver := False\<rparr>"
    using copied(2) by (cases "pv (ip s x)") simp
  then have "views (ks s') = (views (ks s))[x := (views (ks s) ! x)\<lparr>v_receiving := False, v_deliver := False\<rparr>]"
    using copied(1) by (simp add: views_upd_ip)
  then have "kernel_ok c s' wq"
    using D copied(1,2) fl ipc_inv_deliver [OF D(2), of x False] ready_quiet(2) [OF D(1), of x MF_DELIVERMSG]
    by (simp add: kernel_ok_def nth_fields)
  then show ?thesis by blast
qed

lemma ipc_steps_ok:
  assumes "(ipc_step c)\<^sup>*\<^sup>* s s'" "kernel_ok c s wq" "cfg_ok c" "tables_writable c"
  shows "\<exists>wq'. kernel_ok c s' wq'"
  using assms(1)
proof induction
  case base
  with assms(2) show ?case by blast
next
  case (step t u)
  then obtain wq' where "kernel_ok c t wq'" by blast
  from ipc_step_ok [OF step(2) this assms(3,4)] show ?case .
qed

lemma waits_end:
  assumes I: "ipc_inv c vs wq" and x: "x < length vs"
  shows "\<exists>y. (x, y) \<in> (waits c vs)\<^sup>* \<and> y < length vs \<and> blockedon c (vs ! y) \<in> {ANY c, i_NONE c}"
proof -
  have wf: "wf ((waits c vs)\<inverse>)"
    using finite_waits ipc_invD(5) [OF I] by (rule finite_acyclic_wf_converse)
  show ?thesis using wf x
  proof (induction x rule: wf_induct_rule)
    case (less x)
    show ?case
    proof (cases "blockedon c (vs ! x) \<in> {ANY c, i_NONE c}")
      case True
      with less.prems show ?thesis by blast
    next
      case False
      then obtain f where "okep c vs (blockedon c (vs ! x)) = Some f"
        using ipc_invD(3) [OF I] less.prems by (auto simp: wants_ok_def blockedon_def split: if_split_asm)
      with False less.prems have e: "(x, f) \<in> waits c vs" by (simp add: waits_iff)
      with less.IH [of f] waits_bounds [OF e] obtain y where
        "(f, y) \<in> (waits c vs)\<^sup>*" "y < length vs" "blockedon c (vs ! y) \<in> {ANY c, i_NONE c}" by auto
      with e show ?thesis by (meson converse_rtrancl_into_rtrancl)
    qed
  qed
qed

lemma ipc_inv_idle:
  assumes "slots_ok c vs"
    and "\<And>x. x < length vs \<Longrightarrow> \<not> v_sending (vs ! x) \<and> \<not> v_receiving (vs ! x) \<and> v_callerq (vs ! x) = None \<and> v_qlink (vs ! x) = None"
  shows "ipc_inv c vs (replicate (length vs) [])"
proof -
  have "waits c vs = {}" using assms(2) by (auto simp: waits_iff blockedon_def)
  then show ?thesis using assms
    by (auto simp: ipc_inv_def wqs_ok_def wants_ok_def none_missed_def acyclic_def)
qed

subsection \<open>A small system\<close>

declare unlink.simps [code] deadlock_walk.simps [code] last_caller.simps [code] find_sender.simps [code]

definition demo_icfg :: icfg where
  "demo_icfg = \<lparr>kc = demo_kcfg, ANY = 100, i_NONE = 101, SELF = 102, SEND = 1, RECEIVE = 2, SENDREC = 3, NOTIFY = 4,
     SENDNB = 5, SENDA = 16, IPCNO_HIGHEST = 16, named_call = (\<lambda>n. n \<in> {1, 2, 3, 4, 5, 16}), HARDWARE = - 1, SYSTEM = - 2,
     NOTIFY_FROM = id, i_NO_QUANTUM_type = 7, get_uptime = (\<lambda>_. 0), STATUS_CALL_TO = (\<lambda>n. word_of_nat n),
     STATUS_FROM_KERNEL = 256, BITCHUNK_BITS = 4, NR_SYS_PROCS = 4, USER_PRIV_ID = 3, SYS_PROC = 16, AMF_VALID = 1,
     AMF_DONE = 2, AMF_NOTIFY = 4, AMF_NOREPLY = 8, SIGKSIG = 1, SIGKSIGSM = 2, SIGSNDELAY = 3, SIGTRAP = 5,
     SIGS_IS_LETHAL = (\<lambda>_. False), user_msg = (\<lambda>_ _. Some \<lparr>k_source = 0, k_type = 1, k_arg = {}, k_body = 0\<rparr>), entry_msg = (\<lambda>_ _ _. True),
     put_result = (\<lambda>_ _ _. True), put_flags = (\<lambda>_ _ _. True)\<rparr>"

definition demo_run :: kstate where
  "demo_run = the (RTS_UNSET demo_kcfg 1 RTS_NO_QUANTUM demo_k1)"

definition demo_i :: istate where
  "demo_i = \<lparr>ks = demo_run, utab = (\<lambda>_ _ _. None)\<rparr>"

lemma demo_run_views:
  "views demo_run = List.map (\<lambda>e. \<lparr>v_empty = False, v_free = False, v_sending = False, v_receiving = False, v_sendto = 0,
     v_getfrom = 0, v_callerq = None, v_qlink = None, v_ep = e, v_nr = e, v_deliver = False, v_delay = False,
     v_noep = False\<rparr>) [0, 1, 2]"
  by code_simp

lemma demo_i_ok: "kernel_ok demo_icfg demo_i (replicate 3 [])"
proof -
  obtain qs where R: "ready_ok demo_k1 qs {}" using demo_k1_ok by blast
  have "1 < length (kprocs demo_k1)" using demo_k1_runnable(2) by simp
  from RTS_UNSET_ok [OF R this, of demo_kcfg RTS_NO_QUANTUM] have "ready demo_i"
    by (auto simp: ready_def demo_i_def demo_run_def)
  moreover have "slots_ok demo_icfg (views demo_run)"
    unfolding demo_run_views slots_ok_def by (auto simp: demo_icfg_def demo_kcfg_def less_Suc_eq_0_disj)
  then have "ipc_inv demo_icfg (views demo_run) (replicate (length (views demo_run)) [])"
    by (rule ipc_inv_idle) (auto simp: demo_run_views less_Suc_eq_0_disj)
  moreover have "length (views demo_run) = 3" by (simp add: demo_run_views)
  moreover have "\<not> v_free (views demo_run ! proc_ptr demo_run)"
  proof -
    have "proc_ptr demo_run = 0" by code_simp
    then show ?thesis by (simp add: demo_run_views)
  qed
  ultimately show ?thesis by (simp add: kernel_ok_def demo_i_def)
qed

lemma demo_cfg_ok: "cfg_ok demo_icfg" "tables_writable demo_icfg"
  by (simp_all add: cfg_ok_def tables_writable_def demo_icfg_def)

definition demo_i1 :: istate where
  "demo_i1 = snd (the (do_sync_ipc demo_icfg 2 3 1 0 demo_i))"

lemma demo_first_call:
  "do_sync_ipc demo_icfg 2 3 1 0 demo_i = Some (OK, demo_i1)"
proof -
  have "map_option fst (do_sync_ipc demo_icfg 2 3 1 0 demo_i) = Some OK" by code_simp
  then show ?thesis unfolding demo_i1_def by (cases "do_sync_ipc demo_icfg 2 3 1 0 demo_i") auto
qed

lemma demo_step: "ipc_step demo_icfg demo_i demo_i1"
proof (rule ipc_step.call [OF _ _ _ _ _ demo_first_call])
  show "2 < length (kprocs (ks demo_i))" by code_simp
  show "proc_is_runnable (ip demo_i 2)" by code_simp
  show "\<not> mf (ip demo_i 2) MF_DELIVERMSG" by code_simp
  show "3 \<noteq> SENDA demo_icfg" by (simp add: demo_icfg_def)
  show "\<not> self_call demo_icfg demo_i 2 3 1" unfolding self_call_def by code_simp
qed

subsection \<open>Properties\<close>

lemma demo_reach: "(ipc_step demo_icfg)\<^sup>*\<^sup>* demo_i demo_i1"
  using demo_step by (rule r_into_rtranclp [of "ipc_step demo_icfg"])

text \<open>
  (C1) No deadlock among processes that do not call themselves.  Take a consistent state, tables of asynchronous
  messages that can be written back, and any sequence of copies of delivered messages and of synchronous IPC calls
  (send, receive, sendrec, notify, non-blocking send) by running processes, with any arguments except a RECEIVE from
  the caller itself or a send to itself that its mask allows.  Then no process waits for itself through a chain of
  others.  (Both exceptions are faults of the kernel: see \<open>self_receive_hangs_kernel\<close> and
  \<open>failed_write_back_panics\<close> below.)  Every chain of
  ``is blocked on'' ends at a process that is not blocked in IPC or accepts a message from anybody.
\<close>

theorem ipc_never_deadlocks:
  assumes "(ipc_step c)\<^sup>*\<^sup>* s s'" "kernel_ok c s wq" "cfg_ok c" "tables_writable c"
  shows "(x, x) \<notin> (waits c (views (ks s')))\<^sup>+ \<and>
    (y < length (kprocs (ks s')) \<longrightarrow>
      (\<exists>z. (y, z) \<in> (waits c (views (ks s')))\<^sup>* \<and> P_BLOCKEDON c (ip s' z) \<in> {ANY c, i_NONE c}))"
proof -
  obtain wq' where "kernel_ok c s' wq'" using ipc_steps_ok [OF assms] by blast
  then have I: "ipc_inv c (views (ks s')) wq'" by (rule kernel_okD)
  show ?thesis
    using ipc_invD(5) [OF I] waits_end [OF I, of y] by (force simp: acyclic_def P_BLOCKEDON_view)
qed

theorem ipc_never_deadlocks_witness:
  "(2, 2) \<notin> (waits demo_icfg (views (ks demo_i1)))\<^sup>+ \<and>
   (\<exists>z. (2, z) \<in> (waits demo_icfg (views (ks demo_i1)))\<^sup>* \<and>
     P_BLOCKEDON demo_icfg (ip demo_i1 z) \<in> {ANY demo_icfg, i_NONE demo_icfg}) \<and>
   v_sending (pv (ip demo_i1 2)) \<and> v_sendto (pv (ip demo_i1 2)) = 1"
proof -
  have "2 < length (kprocs (ks demo_i1))" by code_simp
  moreover have "v_sending (pv (ip demo_i1 2)) \<and> v_sendto (pv (ip demo_i1 2)) = 1" by code_simp
  ultimately show ?thesis
    using ipc_never_deadlocks [OF demo_reach demo_i_ok demo_cfg_ok, of 2 2] by blast
qed



text \<open>
  (C13) \<^verbatim>\<open>deadlock\<close> is exact, with one gap.  For a running caller that wants to send to another process which is not
  waiting for it, the result is a group size exactly if the destination is already waiting for the caller,
  directly or through others, that is, if blocking would close a circle.  For the caller's own endpoint,
  however, it reports no deadlock although blocking would leave the process waiting for itself.
\<close>

theorem deadlock_exact:
  assumes "kernel_ok c s wq" "cfg_ok c" "caller_ok s x"
    and "isokendpt (kc c) (ks s) e = Some d" "\<not> WILLRECEIVE c (ip s d) (p_endpoint (ip s x))"
  shows "\<exists>n. deadlock c (SEND c) x e s = Some n \<and>
    (n \<noteq> 0 \<longleftrightarrow> d \<noteq> x \<and> (d, x) \<in> (waits c (views (ks s)))\<^sup>+)"
proof (cases "d = x")
  case True
  have x: "\<not> v_sending (pv (ip s x))" "\<not> v_receiving (pv (ip s x))" "x < length (kprocs (ks s))" "\<not> isemptyp (ip s x)"
    using assms(3) by (simp_all add: caller_ok_def)
  have okx: "okep c (views (ks s)) e = Some x" using assms(4) True by (simp add: okep_views)
  have "blockedon c (pv (ip s x)) = i_NONE c" using x by (simp add: blockedon_def)
  moreover have "p_endpoint (ip s x) \<noteq> i_NONE c"
    using slotsD(4) [OF ipc_invD(1) [OF kernel_okD(2) [OF assms(1)]], of x] x by simp
  ultimately have "(x, x) \<notin> (waits c (views (ks s)))\<^sup>+"
    using x(3) by (auto dest!: tranclD simp: waits_iff)
  then obtain n where "deadlock_walk c (SEND c) x s e 1 = Some n" "n = 0"
    using deadlock_walk_exact [OF kernel_okD(2) [OF assms(1)] x(3,4) okx, of 1 "SEND c"] by auto
  with True show ?thesis by (simp add: deadlock_def)
next
  case False
  have x: "x < length (kprocs (ks s))" "\<not> isemptyp (ip s x)" using assms(3) by (simp_all add: caller_ok_def)
  have okd: "okep c (views (ks s)) e = Some d" using assms(4) by (simp add: okep_views)
  have xep: "p_endpoint (ip s x) \<noteq> i_NONE c"
    using slotsD(4) [OF ipc_invD(1) [OF kernel_okD(2) [OF assms(1)]], of x] x by simp
  have "\<not> (blockedon c (pv (ip s d)) = p_endpoint (ip s x) \<and>
      (p_rts_flags (ip s d) XOR push_bit 2 (word_of_nat (SEND c))) AND RTS_SENDING \<noteq> 0)"
    using send_exception [of c "ip s d", OF _ xep] assms(2,5) by (auto simp: cfg_ok_def WILLRECEIVE_view)
  from deadlock_no_cycle [OF assms(1) x okd False this] False show ?thesis
    by (auto simp: rtrancl_eq_or_trancl)
qed

lemma demo_i1_ok: "\<exists>wq. kernel_ok demo_icfg demo_i1 wq"
  using ipc_step_ok [OF demo_step demo_i_ok demo_cfg_ok] .

theorem deadlock_exact_witness:
  "\<exists>n. deadlock demo_icfg 1 1 2 demo_i1 = Some n \<and> n = 2 \<and> (2, 1) \<in> (waits demo_icfg (views (ks demo_i1)))\<^sup>+"
proof -
  obtain wq where "kernel_ok demo_icfg demo_i1 wq" using demo_i1_ok by blast
  moreover have "caller_ok demo_i1 1"
    by (rule runnable_caller) code_simp+
  moreover have "isokendpt (kc demo_icfg) (ks demo_i1) 2 = Some 2"
    "\<not> WILLRECEIVE demo_icfg (ip demo_i1 2) (p_endpoint (ip demo_i1 1))" by code_simp+
  ultimately have "\<exists>n. deadlock demo_icfg (SEND demo_icfg) 1 2 demo_i1 = Some n \<and>
      (n \<noteq> 0 \<longleftrightarrow> 2 \<noteq> (1 :: nat) \<and> (2, 1) \<in> (waits demo_icfg (views (ks demo_i1)))\<^sup>+)"
    using demo_cfg_ok(1) by (intro deadlock_exact)
  moreover have "deadlock demo_icfg 1 1 2 demo_i1 = Some 2" by code_simp
  moreover have "SEND demo_icfg = 1" by (simp add: demo_icfg_def)
  ultimately show ?thesis by simp
qed

text \<open>
  A RECEIVE from oneself is refused by no mask and no check, and blocks the process for ever.  Worse, the next process
  that wants to send to it makes \<^verbatim>\<open>deadlock\<close> go round in circles: the walk finds the process waiting for itself and
  never for the caller, and the kernel does not return.
\<close>

lemma deadlock_walk_self:
  assumes "isokendpt (kc c) (ks s) e = Some y" "P_BLOCKEDON c (ip s y) = e"
    and "e \<noteq> ANY c" "e \<noteq> i_NONE c" "e \<noteq> p_endpoint (ip s x)"
  shows "deadlock_walk c fn x s e n = None"
proof -
  have N: "\<not> (c' = c \<and> x' = x \<and> s' = s \<and> e' = e)" if "deadlock_walk c' fn' x' s' e' n' = Some r" for c' fn' x' s' e' n' r
  proof (rule deadlock_walk.raw_induct [where P = "\<lambda>c' fn' x' s' e' n' r. \<not> (c' = c \<and> x' = x \<and> s' = s \<and> e' = e)", OF _ that])
    fix W c' fn' x' s' e' n' r
    assume IH: "\<And>c' fn' x' s' e' n' r. W c' fn' x' s' e' n' = Some r \<Longrightarrow> \<not> (c' = c \<and> x' = x \<and> s' = s \<and> e' = e)"
      and body: "(if e' = ANY c' then Some 0
        else case isokendpt (kc c') (ks s') e' of None \<Rightarrow> None
          | Some xp \<Rightarrow> if RTS_ISSET (ip s' xp) RTS_SLOT_FREE then None
              else let e = P_BLOCKEDON c' (ip s' xp) in
                if e = i_NONE c' then Some 0
                else if e = p_endpoint (ip s' x') then
                  if n' + 1 = 2 \<and> (p_rts_flags (ip s' xp) XOR push_bit 2 (word_of_nat fn')) AND RTS_SENDING \<noteq> 0 then Some 0
                  else Some (n' + 1)
                else W c' fn' x' s' e (n' + 1)) = Some r"
    show "\<not> (c' = c \<and> x' = x \<and> s' = s \<and> e' = e)"
    proof
      assume h: "c' = c \<and> x' = x \<and> s' = s \<and> e' = e"
      with body assms have "W c fn' x s e (n' + 1) = Some r" by (simp split: if_split_asm)
      then show False using IH [of c fn' x s e "n' + 1" r] by blast
    qed
  qed
  show ?thesis
  proof (rule ccontr)
    assume "deadlock_walk c fn x s e n \<noteq> None"
    then obtain r where "deadlock_walk c fn x s e n = Some r" by blast
    from N [OF this] show False by simp
  qed
qed

lemma self_receive_hangs_kernel:
  assumes "isokendpt (kc c) (ks s) e = Some y" "P_BLOCKEDON c (ip s y) = e"
    and "e \<noteq> ANY c" "e \<noteq> i_NONE c" "e \<noteq> p_endpoint (ip s x)"
    and "\<not> WILLRECEIVE c (ip s y) (p_endpoint (ip s x))" "\<not> RTS_ISSET (ip s y) RTS_NO_ENDPOINT" "fl AND NON_BLOCKING = 0"
  shows "mini_send c x e m fl s = None"
proof -
  have "slot (kc c) (k_ENDPOINT_P (kc c) e) = y" using assms(1) by (auto simp: isokendpt_def Let_def slot_def split: if_split_asm)
  then show ?thesis
    using assms(6-8) deadlock_walk_self [OF assms(1-5)] by (auto simp: mini_send_def deadlock_def kassert_def Let_def)
qed

text \<open>
  When the result of a delivered asynchronous message cannot be written back to its sender's table, the message is
  there already; \<^verbatim>\<open>try_async\<close> goes on to the next privilege structure and fails its assertion.
\<close>

lemma failed_write_back_panics:
  assumes "s_proc_nr (kprivs (ks s) ! i) \<noteq> i_NONE c" "s_proc_nr (kprivs (ks s) ! j) \<noteq> i_NONE c"
    and "src = slot (kc c) (s_proc_nr (kprivs (ks s) ! i))" "tab = s_asyntab (privof (ks s) src)"
    and "s_id (privof (ks s) src) \<noteq> USER_PRIV_ID c" "0 < s_asynsize (privof (ks s) src)" "may_send_to c s src x"
    and "utab s src tab 0 = Some e" "a_flags e \<noteq> 0" "\<not> bad_aflags c (a_flags e)" "a_flags e AND AMF_DONE c = 0"
    and "a_dst e = p_endpoint (ip s x)" "a_flags e AND AMF_NOREPLY c = 0" "\<not> put_result c src tab 0"
    and "x < length (kprocs (ks s))" "\<not> mf (ip s x) MF_DELIVERMSG"
  shows "try_privs c x (i # j # is) pp s = None"
proof -
  let ?s1 = "upd_ip x (\<lambda>p. set_mf MF_DELIVERMSG (p\<lparr>p_delivermsg := (a_msg e)\<lparr>k_source := p_endpoint (ip s src)\<rparr>\<rparr>)) s"
  have "try_one c src x pp s = (EFAULT, pp, ?s1)"
    using assms(4-14) by (simp add: try_one_def Let_def upt_conv_Cons finish_entry_def)
  moreover have "mf (ip ?s1 x) MF_DELIVERMSG"
    using assms(15) by (simp add: upd_ip_def upd_kp_def set_mf_def mf_def MF_DELIVERMSG_def
        and_exp_iff [where n = 6, simplified] bit_simps)
  ultimately show ?thesis
    using assms(1-3,16) by (simp add: kassert_def Let_def upd_ip_def)
qed

text \<open>
  A pending notification can be missed: when the lowest bit of a chunk belongs to another source than the
  one wanted, the rest of the chunk is not looked at.
\<close>

lemma scan_pending_skips_chunk:
  assumes "first_idx (\<lambda>b. b) chunk = Some i" "k * BITCHUNK_BITS c + i < NR_SYS_PROCS c"
    and "e \<noteq> ANY c" "p \<noteq> s_proc_nr (prs ! (k * BITCHUNK_BITS c + i))"
  shows "scan_pending c prs e p k [chunk] = None"
  using assms by (simp add: Let_def)

end
