(* ===== verification/KFrame.thy ===== *)
theory KFrame
  imports KDeadlock
begin

text \<open>
  What the scheduling macros leave alone, whatever the state of the run queues: a call of \<^verbatim>\<open>RTS_SET\<close> or
  \<^verbatim>\<open>RTS_UNSET\<close> that returns changes the flags of its process and the links of the queues, and nothing else but
  for the flag \<^verbatim>\<open>RTS_PREEMPTED\<close> of the current process.
\<close>

unbundle bit_operations_syntax

lemma unlink_no_links:
  assumes "unlink q rp prev s = Some s'"
  shows "no_links s' = no_links s"
proof (rule unlink.raw_induct [where P = "\<lambda>q rp prev s s'. no_links s' = no_links s", OF _ assms])
  fix unlink' q rp prev s s'
  assume IH: "\<And>q rp prev s s'. unlink' q rp prev s = Some s' \<Longrightarrow> no_links s' = no_links s"
    and *: "(case case prev of None \<Rightarrow> rdy_head s ! q | Some a \<Rightarrow> p_nextready (kp s a) of
        None \<Rightarrow> Some s
      | Some x \<Rightarrow>
          if x = rp then
            let nx = p_nextready (kp s x);
                s1 = (case prev of None \<Rightarrow> set_head q nx s | Some a \<Rightarrow> set_next a nx s) in
            Some (if rdy_tail s1 ! q = Some rp then set_tail q prev s1 else s1)
          else unlink' q rp (Some x) s) = Some s'"
  from * show "no_links s' = no_links s"
    by (auto simp: Let_def dest: IH split: option.splits if_split_asm)
qed

lemma dequeue_no_links: "dequeue rp s = Some s' \<Longrightarrow> no_links s' = no_links s"
  by (auto simp: dequeue_def kassert_def unlink_no_links split: if_split_asm)

lemma link_tail_no_links: "link_tail q rp s = Some s' \<Longrightarrow> no_links s' = no_links s"
  by (auto simp: link_tail_def split: option.splits)

lemma RTS_SET_links:
  "RTS_SET x f s = Some s' \<Longrightarrow> no_links s' = no_links (upd_kp x (\<lambda>p. p\<lparr>p_rts_flags := p_rts_flags p OR f\<rparr>) s)"
  by (auto simp: RTS_SET_def Let_def dest: dequeue_no_links split: if_split_asm)

lemma enqueue_links:
  assumes "enqueue c x s = Some s'"
  shows "no_links s' = no_links s \<or>
    no_links s' = no_links (upd_kp (proc_ptr s) (\<lambda>p. p\<lparr>p_rts_flags := p_rts_flags p OR RTS_PREEMPTED\<rparr>) s)"
proof -
  from assms obtain s1 where s1: "link_tail (p_priority (kp s x)) x s = Some s1"
      "s' = s1 \<or> RTS_SET (proc_ptr s1) RTS_PREEMPTED s1 = Some s'"
    by (auto simp: enqueue_def kassert_def Let_def split: if_split_asm option.split_asm)
  note n = link_tail_no_links [OF s1(1)]
  show ?thesis
    using s1(2)
  proof
    assume "RTS_SET (proc_ptr s1) RTS_PREEMPTED s1 = Some s'"
    from RTS_SET_links [OF this] show ?thesis
      using no_links_upd_flags [OF n, of "proc_ptr s" "\<lambda>f. f OR RTS_PREEMPTED"] no_links_eqD(3) [OF n] by simp
  qed (simp add: n)
qed

lemma RTS_UNSET_links:
  assumes "RTS_UNSET c x f s = Some s'"
  defines "t \<equiv> upd_kp x (\<lambda>p. p\<lparr>p_rts_flags := p_rts_flags p AND NOT f\<rparr>) s"
  shows "no_links s' = no_links t \<or>
    no_links s' = no_links (upd_kp (proc_ptr s) (\<lambda>p. p\<lparr>p_rts_flags := p_rts_flags p OR RTS_PREEMPTED\<rparr>) t)"
  using assms(1) enqueue_links [of c x t s'] unfolding RTS_UNSET_def Let_def t_def
  by (auto split: if_split_asm)

text \<open>The process table without flags and links.\<close>

definition core :: "kproc \<Rightarrow> kproc" where
  "core p = p\<lparr>p_rts_flags := 0, p_nextready := None\<rparr>"

definition same_core :: "kstate \<Rightarrow> kstate \<Rightarrow> bool" where
  "same_core k k' \<longleftrightarrow> kprivs k' = kprivs k \<and> proc_ptr k' = proc_ptr k \<and> List.map core (kprocs k') = List.map core (kprocs k)"

lemma same_core_refl [simp]: "same_core k k"
  by (simp add: same_core_def)

lemma same_core_trans: "same_core k k' \<Longrightarrow> same_core k' k'' \<Longrightarrow> same_core k k''"
  by (simp add: same_core_def)

lemma same_core_upd: "(\<And>p. core (f p) = core p) \<Longrightarrow> same_core k (upd_kp x f k)"
  by (cases "x < length (kprocs k)")
    (simp_all add: same_core_def upd_kp_def map_update list_update_beyond, metis list_update_id nth_map)

lemma same_core_links: "no_links k' = no_links k \<Longrightarrow> same_core k k'"
proof -
  assume n: "no_links k' = no_links k"
  have "List.map core (kprocs k) = List.map core (kprocs (no_links k))" for k
    by (simp add: no_links_def core_def)
  with n show "same_core k k'" using no_links_eqD [OF n] by (metis same_core_def)
qed

lemma core_flags [simp]: "core (p\<lparr>p_rts_flags := w\<rparr>) = core p"
  by (simp add: core_def)

lemma RTS_frames:
  "RTS_SET x f k = Some k' \<Longrightarrow> same_core k k'"
  "RTS_UNSET c x f k = Some k' \<Longrightarrow> same_core k k'"
proof -
  assume "RTS_SET x f k = Some k'"
  from same_core_links [OF RTS_SET_links [OF this]] show "same_core k k'"
    by (rule same_core_trans [rotated]) (simp add: same_core_upd)
next
  let ?t = "upd_kp x (\<lambda>p. p\<lparr>p_rts_flags := p_rts_flags p AND NOT f\<rparr>) k"
  assume "RTS_UNSET c x f k = Some k'"
  from RTS_UNSET_links [OF this] have "same_core ?t k' \<or>
      same_core (upd_kp (proc_ptr k) (\<lambda>p. p\<lparr>p_rts_flags := p_rts_flags p OR RTS_PREEMPTED\<rparr>) ?t) k'"
    using same_core_links by blast
  moreover have "same_core k ?t" "same_core ?t (upd_kp (proc_ptr k) (\<lambda>p. p\<lparr>p_rts_flags := p_rts_flags p OR RTS_PREEMPTED\<rparr>) ?t)"
    by (simp_all add: same_core_upd)
  ultimately show "same_core k k'" using same_core_trans by blast
qed

lemma same_core_fields:
  assumes "same_core k k'"
  shows "length (kprocs k') = length (kprocs k)" "kprivs k' = kprivs k" "proc_ptr k' = proc_ptr k"
    "x < length (kprocs k) \<Longrightarrow> core (kp k' x) = core (kp k x)"
proof -
  have m: "List.map core (kprocs k') = List.map core (kprocs k)" using assms by (simp add: same_core_def)
  then show l: "length (kprocs k') = length (kprocs k)" by (rule map_eq_imp_length_eq)
  show "x < length (kprocs k) \<Longrightarrow> core (kp k' x) = core (kp k x)" using m l by (metis nth_map)
qed (use assms in \<open>simp_all add: same_core_def\<close>)

lemma coreD:
  assumes "core p = core q"
  shows "p_nr p = p_nr q" "p_priv p = p_priv q" "p_endpoint p = p_endpoint q" "p_pending p = p_pending q"
    "p_misc_flags p = p_misc_flags q" "p_getfrom_e p = p_getfrom_e q" "p_delivermsg p = p_delivermsg q"
  using assms by (cases p; cases q; simp add: core_def)+

text \<open>The flags afterwards.\<close>

lemma RTS_SET_flags:
  assumes "RTS_SET x f k = Some k'" "y < length (kprocs k)"
  shows "p_rts_flags (kp k' y) = (if y = x then p_rts_flags (kp k y) OR f else p_rts_flags (kp k y))"
  using no_links_fields(1) [OF RTS_SET_links [OF assms(1)], of y] same_core_fields(1) [OF RTS_frames(1) [OF assms(1)]] assms(2)
  by auto

lemma RTS_UNSET_flags:
  assumes "RTS_UNSET c x f k = Some k'" "y < length (kprocs k)"
  defines "g \<equiv> (if y = x then p_rts_flags (kp k y) AND NOT f else p_rts_flags (kp k y))"
  shows "p_rts_flags (kp k' y) = g \<or> p_rts_flags (kp k' y) = g OR RTS_PREEMPTED"
proof -
  let ?t = "upd_kp x (\<lambda>p. p\<lparr>p_rts_flags := p_rts_flags p AND NOT f\<rparr>) k"
  have l: "y < length (kprocs k')"
    using same_core_fields(1) [OF RTS_frames(2) [OF assms(1)]] assms(2) by simp
  have t: "p_rts_flags (kp ?t y) = g" using assms(2) by (auto simp: g_def)
  from RTS_UNSET_links [OF assms(1)] show ?thesis
  proof
    assume "no_links k' = no_links ?t"
    from no_links_fields(1) [OF this l] t show ?thesis by simp
  next
    assume "no_links k' = no_links (upd_kp (proc_ptr k) (\<lambda>p. p\<lparr>p_rts_flags := p_rts_flags p OR RTS_PREEMPTED\<rparr>) ?t)"
    from no_links_fields(1) [OF this l] t show ?thesis
      using assms(2) by (cases "y = proc_ptr k") auto
  qed
qed

lemma SET_RTS_cases:
  assumes "SET_RTS x f s = Some s'"
  obtains k where "RTS_SET x f (ks s) = Some k" "s' = s\<lparr>ks := k\<rparr>"
  using assms by (auto simp: SET_RTS_def lift_k_def)

lemma UNSET_RTS_cases:
  assumes "UNSET_RTS c x f s = Some s'"
  obtains k where "RTS_UNSET (kc c) x f (ks s) = Some k" "s' = s\<lparr>ks := k\<rparr>"
  using assms by (auto simp: UNSET_RTS_def lift_k_def)

end
