(* ===== verification/KIrq.thy ===== *)
theory KIrq
  imports Chain "HOL-Library.Monad_Syntax"
begin

text \<open>
  The hardware interrupt system, \<^verbatim>\<open>src/Project_2/kernel/interrupt.c\<close>: the list of hooks of every interrupt
  line (\<^verbatim>\<open>put_irq_handler\<close>, \<^verbatim>\<open>rm_irq_handler\<close>), the delivery of an interrupt to the hooks of its line
  (\<^verbatim>\<open>irq_handle\<close>), and the enabling and disabling of single hooks.

  A hook is named by its index in a table of all \<^verbatim>\<open>irq_hook_t\<close> objects, the ids of hooks and the
  \<^verbatim>\<open>irq_actids\<close> are 32-bit words, and \<open>hw_masked\<close> holds the mask bit that \<^verbatim>\<open>hw_intr_mask\<close> and
  \<^verbatim>\<open>hw_intr_unmask\<close> set in the interrupt controller.  The handler function of a hook is called through a
  parameter that works on a state of its own.  \<^const>\<open>None\<close> is a panic, a failed assertion, or a list that does
  not end.  The counter of spurious interrupts, which only decides what is printed, is left out.
\<close>

unbundle bit_operations_syntax

subsection \<open>Hooks and lines\<close>

record irq_hook =
  h_next :: "nat option"
  h_handler :: nat
  h_irq :: int
  h_id :: "32 word"
  proc_nr_e :: int
  notify_id :: nat
  policy :: "32 word"

record intr =
  hooks :: "irq_hook list"
  irq_handlers :: "nat option list"
  irq_actids :: "32 word list"
  hw_masked :: "bool list"

definition upd_hook :: "nat \<Rightarrow> (irq_hook \<Rightarrow> irq_hook) \<Rightarrow> intr \<Rightarrow> intr" where
  "upd_hook x f s = s\<lparr>hooks := (hooks s)[x := f (hooks s ! x)]\<rparr>"

definition set_act :: "nat \<Rightarrow> 32 word \<Rightarrow> intr \<Rightarrow> intr" where
  "set_act q w s = s\<lparr>irq_actids := (irq_actids s)[q := w]\<rparr>"

definition hw_mask :: "bool \<Rightarrow> nat \<Rightarrow> intr \<Rightarrow> intr" where
  "hw_mask b q s = s\<lparr>hw_masked := (hw_masked s)[q := b]\<rparr>"

text \<open>\<^verbatim>\<open>line\<close> is the address of the list head (\<open>None\<close>) or of the \<^verbatim>\<open>next\<close> field of a hook.\<close>

definition get_line :: "nat \<Rightarrow> nat option \<Rightarrow> intr \<Rightarrow> nat option" where
  "get_line q line s = (case line of None \<Rightarrow> irq_handlers s ! q | Some x \<Rightarrow> h_next (hooks s ! x))"

definition set_line :: "nat \<Rightarrow> nat option \<Rightarrow> nat option \<Rightarrow> intr \<Rightarrow> intr" where
  "set_line q line v s =
     (case line of
        None \<Rightarrow> s\<lparr>irq_handlers := (irq_handlers s)[q := v]\<rparr>
      | Some x \<Rightarrow> upd_hook x (\<lambda>h. h\<lparr>h_next := v\<rparr>) s)"

definition valid_irq :: "intr \<Rightarrow> int \<Rightarrow> bool" where
  "valid_irq s irq \<longleftrightarrow> 0 \<le> irq \<and> irq < int (length (irq_handlers s))"

subsection \<open>\<^verbatim>\<open>put_irq_handler\<close>\<close>

text \<open>
  The walk to the end of the list: \<open>Some None\<close> when the hook is found on it, otherwise the end of the list and
  the ids in use.
\<close>

partial_function (option) find_end ::
  "nat \<Rightarrow> nat \<Rightarrow> nat option \<Rightarrow> 32 word \<Rightarrow> intr \<Rightarrow> (nat option \<times> 32 word) option option" where
  "find_end q hook line bitmap s =
     (case get_line q line s of
        None \<Rightarrow> Some (Some (line, bitmap))
      | Some x \<Rightarrow>
          if hook = x then Some None
          else find_end q hook (Some x) (bitmap OR h_id (hooks s ! x)) s)"

text \<open>\<^verbatim>\<open>for (id = 1; id != 0; id <<= 1)\<close>: the values of \<^verbatim>\<open>id\<close> are the 32 powers of two, then 0.\<close>

definition low_id :: "32 word \<Rightarrow> 32 word" where
  "low_id bitmap =
     (case find (\<lambda>w. bitmap AND w = 0) (map (\<lambda>n. push_bit n 1) [0 ..< 32]) of
        None \<Rightarrow> 0
      | Some w \<Rightarrow> w)"

definition put_irq_handler :: "nat \<Rightarrow> int \<Rightarrow> nat \<Rightarrow> intr \<Rightarrow> intr option" where
  "put_irq_handler hook irq handler s =
     (if \<not> valid_irq s irq then None
      else
        let q = nat irq in
        (case find_end q hook None 0 s of
           None \<Rightarrow> None
         | Some None \<Rightarrow> Some s
         | Some (Some (line, bitmap)) \<Rightarrow>
             if low_id bitmap = 0 then None
             else
               let s1 = set_line q line (Some hook)
                          (upd_hook hook (\<lambda>h. h\<lparr>h_next := None, h_handler := handler, h_irq := irq,
                                                 h_id := low_id bitmap\<rparr>) s);
                   s2 = set_act q (irq_actids s1 ! q AND NOT (low_id bitmap)) s1 in
               Some (if irq_actids s2 ! q = 0 then hw_mask False q s2 else s2)))"

subsection \<open>\<^verbatim>\<open>rm_irq_handler\<close>\<close>

partial_function (option) remove_id :: "nat \<Rightarrow> 32 word \<Rightarrow> nat option \<Rightarrow> intr \<Rightarrow> intr option" where
  "remove_id q w line s =
     (case get_line q line s of
        None \<Rightarrow> Some s
      | Some x \<Rightarrow>
          if h_id (hooks s ! x) = w then
            let s1 = set_line q line (h_next (hooks s ! x)) s in
            remove_id q w line
              (if irq_actids s1 ! q AND w \<noteq> 0 then set_act q (irq_actids s1 ! q AND NOT w) s1 else s1)
          else remove_id q w (Some x) s)"

definition rm_irq_handler :: "nat \<Rightarrow> intr \<Rightarrow> intr option" where
  "rm_irq_handler hook s =
     (let irq = h_irq (hooks s ! hook); w = h_id (hooks s ! hook); q = nat irq in
      if \<not> valid_irq s irq then None
      else map_option
        (\<lambda>s1. if irq_handlers s1 ! q = None then hw_mask True q s1
              else if irq_actids s1 ! q = 0 then hw_mask False q s1
              else s1)
        (remove_id q w None s))"

subsection \<open>\<^verbatim>\<open>irq_handle\<close>, \<^verbatim>\<open>enable_irq\<close> and \<^verbatim>\<open>disable_irq\<close>\<close>

text \<open>
  \<open>call\<close> is the call of the handler function of a hook on the rest of the system; it tells whether the
  function returned a value other than 0.
\<close>

partial_function (option) run_hooks ::
  "(irq_hook \<Rightarrow> 'e \<Rightarrow> (bool \<times> 'e) option) \<Rightarrow> nat \<Rightarrow> nat option \<Rightarrow> intr \<Rightarrow> 'e \<Rightarrow> (intr \<times> 'e) option" where
  "run_hooks call q hook s e =
     (case hook of
        None \<Rightarrow> Some (s, e)
      | Some x \<Rightarrow>
          let s1 = set_act q (irq_actids s ! q OR h_id (hooks s ! x)) s in
          case call (hooks s1 ! x) e of
            None \<Rightarrow> None
          | Some (r, e1) \<Rightarrow>
              let p = nat (h_irq (hooks s1 ! x));
                  s2 = (if r then set_act p (irq_actids s1 ! p AND NOT (h_id (hooks s1 ! x))) s1 else s1) in
              run_hooks call q (h_next (hooks s2 ! x)) s2 e1)"

definition irq_handle ::
  "(irq_hook \<Rightarrow> 'e \<Rightarrow> (bool \<times> 'e) option) \<Rightarrow> int \<Rightarrow> intr \<Rightarrow> 'e \<Rightarrow> (intr \<times> 'e) option" where
  "irq_handle call irq s e =
     (if \<not> valid_irq s irq then None
      else
        let q = nat irq; s1 = hw_mask True q s in
        if irq_handlers s1 ! q = None then Some (s1, e)
        else map_option
          (\<lambda>(s2, e2). (if irq_actids s2 ! q = 0 then hw_mask False q s2 else s2, e2))
          (run_hooks call q (irq_handlers s1 ! q) s1 e))"

definition enable_irq :: "nat \<Rightarrow> intr \<Rightarrow> intr" where
  "enable_irq hook s =
     (let q = nat (h_irq (hooks s ! hook));
          s1 = set_act q (irq_actids s ! q AND NOT (h_id (hooks s ! hook))) s in
      if irq_actids s1 ! q = 0 then hw_mask False q s1 else s1)"

definition disable_irq :: "nat \<Rightarrow> intr \<Rightarrow> bool \<times> intr" where
  "disable_irq hook s =
     (let q = nat (h_irq (hooks s ! hook)); w = h_id (hooks s ! hook) in
      if irq_actids s ! q AND w \<noteq> 0 then (False, s)
      else (True, hw_mask True q (set_act q (irq_actids s ! q OR w) s)))"

subsection \<open>Lists of hooks\<close>

abbreviation hk :: "intr \<Rightarrow> nat \<Rightarrow> irq_hook" where
  "hk s x \<equiv> hooks s ! x"

definition nx :: "intr \<Rightarrow> nat \<Rightarrow> nat option" where
  "nx s x = h_next (hk s x)"

lemma nx_handlers [simp]: "nx (s\<lparr>irq_handlers := v\<rparr>) = nx s"
  by (simp add: nx_def fun_eq_iff)

lemma get_line_simps [simp]:
  "get_line q None s = irq_handlers s ! q" "get_line q (Some x) s = nx s x"
  by (simp_all add: get_line_def nx_def)

lemma upd_hook_simps [simp]:
  "length (hooks (upd_hook x f s)) = length (hooks s)" "irq_handlers (upd_hook x f s) = irq_handlers s"
  "irq_actids (upd_hook x f s) = irq_actids s" "hw_masked (upd_hook x f s) = hw_masked s"
  "x < length (hooks s) \<Longrightarrow> hk (upd_hook x f s) x = f (hk s x)"
  "y \<noteq> x \<Longrightarrow> hk (upd_hook x f s) y = hk s y"
  by (simp_all add: upd_hook_def)

lemma set_act_simps [simp]:
  "hooks (set_act q w s) = hooks s" "irq_handlers (set_act q w s) = irq_handlers s"
  "irq_actids (set_act q w s) = (irq_actids s)[q := w]" "hw_masked (set_act q w s) = hw_masked s"
  by (simp_all add: set_act_def)

lemma hw_mask_simps [simp]:
  "hooks (hw_mask b q s) = hooks s" "irq_handlers (hw_mask b q s) = irq_handlers s"
  "irq_actids (hw_mask b q s) = irq_actids s" "hw_masked (hw_mask b q s) = (hw_masked s)[q := b]"
  by (simp_all add: hw_mask_def)

lemma set_line_simps [simp]:
  "length (hooks (set_line q l v s)) = length (hooks s)" "irq_actids (set_line q l v s) = irq_actids s"
  "hw_masked (set_line q l v s) = hw_masked s" "length (irq_handlers (set_line q l v s)) = length (irq_handlers s)"
  "q' \<noteq> q \<Longrightarrow> irq_handlers (set_line q l v s) ! q' = irq_handlers s ! q'"
  by (auto simp: set_line_def split: option.splits)

lemma set_line_other [simp]: "l \<noteq> Some x \<Longrightarrow> hk (set_line q l v s) x = hk s x"
  by (cases l) (auto simp: set_line_def upd_hook_def)

lemma set_line_fields [simp]:
  "h_irq (hk (set_line q l v s) x) = h_irq (hk s x)" "h_id (hk (set_line q l v s) x) = h_id (hk s x)"
  by (cases "x < length (hooks s)"; cases "l = Some x"; auto simp: set_line_def upd_hook_def nth_list_update list_update_beyond split: option.splits)+

text \<open>The end of a walk that starts at \<open>line\<close>.\<close>

definition end_of :: "nat option \<Rightarrow> nat list \<Rightarrow> nat option" where
  "end_of line xs = (if xs = [] then line else Some (last xs))"

lemma end_of_simps [simp]: "end_of line [] = line" "end_of line (x # xs) = end_of (Some x) xs"
  by (simp_all add: end_of_def)

definition ids :: "intr \<Rightarrow> nat list \<Rightarrow> 32 word" where
  "ids s xs = foldr (\<lambda>x w. h_id (hk s x) OR w) xs 0"

lemma bit_ids: "bit (ids s xs) n \<longleftrightarrow> (\<exists>x \<in> set xs. bit (h_id (hk s x)) n)"
  by (induction xs) (auto simp: ids_def bit_or_iff)

lemma find_end_chain:
  "chain (nx s) (get_line q line s) xs \<Longrightarrow>
     find_end q hook line bm s =
       Some (if hook \<in> set xs then None else Some (end_of line xs, bm OR ids s xs))"
proof (induction xs arbitrary: line bm)
  case Nil
  then show ?case by (simp add: find_end.simps ids_def)
next
  case (Cons x xs)
  then have g: "get_line q line s = Some x" and IH: "find_end q hook (Some x) (bm OR h_id (hk s x)) s =
      Some (if hook \<in> set xs then None else Some (end_of (Some x) xs, (bm OR h_id (hk s x)) OR ids s xs))"
    by simp_all
  have "ids s (x # xs) = h_id (hk s x) OR ids s xs" by (simp add: ids_def)
  with g IH show ?case by (subst find_end.simps) (auto simp: or.assoc)
qed

subsection \<open>Ids\<close>

definition is_id :: "32 word \<Rightarrow> bool" where
  "is_id w \<longleftrightarrow> (\<exists>n < 32. w = push_bit n 1)"

lemma is_id_bits: "is_id w \<longleftrightarrow> (\<exists>n < 32. \<forall>m. bit w m \<longleftrightarrow> m = n)"
proof
  show "\<exists>n < 32. \<forall>m. bit w m \<longleftrightarrow> m = n" if "is_id w"
    using that by (auto simp: is_id_def bit_exp_iff)
  show "is_id w" if *: "\<exists>n < 32. \<forall>m. bit w m \<longleftrightarrow> m = n"
  proof -
    from * obtain n where n: "n < 32" "\<And>m. bit w m \<longleftrightarrow> m = n" by blast
    then have "w = push_bit n 1" by (intro bit_word_eqI) (auto simp: bit_exp_iff)
    with n(1) show ?thesis by (auto simp: is_id_def)
  qed
qed

lemma and_nonzero: "(v :: 32 word) AND w \<noteq> 0 \<longleftrightarrow> (\<exists>n. bit v n \<and> bit w n)"
proof -
  have "n < 32" if "bit u n" for u :: "32 word" and n using bit_imp_le_length [OF that] by simp
  then show ?thesis using bit_eq_iff [of "v AND w" 0] by (auto simp: bit_and_iff)
qed

lemma low_id_spec:
  assumes "n < 32" "\<not> bit bm n"
  shows "is_id (low_id bm) \<and> bm AND low_id bm = 0"
proof -
  have "\<not> (bm AND push_bit n 1 \<noteq> 0)"
    using assms unfolding and_nonzero by (simp add: bit_exp_iff)
  then have "find (\<lambda>w. bm AND w = 0) (map (\<lambda>n. push_bit n 1) [0 ..< 32]) \<noteq> None"
    using assms(1) by (fastforce simp: find_None_iff)
  then obtain w where w: "find (\<lambda>w. bm AND w = 0) (map (\<lambda>n. push_bit n 1) [0 ..< 32]) = Some w" by auto
  then have "(\<exists>m < 32. w = push_bit m 1) \<and> bm AND w = 0" by (fastforce simp: find_Some_iff)
  with w show ?thesis by (simp add: low_id_def is_id_def)
qed

lemma bits_clear:
  assumes "is_id v" "is_id w"
  shows "(b AND NOT v) AND w \<noteq> 0 \<longleftrightarrow> b AND w \<noteq> 0 \<and> w \<noteq> v" "(b OR v) AND w \<noteq> 0 \<longleftrightarrow> b AND w \<noteq> 0 \<or> w = v"
proof -
  obtain m n where mn: "m < 32" "\<And>k. bit v k \<longleftrightarrow> k = m" "n < 32" "\<And>k. bit w k \<longleftrightarrow> k = n"
    using assms unfolding is_id_bits by blast
  have eq: "w = v \<longleftrightarrow> n = m"
    using mn bit_word_eqI [of w v] by metis
  have n32: "bit (NOT v) n \<longleftrightarrow> n \<noteq> m" using mn by (simp add: bit_not_iff)
  show "(b AND NOT v) AND w \<noteq> 0 \<longleftrightarrow> b AND w \<noteq> 0 \<and> w \<noteq> v"
    unfolding and_nonzero eq using n32 by (auto simp: bit_and_iff mn)
  show "(b OR v) AND w \<noteq> 0 \<longleftrightarrow> b AND w \<noteq> 0 \<or> w = v"
    unfolding and_nonzero eq by (auto simp: bit_or_iff mn)
qed

lemma id_nonzero: "is_id w \<Longrightarrow> w \<noteq> 0"
  unfolding is_id_bits by auto

lemma id_shared: "is_id v \<Longrightarrow> is_id w \<Longrightarrow> v AND w \<noteq> 0 \<Longrightarrow> v = w"
  unfolding is_id_bits and_nonzero by (metis bit_word_eqI)

subsection \<open>Well-formed lines\<close>

definition line_ok :: "intr \<Rightarrow> nat \<Rightarrow> nat list \<Rightarrow> bool" where
  "line_ok s q xs \<longleftrightarrow>
     chain (nx s) (irq_handlers s ! q) xs \<and>
     (\<forall>x \<in> set xs. x < length (hooks s) \<and> h_irq (hk s x) = int q \<and> is_id (h_id (hk s x))) \<and>
     inj_on (\<lambda>x. h_id (hk s x)) (set xs) \<and>
     (\<forall>n. bit (irq_actids s ! q) n \<longrightarrow> bit (ids s xs) n)"

lemma line_okD:
  assumes "line_ok s q xs"
  shows "chain (nx s) (irq_handlers s ! q) xs"
    "x \<in> set xs \<Longrightarrow> x < length (hooks s)" "x \<in> set xs \<Longrightarrow> h_irq (hk s x) = int q"
    "x \<in> set xs \<Longrightarrow> is_id (h_id (hk s x))"
    "x \<in> set xs \<Longrightarrow> y \<in> set xs \<Longrightarrow> h_id (hk s x) = h_id (hk s y) \<Longrightarrow> x = y"
    "bit (irq_actids s ! q) n \<Longrightarrow> \<exists>x \<in> set xs. bit (h_id (hk s x)) n"
  using assms by (auto simp: line_ok_def bit_ids dest: inj_onD)

lemma line_ok_cong:
  assumes "line_ok s q xs" "\<And>x. x \<in> set xs \<Longrightarrow> hk s' x = hk s x" "irq_handlers s' ! q = irq_handlers s ! q"
    "irq_actids s' ! q = irq_actids s ! q" "length (hooks s') = length (hooks s)"
  shows "line_ok s' q xs"
proof -
  have "chain (nx s') (irq_handlers s ! q) xs"
    using line_okD(1) [OF assms(1)] assms(2) chain_cong [of xs "nx s" "nx s'"] by (simp add: nx_def)
  moreover have "inj_on (\<lambda>x. h_id (hk s' x)) (set xs)"
    using assms(1,2) by (simp add: line_ok_def cong: inj_on_cong)
  ultimately show ?thesis
    using assms by (simp add: line_ok_def bit_ids)
qed

lemma line_distinct: "line_ok s q xs \<Longrightarrow> distinct xs"
  using chain_distinct line_okD(1) by blast

text \<open>A hook is busy when its id is among the active ids of its line.\<close>

definition busy :: "intr \<Rightarrow> nat \<Rightarrow> bool" where
  "busy s x \<longleftrightarrow> irq_actids s ! nat (h_irq (hk s x)) AND h_id (hk s x) \<noteq> 0"

lemma act_zero:
  assumes "line_ok s q xs"
  shows "irq_actids s ! q = 0 \<longleftrightarrow> (\<forall>x \<in> set xs. \<not> busy s x)"
proof
  show "\<forall>x \<in> set xs. \<not> busy s x" if "irq_actids s ! q = 0"
    using that line_okD(3) [OF assms] by (simp add: busy_def)
  show "irq_actids s ! q = 0" if *: "\<forall>x \<in> set xs. \<not> busy s x"
  proof (rule ccontr)
    assume "irq_actids s ! q \<noteq> 0"
    then obtain n where n: "bit (irq_actids s ! q) n" by (auto simp: bit_eq_iff)
    then obtain x where x: "x \<in> set xs" "bit (h_id (hk s x)) n" using line_okD(6) [OF assms] by blast
    with n have "busy s x"
      unfolding busy_def and_nonzero using line_okD(3) [OF assms x(1)] by (simp, blast)
    with * x show False by blast
  qed
qed

subsection \<open>The operations on well-formed lines\<close>

text \<open>Adding a hook at the end of a line.\<close>

lemma put_line_ok:
  fixes fn :: nat
  assumes L: "line_ok s q xs" and h: "hook \<notin> set xs" "hook < length (hooks s)" and w: "is_id w" "ids s xs AND w = 0"
    and q: "q < length (irq_handlers s)"
  defines "t \<equiv> set_line q (end_of None xs) (Some hook)
      (upd_hook hook (\<lambda>r. r\<lparr>h_next := None, h_handler := fn, h_irq := int q, h_id := w\<rparr>) s)"
  shows "line_ok t q (xs @ [hook]) \<and> (\<forall>x. x \<noteq> hook \<longrightarrow> h_id (hk t x) = h_id (hk s x) \<and> h_irq (hk t x) = h_irq (hk s x)) \<and>
    h_id (hk t hook) = w \<and> h_irq (hk t hook) = int q"
proof -
  let ?u = "upd_hook hook (\<lambda>r. r\<lparr>h_next := None, h_handler := fn, h_irq := int q, h_id := w\<rparr>) s"
  have fld: "h_id (hk t x) = h_id (hk ?u x)" "h_irq (hk t x) = h_irq (hk ?u x)" for x
    by (simp_all add: t_def)
  have same: "h_id (hk t x) = h_id (hk s x) \<and> h_irq (hk t x) = h_irq (hk s x)" if "x \<noteq> hook" for x
    using that by (simp add: fld)
  have new: "h_id (hk t hook) = w" "h_irq (hk t hook) = int q" using h(2) by (simp_all add: fld)
  have C: "chain (nx s) (irq_handlers s ! q) xs" by (rule line_okD(1) [OF L])
  have chain: "chain (nx t) (irq_handlers t ! q) (xs @ [hook])"
  proof (cases xs rule: rev_exhaust)
    case Nil
    then show ?thesis using h(2) q C by (simp add: t_def set_line_def nx_def)
  next
    case (snoc ys l)
    have l: "l < length (hooks s)" "l \<noteq> hook" using line_okD(2) [OF L, of l] h(1) snoc by auto
    have "chain ((nx s)(l := Some hook, hook := None)) (irq_handlers s ! q) (ys @ [l, hook])"
      using chain_append_last [of "nx s" _ ys l hook] C h(1) snoc by simp
    moreover have "nx t = (nx s)(l := Some hook, hook := None)"
      using l h(2) snoc by (auto simp: t_def set_line_def nx_def end_of_def upd_hook_def nth_list_update fun_eq_iff)
    ultimately show ?thesis using snoc by (simp add: t_def set_line_def end_of_def)
  qed
  have other: "h_id (hk s x) \<noteq> w" if x: "x \<in> set xs" for x
  proof
    assume "h_id (hk s x) = w"
    moreover obtain n where "bit w n" using w(1) by (auto simp: is_id_bits)
    ultimately have "bit (ids s xs) n" using x by (auto simp: bit_ids)
    with \<open>bit w n\<close> w(2) show False using and_nonzero by blast
  qed
  have ids_old: "h_id (hk t x) = h_id (hk s x)" if "x \<in> set xs" for x using same h(1) that by metis
  have "inj_on (\<lambda>x. h_id (hk t x)) (set xs)"
    using L ids_old by (simp add: line_ok_def cong: inj_on_cong)
  then have inj: "inj_on (\<lambda>x. h_id (hk t x)) (set (xs @ [hook]))"
    using other ids_old h(1) by (auto simp: new(1))
  have act: "bit (ids t (xs @ [hook])) n" if b: "bit (irq_actids t ! q) n" for n
  proof -
    have "bit (irq_actids s ! q) n" using b by (simp add: t_def)
    then obtain x where "x \<in> set xs" "bit (h_id (hk s x)) n" using line_okD(6) [OF L] by blast
    then show ?thesis using ids_old by (auto simp: bit_ids)
  qed
  have mem: "x < length (hooks t) \<and> h_irq (hk t x) = int q \<and> is_id (h_id (hk t x))" if x: "x \<in> set (xs @ [hook])" for x
  proof (cases "x = hook")
    case True
    then show ?thesis using new h(2) w(1) by (simp add: t_def)
  next
    case False
    then show ?thesis using x same [of x] line_okD(2-4) [OF L, of x] by (simp add: t_def)
  qed
  have "line_ok t q (xs @ [hook])"
    unfolding line_ok_def using chain inj act mem by blast
  with same new show ?thesis by blast
qed

text \<open>Taking a hook out of its line.\<close>

lemma remove_walk:
  "chain (nx s) (get_line q line s) (us @ vs) \<Longrightarrow> (\<And>x. x \<in> set us \<Longrightarrow> h_id (hk s x) \<noteq> w) \<Longrightarrow>
     remove_id q w line s = remove_id q w (end_of line us) s \<and> get_line q (end_of line us) s = (case vs of [] \<Rightarrow> None | v # _ \<Rightarrow> Some v)"
proof (induction us arbitrary: line)
  case Nil
  then show ?case by (cases vs) auto
next
  case (Cons u us)
  from Cons.prems have "remove_id q w line s = remove_id q w (Some u) s"
    by (subst remove_id.simps) simp
  moreover have "chain (nx s) (get_line q (Some u) s) (us @ vs)" using Cons.prems(1) by simp
  ultimately show ?case using Cons.IH [of "Some u"] Cons.prems(2) by simp
qed

lemma and_not_id: "act AND w = 0 \<Longrightarrow> act AND NOT w = (act :: 32 word)"
  using and_nonzero [of act w] by (intro bit_word_eqI) (auto simp: bit_and_iff bit_not_iff)

lemma chain_unlink:
  assumes C: "chain (nx s) (irq_handlers s ! q) (us @ hook # vs)" and q: "q < length (irq_handlers s)"
    and us: "\<And>x. x \<in> set us \<Longrightarrow> x < length (hooks s)"
  defines "t \<equiv> set_line q (end_of None us) (nx s hook) s"
  shows "chain (nx t) (irq_handlers t ! q) (us @ vs) \<and> get_line q (end_of None us) t = nx s hook \<and>
    (\<forall>x \<in> set vs. nx t x = nx s x)"
proof (cases us rule: rev_exhaust)
  case Nil
  then show ?thesis using C q by (simp add: t_def set_line_def)
next
  case (snoc ys a)
  have a: "a < length (hooks s)" using us snoc by simp
  have nt: "nx t = (nx s)(a := nx s hook)"
    using a snoc by (auto simp: t_def set_line_def nx_def end_of_def upd_hook_def nth_list_update fun_eq_iff)
  have "distinct (us @ hook # vs)" by (rule chain_distinct [OF C])
  with snoc have "a \<notin> set vs" by simp
  moreover have "chain (nx t) (irq_handlers s ! q) (us @ vs)"
    using chain_remove_mid [of "nx s" _ ys a hook vs] C snoc nt by simp
  ultimately show ?thesis using snoc a nt by (simp add: t_def set_line_def end_of_def)
qed

lemma remove_id_ok:
  assumes L: "line_ok s q (us @ hook # vs)" and q: "q < length (irq_handlers s)" "q < length (irq_actids s)"
  defines "t \<equiv> set_line q (end_of None us) (nx s hook) s" and "w \<equiv> h_id (hk s hook)"
  shows "\<exists>t'. remove_id q w None s = Some t' \<and> (t' = t \<or> t' = set_act q (irq_actids s ! q AND NOT w) t) \<and>
    irq_actids t' ! q = irq_actids s ! q AND NOT w"
proof -
  have D: "distinct (us @ hook # vs)" by (rule line_distinct [OF L])
  have C: "chain (nx s) (irq_handlers s ! q) (us @ hook # vs)" by (rule line_okD(1) [OF L])
  have other: "h_id (hk s x) \<noteq> w" if "x \<in> set us \<union> set vs" for x
    using that D line_okD(5) [OF L, of x hook] by (auto simp: w_def)
  have us: "x < length (hooks s)" if "x \<in> set us" for x using line_okD(2) [OF L] that by simp
  define t' where "t' = (if irq_actids t ! q AND w \<noteq> 0 then set_act q (irq_actids t ! q AND NOT w) t else t)"
  have W: "remove_id q w None s = remove_id q w (end_of None us) s" "get_line q (end_of None us) s = Some hook"
    using remove_walk [of s q None us "hook # vs" w] C other by auto
  have "remove_id q w None s = remove_id q w (end_of None us) t'"
    unfolding W(1) using W(2) by (subst remove_id.simps) (simp add: w_def t_def t'_def nx_def)
  also have "\<dots> = Some t'"
  proof -
    note U = chain_unlink [OF C q(1) us, folded t_def, simplified]
    have "hooks t' = hooks t" "irq_handlers t' = irq_handlers t" by (simp_all add: t'_def)
    then have T: "nx t' = nx t" "get_line q l t' = get_line q l t" "h_id (hk t' x) = h_id (hk t x)" for l x
      by (simp_all add: nx_def fun_eq_iff get_line_def split: option.split)
    have I: "h_id (hk t x) = h_id (hk s x)" for x by (simp add: t_def)
    have "chain (nx t') (get_line q (end_of None us) t') vs"
      using U C chain_suffix [OF C] chain_cong [of vs "nx t" "nx s"] by (simp add: T)
    then have "remove_id q w (end_of None us) t' = remove_id q w (end_of (end_of None us) vs) t' \<and>
        get_line q (end_of (end_of None us) vs) t' = None"
      using remove_walk [of t' q "end_of None us" vs "[]" w] other by (simp add: T I)
    then show ?thesis by (simp add: remove_id.simps)
  qed
  finally have "remove_id q w None s = Some t'" .
  moreover have "irq_actids t' ! q = irq_actids s ! q AND NOT w"
    using q(2) by (auto simp: t'_def t_def and_not_id)
  moreover have "t' = t \<or> t' = set_act q (irq_actids s ! q AND NOT w) t" by (simp add: t'_def t_def)
  ultimately show ?thesis by blast
qed

subsection \<open>What a client sees: lines of hooks, and the busy hooks\<close>

text \<open>
  The abstract state is the sequence of hooks on every line and the set of hooks that are busy.  The mask bit
  of a line is no state of its own: a line is masked when it has no hook, or a busy one.
\<close>

record lines_abs =
  lines :: "nat list list"
  active :: "nat set"

definition irq_rel :: "intr \<Rightarrow> lines_abs \<Rightarrow> bool" where
  "irq_rel s A \<longleftrightarrow>
     length (lines A) = length (irq_handlers s) \<and> length (irq_actids s) = length (irq_handlers s) \<and>
     length (hw_masked s) = length (irq_handlers s) \<and> active A \<subseteq> (\<Union>xs \<in> set (lines A). set xs) \<and>
     (\<forall>q < length (lines A). line_ok s q (lines A ! q) \<and> (\<forall>x \<in> set (lines A ! q). busy s x \<longleftrightarrow> x \<in> active A) \<and>
        (hw_masked s ! q \<longleftrightarrow> lines A ! q = [] \<or> set (lines A ! q) \<inter> active A \<noteq> {}))"

definition a_put :: "nat \<Rightarrow> nat \<Rightarrow> lines_abs \<Rightarrow> lines_abs" where
  "a_put hook q A =
     (if hook \<in> set (lines A ! q) then A else A\<lparr>lines := (lines A)[q := lines A ! q @ [hook]]\<rparr>)"

definition a_rm :: "nat \<Rightarrow> lines_abs \<Rightarrow> lines_abs" where
  "a_rm hook A = \<lparr>lines = List.map (remove1 hook) (lines A), active = active A - {hook}\<rparr>"

fun a_run ::
  "(irq_hook \<Rightarrow> 'e \<Rightarrow> (bool \<times> 'e) option) \<Rightarrow> (nat \<Rightarrow> irq_hook) \<Rightarrow> nat list \<Rightarrow> nat set \<Rightarrow> 'e \<Rightarrow> (nat set \<times> 'e) option" where
  "a_run call hks [] B e = Some (B, e)"
| "a_run call hks (x # xs) B e =
     (case call (hks x) e of
        None \<Rightarrow> None
      | Some (r, e1) \<Rightarrow> a_run call hks xs (if r then B - {x} else insert x B) e1)"

datatype irq_op = Put nat nat nat | Rm nat | Enable nat | Disable nat | Handle nat

definition op_ok :: "nat \<Rightarrow> lines_abs \<Rightarrow> irq_op \<Rightarrow> bool" where
  "op_ok n A op =
     (case op of
        Put hook q fn \<Rightarrow> hook < n \<and> q < length (lines A) \<and> length (lines A ! q) < 32 \<and>
          list_all (\<lambda>p. p = q \<or> hook \<notin> set (lines A ! p)) [0 ..< length (lines A)]
      | Handle q \<Rightarrow> q < length (lines A)
      | Rm hook \<Rightarrow> list_ex (\<lambda>xs. hook \<in> set xs) (lines A)
      | Enable hook \<Rightarrow> list_ex (\<lambda>xs. hook \<in> set xs) (lines A)
      | Disable hook \<Rightarrow> list_ex (\<lambda>xs. hook \<in> set xs) (lines A))"

definition a_step ::
  "(irq_hook \<Rightarrow> 'e \<Rightarrow> (bool \<times> 'e) option) \<Rightarrow> (nat \<Rightarrow> irq_hook) \<Rightarrow> irq_op \<Rightarrow> lines_abs \<Rightarrow> 'e \<Rightarrow> (lines_abs \<times> 'e) option" where
  "a_step call hks op A e =
     (case op of
        Put hook q fn \<Rightarrow> Some (a_put hook q A, e)
      | Rm hook \<Rightarrow> Some (a_rm hook A, e)
      | Enable hook \<Rightarrow> Some (A\<lparr>active := active A - {hook}\<rparr>, e)
      | Disable hook \<Rightarrow> Some (A\<lparr>active := insert hook (active A)\<rparr>, e)
      | Handle q \<Rightarrow> map_option (\<lambda>(B, e'). (A\<lparr>active := B\<rparr>, e')) (a_run call hks (lines A ! q) (active A) e))"

definition irq_step ::
  "(irq_hook \<Rightarrow> 'e \<Rightarrow> (bool \<times> 'e) option) \<Rightarrow> irq_op \<Rightarrow> intr \<Rightarrow> 'e \<Rightarrow> (intr \<times> 'e) option" where
  "irq_step call op s e =
     (case op of
        Put hook q fn \<Rightarrow> map_option (\<lambda>s'. (s', e)) (put_irq_handler hook (int q) fn s)
      | Rm hook \<Rightarrow> map_option (\<lambda>s'. (s', e)) (rm_irq_handler hook s)
      | Enable hook \<Rightarrow> Some (enable_irq hook s, e)
      | Disable hook \<Rightarrow> Some (snd (disable_irq hook s), e)
      | Handle q \<Rightarrow> irq_handle call (int q) s e)"

lemma irq_relD:
  assumes "irq_rel s A"
  shows "length (lines A) = length (irq_handlers s)" "length (irq_actids s) = length (irq_handlers s)"
    "length (hw_masked s) = length (irq_handlers s)" "active A \<subseteq> (\<Union>xs \<in> set (lines A). set xs)"
    "q < length (lines A) \<Longrightarrow> line_ok s q (lines A ! q)"
    "q < length (lines A) \<Longrightarrow> x \<in> set (lines A ! q) \<Longrightarrow> busy s x \<longleftrightarrow> x \<in> active A"
    "q < length (lines A) \<Longrightarrow> hw_masked s ! q \<longleftrightarrow> lines A ! q = [] \<or> set (lines A ! q) \<inter> active A \<noteq> {}"
  using assms by (simp_all add: irq_rel_def)

lemma lines_disjoint:
  assumes "irq_rel s A" "p < length (lines A)" "q < length (lines A)" "x \<in> set (lines A ! p)" "x \<in> set (lines A ! q)"
  shows "p = q"
  using line_okD(3) [OF irq_relD(5) [OF assms(1,2)] assms(4)] line_okD(3) [OF irq_relD(5) [OF assms(1,3)] assms(5)]
  by simp

lemma act_zero_rel:
  assumes "irq_rel s A" "q < length (lines A)"
  shows "irq_actids s ! q = 0 \<longleftrightarrow> set (lines A ! q) \<inter> active A = {}"
  using act_zero [OF irq_relD(5) [OF assms]] irq_relD(6) [OF assms] by blast

text \<open>A hook that is found on a line: the line and its position.\<close>

lemma on_line:
  assumes R: "irq_rel s A" and h: "list_ex (\<lambda>xs. hook \<in> set xs) (lines A)"
  obtains q us vs where "q < length (lines A)" "lines A ! q = us @ hook # vs" "h_irq (hk s hook) = int q"
    "hook < length (hooks s)" "is_id (h_id (hk s hook))" "valid_irq s (int q)"
proof -
  from h obtain q where q: "q < length (lines A)" "hook \<in> set (lines A ! q)"
    by (metis list_ex_iff in_set_conv_nth)
  then obtain us vs where "lines A ! q = us @ hook # vs" by (meson split_list)
  moreover note line_okD(2-4) [OF irq_relD(5) [OF R q(1)] q(2)] irq_relD(1) [OF R]
  ultimately show thesis using that q by (simp add: valid_irq_def)
qed

text \<open>An operation on line \<open>q\<close> leaves the other lines alone.\<close>

lemma rel_line:
  assumes R: "irq_rel s A" and q: "q < length (lines A)"
    and A': "lines A' = (lines A)[q := xs]" "active A' \<subseteq> (\<Union>xs \<in> set (lines A'). set xs)"
    and len: "length (hooks s') = length (hooks s)" "length (irq_handlers s') = length (irq_handlers s)"
      "length (irq_actids s') = length (irq_actids s)" "length (hw_masked s') = length (hw_masked s)"
    and other: "\<And>p. p < length (lines A) \<Longrightarrow> p \<noteq> q \<Longrightarrow> irq_handlers s' ! p = irq_handlers s ! p \<and>
        irq_actids s' ! p = irq_actids s ! p \<and> hw_masked s' ! p = hw_masked s ! p"
      "\<And>p x. p < length (lines A) \<Longrightarrow> p \<noteq> q \<Longrightarrow> x \<in> set (lines A ! p) \<Longrightarrow>
        hk s' x = hk s x \<and> (x \<in> active A' \<longleftrightarrow> x \<in> active A)"
    and this_line: "line_ok s' q xs" "\<And>x. x \<in> set xs \<Longrightarrow> busy s' x \<longleftrightarrow> x \<in> active A'"
      "hw_masked s' ! q \<longleftrightarrow> xs = [] \<or> irq_actids s' ! q \<noteq> 0"
  shows "irq_rel s' A'"
proof -
  have "line_ok s' p (lines A' ! p) \<and> (\<forall>x \<in> set (lines A' ! p). busy s' x \<longleftrightarrow> x \<in> active A') \<and>
      (hw_masked s' ! p \<longleftrightarrow> lines A' ! p = [] \<or> set (lines A' ! p) \<inter> active A' \<noteq> {})" if p: "p < length (lines A')" for p
  proof (cases "p = q")
    case True
    have "irq_actids s' ! q \<noteq> 0 \<longleftrightarrow> set xs \<inter> active A' \<noteq> {}"
      using act_zero [OF this_line(1)] this_line(2) by blast
    with True this_line A'(1) q show ?thesis by simp
  next
    case False
    have pl: "p < length (lines A)" "lines A' ! p = lines A ! p" using p False A'(1) by simp_all
    note D = irq_relD(5) [OF R pl(1)]
    have "busy s' x = busy s x" if "x \<in> set (lines A ! p)" for x
      using other(1) [OF pl(1) False] other(2) [OF pl(1) False that] line_okD(3) [OF D that] by (simp add: busy_def)
    then show ?thesis
      using line_ok_cong [OF D, of s'] other(1,2) [OF pl(1) False] len(1) irq_relD(6,7) [OF R pl(1)] pl(2) by auto
  qed
  then show ?thesis using irq_relD(1-3) [OF R] A' len by (simp add: irq_rel_def)
qed

text \<open>New active ids for one line.\<close>

lemma rel_act:
  assumes R: "irq_rel s A" and q: "q < length (lines A)"
    and eq: "hooks s' = hooks s" "irq_handlers s' = irq_handlers s" "irq_actids s' = (irq_actids s)[q := act]"
      "hw_masked s' = (hw_masked s)[q := (lines A ! q = [] \<or> act \<noteq> 0)]"
    and bits: "\<And>n. bit act n \<Longrightarrow> bit (ids s (lines A ! q)) n"
    and B: "\<And>x. x \<in> set (lines A ! q) \<Longrightarrow> act AND h_id (hk s x) \<noteq> 0 \<longleftrightarrow> x \<in> B"
      "B - set (lines A ! q) = active A - set (lines A ! q)"
  shows "irq_rel s' (A\<lparr>active := B\<rparr>)"
proof -
  note L = irq_relD(5) [OF R q]
  have qa: "q < length (irq_actids s)" "q < length (hw_masked s)" using irq_relD(1-3) [OF R] q by simp_all
  have "nx s' = nx s" "ids s' = ids s" by (simp_all add: eq(1) nx_def ids_def fun_eq_iff)
  then have "line_ok s' q (lines A ! q)"
    using L bits qa by (simp add: line_ok_def eq(1-3))
  moreover have "busy s' x \<longleftrightarrow> x \<in> B" if "x \<in> set (lines A ! q)" for x
    using B(1) [OF that] line_okD(3) [OF L that] qa by (simp add: busy_def eq)
  moreover have "B \<subseteq> (\<Union>xs \<in> set (lines A). set xs)"
    using irq_relD(4) [OF R] B(2) nth_mem [OF q] by blast
  moreover have "x \<in> B \<longleftrightarrow> x \<in> active A"
    if "p < length (lines A)" "p \<noteq> q" "x \<in> set (lines A ! p)" for p x
    using lines_disjoint [OF R that(1) q that(3)] that(2) B(2) by blast
  ultimately show ?thesis
    using qa by (intro rel_line [OF R q, where xs = "lines A ! q"]) (simp_all add: eq)
qed

lemma masked_rel:
  assumes "irq_rel s A" "q < length (lines A)"
  shows "hw_masked s = (hw_masked s)[q := (lines A ! q = [] \<or> irq_actids s ! q \<noteq> 0)]"
proof -
  have "(lines A ! q = [] \<or> irq_actids s ! q \<noteq> 0) = hw_masked s ! q"
    using irq_relD(7) [OF assms] act_zero_rel [OF assms] by blast
  then show ?thesis by (simp only: list_update_id)
qed

lemma on_line_bits:
  assumes R: "irq_rel s A" and q: "q < length (lines A)" and h: "hook \<in> set (lines A ! q)"
    and x: "x \<in> set (lines A ! q)"
  shows "(irq_actids s ! q AND NOT (h_id (hk s hook))) AND h_id (hk s x) \<noteq> 0 \<longleftrightarrow> x \<in> active A - {hook}"
    "(irq_actids s ! q OR h_id (hk s hook)) AND h_id (hk s x) \<noteq> 0 \<longleftrightarrow> x \<in> insert hook (active A)"
proof -
  note L = irq_relD(5) [OF R q]
  have "irq_actids s ! q AND h_id (hk s x) \<noteq> 0 \<longleftrightarrow> x \<in> active A"
    using irq_relD(6) [OF R q x] line_okD(3) [OF L x] by (simp add: busy_def)
  moreover have "h_id (hk s x) = h_id (hk s hook) \<longleftrightarrow> x = hook" using line_okD(5) [OF L x h] by blast
  ultimately show "(irq_actids s ! q AND NOT (h_id (hk s hook))) AND h_id (hk s x) \<noteq> 0 \<longleftrightarrow> x \<in> active A - {hook}"
    "(irq_actids s ! q OR h_id (hk s hook)) AND h_id (hk s x) \<noteq> 0 \<longleftrightarrow> x \<in> insert hook (active A)"
    using bits_clear [OF line_okD(4) [OF L h] line_okD(4) [OF L x]] by auto
qed

lemma line_bits:
  assumes "irq_rel s A" "q < length (lines A)"
  shows "bit (irq_actids s ! q) n \<Longrightarrow> bit (ids s (lines A ! q)) n"
    "hook \<in> set (lines A ! q) \<Longrightarrow> bit (h_id (hk s hook)) n \<Longrightarrow> bit (ids s (lines A ! q)) n"
  using line_okD(6) [OF irq_relD(5) [OF assms]] by (auto simp: bit_ids)

lemma enable_ok:
  assumes R: "irq_rel s A" and h: "list_ex (\<lambda>xs. hook \<in> set xs) (lines A)"
  shows "irq_rel (enable_irq hook s) (A\<lparr>active := active A - {hook}\<rparr>)"
proof -
  from on_line [OF R h] obtain q us vs where
    q: "q < length (lines A)" "lines A ! q = us @ hook # vs" "h_irq (hk s hook) = int q" by metis
  let ?act = "irq_actids s ! q AND NOT (h_id (hk s hook))"
  have hm: "hook \<in> set (lines A ! q)" "lines A ! q \<noteq> []" using q by simp_all
  have qa: "q < length (irq_actids s)" using irq_relD(1-3) [OF R] q(1) by simp
  have "irq_actids s ! q \<noteq> 0" if "?act \<noteq> 0" using that by auto
  with masked_rel [OF R q(1)] have
    "hw_masked (enable_irq hook s) = (hw_masked s)[q := (lines A ! q = [] \<or> ?act \<noteq> 0)]"
    using q(3) qa hm(2) by (auto simp: enable_irq_def Let_def)
  then show ?thesis
    using q(3) qa line_bits [OF R q(1)] on_line_bits(1) [OF R q(1) hm(1)] hm
    by (intro rel_act [OF R q(1), where act = ?act])
      (auto simp: enable_irq_def Let_def bit_and_iff)
qed

lemma disable_ok:
  assumes R: "irq_rel s A" and h: "list_ex (\<lambda>xs. hook \<in> set xs) (lines A)"
  shows "irq_rel (snd (disable_irq hook s)) (A\<lparr>active := insert hook (active A)\<rparr>)"
    "fst (disable_irq hook s) \<longleftrightarrow> hook \<notin> active A"
proof -
  from on_line [OF R h] obtain q us vs where
    q: "q < length (lines A)" "lines A ! q = us @ hook # vs" "h_irq (hk s hook) = int q" by metis
  have hm: "hook \<in> set (lines A ! q)" "lines A ! q \<noteq> []" using q by simp_all
  have bz: "irq_actids s ! q AND h_id (hk s hook) \<noteq> 0 \<longleftrightarrow> hook \<in> active A"
    using irq_relD(6) [OF R q(1) hm(1)] q(3) by (simp add: busy_def)
  then show "fst (disable_irq hook s) \<longleftrightarrow> hook \<notin> active A"
    using q(3) by (auto simp: disable_irq_def Let_def)
  show "irq_rel (snd (disable_irq hook s)) (A\<lparr>active := insert hook (active A)\<rparr>)"
  proof (cases "hook \<in> active A")
    case True
    then show ?thesis using R bz q(3) by (simp add: disable_irq_def Let_def insert_absorb)
  next
    case False
    let ?act = "irq_actids s ! q OR h_id (hk s hook)"
    have nz: "?act \<noteq> 0"
      using id_nonzero [OF line_okD(4) [OF irq_relD(5) [OF R q(1)] hm(1)]] by (simp add: or_eq_0_iff)
    show ?thesis
      using q(3) line_bits [OF R q(1)] on_line_bits(2) [OF R q(1) hm(1)] hm bz False nz
      by (intro rel_act [OF R q(1), where act = ?act]) (auto simp: disable_irq_def Let_def bit_or_iff)
  qed
qed

lemma free_id:
  assumes L: "line_ok s q xs" and n: "length xs < 32"
  shows "is_id (low_id (ids s xs)) \<and> ids s xs AND low_id (ids s xs) = 0"
proof -
  have "\<forall>x \<in> set xs. \<exists>n. \<forall>m. bit (h_id (hk s x)) m \<longleftrightarrow> m = n"
    using line_okD(4) [OF L] unfolding is_id_bits by blast
  then obtain g where g: "\<And>x m. x \<in> set xs \<Longrightarrow> bit (h_id (hk s x)) m \<longleftrightarrow> m = g x" by metis
  have "card (g ` set xs) < card {..< 32 :: nat}"
    using n card_image_le [of "set xs" g] card_length [of xs] by simp
  then obtain k where "k < 32" "k \<notin> g ` set xs"
    by (meson card_mono finite_imageI List.finite_set lessThan_iff linorder_not_less subsetI)
  moreover from this(2) have "\<not> bit (ids s xs) k" using g by (auto simp: bit_ids)
  ultimately show ?thesis using low_id_spec by blast
qed

lemma lines_grow:
  assumes "q < length ls" "set (ls ! q) \<subseteq> set xs"
  shows "(\<Union>ys \<in> set ls. set ys) \<subseteq> (\<Union>ys \<in> set (ls[q := xs]). set ys)"
proof
  fix x assume "x \<in> (\<Union>ys \<in> set ls. set ys)"
  then obtain p where p: "p < length ls" "x \<in> set (ls ! p)" by (metis UN_E in_set_conv_nth)
  then have "x \<in> set (ls[q := xs] ! p)" using assms by (cases "p = q") auto
  then show "x \<in> (\<Union>ys \<in> set (ls[q := xs]). set ys)" using p(1) nth_mem [of p "ls[q := xs]"] by auto
qed

lemma put_ok:
  assumes R: "irq_rel s A" and ok: "op_ok (length (hooks s)) A (Put hook q fn)"
  shows "\<exists>s'. put_irq_handler hook (int q) fn s = Some s' \<and> irq_rel s' (a_put hook q A)"
proof -
  have q: "q < length (lines A)" "hook < length (hooks s)" "length (lines A ! q) < 32"
    and oth: "\<And>p. p < length (lines A) \<Longrightarrow> p \<noteq> q \<Longrightarrow> hook \<notin> set (lines A ! p)"
    using ok by (auto simp: op_ok_def list_all_iff)
  let ?xs = "lines A ! q"
  note L = irq_relD(5) [OF R q(1)]
  note len = irq_relD(1-3) [OF R]
  have v: "valid_irq s (int q)" using len q(1) by (simp add: valid_irq_def)
  have FE: "find_end q hook None 0 s = Some (if hook \<in> set ?xs then None else Some (end_of None ?xs, ids s ?xs))"
    using find_end_chain [of s q None ?xs hook 0] line_okD(1) [OF L] by simp
  show ?thesis
  proof (cases "hook \<in> set ?xs")
    case True
    with R v FE show ?thesis by (simp add: put_irq_handler_def a_put_def)
  next
    case False
    define w where "w = low_id (ids s ?xs)"
    define t where "t = set_line q (end_of None ?xs) (Some hook)
        (upd_hook hook (\<lambda>h. h\<lparr>h_next := None, h_handler := fn, h_irq := int q, h_id := w\<rparr>) s)"
    have w: "is_id w" "ids s ?xs AND w = 0" using free_id [OF L q(3)] by (simp_all add: w_def)
    have T: "line_ok t q (?xs @ [hook])"
        "\<And>x. x \<noteq> hook \<Longrightarrow> h_id (hk t x) = h_id (hk s x) \<and> h_irq (hk t x) = h_irq (hk s x)"
        "h_id (hk t hook) = w" "h_irq (hk t hook) = int q"
      using put_line_ok [OF L False q(2) w, of fn] len q(1) unfolding t_def by auto
    have "\<not> (irq_actids s ! q AND w \<noteq> 0)"
      using w(2) line_bits(1) [OF R q(1)] and_nonzero by blast
    then have act: "irq_actids s ! q AND w = 0" by simp
    have ta: "irq_actids t = irq_actids s" "hw_masked t = hw_masked s" "length (hooks t) = length (hooks s)"
      "length (irq_handlers t) = length (irq_handlers s)" by (simp_all add: t_def)
    then have at: "irq_actids t ! q AND NOT w = irq_actids t ! q" by (simp add: and_not_id [OF act])
    have s2: "set_act q (irq_actids t ! q) t = t" by (simp add: set_act_def)
    then have s3: "irq_actids t ! q = 0 \<Longrightarrow> set_act q 0 t = t" by simp
    define t' where "t' = (if irq_actids t ! q = 0 then hw_mask False q t else t)"
    have P: "put_irq_handler hook (int q) fn s = Some t'"
      using v FE False id_nonzero [OF w(1)]
      unfolding put_irq_handler_def Let_def
      by (simp add: w_def [symmetric] t_def [symmetric] t'_def at s2 s3 del: set_act_simps)
    have nact: "hook \<notin> active A"
    proof
      assume "hook \<in> active A"
      then obtain xs where "xs \<in> set (lines A)" "hook \<in> set xs" using irq_relD(4) [OF R] by blast
      then obtain p where "p < length (lines A)" "hook \<in> set (lines A ! p)" by (metis in_set_conv_nth)
      with False oth show False by blast
    qed
    have t': "irq_handlers t' = irq_handlers t" "hooks t' = hooks t" "irq_actids t' = irq_actids s" by (auto simp: t'_def ta)
    have "line_ok t' q (?xs @ [hook])" by (rule line_ok_cong [OF T(1)]) (simp_all add: t' ta)
    moreover have "hk t' x = hk s x" if p: "p < length (lines A)" "p \<noteq> q" "x \<in> set (lines A ! p)" for p x
    proof -
      have "x \<noteq> hook" using oth p by blast
      moreover have "end_of None ?xs \<noteq> Some x"
        using lines_disjoint [OF R p(1) q(1) p(3)] p(2) by (auto simp: end_of_def)
      ultimately show ?thesis by (simp add: t' t_def)
    qed
    moreover have "busy t' x \<longleftrightarrow> x \<in> active A" if x: "x \<in> set (?xs @ [hook])" for x
    proof (cases "x = hook")
      case True
      then show ?thesis using T(3,4) act nact by (simp add: busy_def t')
    next
      case False
      with x have "x \<in> set ?xs" by simp
      with irq_relD(6) [OF R q(1) this] False T(2) [of x] show ?thesis by (simp add: busy_def t')
    qed
    moreover have "hw_masked t' ! q \<longleftrightarrow> irq_actids t' ! q \<noteq> 0"
      using irq_relD(7) [OF R q(1)] act_zero_rel [OF R q(1)] len q(1) by (auto simp: t'_def ta)
    moreover have "active A \<subseteq> (\<Union>ys \<in> set ((lines A)[q := ?xs @ [hook]]). set ys)"
      by (rule order_trans [OF irq_relD(4) [OF R] lines_grow [OF q(1)]]) auto
    moreover have "irq_handlers t' ! p = irq_handlers s ! p \<and> irq_actids t' ! p = irq_actids s ! p \<and>
        hw_masked t' ! p = hw_masked s ! p" if "p \<noteq> q" for p
      using that by (auto simp: t'_def t_def)
    moreover have "length (irq_handlers t') = length (irq_handlers s)" "length (hooks t') = length (hooks s)"
        "length (hw_masked t') = length (hw_masked s)"
      by (auto simp: t' ta) (simp add: t'_def ta)
    ultimately have "irq_rel t' (a_put hook q A)"
      using False by (intro rel_line [OF R q(1), where xs = "?xs @ [hook]"]) (simp_all add: a_put_def t'(3))
    with P show ?thesis by blast
  qed
qed

lemma rm_ok:
  assumes R: "irq_rel s A" and h: "list_ex (\<lambda>xs. hook \<in> set xs) (lines A)"
  shows "\<exists>s'. rm_irq_handler hook s = Some s' \<and> irq_rel s' (a_rm hook A)"
proof -
  from on_line [OF R h] obtain q us vs where
    q: "q < length (lines A)" "lines A ! q = us @ hook # vs" "h_irq (hk s hook) = int q" "valid_irq s (int q)" by metis
  let ?xs = "us @ hook # vs"
  have hm: "hook \<in> set (lines A ! q)" using q by simp
  have L: "line_ok s q ?xs" using irq_relD(5) [OF R q(1)] q(2) by simp
  note len = irq_relD(1-3) [OF R]
  have D: "distinct ?xs" by (rule line_distinct [OF L])
  define w where "w = h_id (hk s hook)"
  define t where "t = set_line q (end_of None us) (nx s hook) s"
  have ql: "q < length (irq_handlers s)" "q < length (irq_actids s)" using len q(1) by simp_all
  obtain t' where t': "remove_id q w None s = Some t'" "t' = t \<or> t' = set_act q (irq_actids s ! q AND NOT w) t"
      "irq_actids t' ! q = irq_actids s ! q AND NOT w"
    using remove_id_ok [OF L ql] unfolding w_def t_def by blast
  have f: "hooks t' = hooks t" "irq_handlers t' = irq_handlers t" "hw_masked t' = hw_masked s"
      "length (irq_actids t') = length (irq_actids s)" "length (hooks t') = length (hooks s)"
      "length (irq_handlers t') = length (irq_handlers s)"
      "\<And>p. p \<noteq> q \<Longrightarrow> irq_actids t' ! p = irq_actids s ! p"
    using t'(2) by (auto simp: t_def)
  have fld: "h_id (hk t' x) = h_id (hk s x)" "h_irq (hk t' x) = h_irq (hk s x)" for x by (simp_all add: f t_def)
  have us: "x < length (hooks s)" if "x \<in> set us" for x using line_okD(2) [OF L] that by simp
  note U = chain_unlink [OF line_okD(1) [OF L] ql(1) us, folded t_def, simplified]
  have nt: "nx t' = nx t" by (simp add: nx_def f fun_eq_iff)
  have idne: "h_id (hk s x) \<noteq> w" if "x \<in> set (us @ vs)" for x
    using line_okD(5) [OF L, of x hook] that D by (auto simp: w_def)
  have bits: "irq_actids t' ! q AND h_id (hk s x) \<noteq> 0 \<longleftrightarrow> x \<in> active A" if x: "x \<in> set (us @ vs)" for x
    using on_line_bits(1) [OF R q(1) hm, of x] x D t'(3) q(2) by (auto simp: w_def)
  have act: "bit (ids t' (us @ vs)) n" if b: "bit (irq_actids t' ! q) n" for n
  proof -
    have "bit (irq_actids s ! q) n" "\<not> bit w n" using b t'(3) by (auto simp: bit_and_iff bit_not_iff)
    then obtain x where "x \<in> set ?xs" "bit (h_id (hk s x)) n" "x \<noteq> hook"
      using line_okD(6) [OF L] unfolding w_def by metis
    then show ?thesis by (auto simp: bit_ids fld)
  qed
  have L': "line_ok t' q (us @ vs)"
    using U line_okD(2-4) [OF L] act L unfolding line_ok_def by (simp add: nt f(2,5) fld)
  define s' where "s' = (if irq_handlers t' ! q = None then hw_mask True q t'
      else if irq_actids t' ! q = 0 then hw_mask False q t' else t')"
  have P: "rm_irq_handler hook s = Some s'"
    using t'(1) q(3,4) by (simp add: rm_irq_handler_def Let_def w_def s'_def)
  have g: "hooks s' = hooks t'" "irq_handlers s' = irq_handlers t'" "irq_actids s' = irq_actids t'" by (auto simp: s'_def)
  have "line_ok s' q (us @ vs)" by (rule line_ok_cong [OF L']) (simp_all add: g)
  moreover have la: "lines (a_rm hook A) = (lines A)[q := us @ vs]"
  proof (rule nth_equalityI)
    show "lines (a_rm hook A) ! p = (lines A)[q := us @ vs] ! p" if p: "p < length (lines (a_rm hook A))" for p
    proof (cases "p = q")
      case True
      with q(1,2) D show ?thesis by (simp add: a_rm_def remove1_append)
    next
      case False
      have "hook \<notin> set (lines A ! p)" using lines_disjoint [OF R _ q(1), of p hook] p False hm by (auto simp: a_rm_def)
      with p False show ?thesis by (simp add: a_rm_def remove1_idem)
    qed
  qed (simp add: a_rm_def)
  moreover have "hk s' x = hk s x \<and> (x \<in> active (a_rm hook A) \<longleftrightarrow> x \<in> active A)"
    if p: "p < length (lines A)" "p \<noteq> q" "x \<in> set (lines A ! p)" for p x
  proof -
    have "x \<notin> set ?xs" using lines_disjoint [OF R p(1) q(1) p(3)] p(2) q(2) by auto
    then have "x \<noteq> hook" "end_of None us \<noteq> Some x" by (auto simp: end_of_def)
    then show ?thesis by (simp add: g f t_def a_rm_def)
  qed
  moreover have "busy s' x \<longleftrightarrow> x \<in> active (a_rm hook A)" if x: "x \<in> set (us @ vs)" for x
    using bits [OF x] line_okD(3) [OF L, of x] x D by (auto simp: busy_def g fld a_rm_def)
  moreover have "irq_handlers t' ! q = None \<longleftrightarrow> us @ vs = []"
    using U by (cases "us @ vs") (auto simp: f(2))
  moreover have "hw_masked s ! q" if "irq_actids t' ! q \<noteq> 0"
  proof -
    have "irq_actids s ! q \<noteq> 0" using that t'(3) by auto
    then show ?thesis using irq_relD(7) [OF R q(1)] act_zero_rel [OF R q(1)] by blast
  qed
  moreover have "active (a_rm hook A) \<subseteq> (\<Union>xs \<in> set (lines (a_rm hook A)). set xs)"
    using irq_relD(4) [OF R] by (fastforce simp: a_rm_def in_set_remove1)
  moreover have "length (irq_handlers s') = length (irq_handlers s)" "length (hooks s') = length (hooks s)"
      "length (irq_actids s') = length (irq_actids s)" "length (hw_masked s') = length (hw_masked s)"
    by (auto simp: g f(3,4) s'_def f(1,2) t_def)
  moreover have "irq_handlers s' ! p = irq_handlers s ! p \<and> irq_actids s' ! p = irq_actids s ! p \<and>
      hw_masked s' ! p = hw_masked s ! p" if "p \<noteq> q" for p
    using that by (auto simp: g f(3,7) s'_def f(2) t_def)
  ultimately show ?thesis
    using P len q(1) by (intro exI [of _ s'] conjI rel_line [OF R q(1), where xs = "us @ vs"])
      (simp_all add: g s'_def f(3))
qed

text \<open>The delivery of an interrupt only changes the active ids of its line.\<close>

fun act_run ::
  "(irq_hook \<Rightarrow> 'e \<Rightarrow> (bool \<times> 'e) option) \<Rightarrow> intr \<Rightarrow> nat list \<Rightarrow> 32 word \<Rightarrow> 'e \<Rightarrow> (32 word \<times> 'e) option" where
  "act_run call s [] act e = Some (act, e)"
| "act_run call s (x # xs) act e =
     (case call (hk s x) e of
        None \<Rightarrow> None
      | Some (r, e1) \<Rightarrow>
          act_run call s xs (if r then (act OR h_id (hk s x)) AND NOT (h_id (hk s x)) else act OR h_id (hk s x)) e1)"

lemma act_run_cong: "hooks s' = hooks s \<Longrightarrow> act_run call s' ys act e = act_run call s ys act e"
  by (induction ys arbitrary: act e) (simp_all split: option.split)

lemma set_act_twice [simp]: "set_act q v (set_act q w s) = set_act q v s" "nx (set_act q w s) = nx s"
  by (simp_all add: set_act_def nx_def fun_eq_iff)

lemma run_hooks_act:
  "chain (nx s) p xs \<Longrightarrow> (\<And>x. x \<in> set xs \<Longrightarrow> h_irq (hk s x) = int q) \<Longrightarrow> q < length (irq_actids s) \<Longrightarrow>
     run_hooks call q p (set_act q act s) e =
       map_option (\<lambda>(act', e'). (set_act q act' s, e')) (act_run call s xs act e)"
proof (induction xs arbitrary: p act e)
  case Nil
  then show ?case by (simp add: run_hooks.simps)
next
  case (Cons x xs)
  then have p: "p = Some x" and n: "chain (nx s) (nx s x) xs" and q: "h_irq (hk s x) = int q" by simp_all
  note IH = Cons.IH [OF n _ Cons.prems(3)]
  show ?case
    unfolding p by (subst run_hooks.simps)
      (simp add: Let_def q Cons.prems IH nx_def [symmetric] split: option.split)
qed

lemma act_run_abs:
  assumes L: "line_ok s q xs"
  shows "set ys \<subseteq> set xs \<Longrightarrow> (\<And>x. x \<in> set xs \<Longrightarrow> act AND h_id (hk s x) \<noteq> 0 \<longleftrightarrow> x \<in> B) \<Longrightarrow>
     (\<And>n. bit act n \<Longrightarrow> bit (ids s xs) n) \<Longrightarrow>
     (case act_run call s ys act e of
        None \<Rightarrow> a_run call (hk s) ys B e = None
      | Some (act', e') \<Rightarrow> \<exists>B'. a_run call (hk s) ys B e = Some (B', e') \<and> B' - set xs = B - set xs \<and>
          (\<forall>x \<in> set xs. act' AND h_id (hk s x) \<noteq> 0 \<longleftrightarrow> x \<in> B') \<and> (\<forall>n. bit act' n \<longrightarrow> bit (ids s xs) n))"
proof (induction ys arbitrary: act B e)
  case Nil
  then show ?case by simp
next
  case (Cons y ys)
  have y: "y \<in> set xs" using Cons.prems(1) by simp
  show ?case
  proof (cases "call (hk s y) e")
    case (Some re)
    obtain r e1 where re: "re = (r, e1)" by force
    define act1 where "act1 = (if r then (act OR h_id (hk s y)) AND NOT (h_id (hk s y)) else act OR h_id (hk s y))"
    define B1 where "B1 = (if r then B - {y} else insert y B)"
    have "act1 AND h_id (hk s x) \<noteq> 0 \<longleftrightarrow> x \<in> B1" if x: "x \<in> set xs" for x
      using Cons.prems(2) [OF x] bits_clear [OF line_okD(4) [OF L y] line_okD(4) [OF L x]] line_okD(5) [OF L x y]
      by (auto simp: act1_def B1_def)
    moreover have "bit (ids s xs) n" if "bit act1 n" for n
      using that Cons.prems(3) y by (auto simp: act1_def bit_and_iff bit_or_iff bit_ids split: if_splits)
    moreover have "set ys \<subseteq> set xs" using Cons.prems(1) by simp
    ultimately have "case act_run call s ys act1 e1 of
        None \<Rightarrow> a_run call (hk s) ys B1 e1 = None
      | Some (act', e') \<Rightarrow> \<exists>B'. a_run call (hk s) ys B1 e1 = Some (B', e') \<and> B' - set xs = B1 - set xs \<and>
          (\<forall>x \<in> set xs. act' AND h_id (hk s x) \<noteq> 0 \<longleftrightarrow> x \<in> B') \<and> (\<forall>n. bit act' n \<longrightarrow> bit (ids s xs) n)"
      using Cons.IH by blast
    moreover have "B1 - set xs = B - set xs" using y by (auto simp: B1_def)
    moreover have "act_run call s (y # ys) act e = act_run call s ys act1 e1"
        "a_run call (hk s) (y # ys) B e = a_run call (hk s) ys B1 e1"
      by (simp_all add: Some re act1_def B1_def)
    ultimately show ?thesis by (simp only:)
  qed simp
qed

lemma handle_ok:
  assumes R: "irq_rel s A" and q: "q < length (lines A)"
  shows "case irq_handle call (int q) s e of
      None \<Rightarrow> a_run call (hk s) (lines A ! q) (active A) e = None
    | Some (s', e') \<Rightarrow> \<exists>B. a_run call (hk s) (lines A ! q) (active A) e = Some (B, e') \<and>
        irq_rel s' (A\<lparr>active := B\<rparr>)"
proof -
  let ?xs = "lines A ! q"
  note L = irq_relD(5) [OF R q]
  have len: "q < length (irq_handlers s)" "q < length (irq_actids s)" "q < length (hw_masked s)"
    using irq_relD(1-3) [OF R] q by simp_all
  define s1 where "s1 = hw_mask True q s"
  have v: "valid_irq s (int q)" using len by (simp add: valid_irq_def)
  have nx1: "nx s1 = nx s" by (simp add: s1_def nx_def fun_eq_iff)
  have s1: "set_act q (irq_actids s ! q) s1 = s1" "hooks s1 = hooks s" "irq_actids s1 = irq_actids s"
    by (simp_all add: s1_def set_act_def hw_mask_def)
  have run: "run_hooks call q (irq_handlers s ! q) s1 e =
      map_option (\<lambda>(act', e'). (set_act q act' s1, e')) (act_run call s1 ?xs (irq_actids s ! q) e)"
    using run_hooks_act [of s1 "irq_handlers s ! q" ?xs q call "irq_actids s ! q" e] line_okD(1,3) [OF L] len nx1
    by (simp add: s1)
  note run = run [unfolded act_run_cong [OF s1(2)]]
  have bits: "irq_actids s ! q AND h_id (hk s x) \<noteq> 0 \<longleftrightarrow> x \<in> active A" if "x \<in> set ?xs" for x
    using irq_relD(6) [OF R q that] line_okD(3) [OF L that] by (simp add: busy_def)
  note abs = act_run_abs [OF L order_refl bits line_bits(1) [OF R q], of call e]
  show ?thesis
  proof (cases "?xs = []")
    case True
    with line_okD(1) [OF L] have "irq_handle call (int q) s e = Some (s1, e)"
      using v by (simp add: irq_handle_def s1_def)
    moreover have "s1 = s"
      using irq_relD(7) [OF R q] True by (simp add: s1_def hw_mask_def list_update_same_conv len)
    moreover have "A\<lparr>active := active A\<rparr> = A" by simp
    ultimately show ?thesis using True R by simp
  next
    case False
    then obtain y where ne: "irq_handlers s ! q = Some y" using line_okD(1) [OF L] by (cases ?xs) auto
    show ?thesis
    proof (cases "act_run call s ?xs (irq_actids s ! q) e")
      case None
      then have "irq_handle call (int q) s e = None"
        using ne v run by (simp add: irq_handle_def Let_def flip: s1_def) (simp add: s1_def)
      with abs None show ?thesis by simp
    next
      case (Some ae)
      obtain act e' where ae: "ae = (act, e')" by force
      define s' where "s' = (if act = 0 then hw_mask False q (set_act q act s1) else set_act q act s1)"
      have "irq_handle call (int q) s e = Some (s', e')"
        using Some ae ne v run len by (simp add: irq_handle_def Let_def s1_def s'_def)
      moreover obtain B where B: "a_run call (hk s) ?xs (active A) e = Some (B, e')" "B - set ?xs = active A - set ?xs"
          "\<And>x. x \<in> set ?xs \<Longrightarrow> act AND h_id (hk s x) \<noteq> 0 \<longleftrightarrow> x \<in> B" "\<And>n. bit act n \<Longrightarrow> bit (ids s ?xs) n"
        using abs by (auto simp: Some ae)
      moreover have "irq_rel s' (A\<lparr>active := B\<rparr>)"
        using B(2-4) False by (intro rel_act [OF R q, where act = act]) (auto simp: s'_def s1_def)
      ultimately show ?thesis by simp
    qed
  qed
qed

lemma a_run_trace:
  "a_run (\<lambda>h tr. Some (f h, tr @ [h])) hks xs B tr =
     Some ((B - set xs) \<union> {x \<in> set xs. \<not> f (hks x)}, tr @ List.map hks xs)"
  by (induction xs arbitrary: B tr) auto

subsection \<open>Results\<close>

text \<open>
  (C8) The interrupt code implements lines of hooks with a set of busy hooks.  For every operation allowed in the
  abstract state (a hook is registered on one line at most, a line has at most 32 hooks, and only registered hooks
  are removed, enabled or disabled) the code neither panics nor loops, and it does what the abstract step does:
  \<^verbatim>\<open>put_irq_handler\<close> appends a hook that is not yet on the line, \<^verbatim>\<open>rm_irq_handler\<close> takes out this hook and no
  other, \<^verbatim>\<open>irq_handle\<close> calls the handlers of the line in order and leaves busy those that return 0.  The relation
  fixes the hardware state: a line is masked if and only if it has no hooks or a busy one.
\<close>

theorem irq_code_refines:
  assumes "irq_rel s A" "op_ok (length (hooks s)) A op"
  shows "case a_step call (hk s) op A e of
      None \<Rightarrow> irq_step call op s e = None
    | Some (A', e') \<Rightarrow> \<exists>s'. irq_step call op s e = Some (s', e') \<and> irq_rel s' A'"
proof (cases op)
  case (Put hook q fn)
  with put_ok [OF assms(1)] assms(2) show ?thesis by (auto simp: irq_step_def a_step_def)
next
  case (Rm hook)
  with rm_ok [OF assms(1), of hook] assms(2) show ?thesis by (auto simp: irq_step_def a_step_def op_ok_def)
next
  case (Enable hook)
  with enable_ok [OF assms(1), of hook] assms(2) show ?thesis by (auto simp: irq_step_def a_step_def op_ok_def)
next
  case (Disable hook)
  with disable_ok [OF assms(1), of hook] assms(2) show ?thesis by (auto simp: irq_step_def a_step_def op_ok_def)
next
  case (Handle q)
  with handle_ok [OF assms(1), of q call e] assms(2) show ?thesis
    by (auto simp: irq_step_def a_step_def op_ok_def split: option.splits)
qed

text \<open>
  An interrupt reaches every driver on its line: with at least one hook on the line, \<^verbatim>\<open>irq_handle\<close> calls each
  registered hook exactly once and in the order of registration, and afterwards the line is open again exactly
  when every handler has said that it is done.  Other lines keep their mask.
\<close>

theorem irq_handle_calls_all:
  assumes "irq_rel s A" "q < length (lines A)" "lines A ! q \<noteq> []"
  shows "\<exists>s'. irq_handle (\<lambda>h tr. Some (f h, tr @ [h])) (int q) s [] = Some (s', List.map (hk s) (lines A ! q)) \<and>
    (hw_masked s' ! q \<longleftrightarrow> \<not> list_all (\<lambda>x. f (hk s x)) (lines A ! q)) \<and>
    list_all (\<lambda>p. p = q \<or> hw_masked s' ! p = hw_masked s ! p) [0 ..< length (lines A)]"
proof -
  let ?B = "(active A - set (lines A ! q)) \<union> {x \<in> set (lines A ! q). \<not> f (hk s x)}"
  obtain s' where s': "irq_handle (\<lambda>h tr. Some (f h, tr @ [h])) (int q) s [] = Some (s', List.map (hk s) (lines A ! q))"
      "irq_rel s' (A\<lparr>active := ?B\<rparr>)"
    using handle_ok [OF assms(1,2), of "\<lambda>h tr. Some (f h, tr @ [h])" "[]"]
    by (auto simp: a_run_trace split: option.splits)
  have "hw_masked s' ! p = hw_masked s ! p" if p: "p < length (lines A)" "p \<noteq> q" for p
  proof -
    have "set (lines A ! p) \<inter> set (lines A ! q) = {}"
      using lines_disjoint [OF assms(1) p(1) assms(2)] p(2) by blast
    then show ?thesis using irq_relD(7) [OF s'(2), of p] irq_relD(7) [OF assms(1) p(1)] p(1) by auto
  qed
  moreover have "hw_masked s' ! q \<longleftrightarrow> \<not> list_all (\<lambda>x. f (hk s x)) (lines A ! q)"
    using irq_relD(7) [OF s'(2), of q] assms(2,3) by (auto simp: list_all_iff)
  ultimately show ?thesis using s'(1) by (auto simp: list_all_iff)
qed

subsection \<open>Two lines, three hooks\<close>

declare find_end.simps [code] remove_id.simps [code] run_hooks.simps [code]

definition demo_hook :: irq_hook where
  "demo_hook = \<lparr>h_next = None, h_handler = 0, h_irq = 0, h_id = 0, proc_nr_e = 0, notify_id = 0, policy = 0\<rparr>"

definition demo_intr0 :: intr where
  "demo_intr0 = \<lparr>hooks = replicate 3 demo_hook, irq_handlers = [None, None], irq_actids = [0, 0], hw_masked = [True, True]\<rparr>"

lemma demo_intr0_rel: "irq_rel demo_intr0 \<lparr>lines = [[], []], active = {}\<rparr>"
  by (auto simp: irq_rel_def demo_intr0_def line_ok_def less_Suc_eq numeral_2_eq_2)

definition demo_intr :: intr where
  "demo_intr = the (put_irq_handler 2 1 7 (the (put_irq_handler 0 1 7 demo_intr0)))"

lemma demo_intr_rel: "irq_rel demo_intr \<lparr>lines = [[], [0, 2]], active = {}\<rparr>"
proof -
  have "op_ok 3 \<lparr>lines = [[], []], active = {}\<rparr> (Put 0 1 7)" "length (hooks demo_intr0) = 3" by code_simp+
  from put_ok [OF demo_intr0_rel, of 0 1 7] this obtain s1 where
    s1: "put_irq_handler 0 1 7 demo_intr0 = Some s1" "irq_rel s1 \<lparr>lines = [[], [0]], active = {}\<rparr>"
    by (auto simp: a_put_def)
  have "length (hooks (the (put_irq_handler 0 1 7 demo_intr0))) = 3" "op_ok 3 \<lparr>lines = [[], [0]], active = {}\<rparr> (Put 2 1 7)" by code_simp+
  with s1 put_ok [OF s1(2), of 2 1 7] obtain s2 where
    "put_irq_handler 2 1 7 s1 = Some s2" "irq_rel s2 \<lparr>lines = [[], [0, 2]], active = {}\<rparr>"
    by (auto simp: a_put_def)
  with s1(1) show ?thesis by (simp add: demo_intr_def)
qed

theorem irq_code_refines_witness:
  "\<exists>s'. irq_step (\<lambda>_ _. Some (False, ())) (Rm 0) demo_intr () = Some (s', ()) \<and>
     irq_rel s' \<lparr>lines = [[], [2]], active = {}\<rparr>"
proof -
  have "op_ok (length (hooks demo_intr)) \<lparr>lines = [[], [0, 2]], active = {}\<rparr> (Rm 0)" by code_simp
  from irq_code_refines [OF demo_intr_rel this, of "\<lambda>_ _. Some (False, ())" "()"]
  show ?thesis by (simp add: a_step_def a_rm_def)
qed

theorem irq_handle_calls_all_witness:
  "\<exists>s'. irq_handle (\<lambda>h tr. Some (h_id h = 1, tr @ [h])) 1 demo_intr [] = Some (s', [hk demo_intr 0, hk demo_intr 2]) \<and>
     hw_masked s' ! 1"
proof -
  have "h_id (hk demo_intr 2) \<noteq> 1" by code_simp
  with irq_handle_calls_all [OF demo_intr_rel, of 1 "\<lambda>h. h_id h = 1"] show ?thesis by (auto simp: upt_rec)
qed

end
