(* ===== verification/KPriv.thy ===== *)
theory KPriv
  imports KFrame KIrq
begin

text \<open>
  Privileges of system processes: \<^verbatim>\<open>get_priv\<close>, \<^verbatim>\<open>set_sendto_bit\<close>, \<^verbatim>\<open>unset_sendto_bit\<close> and
  \<^verbatim>\<open>fill_sendto_mask\<close> of \<^verbatim>\<open>src/Project_2/kernel/system.c\<close>, and the kernel call \<^verbatim>\<open>do_privctl\<close> of
  \<^verbatim>\<open>src/Project_2/kernel/system/do_privctl.c\<close>.

  The state extends that of \<^verbatim>\<open>KIpc\<close> with the fields of \<^verbatim>\<open>struct priv\<close> that message passing does not use
  (\<open>pexts\<close>, same index as the privilege table), the interrupt hooks, the part of a process slot that belongs to
  an interrupted kernel call, the message buffers of the processes, and the owner of the FPU.  Of the alarm timer
  only whether it is set is kept.  The numbers of requests and privilege flags come from headers outside the
  repository: requests are decoded by a parameter, and copies of structures from the caller's memory are
  parameters too, with the result of the copy and the contents of the kernel's variable after it.
\<close>

unbundle bit_operations_syntax

subsection \<open>State\<close>

record kmsg =
  m_source :: int
  m_type :: int
  m_i1 :: int
  m_i2 :: int
  m_i3 :: int
  m_l1 :: "32 word"
  m_l2 :: "32 word"
  m_p1 :: nat
  m_map :: "int set"

record pext =
  s_k_call_mask :: "bool list"
  s_alarm_set :: bool
  s_nr_io_range :: int
  s_io_tab :: "(32 word \<times> 32 word) list"
  s_nr_mem_range :: int
  s_mem_tab :: "(32 word \<times> 32 word) list"
  s_nr_irq :: int
  s_irq_tab :: "int list"
  s_grant_table :: nat
  s_grant_entries :: int

record pslot =
  vm_kernelcall :: bool
  saved_reqmsg :: kmsg
  p_cr3_v :: "nat option"

record xstate =
  xi :: istate
  pexts :: "pext list"
  xintr :: intr
  pslots :: "pslot list"
  umem :: "nat \<Rightarrow> nat \<Rightarrow> kmsg option"
  fpu_owner :: "nat option"

text \<open>The \<^verbatim>\<open>struct priv\<close> a caller passes, with the fields that \<^verbatim>\<open>do_privctl\<close> and \<^verbatim>\<open>update_priv\<close> read.\<close>

record upriv =
  u_id :: int
  u_flags :: "16 word"
  u_trap_mask :: "16 word"
  u_ipc_to :: "bool list list"
  u_k_call_mask :: "bool list"
  u_sig_mgr :: int
  u_bak_sig_mgr :: int
  u_nr_io_range :: int
  u_io_tab :: "(32 word \<times> 32 word) list"
  u_nr_mem_range :: int
  u_mem_tab :: "(32 word \<times> 32 word) list"
  u_nr_irq :: int
  u_irq_tab :: "int list"

datatype ctl_request =
    SYS_PRIV_ALLOW | SYS_PRIV_YIELD | SYS_PRIV_DISALLOW | SYS_PRIV_SET_SYS | SYS_PRIV_SET_USER | SYS_PRIV_ADD_IO
  | SYS_PRIV_ADD_MEM | SYS_PRIV_ADD_IRQ | SYS_PRIV_QUERY_MEM | SYS_PRIV_UPDATE_SYS | CTL_UNKNOWN

record xcfg =
  ic :: icfg
  ctl_request :: "int \<Rightarrow> ctl_request"
  NR_STATIC_PRIV_IDS :: nat
  NULL_PRIV_ID :: int
  is_static_priv_id :: "int \<Rightarrow> bool"
  DYN_PRIV_ID :: "16 word"
  CHECK_IO_PORT :: "16 word"
  CHECK_MEM :: "16 word"
  CHECK_IRQ :: "16 word"
  DSRV_F :: "16 word"
  DSRV_T :: "16 word"
  DSRV_M :: "32 word"
  DSRV_KC :: int
  NO_C :: int
  DSRV_SM :: int
  NR_IO_RANGE :: nat
  NR_MEM_RANGE :: nat
  NR_IRQ :: nat
  over_shift :: "32 word \<Rightarrow> nat \<Rightarrow> bool"      \<comment> \<open>\<^verbatim>\<open>mask & (1 << i)\<close> for \<^verbatim>\<open>i\<close> of 32 or more, undefined in C\<close>
  copy_priv :: "nat \<Rightarrow> nat \<Rightarrow> errno \<times> upriv"
  copy_range :: "nat \<Rightarrow> nat \<Rightarrow> errno \<times> (32 word \<times> 32 word)"
  copy_int :: "nat \<Rightarrow> nat \<Rightarrow> errno \<times> int"

abbreviation xp :: "xstate \<Rightarrow> nat \<Rightarrow> kproc" where
  "xp s i \<equiv> ip (xi s) i"

abbreviation xpriv :: "xstate \<Rightarrow> nat \<Rightarrow> kpriv" where
  "xpriv s i \<equiv> kprivs (ks (xi s)) ! i"

abbreviation privx :: "xstate \<Rightarrow> nat \<Rightarrow> nat" where
  "privx s i \<equiv> p_priv (xp s i)"

definition on_xi :: "(istate \<Rightarrow> istate option) \<Rightarrow> xstate \<Rightarrow> xstate option" where
  "on_xi f s = map_option (\<lambda>i. s\<lparr>xi := i\<rparr>) (f (xi s))"

definition upd_xp :: "nat \<Rightarrow> (kproc \<Rightarrow> kproc) \<Rightarrow> xstate \<Rightarrow> xstate" where
  "upd_xp i f s = s\<lparr>xi := upd_ip i f (xi s)\<rparr>"

definition upd_xpriv :: "nat \<Rightarrow> (kpriv \<Rightarrow> kpriv) \<Rightarrow> xstate \<Rightarrow> xstate" where
  "upd_xpriv i f s = s\<lparr>xi := upd_priv i f (xi s)\<rparr>"

definition upd_ext :: "nat \<Rightarrow> (pext \<Rightarrow> pext) \<Rightarrow> xstate \<Rightarrow> xstate" where
  "upd_ext i f s = s\<lparr>pexts := (pexts s)[i := f (pexts s ! i)]\<rparr>"

subsection \<open>Send masks\<close>

text \<open>
  The argument \<open>p\<close> is the slot of a process; \<^verbatim>\<open>priv(rp)\<close> is the privilege structure \<open>privx s p\<close>.
\<close>

definition set_sendto_bit :: "xcfg \<Rightarrow> nat \<Rightarrow> nat \<Rightarrow> xstate \<Rightarrow> xstate" where
  "set_sendto_bit c p i s =
     (let me = privx s p in
      if s_proc_nr (xpriv s i) = i_NONE (ic c) \<or> s_id (xpriv s me) = i then
        upd_xpriv me (\<lambda>r. r\<lparr>s_ipc_to := put_sys_bit (ic c) False i (s_ipc_to r)\<rparr>) s
      else
        let s1 = upd_xpriv me (\<lambda>r. r\<lparr>s_ipc_to := put_sys_bit (ic c) True i (s_ipc_to r)\<rparr>) s in
        if s_trap_mask (xpriv s1 i) AND NOT (push_bit (RECEIVE (ic c)) 1) \<noteq> 0 then
          upd_xpriv i (\<lambda>r. r\<lparr>s_ipc_to := put_sys_bit (ic c) True (s_id (xpriv s1 me)) (s_ipc_to r)\<rparr>) s1
        else s1)"

definition unset_sendto_bit :: "xcfg \<Rightarrow> nat \<Rightarrow> nat \<Rightarrow> xstate \<Rightarrow> xstate" where
  "unset_sendto_bit c p i s =
     (let me = privx s p;
          s1 = upd_xpriv me (\<lambda>r. r\<lparr>s_ipc_to := put_sys_bit (ic c) False i (s_ipc_to r)\<rparr>) s in
      upd_xpriv i (\<lambda>r. r\<lparr>s_ipc_to := put_sys_bit (ic c) False (s_id (xpriv s1 me)) (s_ipc_to r)\<rparr>) s1)"

definition mask_bit :: "xcfg \<Rightarrow> 32 word \<Rightarrow> nat \<Rightarrow> bool" where
  "mask_bit c m i = (if i < 32 then bit m i else over_shift c m i)"

lemma mask_bit_code [code]:
  "mask_bit c m i = (if i < 32 then m AND push_bit i 1 \<noteq> 0 else over_shift c m i)"
  using and_nonzero [of m "push_bit i 1"] by (auto simp: mask_bit_def bit_exp_iff)

definition fill_sendto_mask :: "xcfg \<Rightarrow> nat \<Rightarrow> 32 word \<Rightarrow> xstate \<Rightarrow> xstate" where
  "fill_sendto_mask c p m s =
     fold (\<lambda>i. if mask_bit c m i then set_sendto_bit c p i else unset_sendto_bit c p i)
       [0 ..< NR_SYS_PROCS (ic c)] s"

text \<open>\<^verbatim>\<open>memcpy(&ipc_to_m, &priv->s_ipc_to, sizeof(ipc_to_m))\<close> on a little-endian machine: the first 32 bits.\<close>

definition first_int :: "bool list list \<Rightarrow> 32 word" where
  "first_int m = horner_sum of_bool 2 (take 32 (concat m))"

subsection \<open>Privilege structures\<close>

definition get_priv :: "xcfg \<Rightarrow> nat \<Rightarrow> int \<Rightarrow> xstate \<Rightarrow> errno \<times> xstate" where
  "get_priv c p priv_id s =
     (let assign = (\<lambda>i. upd_xpriv i (\<lambda>r. r\<lparr>s_proc_nr := p_nr (xp s p)\<rparr>) (upd_xp p (\<lambda>r. r\<lparr>p_priv := i\<rparr>) s)) in
      if priv_id = NULL_PRIV_ID c then
        (case find (\<lambda>i. s_proc_nr (xpriv s i) = i_NONE (ic c)) [NR_STATIC_PRIV_IDS c ..< NR_SYS_PROCS (ic c)] of
           None \<Rightarrow> (ENOSPC, s)
         | Some i \<Rightarrow> (OK, assign i))
      else if \<not> is_static_priv_id c priv_id then (EINVAL, s)
      else if s_proc_nr (xpriv s (nat priv_id)) \<noteq> i_NONE (ic c) then (EBUSY, s)
      else (OK, assign (nat priv_id)))"

text \<open>The copy loops of \<^verbatim>\<open>update_priv\<close>: the first \<open>n\<close> entries of a table.\<close>

definition copy_tab :: "int \<Rightarrow> 'a list \<Rightarrow> 'a list \<Rightarrow> 'a list" where
  "copy_tab n src dst = take (nat n) src @ drop (nat n) dst"

definition update_irqs :: "xcfg \<Rightarrow> nat \<Rightarrow> upriv \<Rightarrow> xstate \<Rightarrow> xstate option" where
  "update_irqs c me u s =
     (if u_flags u AND CHECK_IRQ c = 0 then Some s
      else if u_nr_irq u < 0 \<or> u_nr_irq u > int (NR_IRQ c) then None
      else Some (upd_ext me (\<lambda>e. e\<lparr>s_nr_irq := u_nr_irq u,
                                s_irq_tab := copy_tab (u_nr_irq u) (u_irq_tab u) (s_irq_tab e)\<rparr>) s))"

definition update_io :: "xcfg \<Rightarrow> nat \<Rightarrow> upriv \<Rightarrow> xstate \<Rightarrow> xstate option" where
  "update_io c me u s =
     (if u_flags u AND CHECK_IO_PORT c = 0 then Some s
      else if u_nr_io_range u < 0 \<or> u_nr_io_range u > int (NR_IO_RANGE c) then None
      else Some (upd_ext me (\<lambda>e. e\<lparr>s_nr_io_range := u_nr_io_range u,
                                s_io_tab := copy_tab (u_nr_io_range u) (u_io_tab u) (s_io_tab e)\<rparr>) s))"

definition update_mem :: "xcfg \<Rightarrow> nat \<Rightarrow> upriv \<Rightarrow> xstate \<Rightarrow> xstate option" where
  "update_mem c me u s =
     (if u_flags u AND CHECK_MEM c = 0 then Some s
      else if u_nr_mem_range u < 0 \<or> u_nr_mem_range u > int (NR_MEM_RANGE c) then None
      else Some (upd_ext me (\<lambda>e. e\<lparr>s_nr_mem_range := u_nr_mem_range u,
                                s_mem_tab := copy_tab (u_nr_mem_range u) (u_mem_tab u) (s_mem_tab e)\<rparr>) s))"

text \<open>An early return of \<^verbatim>\<open>update_priv\<close> keeps what was written before it.\<close>

definition update_priv :: "xcfg \<Rightarrow> nat \<Rightarrow> upriv \<Rightarrow> xstate \<Rightarrow> errno \<times> xstate" where
  "update_priv c p u s =
     (let me = privx s p;
          s1 = upd_xpriv me (\<lambda>r. r\<lparr>s_flags := u_flags u, s_sig_mgr := u_sig_mgr u,
                                s_bak_sig_mgr := u_bak_sig_mgr u\<rparr>) s in
      case update_irqs c me u s1 of
        None \<Rightarrow> (EINVAL, s1)
      | Some s2 \<Rightarrow>
         (case update_io c me u s2 of
            None \<Rightarrow> (EINVAL, s2)
          | Some s3 \<Rightarrow>
             (case update_mem c me u s3 of
                None \<Rightarrow> (EINVAL, s3)
              | Some s4 \<Rightarrow>
                 (OK, upd_ext me (\<lambda>e. e\<lparr>s_k_call_mask := u_k_call_mask u\<rparr>)
                    (fill_sendto_mask c p (first_int (u_ipc_to u))
                      (upd_xpriv me (\<lambda>r. r\<lparr>s_trap_mask := u_trap_mask u\<rparr>) s4))))))"

subsection \<open>\<^verbatim>\<open>do_privctl\<close>\<close>

text \<open>
  \<^verbatim>\<open>SYS_PRIV_SET_SYS\<close>.  Note the order: \<^verbatim>\<open>get_priv\<close> links the process to its new structure before the structure of the
  caller is copied, and the default send mask is written last but for the remaining defaults.
\<close>

definition clear_map :: "bool list list \<Rightarrow> bool list list" where
  "clear_map m = List.map (List.map (\<lambda>_. False)) m"

definition set_defaults :: "xcfg \<Rightarrow> nat \<Rightarrow> nat \<Rightarrow> int \<Rightarrow> xstate \<Rightarrow> xstate" where
  "set_defaults c caller p proc_nr s =
     (let me = privx s p; src = xpriv s (privx s caller); srcx = pexts s ! privx s caller;
          s1 = upd_ext me (\<lambda>_. srcx\<lparr>s_alarm_set := False\<rparr>)
                (upd_xpriv me (\<lambda>r. src\<lparr>s_id := s_id r, s_proc_nr := proc_nr,
                   s_notify_pending := clear_map (s_notify_pending src), s_int_pending := {}, s_sig_pending := {},
                   s_asyntab := 2 ^ 32 - 1, s_asynsize := 0, s_flags := DSRV_F c, s_trap_mask := DSRV_T c\<rparr>) s);
          s2 = fill_sendto_mask c p (DSRV_M c) s1 in
      upd_ext me (\<lambda>e. e\<lparr>s_k_call_mask := List.map (\<lambda>_. DSRV_KC c \<noteq> NO_C c) (s_k_call_mask e),
           s_nr_io_range := 0, s_nr_mem_range := 0, s_nr_irq := 0, s_grant_table := 0, s_grant_entries := 0\<rparr>)
        (upd_xpriv me (\<lambda>r. r\<lparr>s_sig_mgr := DSRV_SM c, s_bak_sig_mgr := i_NONE (ic c)\<rparr>) s2))"

definition priv_set_sys :: "xcfg \<Rightarrow> nat \<Rightarrow> nat \<Rightarrow> int \<Rightarrow> nat \<Rightarrow> xstate \<Rightarrow> errno \<times> xstate" where
  "priv_set_sys c caller p proc_nr arg s =
     (let (r, u) = copy_priv c caller arg in
      if arg \<noteq> 0 \<and> r \<noteq> OK then (r, s)
      else
        let wanted = (if arg \<noteq> 0 \<and> u_flags u AND DYN_PRIV_ID c = 0 then u_id u else NULL_PRIV_ID c);
            (i, s1) = get_priv c p wanted s in
        if i \<noteq> OK then (i, s1)
        else
          let s2 = set_defaults c caller p proc_nr s1 in
          if arg \<noteq> 0 then update_priv c p u s2 else (OK, s2))"

definition no_priv :: "xstate \<Rightarrow> nat \<Rightarrow> bool" where
  "no_priv s p \<longleftrightarrow> RTS_ISSET (xp s p) RTS_NO_PRIV"

definition is_sys :: "xcfg \<Rightarrow> xstate \<Rightarrow> nat \<Rightarrow> bool" where
  "is_sys c s p \<longleftrightarrow> s_flags (xpriv s (privx s p)) AND SYS_PROC (ic c) \<noteq> 0"

text \<open>The requests that add a resource; the copies of I/O ranges and IRQ numbers are not checked.\<close>

definition add_flag :: "nat \<Rightarrow> 16 word \<Rightarrow> xstate \<Rightarrow> xstate" where
  "add_flag me f = upd_xpriv me (\<lambda>r. r\<lparr>s_flags := s_flags r OR f\<rparr>)"

definition priv_add_io :: "xcfg \<Rightarrow> nat \<Rightarrow> nat \<Rightarrow> nat \<Rightarrow> xstate \<Rightarrow> errno \<times> xstate" where
  "priv_add_io c caller p arg s =
     (if no_priv s p \<or> \<not> is_sys c s p then (EPERM, s)
      else
        let me = privx s p; io_range = snd (copy_range c caller arg);
            s1 = add_flag me (CHECK_IO_PORT c) s; i = s_nr_io_range (pexts s1 ! me) in
        if i \<ge> int (NR_IO_RANGE c) then (ENOMEM, s1)
        else (OK, upd_ext me (\<lambda>e. e\<lparr>s_io_tab := (s_io_tab e)[nat i := io_range], s_nr_io_range := i + 1\<rparr>) s1))"

definition priv_add_mem :: "xcfg \<Rightarrow> nat \<Rightarrow> nat \<Rightarrow> nat \<Rightarrow> xstate \<Rightarrow> errno \<times> xstate" where
  "priv_add_mem c caller p arg s =
     (if no_priv s p \<or> \<not> is_sys c s p then (EPERM, s)
      else
        let (r, mem_range) = copy_range c caller arg in
        if r \<noteq> OK then (r, s)
        else
          let me = privx s p; s1 = add_flag me (CHECK_MEM c) s; i = s_nr_mem_range (pexts s1 ! me) in
          if i \<ge> int (NR_MEM_RANGE c) then (ENOMEM, s1)
          else (OK, upd_ext me (\<lambda>e. e\<lparr>s_mem_tab := (s_mem_tab e)[nat i := mem_range], s_nr_mem_range := i + 1\<rparr>) s1))"

definition priv_add_irq :: "xcfg \<Rightarrow> nat \<Rightarrow> nat \<Rightarrow> nat \<Rightarrow> xstate \<Rightarrow> errno \<times> xstate" where
  "priv_add_irq c caller p arg s =
     (if no_priv s p \<or> \<not> is_sys c s p then (EPERM, s)
      else
        let me = privx s p; irq = snd (copy_int c caller arg);
            s1 = add_flag me (CHECK_IRQ c) s; i = s_nr_irq (pexts s1 ! me) in
        if i \<ge> int (NR_IRQ c) then (ENOMEM, s1)
        else (OK, upd_ext me (\<lambda>e. e\<lparr>s_irq_tab := (s_irq_tab e)[nat i := irq], s_nr_irq := i + 1\<rparr>) s1))"

text \<open>\<^verbatim>\<open>SYS_PRIV_QUERY_MEM\<close>, with the wrap-around of \<^verbatim>\<open>limit\<close>.\<close>

definition priv_query_mem :: "xcfg \<Rightarrow> nat \<Rightarrow> 32 word \<Rightarrow> 32 word \<Rightarrow> xstate \<Rightarrow> errno" where
  "priv_query_mem c p start len s =
     (let limit = start + len - 1; e = pexts s ! privx s p in
      if limit < start then EPERM
      else if \<not> is_sys c s p then EPERM
      else if list_ex (\<lambda>(base, lim). start \<ge> base \<and> limit \<le> lim) (take (nat (s_nr_mem_range e)) (s_mem_tab e))
      then OK else EPERM)"

definition SET_NO_PRIV :: "nat \<Rightarrow> xstate \<Rightarrow> xstate option" where
  "SET_NO_PRIV p = on_xi (SET_RTS p RTS_NO_PRIV)"

definition UNSET_NO_PRIV :: "xcfg \<Rightarrow> nat \<Rightarrow> xstate \<Rightarrow> xstate option" where
  "UNSET_NO_PRIV c p = on_xi (UNSET_RTS (ic c) p RTS_NO_PRIV)"

definition privctl_request :: "xcfg \<Rightarrow> nat \<Rightarrow> nat \<Rightarrow> int \<Rightarrow> kmsg \<Rightarrow> xstate \<Rightarrow> (errno \<times> xstate) option" where
  "privctl_request c caller p proc_nr m s =
     (let ready = no_priv s p \<and> s_proc_nr (xpriv s (privx s p)) \<noteq> i_NONE (ic c) in
      case ctl_request c (m_i2 m) of
        SYS_PRIV_ALLOW \<Rightarrow>
          if \<not> ready then Some (EPERM, s) else map_option (Pair OK) (UNSET_NO_PRIV c p s)
      | SYS_PRIV_YIELD \<Rightarrow>
          if \<not> ready then Some (EPERM, s)
          else map_option (Pair OK) (SET_NO_PRIV caller s \<bind> UNSET_NO_PRIV c p)
      | SYS_PRIV_DISALLOW \<Rightarrow>
          if no_priv s p then Some (EPERM, s) else map_option (Pair OK) (SET_NO_PRIV p s)
      | SYS_PRIV_SET_SYS \<Rightarrow>
          Some (if \<not> no_priv s p then (EPERM, s) else priv_set_sys c caller p proc_nr (m_p1 m) s)
      | SYS_PRIV_SET_USER \<Rightarrow>
          Some (if \<not> no_priv s p then (EPERM, s)
                else (OK, upd_xp p (\<lambda>r. r\<lparr>p_priv := USER_PRIV_ID (ic c)\<rparr>) s))
      | SYS_PRIV_ADD_IO \<Rightarrow> Some (priv_add_io c caller p (m_p1 m) s)
      | SYS_PRIV_ADD_MEM \<Rightarrow> Some (priv_add_mem c caller p (m_p1 m) s)
      | SYS_PRIV_ADD_IRQ \<Rightarrow> Some (priv_add_irq c caller p (m_p1 m) s)
      | SYS_PRIV_QUERY_MEM \<Rightarrow> Some (priv_query_mem c p (m_l1 m) (m_l2 m) s, s)
      | SYS_PRIV_UPDATE_SYS \<Rightarrow>
          Some (if m_p1 m = 0 then (EINVAL, s)
                else let (r, u) = copy_priv c caller (m_p1 m) in
                     if r \<noteq> OK then (r, s) else update_priv c p u s)
      | CTL_UNKNOWN \<Rightarrow> Some (EINVAL, s))"

definition do_privctl :: "xcfg \<Rightarrow> nat \<Rightarrow> kmsg \<Rightarrow> xstate \<Rightarrow> (errno \<times> kmsg \<times> xstate) option" where
  "do_privctl c caller m s =
     (let target = (if m_i1 m = SELF (ic c)
                    then Some (slot (kc (ic c)) (k_ENDPOINT_P (kc (ic c)) (p_endpoint (xp s caller))))
                    else isokendpt (kc (ic c)) (ks (xi s)) (m_i1 m)) in
      if \<not> is_sys c s caller then Some (EPERM, m, s)
      else case target of
        None \<Rightarrow> Some (EINVAL, m, s)
      | Some p \<Rightarrow> map_option (\<lambda>(r, s'). (r, m, s'))
                   (privctl_request c caller p (int p - int (k_NR_TASKS (kc (ic c)))) m s))"

subsection \<open>The state without its send masks\<close>

definition no_masks :: "xstate \<Rightarrow> xstate" where
  "no_masks s = s\<lparr>xi := (xi s)\<lparr>ks := (ks (xi s))\<lparr>kprivs := List.map (\<lambda>r. r\<lparr>s_ipc_to := []\<rparr>) (kprivs (ks (xi s)))\<rparr>\<rparr>\<rparr>"

lemma map_update_same: "f (g (xs ! i)) = f (xs ! i) \<Longrightarrow> List.map f (xs[i := g (xs ! i)]) = List.map f xs"
  by (cases "i < length xs") (simp_all add: map_update list_update_beyond, metis list_update_id nth_map)

lemma no_masks_upd [simp]:
  "no_masks (upd_xpriv i (\<lambda>r. r\<lparr>s_ipc_to := f r\<rparr>) s) = no_masks s"
  by (simp add: no_masks_def upd_xpriv_def upd_priv_def map_update_same)

lemma no_masks_fields:
  assumes "no_masks s' = no_masks s"
  shows "kprocs (ks (xi s')) = kprocs (ks (xi s))" "length (kprivs (ks (xi s'))) = length (kprivs (ks (xi s)))"
    "pexts s' = pexts s" "xintr s' = xintr s" "pslots s' = pslots s"
    "umem s' = umem s" "fpu_owner s' = fpu_owner s" "utab (xi s') = utab (xi s)"
proof -
  have "kprocs (ks (xi (no_masks s'))) = kprocs (ks (xi (no_masks s)))"
    "kprivs (ks (xi (no_masks s'))) = kprivs (ks (xi (no_masks s)))"
    "pexts (no_masks s') = pexts (no_masks s)" "xintr (no_masks s') = xintr (no_masks s)" "pslots (no_masks s') = pslots (no_masks s)"
    "umem (no_masks s') = umem (no_masks s)" "fpu_owner (no_masks s') = fpu_owner (no_masks s)"
    "utab (xi (no_masks s')) = utab (xi (no_masks s))"
    by (simp_all add: assms)
  then show "kprocs (ks (xi s')) = kprocs (ks (xi s))" "length (kprivs (ks (xi s'))) = length (kprivs (ks (xi s)))"
    "pexts s' = pexts s" "xintr s' = xintr s" "pslots s' = pslots s"
    "umem s' = umem s" "fpu_owner s' = fpu_owner s" "utab (xi s') = utab (xi s)"
    unfolding no_masks_def by (simp_all, metis length_map)
qed

lemma no_masks_priv:
  assumes "no_masks s' = no_masks s" "i < length (kprivs (ks (xi s)))"
  shows "s_id (xpriv s' i) = s_id (xpriv s i)" "s_proc_nr (xpriv s' i) = s_proc_nr (xpriv s i)"
    "s_trap_mask (xpriv s' i) = s_trap_mask (xpriv s i)" "s_flags (xpriv s' i) = s_flags (xpriv s i)"
    "s_sig_mgr (xpriv s' i) = s_sig_mgr (xpriv s i)" "s_bak_sig_mgr (xpriv s' i) = s_bak_sig_mgr (xpriv s i)"
proof -
  have "kprivs (ks (xi (no_masks s'))) ! i = kprivs (ks (xi (no_masks s))) ! i" by (simp add: assms(1))
  then have "(xpriv s' i)\<lparr>s_ipc_to := []\<rparr> = (xpriv s i)\<lparr>s_ipc_to := []\<rparr>"
    using assms(2) no_masks_fields(2) [OF assms(1)] by (simp add: no_masks_def)
  then show "s_id (xpriv s' i) = s_id (xpriv s i)" "s_proc_nr (xpriv s' i) = s_proc_nr (xpriv s i)"
    "s_trap_mask (xpriv s' i) = s_trap_mask (xpriv s i)" "s_flags (xpriv s' i) = s_flags (xpriv s i)"
    "s_sig_mgr (xpriv s' i) = s_sig_mgr (xpriv s i)" "s_bak_sig_mgr (xpriv s' i) = s_bak_sig_mgr (xpriv s i)"
    by (cases "xpriv s' i"; cases "xpriv s i"; simp)+
qed

lemma no_masks_sendto [simp]:
  "no_masks (set_sendto_bit c p i s) = no_masks s" "no_masks (unset_sendto_bit c p i s) = no_masks s"
  by (simp_all add: set_sendto_bit_def unset_sendto_bit_def Let_def)

lemma no_masks_fold:
  "no_masks (fold (\<lambda>i. if b i then set_sendto_bit c p i else unset_sendto_bit c p i) is s) = no_masks s"
  by (induction "is" arbitrary: s) simp_all

lemma no_masks_fill: "no_masks (fill_sendto_mask c p m s) = no_masks s"
  by (simp add: fill_sendto_mask_def no_masks_fold)

subsection \<open>Well-formed privilege tables\<close>

abbreviation NR :: "xcfg \<Rightarrow> nat" where
  "NR c \<equiv> NR_SYS_PROCS (ic c)"

definition mask_shape :: "xcfg \<Rightarrow> bool list list \<Rightarrow> bool" where
  "mask_shape c m \<longleftrightarrow>
     list_all (\<lambda>b. b div BITCHUNK_BITS (ic c) < length m \<and>
       b mod BITCHUNK_BITS (ic c) < length (m ! (b div BITCHUNK_BITS (ic c)))) [0 ..< NR c]"

definition priv_wf :: "xcfg \<Rightarrow> xstate \<Rightarrow> bool" where
  "priv_wf c s \<longleftrightarrow>
     length (kprivs (ks (xi s))) = NR c \<and>
     list_all (\<lambda>i. s_id (xpriv s i) = i \<and> mask_shape c (s_ipc_to (xpriv s i))) [0 ..< NR c] \<and>
     list_all (\<lambda>p. p_priv p < NR c) (kprocs (ks (xi s)))"

definition xcfg_ok :: "xcfg \<Rightarrow> bool" where
  "xcfg_ok c \<longleftrightarrow> 0 < BITCHUNK_BITS (ic c) \<and> USER_PRIV_ID (ic c) < NR c \<and> (\<forall>n. is_static_priv_id c n \<longrightarrow> 0 \<le> n \<and> n < int (NR c))"

lemma priv_wfD:
  assumes "priv_wf c s"
  shows "length (kprivs (ks (xi s))) = NR c" "i < NR c \<Longrightarrow> s_id (xpriv s i) = i"
    "i < NR c \<Longrightarrow> mask_shape c (s_ipc_to (xpriv s i))" "p < length (kprocs (ks (xi s))) \<Longrightarrow> privx s p < NR c"
  using assms by (auto simp: priv_wf_def list_all_iff)

lemma get_put_bit:
  assumes "mask_shape c m" "i < NR c" "j < NR c" "0 < BITCHUNK_BITS (ic c)"
  shows "get_sys_bit (ic c) (put_sys_bit (ic c) v i m) j = (if i = j then v else get_sys_bit (ic c) m j)"
proof -
  let ?B = "BITCHUNK_BITS (ic c)"
  have s: "i div ?B < length m" "i mod ?B < length (m ! (i div ?B))" using assms by (auto simp: mask_shape_def list_all_iff)
  have "i = j \<longleftrightarrow> i div ?B = j div ?B \<and> i mod ?B = j mod ?B" by (metis div_mult_mod_eq)
  then show ?thesis using s by (auto simp: get_sys_bit_def put_sys_bit_def nth_list_update)
qed

lemma mask_shape_put: "mask_shape c m \<Longrightarrow> mask_shape c (put_sys_bit (ic c) v i m)"
  by (cases "i div BITCHUNK_BITS (ic c) < length m")
    (auto simp: mask_shape_def list_all_iff put_sys_bit_def nth_list_update list_update_beyond)

definition live :: "xcfg \<Rightarrow> xstate \<Rightarrow> nat \<Rightarrow> bool" where
  "live c s i \<longleftrightarrow> s_proc_nr (xpriv s i) \<noteq> i_NONE (ic c)"

definition sends :: "xcfg \<Rightarrow> xstate \<Rightarrow> nat \<Rightarrow> nat \<Rightarrow> bool" where
  "sends c s i j \<longleftrightarrow> get_sys_bit (ic c) (s_ipc_to (xpriv s i)) j"

definition talks :: "xcfg \<Rightarrow> xstate \<Rightarrow> nat \<Rightarrow> bool" where
  "talks c s i \<longleftrightarrow> s_trap_mask (xpriv s i) AND NOT (push_bit (RECEIVE (ic c)) 1) \<noteq> 0"

lemma xpriv_upd:
  "i < length (kprivs (ks (xi s))) \<Longrightarrow> xpriv (upd_xpriv i f s) i = f (xpriv s i)"
  "j \<noteq> i \<Longrightarrow> xpriv (upd_xpriv i f s) j = xpriv s j"
  by (simp_all add: upd_xpriv_def upd_priv_def)

lemma upd_xpriv_simps [simp]:
  "kprocs (ks (xi (upd_xpriv i f s))) = kprocs (ks (xi s))"
  "length (kprivs (ks (xi (upd_xpriv i f s)))) = length (kprivs (ks (xi s)))"
  "pexts (upd_xpriv i f s) = pexts s"
  by (simp_all add: upd_xpriv_def upd_priv_def)

text \<open>One bit of one mask is written.\<close>

lemma put_bit:
  fixes v :: bool
  assumes W: "priv_wf c s" "xcfg_ok c" and i: "i < NR c" "j < NR c"
  defines "t \<equiv> upd_xpriv i (\<lambda>r. r\<lparr>s_ipc_to := put_sys_bit (ic c) v j (s_ipc_to r)\<rparr>) s"
  shows "priv_wf c t" "k < NR c \<Longrightarrow> l < NR c \<Longrightarrow> sends c t k l = (if k = i \<and> l = j then v else sends c s k l)"
proof -
  have t: "xpriv t k = (if k = i then (xpriv s i)\<lparr>s_ipc_to := put_sys_bit (ic c) v j (s_ipc_to (xpriv s i))\<rparr> else xpriv s k)" for k
    using priv_wfD(1) [OF W(1)] i by (simp add: t_def xpriv_upd)
  have tk: "kprocs (ks (xi t)) = kprocs (ks (xi s))" "length (kprivs (ks (xi t))) = length (kprivs (ks (xi s)))"
    by (simp_all add: t_def)
  show "priv_wf c t"
    using W(1) mask_shape_put unfolding priv_wf_def list_all_iff by (auto simp: t tk)
  show "sends c t k l = (if k = i \<and> l = j then v else sends c s k l)" if "k < NR c" "l < NR c"
    using get_put_bit [OF priv_wfD(3) [OF W(1) i(1)] i(2) that(2)] W(2) by (auto simp: sends_def t xcfg_ok_def)
qed

subsection \<open>What \<^verbatim>\<open>fill_sendto_mask\<close> does\<close>

lemma no_masks_static:
  assumes "no_masks s' = no_masks s" "i < length (kprivs (ks (xi s)))"
  shows "live c s' i = live c s i" "talks c s' i = talks c s i"
  using no_masks_priv [OF assms] by (simp_all add: live_def talks_def)

lemma privx_no_masks: "no_masks s' = no_masks s \<Longrightarrow> privx s' p = privx s p"
  using no_masks_fields(1) by metis

lemma sendto_effect:
  fixes b :: bool
  assumes W: "priv_wf c s" "xcfg_ok c" and p: "p < length (kprocs (ks (xi s)))" and i: "i < NR c"
  defines "me \<equiv> privx s p"
  defines "t \<equiv> (if b then set_sendto_bit c p i s else unset_sendto_bit c p i s)"
  shows "priv_wf c t"
    "k < NR c \<Longrightarrow> l < NR c \<Longrightarrow> sends c t k l =
       (if k = me \<and> l = i then b \<and> i \<noteq> me \<and> live c s i
        else if k = i \<and> l = me then b \<and> (live c s i \<and> talks c s i \<or> sends c s i me)
        else sends c s k l)"
proof -
  have me: "me < NR c" using priv_wfD(4) [OF W(1) p] by (simp add: me_def)
  have sid: "s_id (xpriv s me) = me" by (rule priv_wfD(2) [OF W(1) me])
  define u where "u = (\<lambda>v. upd_xpriv me (\<lambda>r. r\<lparr>s_ipc_to := put_sys_bit (ic c) v i (s_ipc_to r)\<rparr>) s)"
  have U: "priv_wf c (u v)" "k < NR c \<Longrightarrow> l < NR c \<Longrightarrow> sends c (u v) k l = (if k = me \<and> l = i then v else sends c s k l)" for v k l
    using put_bit [OF W me i, where v = v] by (simp_all add: u_def)
  have nu: "no_masks (u v) = no_masks s" for v by (simp add: u_def)
  have ilen: "i < length (kprivs (ks (xi s)))" "me < length (kprivs (ks (xi s)))"
    using priv_wfD(1) [OF W(1)] i me by simp_all
  have idu: "s_id (xpriv (u v) me) = me" "s_trap_mask (xpriv (u v) i) = s_trap_mask (xpriv s i)" for v
    using no_masks_priv [OF nu] ilen sid by simp_all
  define w where "w = (\<lambda>v v'. upd_xpriv i (\<lambda>r. r\<lparr>s_ipc_to := put_sys_bit (ic c) v' me (s_ipc_to r)\<rparr>) (u v))"
  have X: "priv_wf c (w v v')" "k < NR c \<Longrightarrow> l < NR c \<Longrightarrow> sends c (w v v') k l =
      (if k = i \<and> l = me then v' else if k = me \<and> l = i then v else sends c s k l)" for v v' k l
    using put_bit [OF U(1) W(2) i me, where v = v'] U(2) by (simp_all add: w_def)
  have ueq: "upd_xpriv me (\<lambda>r. r\<lparr>s_ipc_to := put_sys_bit (ic c) True i (s_ipc_to r)\<rparr>) s = u True"
      "upd_xpriv me (\<lambda>r. r\<lparr>s_ipc_to := put_sys_bit (ic c) False i (s_ipc_to r)\<rparr>) s = u False"
    and weq: "upd_xpriv i (\<lambda>r. r\<lparr>s_ipc_to := put_sys_bit (ic c) True me (s_ipc_to r)\<rparr>) (u v) = w v True"
      "upd_xpriv i (\<lambda>r. r\<lparr>s_ipc_to := put_sys_bit (ic c) False me (s_ipc_to r)\<rparr>) (u v) = w v False" for v
    by (simp_all add: u_def w_def)
  have t: "t = (if \<not> b then w False False else if \<not> live c s i \<or> me = i then u False
      else if talks c s i then w True True else u True)"
    unfolding t_def set_sendto_bit_def unset_sendto_bit_def Let_def me_def [symmetric] ueq sid idu weq live_def talks_def
    by simp
  show "priv_wf c t" using U(1) X(1) by (simp add: t)
  show "sends c t k l =
       (if k = me \<and> l = i then b \<and> i \<noteq> me \<and> live c s i
        else if k = i \<and> l = me then b \<and> (live c s i \<and> talks c s i \<or> sends c s i me)
        else sends c s k l)" if "k < NR c" "l < NR c"
  proof (cases "me = i")
    case True
    then show ?thesis unfolding t using U(2) [OF i i] X(2) [OF i i] by (auto simp: U(2) [OF that] X(2) [OF that])
  next
    case False
    then show ?thesis
      unfolding t by (cases b; cases "live c s i"; cases "talks c s i") (simp_all add: U(2) [OF that] X(2) [OF that])
  qed
qed

lemma fill_effect:
  fixes b :: "nat \<Rightarrow> bool"
  assumes W: "priv_wf c s" "xcfg_ok c" and p: "p < length (kprocs (ks (xi s)))"
  defines "me \<equiv> privx s p"
  shows "distinct is \<Longrightarrow> set is \<subseteq> {..< NR c} \<Longrightarrow>
    (let t = fold (\<lambda>i. if b i then set_sendto_bit c p i else unset_sendto_bit c p i) is s in
     priv_wf c t \<and> (\<forall>k < NR c. \<forall>l < NR c. sends c t k l =
       (if k = me \<and> l \<in> set is then b l \<and> l \<noteq> me \<and> live c s l
        else if l = me \<and> k \<in> set is then b k \<and> (live c s k \<and> talks c s k \<or> sends c s k me)
        else sends c s k l)))"
proof (induction "is" rule: rev_induct)
  case Nil
  with W show ?case by simp
next
  case (snoc i "is")
  define t where "t = fold (\<lambda>i. if b i then set_sendto_bit c p i else unset_sendto_bit c p i) is s"
  have nm: "no_masks t = no_masks s" by (simp add: t_def no_masks_fold)
  have IH: "priv_wf c t" "\<And>k l. k < NR c \<Longrightarrow> l < NR c \<Longrightarrow> sends c t k l =
       (if k = me \<and> l \<in> set is then b l \<and> l \<noteq> me \<and> live c s l
        else if l = me \<and> k \<in> set is then b k \<and> (live c s k \<and> talks c s k \<or> sends c s k me)
        else sends c s k l)"
    using snoc by (simp_all add: t_def Let_def)
  have i: "i < NR c" "i \<notin> set is" using snoc.prems by auto
  have ilen: "i < length (kprivs (ks (xi s)))" using priv_wfD(1) [OF W(1)] i by simp
  have pt: "p < length (kprocs (ks (xi t)))" "privx t p = me"
    using p no_masks_fields(1) [OF nm] by (simp_all add: me_def)
  note E = sendto_effect [OF IH(1) W(2) pt(1) i(1), where b = "b i", unfolded pt(2)]
  have "sends c (if b i then set_sendto_bit c p i t else unset_sendto_bit c p i t) k l =
       (if k = me \<and> l \<in> set (is @ [i]) then b l \<and> l \<noteq> me \<and> live c s l
        else if l = me \<and> k \<in> set (is @ [i]) then b k \<and> (live c s k \<and> talks c s k \<or> sends c s k me)
        else sends c s k l)" if kl: "k < NR c" "l < NR c" for k l
    using E(2) [OF kl] IH(2) [OF kl] IH(2) [OF i(1), of me] priv_wfD(4) [OF W(1) p] i(2)
      no_masks_static [OF nm ilen] unfolding me_def [symmetric] by (auto simp: fun_eq_iff)
  moreover have "fold (\<lambda>i. if b i then set_sendto_bit c p i else unset_sendto_bit c p i) (is @ [i]) s =
      (if b i then set_sendto_bit c p i t else unset_sendto_bit c p i t)"
    by (simp add: t_def)
  ultimately show ?case unfolding Let_def using E(1) by presburger
qed

text \<open>
  Send masks are symmetric: when a process may send to another live one that can do more than receive, it may
  be answered.  And no mask lets a process send to itself.
\<close>

definition masks_ok :: "xcfg \<Rightarrow> xstate \<Rightarrow> bool" where
  "masks_ok c s \<longleftrightarrow>
     list_all (\<lambda>i. \<not> (live c s i \<and> sends c s i i) \<and>
       list_all (\<lambda>j. \<not> (live c s i \<and> live c s j \<and> sends c s i j \<and> talks c s j) \<or> sends c s j i) [0 ..< NR c])
       [0 ..< NR c]"

lemma masks_ok_iff:
  "masks_ok c s \<longleftrightarrow> (\<forall>i < NR c. live c s i \<longrightarrow> \<not> sends c s i i) \<and>
     (\<forall>i < NR c. \<forall>j < NR c. live c s i \<longrightarrow> live c s j \<longrightarrow> sends c s i j \<longrightarrow> talks c s j \<longrightarrow> sends c s j i)"
  by (auto simp: masks_ok_def list_all_iff)

text \<open>
  After \<^verbatim>\<open>fill_sendto_mask\<close> the pairs of the process that was updated are in order, whatever they were; so it is
  enough that the pairs of all others were.
\<close>

lemma fill_masks_ok:
  fixes m :: "32 word"
  assumes W: "priv_wf c s" "xcfg_ok c" and p: "p < length (kprocs (ks (xi s)))"
    and M: "\<And>i. i < NR c \<Longrightarrow> i \<noteq> privx s p \<Longrightarrow> live c s i \<Longrightarrow> \<not> sends c s i i"
      "\<And>i j. i < NR c \<Longrightarrow> j < NR c \<Longrightarrow> i \<noteq> privx s p \<Longrightarrow> j \<noteq> privx s p \<Longrightarrow>
        live c s i \<Longrightarrow> live c s j \<Longrightarrow> sends c s i j \<Longrightarrow> talks c s j \<Longrightarrow> sends c s j i"
  defines "t \<equiv> fill_sendto_mask c p m s"
  shows "priv_wf c t \<and> masks_ok c t"
proof -
  let ?me = "privx s p"
  have "set [0 ..< NR c] \<subseteq> {..< NR c}" by auto
  note E = fill_effect [OF W p distinct_upt this, where b = "mask_bit c m", unfolded Let_def,
      folded fill_sendto_mask_def, folded t_def]
  have F: "priv_wf c t" "\<And>k l. k < NR c \<Longrightarrow> l < NR c \<Longrightarrow> sends c t k l =
       (if k = ?me then mask_bit c m l \<and> l \<noteq> ?me \<and> live c s l
        else if l = ?me then mask_bit c m k \<and> (live c s k \<and> talks c s k \<or> sends c s k ?me)
        else sends c s k l)"
    using E by simp_all
  have nm: "no_masks t = no_masks s" by (simp add: t_def no_masks_fill)
  have st: "live c t i = live c s i" "talks c t i = talks c s i" if "i < NR c" for i
    using no_masks_static [OF nm, of i c] that priv_wfD(1) [OF W(1)] by simp_all
  have "masks_ok c t"
    unfolding masks_ok_iff
  proof (intro conjI allI impI)
    fix i assume "i < NR c" "live c t i"
    then show "\<not> sends c t i i" using F(2) [of i i] M(1) [of i] st by auto
  next
    fix i j assume *: "i < NR c" "j < NR c" "live c t i" "live c t j" "sends c t i j" "talks c t j"
    then show "sends c t j i" using F(2) [of i j] F(2) [of j i] M(2) [of i j] st by (auto split: if_split_asm)
  qed
  with F(1) show ?thesis by simp
qed

subsection \<open>\<^verbatim>\<open>do_privctl\<close> keeps the send masks symmetric\<close>

definition others_ok :: "xcfg \<Rightarrow> nat \<Rightarrow> xstate \<Rightarrow> bool" where
  "others_ok c me s \<longleftrightarrow> (\<forall>i < NR c. i \<noteq> me \<longrightarrow> live c s i \<longrightarrow> \<not> sends c s i i) \<and>
     (\<forall>i < NR c. \<forall>j < NR c. i \<noteq> me \<longrightarrow> j \<noteq> me \<longrightarrow>
        live c s i \<longrightarrow> live c s j \<longrightarrow> sends c s i j \<longrightarrow> talks c s j \<longrightarrow> sends c s j i)"

lemma others_okI: "masks_ok c s \<Longrightarrow> others_ok c me s"
  by (simp add: masks_ok_iff others_ok_def)

lemma others_ok_cong:
  assumes "others_ok c me s" "\<And>i. i < NR c \<Longrightarrow> i \<noteq> me \<Longrightarrow> xpriv s' i = xpriv s i"
  shows "others_ok c me s'"
proof -
  have same: "live c s' i = live c s i" "sends c s' i j = sends c s i j" "talks c s' i = talks c s i"
      if "i < NR c" "i \<noteq> me" for i j
    unfolding live_def sends_def talks_def assms(2) [OF that] by (rule refl)+
  show ?thesis unfolding others_ok_def
  proof (intro conjI allI impI)
    show "\<not> sends c s' i i" if "i < NR c" "i \<noteq> me" "live c s' i" for i
      using assms(1) same [OF that(1,2)] that unfolding others_ok_def by simp
    show "sends c s' j i" if "i < NR c" "j < NR c" "i \<noteq> me" "j \<noteq> me" "live c s' i" "live c s' j" "sends c s' i j" "talks c s' j" for i j
      using assms(1) same [OF that(1,3)] same [OF that(2,4)] that unfolding others_ok_def by simp
  qed
qed

lemma fill_ok:
  assumes "priv_wf c s" "xcfg_ok c" "p < length (kprocs (ks (xi s)))" "others_ok c (privx s p) s"
  shows "priv_wf c (fill_sendto_mask c p m s) \<and> masks_ok c (fill_sendto_mask c p m s)"
  using assms(4) unfolding others_ok_def by (intro fill_masks_ok [OF assms(1-3)]) simp_all

text \<open>The invariant only depends on the privilege table and on the link from processes to it.\<close>

definition priv_ok :: "xcfg \<Rightarrow> xstate \<Rightarrow> bool" where
  "priv_ok c s \<longleftrightarrow> priv_wf c s \<and> masks_ok c s"

lemma priv_ok_cong:
  assumes "kprivs (ks (xi s')) = kprivs (ks (xi s))" "List.map p_priv (kprocs (ks (xi s'))) = List.map p_priv (kprocs (ks (xi s)))"
  shows "priv_wf c s' = priv_wf c s" "masks_ok c s' = masks_ok c s" "others_ok c me s' = others_ok c me s"
proof -
  have "list_all (\<lambda>p. p_priv p < NR c) xs = list_all (\<lambda>i. i < NR c) (List.map p_priv xs)" for xs by (simp add: list_all_iff)
  note eq = this [of "kprocs (ks (xi s))"] this [of "kprocs (ks (xi s'))"]
  have "list_all (\<lambda>p. p_priv p < NR c) (kprocs (ks (xi s'))) = list_all (\<lambda>p. p_priv p < NR c) (kprocs (ks (xi s)))"
    unfolding eq assms(2) ..
  then show "priv_wf c s' = priv_wf c s" unfolding priv_wf_def assms(1) by simp
  show "masks_ok c s' = masks_ok c s" "others_ok c me s' = others_ok c me s"
    using assms(1) by (simp_all add: masks_ok_def others_ok_def live_def sends_def talks_def)
qed

lemma upd_ext_ok [simp]:
  "priv_wf c (upd_ext i f s) = priv_wf c s" "masks_ok c (upd_ext i f s) = masks_ok c s"
  "others_ok c me (upd_ext i f s) = others_ok c me s" "xi (upd_ext i f s) = xi s"
  by (simp_all add: upd_ext_def priv_wf_def masks_ok_def others_ok_def live_def sends_def talks_def)

lemma rts_ok:
  assumes "SET_NO_PRIV p s = Some s' \<or> UNSET_NO_PRIV c p s = Some s'"
  shows "priv_ok d s' = priv_ok d s"
proof -
  obtain i where i: "SET_RTS p RTS_NO_PRIV (xi s) = Some i \<or> UNSET_RTS (ic c) p RTS_NO_PRIV (xi s) = Some i" "s' = s\<lparr>xi := i\<rparr>"
    using assms by (auto simp: SET_NO_PRIV_def UNSET_NO_PRIV_def on_xi_def)
  have "same_core (ks (xi s)) (ks i)"
    using i(1) by (auto elim!: SET_RTS_cases UNSET_RTS_cases dest: RTS_frames)
  with i(2) obtain k where k: "same_core (ks (xi s)) k" "ks (xi s') = k" by simp
  have "List.map p_priv (kprocs k) = List.map p_priv (kprocs (ks (xi s)))"
  proof (rule nth_equalityI)
    show "List.map p_priv (kprocs k) ! x = List.map p_priv (kprocs (ks (xi s))) ! x"
      if "x < length (List.map p_priv (kprocs k))" for x
      using that coreD(2) [OF same_core_fields(4) [OF k(1), of x]] same_core_fields(1) [OF k(1)] by simp
  qed (simp add: same_core_fields(1) [OF k(1)])
  then show ?thesis using priv_ok_cong [of s' s] k(2) same_core_fields(2) [OF k(1)] by (simp add: priv_ok_def)
qed

text \<open>Updates of one privilege structure that keep its id, its mask, and what \<^verbatim>\<open>set_sendto_bit\<close> looks at.\<close>

lemma upd_xpriv_wf:
  assumes "priv_wf c s" "\<And>r. s_id (f r) = s_id r" "\<And>r. mask_shape c (s_ipc_to r) \<Longrightarrow> mask_shape c (s_ipc_to (f r))"
  shows "priv_wf c (upd_xpriv i f s)"
proof -
  have "xpriv (upd_xpriv i f s) k = (if k = i then f (xpriv s i) else xpriv s k)" if "k < NR c" for k
    using that priv_wfD(1) [OF assms(1)] by (auto simp: xpriv_upd)
  then show ?thesis using assms unfolding priv_wf_def list_all_iff by auto
qed

lemma upd_xpriv_quiet:
  assumes "\<And>r. s_proc_nr (f r) = s_proc_nr r" "\<And>r. s_ipc_to (f r) = s_ipc_to r" "\<And>r. s_trap_mask (f r) = s_trap_mask r"
  shows "masks_ok c (upd_xpriv i f s) = masks_ok c s"
proof -
  have "s_proc_nr (xpriv (upd_xpriv i f s) k) = s_proc_nr (xpriv s k)" "s_ipc_to (xpriv (upd_xpriv i f s) k) = s_ipc_to (xpriv s k)"
    "s_trap_mask (xpriv (upd_xpriv i f s) k) = s_trap_mask (xpriv s k)" for k
    by (cases "i < length (kprivs (ks (xi s)))"; cases "k = i";
        simp add: assms upd_xpriv_def upd_priv_def list_update_beyond)+
  then show ?thesis by (simp add: masks_ok_def live_def sends_def talks_def)
qed

lemma upd_others: "others_ok c i s \<Longrightarrow> others_ok c i (upd_xpriv i f s)"
  by (erule others_ok_cong) (simp add: xpriv_upd(2))

lemma privx_upd [simp]: "privx (upd_xpriv i f s) p = privx s p"
  by simp

lemma get_priv_ok:
  assumes P: "priv_ok c s" and C: "xcfg_ok c" and g: "get_priv c p i s = (r, s')"
    and p: "p < length (kprocs (ks (xi s)))"
  shows "length (kprocs (ks (xi s'))) = length (kprocs (ks (xi s))) \<and>
    (if r = OK then priv_wf c s' \<and> others_ok c (privx s' p) s' else s' = s)"
proof -
  define assign where "assign = (\<lambda>i. upd_xpriv i (\<lambda>r. r\<lparr>s_proc_nr := p_nr (xp s p)\<rparr>) (upd_xp p (\<lambda>r. r\<lparr>p_priv := i\<rparr>) s))"
  have W: "priv_wf c s" "masks_ok c s" using P by (simp_all add: priv_ok_def)
  have A: "priv_wf c (assign j) \<and> others_ok c (privx (assign j) p) (assign j)" if j: "j < NR c" for j
  proof -
    define t where "t = upd_xp p (\<lambda>r. r\<lparr>p_priv := j\<rparr>) s"
    have t: "kprivs (ks (xi t)) = kprivs (ks (xi s))" "kprocs (ks (xi t)) = (kprocs (ks (xi s)))[p := (xp s p)\<lparr>p_priv := j\<rparr>]"
      by (simp_all add: t_def upd_xp_def upd_ip_def upd_kp_def)
    have wt: "priv_wf c t"
      using W(1) j set_update_subset_insert [of "kprocs (ks (xi s))" p "(xp s p)\<lparr>p_priv := j\<rparr>"]
      unfolding priv_wf_def t list_all_iff by auto
    have "others_ok c j t" by (rule others_ok_cong [OF others_okI [OF W(2)]]) (simp add: t)
    then have "others_ok c j (assign j)" unfolding assign_def t_def [symmetric] by (rule upd_others)
    moreover have "privx (assign j) p = j" using p by (simp add: assign_def flip: t_def) (simp add: t)
    moreover have "priv_wf c (assign j)" unfolding assign_def t_def [symmetric] by (rule upd_xpriv_wf [OF wt]) simp_all
    ultimately show ?thesis by simp
  qed
  have len: "length (kprocs (ks (xi (assign j)))) = length (kprocs (ks (xi s)))" for j
    by (simp add: assign_def upd_xp_def)
  have "(r, s') \<in> {(ENOSPC, s), (EINVAL, s), (EBUSY, s)} \<or> r = OK \<and> (\<exists>j < NR c. s' = assign j)"
  proof (cases "i = NULL_PRIV_ID c")
    case True
    show ?thesis
    proof (cases "find (\<lambda>i. s_proc_nr (xpriv s i) = i_NONE (ic c)) [NR_STATIC_PRIV_IDS c ..< NR c]")
      case None
      with True g show ?thesis by (simp add: get_priv_def)
    next
      case (Some j)
      then have "j < NR c" by (auto simp: find_Some_iff)
      with True g Some show ?thesis by (auto simp: get_priv_def assign_def Let_def)
    qed
  next
    case False
    have "nat i < NR c" if "is_static_priv_id c i" using C that by (auto simp: xcfg_ok_def)
    with False g show ?thesis by (auto simp: get_priv_def assign_def Let_def split: if_split_asm)
  qed
  with A len show ?thesis by auto
qed

lemma set_defaults_ok:
  assumes W: "priv_wf c s" "xcfg_ok c" and O: "others_ok c (privx s p) s"
    and p: "p < length (kprocs (ks (xi s)))" and cl: "caller < length (kprocs (ks (xi s)))"
  shows "priv_ok c (set_defaults c caller p n s) \<and>
    length (kprocs (ks (xi (set_defaults c caller p n s)))) = length (kprocs (ks (xi s)))"
proof -
  let ?me = "privx s p" and ?src = "xpriv s (privx s caller)"
  define f where "f = (\<lambda>r :: kpriv. ?src\<lparr>s_id := s_id r, s_proc_nr := n,
      s_notify_pending := clear_map (s_notify_pending ?src), s_int_pending := {}, s_sig_pending := {},
      s_asyntab := 2 ^ 32 - 1, s_asynsize := 0, s_flags := DSRV_F c, s_trap_mask := DSRV_T c\<rparr>)"
  define s1 where "s1 = upd_ext ?me (\<lambda>_. (pexts s ! privx s caller)\<lparr>s_alarm_set := False\<rparr>) (upd_xpriv ?me f s)"
  have "mask_shape c (s_ipc_to ?src)" by (rule priv_wfD(3) [OF W(1) priv_wfD(4) [OF W(1) cl]])
  then have "priv_wf c (upd_xpriv ?me f s)" by (intro upd_xpriv_wf [OF W(1)]) (simp_all add: f_def)
  then have w1: "priv_wf c s1" by (simp add: s1_def)
  have o1: "others_ok c (privx s1 p) s1" using upd_others [OF O, of f] by (simp add: s1_def)
  have l1: "length (kprocs (ks (xi s1))) = length (kprocs (ks (xi s)))" by (simp add: s1_def)
  define s2 where "s2 = fill_sendto_mask c p (DSRV_M c) s1"
  have F: "priv_wf c s2" "masks_ok c s2" using fill_ok [OF w1 W(2) _ o1] p l1 unfolding s2_def by auto
  have l2: "length (kprocs (ks (xi s2))) = length (kprocs (ks (xi s)))"
    using no_masks_fields(1) [OF no_masks_fill, of c p "DSRV_M c" s1] l1 by (simp add: s2_def)
  define s3 where "s3 = upd_xpriv ?me (\<lambda>r. r\<lparr>s_sig_mgr := DSRV_SM c, s_bak_sig_mgr := i_NONE (ic c)\<rparr>) s2"
  have "priv_wf c s3" unfolding s3_def by (rule upd_xpriv_wf [OF F(1)]) simp_all
  moreover have "masks_ok c s3" using F(2) by (simp add: s3_def upd_xpriv_quiet)
  moreover have "length (kprocs (ks (xi s3))) = length (kprocs (ks (xi s)))" using l2 by (simp add: s3_def)
  moreover obtain g where "set_defaults c caller p n s = upd_ext ?me g s3"
    unfolding set_defaults_def Let_def s3_def s2_def s1_def f_def by blast
  ultimately show ?thesis by (simp add: priv_ok_def)
qed

text \<open>The table copies only touch the extension.\<close>

lemma update_tab_ext:
  "update_irqs c me u s = Some s' \<Longrightarrow> \<exists>g. s' = upd_ext me g s \<or> s' = s"
  "update_io c me u s = Some s' \<Longrightarrow> \<exists>g. s' = upd_ext me g s \<or> s' = s"
  "update_mem c me u s = Some s' \<Longrightarrow> \<exists>g. s' = upd_ext me g s \<or> s' = s"
  by (auto simp: update_irqs_def update_io_def update_mem_def split: if_split_asm)

lemma update_tab_ok:
  assumes "update_irqs c me u s = Some s' \<or> update_io c me u s = Some s' \<or> update_mem c me u s = Some s'"
  shows "xi s' = xi s" "priv_wf c s' = priv_wf c s" "masks_ok c s' = masks_ok c s" "others_ok c k s' = others_ok c k s"
proof -
  from assms update_tab_ext [of c me u s s'] obtain g where "s' = upd_ext me g s \<or> s' = s" by blast
  then show "xi s' = xi s" "priv_wf c s' = priv_wf c s" "masks_ok c s' = masks_ok c s" "others_ok c k s' = others_ok c k s"
    by auto
qed

lemma update_priv_ok:
  assumes P: "priv_ok c s" and C: "xcfg_ok c" and u: "update_priv c p u s = (r, s')"
    and p: "p < length (kprocs (ks (xi s)))"
  shows "priv_ok c s' \<and> length (kprocs (ks (xi s'))) = length (kprocs (ks (xi s)))"
proof -
  let ?me = "privx s p"
  define s1 where "s1 = upd_xpriv ?me (\<lambda>r. r\<lparr>s_flags := u_flags u, s_sig_mgr := u_sig_mgr u,
      s_bak_sig_mgr := u_bak_sig_mgr u\<rparr>) s"
  have W: "priv_wf c s" "masks_ok c s" using P by (simp_all add: priv_ok_def)
  have 1: "priv_wf c s1" "masks_ok c s1" "kprocs (ks (xi s1)) = kprocs (ks (xi s))"
    using W unfolding s1_def by (auto intro: upd_xpriv_wf simp: upd_xpriv_quiet)
  have D: "update_priv c p u s =
     (case update_irqs c ?me u s1 of
        None \<Rightarrow> (EINVAL, s1)
      | Some s2 \<Rightarrow>
         (case update_io c ?me u s2 of
            None \<Rightarrow> (EINVAL, s2)
          | Some s3 \<Rightarrow>
             (case update_mem c ?me u s3 of
                None \<Rightarrow> (EINVAL, s3)
              | Some s4 \<Rightarrow>
                 (OK, upd_ext ?me (\<lambda>e. e\<lparr>s_k_call_mask := u_k_call_mask u\<rparr>)
                    (fill_sendto_mask c p (first_int (u_ipc_to u))
                      (upd_xpriv ?me (\<lambda>r. r\<lparr>s_trap_mask := u_trap_mask u\<rparr>) s4))))))"
    unfolding update_priv_def Let_def s1_def by (rule refl)
  have early: "?thesis" if "s' = t" "xi t = xi s1" "priv_wf c t = priv_wf c s1" "masks_ok c t = masks_ok c s1" for t
    using that 1 by (simp add: priv_ok_def)
  show ?thesis
  proof (cases "update_irqs c ?me u s1")
    case None
    with D u show ?thesis by (intro early [of s1]) simp_all
  next
    case 2: (Some s2)
    note e2 = update_tab_ok [OF disjI1 [OF 2]]
    show ?thesis
    proof (cases "update_io c ?me u s2")
      case None
      with D u 2 show ?thesis by (intro early [of s2]) (simp_all add: e2)
    next
      case 3: (Some s3)
      note e3 = update_tab_ok [OF disjI2 [OF disjI1 [OF 3]]]
      show ?thesis
      proof (cases "update_mem c ?me u s3")
        case None
        with D u 2 3 show ?thesis by (intro early [of s3]) (simp_all add: e2 e3)
      next
        case 4: (Some s4)
        note e4 = update_tab_ok [OF disjI2 [OF disjI2 [OF 4]]]
        define s5 where "s5 = upd_xpriv ?me (\<lambda>r. r\<lparr>s_trap_mask := u_trap_mask u\<rparr>) s4"
        define s6 where "s6 = fill_sendto_mask c p (first_int (u_ipc_to u)) s5"
        have x4: "xi s4 = xi s1" by (simp add: e2 e3 e4)
        have w4: "priv_wf c s4" "masks_ok c s4" using 1 by (simp_all add: e2 e3 e4)
        have "priv_wf c s5" unfolding s5_def by (rule upd_xpriv_wf [OF w4(1)]) simp_all
        moreover have l5: "kprocs (ks (xi s5)) = kprocs (ks (xi s))" by (simp add: s5_def x4 1)
        moreover have "others_ok c ?me s5" unfolding s5_def by (rule upd_others [OF others_okI [OF w4(2)]])
        ultimately have "priv_wf c s6 \<and> masks_ok c s6"
          using fill_ok [of c s5 p] C p unfolding s6_def by simp
        moreover have "length (kprocs (ks (xi s6))) = length (kprocs (ks (xi s)))"
          using no_masks_fields(1) [OF no_masks_fill, of c p _ s5] l5 by (simp add: s6_def)
        moreover have "s' = upd_ext ?me (\<lambda>e. e\<lparr>s_k_call_mask := u_k_call_mask u\<rparr>) s6"
          using D u 2 3 4 by (simp add: s5_def s6_def)
        ultimately show ?thesis by (simp add: priv_ok_def)
      qed
    qed
  qed
qed

lemma priv_set_sys_ok:
  assumes P: "priv_ok c s" and C: "xcfg_ok c" and u: "priv_set_sys c caller p n arg s = (r, s')"
    and p: "p < length (kprocs (ks (xi s)))" "caller < length (kprocs (ks (xi s)))"
  shows "priv_ok c s'"
proof -
  obtain r0 up where cp: "copy_priv c caller arg = (r0, up)" by force
  define wanted where "wanted = (if arg \<noteq> 0 \<and> u_flags up AND DYN_PRIV_ID c = 0 then u_id up else NULL_PRIV_ID c)"
  obtain i s1 where g: "get_priv c p wanted s = (i, s1)" by force
  note G = get_priv_ok [OF P C g p(1)]
  have E: "priv_set_sys c caller p n arg s =
     (if arg \<noteq> 0 \<and> r0 \<noteq> OK then (r0, s) else if i \<noteq> OK then (i, s1)
      else if arg \<noteq> 0 then update_priv c p up (set_defaults c caller p n s1) else (OK, set_defaults c caller p n s1))"
    unfolding priv_set_sys_def Let_def cp prod.case wanted_def [symmetric] g by (rule refl)
  show ?thesis
  proof (cases "arg \<noteq> 0 \<and> r0 \<noteq> OK \<or> i \<noteq> OK")
    case True
    have "s' = s \<or> s' = s1 \<and> i \<noteq> OK"
      using u True unfolding E by (auto split: if_split_asm)
    with G P show ?thesis by auto
  next
    case False
    define s2 where "s2 = set_defaults c caller p n s1"
    have S: "priv_ok c s2" "length (kprocs (ks (xi s2))) = length (kprocs (ks (xi s)))"
      using set_defaults_ok [of c s1 p caller n] G False C p unfolding s2_def by auto
    have "(if arg \<noteq> 0 then update_priv c p up s2 else (OK, s2)) = (r, s')"
      using u False unfolding E by (simp add: s2_def split: if_split_asm)
    then show ?thesis
      using S update_priv_ok [OF S(1) C, of p up r s'] p(1) by (cases "arg = 0") auto
  qed
qed

lemma add_ok:
  assumes "priv_ok c s"
  shows "priv_add_io c caller p arg s = (r, s') \<Longrightarrow> priv_ok c s'"
    "priv_add_mem c caller p arg s = (r, s') \<Longrightarrow> priv_ok c s'"
    "priv_add_irq c caller p arg s = (r, s') \<Longrightarrow> priv_ok c s'"
proof -
  have f: "priv_ok c (add_flag me f s)" for me f
    using assms unfolding priv_ok_def add_flag_def by (auto intro: upd_xpriv_wf simp: upd_xpriv_quiet)
  have e: "priv_ok c (upd_ext me g t) = priv_ok c t" for me g t by (simp add: priv_ok_def)
  show "priv_add_io c caller p arg s = (r, s') \<Longrightarrow> priv_ok c s'"
    "priv_add_mem c caller p arg s = (r, s') \<Longrightarrow> priv_ok c s'"
    "priv_add_irq c caller p arg s = (r, s') \<Longrightarrow> priv_ok c s'"
    using f assms by (auto simp: priv_add_io_def priv_add_mem_def priv_add_irq_def Let_def e split: if_split_asm prod.split_asm)
qed

lemma privctl_request_ok:
  assumes P: "priv_ok c s" and C: "xcfg_ok c" and u: "privctl_request c caller p n m s = Some (r, s')"
    and p: "p < length (kprocs (ks (xi s)))" "caller < length (kprocs (ks (xi s)))"
  shows "priv_ok c s'"
proof (cases "ctl_request c (m_i2 m)")
  case SYS_PRIV_ALLOW
  with u P rts_ok [of p s s' c c] show ?thesis by (auto simp: privctl_request_def Let_def split: if_split_asm)
next
  case SYS_PRIV_YIELD
  show ?thesis
  proof (cases "SET_NO_PRIV caller s \<bind> UNSET_NO_PRIV c p")
    case None
    with u P SYS_PRIV_YIELD show ?thesis by (auto simp: privctl_request_def Let_def split: if_split_asm)
  next
    case (Some s2)
    then obtain s1 where "SET_NO_PRIV caller s = Some s1" "UNSET_NO_PRIV c p s1 = Some s2" by (auto simp: bind_eq_Some_conv)
    then have "priv_ok c s2" using P rts_ok [of caller s s1 c c] rts_ok [of p s1 s2 c c] by simp
    with u P SYS_PRIV_YIELD Some show ?thesis by (auto simp: privctl_request_def Let_def split: if_split_asm)
  qed
next
  case SYS_PRIV_DISALLOW
  with u P rts_ok [of p s s' c c] show ?thesis by (auto simp: privctl_request_def Let_def split: if_split_asm)
next
  case SYS_PRIV_SET_SYS
  then have "s' = s \<or> priv_set_sys c caller p n (m_p1 m) s = (r, s')"
    using u by (auto simp: privctl_request_def Let_def split: if_split_asm)
  with P priv_set_sys_ok [OF P C _ p] show ?thesis by blast
next
  case SYS_PRIV_SET_USER
  have "priv_ok c (upd_xp p (\<lambda>r. r\<lparr>p_priv := USER_PRIV_ID (ic c)\<rparr>) s)"
    using P C set_update_subset_insert [of "kprocs (ks (xi s))" p "(xp s p)\<lparr>p_priv := USER_PRIV_ID (ic c)\<rparr>"]
    unfolding priv_ok_def priv_wf_def list_all_iff masks_ok_def live_def sends_def talks_def xcfg_ok_def
    by (auto simp: upd_xp_def upd_ip_def upd_kp_def)
  with SYS_PRIV_SET_USER u P show ?thesis by (auto simp: privctl_request_def Let_def split: if_split_asm)
next
  case SYS_PRIV_UPDATE_SYS
  obtain r0 up where cp: "copy_priv c caller (m_p1 m) = (r0, up)" by force
  then have "s' = s \<or> update_priv c p up s = (r, s')"
    using u SYS_PRIV_UPDATE_SYS by (auto simp: privctl_request_def Let_def split: if_split_asm)
  with P update_priv_ok [OF P C _ p(1)] show ?thesis by blast
qed (use u P add_ok [OF P] in \<open>auto simp: privctl_request_def Let_def\<close>)

lemma target_slot:
  assumes "caller < length (kprocs (ks (xi s)))"
    "slot (kc (ic c)) (k_ENDPOINT_P (kc (ic c)) (p_endpoint (xp s caller))) = caller"
    and "(if e = SELF (ic c) then Some (slot (kc (ic c)) (k_ENDPOINT_P (kc (ic c)) (p_endpoint (xp s caller))))
          else isokendpt (kc (ic c)) (ks (xi s)) e) = Some p"
  shows "p < length (kprocs (ks (xi s)))"
  using assms isokendpt_slot [of "kc (ic c)" "ks (xi s)" e p] by (auto split: if_split_asm)

lemma do_privctl_ok:
  assumes P: "priv_ok c s" and C: "xcfg_ok c" and call: "do_privctl c caller m s = Some (r, m', s')"
    and caller: "caller < length (kprocs (ks (xi s)))"
      "slot (kc (ic c)) (k_ENDPOINT_P (kc (ic c)) (p_endpoint (xp s caller))) = caller"
  shows "priv_ok c s'"
proof -
  from call have "s' = s \<or> (\<exists>p n. p < length (kprocs (ks (xi s))) \<and> privctl_request c caller p n m s = Some (r, s'))"
    using target_slot [OF caller, of "m_i1 m"] unfolding do_privctl_def Let_def
    by (fastforce split: if_split_asm option.split_asm)
  with P privctl_request_ok [OF P C _ _ caller(1)] show ?thesis by blast
qed

text \<open>The rights that \<^verbatim>\<open>fill_sendto_mask\<close> hands out.\<close>

lemma fill_rights:
  fixes m :: "32 word"
  assumes W: "priv_wf c s" "xcfg_ok c" and p: "p < length (kprocs (ks (xi s)))" and i: "i < NR c"
  defines "t \<equiv> fill_sendto_mask c p m s" and "me \<equiv> privx s p"
  shows "sends c t me i \<longleftrightarrow> mask_bit c m i \<and> i \<noteq> me \<and> live c s i"
    "i \<noteq> me \<Longrightarrow> sends c t i me \<longleftrightarrow> mask_bit c m i \<and> (live c s i \<and> talks c s i \<or> sends c s i me)"
proof -
  have "set [0 ..< NR c] \<subseteq> {..< NR c}" by auto
  note E = fill_effect [OF W p distinct_upt this, where b = "mask_bit c m", unfolded Let_def,
      folded fill_sendto_mask_def, folded t_def]
  have me: "me < NR c" using priv_wfD(4) [OF W(1) p] by (simp add: me_def)
  show "sends c t me i \<longleftrightarrow> mask_bit c m i \<and> i \<noteq> me \<and> live c s i"
    "i \<noteq> me \<Longrightarrow> sends c t i me \<longleftrightarrow> mask_bit c m i \<and> (live c s i \<and> talks c s i \<or> sends c s i me)"
    using E i me by (simp_all add: me_def)
qed

subsection \<open>Results\<close>

text \<open>
  Send rights stay symmetric.  Every \<^verbatim>\<open>SYS_PRIVCTL\<close> call that returns, whatever the request and its
  outcome, keeps the invariant of the privilege table: ids are indices, every process is linked to a structure of
  the table, no live structure lets its process send to itself, and whoever may send to a live process that can do
  more than receive may also be sent to by it, so that an answer is never refused.
\<close>

theorem privctl_keeps_masks:
  assumes "do_privctl c caller m s = Some (r, m', s')" "priv_wf c s" "masks_ok c s" "xcfg_ok c"
    and "caller < length (kprocs (ks (xi s)))"
      "slot (kc (ic c)) (k_ENDPOINT_P (kc (ic c)) (p_endpoint (xp s caller))) = caller"
  shows "priv_wf c s' \<and> masks_ok c s'"
  using do_privctl_ok [OF _ assms(4,1,5,6)] assms(2,3) by (simp add: priv_ok_def)

text \<open>
  What \<^verbatim>\<open>fill_sendto_mask\<close> grants: afterwards the process may send to exactly the other live processes whose bit
  is set, and a process whose bit is not set cannot send to it.  The bits from 32 on are those of the
  undefined shift \<^verbatim>\<open>1 << i\<close>, not of a mask: a 32-bit mask cannot name these processes.
\<close>

theorem fill_sendto_mask_exact:
  assumes "priv_wf c s" "xcfg_ok c" "p < length (kprocs (ks (xi s)))" "i < NR c"
  shows "(sends c (fill_sendto_mask c p m s) (privx s p) i \<longleftrightarrow>
      (if i < 32 then bit m i else over_shift c m i) \<and> i \<noteq> privx s p \<and> live c s i) \<and>
    ((if i < 32 then bit m i else over_shift c m i) \<or> \<not> sends c (fill_sendto_mask c p m s) i (privx s p))"
  using fill_rights [OF assms, where m = m] unfolding mask_bit_def by blast+

subsection \<open>A small system\<close>

text \<open>
  Slots: the kernel tasks \<open>- 2\<close> (SYSTEM) and \<open>- 1\<close>, the process manager 0, a new process 1 that may not run yet, and
  a user process 2.  Privilege 2 is free.
\<close>

definition demo_kmsg :: kmsg where
  "demo_kmsg = \<lparr>m_source = 0, m_type = 0, m_i1 = 1, m_i2 = 4, m_i3 = 0, m_l1 = 0, m_l2 = 0, m_p1 = 1, m_map = {}\<rparr>"

definition demo_pext :: pext where
  "demo_pext = \<lparr>s_k_call_mask = replicate 8 True, s_alarm_set = False, s_nr_io_range = 0, s_io_tab = replicate 2 (0, 0),
     s_nr_mem_range = 0, s_mem_tab = replicate 2 (0, 0), s_nr_irq = 0, s_irq_tab = [0, 0], s_grant_table = 0,
     s_grant_entries = 0\<rparr>"

definition demo_xproc :: "int \<Rightarrow> nat \<Rightarrow> 16 word \<Rightarrow> kproc" where
  "demo_xproc n i f = (blocked_kproc n 7)\<lparr>p_priv := i, p_rts_flags := f, p_scheduler := None\<rparr>"

definition demo_xpriv :: "int \<Rightarrow> nat \<Rightarrow> 16 word \<Rightarrow> bool list \<Rightarrow> kpriv" where
  "demo_xpriv n i f to = demo_priv\<lparr>s_proc_nr := n, s_id := i, s_flags := f, s_ipc_to := [to], s_sig_mgr := 0,
     s_bak_sig_mgr := 101\<rparr>"

definition demo_xk :: kstate where
  "demo_xk = \<lparr>kprocs = [demo_xproc (- 2) 0 RTS_NO_QUANTUM, demo_xproc (- 1) 0 RTS_NO_QUANTUM, demo_xproc 0 1 RTS_NO_QUANTUM,
       demo_xproc 1 3 RTS_NO_PRIV, demo_xproc 2 3 RTS_NO_QUANTUM],
     kprivs = [demo_xpriv (- 2) 0 16 [False, True, False, True], demo_xpriv 0 1 16 [True, False, False, True],
       demo_xpriv 101 2 0 [False, False, False, False], demo_xpriv 2 3 0 [True, True, False, False]],
     rdy_head = replicate NR_QUEUES None, rdy_tail = replicate NR_QUEUES None, proc_ptr = 2, bill_ptr = 2\<rparr>"

definition demo_x :: xstate where
  "demo_x = \<lparr>xi = \<lparr>ks = demo_xk, utab = (\<lambda>_ _ _. None)\<rparr>, pexts = replicate 4 demo_pext, xintr = demo_intr0,
     pslots = replicate 5 \<lparr>vm_kernelcall = False, saved_reqmsg = demo_kmsg, p_cr3_v = None\<rparr>,
     umem = (\<lambda>_ _. Some demo_kmsg), fpu_owner = None\<rparr>"

definition demo_upriv :: upriv where
  "demo_upriv = \<lparr>u_id = 0, u_flags = 16, u_trap_mask = 255, u_ipc_to = [[True, False, True, True]],
     u_k_call_mask = replicate 8 True, u_sig_mgr = 0, u_bak_sig_mgr = 101, u_nr_io_range = 0, u_io_tab = [],
     u_nr_mem_range = 0, u_mem_tab = [], u_nr_irq = 0, u_irq_tab = []\<rparr>"

definition demo_xcfg :: xcfg where
  "demo_xcfg = \<lparr>ic = demo_icfg\<lparr>kc := demo_kcfg\<lparr>k_NR_TASKS := 2\<rparr>\<rparr>,
     ctl_request = (\<lambda>n. if n = 1 then SYS_PRIV_ALLOW else if n = 2 then SYS_PRIV_DISALLOW
       else if n = 3 then SYS_PRIV_SET_SYS else if n = 4 then SYS_PRIV_UPDATE_SYS else CTL_UNKNOWN),
     NR_STATIC_PRIV_IDS = 2, NULL_PRIV_ID = - 1, is_static_priv_id = (\<lambda>n. 0 \<le> n \<and> n < 2), DYN_PRIV_ID = 64,
     CHECK_IO_PORT = 1, CHECK_MEM = 256, CHECK_IRQ = 128, DSRV_F = 16, DSRV_T = 255, DSRV_M = 11, DSRV_KC = 0,
     NO_C = 1, DSRV_SM = 0, NR_IO_RANGE = 2, NR_MEM_RANGE = 2, NR_IRQ = 2, over_shift = (\<lambda>m i. m AND push_bit (i mod 32) 1 \<noteq> 0),
     copy_priv = (\<lambda>_ _. (OK, demo_upriv)), copy_range = (\<lambda>_ _. (OK, (0, 0))), copy_int = (\<lambda>_ _. (OK, 0))\<rparr>"

lemma demo_xcfg_ok: "xcfg_ok demo_xcfg"
  by (auto simp: xcfg_ok_def demo_xcfg_def demo_icfg_def)

lemma demo_x_ok: "priv_wf demo_xcfg demo_x" "masks_ok demo_xcfg demo_x"
  by code_simp+

definition demo_x1 :: xstate where
  "demo_x1 = snd (snd (the (do_privctl demo_xcfg 2 demo_kmsg demo_x)))"

theorem privctl_keeps_masks_witness:
  "priv_wf demo_xcfg demo_x1 \<and> masks_ok demo_xcfg demo_x1 \<and> sends demo_xcfg demo_x 1 3 \<and> \<not> sends demo_xcfg demo_x1 1 3"
proof -
  have "map_option fst (do_privctl demo_xcfg 2 demo_kmsg demo_x) = Some OK" by code_simp
  then obtain m' where "do_privctl demo_xcfg 2 demo_kmsg demo_x = Some (OK, m', demo_x1)"
    unfolding demo_x1_def by auto
  moreover have "2 < length (kprocs (ks (xi demo_x)))" by code_simp
  moreover have "slot (kc (ic demo_xcfg)) (k_ENDPOINT_P (kc (ic demo_xcfg)) (p_endpoint (xp demo_x 2))) = 2" by code_simp
  moreover have "sends demo_xcfg demo_x 1 3 \<and> \<not> sends demo_xcfg demo_x1 1 3" by code_simp
  ultimately show ?thesis using privctl_keeps_masks [OF _ demo_x_ok demo_xcfg_ok] by blast
qed

theorem fill_sendto_mask_exact_witness:
  "sends demo_xcfg (fill_sendto_mask demo_xcfg 3 3 demo_x) 3 1 \<and>
   \<not> sends demo_xcfg (fill_sendto_mask demo_xcfg 3 3 demo_x) 3 2"
proof -
  have p: "3 < length (kprocs (ks (xi demo_x)))" "1 < NR demo_xcfg" "2 < NR demo_xcfg" by code_simp+
  have "privx demo_x 3 = 3" "live demo_xcfg demo_x 1" "\<not> live demo_xcfg demo_x 2" by code_simp+
  moreover have "bit (3 :: 32 word) 1" by (simp add: bit_numeral_rec)
  ultimately show ?thesis
    using fill_sendto_mask_exact [OF demo_x_ok(1) demo_xcfg_ok p(1,2), of 3]
      fill_sendto_mask_exact [OF demo_x_ok(1) demo_xcfg_ok p(1,3), of 3] by simp
qed

end
