(* ===== verification/KCalls.thy ===== *)
theory KCalls
  imports KPriv
begin

text \<open>
  Kernel calls: the dispatcher of \<^verbatim>\<open>src/Project_2/kernel/system.c\<close> (\<^verbatim>\<open>kernel_call\<close>, \<^verbatim>\<open>kernel_call_dispatch\<close>,
  \<^verbatim>\<open>kernel_call_finish\<close>, \<^verbatim>\<open>kernel_call_resume\<close>) and the handlers of \<^verbatim>\<open>src/Project_2/kernel/system\<close> for signals
  (\<^verbatim>\<open>do_kill\<close>, \<^verbatim>\<open>do_getksig\<close>, \<^verbatim>\<open>do_endksig\<close>, \<^verbatim>\<open>do_exit\<close>), for the state of processes (\<^verbatim>\<open>do_runctl\<close>, \<^verbatim>\<open>do_statectl\<close>,
  \<^verbatim>\<open>do_setgrant\<close>, \<^verbatim>\<open>do_clear\<close>) and for interrupts (\<^verbatim>\<open>do_irqctl\<close>, \<^verbatim>\<open>generic_handler\<close>).

  A handler takes the slot of the caller and the message and returns the result, the message (which it may
  change) and the state; \<^const>\<open>None\<close> is a panic or a failed assertion.  The table \<^verbatim>\<open>call_vec\<close> is an argument of the
  dispatcher.  The fields of a message are named by their place: \<open>m_i1\<close>, \<open>m_i2\<close> and \<open>m_i3\<close> are the integers in the
  order in which the handler's comment lists them, \<open>m_map\<close> is the map of signals, \<open>m_l1\<close> is the IRQ policy.
  Errors are turned into numbers for the reply by a parameter, as their values come from a header outside the
  repository.  Reading and writing a message in the memory of a process fails where \<open>umem\<close> has no entry.  The entropy
  that \<^verbatim>\<open>generic_handler\<close> collects is left out.
\<close>

unbundle bit_operations_syntax

subsection \<open>Parameters\<close>

definition MF_KCALL_RESUME :: "16 word" where "MF_KCALL_RESUME = 0x008"
definition MF_FPU_INITIALIZED :: "16 word" where "MF_FPU_INITIALIZED = 0x1000"
definition RTS_VMREQUEST :: "16 word" where "RTS_VMREQUEST = 0x800"

datatype irq_request = IRQ_ENABLE | IRQ_DISABLE | IRQ_SETPOLICY | IRQ_RMPOLICY | IRQ_UNKNOWN

record ccfg =
  xc :: xcfg
  KERNEL_CALL :: int
  NR_SYS_CALLS :: nat
  errno_val :: "errno \<Rightarrow> int"
  c_NSIG :: int
  SIGABRT :: int
  RC_STOP :: int
  RC_RESUME :: int
  rc_delay :: "int \<Rightarrow> bool"                    \<comment> \<open>\<^verbatim>\<open>flags & RC_DELAY\<close>\<close>
  SYS_STATE_CLEAR_IPC_REFS :: int
  set_grant_table :: "nat \<Rightarrow> int \<Rightarrow> pext \<Rightarrow> pext"  \<comment> \<open>\<^verbatim>\<open>_K_SET_GRANT_TABLE\<close> of \<^verbatim>\<open>minix/safecopies.h\<close>\<close>
  irq_request :: "int \<Rightarrow> irq_request"
  NR_IRQ_HOOKS :: nat
  IRQ_REENABLE :: "32 word"

type_synonym handler = "nat \<Rightarrow> kmsg \<Rightarrow> xstate \<Rightarrow> (errno \<times> kmsg \<times> xstate) option"

abbreviation ci :: "ccfg \<Rightarrow> icfg" where
  "ci c \<equiv> ic (xc c)"

abbreviation xok :: "ccfg \<Rightarrow> xstate \<Rightarrow> int \<Rightarrow> nat option" where
  "xok c s e \<equiv> isokendpt (kc (ci c)) (ks (xi s)) e"

definition iskernel_slot :: "ccfg \<Rightarrow> nat \<Rightarrow> bool" where
  "iskernel_slot c p \<longleftrightarrow> int p - int (k_NR_TASKS (kc (ci c))) < 0"

definition reply :: "kmsg \<Rightarrow> errno \<Rightarrow> xstate option \<Rightarrow> (errno \<times> kmsg \<times> xstate) option" where
  "reply m r s = map_option (\<lambda>s'. (r, m, s')) s"

subsection \<open>The dispatcher\<close>

definition upd_slot :: "nat \<Rightarrow> (pslot \<Rightarrow> pslot) \<Rightarrow> xstate \<Rightarrow> xstate" where
  "upd_slot p f s = s\<lparr>pslots := (pslots s)[p := f (pslots s ! p)]\<rparr>"

definition copy_msg_to_user :: "nat \<Rightarrow> kmsg \<Rightarrow> nat \<Rightarrow> xstate \<Rightarrow> xstate" where
  "copy_msg_to_user p m a s =
     (if umem s p a = None then s else s\<lparr>umem := (umem s)(p := (umem s p)(a := Some m))\<rparr>)"

text \<open>
  When a call is resumed, \<open>msg\<close> is the saved request itself, so that what the handler and the reply write into the
  message is written into \<^verbatim>\<open>saved.reqmsg\<close>; \<open>in_place\<close> tells the two callers apart.
\<close>

definition kernel_call_finish :: "bool \<Rightarrow> ccfg \<Rightarrow> nat \<Rightarrow> kmsg \<Rightarrow> errno \<Rightarrow> xstate \<Rightarrow> xstate option" where
  "kernel_call_finish in_place c caller msg result s =
     (if result = VMSUSPEND then
        kassert (RTS_ISSET (xp s caller) RTS_VMREQUEST)
         (kassert (vm_kernelcall (pslots s ! caller))
           (Some (upd_xp caller (set_mf MF_KCALL_RESUME) (upd_slot caller (\<lambda>l. l\<lparr>saved_reqmsg := msg\<rparr>) s))))
      else
        let s1 = upd_slot caller
              (\<lambda>l. l\<lparr>saved_reqmsg := (if in_place then msg else saved_reqmsg l)\<lparr>m_source := i_NONE (ci c)\<rparr>\<rparr>) s in
        Some (if result \<noteq> EDONTREPLY then
                let answer = msg\<lparr>m_source := SYSTEM (ci c), m_type := errno_val c result\<rparr>;
                    s2 = (if in_place then upd_slot caller (\<lambda>l. l\<lparr>saved_reqmsg := answer\<rparr>) s1 else s1) in
                copy_msg_to_user caller answer (p_delivermsg_vir (xp s2 caller)) s2
              else s1))"

definition kernel_call_dispatch :: "ccfg \<Rightarrow> handler option list \<Rightarrow> nat \<Rightarrow> kmsg \<Rightarrow> xstate \<Rightarrow> (errno \<times> kmsg \<times> xstate) option" where
  "kernel_call_dispatch c call_vec caller msg s =
     (let call_nr = m_type msg - KERNEL_CALL c in
      if call_nr < 0 \<or> call_nr \<ge> int (NR_SYS_CALLS c) then Some (EBADREQUEST, msg, s)
      else if \<not> s_k_call_mask (pexts s ! privx s caller) ! nat call_nr then Some (ECALLDENIED, msg, s)
      else case call_vec ! nat call_nr of
        Some h \<Rightarrow> h caller msg s
      | None \<Rightarrow> Some (EBADREQUEST, msg, s))"

text \<open>
  When the message cannot be read, \<^verbatim>\<open>kernel_call\<close> answers with the uninitialised variable \<^verbatim>\<open>msg\<close>, of which the reply
  fixes source and type; \<open>junk\<close> is the rest.
\<close>

definition kernel_call :: "ccfg \<Rightarrow> handler option list \<Rightarrow> kmsg \<Rightarrow> nat \<Rightarrow> nat \<Rightarrow> xstate \<Rightarrow> xstate option" where
  "kernel_call c call_vec junk m_user caller s =
     (let s1 = upd_xp caller (\<lambda>p. p\<lparr>p_delivermsg_vir := m_user\<rparr>) s in
      case umem s1 caller m_user of
        None \<Rightarrow> kernel_call_finish False c caller junk EBADREQUEST s1
      | Some msg \<Rightarrow>
          (case kernel_call_dispatch c call_vec caller (msg\<lparr>m_source := p_endpoint (xp s1 caller)\<rparr>) s1 of
             None \<Rightarrow> None
           | Some (result, msg', s2) \<Rightarrow> kernel_call_finish False c caller msg' result s2))"

definition kernel_call_resume :: "ccfg \<Rightarrow> handler option list \<Rightarrow> nat \<Rightarrow> xstate \<Rightarrow> xstate option" where
  "kernel_call_resume c call_vec caller s =
     kassert (\<not> RTS_ISSET (xp s caller) RTS_SLOT_FREE)
      (kassert (\<not> RTS_ISSET (xp s caller) RTS_VMREQUEST)
        (kassert (m_source (saved_reqmsg (pslots s ! caller)) = p_endpoint (xp s caller))
          (case kernel_call_dispatch c call_vec caller (saved_reqmsg (pslots s ! caller)) s of
             None \<Rightarrow> None
           | Some (result, msg', s2) \<Rightarrow>
               kernel_call_finish True c caller msg' result (upd_xp caller (clear_mf MF_KCALL_RESUME) s2))))"

subsection \<open>Signals\<close>

definition do_kill :: "ccfg \<Rightarrow> handler" where
  "do_kill c caller m s =
     (case xok c s (m_i1 m) of
        None \<Rightarrow> Some (EINVAL, m, s)
      | Some p \<Rightarrow>
          if m_i2 m \<ge> c_NSIG c then Some (EINVAL, m, s)
          else if iskernel_slot c p then Some (EPERM, m, s)
          else reply m OK (on_xi (cause_sig (ci c) p (m_i2 m)) s))"

definition signaled_for :: "xstate \<Rightarrow> int \<Rightarrow> nat \<Rightarrow> bool" where
  "signaled_for s mgr p \<longleftrightarrow> RTS_ISSET (xp s p) RTS_SIGNALED \<and> s_sig_mgr (xpriv s (privx s p)) = mgr"

definition do_getksig :: "ccfg \<Rightarrow> handler" where
  "do_getksig c caller m s =
     (case find (signaled_for s (p_endpoint (xp s caller))) [k_NR_TASKS (kc (ci c)) ..< length (kprocs (ks (xi s)))] of
        Some p \<Rightarrow>
          reply (m\<lparr>m_i1 := p_endpoint (xp s p), m_map := p_pending (xp s p)\<rparr>) OK
            (on_xi (UNSET_RTS (ci c) p RTS_SIGNALED) (upd_xp p (\<lambda>r. r\<lparr>p_pending := {}\<rparr>) s))
      | None \<Rightarrow> Some (OK, m\<lparr>m_i1 := i_NONE (ci c)\<rparr>, s))"

definition do_endksig :: "ccfg \<Rightarrow> handler" where
  "do_endksig c caller m s =
     (case xok c s (m_i1 m) of
        None \<Rightarrow> Some (EINVAL, m, s)
      | Some p \<Rightarrow>
          if p_endpoint (xp s caller) \<noteq> s_sig_mgr (xpriv s (privx s p)) then Some (EPERM, m, s)
          else if \<not> RTS_ISSET (xp s p) RTS_SIG_PENDING then Some (EINVAL, m, s)
          else if \<not> RTS_ISSET (xp s p) RTS_SIGNALED
          then reply m OK (on_xi (UNSET_RTS (ci c) p RTS_SIG_PENDING) s)
          else Some (OK, m, s))"

definition do_exit :: "ccfg \<Rightarrow> handler" where
  "do_exit c caller m s =
     reply m EDONTREPLY (on_xi (cause_sig (ci c) (slot (kc (ci c)) (p_nr (xp s caller))) (SIGABRT c)) s)"

subsection \<open>State of processes\<close>

definition do_runctl :: "ccfg \<Rightarrow> handler" where
  "do_runctl c caller m s =
     (case xok c s (m_i1 m) of
        None \<Rightarrow> Some (EINVAL, m, s)
      | Some p \<Rightarrow>
          if iskernel_slot c p then Some (EPERM, m, s)
          else
            let delay = (m_i2 m = RC_STOP c \<and> rc_delay c (m_i3 m));
                s1 = (if delay \<and> (RTS_ISSET (xp s p) RTS_SENDING \<or> mf (xp s p) MF_SC_DEFER)
                      then upd_xp p (set_mf MF_SIG_DELAY) s else s) in
            if delay \<and> mf (xp s1 p) MF_SIG_DELAY then Some (EBUSY, m, s1)
            else if m_i2 m = RC_STOP c then reply m OK (on_xi (SET_RTS p RTS_PROC_STOP) s1)
            else if m_i2 m = RC_RESUME c then reply m OK (on_xi (UNSET_RTS (ci c) p RTS_PROC_STOP) s1)
            else Some (EINVAL, m, s1))"

definition do_statectl :: "ccfg \<Rightarrow> handler" where
  "do_statectl c caller m s =
     (if m_i2 m = SYS_STATE_CLEAR_IPC_REFS c
      then reply m OK (on_xi (clear_ipc_refs (ci c) caller EDEADSRCDST) s)
      else Some (EINVAL, m, s))"

definition do_setgrant :: "ccfg \<Rightarrow> handler" where
  "do_setgrant c caller m s =
     (if no_priv s caller then Some (EPERM, m, s)
      else Some (OK, m, upd_ext (privx s caller) (set_grant_table c (m_p1 m) (m_i1 m)) s))"

subsection \<open>Interrupts\<close>

definition GENERIC_HANDLER :: nat where "GENERIC_HANDLER = 1"

text \<open>The handler function of drivers' hooks, on the state of processes and messages.\<close>

definition generic_handler :: "ccfg \<Rightarrow> irq_hook \<Rightarrow> istate \<Rightarrow> (bool \<times> istate) option" where
  "generic_handler c hook s =
     (case isokendpt (kc (ci c)) (ks s) (proc_nr_e hook) of
        None \<Rightarrow> None
      | Some p \<Rightarrow>
          map_option (\<lambda>(_, s'). (policy hook AND IRQ_REENABLE c \<noteq> 0, s'))
            (mini_notify (ci c) (slot (kc (ci c)) (HARDWARE (ci c))) (proc_nr_e hook)
              (upd_priv (p_priv (ip s p)) (\<lambda>r. r\<lparr>s_int_pending := insert (int (notify_id hook)) (s_int_pending r)\<rparr>) s)))"

definition irq_allowed :: "ccfg \<Rightarrow> nat \<Rightarrow> int \<Rightarrow> xstate \<Rightarrow> bool" where
  "irq_allowed c caller irq s =
     (let me = privx s caller; e = pexts s ! me in
      s_flags (xpriv s me) AND CHECK_IRQ (xc c) = 0 \<or> list_ex (\<lambda>x. x = irq) (take (nat (s_nr_irq e)) (s_irq_tab e)))"

definition owner_check :: "ccfg \<Rightarrow> nat \<Rightarrow> int \<Rightarrow> xstate \<Rightarrow> errno" where
  "owner_check c caller h s =
     (if h < 0 \<or> h \<ge> int (NR_IRQ_HOOKS c) then EINVAL
      else if proc_nr_e (hk (xintr s) (nat h)) = i_NONE (ci c) then EINVAL
      else if proc_nr_e (hk (xintr s) (nat h)) \<noteq> p_endpoint (xp s caller) then EPERM
      else OK)"

definition irq_setpolicy :: "ccfg \<Rightarrow> nat \<Rightarrow> kmsg \<Rightarrow> xstate \<Rightarrow> (errno \<times> kmsg \<times> xstate) option" where
  "irq_setpolicy c caller m s =
     (let irq = m_i2 m; me = p_endpoint (xp s caller); t = xintr s; mine = [0 ..< NR_IRQ_HOOKS c] in
      if \<not> valid_irq t irq then Some (EINVAL, m, s)
      else if \<not> irq_allowed c caller irq s then Some (EPERM, m, s)
      else if m_i3 m < 0 \<or> m_i3 m > 31 then Some (EINVAL, m, s)
      else
        let install = (\<lambda>i t1. map_option
              (\<lambda>t2. (OK, m\<lparr>m_i3 := int i + 1\<rparr>, s\<lparr>xintr := t2\<rparr>))
              (put_irq_handler i irq GENERIC_HANDLER
                (upd_hook i (\<lambda>h. h\<lparr>proc_nr_e := me, notify_id := nat (m_i3 m), policy := m_l1 m\<rparr>) t1))) in
        case find (\<lambda>i. proc_nr_e (hk t i) = me \<and> int (notify_id (hk t i)) = m_i3 m) mine of
          Some i \<Rightarrow> rm_irq_handler i t \<bind> install i
        | None \<Rightarrow>
           (case find (\<lambda>i. proc_nr_e (hk t i) = i_NONE (ci c)) mine of
              None \<Rightarrow> Some (ENOSPC, m, s)
            | Some i \<Rightarrow> install i t))"

definition free_hook :: "ccfg \<Rightarrow> nat \<Rightarrow> intr \<Rightarrow> intr option" where
  "free_hook c h t = map_option (upd_hook h (\<lambda>r. r\<lparr>proc_nr_e := i_NONE (ci c)\<rparr>)) (rm_irq_handler h t)"

definition do_irqctl :: "ccfg \<Rightarrow> handler" where
  "do_irqctl c caller m s =
     (let h = m_i3 m - 1; chk = owner_check c caller h s in
      case irq_request c (m_i1 m) of
        IRQ_ENABLE \<Rightarrow>
          Some (if chk \<noteq> OK then (chk, m, s) else (OK, m, s\<lparr>xintr := enable_irq (nat h) (xintr s)\<rparr>))
      | IRQ_DISABLE \<Rightarrow>
          Some (if chk \<noteq> OK then (chk, m, s) else (OK, m, s\<lparr>xintr := snd (disable_irq (nat h) (xintr s))\<rparr>))
      | IRQ_SETPOLICY \<Rightarrow> irq_setpolicy c caller m s
      | IRQ_RMPOLICY \<Rightarrow>
          if chk \<noteq> OK then Some (chk, m, s)
          else reply m OK (map_option (\<lambda>t. s\<lparr>xintr := t\<rparr>) (free_hook c (nat h) (xintr s)))
      | IRQ_UNKNOWN \<Rightarrow> Some (EINVAL, m, s))"

subsection \<open>\<^verbatim>\<open>do_clear\<close>\<close>

fun release_hooks :: "ccfg \<Rightarrow> int \<Rightarrow> nat list \<Rightarrow> intr \<Rightarrow> intr option" where
  "release_hooks c e [] t = Some t"
| "release_hooks c e (i # is) t =
     (if e = proc_nr_e (hk t i) then free_hook c i t \<bind> release_hooks c e is else release_hooks c e is t)"

definition do_clear :: "ccfg \<Rightarrow> handler" where
  "do_clear c caller m s =
     (case xok c s (m_i1 m) of
        None \<Rightarrow> Some (EINVAL, m, s)
      | Some p \<Rightarrow>
          let s1 = upd_slot p (\<lambda>l. l\<lparr>p_cr3_v := None\<rparr>) s in
          if isemptyp (xp s1 p) then Some (OK, m, s1)
          else
            reply m OK
             (do {
                t \<leftarrow> release_hooks c (p_endpoint (xp s1 p)) [0 ..< NR_IRQ_HOOKS c] (xintr s1);
                s2 \<leftarrow> on_xi (clear_endpoint (ci c) p) (s1\<lparr>xintr := t\<rparr>);
                s3 \<leftarrow> on_xi (lift_k (RTS_SETFLAGS p RTS_SLOT_FREE)) (upd_ext (privx s2 p) (\<lambda>e. e\<lparr>s_alarm_set := False\<rparr>) s2);
                let s4 = upd_xp p (clear_mf MF_FPU_INITIALIZED) s3;
                let s5 = (if is_sys (xc c) s4 p
                          then upd_xpriv (privx s4 p) (\<lambda>r. r\<lparr>s_proc_nr := i_NONE (ci c)\<rparr>) s4 else s4);
                Some (if fpu_owner s5 = Some p then s5\<lparr>fpu_owner := None\<rparr> else s5)
              }))"


subsection \<open>\<^verbatim>\<open>system_init\<close>\<close>

text \<open>
  The calls whose handlers are modelled here and in \<^verbatim>\<open>KPriv\<close>; their numbers, relative to \<^verbatim>\<open>KERNEL_CALL\<close>, are a parameter.
  The entries of the other handlers of the table are left \<^verbatim>\<open>NULL\<close>, and the alarm timers are left out.
\<close>

datatype kcall =
    SYS_CLEAR | SYS_EXIT | SYS_PRIVCTL | SYS_SETGRANT | SYS_RUNCTL | SYS_STATECTL | SYS_KILL | SYS_GETKSIG | SYS_ENDKSIG
  | SYS_IRQCTL

fun map_calls :: "(nat \<times> handler) list \<Rightarrow> handler option list \<Rightarrow> handler option list" where
  "map_calls [] call_vec = call_vec"
| "map_calls ((nr, h) # rest) call_vec = map_calls rest (call_vec[nr := Some h])"

definition system_calls :: "ccfg \<Rightarrow> (kcall \<Rightarrow> nat) \<Rightarrow> handler option list" where
  "system_calls c nr =
     map_calls
       [(nr SYS_CLEAR, do_clear c), (nr SYS_EXIT, do_exit c), (nr SYS_PRIVCTL, do_privctl (xc c)),
        (nr SYS_SETGRANT, do_setgrant c), (nr SYS_RUNCTL, do_runctl c), (nr SYS_STATECTL, do_statectl c),
        (nr SYS_KILL, do_kill c), (nr SYS_GETKSIG, do_getksig c), (nr SYS_ENDKSIG, do_endksig c),
        (nr SYS_IRQCTL, do_irqctl c)]
       (replicate (NR_SYS_CALLS c) None)"

definition init_hooks :: "ccfg \<Rightarrow> intr \<Rightarrow> intr" where
  "init_hooks c t = fold (\<lambda>i. upd_hook i (\<lambda>h. h\<lparr>proc_nr_e := i_NONE (ci c)\<rparr>)) [0 ..< NR_IRQ_HOOKS c] t"

end
