(* ===== verification/KCallInv.thy ===== *)
theory KCallInv
  imports KCalls
begin

text \<open>
  Invariants of the kernel that every kernel call keeps: the symmetry of the send masks (\<^verbatim>\<open>KPriv\<close>) and the
  protocol of signals.  The first part says what the operations of \<^verbatim>\<open>KIpc\<close> used by the handlers leave alone;
  the locale \<open>kernel_calls\<close> lifts an invariant of the handlers in \<^verbatim>\<open>call_vec\<close> to whole kernel calls, first ones
  and resumed ones.
\<close>

unbundle bit_operations_syntax

subsection \<open>What operations leave alone\<close>

text \<open>Of a process: its pending signals and the flags \<^verbatim>\<open>SLOT_FREE\<close>, \<^verbatim>\<open>SIGNALED\<close> and \<^verbatim>\<open>SIG_PENDING\<close>.\<close>

definition sview :: "kproc \<Rightarrow> int set \<times> bool \<times> bool \<times> bool" where
  "sview p = (p_pending p, bit (p_rts_flags p) 0, bit (p_rts_flags p) 4, bit (p_rts_flags p) 5)"

definition mview :: "kpriv \<Rightarrow> int \<times> nat \<times> bool list list \<times> 16 word" where
  "mview r = (s_proc_nr r, s_id r, s_ipc_to r, s_trap_mask r)"

definition same_privs :: "istate \<Rightarrow> istate \<Rightarrow> bool" where
  "same_privs s s' \<longleftrightarrow>
     List.map mview (kprivs (ks s')) = List.map mview (kprivs (ks s)) \<and>
     List.map p_priv (kprocs (ks s')) = List.map p_priv (kprocs (ks s))"

definition same_sigs :: "istate \<Rightarrow> istate \<Rightarrow> bool" where
  "same_sigs s s' \<longleftrightarrow> List.map sview (kprocs (ks s')) = List.map sview (kprocs (ks s))"

definition quiet :: "istate \<Rightarrow> istate \<Rightarrow> bool" where
  "quiet s s' \<longleftrightarrow> same_privs s s' \<and> same_sigs s s'"

lemma quiet_refl [simp]: "quiet s s" "same_privs s s"
  by (simp_all add: quiet_def same_privs_def same_sigs_def)

lemma quiet_trans: "quiet s t \<Longrightarrow> quiet t u \<Longrightarrow> quiet s u"
  by (simp add: quiet_def same_privs_def same_sigs_def)

lemma same_privs_trans: "same_privs s t \<Longrightarrow> same_privs t u \<Longrightarrow> same_privs s u"
  by (simp add: same_privs_def)

lemma quiet_privs: "quiet s t \<Longrightarrow> same_privs s t"
  by (simp add: quiet_def)

lemma quiet_upd_ip:
  assumes "\<And>p. sview (f p) = sview p" "\<And>p. p_priv (f p) = p_priv p"
  shows "quiet s (upd_ip x f s)"
  using assms by (simp add: quiet_def same_privs_def same_sigs_def upd_ip_def upd_kp_def map_update_same)

lemma privs_upd_ip: "(\<And>p. p_priv (f p) = p_priv p) \<Longrightarrow> same_privs s (upd_ip x f s)"
  by (simp add: same_privs_def upd_ip_def upd_kp_def map_update_same)

lemma quiet_upd_priv: "(\<And>r. mview (f r) = mview r) \<Longrightarrow> quiet s (upd_priv i f s)"
  by (simp add: quiet_def same_privs_def same_sigs_def upd_priv_def map_update_same)

lemma same_length:
  "same_privs s s' \<Longrightarrow> length (kprocs (ks s')) = length (kprocs (ks s))"
  unfolding same_privs_def by (metis map_eq_imp_length_eq)

lemma core_privs:
  assumes "same_core (ks s) (ks s')"
  shows "same_privs s s'"
proof -
  note F = same_core_fields [OF assms]
  have "List.map p_priv (kprocs (ks s')) = List.map p_priv (kprocs (ks s))"
  proof (rule nth_equalityI)
    show "List.map p_priv (kprocs (ks s')) ! x = List.map p_priv (kprocs (ks s)) ! x"
      if "x < length (List.map p_priv (kprocs (ks s')))" for x
      using that coreD(2) [OF F(4), of x] F(1) by simp
  qed (simp add: F(1))
  then show ?thesis by (simp add: same_privs_def F(2))
qed

lemma RTS_privs:
  "SET_RTS x f s = Some s' \<Longrightarrow> same_privs s s'"
  "UNSET_RTS c x f s = Some s' \<Longrightarrow> same_privs s s'"
  by (auto elim!: SET_RTS_cases UNSET_RTS_cases intro!: core_privs dest: RTS_frames)

definition sig_free :: "16 word \<Rightarrow> bool" where
  "sig_free f \<longleftrightarrow> \<not> bit f 0 \<and> \<not> bit f 4 \<and> \<not> bit f 5"

lemma preempted_bits [simp]: "bit (w OR RTS_PREEMPTED) n = bit w n" if "n \<in> {0, 4, 5}" for w n
  using that by (auto simp: RTS_PREEMPTED_def bit_simps)

text \<open>The view of a process after the flags of one process have changed.\<close>

lemma SET_RTS_sview:
  assumes "SET_RTS x f s = Some s'" "y < length (kprocs (ks s))"
  shows "sview (ip s' y) = (if y = x then sview ((ip s y)\<lparr>p_rts_flags := p_rts_flags (ip s y) OR f\<rparr>) else sview (ip s y))"
proof -
  from assms(1) obtain k where k: "RTS_SET x f (ks s) = Some k" "s' = s\<lparr>ks := k\<rparr>" by (rule SET_RTS_cases)
  show ?thesis
    using RTS_SET_flags [OF k(1) assms(2)] coreD(4) [OF same_core_fields(4) [OF RTS_frames(1) [OF k(1)] assms(2)]]
    by (simp add: k(2) sview_def)
qed

lemma UNSET_RTS_sview:
  assumes "UNSET_RTS c x f s = Some s'" "y < length (kprocs (ks s))"
  shows "sview (ip s' y) =
    (if y = x then sview ((ip s y)\<lparr>p_rts_flags := p_rts_flags (ip s y) AND NOT f\<rparr>) else sview (ip s y))"
proof -
  from assms(1) obtain k where k: "RTS_UNSET (kc c) x f (ks s) = Some k" "s' = s\<lparr>ks := k\<rparr>" by (rule UNSET_RTS_cases)
  show ?thesis
    using RTS_UNSET_flags [OF k(1) assms(2)] coreD(4) [OF same_core_fields(4) [OF RTS_frames(2) [OF k(1)] assms(2)]]
    by (auto simp: k(2) sview_def)
qed

lemma RTS_quiet:
  assumes "sig_free f"
  shows "SET_RTS x f s = Some s' \<Longrightarrow> quiet s s'" "UNSET_RTS c x f s = Some s' \<Longrightarrow> quiet s s'"
proof -
  have b: "sview (p\<lparr>p_rts_flags := p_rts_flags p OR f\<rparr>) = sview p" "sview (p\<lparr>p_rts_flags := p_rts_flags p AND NOT f\<rparr>) = sview p" for p
    using assms by (auto simp: sview_def sig_free_def bit_or_iff bit_and_iff bit_not_iff)
  show "quiet s s'" if *: "SET_RTS x f s = Some s'"
  proof -
    have l: "length (kprocs (ks s')) = length (kprocs (ks s))" by (rule same_length [OF RTS_privs(1) [OF *]])
    have "same_sigs s s'" unfolding same_sigs_def
      by (rule nth_equalityI) (simp_all add: l SET_RTS_sview [OF *] b)
    with RTS_privs(1) [OF *] show ?thesis by (simp add: quiet_def)
  qed
  show "quiet s s'" if *: "UNSET_RTS c x f s = Some s'"
  proof -
    have l: "length (kprocs (ks s')) = length (kprocs (ks s))" by (rule same_length [OF RTS_privs(2) [OF *]])
    have "same_sigs s s'" unfolding same_sigs_def
      by (rule nth_equalityI) (simp_all add: l UNSET_RTS_sview [OF *] b)
    with RTS_privs(2) [OF *] show ?thesis by (simp add: quiet_def)
  qed
qed

lemma sig_free_flags [simp]:
  "sig_free RTS_RECEIVING" "sig_free RTS_SENDING" "sig_free RTS_NO_PRIV" "sig_free RTS_PROC_STOP"
  "sig_free RTS_NO_ENDPOINT" "sig_free (RTS_RECEIVING OR RTS_SENDING)"
  by (simp_all add: sig_free_def RTS_defs bit_simps)

lemma sview_simps [simp]:
  "sview (set_mf f p) = sview p" "sview (clear_mf f p) = sview p" "sview (IPC_STATUS_ADD m p) = sview p"
  "sview (p\<lparr>p_delivermsg := d\<rparr>) = sview p" "sview (p\<lparr>p_caller_q := q\<rparr>) = sview p" "sview (p\<lparr>p_q_link := q\<rparr>) = sview p"
  "sview (p\<lparr>p_retreg := e\<rparr>) = sview p" "sview (p\<lparr>p_delivermsg_vir := a\<rparr>) = sview p" "sview (p\<lparr>p_priv := i\<rparr>) = sview p"
  by (simp_all add: sview_def set_mf_def clear_mf_def IPC_STATUS_ADD_def)

lemma p_priv_simps [simp]:
  "p_priv (set_mf f p) = p_priv p" "p_priv (clear_mf f p) = p_priv p" "p_priv (IPC_STATUS_ADD m p) = p_priv p"
  by (simp_all add: set_mf_def clear_mf_def IPC_STATUS_ADD_def)

lemma mview_simps [simp]:
  "mview (r\<lparr>s_notify_pending := m\<rparr>) = mview r" "mview (r\<lparr>s_int_pending := i\<rparr>) = mview r"
  "mview (r\<lparr>s_sig_pending := i\<rparr>) = mview r" "mview (r\<lparr>s_sig_mgr := e, s_bak_sig_mgr := e'\<rparr>) = mview r"
  "mview (r\<lparr>s_asynsize := n\<rparr>) = mview r"
  by (simp_all add: mview_def)

lemma mini_notify_quiet:
  assumes "mini_notify c x e s = Some (r, s')"
  shows "quiet s s'"
proof (cases "isokendpt (kc c) (ks s) e")
  case None
  with assms show ?thesis by (simp add: mini_notify_def)
next
  case (Some d)
  show ?thesis
  proof (cases "WILLRECEIVE c (ip s d) (p_endpoint (ip s x)) \<and> \<not> mf (ip s d) MF_REPLY_PEND")
    case False
    with assms Some show ?thesis by (auto simp: mini_notify_def intro: quiet_upd_priv)
  next
    case True
    let ?src = "p_nr (ip s x)"
    let ?m = "(notify_message c ?src d s)\<lparr>k_source := p_endpoint (ip s x)\<rparr>"
    let ?f = "\<lambda>p. IPC_STATUS_ADD (STATUS_CALL_TO c (NOTIFY c)) (set_mf MF_DELIVERMSG (p\<lparr>p_delivermsg := ?m\<rparr>))"
    let ?t = "notify_consume c ?src d s"
    have "quiet s ?t" unfolding notify_consume_def by (rule quiet_upd_priv) simp
    moreover have "quiet ?t (upd_ip d ?f ?t)" by (rule quiet_upd_ip) simp_all
    moreover have "UNSET_RTS c d RTS_RECEIVING (upd_ip d ?f ?t) = Some s'"
      using assms Some True by (auto simp: mini_notify_def kassert_def Let_def split: if_split_asm)
    then have "quiet (upd_ip d ?f ?t) s'" by (rule RTS_quiet(2) [OF sig_free_flags(1)])
    ultimately show ?thesis using quiet_trans by blast
  qed
qed

lemma send_sig_quiet:
  assumes "send_sig c e sig s = Some s'" shows "quiet s s'"
proof -
  from assms obtain rp r where
    "mini_notify c (slot (kc c) (SYSTEM c)) (p_endpoint (ip s rp))
       (upd_priv (p_priv (ip s rp)) (\<lambda>p. p\<lparr>s_sig_pending := insert sig (s_sig_pending p)\<rparr>) s) = Some (r, s')"
    by (auto simp: send_sig_def kassert_def split: option.split_asm if_split_asm)
  from mini_notify_quiet [OF this] show ?thesis by (rule quiet_trans [rotated]) (rule quiet_upd_priv, simp)
qed

subsection \<open>\<^verbatim>\<open>cause_sig\<close>\<close>

text \<open>The view of the signalled process when the signal is recorded for its manager.\<close>

fun record_sig :: "int \<Rightarrow> int set \<times> bool \<times> bool \<times> bool \<Rightarrow> int set \<times> bool \<times> bool \<times> bool" where
  "record_sig sig (pend, free, signaled, pending) = (insert sig pend, free, True, (if signaled then pending else True))"

definition sig_step :: "nat \<Rightarrow> int \<Rightarrow> istate \<Rightarrow> istate \<Rightarrow> bool" where
  "sig_step x sig s s' \<longleftrightarrow> same_privs s s' \<and>
     (\<forall>y < length (kprocs (ks s)). sview (ip s' y) = sview (ip s y) \<or>
        y = x \<and> sview (ip s' y) = record_sig sig (sview (ip s y)))"

lemma quiet_sview: "quiet s s' \<Longrightarrow> y < length (kprocs (ks s)) \<Longrightarrow> sview (ip s' y) = sview (ip s y)"
  unfolding quiet_def same_sigs_def by (metis length_map nth_map)

lemma quiet_sig_step: "quiet s s' \<Longrightarrow> sig_step x sig s s'"
  using quiet_sview by (auto simp: sig_step_def quiet_privs)

lemma quiet_then_step:
  assumes "quiet s t" "sig_step x sig t u" shows "sig_step x sig s u"
  using assms quiet_sview [OF assms(1)] same_length [OF quiet_privs [OF assms(1)]]
    same_privs_trans [OF quiet_privs [OF assms(1)]]
  by (simp add: sig_step_def)

lemma step_then_quiet:
  assumes "sig_step x sig s t" "quiet t u" shows "sig_step x sig s u"
proof -
  have p: "same_privs s t" using assms(1) by (simp add: sig_step_def)
  have "sview (ip u y) = sview (ip t y)" if "y < length (kprocs (ks s))" for y
    using quiet_sview [OF assms(2), of y] that same_length [OF p] by simp
  with assms same_privs_trans [OF p quiet_privs [OF assms(2)]] show ?thesis by (simp add: sig_step_def)
qed

text \<open>The signal is new: it is recorded, and the manager is told if no other signal was waiting.\<close>

lemma record_new:
  fixes sig :: int
  assumes x: "x < length (kprocs (ks s))"
  defines "s1 \<equiv> upd_ip x (\<lambda>p. p\<lparr>p_pending := insert sig (p_pending p)\<rparr>) s"
  shows "RTS_ISSET (ip s x) RTS_SIGNALED \<Longrightarrow> same_privs s s1 \<and> sview (ip s1 x) = record_sig sig (sview (ip s x))"
    "\<not> RTS_ISSET (ip s x) RTS_SIGNALED \<Longrightarrow> SET_RTS x (RTS_SIGNALED OR RTS_SIG_PENDING) s1 = Some s2 \<Longrightarrow>
       same_privs s s2 \<and> sview (ip s2 x) = record_sig sig (sview (ip s x)) \<and>
       (\<forall>y < length (kprocs (ks s)). y \<noteq> x \<longrightarrow> sview (ip s2 y) = sview (ip s y))"
proof -
  have p1: "same_privs s s1" unfolding s1_def by (rule privs_upd_ip) simp
  have b: "RTS_ISSET (ip s x) RTS_SIGNALED \<longleftrightarrow> bit (p_rts_flags (ip s x)) 4"
    using and_exp_iff [of 4 "p_rts_flags (ip s x)"] by (simp add: RTS_ISSET_def RTS_SIGNALED_def)
  show "same_privs s s1 \<and> sview (ip s1 x) = record_sig sig (sview (ip s x))" if "RTS_ISSET (ip s x) RTS_SIGNALED"
    using that p1 x by (simp add: s1_def sview_def b)
  show "same_privs s s2 \<and> sview (ip s2 x) = record_sig sig (sview (ip s x)) \<and>
       (\<forall>y < length (kprocs (ks s)). y \<noteq> x \<longrightarrow> sview (ip s2 y) = sview (ip s y))"
    if "\<not> RTS_ISSET (ip s x) RTS_SIGNALED" "SET_RTS x (RTS_SIGNALED OR RTS_SIG_PENDING) s1 = Some s2"
  proof -
    have "sview (ip s2 y) = (if y = x then sview ((ip s1 y)\<lparr>p_rts_flags := p_rts_flags (ip s1 y) OR (RTS_SIGNALED OR RTS_SIG_PENDING)\<rparr>)
        else sview (ip s1 y))" if "y < length (kprocs (ks s))" for y
      by (rule SET_RTS_sview [OF \<open>SET_RTS x _ s1 = Some s2\<close>]) (use that in \<open>simp add: s1_def\<close>)
    then show ?thesis
      using same_privs_trans [OF p1 RTS_privs(1) [OF that(2)]] that(1) [unfolded b] x
      by (auto simp: s1_def sview_def b RTS_defs bit_simps)
  qed
qed

lemma cause_sig_step:
  assumes "cause_sig c x sig s = Some s'" "x < length (kprocs (ks s))"
  shows "sig_step x sig s s'"
proof -
  have "x < length (kprocs (ks s)) \<longrightarrow> sig_step x sig s s'"
  proof (rule cause_sig.raw_induct [where P = "\<lambda>c x sig s s'. x < length (kprocs (ks s)) \<longrightarrow> sig_step x sig s s'", OF _ assms(1)],
      rule impI)
    fix rec c x sig s s'
    assume IH: "\<And>c x sig s s'. rec c x sig s = Some s' \<Longrightarrow> x < length (kprocs (ks s)) \<longrightarrow> sig_step x sig s s'"
      and *: "(let pr = privof (ks s) x;
          sig_mgr = (if s_sig_mgr pr = SELF c then p_endpoint (ip s x) else s_sig_mgr pr) in
        if p_endpoint (ip s x) = sig_mgr then
          if SIGS_IS_LETHAL c sig then
            (case (if s_bak_sig_mgr pr \<noteq> i_NONE c then isokendpt (kc c) (ks s) (s_bak_sig_mgr pr) else None) of
               None \<Rightarrow> None
             | Some mgr \<Rightarrow>
                 UNSET_RTS c mgr RTS_NO_PRIV
                   (upd_priv (p_priv (ip s x))
                     (\<lambda>p. p\<lparr>s_sig_mgr := s_bak_sig_mgr pr, s_bak_sig_mgr := i_NONE c\<rparr>) s)
                 \<bind> rec c x sig)
          else
            send_sig c (p_endpoint (ip s x)) (SIGKSIGSM c)
              (upd_priv (p_priv (ip s x)) (\<lambda>p. p\<lparr>s_sig_pending := insert sig (s_sig_pending p)\<rparr>) s)
        else if sig \<in> p_pending (ip s x) then Some s
        else
          let s1 = upd_ip x (\<lambda>p. p\<lparr>p_pending := insert sig (p_pending p)\<rparr>) s in
          if RTS_ISSET (ip s1 x) RTS_SIGNALED then Some s1
          else SET_RTS x (RTS_SIGNALED OR RTS_SIG_PENDING) s1 \<bind> send_sig c sig_mgr (SIGKSIG c)) = Some s'"
      and x: "x < length (kprocs (ks s))"
    let ?pr = "privof (ks s) x"
    define mgr where "mgr = (if s_sig_mgr ?pr = SELF c then p_endpoint (ip s x) else s_sig_mgr ?pr)"
    define s1 where "s1 = upd_ip x (\<lambda>p. p\<lparr>p_pending := insert sig (p_pending p)\<rparr>) s"
    note * = * [unfolded Let_def, folded mgr_def s1_def]
    show "sig_step x sig s s'"
    proof (cases "p_endpoint (ip s x) = mgr")
      case True
      show ?thesis
      proof (cases "SIGS_IS_LETHAL c sig")
        case lethal: True
        define t where "t = upd_priv (p_priv (ip s x))
            (\<lambda>p. p\<lparr>s_sig_mgr := s_bak_sig_mgr ?pr, s_bak_sig_mgr := i_NONE c\<rparr>) s"
        from * True lethal obtain m u where u: "UNSET_RTS c m RTS_NO_PRIV t = Some u" "rec c x sig u = Some s'"
          by (auto simp: t_def bind_eq_Some_conv split: option.split_asm if_split_asm)
        have "quiet s t" unfolding t_def by (rule quiet_upd_priv) simp
        then have q: "quiet s u" using RTS_quiet(2) [OF _ u(1)] quiet_trans by simp
        then have "x < length (kprocs (ks u))" using x same_length [OF quiet_privs] by simp
        with IH [OF u(2)] q show ?thesis using quiet_then_step by blast
      next
        case False
        with * True have "send_sig c (p_endpoint (ip s x)) (SIGKSIGSM c)
              (upd_priv (p_priv (ip s x)) (\<lambda>p. p\<lparr>s_sig_pending := insert sig (s_sig_pending p)\<rparr>) s) = Some s'" by simp
        from send_sig_quiet [OF this] have "quiet s s'"
          by (rule quiet_trans [rotated]) (rule quiet_upd_priv, simp)
        then show ?thesis by (rule quiet_sig_step)
      qed
    next
      case ext: False
      show ?thesis
      proof (cases "sig \<in> p_pending (ip s x)")
        case True
        with * ext have "s' = s" by simp
        then show ?thesis by (simp add: quiet_sig_step)
      next
        case new: False
        have f: "p_rts_flags (ip s1 x) = p_rts_flags (ip s x)" using x by (simp add: s1_def)
        show ?thesis
        proof (cases "RTS_ISSET (ip s x) RTS_SIGNALED")
          case True
          with * ext new f have "s' = s1" by (simp add: RTS_ISSET_def)
          moreover have "sview (ip s1 y) = sview (ip s y)" if "y \<noteq> x" for y using that by (simp add: s1_def)
          moreover note record_new(1) [OF x True, of sig, folded s1_def]
          ultimately show ?thesis unfolding sig_step_def by metis
        next
          case False
          with * ext new f obtain s2 where
            s2: "SET_RTS x (RTS_SIGNALED OR RTS_SIG_PENDING) s1 = Some s2" "send_sig c mgr (SIGKSIG c) s2 = Some s'"
            by (auto simp: RTS_ISSET_def bind_eq_Some_conv)
          have "sig_step x sig s s2"
            using record_new(2) [OF x False s2(1) [unfolded s1_def]] unfolding sig_step_def by blast
          then show ?thesis by (rule step_then_quiet [OF _ send_sig_quiet [OF s2(2)]])
        qed
      qed
    qed
  qed
  with assms(2) show ?thesis by simp
qed

subsection \<open>Cleaning up\<close>

lemma clear_refs_quiet: "clear_refs_from c rc ret xs s = Some s' \<Longrightarrow> quiet s s'"
proof (induction xs arbitrary: s)
  case (Cons x xs)
  show ?case
  proof (cases "isemptyp (ip s x)")
    case True
    with Cons show ?thesis by simp
  next
    case False
    define s1 where "s1 = upd_priv (p_priv (ip s x))
        (\<lambda>p. p\<lparr>s_notify_pending := put_sys_bit c False (s_id (privof (ks s) rc)) (s_notify_pending p)\<rparr>) s"
    have q1: "quiet s s1" unfolding s1_def by (rule quiet_upd_priv) (simp add: mview_def)
    show ?thesis
    proof (cases "P_BLOCKEDON c (ip s1 x) = p_endpoint (ip s1 rc)")
      case True
      define s2 where "s2 = upd_ip x (\<lambda>p. p\<lparr>p_retreg := ret\<rparr>) s1"
      obtain s3 where s3: "UNSET_RTS c x (RTS_RECEIVING OR RTS_SENDING) s2 = Some s3" "clear_refs_from c rc ret xs s3 = Some s'"
        using Cons(2) False True by (auto simp: Let_def s1_def s2_def bind_eq_Some_conv)
      have "quiet s1 s2" unfolding s2_def by (rule quiet_upd_ip) (simp_all add: sview_def)
      from quiet_trans [OF quiet_trans [OF quiet_trans [OF q1 this] RTS_quiet(2) [OF sig_free_flags(6) s3(1)]] Cons(1) [OF s3(2)]]
      show ?thesis .
    next
      case nb: False
      have "clear_refs_from c rc ret xs s1 = Some s'"
        using Cons(2) False nb by (simp add: Let_def s1_def)
      from quiet_trans [OF q1 Cons(1) [OF this]] show ?thesis .
    qed
  qed
qed simp

lemma leave_queue_quiet:
  assumes "leave_queue d rc prev s = Some s'" shows "quiet s s'"
proof (rule leave_queue.raw_induct [where P = "\<lambda>d rc prev s s'. quiet s s'", OF _ assms])
  fix rec d rc prev s s'
  assume IH: "\<And>d rc prev s s'. rec d rc prev s = Some s' \<Longrightarrow> quiet s s'"
    and *: "(case (case prev of None \<Rightarrow> p_caller_q (ip s d) | Some a \<Rightarrow> p_q_link (ip s a)) of
        None \<Rightarrow> Some s
      | Some x \<Rightarrow>
          if x = rc then
            Some (case prev of
                    None \<Rightarrow> upd_ip d (\<lambda>p. p\<lparr>p_caller_q := p_q_link (ip s x)\<rparr>) s
                  | Some a \<Rightarrow> upd_ip a (\<lambda>p. p\<lparr>p_q_link := p_q_link (ip s x)\<rparr>) s)
          else rec d rc (Some x) s) = Some s'"
  have u: "quiet s (upd_ip d (\<lambda>p. p\<lparr>p_caller_q := q\<rparr>) s)" "quiet s (upd_ip a (\<lambda>p. p\<lparr>p_q_link := q\<rparr>) s)" for q a
    by (rule quiet_upd_ip; simp)+
  from * show "quiet s s'"
    by (auto simp: u dest: IH split: option.split_asm if_split_asm)
qed

lemma clear_rts_quiet: "sig_free f \<Longrightarrow> quiet s (upd_ip x (clear_rts f) s)"
  by (rule quiet_upd_ip)
    (auto simp: clear_rts_def sview_def sig_free_def bit_and_iff bit_not_iff)

lemma clear_ipc_quiet:
  assumes "clear_ipc c rc s = Some s'" shows "quiet s s'"
proof (cases "RTS_ISSET (ip s rc) RTS_SENDING")
  case True
  with assms obtain d t where t: "leave_queue d rc None s = Some t"
      "s' = upd_ip rc (clear_rts RTS_RECEIVING) (upd_ip rc (clear_rts RTS_SENDING) t)"
    by (auto simp: clear_ipc_def split: option.split_asm)
  show ?thesis unfolding t(2)
    by (rule quiet_trans [OF quiet_trans [OF leave_queue_quiet [OF t(1)] clear_rts_quiet] clear_rts_quiet]) simp_all
next
  case False
  with assms have "s' = upd_ip rc (clear_rts RTS_RECEIVING) s" by (simp add: clear_ipc_def)
  then show ?thesis by (simp add: clear_rts_quiet)
qed

lemma clear_endpoint_quiet:
  assumes "clear_endpoint c rc s = Some s'" shows "quiet s s'"
proof -
  have "\<not> isemptyp (ip s rc)" using assms by (auto simp: clear_endpoint_def kassert_def split: if_split_asm)
  with assms have "SET_RTS rc RTS_NO_ENDPOINT s \<noteq> None"
    by (cases "SET_RTS rc RTS_NO_ENDPOINT s") (simp_all add: clear_endpoint_def kassert_def)
  then obtain s1 where s1: "SET_RTS rc RTS_NO_ENDPOINT s = Some s1" by blast
  define t where "t = (if s_flags (privof (ks s1) rc) AND SYS_PROC c \<noteq> 0
            then upd_priv (p_priv (ip s1 rc)) (\<lambda>p. p\<lparr>s_asynsize := 0\<rparr>) s1 else s1)"
  have "(clear_ipc c rc t \<bind> clear_ipc_refs c rc EDEADSRCDST) = Some s'"
    using assms s1 \<open>\<not> isemptyp (ip s rc)\<close> by (simp add: clear_endpoint_def kassert_def t_def cong: if_cong)
  then obtain s2 where s2: "clear_ipc c rc t = Some s2" and s3: "clear_ipc_refs c rc EDEADSRCDST s2 = Some s'"
    by (cases "clear_ipc c rc t") simp_all
  have "quiet s1 (upd_priv i (\<lambda>p. p\<lparr>s_asynsize := 0\<rparr>) s1)" for i by (rule quiet_upd_priv) (simp add: mview_def)
  then have "quiet s1 t" by (simp add: t_def)
  from quiet_trans [OF quiet_trans [OF RTS_quiet(1) [OF _ s1] this] quiet_trans [OF clear_ipc_quiet [OF s2] clear_refs_quiet]] s3
  show ?thesis by (simp add: clear_ipc_refs_def)
qed

subsection \<open>The two invariants\<close>

text \<open>
  The protocol of signals, for a slot in use: a process with a new signal also waits for the end of the handling, and
  a process has recorded signals exactly when its manager still has to fetch them.
\<close>

definition sig_fine :: "kproc \<Rightarrow> bool" where
  "sig_fine p \<longleftrightarrow> RTS_ISSET p RTS_SLOT_FREE \<or>
     ((RTS_ISSET p RTS_SIGNALED \<longrightarrow> RTS_ISSET p RTS_SIG_PENDING) \<and> (p_pending p = {} \<longleftrightarrow> \<not> RTS_ISSET p RTS_SIGNALED))"

definition sig_ok :: "xstate \<Rightarrow> bool" where
  "sig_ok s \<longleftrightarrow> list_all sig_fine (kprocs (ks (xi s)))"

definition view_fine :: "int set \<times> bool \<times> bool \<times> bool \<Rightarrow> bool" where
  "view_fine = (\<lambda>(pend, free, signaled, pending). free \<or> ((signaled \<longrightarrow> pending) \<and> (pend = {} \<longleftrightarrow> \<not> signaled)))"

lemma sig_flag_tests:
  "RTS_ISSET p RTS_SIGNALED = bit (p_rts_flags p) 4" "RTS_ISSET p RTS_SIG_PENDING = bit (p_rts_flags p) 5"
  using and_exp_iff [of 4 "p_rts_flags p"] and_exp_iff [of 5 "p_rts_flags p"]
  by (simp_all add: RTS_ISSET_def RTS_defs)

lemma sig_fine_view: "sig_fine p = view_fine (sview p)"
  by (simp add: sig_fine_def view_fine_def sview_def flag_tests(1) sig_flag_tests)

lemma sig_ok_iff: "sig_ok s \<longleftrightarrow> (\<forall>x < length (kprocs (ks (xi s))). view_fine (sview (xp s x)))"
  by (simp add: sig_ok_def list_all_length sig_fine_view)

lemma record_fine: "view_fine v \<Longrightarrow> view_fine (record_sig sig v)"
  by (cases v) (auto simp: view_fine_def)

lemma sig_ok_step:
  assumes "sig_step x sig (xi s) (xi s')" "sig_ok s" shows "sig_ok s'"
proof -
  have l: "length (kprocs (ks (xi s'))) = length (kprocs (ks (xi s)))" using assms(1) same_length by (simp add: sig_step_def)
  show ?thesis unfolding sig_ok_iff
  proof (intro allI impI)
    fix y assume y: "y < length (kprocs (ks (xi s')))"
    with assms(2) l have f: "view_fine (sview (xp s y))" by (simp add: sig_ok_iff)
    have "sview (xp s' y) = sview (xp s y) \<or> sview (xp s' y) = record_sig sig (sview (xp s y))"
      using assms(1) y l unfolding sig_step_def by auto
    with f record_fine [OF f, of sig] show "view_fine (sview (xp s' y))" by auto
  qed
qed

lemma sig_ok_quiet: "quiet (xi s) (xi s') \<Longrightarrow> sig_ok s \<Longrightarrow> sig_ok s'"
  using sig_ok_step quiet_sig_step by blast

lemma priv_ok_same:
  assumes "same_privs (xi s) (xi s')" shows "priv_ok c s' = priv_ok c s"
proof -
  have m: "List.map mview (kprivs (ks (xi s'))) = List.map mview (kprivs (ks (xi s)))" using assms by (simp add: same_privs_def)
  then have l: "length (kprivs (ks (xi s'))) = length (kprivs (ks (xi s)))" by (rule map_eq_imp_length_eq)
  have v: "mview (xpriv s' i) = mview (xpriv s i)" if "i < length (kprivs (ks (xi s)))" for i
    using m l that by (metis nth_map)
  have p: "list_all (\<lambda>p. p_priv p < n) (kprocs (ks (xi s'))) = list_all (\<lambda>p. p_priv p < n) (kprocs (ks (xi s)))" for n
  proof -
    have "list_all (\<lambda>p. p_priv p < n) xs = list_all (\<lambda>i. i < n) (List.map p_priv xs)" for xs by (simp add: list_all_iff)
    note eq = this [of "kprocs (ks (xi s))"] this [of "kprocs (ks (xi s'))"]
    show ?thesis using assms unfolding eq by (simp add: same_privs_def)
  qed
  show ?thesis
  proof (cases "length (kprivs (ks (xi s))) = NR c")
    case True
    then have eq: "s_proc_nr (xpriv s' i) = s_proc_nr (xpriv s i)" "s_id (xpriv s' i) = s_id (xpriv s i)"
        "s_ipc_to (xpriv s' i) = s_ipc_to (xpriv s i)" "s_trap_mask (xpriv s' i) = s_trap_mask (xpriv s i)" if "i < NR c" for i
      using v [of i] that by (simp_all add: mview_def)
    have "priv_wf c s' = priv_wf c s" using eq l p by (simp add: priv_wf_def list_all_iff)
    moreover have "masks_ok c s' = masks_ok c s"
      unfolding masks_ok_iff live_def sends_def talks_def using eq by auto
    ultimately show ?thesis by (simp add: priv_ok_def)
  next
    case False
    with l show ?thesis by (simp add: priv_ok_def priv_wf_def)
  qed
qed

end
