(* ===== verification/KCallMain.thy ===== *)
theory KCallMain
  imports KCallInv
begin

text \<open>
  Whole kernel calls.  The handlers of \<^verbatim>\<open>KCalls\<close> keep the two invariants of \<^verbatim>\<open>KCallInv\<close>; the locale
  \<open>kernel_calls\<close> lifts what the handlers keep to \<^verbatim>\<open>kernel_call\<close> and \<^verbatim>\<open>kernel_call_resume\<close>, and is interpreted for
  both invariants on the table of the modelled handlers.  Then the life of a signal, from \<^verbatim>\<open>do_kill\<close> through
  \<^verbatim>\<open>do_getksig\<close> to \<^verbatim>\<open>do_endksig\<close>, and the calls that are refused.
\<close>

unbundle bit_operations_syntax

subsection \<open>Handlers and the signals of processes\<close>

lemma sig_ok_same: "same_sigs (xi s) (xi s') \<Longrightarrow> sig_ok s' = sig_ok s"
proof -
  have "list_all sig_fine xs = list_all view_fine (List.map sview xs)" for xs
    by (simp add: list_all_iff sig_fine_view)
  note eq = this [of "kprocs (ks (xi s))"] this [of "kprocs (ks (xi s'))"]
  assume "same_sigs (xi s) (xi s')"
  then show ?thesis unfolding sig_ok_def eq by (simp add: same_sigs_def)
qed

definition mild :: "xstate \<Rightarrow> xstate \<Rightarrow> bool" where
  "mild s s' \<longleftrightarrow> (\<exists>x sig. sig_step x sig (xi s) (xi s'))"

lemma mildI: "quiet (xi s) (xi s') \<Longrightarrow> mild s s'"
  unfolding mild_def using quiet_sig_step by blast

lemma mild_refl [simp]: "mild s s"
  by (rule mildI) simp

lemma mild_same [simp]: "xi s' = xi s \<Longrightarrow> mild s s'"
  by (rule mildI) simp

lemma quiet_mild: "quiet (xi s) (xi t) \<Longrightarrow> mild t u \<Longrightarrow> mild s u"
  unfolding mild_def using quiet_then_step by blast

lemma mild_ok:
  assumes "mild s s'"
  shows "sig_ok s \<Longrightarrow> sig_ok s'" "priv_ok c s' = priv_ok c s"
proof -
  from assms obtain x sig where st: "sig_step x sig (xi s) (xi s')" unfolding mild_def by blast
  show "sig_ok s \<Longrightarrow> sig_ok s'" by (rule sig_ok_step [OF st])
  show "priv_ok c s' = priv_ok c s" using st by (intro priv_ok_same) (simp add: sig_step_def)
qed

lemma on_xi_Some: "on_xi f s = Some s' \<longleftrightarrow> (\<exists>i. f (xi s) = Some i \<and> s' = s\<lparr>xi := i\<rparr>)"
  by (auto simp: on_xi_def)

lemma reply_Some: "reply m r o1 = Some (r', m', s') \<longleftrightarrow> r' = r \<and> m' = m \<and> o1 = Some s'"
  by (auto simp: reply_def)

lemma on_xi_step:
  assumes "on_xi (cause_sig d x sig) s = Some s'" "x < length (kprocs (ks (xi s)))"
  shows "mild s s'"
  using assms cause_sig_step unfolding on_xi_Some mild_def by fastforce

lemma on_xi_quiet: "on_xi f s = Some s' \<Longrightarrow> (\<And>i. f (xi s) = Some i \<Longrightarrow> quiet (xi s) i) \<Longrightarrow> quiet (xi s) (xi s')"
  by (auto simp: on_xi_Some)

lemma quiet_upd_xp: "(\<And>p. sview (f p) = sview p) \<Longrightarrow> (\<And>p. p_priv (f p) = p_priv p) \<Longrightarrow> quiet (xi s) (xi (upd_xp x f s))"
  by (simp add: upd_xp_def quiet_upd_ip)

lemma xok_slot: "xok c s e = Some p \<Longrightarrow> p < length (kprocs (ks (xi s)))"
  using isokendpt_slot by blast

lemma do_kill_mild: "do_kill c caller m s = Some (r, m', s') \<Longrightarrow> mild s s'"
  by (auto simp: do_kill_def reply_Some split: option.split_asm if_split_asm dest!: xok_slot intro: on_xi_step)

lemma do_exit_mild:
  assumes "do_exit c caller m s = Some (r, m', s')" "slot (kc (ci c)) (p_nr (xp s caller)) < length (kprocs (ks (xi s)))"
  shows "mild s s'"
  using assms by (auto simp: do_exit_def reply_Some intro: on_xi_step)

lemma do_runctl_mild: "do_runctl c caller m s = Some (r, m', s') \<Longrightarrow> mild s s'"
proof -
  assume *: "do_runctl c caller m s = Some (r, m', s')"
  show ?thesis
  proof (cases "xok c s (m_i1 m)")
    case None
    with * show ?thesis by (simp add: do_runctl_def)
  next
    case (Some p)
    define s1 where "s1 = (if (m_i2 m = RC_STOP c \<and> rc_delay c (m_i3 m)) \<and> (RTS_ISSET (xp s p) RTS_SENDING \<or> mf (xp s p) MF_SC_DEFER)
                      then upd_xp p (set_mf MF_SIG_DELAY) s else s)"
    have q: "quiet (xi s) (xi s1)" by (simp add: s1_def quiet_upd_xp)
    have "mild s1 s'" if "s' \<noteq> s"
    proof -
      from * Some that have "s' = s1 \<or> on_xi (SET_RTS p RTS_PROC_STOP) s1 = Some s' \<or> on_xi (UNSET_RTS (ci c) p RTS_PROC_STOP) s1 = Some s'"
        unfolding do_runctl_def s1_def by (auto simp: reply_Some Let_def split: if_split_asm)
      then show ?thesis
      proof (elim disjE)
        assume "on_xi (SET_RTS p RTS_PROC_STOP) s1 = Some s'"
        from on_xi_quiet [OF this RTS_quiet(1) [OF sig_free_flags(4)]] show ?thesis by (rule mildI)
      next
        assume "on_xi (UNSET_RTS (ci c) p RTS_PROC_STOP) s1 = Some s'"
        from on_xi_quiet [OF this RTS_quiet(2) [OF sig_free_flags(4)]] show ?thesis by (rule mildI)
      qed simp
    qed
    then show ?thesis using quiet_mild [OF q] mild_refl by blast
  qed
qed

lemma do_statectl_mild: "do_statectl c caller m s = Some (r, m', s') \<Longrightarrow> mild s s'"
proof -
  assume "do_statectl c caller m s = Some (r, m', s')"
  then have "s' = s \<or> on_xi (clear_ipc_refs (ci c) caller EDEADSRCDST) s = Some s'"
    by (simp add: do_statectl_def reply_Some split: if_split_asm)
  then show ?thesis
    using on_xi_quiet [of "clear_ipc_refs (ci c) caller EDEADSRCDST" s s'] clear_refs_quiet
    by (auto simp: clear_ipc_refs_def intro: mildI)
qed

lemma do_setgrant_mild: "do_setgrant c caller m s = Some (r, m', s') \<Longrightarrow> mild s s'"
  by (auto simp: do_setgrant_def split: if_split_asm)

lemma do_irqctl_xi:
  assumes "do_irqctl c caller m s = Some (r, m', s')" shows "\<exists>t. s' = s\<lparr>xintr := t\<rparr>"
proof -
  have self: "\<exists>t. s = s\<lparr>xintr := t\<rparr>" by (rule exI [of _ "xintr s"]) simp
  have p: "\<exists>t. s' = s\<lparr>xintr := t\<rparr>" if "irq_setpolicy c caller m s = Some (r, m', s')"
    using that self by (auto simp: irq_setpolicy_def Let_def bind_eq_Some_conv split: if_split_asm option.split_asm)
  show ?thesis using assms self p
    by (auto simp: do_irqctl_def Let_def reply_Some split: if_split_asm irq_request.split_asm)
qed

lemma do_irqctl_mild: "do_irqctl c caller m s = Some (r, m', s') \<Longrightarrow> mild s s'"
  by (drule do_irqctl_xi) auto


subsection \<open>Handlers that end a signal or a process\<close>

lemma same_sigsI:
  assumes "length (kprocs (ks s')) = length (kprocs (ks s))" "\<And>y. y < length (kprocs (ks s)) \<Longrightarrow> sview (ip s' y) = sview (ip s y)"
  shows "same_sigs s s'"
  unfolding same_sigs_def by (rule nth_equalityI) (simp_all add: assms)

lemma sig_okI:
  assumes "length (kprocs (ks (xi s'))) = length (kprocs (ks (xi s)))"
    and "\<And>y. y < length (kprocs (ks (xi s))) \<Longrightarrow> view_fine (sview (xp s' y))"
  shows "sig_ok s'"
  using assms by (simp add: sig_ok_iff)

lemma sig_okD: "sig_ok s \<Longrightarrow> y < length (kprocs (ks (xi s))) \<Longrightarrow> view_fine (sview (xp s y))"
  by (simp add: sig_ok_iff)

text \<open>What \<^verbatim>\<open>do_getksig\<close> and \<^verbatim>\<open>do_endksig\<close> do to the view of a process.\<close>

lemma unset_views:
  assumes "UNSET_RTS d p f i = Some i'" "p < length (kprocs (ks i))"
  shows "same_privs i i'"
    "y < length (kprocs (ks i)) \<Longrightarrow> f = RTS_SIGNALED \<Longrightarrow>
      sview (ip i' y) = (if y = p then (p_pending (ip i p), bit (p_rts_flags (ip i p)) 0, False, bit (p_rts_flags (ip i p)) 5) else sview (ip i y))"
    "y < length (kprocs (ks i)) \<Longrightarrow> f = RTS_SIG_PENDING \<Longrightarrow>
      sview (ip i' y) = (if y = p then (p_pending (ip i p), bit (p_rts_flags (ip i p)) 0, bit (p_rts_flags (ip i p)) 4, False) else sview (ip i y))"
proof -
  have b: "bit (w AND NOT RTS_SIGNALED) n = (bit w n \<and> n \<noteq> 4)" "bit (w AND NOT RTS_SIG_PENDING) n = (bit w n \<and> n \<noteq> 5)"
    if "n \<in> {0, 4, 5}" for w n
    using that by (auto simp: bit_and_iff bit_not_iff RTS_SIGNALED_def RTS_SIG_PENDING_def bit_simps)
  show "same_privs i i'" by (rule RTS_privs(2) [OF assms(1)])
  show "sview (ip i' y) = (if y = p then (p_pending (ip i p), bit (p_rts_flags (ip i p)) 0, False, bit (p_rts_flags (ip i p)) 5) else sview (ip i y))"
    if "y < length (kprocs (ks i))" "f = RTS_SIGNALED"
    using UNSET_RTS_sview [OF assms(1) that(1)] that(2) by (simp add: sview_def b)
  show "sview (ip i' y) = (if y = p then (p_pending (ip i p), bit (p_rts_flags (ip i p)) 0, bit (p_rts_flags (ip i p)) 4, False) else sview (ip i y))"
    if "y < length (kprocs (ks i))" "f = RTS_SIG_PENDING"
    using UNSET_RTS_sview [OF assms(1) that(1)] that(2) by (simp add: sview_def b)
qed

lemma do_getksig_cases:
  assumes "do_getksig c caller m s = Some (r, m', s')"
  obtains (none) "find (signaled_for s (p_endpoint (xp s caller))) [k_NR_TASKS (kc (ci c)) ..< length (kprocs (ks (xi s)))] = None"
      "r = OK" "m' = m\<lparr>m_i1 := i_NONE (ci c)\<rparr>" "s' = s"
  | (some) p where "find (signaled_for s (p_endpoint (xp s caller))) [k_NR_TASKS (kc (ci c)) ..< length (kprocs (ks (xi s)))] = Some p"
      "p < length (kprocs (ks (xi s)))" "signaled_for s (p_endpoint (xp s caller)) p" "k_NR_TASKS (kc (ci c)) \<le> p"
      "r = OK" "m' = m\<lparr>m_i1 := p_endpoint (xp s p), m_map := p_pending (xp s p)\<rparr>"
      "UNSET_RTS (ci c) p RTS_SIGNALED (upd_ip p (\<lambda>r. r\<lparr>p_pending := {}\<rparr>) (xi s)) = Some (xi s')" "\<exists>i. s' = s\<lparr>xi := i\<rparr>"
proof (cases "find (signaled_for s (p_endpoint (xp s caller))) [k_NR_TASKS (kc (ci c)) ..< length (kprocs (ks (xi s)))]")
  case None
  have "r = OK" "m' = m\<lparr>m_i1 := i_NONE (ci c)\<rparr>" "s' = s"
    using assms unfolding do_getksig_def None by simp_all
  then show ?thesis by (rule none [OF None])
next
  case (Some p)
  then have f: "p < length (kprocs (ks (xi s)))" "signaled_for s (p_endpoint (xp s caller)) p" "k_NR_TASKS (kc (ci c)) \<le> p"
    by (auto simp: find_Some_iff)
  from assms Some have "r = OK" "m' = m\<lparr>m_i1 := p_endpoint (xp s p), m_map := p_pending (xp s p)\<rparr>"
      and u: "on_xi (UNSET_RTS (ci c) p RTS_SIGNALED) (upd_xp p (\<lambda>r. r\<lparr>p_pending := {}\<rparr>) s) = Some s'"
    by (simp_all add: do_getksig_def reply_Some)
  obtain i where i: "UNSET_RTS (ci c) p RTS_SIGNALED (xi (upd_xp p (\<lambda>r. r\<lparr>p_pending := {}\<rparr>) s)) = Some i"
      "s' = (upd_xp p (\<lambda>r. r\<lparr>p_pending := {}\<rparr>) s)\<lparr>xi := i\<rparr>"
    using u unfolding on_xi_Some by blast
  note e = \<open>r = OK\<close> \<open>m' = _\<close>
  have "UNSET_RTS (ci c) p RTS_SIGNALED (upd_ip p (\<lambda>r. r\<lparr>p_pending := {}\<rparr>) (xi s)) = Some (xi s')"
    using i by (simp add: upd_xp_def)
  moreover have "s' = s\<lparr>xi := i\<rparr>" unfolding i(2) by (simp add: upd_xp_def)
  then have "\<exists>i. s' = s\<lparr>xi := i\<rparr>" by (rule exI)
  ultimately show ?thesis by (rule some [OF Some f e])
qed

lemma do_getksig_keeps:
  assumes "do_getksig c caller m s = Some (r, m', s')"
  shows "same_privs (xi s) (xi s')" "sig_ok s \<Longrightarrow> sig_ok s'"
proof -
  have "same_privs (xi s) (xi s') \<and> (sig_ok s \<longrightarrow> sig_ok s')"
    using assms
  proof (cases rule: do_getksig_cases)
    case none
    then show ?thesis by simp
  next
    case (some p)
    let ?u = "upd_ip p (\<lambda>r. r\<lparr>p_pending := {}\<rparr>) (xi s)"
    have p: "p < length (kprocs (ks ?u))" using some(2) by simp
    note V = unset_views [OF some(7) p]
    have pr: "same_privs (xi s) (xi s')" by (rule same_privs_trans [OF privs_upd_ip V(1)]) simp
    have "sig_ok s'" if I: "sig_ok s"
    proof (rule sig_okI [OF same_length [OF pr]])
      fix y assume y: "y < length (kprocs (ks (xi s)))"
      have "sview (ip (xi s') y) = (if y = p then ({}, bit (p_rts_flags (xp s p)) 0, False, bit (p_rts_flags (xp s p)) 5) else sview (xp s y))"
        using V(2) [of y] y some(2) by (cases "y = p") simp_all
      then show "view_fine (sview (xp s' y))" using sig_okD [OF I y] by (simp add: view_fine_def)
    qed
    with pr show ?thesis by blast
  qed
  then show "same_privs (xi s) (xi s')" "sig_ok s \<Longrightarrow> sig_ok s'" by blast+
qed

lemma do_endksig_cases:
  assumes "do_endksig c caller m s = Some (r, m', s')"
  obtains (same) "s' = s" "m' = m"
  | (ended) p where "xok c s (m_i1 m) = Some p" "p_endpoint (xp s caller) = s_sig_mgr (xpriv s (privx s p))"
      "RTS_ISSET (xp s p) RTS_SIG_PENDING" "\<not> RTS_ISSET (xp s p) RTS_SIGNALED" "r = OK" "m' = m"
      "UNSET_RTS (ci c) p RTS_SIG_PENDING (xi s) = Some (xi s')" "\<exists>i. s' = s\<lparr>xi := i\<rparr>"
proof (cases "r = OK \<and> m' = m \<and> on_xi (UNSET_RTS (ci c) (the (xok c s (m_i1 m))) RTS_SIG_PENDING) s = Some s' \<and> s' \<noteq> s")
  case False
  with assms show ?thesis
    by (intro same) (auto simp: do_endksig_def reply_Some split: option.split_asm if_split_asm)
next
  case True
  with assms obtain p where p: "xok c s (m_i1 m) = Some p" "p_endpoint (xp s caller) = s_sig_mgr (xpriv s (privx s p))"
      "RTS_ISSET (xp s p) RTS_SIG_PENDING" "\<not> RTS_ISSET (xp s p) RTS_SIGNALED"
    by (auto simp: do_endksig_def split: option.split_asm if_split_asm)
  with True obtain i where i: "UNSET_RTS (ci c) p RTS_SIG_PENDING (xi s) = Some i" "s' = s\<lparr>xi := i\<rparr>"
    unfolding on_xi_Some by auto
  have "UNSET_RTS (ci c) p RTS_SIG_PENDING (xi s) = Some (xi s')" unfolding i by simp
  moreover have "\<exists>i. s' = s\<lparr>xi := i\<rparr>" using i(2) by (rule exI)
  ultimately show ?thesis using True by (intro ended [OF p]) simp_all
qed

lemma do_endksig_keeps:
  assumes "do_endksig c caller m s = Some (r, m', s')"
  shows "same_privs (xi s) (xi s')" "sig_ok s \<Longrightarrow> sig_ok s'"
proof -
  have "same_privs (xi s) (xi s') \<and> (sig_ok s \<longrightarrow> sig_ok s')"
    using assms
  proof (cases rule: do_endksig_cases)
    case same
    then show ?thesis by simp
  next
    case (ended p)
    have p: "p < length (kprocs (ks (xi s)))" by (rule xok_slot [OF ended(1)])
    note V = unset_views [OF ended(7) p]
    have "sig_ok s'" if I: "sig_ok s"
    proof (rule sig_okI [OF same_length [OF V(1)]])
      fix y assume y: "y < length (kprocs (ks (xi s)))"
      have "\<not> bit (p_rts_flags (xp s p)) 4" using ended(4) by (simp add: sig_flag_tests)
      then show "view_fine (sview (xp s' y))"
        using V(3) [OF y refl] sig_okD [OF I y] by (cases "y = p") (simp_all add: view_fine_def sview_def)
    qed
    with V(1) show ?thesis by blast
  qed
  then show "same_privs (xi s) (xi s')" "sig_ok s \<Longrightarrow> sig_ok s'" by blast+
qed


subsection \<open>\<^verbatim>\<open>do_clear\<close>\<close>

lemma setflags_view:
  assumes "lift_k (RTS_SETFLAGS p f) i = Some i'" "y < length (kprocs (ks i))"
  shows "same_privs i i'" "y \<noteq> p \<Longrightarrow> sview (ip i' y) = sview (ip i y)" "y = p \<Longrightarrow> p_rts_flags (ip i' y) = f"
proof -
  let ?u = "\<lambda>k. upd_kp p (\<lambda>p. p\<lparr>p_rts_flags := f\<rparr>) k"
  from assms(1) obtain k where k: "k = ks i \<or> dequeue p (ks i) = Some k" "i' = i\<lparr>ks := ?u k\<rparr>"
    by (auto simp: lift_k_def RTS_SETFLAGS_def split: if_split_asm)
  then have n: "no_links k = no_links (ks i)" using dequeue_no_links by blast
  note F = same_core_fields [OF same_core_links [OF n]]
  have "same_core (ks i) (ks i')"
    unfolding k(2) by (simp add: same_core_trans [OF same_core_links [OF n]] same_core_upd)
  then show "same_privs i i'" by (rule core_privs)
  show "sview (ip i' y) = sview (ip i y)" if "y \<noteq> p"
    using that no_links_fields(1) [OF n, of y] coreD(4) [OF F(4) [OF assms(2)]] F(1) assms(2) by (simp add: k(2) sview_def)
  show "p_rts_flags (ip i' y) = f" if "y = p"
    using that F(1) assms(2) by (simp add: k(2))
qed

lemma do_clear_cases:
  assumes "do_clear c caller m s = Some (r, m', s')"
  obtains (same) "xi s' = xi s"
  | (cleared) p i1 i2 i3 where "xok c s (m_i1 m) = Some p" "\<not> isemptyp (xp s p)" "clear_endpoint (ci c) p (xi s) = Some i1"
      "lift_k (RTS_SETFLAGS p RTS_SLOT_FREE) i1 = Some i2" "i3 = upd_ip p (clear_mf MF_FPU_INITIALIZED) i2"
      "xi s' = i3 \<or> xi s' = upd_priv (p_priv (ip i3 p)) (\<lambda>r. r\<lparr>s_proc_nr := i_NONE (ci c)\<rparr>) i3"
proof (cases "xok c s (m_i1 m)")
  case None
  with assms show ?thesis by (intro same) (simp add: do_clear_def)
next
  case (Some p)
  define s1 where "s1 = upd_slot p (\<lambda>l. l\<lparr>p_cr3_v := None\<rparr>) s"
  have x1: "xi s1 = xi s" by (simp add: s1_def upd_slot_def)
  show ?thesis
  proof (cases "isemptyp (xp s p)")
    case True
    with assms Some have "s' = s1" by (simp add: do_clear_def s1_def upd_slot_def)
    with x1 show ?thesis by (intro same) simp
  next
    case False
    have F: "\<not> isemptyp (xp s1 p)" using False x1 by simp
    obtain t where t: "release_hooks c (p_endpoint (xp s1 p)) [0 ..< NR_IRQ_HOOKS c] (xintr s1) = Some t"
      using assms Some F by (cases "release_hooks c (p_endpoint (xp s1 p)) [0 ..< NR_IRQ_HOOKS c] (xintr s1)")
        (simp_all add: do_clear_def s1_def [symmetric] reply_def)
    obtain i1 where i1: "clear_endpoint (ci c) p (xi s) = Some i1"
      using assms Some F t x1 by (cases "clear_endpoint (ci c) p (xi s)")
        (simp_all add: do_clear_def s1_def [symmetric] reply_def on_xi_def)
    obtain i2 where i2: "lift_k (RTS_SETFLAGS p RTS_SLOT_FREE) i1 = Some i2"
      using assms Some F t x1 i1 by (cases "lift_k (RTS_SETFLAGS p RTS_SLOT_FREE) i1")
        (simp_all add: do_clear_def s1_def [symmetric] reply_def on_xi_def upd_ext_def)
    define i3 where "i3 = upd_ip p (clear_mf MF_FPU_INITIALIZED) i2"
    have "xi s' = i3 \<or> xi s' = upd_priv (p_priv (ip i3 p)) (\<lambda>r. r\<lparr>s_proc_nr := i_NONE (ci c)\<rparr>) i3"
      using assms Some F t x1 i1 i2
      by (auto simp: do_clear_def s1_def [symmetric] reply_def on_xi_def upd_ext_def upd_xp_def i3_def [symmetric] upd_xpriv_def Let_def
          split: if_split_asm)
    from cleared [OF Some False i1 i2 i3_def this] show ?thesis .
  qed
qed

lemma do_clear_views:
  assumes "xok c s e = Some p" "clear_endpoint (ci c) p (xi s) = Some i1"
    "lift_k (RTS_SETFLAGS p RTS_SLOT_FREE) i1 = Some i2" "i3 = upd_ip p (clear_mf MF_FPU_INITIALIZED) i2"
    "xi s' = i3 \<or> xi s' = upd_priv (p_priv (ip i3 p)) (\<lambda>r. r\<lparr>s_proc_nr := i_NONE (ci c)\<rparr>) i3"
  shows "length (kprocs (ks (xi s'))) = length (kprocs (ks (xi s)))" "RTS_ISSET (xp s' p) RTS_SLOT_FREE"
    "y < length (kprocs (ks (xi s))) \<Longrightarrow> y \<noteq> p \<Longrightarrow> sview (xp s' y) = sview (xp s y)"
proof -
  have p: "p < length (kprocs (ks (xi s)))" by (rule xok_slot [OF assms(1)])
  note q = clear_endpoint_quiet [OF assms(2)]
  have l1: "length (kprocs (ks i1)) = length (kprocs (ks (xi s)))" by (rule same_length [OF quiet_privs [OF q]])
  have q3: "quiet i2 i3" unfolding assms(4) by (rule quiet_upd_ip) simp_all
  have k3: "kprocs (ks (xi s')) = kprocs (ks i3)" using assms(5) by (auto simp: upd_priv_def)
  have e: "length (kprocs (ks (xi s'))) = length (kprocs (ks i2))" "y < length (kprocs (ks i2)) \<Longrightarrow> sview (xp s' y) = sview (ip i2 y)" for y
    using quiet_sview [OF q3] same_length [OF quiet_privs [OF q3]] k3 by simp_all
  have l2: "length (kprocs (ks i2)) = length (kprocs (ks i1))"
    by (rule same_length [OF setflags_view(1) [OF assms(3), of p]]) (simp add: p l1)
  show "length (kprocs (ks (xi s'))) = length (kprocs (ks (xi s)))" using e(1) l1 l2 by simp
  have "sview (xp s' p) = sview (ip i2 p)" by (rule e(2)) (simp add: p l1 l2)
  moreover have "p_rts_flags (ip i2 p) = RTS_SLOT_FREE" by (rule setflags_view(3) [OF assms(3)]) (simp_all add: p l1)
  ultimately show "RTS_ISSET (xp s' p) RTS_SLOT_FREE" unfolding flag_tests(1) by (simp add: sview_def RTS_SLOT_FREE_def)
  show "sview (xp s' y) = sview (xp s y)" if "y < length (kprocs (ks (xi s)))" "y \<noteq> p"
    using setflags_view(2) [OF assms(3), of y] that l1 l2 quiet_sview [OF q that(1)] e(2) [of y] by simp
qed

lemma do_clear_sigs:
  assumes "do_clear c caller m s = Some (r, m', s')" "sig_ok s"
  shows "sig_ok s'"
  using assms(1)
proof (cases rule: do_clear_cases)
  case same
  then show ?thesis using sig_ok_same [of s s'] assms(2) by (simp add: same_sigs_def)
next
  case (cleared p i1 i2 i3)
  note V = do_clear_views [OF cleared(1,3-6)]
  show ?thesis
  proof (rule sig_okI [OF V(1)])
    fix y assume y: "y < length (kprocs (ks (xi s)))"
    show "view_fine (sview (xp s' y))"
      using V(2) V(3) [OF y] sig_okD [OF assms(2) y] by (cases "y = p") (simp_all add: view_fine_def sview_def flag_tests(1))
  qed
qed


lemma same_privs_priv:
  assumes "same_privs i i'"
  shows "length (kprivs (ks i')) = length (kprivs (ks i))"
    "k < length (kprivs (ks i)) \<Longrightarrow> mview (kprivs (ks i') ! k) = mview (kprivs (ks i) ! k)"
    "x < length (kprocs (ks i)) \<Longrightarrow> p_priv (ip i' x) = p_priv (ip i x)"
proof -
  have m: "List.map mview (kprivs (ks i')) = List.map mview (kprivs (ks i))"
      "List.map p_priv (kprocs (ks i')) = List.map p_priv (kprocs (ks i))" using assms by (simp_all add: same_privs_def)
  show l: "length (kprivs (ks i')) = length (kprivs (ks i))" using m(1) by (rule map_eq_imp_length_eq)
  show "mview (kprivs (ks i') ! k) = mview (kprivs (ks i) ! k)" if "k < length (kprivs (ks i))"
    using that l arg_cong [OF m(1), of "\<lambda>xs. xs ! k"] by simp
  show "p_priv (ip i' x) = p_priv (ip i x)" if "x < length (kprocs (ks i))"
    using that same_length [OF assms] arg_cong [OF m(2), of "\<lambda>xs. xs ! x"] by simp
qed

text \<open>A privilege structure that is given back.\<close>

lemma priv_ok_release:
  assumes P: "priv_ok c s" shows "priv_ok c (upd_xpriv j (\<lambda>r. r\<lparr>s_proc_nr := i_NONE (ic c)\<rparr>) s)"
proof -
  let ?t = "upd_xpriv j (\<lambda>r. r\<lparr>s_proc_nr := i_NONE (ic c)\<rparr>) s"
  have W: "priv_wf c s" and M: "masks_ok c s" using P by (simp_all add: priv_ok_def)
  have x: "xpriv ?t k = (if k = j then (xpriv s j)\<lparr>s_proc_nr := i_NONE (ic c)\<rparr> else xpriv s k)" if "k < NR c" for k
    using that priv_wfD(1) [OF W] by (auto simp: xpriv_upd)
  have f: "live c ?t k \<Longrightarrow> live c s k" "sends c ?t k l = sends c s k l" "talks c ?t k = talks c s k" if "k < NR c" for k l
    using that by (auto simp: live_def sends_def talks_def x split: if_split_asm)
  have "masks_ok c ?t" unfolding masks_ok_iff
  proof (intro conjI allI impI)
    show "\<not> sends c ?t i i" if "i < NR c" "live c ?t i" for i
      using M f that unfolding masks_ok_iff by simp
    show "sends c ?t l i" if "i < NR c" "l < NR c" "live c ?t i" "live c ?t l" "sends c ?t i l" "talks c ?t l" for i l
      using M f that unfolding masks_ok_iff by simp
  qed
  moreover have "priv_wf c ?t" by (rule upd_xpriv_wf [OF W]) simp_all
  ultimately show ?thesis by (simp add: priv_ok_def)
qed

lemma do_clear_privs:
  assumes "do_clear c caller m s = Some (r, m', s')" "priv_ok (xc c) s"
  shows "priv_ok (xc c) s'"
  using assms(1)
proof (cases rule: do_clear_cases)
  case same
  then show ?thesis using priv_ok_same [of s s' "xc c"] assms(2) by simp
next
  case (cleared p i1 i2 i3)
  have p: "p < length (kprocs (ks (xi s)))" by (rule xok_slot [OF cleared(1)])
  have s1: "same_privs (xi s) i1" by (rule quiet_privs [OF clear_endpoint_quiet [OF cleared(3)]])
  have s2: "same_privs i1 i2" by (rule setflags_view(1) [OF cleared(4), of p]) (simp add: p same_length [OF s1])
  have s3: "same_privs i2 i3" unfolding cleared(5) by (rule privs_upd_ip) simp
  define t where "t = s'\<lparr>xi := i3\<rparr>"
  have t: "priv_ok (xc c) t"
    using priv_ok_same [of s t "xc c"] same_privs_trans [OF same_privs_trans [OF s1 s2] s3] assms(2) by (simp add: t_def)
  note u = priv_ok_release [OF t, of "p_priv (ip i3 p)"]
  have "priv_ok (xc c) s' = priv_ok (xc c) (if xi s' = i3 then t else upd_xpriv (p_priv (ip i3 p)) (\<lambda>r. r\<lparr>s_proc_nr := i_NONE (ci c)\<rparr>) t)"
    by (rule priv_ok_same) (use cleared(6) in \<open>auto simp: t_def upd_xpriv_def\<close>)
  then show ?thesis using t u by (simp split: if_split_asm)
qed

subsection \<open>\<^verbatim>\<open>do_privctl\<close> and signals\<close>

lemma sigs_refl [simp]: "xi s' = xi s \<Longrightarrow> same_sigs (xi s) (xi s')"
  by (simp add: same_sigs_def)

lemma sigs_trans: "same_sigs s t \<Longrightarrow> same_sigs t u \<Longrightarrow> same_sigs s u"
  by (simp add: same_sigs_def)

lemma sigs_procs: "kprocs (ks (xi s')) = kprocs (ks (xi s)) \<Longrightarrow> same_sigs (xi s) (xi s')"
  by (simp add: same_sigs_def)

lemma sigs_link: "same_sigs (xi s) (xi (upd_xp p (\<lambda>r. r\<lparr>p_priv := i\<rparr>) s))"
  by (simp add: same_sigs_def upd_xp_def upd_ip_def upd_kp_def map_update_same)

lemma get_priv_sigs: "get_priv c p n s = (r, s') \<Longrightarrow> same_sigs (xi s) (xi s')"
proof -
  have "same_sigs (xi s) (xi (upd_xpriv i f (upd_xp p (\<lambda>r. r\<lparr>p_priv := i\<rparr>) s)))" for i f
    by (rule sigs_trans [OF sigs_link sigs_procs]) simp
  then show "get_priv c p n s = (r, s') \<Longrightarrow> same_sigs (xi s) (xi s')"
    by (auto simp: get_priv_def Let_def split: if_split_asm option.split_asm)
qed

lemma update_priv_procs: "update_priv c p u s = (r, s') \<Longrightarrow> kprocs (ks (xi s')) = kprocs (ks (xi s))"
proof -
  have x: "xi s2 = xi s1" if "update_irqs c me u s1 = Some s2 \<or> update_io c me u s1 = Some s2 \<or> update_mem c me u s1 = Some s2" for me s1 s2
    using that by (auto simp: update_irqs_def update_io_def update_mem_def split: if_split_asm)
  have f: "kprocs (ks (xi (fill_sendto_mask c p m s1))) = kprocs (ks (xi s1))" for m s1
    by (rule no_masks_fields(1) [OF no_masks_fill])
  show "update_priv c p u s = (r, s') \<Longrightarrow> kprocs (ks (xi s')) = kprocs (ks (xi s))"
    by (auto simp: update_priv_def Let_def f split: option.split_asm dest!: x [OF disjI1] x [OF disjI2, OF disjI1] x [OF disjI2, OF disjI2])
qed

lemma set_defaults_procs: "kprocs (ks (xi (set_defaults c caller p n s))) = kprocs (ks (xi s))"
  by (simp add: set_defaults_def Let_def no_masks_fields(1) [OF no_masks_fill])

lemma priv_set_sys_sigs:
  assumes "priv_set_sys c caller p n arg s = (r, s')" shows "same_sigs (xi s) (xi s')"
proof -
  obtain r0 u where u: "copy_priv c caller arg = (r0, u)" by force
  define w where "w = (if arg \<noteq> 0 \<and> u_flags u AND DYN_PRIV_ID c = 0 then u_id u else NULL_PRIV_ID c)"
  obtain i s1 where g: "get_priv c p w s = (i, s1)" by force
  let ?t = "set_defaults c caller p n s1"
  have "(if arg \<noteq> 0 \<and> r0 \<noteq> OK then (r0, s) else if i \<noteq> OK then (i, s1)
      else if arg \<noteq> 0 then update_priv c p u ?t else (OK, ?t)) = (r, s')"
    using assms unfolding priv_set_sys_def Let_def u prod.case w_def [symmetric] g .
  then consider "s' = s" | "s' = s1" | "s' = ?t" | "update_priv c p u ?t = (r, s')"
    by (auto split: if_split_asm)
  then have "s' = s \<or> kprocs (ks (xi s')) = kprocs (ks (xi s1))"
    using update_priv_procs [of c p u ?t r s'] set_defaults_procs [of c caller p n s1] by cases auto
  then show ?thesis using sigs_trans [OF get_priv_sigs [OF g] sigs_procs] by auto
qed

lemma no_priv_sigs:
  "SET_NO_PRIV p s = Some s' \<Longrightarrow> same_sigs (xi s) (xi s')" "UNSET_NO_PRIV c p s = Some s' \<Longrightarrow> same_sigs (xi s) (xi s')"
  using RTS_quiet(1) [OF sig_free_flags(3)] RTS_quiet(2) [OF sig_free_flags(3)]
  by (auto simp: SET_NO_PRIV_def UNSET_NO_PRIV_def on_xi_Some quiet_def)

lemma add_sigs:
  "priv_add_io c caller p a s = (r, s') \<Longrightarrow> same_sigs (xi s) (xi s')"
  "priv_add_mem c caller p a s = (r, s') \<Longrightarrow> same_sigs (xi s) (xi s')"
  "priv_add_irq c caller p a s = (r, s') \<Longrightarrow> same_sigs (xi s) (xi s')"
  by (auto simp: priv_add_io_def priv_add_mem_def priv_add_irq_def add_flag_def Let_def
      split: if_split_asm prod.split_asm intro!: sigs_procs)


lemma privctl_request_sigs:
  assumes "privctl_request c caller p n m s = Some (r, s')" shows "same_sigs (xi s) (xi s')"
proof (cases "ctl_request c (m_i2 m)")
  case SYS_PRIV_ALLOW
  with assms no_priv_sigs show ?thesis by (auto simp: privctl_request_def Let_def split: if_split_asm)
next
  case SYS_PRIV_YIELD
  with assms have "s' = s \<or> (SET_NO_PRIV caller s \<bind> UNSET_NO_PRIV c p) = Some s'"
    by (auto simp: privctl_request_def Let_def split: if_split_asm)
  then show ?thesis using no_priv_sigs sigs_trans by (auto simp: bind_eq_Some_conv) blast
next
  case SYS_PRIV_DISALLOW
  with assms no_priv_sigs show ?thesis by (auto simp: privctl_request_def Let_def split: if_split_asm)
next
  case SYS_PRIV_SET_SYS
  with assms priv_set_sys_sigs [of c caller p n "m_p1 m" s r s'] show ?thesis
    by (auto simp: privctl_request_def Let_def split: if_split_asm)
next
  case SYS_PRIV_SET_USER
  with assms sigs_link show ?thesis by (auto simp: privctl_request_def Let_def split: if_split_asm)
next
  case SYS_PRIV_UPDATE_SYS
  obtain r0 up where "copy_priv c caller (m_p1 m) = (r0, up)" by force
  with assms SYS_PRIV_UPDATE_SYS have "s' = s \<or> update_priv c p up s = (r, s')"
    by (auto simp: privctl_request_def Let_def split: if_split_asm)
  then show ?thesis using update_priv_procs [of c p up s r s'] sigs_procs by auto
qed (use assms add_sigs in \<open>auto simp: privctl_request_def Let_def\<close>)

lemma do_privctl_sigs:
  assumes "do_privctl c caller m s = Some (r, m', s')" shows "same_sigs (xi s) (xi s')"
proof -
  from assms have "s' = s \<or> (\<exists>p n. privctl_request c caller p n m s = Some (r, s'))"
    unfolding do_privctl_def Let_def by (fastforce split: if_split_asm option.split_asm)
  then show ?thesis using privctl_request_sigs by auto
qed


subsection \<open>Invariants of kernel calls\<close>

text \<open>The caller sits in the slot that its endpoint and its process number name.\<close>

definition good_caller :: "ccfg \<Rightarrow> nat \<Rightarrow> xstate \<Rightarrow> bool" where
  "good_caller c x s \<longleftrightarrow> x < length (kprocs (ks (xi s))) \<and>
     slot (kc (ci c)) (k_ENDPOINT_P (kc (ci c)) (p_endpoint (xp s x))) = x \<and> slot (kc (ci c)) (p_nr (xp s x)) = x"

text \<open>
  The contract between the dispatcher and the handlers in its table: a relation between the states before and after
  that every handler brings about, and that depends neither on the memory of the caller nor on what the dispatcher
  itself writes down.
\<close>

locale kernel_steps =
  fixes c :: ccfg and call_vec :: "handler option list" and R :: "nat \<Rightarrow> xstate \<Rightarrow> xstate \<Rightarrow> bool"
  assumes table: "length call_vec = NR_SYS_CALLS c"
    and handlers: "Some h \<in> set call_vec \<Longrightarrow> h caller m s = Some (r, m', s') \<Longrightarrow> good_caller c caller s \<Longrightarrow> R caller s s'"
    and stays: "R caller s s"
    and before: "R caller (upd_xp caller (\<lambda>r. r\<lparr>p_delivermsg_vir := a\<rparr>) s) s' = R caller s s'"
    and slots: "R caller s (upd_slot p f s') = R caller s s'"
    and memory: "R caller s (s'\<lparr>umem := u\<rparr>) = R caller s s'"
    and flags: "R caller s (upd_xp p (set_mf w) s') = R caller s s'" "R caller s (upd_xp p (clear_mf w) s') = R caller s s'"
begin

lemma dispatch_step:
  assumes "kernel_call_dispatch c call_vec caller m s = Some (r, m', s')" "good_caller c caller s"
  shows "R caller s s'"
proof -
  let ?n = "m_type m - KERNEL_CALL c"
  from assms(1) have "s' = s \<or> (0 \<le> ?n \<and> ?n < int (NR_SYS_CALLS c) \<and> (\<exists>h. call_vec ! nat ?n = Some h \<and> h caller m s = Some (r, m', s')))"
    by (auto simp: kernel_call_dispatch_def Let_def split: if_split_asm option.split_asm)
  then show ?thesis
  proof (elim disjE conjE exE)
    fix h assume "0 \<le> ?n" "?n < int (NR_SYS_CALLS c)" "call_vec ! nat ?n = Some h" "h caller m s = Some (r, m', s')"
    moreover from this have "Some h \<in> set call_vec" using table nth_mem [of "nat ?n" call_vec] by simp
    ultimately show "R caller s s'" using handlers assms(2) by blast
  qed (simp add: stays)
qed

lemma finish_step: "kernel_call_finish b c p m r s' = Some s'' \<Longrightarrow> R caller s s'' = R caller s s'"
  by (auto simp: kernel_call_finish_def kassert_def copy_msg_to_user_def Let_def slots memory flags split: if_split_asm)

lemma call_step:
  assumes "kernel_call c call_vec junk a caller s = Some s'" "good_caller c caller s"
  shows "R caller s s'"
proof -
  let ?s1 = "upd_xp caller (\<lambda>p. p\<lparr>p_delivermsg_vir := a\<rparr>) s"
  have G: "good_caller c caller ?s1" using assms(2) by (simp add: good_caller_def upd_xp_def)
  show ?thesis
  proof (cases "umem ?s1 caller a")
    case None
    with assms(1) have "kernel_call_finish False c caller junk EBADREQUEST ?s1 = Some s'" by (simp add: kernel_call_def Let_def)
    from finish_step [OF this, of caller ?s1] stays show ?thesis by (simp add: before)
  next
    case (Some m)
    with assms(1) obtain r m' s2 where
      d: "kernel_call_dispatch c call_vec caller (m\<lparr>m_source := p_endpoint (xp ?s1 caller)\<rparr>) ?s1 = Some (r, m', s2)"
        "kernel_call_finish False c caller m' r s2 = Some s'"
      by (auto simp: kernel_call_def Let_def split: option.split_asm)
    from finish_step [OF d(2), of caller ?s1] dispatch_step [OF d(1) G] show ?thesis by (simp add: before)
  qed
qed

lemma resume_step:
  assumes "kernel_call_resume c call_vec caller s = Some s'" "good_caller c caller s"
  shows "R caller s s'"
proof -
  from assms(1) obtain r m' s2 where
    d: "kernel_call_dispatch c call_vec caller (saved_reqmsg (pslots s ! caller)) s = Some (r, m', s2)"
      "kernel_call_finish True c caller m' r (upd_xp caller (clear_mf MF_KCALL_RESUME) s2) = Some s'"
    by (auto simp: kernel_call_resume_def kassert_def split: option.split_asm if_split_asm)
  from finish_step [OF d(2), of caller s] dispatch_step [OF d(1) assms(2)] show ?thesis by (simp add: flags)
qed

end

text \<open>An invariant that the handlers keep is the special case where the relation says that it is kept.\<close>

locale kernel_calls =
  fixes c :: ccfg and call_vec :: "handler option list" and I :: "xstate \<Rightarrow> bool"
  assumes table: "length call_vec = NR_SYS_CALLS c"
    and handlers: "Some h \<in> set call_vec \<Longrightarrow> h caller m s = Some (r, m', s') \<Longrightarrow> good_caller c caller s \<Longrightarrow> I s \<Longrightarrow> I s'"
    and slots: "I (upd_slot p f s) = I s"
    and memory: "I (s\<lparr>umem := u\<rparr>) = I s"
    and flags: "I (upd_xp p (set_mf w) s) = I s" "I (upd_xp p (clear_mf w) s) = I s"
    and buffer: "I (upd_xp p (\<lambda>r. r\<lparr>p_delivermsg_vir := a\<rparr>) s) = I s"

sublocale kernel_calls \<subseteq> keeps: kernel_steps c call_vec "\<lambda>caller s s'. I s \<longrightarrow> I s'"
  by unfold_locales (auto simp: table slots memory flags buffer intro: handlers)

context kernel_calls
begin

lemma call_keeps:
  "kernel_call c call_vec junk a caller s = Some s' \<Longrightarrow> good_caller c caller s \<Longrightarrow> I s \<Longrightarrow> I s'"
  using keeps.call_step by blast

lemma resume_keeps:
  "kernel_call_resume c call_vec caller s = Some s' \<Longrightarrow> good_caller c caller s \<Longrightarrow> I s \<Longrightarrow> I s'"
  using keeps.resume_step by blast

end

lemma map_calls_set: "Some h \<in> set (map_calls hs v) \<Longrightarrow> Some h \<in> set v \<or> h \<in> snd ` set hs"
proof (induction hs v rule: map_calls.induct)
  case (2 nr g rest v)
  then show ?case using set_update_subset_insert [of v nr "Some g"] by fastforce
qed simp

lemma map_calls_length [simp]: "length (map_calls hs v) = length v"
  by (induction hs v rule: map_calls.induct) simp_all

lemma system_calls_cases:
  assumes "Some h \<in> set (system_calls c nr)"
  shows "h \<in> {do_clear c, do_exit c, do_privctl (xc c), do_setgrant c, do_runctl c, do_statectl c, do_kill c,
    do_getksig c, do_endksig c, do_irqctl c}"
  using map_calls_set [OF assms [unfolded system_calls_def]] by auto

lemma mild_handlers:
  assumes "h \<in> {do_exit c, do_setgrant c, do_runctl c, do_statectl c, do_kill c, do_irqctl c}"
    "h caller m s = Some (r, m', s')" "good_caller c caller s"
  shows "mild s s'"
  using assms do_exit_mild do_setgrant_mild do_runctl_mild do_statectl_mild do_kill_mild do_irqctl_mild
  unfolding good_caller_def by auto

lemma handler_keeps_sigs:
  assumes "Some h \<in> set (system_calls c nr)" "h caller m s = Some (r, m', s')" "good_caller c caller s" "sig_ok s"
  shows "sig_ok s'"
  using system_calls_cases [OF assms(1)] mild_ok(1) [OF mild_handlers [where h = h and c = c, OF _ assms(2,3)] assms(4)] assms(2,4)
    do_clear_sigs do_getksig_keeps(2) do_endksig_keeps(2) sig_ok_same [OF do_privctl_sigs]
  by auto

lemma handler_keeps_privs:
  assumes "Some h \<in> set (system_calls c nr)" "h caller m s = Some (r, m', s')" "good_caller c caller s"
    "priv_ok (xc c) s" "xcfg_ok (xc c)"
  shows "priv_ok (xc c) s'"
proof -
  have p: "priv_ok (xc c) s'" if "h = do_privctl (xc c)"
    using do_privctl_ok [OF assms(4,5)] assms(2,3) that unfolding good_caller_def by blast
  show ?thesis
    using system_calls_cases [OF assms(1)] mild_ok(2) [OF mild_handlers [where h = h and c = c, OF _ assms(2,3)]] assms(2,4) p
      do_clear_privs priv_ok_same [OF do_getksig_keeps(1)] priv_ok_same [OF do_endksig_keeps(1)]
    by auto
qed

lemma quiet_ok:
  assumes "quiet (xi s) (xi s')" shows "sig_ok s' = sig_ok s" "priv_ok c s' = priv_ok c s"
  using assms sig_ok_same priv_ok_same by (auto simp: quiet_def)

lemma dispatcher_quiet:
  "quiet (xi s) (xi (upd_slot p f s))" "quiet (xi s) (xi (s\<lparr>umem := u\<rparr>))"
  "quiet (xi s) (xi (upd_xp p (set_mf w) s))" "quiet (xi s) (xi (upd_xp p (clear_mf w) s))"
  "quiet (xi s) (xi (upd_xp p (\<lambda>r. r\<lparr>p_delivermsg_vir := a\<rparr>) s))"
  by (simp_all add: quiet_upd_xp upd_slot_def)

interpretation sig_calls: kernel_calls c "system_calls c nr" sig_ok for c nr
  by unfold_locales
    (simp add: system_calls_def, erule (3) handler_keeps_sigs, (rule quiet_ok(1), rule dispatcher_quiet)+)

interpretation priv_calls: kernel_calls c "system_calls c nr" "\<lambda>s. xcfg_ok (xc c) \<longrightarrow> priv_ok (xc c) s" for c nr
proof unfold_locales
  show "xcfg_ok (xc c) \<longrightarrow> priv_ok (xc c) s'"
    if "Some h \<in> set (system_calls c nr)" "h caller m s = Some (r, m', s')" "good_caller c caller s"
      "xcfg_ok (xc c) \<longrightarrow> priv_ok (xc c) s" for h caller m s r m' s'
    using handler_keeps_privs [OF that(1-3)] that(4) by blast
qed (simp_all add: system_calls_def quiet_ok(2) [OF dispatcher_quiet(1)] quiet_ok(2) [OF dispatcher_quiet(2)]
    quiet_ok(2) [OF dispatcher_quiet(3)] quiet_ok(2) [OF dispatcher_quiet(4)] quiet_ok(2) [OF dispatcher_quiet(5)])

text \<open>
  What a call may do to the signals of a process: the slot is free afterwards, or nothing changes, or signals are
  recorded, or its manager fetches all that are recorded and leaves it marked as waiting for the end of the handling,
  or its manager ends the handling when no signal is left to fetch.
\<close>

definition signals_move :: "nat \<Rightarrow> xstate \<Rightarrow> xstate \<Rightarrow> nat \<Rightarrow> bool" where
  "signals_move caller s s' x \<longleftrightarrow>
     (let p = xp s x; q = xp s' x; mgr = (s_sig_mgr (xpriv s (privx s x)) = p_endpoint (xp s caller)) in
      RTS_ISSET q RTS_SLOT_FREE \<or>
      (p_pending q = p_pending p \<and> RTS_ISSET q RTS_SIGNALED = RTS_ISSET p RTS_SIGNALED \<and>
         RTS_ISSET q RTS_SIG_PENDING = RTS_ISSET p RTS_SIG_PENDING) \<or>
      (p_pending p \<subseteq> p_pending q \<and> RTS_ISSET q RTS_SIGNALED \<and>
         RTS_ISSET q RTS_SIG_PENDING = (RTS_ISSET p RTS_SIGNALED \<longrightarrow> RTS_ISSET p RTS_SIG_PENDING)) \<or>
      (mgr \<and> RTS_ISSET p RTS_SIGNALED \<and> \<not> RTS_ISSET q RTS_SIGNALED \<and> p_pending q = {} \<and>
         RTS_ISSET q RTS_SIG_PENDING = RTS_ISSET p RTS_SIG_PENDING) \<or>
      (mgr \<and> \<not> RTS_ISSET p RTS_SIGNALED \<and> \<not> RTS_ISSET q RTS_SIGNALED \<and> p_pending q = p_pending p \<and>
         RTS_ISSET p RTS_SIG_PENDING \<and> \<not> RTS_ISSET q RTS_SIG_PENDING))"

fun view_moves :: "bool \<Rightarrow> int set \<times> bool \<times> bool \<times> bool \<Rightarrow> int set \<times> bool \<times> bool \<times> bool \<Rightarrow> bool" where
  "view_moves mgr (pend, free, sig, wait) (pend', free', sig', wait') \<longleftrightarrow> free' \<or>
     (pend' = pend \<and> sig' = sig \<and> wait' = wait) \<or>
     (pend \<subseteq> pend' \<and> sig' \<and> wait' = (sig \<longrightarrow> wait)) \<or>
     (mgr \<and> sig \<and> \<not> sig' \<and> pend' = {} \<and> wait' = wait) \<or>
     (mgr \<and> \<not> sig \<and> \<not> sig' \<and> pend' = pend \<and> wait \<and> \<not> wait')"

lemma signals_move_view:
  "signals_move caller s s' x =
     view_moves (s_sig_mgr (xpriv s (privx s x)) = p_endpoint (xp s caller)) (sview (xp s x)) (sview (xp s' x))"
  by (simp add: signals_move_def Let_def sview_def flag_tests(1) sig_flag_tests)

definition signals_moved :: "nat \<Rightarrow> xstate \<Rightarrow> xstate \<Rightarrow> bool" where
  "signals_moved caller s s' \<longleftrightarrow> length (kprocs (ks (xi s'))) = length (kprocs (ks (xi s))) \<and>
     list_all (signals_move caller s s') [0 ..< length (kprocs (ks (xi s)))]"

lemma signals_movedI:
  "length (kprocs (ks (xi s'))) = length (kprocs (ks (xi s))) \<Longrightarrow>
     (\<And>x. x < length (kprocs (ks (xi s))) \<Longrightarrow> signals_move caller s s' x) \<Longrightarrow> signals_moved caller s s'"
  by (simp add: signals_moved_def list_all_iff)

lemma signals_same: "sview (xp s' x) = sview (xp s x) \<Longrightarrow> signals_move caller s s' x"
  unfolding signals_move_view by (cases "sview (xp s x)") simp

lemma signals_refl [simp]: "signals_moved caller s s" "xi s' = xi s \<Longrightarrow> signals_moved caller s s'"
  by (simp_all add: signals_movedI signals_same)

lemma signals_sigs: "same_sigs (xi s) (xi s') \<Longrightarrow> signals_moved caller s s'"
  unfolding same_sigs_def
  by (rule signals_movedI, erule map_eq_imp_length_eq, rule signals_same)
    (metis length_map nth_map)

lemma signals_mild:
  assumes "mild s s'" shows "signals_moved caller s s'"
proof -
  from assms obtain y sig where st: "sig_step y sig (xi s) (xi s')" unfolding mild_def by blast
  show ?thesis
  proof (rule signals_movedI)
    show "length (kprocs (ks (xi s'))) = length (kprocs (ks (xi s)))" using st same_length by (simp add: sig_step_def)
    fix x assume "x < length (kprocs (ks (xi s)))"
    with st have "sview (xp s' x) = sview (xp s x) \<or> sview (xp s' x) = record_sig sig (sview (xp s x))"
      unfolding sig_step_def by blast
    then show "signals_move caller s s' x" unfolding signals_move_view by (cases "sview (xp s x)") auto
  qed
qed

lemma signals_getksig:
  assumes "do_getksig c caller m s = Some (r, m', s')" shows "signals_moved caller s s'"
  using assms
proof (cases rule: do_getksig_cases)
  case (some p)
  have p: "p < length (kprocs (ks (upd_ip p (\<lambda>r. r\<lparr>p_pending := {}\<rparr>) (xi s))))" using some(2) by simp
  show ?thesis
  proof (rule signals_movedI [OF same_length [OF do_getksig_keeps(1) [OF assms]]])
    fix x assume x: "x < length (kprocs (ks (xi s)))"
    have "sview (xp s' x) = (if x = p then ({}, bit (p_rts_flags (xp s p)) 0, False, bit (p_rts_flags (xp s p)) 5) else sview (xp s x))"
      using unset_views(2) [OF some(7) p, of x] x by (cases "x = p") simp_all
    then show "signals_move caller s s' x"
      using some(3) signals_same by (cases "x = p") (simp_all add: signals_move_view sview_def signaled_for_def sig_flag_tests)
  qed
qed simp

lemma signals_endksig:
  assumes "do_endksig c caller m s = Some (r, m', s')" shows "signals_moved caller s s'"
  using assms
proof (cases rule: do_endksig_cases)
  case (ended p)
  show ?thesis
  proof (rule signals_movedI [OF same_length [OF do_endksig_keeps(1) [OF assms]]])
    fix x assume x: "x < length (kprocs (ks (xi s)))"
    show "signals_move caller s s' x"
      using unset_views(3) [OF ended(7) xok_slot [OF ended(1)] x refl] ended(2-4) signals_same
      by (cases "x = p") (simp_all add: signals_move_view sview_def sig_flag_tests)
  qed
qed simp

lemma signals_clear:
  assumes "do_clear c caller m s = Some (r, m', s')" shows "signals_moved caller s s'"
  using assms
proof (cases rule: do_clear_cases)
  case (cleared p i1 i2 i3)
  note V = do_clear_views [OF cleared(1,3-6)]
  have "signals_move caller s s' p" using V(2) by (simp add: signals_move_def Let_def)
  then show ?thesis using V(3) signals_same by (intro signals_movedI [OF V(1)]) blast
qed simp

lemma handler_moves_signals:
  assumes "Some h \<in> set (system_calls c nr)" "h caller m s = Some (r, m', s')" "good_caller c caller s"
  shows "signals_moved caller s s'"
  using system_calls_cases [OF assms(1)] signals_mild [OF mild_handlers [where h = h and c = c, OF _ assms(2,3)]]
    assms(2) signals_clear signals_getksig signals_endksig signals_sigs [OF do_privctl_sigs]
  by auto

text \<open>What the dispatcher itself writes does not matter.\<close>

lemma signals_moved_quiet:
  assumes "quiet (xi s') (xi t)" shows "signals_moved caller s t = signals_moved caller s s'"
proof -
  have l: "length (kprocs (ks (xi t))) = length (kprocs (ks (xi s')))" by (rule same_length [OF quiet_privs [OF assms]])
  have "signals_move caller s t x = signals_move caller s s' x" if "x < length (kprocs (ks (xi s')))" for x
    by (simp add: signals_move_view quiet_sview [OF assms that])
  then show ?thesis unfolding signals_moved_def list_all_iff l by auto
qed

lemma signals_moved_buffer:
  "signals_moved caller (upd_xp caller (\<lambda>r. r\<lparr>p_delivermsg_vir := a\<rparr>) s) s' = signals_moved caller s s'"
proof -
  let ?t = "upd_xp caller (\<lambda>r. r\<lparr>p_delivermsg_vir := a\<rparr>) s"
  have l: "length (kprocs (ks (xi ?t))) = length (kprocs (ks (xi s)))" by (simp add: upd_xp_def)
  have "signals_move caller ?t s' x = signals_move caller s s' x" if "x < length (kprocs (ks (xi s)))" for x
  proof (cases "caller < length (kprocs (ks (xi s)))")
    case True
    then show ?thesis by (cases "x = caller") (simp_all add: signals_move_view upd_xp_def upd_ip_def)
  next
    case False
    then have "ks (xi ?t) = ks (xi s)" by (simp add: upd_xp_def upd_ip_def upd_kp_def list_update_beyond)
    then show ?thesis by (simp add: signals_move_def)
  qed
  then show ?thesis unfolding signals_moved_def list_all_iff l by auto
qed

interpretation signal_steps: kernel_steps c "system_calls c nr" signals_moved for c nr
  by unfold_locales
    (simp add: system_calls_def, erule (2) handler_moves_signals, simp, rule signals_moved_buffer,
     (rule signals_moved_quiet, rule dispatcher_quiet)+)



subsection \<open>The life of a signal\<close>

text \<open>
  A manager repeats \<^verbatim>\<open>do_getksig\<close> until the answer is \<^verbatim>\<open>NONE\<close>; \<open>n\<close> bounds the number of calls.
\<close>

primrec fetch_signals :: "nat \<Rightarrow> ccfg \<Rightarrow> nat \<Rightarrow> kmsg \<Rightarrow> xstate \<Rightarrow> ((int \<times> int set) list \<times> xstate) option" where
  "fetch_signals 0 c caller m s = Some ([], s)"
| "fetch_signals (Suc n) c caller m s =
     (case do_getksig c caller m s of
        None \<Rightarrow> None
      | Some (r, m', s') \<Rightarrow>
          if m_i1 m' = i_NONE (ci c) then Some ([], s')
          else map_option (\<lambda>(l, s''). ((m_i1 m', m_map m') # l, s'')) (fetch_signals n c caller m s'))"

text \<open>The slots whose signals wait for a manager, in the order of the table.\<close>

definition waiting_for :: "ccfg \<Rightarrow> xstate \<Rightarrow> int \<Rightarrow> nat list" where
  "waiting_for c s mgr = List.filter (signaled_for s mgr) [k_NR_TASKS (kc (ci c)) ..< length (kprocs (ks (xi s)))]"

definition hand_over :: "nat \<Rightarrow> xstate \<Rightarrow> xstate" where
  "hand_over p = upd_xp p (\<lambda>r. r\<lparr>p_pending := {}, p_rts_flags := p_rts_flags r AND NOT RTS_SIGNALED\<rparr>)"

lemma find_filter: "find P xs = (case List.filter P xs of [] \<Rightarrow> None | x # _ \<Rightarrow> Some x)"
  by (induction xs) simp_all

lemma upd_ip_twice: "upd_ip p f (upd_ip p g i) = upd_ip p (\<lambda>x. f (g x)) i"
  by (cases "p < length (kprocs (ks i))") (simp_all add: upd_ip_def upd_kp_def list_update_beyond)

lemma unset_pending:
  assumes "RTS_ISSET (ip i p) RTS_SIG_PENDING" "p < length (kprocs (ks i))"
  shows "UNSET_RTS d p RTS_SIGNALED i = Some (upd_ip p (\<lambda>r. r\<lparr>p_rts_flags := p_rts_flags r AND NOT RTS_SIGNALED\<rparr>) i)"
proof -
  have "bit (p_rts_flags (ip i p) AND NOT RTS_SIGNALED) 5"
    using assms(1) unfolding sig_flag_tests by (simp add: bit_and_iff bit_not_iff RTS_SIGNALED_def bit_simps)
  then have "p_rts_flags (ip i p) AND NOT RTS_SIGNALED \<noteq> 0" by auto
  then show ?thesis
    using assms(2) by (simp add: UNSET_RTS_def lift_k_def RTS_UNSET_def Let_def proc_is_runnable_def upd_ip_def)
qed

lemma getksig_exact:
  assumes "waiting_for c s (p_endpoint (xp s caller)) = p # ps" "RTS_ISSET (xp s p) RTS_SIG_PENDING"
  shows "do_getksig c caller m s = Some (OK, m\<lparr>m_i1 := p_endpoint (xp s p), m_map := p_pending (xp s p)\<rparr>, hand_over p s)"
proof -
  have p: "p < length (kprocs (ks (xi s)))" using arg_cong [OF assms(1), of set] by (auto simp: waiting_for_def)
  let ?i = "upd_ip p (\<lambda>r. r\<lparr>p_pending := {}\<rparr>) (xi s)"
  have "UNSET_RTS (ci c) p RTS_SIGNALED ?i = Some (upd_ip p (\<lambda>r. r\<lparr>p_rts_flags := p_rts_flags r AND NOT RTS_SIGNALED\<rparr>) ?i)"
    by (rule unset_pending) (use assms(2) p in \<open>simp_all add: RTS_ISSET_def\<close>)
  then have u: "on_xi (UNSET_RTS (ci c) p RTS_SIGNALED) (upd_xp p (\<lambda>r. r\<lparr>p_pending := {}\<rparr>) s) = Some (hand_over p s)"
    by (simp add: on_xi_def upd_xp_def hand_over_def upd_ip_twice)
  have "find (signaled_for s (p_endpoint (xp s caller))) [k_NR_TASKS (kc (ci c)) ..< length (kprocs (ks (xi s)))] = Some p"
    using assms(1) by (simp add: find_filter waiting_for_def)
  then show ?thesis by (simp add: do_getksig_def u reply_def)
qed

lemma getksig_none:
  assumes "waiting_for c s (p_endpoint (xp s caller)) = []"
  shows "do_getksig c caller m s = Some (OK, m\<lparr>m_i1 := i_NONE (ci c)\<rparr>, s)"
  using assms by (simp add: do_getksig_def find_filter waiting_for_def)

lemma hand_over_fields:
  assumes "p < length (kprocs (ks (xi s)))"
  shows "length (kprocs (ks (xi (hand_over p s)))) = length (kprocs (ks (xi s)))"
    "kprivs (ks (xi (hand_over p s))) = kprivs (ks (xi s))"
    "p_endpoint (xp (hand_over p s) y) = p_endpoint (xp s y)" "p_priv (xp (hand_over p s) y) = p_priv (xp s y)"
    "y \<noteq> p \<Longrightarrow> xp (hand_over p s) y = xp s y"
    "RTS_ISSET (xp (hand_over p s) p) RTS_SIGNALED = False"
    "RTS_ISSET (xp (hand_over p s) p) RTS_SIG_PENDING = RTS_ISSET (xp s p) RTS_SIG_PENDING"
proof -
  have x: "xp (hand_over p s) y = (if y = p then (xp s p)\<lparr>p_pending := {}, p_rts_flags := p_rts_flags (xp s p) AND NOT RTS_SIGNALED\<rparr> else xp s y)" for y
    using assms by (simp add: hand_over_def upd_xp_def)
  show "length (kprocs (ks (xi (hand_over p s)))) = length (kprocs (ks (xi s)))" "kprivs (ks (xi (hand_over p s))) = kprivs (ks (xi s))"
    by (simp_all add: hand_over_def upd_xp_def upd_ip_def)
  show "p_endpoint (xp (hand_over p s) y) = p_endpoint (xp s y)" "p_priv (xp (hand_over p s) y) = p_priv (xp s y)"
    "y \<noteq> p \<Longrightarrow> xp (hand_over p s) y = xp s y" by (simp_all add: x)
  show "RTS_ISSET (xp (hand_over p s) p) RTS_SIGNALED = False"
    "RTS_ISSET (xp (hand_over p s) p) RTS_SIG_PENDING = RTS_ISSET (xp s p) RTS_SIG_PENDING"
    unfolding sig_flag_tests by (simp_all add: x bit_and_iff bit_not_iff RTS_SIGNALED_def bit_simps)
qed

lemma hand_over_waiting:
  assumes "waiting_for c s mgr = p # ps"
  shows "waiting_for c (hand_over p s) mgr = ps"
proof -
  have p: "p < length (kprocs (ks (xi s)))" using arg_cong [OF assms, of set] by (auto simp: waiting_for_def)
  have d: "distinct (p # ps)" using assms distinct_filter [of "[k_NR_TASKS (kc (ci c)) ..< length (kprocs (ks (xi s)))]"]
    unfolding waiting_for_def by (metis distinct_upt)
  note F = hand_over_fields [OF p]
  have "signaled_for (hand_over p s) mgr y = (y \<noteq> p \<and> signaled_for s mgr y)" for y
    by (cases "y = p") (simp_all add: signaled_for_def F)
  then have "waiting_for c (hand_over p s) mgr = List.filter (\<lambda>y. y \<noteq> p) (waiting_for c s mgr)"
    by (simp add: waiting_for_def F(1) conj_commute cong: filter_cong)
  moreover have "List.filter (\<lambda>y. y \<noteq> p) ps = ps" using d unfolding filter_id_conv by force
  ultimately show ?thesis by (simp add: assms)
qed

lemma fetch_all:
  assumes "waiting_for c s (p_endpoint (xp s caller)) = ps" "length ps < n"
    and "\<And>x. x \<in> set ps \<Longrightarrow> RTS_ISSET (xp s x) RTS_SIG_PENDING \<and> p_endpoint (xp s x) \<noteq> i_NONE (ci c)"
  shows "fetch_signals n c caller m s =
    Some (List.map (\<lambda>x. (p_endpoint (xp s x), p_pending (xp s x))) ps, fold hand_over ps s)"
  using assms
proof (induction n arbitrary: ps s)
  case (Suc n)
  show ?case
  proof (cases ps)
    case Nil
    with Suc.prems(1) have w: "waiting_for c s (p_endpoint (xp s caller)) = []" by simp
    show ?thesis by (simp add: getksig_none [OF w] Nil)
  next
    case (Cons p qs)
    with Suc.prems(1) have w: "waiting_for c s (p_endpoint (xp s caller)) = p # qs" by simp
    have p: "p < length (kprocs (ks (xi s)))" using arg_cong [OF w, of set] by (auto simp: waiting_for_def)
    note F = hand_over_fields [OF p]
    have d: "distinct (p # qs)" unfolding w [symmetric] waiting_for_def by simp
    have P: "RTS_ISSET (xp s p) RTS_SIG_PENDING" "p_endpoint (xp s p) \<noteq> i_NONE (ci c)" using Suc.prems(3) [of p] Cons by simp_all
    have same: "xp (hand_over p s) x = xp s x" if "x \<in> set qs" for x using F(5) [of x] d that by (cases "x = p") simp_all
    have "fetch_signals n c caller m (hand_over p s) =
        Some (List.map (\<lambda>x. (p_endpoint (xp (hand_over p s) x), p_pending (xp (hand_over p s) x))) qs, fold hand_over qs (hand_over p s))"
    proof (rule Suc.IH)
      show "waiting_for c (hand_over p s) (p_endpoint (xp (hand_over p s) caller)) = qs"
        using hand_over_waiting [OF w] by (simp add: F(3))
      show "length qs < n" using Suc.prems(2) Cons by simp
      show "RTS_ISSET (xp (hand_over p s) x) RTS_SIG_PENDING \<and> p_endpoint (xp (hand_over p s) x) \<noteq> i_NONE (ci c)" if "x \<in> set qs" for x
        using Suc.prems(3) [of x] Cons that same [OF that] by simp
    qed
    then show ?thesis using same by (simp add: getksig_exact [OF w P(1)] P(2) Cons)
  qed
qed simp


text \<open>A signal for a process whose manager is another process.\<close>

lemma cause_sig_records:
  assumes "cause_sig d p sig (xi s) = Some (xi s')" "p < length (kprocs (ks (xi s)))" "sig_fine (xp s p)"
    and "\<not> RTS_ISSET (xp s p) RTS_SLOT_FREE" "s_sig_mgr (xpriv s (privx s p)) \<noteq> SELF d"
      "s_sig_mgr (xpriv s (privx s p)) \<noteq> p_endpoint (xp s p)"
  shows "sview (xp s' p) = (insert sig (p_pending (xp s p)), False, True, True)"
proof -
  let ?mgr = "s_sig_mgr (xpriv s (privx s p))"
  define s1 where "s1 = upd_ip p (\<lambda>p. p\<lparr>p_pending := insert sig (p_pending p)\<rparr>) (xi s)"
  have *: "(if sig \<in> p_pending (xp s p) then Some (xi s)
      else if RTS_ISSET (ip s1 p) RTS_SIGNALED then Some s1
      else SET_RTS p (RTS_SIGNALED OR RTS_SIG_PENDING) s1 \<bind> send_sig d ?mgr (SIGKSIG d)) = Some (xi s')"
    using assms(1) assms(5,6) unfolding cause_sig.simps [of d p sig "xi s"] Let_def s1_def privof_def by (simp cong: if_cong)
  have f: "RTS_ISSET (ip s1 p) RTS_SIGNALED = RTS_ISSET (xp s p) RTS_SIGNALED" using assms(2) by (simp add: s1_def RTS_ISSET_def)
  have fine: "RTS_ISSET (xp s p) RTS_SIGNALED \<longrightarrow> RTS_ISSET (xp s p) RTS_SIG_PENDING" "p_pending (xp s p) = {} \<longleftrightarrow> \<not> RTS_ISSET (xp s p) RTS_SIGNALED"
    using assms(3,4) by (simp_all add: sig_fine_def)
  have v: "sview (xp s p) = (p_pending (xp s p), False, RTS_ISSET (xp s p) RTS_SIGNALED, RTS_ISSET (xp s p) RTS_SIG_PENDING)"
    using assms(4) by (simp add: sview_def flag_tests(1) sig_flag_tests)
  show ?thesis
  proof (cases "sig \<in> p_pending (xp s p)")
    case True
    with fine have "RTS_ISSET (xp s p) RTS_SIGNALED" by auto
    with * True fine v show ?thesis by (simp add: insert_absorb)
  next
    case new: False
    show ?thesis
    proof (cases "RTS_ISSET (xp s p) RTS_SIGNALED")
      case True
      with * new f have "xi s' = s1" by simp
      then show ?thesis using record_new(1) [OF assms(2) True, of sig, folded s1_def] v True fine by simp
    next
      case False
      with * new f obtain s2 where s2: "SET_RTS p (RTS_SIGNALED OR RTS_SIG_PENDING) s1 = Some s2" "send_sig d ?mgr (SIGKSIG d) s2 = Some (xi s')"
        by (auto simp: bind_eq_Some_conv)
      have "sview (ip s2 p) = record_sig sig (sview (xp s p))" and l: "same_privs (xi s) s2"
        using record_new(2) [OF assms(2) False s2(1) [unfolded s1_def]] by simp_all
      moreover have "sview (xp s' p) = sview (ip s2 p)"
        by (rule quiet_sview [OF send_sig_quiet [OF s2(2)]]) (simp add: same_length [OF l] assms(2))
      ultimately show ?thesis using v False by simp
    qed
  qed
qed

subsection \<open>Results\<close>

text \<open>
  (C6) No kernel call breaks the symmetry of the send masks.  Whatever call a process makes among the modelled ones,
  with whatever message, denied, failing or not, first or resumed: when the kernel returns from it, ids are still
  indices, every process is still linked to a structure of the table, no live structure lets its process send to
  itself, and whoever may send to a live process that can do more than receive may be answered.
\<close>

theorem kernel_call_keeps_masks:
  assumes "kernel_call c (system_calls c nr) junk a caller s = Some s' \<or> kernel_call_resume c (system_calls c nr) caller s = Some s'"
    and "xcfg_ok (xc c)" "good_caller c caller s" "priv_wf (xc c) s" "masks_ok (xc c) s"
  shows "priv_wf (xc c) s' \<and> masks_ok (xc c) s'"
proof -
  have "xcfg_ok (xc c) \<longrightarrow> priv_ok (xc c) s" using assms(4,5) by (simp add: priv_ok_def)
  then have "xcfg_ok (xc c) \<longrightarrow> priv_ok (xc c) s'"
    using assms(1) priv_calls.call_keeps [OF _ assms(3)] priv_calls.resume_keeps [OF _ assms(3)] by blast
  with assms(2) show ?thesis by (simp add: priv_ok_def)
qed

text \<open>
  (C17) The protocol of signals holds across the modelled kernel calls, those of \<^const>\<open>system_calls\<close>.  In every slot in
  use, a process with a new signal is also marked as waiting for its signals to be handled, and a process has recorded
  signals exactly when its manager still has to fetch them.  In one call, the signals of a process move in one of five
  ways: its slot is free afterwards; nothing changes; signals are recorded and the mark for the manager is set;
  its manager fetches all of them, and the process stays blocked because the mark of waiting is not touched; or its
  manager ends the handling, which removes that mark and happens only when no signal is left to fetch.
\<close>

theorem kernel_call_keeps_signals:
  assumes "kernel_call c (system_calls c nr) junk a caller s = Some s' \<or> kernel_call_resume c (system_calls c nr) caller s = Some s'"
    and "good_caller c caller s" "sig_ok s"
  shows "sig_ok s' \<and> signals_moved caller s s'"
  using assms(1) sig_calls.call_keeps [OF _ assms(2,3)] sig_calls.resume_keeps [OF _ assms(2,3)]
    signal_steps.call_step [OF _ assms(2)] signal_steps.resume_step [OF _ assms(2)] by blast

text \<open>
  (C11) No signal is lost between the kernel and a manager.  When the protocol of signals holds, a manager that repeats
  \<^verbatim>\<open>do_getksig\<close> until the answer is \<^verbatim>\<open>NONE\<close> is told, within one call more than there are processes waiting, every one
  of these processes with exactly the signals recorded for it, in the order of the process table, the kernel never
  panics on the way, and afterwards nothing is left for this manager.
\<close>

theorem signals_reach_manager:
  assumes "sig_ok s" "length (waiting_for c s (p_endpoint (xp s caller))) < n"
    and "list_all (\<lambda>x. \<not> RTS_ISSET (xp s x) RTS_SLOT_FREE \<and> p_endpoint (xp s x) \<noteq> i_NONE (ci c))
           (waiting_for c s (p_endpoint (xp s caller)))"
  shows "\<exists>s'. fetch_signals n c caller m s =
      Some (List.map (\<lambda>x. (p_endpoint (xp s x), p_pending (xp s x))) (waiting_for c s (p_endpoint (xp s caller))), s') \<and>
    waiting_for c s' (p_endpoint (xp s caller)) = []"
proof -
  let ?e = "p_endpoint (xp s caller)"
  let ?ps = "waiting_for c s ?e"
  have P: "RTS_ISSET (xp s x) RTS_SIG_PENDING \<and> p_endpoint (xp s x) \<noteq> i_NONE (ci c)" if x: "x \<in> set ?ps" for x
  proof -
    have l: "x < length (kprocs (ks (xi s)))" "RTS_ISSET (xp s x) RTS_SIGNALED"
      using x by (auto simp: waiting_for_def signaled_for_def)
    have u: "\<not> RTS_ISSET (xp s x) RTS_SLOT_FREE" "p_endpoint (xp s x) \<noteq> i_NONE (ci c)"
      using assms(3) x unfolding list_all_iff by blast+
    have "sig_fine (xp s x)" using assms(1) l(1) by (simp add: sig_ok_def list_all_length)
    with u l(2) show ?thesis by (simp add: sig_fine_def)
  qed
  have "waiting_for c (fold hand_over ps t) ?e = []" if "waiting_for c t ?e = ps" for ps t
    using that by (induction ps arbitrary: t) (simp_all add: hand_over_waiting)
  then show ?thesis using fetch_all [OF refl assms(2) P] by blast
qed

text \<open>
  (C36) A call that does not exist, that the caller has no right to, or that has no handler changes nothing but the
  reply.  A number outside the table gives \<^const>\<open>EBADREQUEST\<close> without a look at the mask, a number that the mask of
  the caller excludes gives \<^const>\<open>ECALLDENIED\<close> even when the entry is unused, and an unused entry that the mask
  allows gives \<^const>\<open>EBADREQUEST\<close>.  The state afterwards is the old one with three changes: the address of the
  buffer is stored, the saved request of the caller is marked as gone, and the caller's own message is back in its
  buffer with the kernel as its source and the error as its type.
\<close>

theorem refused_call_changes_nothing:
  assumes "umem s caller a = Some msg" "caller < length (kprocs (ks (xi s)))" "n = m_type msg - KERNEL_CALL c"
    and "(n < 0 \<or> int (NR_SYS_CALLS c) \<le> n) \<and> e = EBADREQUEST \<or>
      0 \<le> n \<and> n < int (NR_SYS_CALLS c) \<and> \<not> s_k_call_mask (pexts s ! privx s caller) ! nat n \<and> e = ECALLDENIED \<or>
      0 \<le> n \<and> n < int (NR_SYS_CALLS c) \<and> s_k_call_mask (pexts s ! privx s caller) ! nat n \<and>
        call_vec ! nat n = None \<and> e = EBADREQUEST"
  shows "kernel_call c call_vec junk a caller s =
    Some (s\<lparr>xi := upd_ip caller (\<lambda>p. p\<lparr>p_delivermsg_vir := a\<rparr>) (xi s),
      pslots := (pslots s)[caller := (pslots s ! caller)
        \<lparr>saved_reqmsg := (saved_reqmsg (pslots s ! caller))\<lparr>m_source := i_NONE (ci c)\<rparr>\<rparr>],
      umem := (umem s)(caller := (umem s caller)(a := Some (msg\<lparr>m_source := SYSTEM (ci c), m_type := errno_val c e\<rparr>)))\<rparr>)"
proof -
  let ?s1 = "upd_xp caller (\<lambda>p. p\<lparr>p_delivermsg_vir := a\<rparr>) s"
  let ?m = "msg\<lparr>m_source := p_endpoint (xp ?s1 caller)\<rparr>"
  have u: "umem ?s1 caller a = Some msg" using assms(1) by (simp add: upd_xp_def)
  have p: "privx ?s1 caller = privx s caller" "pexts ?s1 = pexts s" using assms(2) by (simp_all add: upd_xp_def)
  have r: "kernel_call_dispatch c call_vec caller ?m ?s1 = Some (e, ?m, ?s1)" "e \<noteq> VMSUSPEND" "e \<noteq> EDONTREPLY"
    using assms(3,4) p unfolding kernel_call_dispatch_def Let_def by auto
  have "kernel_call_finish False c caller ?m e ?s1 =
    Some (copy_msg_to_user caller (?m\<lparr>m_source := SYSTEM (ci c), m_type := errno_val c e\<rparr>) a
      (upd_slot caller (\<lambda>l. l\<lparr>saved_reqmsg := (saved_reqmsg l)\<lparr>m_source := i_NONE (ci c)\<rparr>\<rparr>) ?s1))"
    using r(2,3) assms(2) by (simp add: kernel_call_finish_def Let_def upd_slot_def upd_xp_def)
  with u r(1) show ?thesis
    using assms(1) by (simp add: kernel_call_def Let_def copy_msg_to_user_def upd_slot_def upd_xp_def)
qed


text \<open>
  A signal stops its process.  After a successful \<^verbatim>\<open>do_kill\<close> on a process in use whose manager is another process,
  the signal is recorded together with the earlier ones, the manager has it to fetch, the process is marked as
  waiting for the end of the handling and cannot run, and no other process has gained or lost a signal.
\<close>

theorem kill_stops_process:
  assumes "do_kill c caller m s = Some (OK, m', s')" "xok c s (m_i1 m) = Some p" "sig_ok s"
    and "\<not> RTS_ISSET (xp s p) RTS_SLOT_FREE" "s_sig_mgr (xpriv s (privx s p)) \<noteq> SELF (ci c)"
      "s_sig_mgr (xpriv s (privx s p)) \<noteq> p_endpoint (xp s p)"
  shows "p_pending (xp s' p) = insert (m_i2 m) (p_pending (xp s p)) \<and> RTS_ISSET (xp s' p) RTS_SIGNALED \<and>
    RTS_ISSET (xp s' p) RTS_SIG_PENDING \<and> \<not> proc_is_runnable (xp s' p) \<and>
    list_all (\<lambda>y. y = p \<or> p_pending (xp s' y) = p_pending (xp s y)) [0 ..< length (kprocs (ks (xi s)))]"
proof -
  have p: "p < length (kprocs (ks (xi s)))" by (rule xok_slot [OF assms(2)])
  have k: "cause_sig (ci c) p (m_i2 m) (xi s) = Some (xi s')"
    using assms(1,2) by (auto simp: do_kill_def reply_Some on_xi_Some split: if_split_asm)
  have "sig_fine (xp s p)" using assms(3) p by (simp add: sig_ok_def list_all_length)
  from cause_sig_records [OF k p this assms(4-6)]
  have v: "sview (xp s' p) = (insert (m_i2 m) (p_pending (xp s p)), False, True, True)" .
  then have "p_rts_flags (xp s' p) \<noteq> 0" by (auto simp: sview_def)
  moreover have "p_pending (xp s' y) = p_pending (xp s y)" if "y < length (kprocs (ks (xi s)))" "y \<noteq> p" for y
    using cause_sig_step [OF k p] that by (auto simp: sig_step_def sview_def)
  ultimately show ?thesis using v by (auto simp: sview_def sig_flag_tests proc_is_runnable_def list_all_iff)
qed


subsection \<open>Examples\<close>

declare cause_sig.simps [code]

definition demo_ccfg :: ccfg where
  "demo_ccfg = \<lparr>xc = demo_xcfg, KERNEL_CALL = 100, NR_SYS_CALLS = 10,
     errno_val = (\<lambda>e. case e of OK \<Rightarrow> 0 | EBADREQUEST \<Rightarrow> - 2 | ECALLDENIED \<Rightarrow> - 3 | _ \<Rightarrow> - 1),
     c_NSIG = 26, SIGABRT = 6, RC_STOP = 0, RC_RESUME = 1, rc_delay = (\<lambda>n. n = 1), SYS_STATE_CLEAR_IPC_REFS = 1,
     set_grant_table = (\<lambda>p n e. e\<lparr>s_grant_table := p, s_grant_entries := n\<rparr>),
     irq_request = (\<lambda>n. if n = 1 then IRQ_SETPOLICY else if n = 2 then IRQ_RMPOLICY else if n = 3 then IRQ_ENABLE
        else if n = 4 then IRQ_DISABLE else IRQ_UNKNOWN),
     NR_IRQ_HOOKS = 2, IRQ_REENABLE = 1\<rparr>"

fun demo_nr :: "kcall \<Rightarrow> nat" where
  "demo_nr SYS_CLEAR = 0"
| "demo_nr SYS_EXIT = 1"
| "demo_nr SYS_PRIVCTL = 2"
| "demo_nr SYS_SETGRANT = 3"
| "demo_nr SYS_RUNCTL = 4"
| "demo_nr SYS_STATECTL = 5"
| "demo_nr SYS_KILL = 6"
| "demo_nr SYS_GETKSIG = 7"
| "demo_nr SYS_ENDKSIG = 8"
| "demo_nr SYS_IRQCTL = 9"

text \<open>The process manager (slot 2) has the message for call \<open>t\<close> on process \<open>e\<close> in its memory.\<close>

definition demo_calls :: "int \<Rightarrow> int \<Rightarrow> xstate" where
  "demo_calls t e = demo_x\<lparr>umem := (\<lambda>_ _. Some (demo_kmsg\<lparr>m_type := t, m_i1 := e\<rparr>))\<rparr>"

abbreviation demo_result :: "xstate \<Rightarrow> xstate" where
  "demo_result s \<equiv> the (kernel_call demo_ccfg (system_calls demo_ccfg demo_nr) demo_kmsg 7 2 s)"

lemma demo_result_ok:
  "kernel_call demo_ccfg (system_calls demo_ccfg demo_nr) demo_kmsg 7 2 (demo_calls 102 1) = Some (demo_result (demo_calls 102 1))"
  "kernel_call demo_ccfg (system_calls demo_ccfg demo_nr) demo_kmsg 7 2 (demo_calls 106 2) = Some (demo_result (demo_calls 106 2))"
proof -
  have "kernel_call demo_ccfg (system_calls demo_ccfg demo_nr) demo_kmsg 7 2 (demo_calls 102 1) \<noteq> None"
    "kernel_call demo_ccfg (system_calls demo_ccfg demo_nr) demo_kmsg 7 2 (demo_calls 106 2) \<noteq> None"
    by code_simp+
  then show
    "kernel_call demo_ccfg (system_calls demo_ccfg demo_nr) demo_kmsg 7 2 (demo_calls 102 1) = Some (demo_result (demo_calls 102 1))"
    "kernel_call demo_ccfg (system_calls demo_ccfg demo_nr) demo_kmsg 7 2 (demo_calls 106 2) = Some (demo_result (demo_calls 106 2))"
    by auto
qed

lemma demo_calls_good: "good_caller demo_ccfg 2 (demo_calls t e)"
proof -
  have "good_caller demo_ccfg 2 demo_x" by code_simp
  then show ?thesis by (simp add: good_caller_def demo_calls_def)
qed

lemma demo_calls_ok: "priv_wf (xc demo_ccfg) (demo_calls t e)" "masks_ok (xc demo_ccfg) (demo_calls t e)" "sig_ok (demo_calls t e)"
proof -
  have c: "xc demo_ccfg = demo_xcfg" by (simp add: demo_ccfg_def)
  have "priv_ok demo_xcfg (demo_calls t e)"
    using demo_x_ok quiet_ok(2) [OF dispatcher_quiet(2), of demo_xcfg] by (simp add: demo_calls_def priv_ok_def)
  then show "priv_wf (xc demo_ccfg) (demo_calls t e)" "masks_ok (xc demo_ccfg) (demo_calls t e)" by (simp_all add: c priv_ok_def)
  have "sig_ok demo_x" by code_simp
  then show "sig_ok (demo_calls t e)" using quiet_ok(1) [OF dispatcher_quiet(2)] by (simp add: demo_calls_def)
qed


theorem kernel_call_keeps_masks_witness:
  "priv_wf demo_xcfg (demo_result (demo_calls 102 1)) \<and> masks_ok demo_xcfg (demo_result (demo_calls 102 1)) \<and>
   sends demo_xcfg (demo_calls 102 1) 1 3 \<and> \<not> sends demo_xcfg (demo_result (demo_calls 102 1)) 1 3"
proof -
  have c: "xc demo_ccfg = demo_xcfg" by (simp add: demo_ccfg_def)
  have "sends demo_xcfg (demo_calls 102 1) 1 3 \<and> \<not> sends demo_xcfg (demo_result (demo_calls 102 1)) 1 3" by code_simp
  then show ?thesis
    using kernel_call_keeps_masks [OF disjI1 [OF demo_result_ok(1)] _ demo_calls_good demo_calls_ok(1,2)] demo_xcfg_ok by (simp add: c)
qed

theorem kernel_call_keeps_signals_witness:
  "sig_ok (demo_result (demo_calls 106 2)) \<and> signals_moved 2 (demo_calls 106 2) (demo_result (demo_calls 106 2)) \<and>
   p_pending (xp (demo_result (demo_calls 106 2)) 4) = {4}"
proof -
  have "p_pending (xp (demo_result (demo_calls 106 2)) 4) = {4}" by code_simp
  then show ?thesis
    using kernel_call_keeps_signals [OF disjI1 [OF demo_result_ok(2)] demo_calls_good demo_calls_ok(3)] by simp
qed

definition demo_killed :: xstate where
  "demo_killed = snd (snd (the (do_kill demo_ccfg 2 (demo_kmsg\<lparr>m_i1 := 2\<rparr>) demo_x)))"

lemma demo_killed_run:
  "do_kill demo_ccfg 2 (demo_kmsg\<lparr>m_i1 := 2\<rparr>) demo_x = Some (OK, demo_kmsg\<lparr>m_i1 := 2\<rparr>, demo_killed)"
proof -
  have "map_option fst (do_kill demo_ccfg 2 (demo_kmsg\<lparr>m_i1 := 2\<rparr>) demo_x) = Some OK" by code_simp
  moreover have "map_option (\<lambda>r. fst (snd r)) (do_kill demo_ccfg 2 (demo_kmsg\<lparr>m_i1 := 2\<rparr>) demo_x) = Some (demo_kmsg\<lparr>m_i1 := 2\<rparr>)"
    by code_simp
  ultimately show ?thesis by (auto simp: demo_killed_def)
qed

theorem kill_stops_process_witness:
  "p_pending (xp demo_killed 4) = insert 4 (p_pending (xp demo_x 4)) \<and> \<not> proc_is_runnable (xp demo_killed 4)"
proof -
  have x: "xok demo_ccfg demo_x (m_i1 (demo_kmsg\<lparr>m_i1 := 2\<rparr>)) = Some 4" "sig_ok demo_x" by code_simp+
  have y: "\<not> RTS_ISSET (xp demo_x 4) RTS_SLOT_FREE" "s_sig_mgr (xpriv demo_x (privx demo_x 4)) \<noteq> SELF (ci demo_ccfg)"
    "s_sig_mgr (xpriv demo_x (privx demo_x 4)) \<noteq> p_endpoint (xp demo_x 4)" by code_simp+
  show ?thesis using kill_stops_process [OF demo_killed_run x y] by (simp add: demo_kmsg_def)
qed

theorem signals_reach_manager_witness:
  "\<exists>s'. fetch_signals 2 demo_ccfg 2 demo_kmsg demo_killed = Some ([(2, {4})], s')"
proof -
  have "sig_ok demo_killed"
    using mild_ok(1) [OF do_kill_mild [OF demo_killed_run]] demo_calls_ok(3) by code_simp
  moreover have w: "waiting_for demo_ccfg demo_killed (p_endpoint (xp demo_killed 2)) = [4]" by code_simp
  moreover have "p_endpoint (xp demo_killed 4) = 2" "p_pending (xp demo_killed 4) = {4}"
    "\<not> RTS_ISSET (xp demo_killed 4) RTS_SLOT_FREE" "i_NONE (ci demo_ccfg) \<noteq> 2" by code_simp+
  ultimately show ?thesis using signals_reach_manager [of demo_killed demo_ccfg 2 2 demo_kmsg] by auto
qed

theorem refused_call_changes_nothing_witness:
  "\<exists>s'. kernel_call demo_ccfg (system_calls demo_ccfg demo_nr) demo_kmsg 7 2 (demo_calls 110 2) = Some s' \<and>
     m_type (the (umem s' 2 7)) = - 2 \<and> pexts s' = pexts demo_x"
proof -
  have a: "umem (demo_calls 110 2) 2 7 = Some (demo_kmsg\<lparr>m_type := 110, m_i1 := 2\<rparr>)" "2 < length (kprocs (ks (xi (demo_calls 110 2))))"
    by (simp_all add: demo_calls_def demo_x_def demo_xk_def)
  have n: "10 = m_type (demo_kmsg\<lparr>m_type := 110, m_i1 := 2\<rparr>) - KERNEL_CALL demo_ccfg" by (simp add: demo_ccfg_def)
  have r: "((10 :: int) < 0 \<or> int (NR_SYS_CALLS demo_ccfg) \<le> 10) \<and> EBADREQUEST = EBADREQUEST" by (simp add: demo_ccfg_def)
  have e: "errno_val demo_ccfg EBADREQUEST = - 2" "pexts (demo_calls 110 2) = pexts demo_x"
    by (simp_all add: demo_ccfg_def demo_calls_def)
  show ?thesis
    using refused_call_changes_nothing [OF a n disjI1 [OF r], of "system_calls demo_ccfg demo_nr" demo_kmsg] e by simp
qed

end
