(* ===== verification/KCallIrq.thy ===== *)
theory KCallIrq
  imports KCallMain
begin

text \<open>
  The hooks of drivers: \<^verbatim>\<open>do_irqctl\<close> and the release of hooks in \<^verbatim>\<open>do_clear\<close> on top of the interrupt lines of \<^verbatim>\<open>KIrq\<close>.
  The invariant ties the owners of the table \<^verbatim>\<open>irq_hooks\<close> to the lists of handlers; with it the calls to
  \<^verbatim>\<open>put_irq_handler\<close> and \<^verbatim>\<open>rm_irq_handler\<close> cannot panic, and no driver reaches the hook of another.
\<close>

unbundle bit_operations_syntax

subsection \<open>Hooks without their links\<close>

text \<open>Everything in a hook but the link to the next one on its line.\<close>

definition owner :: "irq_hook \<Rightarrow> irq_hook" where
  "owner h = h\<lparr>h_next := None\<rparr>"

definition owners :: "intr \<Rightarrow> irq_hook list" where
  "owners t = List.map owner (hooks t)"

lemma owners_upd_hook: "(\<And>h. owner (f h) = owner h) \<Longrightarrow> owners (upd_hook x f t) = owners t"
  by (simp add: owners_def upd_hook_def map_update_same)

lemma owners_simps [simp]:
  "owners (set_act q w t) = owners t" "owners (hw_mask b q t) = owners t" "owners (set_line q l v t) = owners t"
proof -
  have "owners (upd_hook x (\<lambda>h. h\<lparr>h_next := v\<rparr>) t) = owners t" for x by (rule owners_upd_hook) (simp add: owner_def)
  then show "owners (set_line q l v t) = owners t" by (cases l) (simp_all add: set_line_def owners_def)
qed (simp_all add: owners_def)

lemma owners_nth:
  assumes "owners t' = owners t"
  shows "length (hooks t') = length (hooks t)" "x < length (hooks t) \<Longrightarrow> owner (hk t' x) = owner (hk t x)"
proof -
  show l: "length (hooks t') = length (hooks t)" using assms unfolding owners_def by (rule map_eq_imp_length_eq)
  show "x < length (hooks t) \<Longrightarrow> owner (hk t' x) = owner (hk t x)"
    using l arg_cong [OF assms, of "\<lambda>xs. xs ! x"] by (simp add: owners_def)
qed

lemma ownerD: "owner g = owner h \<Longrightarrow> proc_nr_e g = proc_nr_e h"
  by (drule arg_cong [of _ _ proc_nr_e]) (simp add: owner_def)

definition installed :: "nat \<Rightarrow> int \<Rightarrow> 32 word \<Rightarrow> irq_hook \<Rightarrow> irq_hook" where
  "installed fn irq w h = h\<lparr>h_next := None, h_handler := fn, h_irq := irq, h_id := w\<rparr>"

lemma put_owners:
  assumes "put_irq_handler x irq fn t = Some t'"
  shows "\<exists>w. owners t' = owners t \<or> owners t' = owners (upd_hook x (installed fn irq w) t)"
proof (cases "find_end (nat irq) x None 0 t")
  case (Some r)
  show ?thesis
  proof (cases r)
    case None
    with assms Some have "t' = t" by (simp add: put_irq_handler_def split: if_split_asm)
    then show ?thesis by simp
  next
    case (Some p)
    obtain line w where p: "p = (line, w)" by force
    have "owners t' = owners (upd_hook x (installed fn irq (low_id w)) t)"
      using assms \<open>find_end _ _ _ _ _ = Some r\<close> Some p
      by (auto simp: put_irq_handler_def Let_def installed_def [abs_def] split: if_split_asm)
    then show ?thesis by blast
  qed
qed (use assms in \<open>simp add: put_irq_handler_def split: if_split_asm\<close>)

lemma put_frame:
  assumes "put_irq_handler x irq fn t = Some t'" "y < length (hooks t)"
  shows "length (hooks t') = length (hooks t)" "y \<noteq> x \<Longrightarrow> owner (hk t' y) = owner (hk t y)"
    "proc_nr_e (hk t' y) = proc_nr_e (hk t y)"
proof -
  from put_owners [OF assms(1)] obtain w where "owners t' = owners t \<or> owners t' = owners (upd_hook x (installed fn irq w) t)" ..
  moreover have g: "proc_nr_e (installed fn irq w h) = proc_nr_e h" for h by (simp add: installed_def)
  ultimately have "length (hooks t') = length (hooks t) \<and> (y \<noteq> x \<longrightarrow> owner (hk t' y) = owner (hk t y)) \<and> proc_nr_e (hk t' y) = proc_nr_e (hk t y)"
  proof (elim disjE)
    assume o: "owners t' = owners t"
    from owners_nth [OF o] assms(2) have "length (hooks t') = length (hooks t)" "owner (hk t' y) = owner (hk t y)" by blast+
    then show ?thesis using ownerD [of "hk t' y" "hk t y"] by blast
  next
    assume o: "owners t' = owners (upd_hook x (installed fn irq w) t)"
    let ?u = "upd_hook x (installed fn irq w) t"
    have l: "length (hooks t') = length (hooks t)" using owners_nth(1) [OF o] by simp
    have e: "owner (hk t' y) = owner (hk ?u y)" by (rule owners_nth(2) [OF o]) (use assms(2) in simp)
    show ?thesis
    proof (cases "y = x")
      case True
      then have "proc_nr_e (hk ?u y) = proc_nr_e (hk t y)" using g assms(2) by simp
      with ownerD [OF e] l True show ?thesis by simp
    next
      case False
      then have "hk ?u y = hk t y" by simp
      with ownerD [OF e] e l show ?thesis by simp
    qed
  qed
  then show "length (hooks t') = length (hooks t)" "y \<noteq> x \<Longrightarrow> owner (hk t' y) = owner (hk t y)"
    "proc_nr_e (hk t' y) = proc_nr_e (hk t y)" by blast+
qed

lemma remove_owners:
  assumes "remove_id q w line t = Some t'" shows "owners t' = owners t"
proof (rule remove_id.raw_induct [where P = "\<lambda>q w line t t'. owners t' = owners t", OF _ assms])
  fix rec q w line t t'
  assume IH: "\<And>q w line t t'. rec q w line t = Some t' \<Longrightarrow> owners t' = owners t"
    and *: "(case get_line q line t of
        None \<Rightarrow> Some t
      | Some x \<Rightarrow>
          if h_id (hooks t ! x) = w then
            let s1 = set_line q line (h_next (hooks t ! x)) t in
            rec q w line (if irq_actids s1 ! q AND w \<noteq> 0 then set_act q (irq_actids s1 ! q AND NOT w) s1 else s1)
          else rec q w (Some x) t) = Some t'"
  from * show "owners t' = owners t"
    by (auto simp: Let_def dest!: IH split: option.split_asm if_split_asm)
qed

lemma rm_owners: "rm_irq_handler x t = Some t' \<Longrightarrow> owners t' = owners t"
  by (auto simp: rm_irq_handler_def Let_def dest!: remove_owners split: if_split_asm)

lemma enable_owners: "owners (enable_irq x t) = owners t" "owners (snd (disable_irq x t)) = owners t"
  by (simp_all add: enable_irq_def disable_irq_def Let_def)

text \<open>Changing the owner of a hook does not touch the lines.\<close>

lemma rel_owner:
  assumes R: "irq_rel t A" and f: "\<And>h. h_next (f h) = h_next h \<and> h_irq (f h) = h_irq h \<and> h_id (f h) = h_id h"
  shows "irq_rel (upd_hook x f t) A"
proof -
  let ?t = "upd_hook x f t"
  have h: "h_next (hk ?t y) = h_next (hk t y)" "h_irq (hk ?t y) = h_irq (hk t y)" "h_id (hk ?t y) = h_id (hk t y)" for y
    using f by (cases "x < length (hooks t)"; cases "y = x"; simp add: upd_hook_def list_update_beyond)+
  have n: "nx ?t = nx t" by (simp add: fun_eq_iff nx_def h)
  have "ids ?t xs = ids t xs" for xs by (simp add: ids_def h)
  then have "line_ok ?t q xs = line_ok t q xs" for q xs by (simp add: line_ok_def n h)
  moreover have "busy ?t y = busy t y" for y by (simp add: busy_def h)
  ultimately show ?thesis using R by (simp add: irq_rel_def)
qed

subsection \<open>The invariant of the table of hooks\<close>

definition on :: "lines_abs \<Rightarrow> nat \<Rightarrow> bool" where
  "on A x \<longleftrightarrow> list_ex (\<lambda>xs. x \<in> set xs) (lines A)"

lemma on_iff: "on A x \<longleftrightarrow> (\<exists>q < length (lines A). x \<in> set (lines A ! q))"
  by (auto simp: on_def list_ex_length)

definition hooks_but :: "ccfg \<Rightarrow> nat set \<Rightarrow> intr \<Rightarrow> lines_abs \<Rightarrow> bool" where
  "hooks_but c X t A \<longleftrightarrow> irq_rel t A \<and> NR_IRQ_HOOKS c \<le> length (hooks t) \<and> length (hooks t) \<le> 32 \<and>
     (\<forall>x < NR_IRQ_HOOKS c. x \<in> X \<or> (proc_nr_e (hk t x) \<noteq> i_NONE (ci c) \<longleftrightarrow> on A x))"

abbreviation hooks_ok :: "ccfg \<Rightarrow> intr \<Rightarrow> lines_abs \<Rightarrow> bool" where
  "hooks_ok c \<equiv> hooks_but c {}"

lemma hooks_butD:
  assumes "hooks_but c X t A"
  shows "irq_rel t A" "NR_IRQ_HOOKS c \<le> length (hooks t)" "length (hooks t) \<le> 32"
    "x < NR_IRQ_HOOKS c \<Longrightarrow> x \<notin> X \<Longrightarrow> proc_nr_e (hk t x) \<noteq> i_NONE (ci c) \<longleftrightarrow> on A x"
  using assms by (auto simp: hooks_but_def)

lemma on_rm:
  assumes "irq_rel t A" shows "on (a_rm x A) y \<longleftrightarrow> on A y \<and> y \<noteq> x"
proof -
  have d: "distinct (lines A ! q)" if "q < length (lines A)" for q
    by (rule line_distinct [OF irq_relD(5) [OF assms that]])
  show ?thesis using d by (auto simp: on_iff a_rm_def set_remove1_eq)
qed

lemma on_put: "q < length (lines A) \<Longrightarrow> on (a_put x q A) y \<longleftrightarrow> on A y \<or> y = x"
  by (auto simp: on_iff a_put_def nth_list_update split: if_split_asm)

lemma line_room:
  assumes "irq_rel t A" "length (hooks t) \<le> 32" "\<not> on A x" "x < length (hooks t)" "q < length (lines A)"
  shows "length (lines A ! q) < 32"
proof -
  note L = irq_relD(5) [OF assms(1,5)]
  have "set (lines A ! q) \<subseteq> {..< length (hooks t)} - {x}"
    using line_okD(2) [OF L] assms(3,5) by (auto simp: on_iff)
  from card_mono [OF _ this] have "card (set (lines A ! q)) \<le> length (hooks t) - 1" using assms(4) by simp
  then show ?thesis using distinct_card [OF line_distinct [OF L]] assms(2,4) by simp
qed

lemma rm_step:
  assumes H: "hooks_ok c t A" and x: "x < NR_IRQ_HOOKS c" "proc_nr_e (hk t x) \<noteq> i_NONE (ci c)"
  shows "\<exists>t'. rm_irq_handler x t = Some t' \<and> hooks_but c {x} t' (a_rm x A) \<and> owners t' = owners t"
proof -
  note R = hooks_butD(1) [OF H]
  have "on A x" using hooks_butD(4) [OF H x(1)] x(2) by simp
  then obtain t' where t': "rm_irq_handler x t = Some t'" "irq_rel t' (a_rm x A)"
    using rm_ok [OF R] unfolding on_def by blast
  note O = rm_owners [OF t'(1)]
  have "hooks_but c {x} t' (a_rm x A)"
    unfolding hooks_but_def on_rm [OF R]
  proof (intro conjI allI impI)
    fix y assume y: "y < NR_IRQ_HOOKS c"
    have "proc_nr_e (hk t' y) = proc_nr_e (hk t y)"
      using ownerD [OF owners_nth(2) [OF O, of y]] y hooks_butD(2) [OF H] by simp
    then show "y \<in> {x} \<or> (proc_nr_e (hk t' y) \<noteq> i_NONE (ci c)) = (on A y \<and> y \<noteq> x)"
      using hooks_butD(4) [OF H y] by auto
  qed (use t'(2) owners_nth(1) [OF O] hooks_butD(2,3) [OF H] in simp_all)
  with t'(1) O show ?thesis by blast
qed

lemma free_step:
  assumes H: "hooks_ok c t A" and x: "x < NR_IRQ_HOOKS c" "proc_nr_e (hk t x) \<noteq> i_NONE (ci c)"
  shows "\<exists>t'. free_hook c x t = Some t' \<and> hooks_ok c t' (a_rm x A) \<and>
    (\<forall>y < length (hooks t). y \<noteq> x \<longrightarrow> owner (hk t' y) = owner (hk t y)) \<and> proc_nr_e (hk t' x) = i_NONE (ci c) \<and>
    length (hooks t') = length (hooks t)"
proof -
  from rm_step [OF H x] obtain u where u: "rm_irq_handler x t = Some u" "hooks_but c {x} u (a_rm x A)" "owners u = owners t" by blast
  let ?t = "upd_hook x (\<lambda>r. r\<lparr>proc_nr_e := i_NONE (ci c)\<rparr>) u"
  note R = hooks_butD(1) [OF H]
  have xl: "x < length (hooks u)" using x(1) hooks_butD(2) [OF u(2)] by simp
  have "irq_rel ?t (a_rm x A)" by (rule rel_owner [OF hooks_butD(1) [OF u(2)]]) simp
  moreover have "proc_nr_e (hk ?t y) \<noteq> i_NONE (ci c) \<longleftrightarrow> on (a_rm x A) y" if "y < NR_IRQ_HOOKS c" for y
    using hooks_butD(4) [OF u(2) that] xl on_rm [OF R, of x x] by (cases "y = x") simp_all
  ultimately have "hooks_ok c ?t (a_rm x A)" using hooks_butD(2,3) [OF u(2)] by (simp add: hooks_but_def)
  moreover have "owner (hk ?t y) = owner (hk t y)" if "y < length (hooks t)" "y \<noteq> x" for y
    using owners_nth(2) [OF u(3) that(1)] that(2) by simp
  ultimately show ?thesis using u(1) xl owners_nth(1) [OF u(3)] by (auto simp: free_hook_def)
qed

lemma install_step:
  fixes me :: int and fn n :: nat and w :: "32 word"
  assumes H: "hooks_but c {x} t A" and x: "x < NR_IRQ_HOOKS c" "\<not> on A x" and irq: "valid_irq t irq" and me: "me \<noteq> i_NONE (ci c)"
  defines "u \<equiv> upd_hook x (\<lambda>h. h\<lparr>proc_nr_e := me, notify_id := n, policy := w\<rparr>) t"
  shows "\<exists>t'. put_irq_handler x irq fn u = Some t' \<and> hooks_ok c t' (a_put x (nat irq) A) \<and>
    (\<forall>y < length (hooks t). y \<noteq> x \<longrightarrow> owner (hk t' y) = owner (hk t y)) \<and>
    length (hooks t') = length (hooks t)"
proof -
  note R = hooks_butD(1) [OF H]
  have xl: "x < length (hooks t)" using x(1) hooks_butD(2) [OF H] by simp
  have q: "nat irq < length (lines A)" "int (nat irq) = irq" using irq irq_relD(1) [OF R] by (auto simp: valid_irq_def)
  have U: "irq_rel u A" unfolding u_def by (rule rel_owner [OF R]) simp
  have ul: "length (hooks u) = length (hooks t)" by (simp add: u_def)
  have "op_ok (length (hooks u)) A (Put x (nat irq) fn)"
    using xl q(1) line_room [OF R hooks_butD(3) [OF H] x(2) xl q(1)] x(2) by (auto simp: op_ok_def ul list_all_iff on_iff)
  from put_ok [OF U this, unfolded q(2)] obtain t' where
    t': "put_irq_handler x irq fn u = Some t'" "irq_rel t' (a_put x (nat irq) A)" by blast
  have o: "length (hooks t') = length (hooks t)" "y \<noteq> x \<Longrightarrow> owner (hk t' y) = owner (hk t y)"
      "proc_nr_e (hk t' y) = (if y = x then me else proc_nr_e (hk t y))" if "y < length (hooks t)" for y
    using put_frame [OF t'(1), of y] that xl by (simp_all add: ul) (simp_all add: u_def)
  have "hooks_ok c t' (a_put x (nat irq) A)"
    unfolding hooks_but_def on_put [OF q(1)]
  proof (intro conjI allI impI)
    fix y assume y: "y < NR_IRQ_HOOKS c"
    then have "y < length (hooks t)" using hooks_butD(2) [OF H] by simp
    from o(3) [OF this] show "y \<in> {} \<or> (proc_nr_e (hk t' y) \<noteq> i_NONE (ci c)) = (on A y \<or> y = x)"
      using hooks_butD(4) [OF H y] me by (auto split: if_split_asm)
  qed (use t'(2) o(1) [OF xl] hooks_butD(2,3) [OF H] in simp_all)
  with t'(1) o(2) o(1) [OF xl] show ?thesis by auto
qed


subsection \<open>\<^verbatim>\<open>do_irqctl\<close>\<close>

text \<open>
  The hooks that do not belong to \<open>me\<close> and are in use, by another process or by the kernel, and what it means that
  they are left alone: every field but the link stays, they are on the same lines in the same order, and they are
  busy if and only if they were.
\<close>

definition foreign :: "ccfg \<Rightarrow> int \<Rightarrow> intr \<Rightarrow> nat \<Rightarrow> bool" where
  "foreign c me t x \<longleftrightarrow> x < length (hooks t) \<and> proc_nr_e (hk t x) \<noteq> me \<and>
     \<not> (x < NR_IRQ_HOOKS c \<and> proc_nr_e (hk t x) = i_NONE (ci c))"

definition lines_keep :: "(nat \<Rightarrow> bool) \<Rightarrow> lines_abs \<Rightarrow> lines_abs \<Rightarrow> bool" where
  "lines_keep P A A' \<longleftrightarrow> List.map (List.filter P) (lines A') = List.map (List.filter P) (lines A) \<and>
     (\<forall>x \<in> (active A - active A') \<union> (active A' - active A). \<not> P x)"

definition others_keep :: "ccfg \<Rightarrow> int \<Rightarrow> intr \<Rightarrow> lines_abs \<Rightarrow> intr \<Rightarrow> lines_abs \<Rightarrow> bool" where
  "others_keep c me t A t' A' \<longleftrightarrow> length (hooks t') = length (hooks t) \<and>
     list_all (\<lambda>x. \<not> foreign c me t x \<or> owner (hk t' x) = owner (hk t x)) [0 ..< length (hooks t)] \<and>
     lines_keep (foreign c me t) A A'"

lemma others_keep_owners:
  assumes "owners t' = owners t" "lines_keep (foreign c me t) A A'" shows "others_keep c me t A t' A'"
  unfolding others_keep_def list_all_iff using owners_nth [OF assms(1)] assms(2) by simp

lemma lines_keep_refl [simp]: "lines_keep P A A"
  by (simp add: lines_keep_def)

lemma lines_keep_trans: "lines_keep P A B \<Longrightarrow> lines_keep P B C \<Longrightarrow> lines_keep P A C"
  by (auto simp: lines_keep_def)

lemma lines_keep_ops:
  assumes "\<not> P x"
  shows "lines_keep P A (a_rm x A)" "lines_keep P A (a_put x q A)"
    "lines_keep P A (A\<lparr>active := insert x (active A)\<rparr>)" "lines_keep P A (A\<lparr>active := active A - {x}\<rparr>)"
proof -
  have r: "List.filter P (remove1 x xs) = List.filter P xs" for xs using assms by (induction xs) auto
  have p: "List.map (List.filter P) ((lines A)[q := lines A ! q @ [x]]) = List.map (List.filter P) (lines A)"
  proof (rule nth_equalityI)
    show "List.map (List.filter P) ((lines A)[q := lines A ! q @ [x]]) ! i = List.map (List.filter P) (lines A) ! i"
      if "i < length (List.map (List.filter P) ((lines A)[q := lines A ! q @ [x]]))" for i
      using that assms by (cases "i = q") simp_all
  qed simp
  show "lines_keep P A (a_rm x A)" using assms by (auto simp: lines_keep_def a_rm_def r)
  show "lines_keep P A (a_put x q A)" using p by (simp add: lines_keep_def a_put_def)
  show "lines_keep P A (A\<lparr>active := insert x (active A)\<rparr>)" "lines_keep P A (A\<lparr>active := active A - {x}\<rparr>)"
    using assms by (auto simp: lines_keep_def)
qed

lemma owner_check_ok:
  assumes "owner_check c caller h s = OK" "hooks_ok c (xintr s) A"
  shows "nat h < NR_IRQ_HOOKS c" "proc_nr_e (hk (xintr s) (nat h)) = p_endpoint (xp s caller)"
    "proc_nr_e (hk (xintr s) (nat h)) \<noteq> i_NONE (ci c)" "on A (nat h)"
proof -
  show h: "nat h < NR_IRQ_HOOKS c" "proc_nr_e (hk (xintr s) (nat h)) = p_endpoint (xp s caller)"
    "proc_nr_e (hk (xintr s) (nat h)) \<noteq> i_NONE (ci c)"
    using assms(1) by (auto simp: owner_check_def split: if_split_asm)
  show "on A (nat h)" using hooks_butD(4) [OF assms(2) h(1)] h(3) by simp
qed

definition irqctl_good :: "ccfg \<Rightarrow> nat \<Rightarrow> lines_abs \<Rightarrow> xstate \<Rightarrow> (errno \<times> kmsg \<times> xstate) option \<Rightarrow> bool" where
  "irqctl_good c caller A s res \<longleftrightarrow> (\<exists>r m' t A'. res = Some (r, m', s\<lparr>xintr := t\<rparr>) \<and> hooks_ok c t A' \<and>
     others_keep c (p_endpoint (xp s caller)) (xintr s) A t A')"

lemma irqctl_goodI:
  "hooks_ok c t A' \<Longrightarrow> others_keep c (p_endpoint (xp s caller)) (xintr s) A t A' \<Longrightarrow>
     irqctl_good c caller A s (Some (r, m', s\<lparr>xintr := t\<rparr>))"
  unfolding irqctl_good_def by blast

lemma irqctl_good_same: "hooks_ok c (xintr s) A \<Longrightarrow> irqctl_good c caller A s (Some (r, m', s))"
  using irqctl_goodI [of c "xintr s" A s caller A r m'] others_keep_owners [of "xintr s" "xintr s"] by simp

lemma setpolicy_good:
  assumes H: "hooks_ok c (xintr s) A" and me: "p_endpoint (xp s caller) \<noteq> i_NONE (ci c)"
  shows "irqctl_good c caller A s (irq_setpolicy c caller m s)"
proof -
  let ?t = "xintr s" and ?me = "p_endpoint (xp s caller)" and ?irq = "m_i2 m" and ?n = "nat (m_i3 m)" and ?w = "m_l1 m"
  note same = irqctl_good_same [OF H]
  note L = hooks_butD(2) [OF H]
  let ?P = "foreign c ?me ?t"
  have keep: "others_keep c ?me ?t A t' A'"
    if "\<forall>y < length (hooks ?t). y \<noteq> i \<longrightarrow> owner (hk t' y) = owner (hk ?t y)" "length (hooks t') = length (hooks ?t)"
      "\<not> ?P i" "lines_keep ?P A A'" for t' A' i
    using that unfolding others_keep_def list_all_iff by auto
  let ?inst = "\<lambda>i t1. map_option (\<lambda>t2. (OK, m\<lparr>m_i3 := int i + 1\<rparr>, s\<lparr>xintr := t2\<rparr>))
      (put_irq_handler i ?irq GENERIC_HANDLER (upd_hook i (\<lambda>h. h\<lparr>proc_nr_e := ?me, notify_id := ?n, policy := ?w\<rparr>) t1))"
  let ?mine = "find (\<lambda>i. proc_nr_e (hk ?t i) = ?me \<and> int (notify_id (hk ?t i)) = m_i3 m) [0 ..< NR_IRQ_HOOKS c]"
  let ?free = "find (\<lambda>i. proc_nr_e (hk ?t i) = i_NONE (ci c)) [0 ..< NR_IRQ_HOOKS c]"
  have res: "irqctl_good c caller A s (?inst i t1)"
    if v: "valid_irq t1 ?irq" and b: "hooks_but c {i} t1 B" "i < NR_IRQ_HOOKS c" "\<not> on B i" "owners t1 = owners ?t"
      "proc_nr_e (hk ?t i) = ?me \<or> proc_nr_e (hk ?t i) = i_NONE (ci c)" "lines_keep ?P A B" for i t1 B
  proof -
    from install_step [OF b(1-3) v me, where fn = GENERIC_HANDLER and n = ?n and w = ?w] obtain t' where
      t': "put_irq_handler i ?irq GENERIC_HANDLER (upd_hook i (\<lambda>h. h\<lparr>proc_nr_e := ?me, notify_id := ?n, policy := ?w\<rparr>) t1) = Some t'"
        "hooks_ok c t' (a_put i (nat ?irq) B)" "\<forall>y < length (hooks t1). y \<noteq> i \<longrightarrow> owner (hk t' y) = owner (hk t1 y)"
        "length (hooks t') = length (hooks t1)" by blast
    have nf: "\<not> ?P i" using b(2,5) by (auto simp: foreign_def)
    have "others_keep c ?me ?t A t' (a_put i (nat ?irq) B)"
      by (rule keep [OF _ _ nf lines_keep_trans [OF b(6) lines_keep_ops(2) [where P = ?P and x = i, OF nf]]]) (use t'(3,4) owners_nth [OF b(4)] in auto)
    from irqctl_goodI [OF t'(2) this] show ?thesis by (simp add: t'(1))
  qed
  have e: "irq_setpolicy c caller m s =
      (if \<not> valid_irq ?t ?irq then Some (EINVAL, m, s) else if \<not> irq_allowed c caller ?irq s then Some (EPERM, m, s)
       else if m_i3 m < 0 \<or> m_i3 m > 31 then Some (EINVAL, m, s)
       else case ?mine of Some i \<Rightarrow> rm_irq_handler i ?t \<bind> ?inst i
            | None \<Rightarrow> (case ?free of None \<Rightarrow> Some (ENOSPC, m, s) | Some i \<Rightarrow> ?inst i ?t))"
    by (simp add: irq_setpolicy_def Let_def)
  show ?thesis
  proof (cases "\<not> valid_irq ?t ?irq \<or> \<not> irq_allowed c caller ?irq s \<or> m_i3 m < 0 \<or> m_i3 m > 31")
    case True
    then show ?thesis unfolding e using same by auto
  next
    case False
    then have v: "valid_irq ?t ?irq" and e: "irq_setpolicy c caller m s =
        (case ?mine of Some i \<Rightarrow> rm_irq_handler i ?t \<bind> ?inst i
         | None \<Rightarrow> (case ?free of None \<Rightarrow> Some (ENOSPC, m, s) | Some i \<Rightarrow> ?inst i ?t))" unfolding e by simp_all
    show ?thesis
    proof (cases ?mine)
      case (Some i)
      then have i: "i < NR_IRQ_HOOKS c" "proc_nr_e (hk ?t i) = ?me" by (auto simp: find_Some_iff)
      with me rm_step [OF H i(1)] obtain t1 where
        t1: "rm_irq_handler i ?t = Some t1" "hooks_but c {i} t1 (a_rm i A)" "owners t1 = owners ?t" by auto
      have "length (irq_handlers t1) = length (irq_handlers ?t)"
        using irq_relD(1) [OF hooks_butD(1) [OF t1(2)]] irq_relD(1) [OF hooks_butD(1) [OF H]] by (simp add: a_rm_def)
      then have v1: "valid_irq t1 ?irq" using v by (simp add: valid_irq_def)
      have "\<not> on (a_rm i A) i" using on_rm [OF hooks_butD(1) [OF H]] by simp
      have "\<not> ?P i" using i by (simp add: foreign_def)
      from res [OF v1 t1(2) i(1) \<open>\<not> on (a_rm i A) i\<close> t1(3) disjI1 [OF i(2)] lines_keep_ops(1) [where P = ?P and x = i, OF this]] show ?thesis unfolding e by (simp add: Some t1(1))
    next
      case None
      show ?thesis
      proof (cases ?free)
        case f: None
        show ?thesis unfolding e None f using same by simp
      next
        case (Some i)
        then have i: "i < NR_IRQ_HOOKS c" "proc_nr_e (hk ?t i) = i_NONE (ci c)" by (auto simp: find_Some_iff)
        have "\<not> on A i" using hooks_butD(4) [OF H i(1)] i(2) by simp
        moreover have "hooks_but c {i} ?t A" using H by (auto simp: hooks_but_def)
        ultimately show ?thesis unfolding e None Some using res [OF v _ i(1) _ refl disjI2 [OF i(2)] lines_keep_refl] by simp
      qed
    qed
  qed
qed


lemma hooks_ok_rel:
  assumes "hooks_ok c t A" "irq_rel t' A'" "owners t' = owners t" "lines A' = lines A"
  shows "hooks_ok c t' A'"
  unfolding hooks_but_def
proof (intro conjI allI impI)
  fix x assume x: "x < NR_IRQ_HOOKS c"
  have "proc_nr_e (hk t' x) = proc_nr_e (hk t x)" using ownerD [OF owners_nth(2) [OF assms(3), of x]] x hooks_butD(2) [OF assms(1)] by simp
  then show "x \<in> {} \<or> (proc_nr_e (hk t' x) \<noteq> i_NONE (ci c)) = on A' x"
    using hooks_butD(4) [OF assms(1) x] assms(4) by (simp add: on_def)
qed (use assms(2) owners_nth(1) [OF assms(3)] hooks_butD(2,3) [OF assms(1)] in simp_all)

lemma irqctl_ok:
  assumes H: "hooks_ok c (xintr s) A" and me: "p_endpoint (xp s caller) \<noteq> i_NONE (ci c)"
  shows "irqctl_good c caller A s (do_irqctl c caller m s)"
proof -
  let ?h = "m_i3 m - 1"
  let ?t = "xintr s"
  note R = hooks_butD(1) [OF H] and same = irqctl_good_same [OF H]
  show ?thesis
  proof (cases "owner_check c caller ?h s = OK \<and> irq_request c (m_i1 m) \<in> {IRQ_ENABLE, IRQ_DISABLE, IRQ_RMPOLICY}")
    case False
    then show ?thesis using same setpolicy_good [OF H me]
      by (auto simp: do_irqctl_def Let_def split: irq_request.split)
  next
    case True
    then have chk: "owner_check c caller ?h s = OK" by blast
    note C = owner_check_ok [OF chk H]
    have on: "list_ex (\<lambda>xs. nat ?h \<in> set xs) (lines A)" using C(4) by (simp add: on_def)
    have e: "hooks_ok c (enable_irq (nat ?h) ?t) (A\<lparr>active := active A - {nat ?h}\<rparr>)"
        "hooks_ok c (snd (disable_irq (nat ?h) ?t)) (A\<lparr>active := insert (nat ?h) (active A)\<rparr>)"
      using hooks_ok_rel [OF H enable_ok [OF R on] enable_owners(1)] hooks_ok_rel [OF H disable_ok(1) [OF R on] enable_owners(2)] by simp_all
    from free_step [OF H C(1,3)] obtain t' where t': "free_hook c (nat ?h) ?t = Some t'" "hooks_ok c t' (a_rm (nat ?h) A)"
      "\<forall>y < length (hooks ?t). y \<noteq> nat ?h \<longrightarrow> owner (hk t' y) = owner (hk ?t y)" "length (hooks t') = length (hooks ?t)" by blast
    have nf: "\<not> foreign c (p_endpoint (xp s caller)) ?t (nat ?h)" using C(2) by (simp add: foreign_def)
    note K = lines_keep_ops [where P = "foreign c (p_endpoint (xp s caller)) ?t" and x = "nat ?h", OF nf]
    have "others_keep c (p_endpoint (xp s caller)) ?t A t' (a_rm (nat ?h) A)"
      using t'(3,4) nf K(1) unfolding others_keep_def list_all_iff by auto
    note f = irqctl_goodI [OF t'(2) this]
    show ?thesis
      using True chk irqctl_goodI [OF e(1) others_keep_owners [OF enable_owners(1) K(4)]]
        irqctl_goodI [OF e(2) others_keep_owners [OF enable_owners(2) K(3)]] f t'(1)
      by (auto simp: do_irqctl_def Let_def reply_def)
  qed
qed

subsection \<open>The hooks of a process that goes away\<close>

lemma release_ok:
  assumes "hooks_ok c t A" "e \<noteq> i_NONE (ci c)" "distinct xs" "set xs \<subseteq> {..< NR_IRQ_HOOKS c}"
  shows "\<exists>t' A'. release_hooks c e xs t = Some t' \<and> hooks_ok c t' A' \<and> length (hooks t') = length (hooks t) \<and>
    (\<forall>x < length (hooks t). proc_nr_e (hk t' x) = (if x \<in> set xs \<and> proc_nr_e (hk t x) = e then i_NONE (ci c) else proc_nr_e (hk t x)))"
  using assms
proof (induction xs arbitrary: t A)
  case (Cons x xs)
  show ?case
  proof (cases "e = proc_nr_e (hk t x)")
    case False
    with Cons.IH [OF Cons.prems(1,2)] Cons.prems(3,4) obtain t' A' where
      t': "release_hooks c e xs t = Some t'" "hooks_ok c t' A'" "length (hooks t') = length (hooks t)"
        "\<forall>x < length (hooks t). proc_nr_e (hk t' x) = (if x \<in> set xs \<and> proc_nr_e (hk t x) = e then i_NONE (ci c) else proc_nr_e (hk t x))"
      by auto
    with False show ?thesis by (intro exI [of _ t'] exI [of _ A']) auto
  next
    case True
    have x: "x < NR_IRQ_HOOKS c" "proc_nr_e (hk t x) \<noteq> i_NONE (ci c)" using Cons.prems(2,4) True by auto
    from free_step [OF Cons.prems(1) x] obtain u where u: "free_hook c x t = Some u" "hooks_ok c u (a_rm x A)"
      "\<forall>y < length (hooks t). y \<noteq> x \<longrightarrow> owner (hk u y) = owner (hk t y)" "proc_nr_e (hk u x) = i_NONE (ci c)"
      "length (hooks u) = length (hooks t)" by blast
    have u3: "proc_nr_e (hk u y) = proc_nr_e (hk t y)" if "y < length (hooks t)" "y \<noteq> x" for y
      using u(3) that ownerD by blast
    from Cons.IH [OF u(2) Cons.prems(2)] Cons.prems(3,4) obtain t' A' where
      t': "release_hooks c e xs u = Some t'" "hooks_ok c t' A'" "length (hooks t') = length (hooks u)"
        "\<And>y. y < length (hooks u) \<Longrightarrow> proc_nr_e (hk t' y) = (if y \<in> set xs \<and> proc_nr_e (hk u y) = e then i_NONE (ci c) else proc_nr_e (hk u y))"
      by auto
    have "proc_nr_e (hk t' y) = (if y \<in> set (x # xs) \<and> proc_nr_e (hk t y) = e then i_NONE (ci c) else proc_nr_e (hk t y))"
      if y: "y < length (hooks t)" for y
      using t'(4) [of y] u3 [of y] u(4,5) y Cons.prems(2,3) True by (cases "y = x") auto
    with t' u(1,5) True show ?thesis by (intro exI [of _ t'] exI [of _ A']) auto
  qed
qed auto

subsection \<open>The state after \<^verbatim>\<open>system_init\<close>\<close>

lemma init_hooks_fields:
  "irq_rel t A \<Longrightarrow> irq_rel (fold (\<lambda>i. upd_hook i (\<lambda>h. h\<lparr>proc_nr_e := e\<rparr>)) xs t) A \<and>
     length (hooks (fold (\<lambda>i. upd_hook i (\<lambda>h. h\<lparr>proc_nr_e := e\<rparr>)) xs t)) = length (hooks t) \<and>
     (\<forall>x < length (hooks t). x \<in> set xs \<longrightarrow> proc_nr_e (hk (fold (\<lambda>i. upd_hook i (\<lambda>h. h\<lparr>proc_nr_e := e\<rparr>)) xs t) x) = e)"
proof (induction xs rule: rev_induct)
  case (snoc i xs)
  let ?f = "\<lambda>i. upd_hook i (\<lambda>h. h\<lparr>proc_nr_e := e\<rparr>)"
  let ?t = "fold ?f xs t"
  have IH: "irq_rel ?t A" "length (hooks ?t) = length (hooks t)"
    "\<And>x. x < length (hooks t) \<Longrightarrow> x \<in> set xs \<Longrightarrow> proc_nr_e (hk ?t x) = e" using snoc by blast+
  have "irq_rel (?f i ?t) A" by (rule rel_owner [OF IH(1)]) simp
  moreover have "proc_nr_e (hk (?f i ?t) x) = e" if "x < length (hooks t)" "x \<in> set (xs @ [i])" for x
    using IH(2,3) that by (cases "x = i") simp_all
  ultimately show ?case using IH(2) by simp
qed simp

text \<open>When no handler is installed yet, \<^verbatim>\<open>system_init\<close> establishes the invariant.\<close>

lemma init_hooks_ok:
  assumes "irq_rel t A" "\<And>x. \<not> on A x" "NR_IRQ_HOOKS c \<le> length (hooks t)" "length (hooks t) \<le> 32"
  shows "hooks_ok c (init_hooks c t) A"
  using init_hooks_fields [OF assms(1), of "i_NONE (ci c)" "[0 ..< NR_IRQ_HOOKS c]"] assms(2-4)
  unfolding init_hooks_def hooks_but_def by auto

subsection \<open>Results\<close>

text \<open>
  (C15) A driver's call \<^verbatim>\<open>sys_irqctl\<close> cannot panic the kernel and cannot touch the hooks of others.  When the hooks in use
  are exactly those on the lists of handlers, the call returns for every message: the lists stay well formed and in
  step with the table, and nothing but the interrupt state changes.  Every hook that is in use by another process, or
  by the kernel itself, keeps all its fields but the link, stays on its line and in its place among such hooks, and
  is not enabled or disabled: it is busy after the call if and only if it was before.
\<close>

theorem irqctl_never_panics:
  assumes "hooks_ok c (xintr s) A" "p_endpoint (xp s caller) \<noteq> i_NONE (ci c)"
  shows "\<exists>r m' t A'. do_irqctl c caller m s = Some (r, m', s\<lparr>xintr := t\<rparr>) \<and> hooks_ok c t A' \<and>
    others_keep c (p_endpoint (xp s caller)) (xintr s) A t A'"
  using irqctl_ok [OF assms, of m] unfolding irqctl_good_def by simp

text \<open>
  When a process is cleaned up, \<^verbatim>\<open>do_clear\<close> takes every hook of the process off its interrupt line and marks it as
  free, without a panic; the hooks of all others stay with their owners.
\<close>

theorem clear_releases_hooks:
  assumes "hooks_ok c t A" "e \<noteq> i_NONE (ci c)"
  shows "\<exists>t' A'. release_hooks c e [0 ..< NR_IRQ_HOOKS c] t = Some t' \<and> hooks_ok c t' A' \<and>
    List.map proc_nr_e (take (NR_IRQ_HOOKS c) (hooks t')) =
      List.map (\<lambda>h. if proc_nr_e h = e then i_NONE (ci c) else proc_nr_e h) (take (NR_IRQ_HOOKS c) (hooks t)) \<and>
    list_all (\<lambda>x. \<not> on A' x \<or> proc_nr_e (hk t x) \<noteq> e) [0 ..< NR_IRQ_HOOKS c]"
proof -
  have "set [0 ..< NR_IRQ_HOOKS c] \<subseteq> {..< NR_IRQ_HOOKS c}" by auto
  from release_ok [OF assms distinct_upt this] obtain t' A' where
    t': "release_hooks c e [0 ..< NR_IRQ_HOOKS c] t = Some t'" "hooks_ok c t' A'" "length (hooks t') = length (hooks t)"
      "\<And>x. x < length (hooks t) \<Longrightarrow> proc_nr_e (hk t' x) =
         (if x \<in> set [0 ..< NR_IRQ_HOOKS c] \<and> proc_nr_e (hk t x) = e then i_NONE (ci c) else proc_nr_e (hk t x))" by blast
  note L = hooks_butD(2) [OF assms(1)]
  have m: "List.map proc_nr_e (take (NR_IRQ_HOOKS c) (hooks t')) =
      List.map (\<lambda>h. if proc_nr_e h = e then i_NONE (ci c) else proc_nr_e h) (take (NR_IRQ_HOOKS c) (hooks t))"
    by (rule nth_equalityI) (use t'(3,4) L in simp_all)
  have "\<not> on A' x" if "x < NR_IRQ_HOOKS c" "proc_nr_e (hk t x) = e" for x
    using hooks_butD(4) [OF t'(2) that(1)] t'(4) [of x] that L by simp
  then show ?thesis using t'(1,2) m by (intro exI [of _ t'] exI [of _ A']) (auto simp: list_all_iff)
qed

subsection \<open>Examples\<close>

text \<open>The hook 0 belongs to the driver with endpoint 2, the hook 1 is free, the hook 2 is the kernel's own.\<close>

definition demo_irqs :: intr where
  "demo_irqs = upd_hook 0 (\<lambda>h. h\<lparr>proc_nr_e := 2\<rparr>) (upd_hook 1 (\<lambda>h. h\<lparr>proc_nr_e := 101\<rparr>) demo_intr)"

definition demo_lines :: lines_abs where
  "demo_lines = \<lparr>lines = [[], [0, 2]], active = {}\<rparr>"

lemma demo_hooks_ok: "hooks_ok demo_ccfg demo_irqs demo_lines"
proof -
  have "irq_rel demo_irqs demo_lines"
    unfolding demo_irqs_def demo_lines_def by (rule rel_owner, rule rel_owner, rule demo_intr_rel) simp_all
  moreover have l: "length (hooks demo_irqs) = 3" "NR_IRQ_HOOKS demo_ccfg = 2" "i_NONE (ci demo_ccfg) = 101" by code_simp+
  moreover have "proc_nr_e (hk demo_irqs 0) = 2" "proc_nr_e (hk demo_irqs 1) = 101"
    using l(1) by (simp_all add: demo_irqs_def)
  moreover have "on demo_lines 0" "\<not> on demo_lines 1" by (simp_all add: on_def demo_lines_def)
  ultimately show ?thesis unfolding hooks_but_def by (auto simp: less_2_cases_iff)
qed

definition demo_driver :: xstate where
  "demo_driver = demo_x\<lparr>xintr := demo_irqs\<rparr>"

theorem irqctl_never_panics_witness:
  "\<exists>r m' t A'. do_irqctl demo_ccfg 4 (demo_kmsg\<lparr>m_i3 := 1, m_i1 := 2\<rparr>) demo_driver = Some (r, m', demo_driver\<lparr>xintr := t\<rparr>) \<and>
     hooks_ok demo_ccfg t A' \<and> others_keep demo_ccfg 2 demo_irqs demo_lines t A'"
proof -
  have e: "p_endpoint (xp demo_x 4) = 2" "i_NONE (ci demo_ccfg) \<noteq> 2" by code_simp+
  have "hooks_ok demo_ccfg (xintr demo_driver) demo_lines" "p_endpoint (xp demo_driver 4) \<noteq> i_NONE (ci demo_ccfg)"
    using demo_hooks_ok e by (simp_all add: demo_driver_def)
  from irqctl_never_panics [OF this] show ?thesis using e(1) by (simp add: demo_driver_def)
qed

theorem clear_releases_hooks_witness:
  "\<exists>t' A'. release_hooks demo_ccfg 2 [0 ..< NR_IRQ_HOOKS demo_ccfg] demo_irqs = Some t' \<and> hooks_ok demo_ccfg t' A' \<and> \<not> on A' 0"
proof -
  have e: "(2 :: int) \<noteq> i_NONE (ci demo_ccfg)" "NR_IRQ_HOOKS demo_ccfg = 2" by code_simp+
  have "length (hooks demo_irqs) = 3" by code_simp
  then have h: "proc_nr_e (hk demo_irqs 0) = 2" by (simp add: demo_irqs_def)
  from clear_releases_hooks [OF demo_hooks_ok e(1)] obtain t' A' where
    "release_hooks demo_ccfg 2 [0 ..< NR_IRQ_HOOKS demo_ccfg] demo_irqs = Some t'" "hooks_ok demo_ccfg t' A'"
    "list_all (\<lambda>x. \<not> on A' x \<or> proc_nr_e (hk demo_irqs x) \<noteq> 2) [0 ..< NR_IRQ_HOOKS demo_ccfg]" by blast
  then show ?thesis using e(2) h by (intro exI [of _ t'] exI [of _ A']) (auto simp: list_all_iff)
qed

end
