(* ===== verification/KGrant.thy ===== *)
theory KGrant
  imports KCalls
begin

text \<open>
  Memory grants: \<^verbatim>\<open>src/Project_2/kernel/system/do_safecopy.c\<close>.  A process that wants to let another read or write a
  part of its memory puts a grant into a table in its own memory; the kernel checks it in \<^verbatim>\<open>verify_grant\<close> when the
  other asks for a copy.  An indirect grant passes a right on that its owner was given.

  The union of \<^verbatim>\<open>cp_grant_t\<close> is a record with one group of fields for each member: what the code reads through
  that member.  The memory of processes has an arbitrary type; reading a grant or a vector from it and copying are
  parameters (\<^verbatim>\<open>data_copy\<close>, \<^verbatim>\<open>virtual_copy_vmcheck\<close>).  \<^verbatim>\<open>PERF_USE_COW_SAFECOPY\<close> is 0, as in \<^verbatim>\<open>kernel/perf.h\<close>.
  A copy of a vector that is longer than the kernel's buffer is \<^const>\<open>None\<close>.
\<close>

unbundle bit_operations_syntax

subsection \<open>Grants and parameters\<close>

record grant =
  cp_flags :: "32 word"
  d_who_to :: int                      \<comment> \<open>\<^verbatim>\<open>cp_u.cp_direct\<close>\<close>
  d_start :: "32 word"
  d_len :: "32 word"
  i_who_to :: int                      \<comment> \<open>\<^verbatim>\<open>cp_u.cp_indirect\<close>\<close>
  i_who_from :: int
  i_grant :: int
  m_who_from :: int                    \<comment> \<open>\<^verbatim>\<open>cp_u.cp_magic\<close>\<close>
  m_who_to :: int
  m_start :: "32 word"
  m_len :: "32 word"

record vir_addr =
  v_proc_nr_e :: int
  v_segment :: int
  v_offset :: "32 word"

record vscp_vec =
  v_from :: int
  v_to :: int
  v_gid :: int
  v_goff :: "32 word"
  v_addr :: "32 word"
  v_bytes :: "32 word"

record 'm gcfg =
  gi :: icfg
  CPF_READ :: "32 word"
  CPF_WRITE :: "32 word"
  CPF_MAP :: "32 word"
  CPF_USED :: "32 word"
  CPF_DIRECT :: "32 word"
  CPF_INDIRECT :: "32 word"
  CPF_MAGIC :: "32 word"
  CPF_VALID :: "32 word"
  GRANT_VALID :: "int \<Rightarrow> bool"
  sizeof_grant :: "32 word"
  sizeof_vec :: "32 word"
  VFS_PROC_NR :: int
  KERNEL :: int
  D_seg :: int
  SCPVEC_NR :: nat
  read_grant :: "'m \<Rightarrow> int \<Rightarrow> 32 word \<Rightarrow> grant option"
  virtual_copy_vmcheck :: "nat \<Rightarrow> vir_addr \<Rightarrow> vir_addr \<Rightarrow> 32 word \<Rightarrow> 'm \<Rightarrow> errno \<times> 'm"
  read_vec :: "nat \<Rightarrow> 32 word \<Rightarrow> 32 word \<Rightarrow> 'm \<Rightarrow> errno \<times> vscp_vec list"
      \<comment> \<open>the buffer \<^verbatim>\<open>vec\<close> after the copy of so many bytes\<close>

definition MAX_INDIRECT_DEPTH :: nat where "MAX_INDIRECT_DEPTH = 5"
definition MEM_TOP :: "32 word" where "MEM_TOP = 0xFFFFFFFF"

subsection \<open>\<^verbatim>\<open>verify_grant\<close>\<close>

definition HASGRANTTABLE :: "xstate \<Rightarrow> nat \<Rightarrow> bool" where
  "HASGRANTTABLE s p \<longleftrightarrow> s_grant_table (pexts s ! privx s p) \<noteq> 0"

text \<open>The body of the loop up to the test of the flags: the entry of a grant, or the error.\<close>

definition fetch_grant :: "'m gcfg \<Rightarrow> xstate \<Rightarrow> 'm \<Rightarrow> int \<Rightarrow> int \<Rightarrow> errno + grant" where
  "fetch_grant c s mem granter grant =
     (case isokendpt (kc (gi c)) (ks (xi s)) granter of
        None \<Rightarrow> Inl EINVAL
      | Some p \<Rightarrow>
          let e = pexts s ! privx s p in
          if \<not> GRANT_VALID c grant then Inl EINVAL
          else if \<not> HASGRANTTABLE s p then Inl EPERM
          else if s_grant_entries e \<le> grant then Inl EPERM
          else case read_grant c mem granter (of_nat (s_grant_table e) + sizeof_grant c * word_of_int grant) of
            None \<Rightarrow> Inl EPERM
          | Some g \<Rightarrow>
              if cp_flags g AND (CPF_USED c OR CPF_VALID c) \<noteq> CPF_USED c OR CPF_VALID c then Inl EPERM
              else Inr g)"

definition bad_grantee :: "'m gcfg \<Rightarrow> int \<Rightarrow> int \<Rightarrow> bool" where
  "bad_grantee c who_to grantee \<longleftrightarrow> who_to \<noteq> grantee \<and> grantee \<noteq> ANY (gi c) \<and> who_to \<noteq> ANY (gi c)"

text \<open>
  The loop over indirect grants; \<open>left\<close> is \<^verbatim>\<open>MAX_INDIRECT_DEPTH - depth\<close>.  The result is the last grant with its
  granter and grantee.
\<close>

fun follow :: "'m gcfg \<Rightarrow> xstate \<Rightarrow> 'm \<Rightarrow> nat \<Rightarrow> int \<Rightarrow> int \<Rightarrow> int \<Rightarrow> errno + (grant \<times> int \<times> int)" where
  "follow c s mem left granter grantee grant =
     (case fetch_grant c s mem granter grant of
        Inl e \<Rightarrow> Inl e
      | Inr g \<Rightarrow>
          if cp_flags g AND CPF_INDIRECT c = 0 then Inr (g, granter, grantee)
          else case left of
            0 \<Rightarrow> Inl ELOOP
          | Suc n \<Rightarrow>
              if bad_grantee c (i_who_to g) grantee then Inl EPERM
              else follow c s mem n (i_who_from g) granter (i_grant g))"

declare follow.simps [simp del]

definition bad_range :: "32 word \<Rightarrow> 32 word \<Rightarrow> 32 word \<Rightarrow> bool" where
  "bad_range offset bytes len \<longleftrightarrow> offset + bytes < offset \<or> offset + bytes > len"

definition verify_grant ::
  "'m gcfg \<Rightarrow> xstate \<Rightarrow> 'm \<Rightarrow> int \<Rightarrow> int \<Rightarrow> int \<Rightarrow> 32 word \<Rightarrow> 32 word \<Rightarrow> 32 word \<Rightarrow> errno + (32 word \<times> int)" where
  "verify_grant c s mem granter0 grantee0 grant bytes acc offset_in =
     (case follow c s mem MAX_INDIRECT_DEPTH granter0 grantee0 grant of
        Inl e \<Rightarrow> Inl e
      | Inr (g, granter, grantee) \<Rightarrow>
          if cp_flags g AND acc \<noteq> acc then Inl EPERM
          else if cp_flags g AND CPF_DIRECT c \<noteq> 0 then
            if MEM_TOP - d_len g + 1 < d_start g then Inl EPERM
            else if bad_grantee c (d_who_to g) grantee then Inl EPERM
            else if bad_range offset_in bytes (d_len g) then Inl EPERM
            else Inr (d_start g + offset_in, granter)
          else if cp_flags g AND CPF_MAGIC c \<noteq> 0 then
            if granter \<noteq> VFS_PROC_NR c then Inl EPERM
            else if m_who_to g \<noteq> grantee \<and> grantee \<noteq> ANY (gi c) \<and> d_who_to g \<noteq> ANY (gi c) then Inl EPERM
            else if bad_range offset_in bytes (m_len g) then Inl EPERM
            else Inr (m_start g + offset_in, m_who_from g)
          else Inl EPERM)"

subsection \<open>Copies\<close>

definition safecopy ::
  "'m gcfg \<Rightarrow> xstate \<Rightarrow> nat \<Rightarrow> int \<Rightarrow> int \<Rightarrow> int \<Rightarrow> int \<Rightarrow> int \<Rightarrow> 32 word \<Rightarrow> 32 word \<Rightarrow> 32 word \<Rightarrow> 32 word \<Rightarrow> 'm
     \<Rightarrow> errno \<times> 'm" where
  "safecopy c s caller granter grantee grantid src_seg dst_seg bytes g_offset addr acc mem =
     (case isokendpt (kc (gi c)) (ks (xi s)) granter of
        None \<Rightarrow> (EINVAL, mem)
      | Some p \<Rightarrow>
          if \<not> HASGRANTTABLE s p then (EPERM, mem)
          else case verify_grant c s mem granter grantee grantid bytes acc g_offset of
            Inl r \<Rightarrow> (r, mem)
          | Inr (offset, new_granter) \<Rightarrow>
              let rd = (acc AND CPF_READ c \<noteq> 0);
                  src = \<lparr>v_proc_nr_e = (if rd then new_granter else grantee), v_segment = src_seg,
                         v_offset = (if rd then offset else addr)\<rparr>;
                  dst = \<lparr>v_proc_nr_e = (if rd then grantee else new_granter), v_segment = dst_seg,
                         v_offset = (if rd then addr else offset)\<rparr> in
              virtual_copy_vmcheck c caller src dst bytes mem)"

record scmsg =
  SCP_FROM_TO :: int
  SCP_GID :: int
  SCP_SEG :: int
  SCP_BYTES :: "32 word"
  SCP_OFFSET :: "32 word"
  SCP_ADDRESS :: "32 word"

definition do_safecopy_to :: "'m gcfg \<Rightarrow> xstate \<Rightarrow> nat \<Rightarrow> scmsg \<Rightarrow> 'm \<Rightarrow> errno \<times> 'm" where
  "do_safecopy_to c s caller m =
     safecopy c s caller (SCP_FROM_TO m) (p_endpoint (xp s caller)) (SCP_GID m) (SCP_SEG m) (D_seg c) (SCP_BYTES m)
       (SCP_OFFSET m) (SCP_ADDRESS m) (CPF_WRITE c)"

definition do_safecopy_from :: "'m gcfg \<Rightarrow> xstate \<Rightarrow> nat \<Rightarrow> scmsg \<Rightarrow> 'm \<Rightarrow> errno \<times> 'm" where
  "do_safecopy_from c s caller m =
     safecopy c s caller (SCP_FROM_TO m) (p_endpoint (xp s caller)) (SCP_GID m) (D_seg c) (SCP_SEG m) (SCP_BYTES m)
       (SCP_OFFSET m) (SCP_ADDRESS m) (CPF_READ c)"

text \<open>The loop of \<^verbatim>\<open>do_vsafecopy\<close>: \<open>n\<close> more elements, of what is left of the buffer.\<close>

fun copy_vector :: "'m gcfg \<Rightarrow> xstate \<Rightarrow> nat \<Rightarrow> nat \<Rightarrow> vscp_vec list \<Rightarrow> 'm \<Rightarrow> (errno \<times> 'm) option" where
  "copy_vector c s caller 0 vec mem = Some (OK, mem)"
| "copy_vector c s caller (Suc n) [] mem = None"
| "copy_vector c s caller (Suc n) (v # vec) mem =
     (let one = (\<lambda>granter acc.
            let (r, mem') = safecopy c s caller granter (p_endpoint (xp s caller)) (v_gid v) (D_seg c) (D_seg c)
                              (v_bytes v) (v_goff v) (v_addr v) acc mem in
            if r \<noteq> OK then Some (r, mem') else copy_vector c s caller n vec mem') in
      if v_from v = SELF (gi c) then one (v_to v) (CPF_WRITE c)
      else if v_to v = SELF (gi c) then one (v_from v) (CPF_READ c)
      else Some (EINVAL, mem))"

text \<open>
  The number of elements is not checked: \<^verbatim>\<open>els * sizeof(struct vscp_vec)\<close> bytes, computed modulo the word size, go to
  the array \<^verbatim>\<open>vec\<close> of \<^verbatim>\<open>SCPVEC_NR\<close> elements.
\<close>

definition do_vsafecopy :: "'m gcfg \<Rightarrow> xstate \<Rightarrow> nat \<Rightarrow> 32 word \<Rightarrow> int \<Rightarrow> 'm \<Rightarrow> (errno \<times> 'm) option" where
  "do_vsafecopy c s caller vec_addr els mem =
     (let bytes = word_of_int els * sizeof_vec c; (r, vec) = read_vec c caller vec_addr bytes mem in
      if r \<noteq> OK then Some (r, mem)
      else if unat bytes > SCPVEC_NR c * unat (sizeof_vec c) then None
      else copy_vector c s caller (nat els) vec mem)"

subsection \<open>What a grant allows\<close>

text \<open>
  The meaning of grants, independent of the loop: \<open>granted n granter grantee id acc e start len\<close> says that the entry
  \<open>id\<close> of \<open>granter\<close> gives \<open>grantee\<close> access to \<open>len\<close> bytes from \<open>start\<close> on in the memory of \<open>e\<close>, through \<open>n\<close> indirect
  grants.
\<close>

definition for_grantee :: "'m gcfg \<Rightarrow> int \<Rightarrow> int \<Rightarrow> bool" where
  "for_grantee c who grantee \<longleftrightarrow> who = grantee \<or> who = ANY (gi c) \<or> grantee = ANY (gi c)"

definition allows :: "grant \<Rightarrow> 32 word \<Rightarrow> bool" where
  "allows g acc \<longleftrightarrow> (\<forall>n. bit acc n \<longrightarrow> bit (cp_flags g) n)"

definition fits :: "32 word \<Rightarrow> 32 word \<Rightarrow> bool" where
  "fits start len \<longleftrightarrow> unat start + unat len \<le> 2 ^ 32 \<and> (len = 0 \<longrightarrow> start = 0)"

inductive granted ::
  "'m gcfg \<Rightarrow> xstate \<Rightarrow> 'm \<Rightarrow> nat \<Rightarrow> int \<Rightarrow> int \<Rightarrow> int \<Rightarrow> 32 word \<Rightarrow> int \<Rightarrow> 32 word \<Rightarrow> 32 word \<Rightarrow> bool"
  for c s mem where
  direct: "fetch_grant c s mem granter i = Inr g \<Longrightarrow> cp_flags g AND CPF_INDIRECT c = 0 \<Longrightarrow> allows g acc \<Longrightarrow>
     cp_flags g AND CPF_DIRECT c \<noteq> 0 \<Longrightarrow> for_grantee c (d_who_to g) grantee \<Longrightarrow> fits (d_start g) (d_len g) \<Longrightarrow>
     granted c s mem 0 granter grantee i acc granter (d_start g) (d_len g)"
| magic: "fetch_grant c s mem granter i = Inr g \<Longrightarrow> cp_flags g AND CPF_INDIRECT c = 0 \<Longrightarrow> allows g acc \<Longrightarrow>
     cp_flags g AND CPF_DIRECT c = 0 \<Longrightarrow> cp_flags g AND CPF_MAGIC c \<noteq> 0 \<Longrightarrow> granter = VFS_PROC_NR c \<Longrightarrow>
     m_who_to g = grantee \<or> grantee = ANY (gi c) \<or> d_who_to g = ANY (gi c) \<Longrightarrow>
     granted c s mem 0 granter grantee i acc (m_who_from g) (m_start g) (m_len g)"
| indirect: "fetch_grant c s mem granter i = Inr g \<Longrightarrow> cp_flags g AND CPF_INDIRECT c \<noteq> 0 \<Longrightarrow>
     for_grantee c (i_who_to g) grantee \<Longrightarrow>
     granted c s mem n (i_who_from g) granter (i_grant g) acc e start len \<Longrightarrow>
     granted c s mem (Suc n) granter grantee i acc e start len"

inductive_cases granted_0: "granted c s mem 0 granter grantee i acc e start len"
inductive_cases granted_Suc: "granted c s mem (Suc n) granter grantee i acc e start len"

lemma allows_mask: "allows g acc \<longleftrightarrow> cp_flags g AND acc = acc"
proof
  show "allows g acc" if "cp_flags g AND acc = acc"
    using that unfolding allows_def by (metis bit_and_iff)
  show "cp_flags g AND acc = acc" if "allows g acc"
    using that unfolding allows_def by (intro bit_word_eqI) (auto simp: bit_and_iff)
qed

lemma bad_grantee_iff: "bad_grantee c who grantee \<longleftrightarrow> \<not> for_grantee c who grantee"
  by (auto simp: bad_grantee_def for_grantee_def)

lemma unat_lt32: "unat (a :: 32 word) < 4294967296"
  using unsigned_less [of a] by simp

lemma word_sum: "unat (a + b :: 32 word) =
  (if unat a + unat b < 4294967296 then unat a + unat b else unat a + unat b - 4294967296)"
  using unat_lt32 [of a] unat_lt32 [of b] by (simp add: unat_word_ariths mod_if)

lemma bad_range_iff: "bad_range offset bytes len \<longleftrightarrow> unat len < unat offset + unat bytes"
proof (cases "unat offset + unat bytes < 4294967296")
  case True
  then have "unat (offset + bytes) = unat offset + unat bytes" by (simp add: word_sum)
  then show ?thesis by (auto simp: bad_range_def word_less_nat_alt)
next
  case False
  then have "offset + bytes < offset"
    using unat_lt32 [of bytes] unfolding word_less_nat_alt word_sum by simp
  moreover have "unat len < unat offset + unat bytes" using unat_lt32 [of len] False by simp
  ultimately show ?thesis by (simp add: bad_range_def)
qed

lemma unat_minus32: "unat (- len :: 32 word) = (if len = 0 then 0 else 4294967296 - unat len)"
  using unat_sub_if' [of 0 len] by (auto simp: unat_eq_0)

lemma wrap_iff: "\<not> (MEM_TOP - len + 1 < start) \<longleftrightarrow> fits start len"
proof -
  have m: "MEM_TOP - len + 1 = - len" by (simp add: MEM_TOP_def)
  show ?thesis
    unfolding m word_less_nat_alt unat_minus32
    using unat_lt32 [of start] unat_lt32 [of len] by (auto simp: fits_def unat_eq_0)
qed


subsection \<open>\<^verbatim>\<open>verify_grant\<close> against the meaning of grants\<close>

text \<open>The checks after the loop.\<close>

lemma last_grant:
  "(\<exists>start len. granted c s mem 0 granter grantee i acc e start len \<and> unat off + unat bytes \<le> unat len \<and> addr = start + off) \<longleftrightarrow>
   (\<exists>g. fetch_grant c s mem granter i = Inr g \<and> cp_flags g AND CPF_INDIRECT c = 0 \<and> cp_flags g AND acc = acc \<and>
      (if cp_flags g AND CPF_DIRECT c \<noteq> 0
       then \<not> (MEM_TOP - d_len g + 1 < d_start g) \<and> \<not> bad_grantee c (d_who_to g) grantee \<and> \<not> bad_range off bytes (d_len g) \<and>
         addr = d_start g + off \<and> e = granter
       else cp_flags g AND CPF_MAGIC c \<noteq> 0 \<and> granter = VFS_PROC_NR c \<and>
         \<not> (m_who_to g \<noteq> grantee \<and> grantee \<noteq> ANY (gi c) \<and> d_who_to g \<noteq> ANY (gi c)) \<and> \<not> bad_range off bytes (m_len g) \<and>
         addr = m_start g + off \<and> e = m_who_from g))"
  (is "?L \<longleftrightarrow> ?R")
proof
  assume ?L
  then obtain start len where G: "granted c s mem 0 granter grantee i acc e start len" "unat off + unat bytes \<le> unat len"
    "addr = start + off" by blast
  from G(1) show ?R
  proof (cases rule: granted.cases)
    case (direct g)
    with G(2,3) show ?thesis by (intro exI [of _ g]) (simp add: wrap_iff bad_grantee_iff bad_range_iff allows_mask)
  next
    case (magic g)
    with G(2,3) show ?thesis by (intro exI [of _ g]) (auto simp: bad_range_iff allows_mask)
  qed
next
  assume ?R
  then obtain g where g: "fetch_grant c s mem granter i = Inr g" "cp_flags g AND CPF_INDIRECT c = 0" "allows g acc"
    and k: "if cp_flags g AND CPF_DIRECT c \<noteq> 0
       then fits (d_start g) (d_len g) \<and> for_grantee c (d_who_to g) grantee \<and> unat off + unat bytes \<le> unat (d_len g) \<and>
         addr = d_start g + off \<and> e = granter
       else cp_flags g AND CPF_MAGIC c \<noteq> 0 \<and> granter = VFS_PROC_NR c \<and>
         \<not> (m_who_to g \<noteq> grantee \<and> grantee \<noteq> ANY (gi c) \<and> d_who_to g \<noteq> ANY (gi c)) \<and> unat off + unat bytes \<le> unat (m_len g) \<and>
         addr = m_start g + off \<and> e = m_who_from g"
    unfolding wrap_iff bad_grantee_iff bad_range_iff allows_mask not_not not_less [where 'a = nat] by blast
  show ?L
  proof (cases "cp_flags g AND CPF_DIRECT c \<noteq> 0")
    case True
    with k granted.direct [OF g True] show ?thesis by (intro exI [of _ "d_start g"] exI [of _ "d_len g"]) simp
  next
    case False
    with k granted.magic [OF g] show ?thesis by (intro exI [of _ "m_start g"] exI [of _ "m_len g"]) auto
  qed
qed

lemma follow_sound:
  assumes "follow c s mem left granter grantee i = Inr (g, granter', grantee')"
  shows "\<exists>n i'. n \<le> left \<and> fetch_grant c s mem granter' i' = Inr g \<and> cp_flags g AND CPF_INDIRECT c = 0 \<and>
    (\<forall>k acc e start len. granted c s mem k granter' grantee' i' acc e start len \<longrightarrow> granted c s mem (n + k) granter grantee i acc e start len)"
  using assms
proof (induction "left" arbitrary: granter grantee i)
  case 0
  then show ?case
    by (subst (asm) follow.simps) (auto split: sum.split_asm if_split_asm intro!: exI [of _ 0] exI [of _ i])
next
  case (Suc m)
  obtain h where h: "fetch_grant c s mem granter i = Inr h"
    using Suc.prems by (subst (asm) follow.simps) (auto split: sum.split_asm)
  show ?case
  proof (cases "cp_flags h AND CPF_INDIRECT c = 0")
    case True
    with Suc.prems h have "g = h" "granter' = granter" "grantee' = grantee" by (subst (asm) follow.simps, simp)+
    with h True show ?thesis by (intro exI [of _ 0] exI [of _ i]) auto
  next
    case False
    with Suc.prems h have "\<not> bad_grantee c (i_who_to h) grantee" "follow c s mem m (i_who_from h) granter (i_grant h) = Inr (g, granter', grantee')"
      by (subst (asm) follow.simps, simp split: if_split_asm)+
    with Suc.IH obtain n i' where n: "n \<le> m" "fetch_grant c s mem granter' i' = Inr g" "cp_flags g AND CPF_INDIRECT c = 0"
      "\<And>k acc e start len. granted c s mem k granter' grantee' i' acc e start len \<Longrightarrow> granted c s mem (n + k) (i_who_from h) granter (i_grant h) acc e start len"
      by blast
    have "granted c s mem (Suc n + k) granter grantee i acc e start len"
      if "granted c s mem k granter' grantee' i' acc e start len" for k acc e start len
      using granted.indirect [OF h False _ n(4) [OF that]] \<open>\<not> bad_grantee c (i_who_to h) grantee\<close> by (simp add: bad_grantee_iff)
    with n(1-3) show ?thesis by (intro exI [of _ "Suc n"] exI [of _ i']) auto
  qed
qed

lemma follow_complete:
  assumes "granted c s mem n granter grantee i acc e start len" "n \<le> left"
  shows "\<exists>g granter' grantee' i'. follow c s mem left granter grantee i = Inr (g, granter', grantee') \<and>
    fetch_grant c s mem granter' i' = Inr g \<and> granted c s mem 0 granter' grantee' i' acc e start len"
  using assms
proof (induction n arbitrary: "left" granter grantee i)
  case 0
  then obtain g where g: "fetch_grant c s mem granter i = Inr g" "cp_flags g AND CPF_INDIRECT c = 0" by (auto elim: granted_0)
  then have "follow c s mem left granter grantee i = Inr (g, granter, grantee)" by (subst follow.simps) simp
  with g 0 show ?case by blast
next
  case (Suc n)
  from Suc.prems(1) obtain g where g: "fetch_grant c s mem granter i = Inr g" "cp_flags g AND CPF_INDIRECT c \<noteq> 0"
    "for_grantee c (i_who_to g) grantee" "granted c s mem n (i_who_from g) granter (i_grant g) acc e start len"
    by (rule granted_Suc) blast
  obtain m where m: "left = Suc m" using Suc.prems(2) by (cases "left") auto
  have "follow c s mem left granter grantee i = follow c s mem m (i_who_from g) granter (i_grant g)"
    using g by (subst follow.simps) (simp add: m bad_grantee_iff)
  then show ?case using Suc.IH [OF g(4)] Suc.prems(2) m by simp
qed


lemma verify_iff:
  "verify_grant c s mem granter grantee i bytes acc off = Inr (addr, e) \<longleftrightarrow>
   (\<exists>g granter' grantee'. follow c s mem MAX_INDIRECT_DEPTH granter grantee i = Inr (g, granter', grantee') \<and> cp_flags g AND acc = acc \<and>
      (if cp_flags g AND CPF_DIRECT c \<noteq> 0
       then \<not> (MEM_TOP - d_len g + 1 < d_start g) \<and> \<not> bad_grantee c (d_who_to g) grantee' \<and> \<not> bad_range off bytes (d_len g) \<and>
         addr = d_start g + off \<and> e = granter'
       else cp_flags g AND CPF_MAGIC c \<noteq> 0 \<and> granter' = VFS_PROC_NR c \<and>
         \<not> (m_who_to g \<noteq> grantee' \<and> grantee' \<noteq> ANY (gi c) \<and> d_who_to g \<noteq> ANY (gi c)) \<and> \<not> bad_range off bytes (m_len g) \<and>
         addr = m_start g + off \<and> e = m_who_from g))"
proof (cases "follow c s mem MAX_INDIRECT_DEPTH granter grantee i")
  case (Inr t)
  obtain g granter' grantee' where t: "t = (g, granter', grantee')" by (cases t)
  have v: "verify_grant c s mem granter grantee i bytes acc off =
      (if cp_flags g AND acc \<noteq> acc then Inl EPERM
       else if cp_flags g AND CPF_DIRECT c \<noteq> 0 then
         if MEM_TOP - d_len g + 1 < d_start g then Inl EPERM
         else if bad_grantee c (d_who_to g) grantee' then Inl EPERM
         else if bad_range off bytes (d_len g) then Inl EPERM
         else Inr (d_start g + off, granter')
       else if cp_flags g AND CPF_MAGIC c \<noteq> 0 then
         if granter' \<noteq> VFS_PROC_NR c then Inl EPERM
         else if m_who_to g \<noteq> grantee' \<and> grantee' \<noteq> ANY (gi c) \<and> d_who_to g \<noteq> ANY (gi c) then Inl EPERM
         else if bad_range off bytes (m_len g) then Inl EPERM
         else Inr (m_start g + off, m_who_from g)
       else Inl EPERM)"
    by (simp add: verify_grant_def Inr t)
  show ?thesis unfolding v Inr t by auto
qed (simp add: verify_grant_def)

lemma granted_add:
  "granted c s mem n granter grantee i acc e start len \<Longrightarrow> n \<le> MAX_INDIRECT_DEPTH \<Longrightarrow> unat off + unat bytes \<le> unat len \<Longrightarrow>
     verify_grant c s mem granter grantee i bytes acc off = Inr (start + off, e)"
proof -
  assume G: "granted c s mem n granter grantee i acc e start len" "n \<le> MAX_INDIRECT_DEPTH" "unat off + unat bytes \<le> unat len"
  from follow_complete [OF G(1,2)] obtain g granter' grantee' i' where
    f: "follow c s mem MAX_INDIRECT_DEPTH granter grantee i = Inr (g, granter', grantee')"
      "fetch_grant c s mem granter' i' = Inr g" "granted c s mem 0 granter' grantee' i' acc e start len" by blast
  have "\<exists>start' len. granted c s mem 0 granter' grantee' i' acc e start' len \<and> unat off + unat bytes \<le> unat len \<and> start + off = start' + off"
    using f(3) G(3) by blast
  with f(2) show ?thesis unfolding last_grant verify_iff using f(1) by auto
qed

lemma verify_granted:
  assumes "verify_grant c s mem granter grantee i bytes acc off = Inr (addr, e)"
  shows "\<exists>n start len. n \<le> MAX_INDIRECT_DEPTH \<and> granted c s mem n granter grantee i acc e start len \<and>
    unat off + unat bytes \<le> unat len \<and> addr = start + off"
proof -
  from assms obtain g granter' grantee' where
    f: "follow c s mem MAX_INDIRECT_DEPTH granter grantee i = Inr (g, granter', grantee')"
    and k: "cp_flags g AND acc = acc \<and>
      (if cp_flags g AND CPF_DIRECT c \<noteq> 0
       then \<not> (MEM_TOP - d_len g + 1 < d_start g) \<and> \<not> bad_grantee c (d_who_to g) grantee' \<and> \<not> bad_range off bytes (d_len g) \<and>
         addr = d_start g + off \<and> e = granter'
       else cp_flags g AND CPF_MAGIC c \<noteq> 0 \<and> granter' = VFS_PROC_NR c \<and>
         \<not> (m_who_to g \<noteq> grantee' \<and> grantee' \<noteq> ANY (gi c) \<and> d_who_to g \<noteq> ANY (gi c)) \<and> \<not> bad_range off bytes (m_len g) \<and>
         addr = m_start g + off \<and> e = m_who_from g)"
    unfolding verify_iff by blast
  from follow_sound [OF f] obtain n i' where n: "n \<le> MAX_INDIRECT_DEPTH" "fetch_grant c s mem granter' i' = Inr g"
      "cp_flags g AND CPF_INDIRECT c = 0"
      "\<And>k acc e start len. granted c s mem k granter' grantee' i' acc e start len \<Longrightarrow> granted c s mem (n + k) granter grantee i acc e start len"
    by blast
  with k obtain start len where "granted c s mem 0 granter' grantee' i' acc e start len" "unat off + unat bytes \<le> unat len" "addr = start + off"
    using last_grant [of c s mem granter' grantee' i' acc e off bytes addr] by blast
  with n(1) n(4) [of 0 acc e start len] show ?thesis
    by (intro exI [of _ n] exI [of _ start] exI [of _ len]) simp
qed

lemma bytes_of:
  fixes w :: "32 word"
  assumes "n * unat w < 2 ^ 32" shows "unat (of_nat n * w) = n * unat w"
proof -
  have "of_nat n * w = of_nat (n * unat w)" by simp
  then show ?thesis using assms by (simp only: unat_of_nat len_num1 len_bit0) simp
qed

lemma copy_vector_safe: "n \<le> length vec \<Longrightarrow> copy_vector c s caller n vec mem \<noteq> None"
proof (induction n arbitrary: vec mem)
  case (Suc n)
  then obtain v vs where v: "vec = v # vs" "n \<le> length vs" by (cases vec) auto
  have one: "(let (r, mem') = X in if r \<noteq> OK then Some (r, mem') else copy_vector c s caller n vs mem') \<noteq> None" for X
    by (cases X) (use Suc.IH [OF v(2)] in simp)
  show ?case
  proof (cases "v_from v = SELF (gi c)")
    case True
    then show ?thesis unfolding v(1) copy_vector.simps Let_def using one [unfolded Let_def] by (simp only: if_True refl not_False_eq_True)
  next
    case f: False
    then show ?thesis unfolding v(1) copy_vector.simps Let_def using one [unfolded Let_def]
      by (cases "v_to v = SELF (gi c)") (simp_all only: if_False if_True refl option.distinct not_False_eq_True)
  qed
qed simp

text \<open>More elements than the vector has: every listed copy is made, then the loop leaves the vector.\<close>

lemma copy_vector_past:
  "length vec < n \<Longrightarrow>
     copy_vector c s caller n vec mem = None \<longleftrightarrow> (\<exists>mem'. copy_vector c s caller (length vec) vec mem = Some (OK, mem'))"
proof (induction vec arbitrary: n mem)
  case Nil
  then show ?case by (cases n) simp_all
next
  case (Cons v vs)
  then obtain k where n: "n = Suc k" "length vs < k" by (cases n) auto
  have one: "(let (r, m) = X in if r \<noteq> OK then Some (r, m) else copy_vector c s caller k vs m) = None \<longleftrightarrow>
      (\<exists>mem'. (let (r, m) = X in if r \<noteq> OK then Some (r, m) else copy_vector c s caller (length vs) vs m) = Some (OK, mem'))" for X
    by (cases X) (use Cons.IH [OF n(2)] in auto)
  show ?case
  proof (cases "v_from v = SELF (gi c)")
    case True
    then show ?thesis unfolding n(1) list.size add_Suc_right add_0_right copy_vector.simps Let_def
      using one [unfolded Let_def] by (simp only: if_True refl not_False_eq_True)
  next
    case f: False
    show ?thesis
    proof (cases "v_to v = SELF (gi c)")
      case True
      with f show ?thesis unfolding n(1) list.size add_Suc_right add_0_right copy_vector.simps Let_def
        using one [unfolded Let_def] by (simp only: if_False if_True refl not_False_eq_True)
    next
      case False
      with f show ?thesis unfolding n(1) by simp
    qed
  qed
qed

lemma over_unwrapped:
  fixes w :: "32 word"
  assumes "0 < unat w" "(\<bar>els\<bar> + int m) * uint w < 2 ^ 32"
  shows "m * unat w < unat (word_of_int els * w) \<longleftrightarrow> els < 0 \<or> int m < els"
proof -
  define u where "u = uint w"
  have u2: "unat w = nat u" by (simp only: u_def unat_eq_nat_uint)
  then have u: "0 < u" "unat w = nat u" using assms(1) by (simp_all only: zero_less_nat_eq)
  have len: "LENGTH(32) = 32" by simp
  have "word_of_int els * w = word_of_int (els * u)" unfolding u_def by (simp only: of_int_mult word_of_int_uint)
  then have "uint (word_of_int els * w) = els * u mod 2 ^ 32"
    using uint_word_of_int [where 'a = 32, of "els * u"] unfolding len by (simp only:)
  then have "unat (word_of_int els * w) = nat (els * u mod 2 ^ 32)" by (simp only: unat_eq_nat_uint)
  moreover have z: "0 \<le> els * u mod 2 ^ 32" by (rule pos_mod_sign) simp
  moreover have "m * nat u = nat (int m * u)" using u(1) by (simp add: nat_mult_distrib)
  ultimately have iff: "m * unat w < unat (word_of_int els * w) \<longleftrightarrow> int m * u < els * u mod 2 ^ 32"
    using u(1) by (simp only: u(2) nat_less_eq_zless mult_nonneg_nonneg of_nat_0_le_iff less_imp_le)
  have s: "\<bar>els\<bar> * u + int m * u < 2 ^ 32" using assms(2) unfolding u_def [symmetric] by (simp only: distrib_right)
  have m: "0 \<le> int m * u" using u(1) by simp
  show ?thesis
  proof (cases "els < 0")
    case True
    then have a: "\<bar>els\<bar> * u = - (els * u)" by simp
    have n: "els * u < 0" by (rule mult_neg_pos [OF True u(1)])
    have "els * u mod 2 ^ 32 = (els * u + 2 ^ 32) mod 2 ^ 32" by (simp only: mod_add_self2)
    also have "\<dots> = els * u + 2 ^ 32" by (rule mod_pos_pos_trivial) (use n s m a in linarith)+
    finally show ?thesis using True s a unfolding iff by linarith
  next
    case False
    then have "0 \<le> els * u" "\<bar>els\<bar> * u = els * u" using u(1) by simp_all
    then have "els * u mod 2 ^ 32 = els * u" by (intro mod_pos_pos_trivial) (use s m in linarith)+
    then show ?thesis using False u(1) unfolding iff by simp
  qed
qed

subsection \<open>Results\<close>

text \<open>
  (C2) \<^verbatim>\<open>verify_grant\<close> is exact.  It accepts a request and answers with an address in the memory of \<open>e\<close> if and only if
  there is a chain of at most five indirect grants from the entry the caller named to a direct or magic grant, in
  which each link was given to the process that passed it on, the last one allows the access, and the bytes wanted lie
  within the range it grants; the address is then the start of that range plus the offset.
\<close>

theorem verify_grant_exact:
  "verify_grant c s mem granter grantee i bytes acc off = Inr (addr, e) \<longleftrightarrow>
   (\<exists>n start len. n \<le> 5 \<and> granted c s mem n granter grantee i acc e start len \<and>
      unat off + unat bytes \<le> unat len \<and> addr = start + off)"
  using verify_granted [of c s mem granter grantee i bytes acc off addr e] granted_add [of c s mem _ granter grantee i acc e _ _ off bytes]
  unfolding MAX_INDIRECT_DEPTH_def by blast


text \<open>
  (C14) A safe copy never leaves the range of a grant.  Whenever \<^verbatim>\<open>safecopy\<close> changes the memory of any process, it has
  done one copy of the bytes asked for, between the caller's address and an address in the memory that a chain of
  grants opened to it for this access; the side under the grant starts at the granted start plus the offset, the
  bytes end within the granted length, and this range does not wrap around the address space unless the grant is a
  magic one of the file system.
\<close>

theorem safecopy_within_grant:
  assumes "safecopy c s caller granter grantee i ss ds bytes off addr acc mem = (r, mem')" "mem' \<noteq> mem"
  shows "\<exists>n start len e. n \<le> 5 \<and> granted c s mem n granter grantee i acc e start len \<and> unat off + unat bytes \<le> unat len \<and>
    (unat start + unat len \<le> 2 ^ 32 \<or> (\<exists>g j. fetch_grant c s mem (VFS_PROC_NR c) j = Inr g \<and> m_who_from g = e \<and>
       m_start g = start \<and> m_len g = len)) \<and>
    (r, mem') =
      (if acc AND CPF_READ c \<noteq> 0
       then virtual_copy_vmcheck c caller \<lparr>v_proc_nr_e = e, v_segment = ss, v_offset = start + off\<rparr>
              \<lparr>v_proc_nr_e = grantee, v_segment = ds, v_offset = addr\<rparr> bytes mem
       else virtual_copy_vmcheck c caller \<lparr>v_proc_nr_e = grantee, v_segment = ss, v_offset = addr\<rparr>
              \<lparr>v_proc_nr_e = e, v_segment = ds, v_offset = start + off\<rparr> bytes mem)"
proof -
  from assms obtain a e where v: "verify_grant c s mem granter grantee i bytes acc off = Inr (a, e)"
    and k: "(r, mem') =
      (if acc AND CPF_READ c \<noteq> 0
       then virtual_copy_vmcheck c caller \<lparr>v_proc_nr_e = e, v_segment = ss, v_offset = a\<rparr>
              \<lparr>v_proc_nr_e = grantee, v_segment = ds, v_offset = addr\<rparr> bytes mem
       else virtual_copy_vmcheck c caller \<lparr>v_proc_nr_e = grantee, v_segment = ss, v_offset = addr\<rparr>
              \<lparr>v_proc_nr_e = e, v_segment = ds, v_offset = a\<rparr> bytes mem)"
    by (auto simp: safecopy_def Let_def split: option.split_asm if_split_asm sum.split_asm)
  from verify_granted [OF v] obtain n start len where
    G: "n \<le> 5" "granted c s mem n granter grantee i acc e start len" "unat off + unat bytes \<le> unat len" "a = start + off"
    unfolding MAX_INDIRECT_DEPTH_def by blast
  from G(2) have "unat start + unat len \<le> 2 ^ 32 \<or> (\<exists>g j. fetch_grant c s mem (VFS_PROC_NR c) j = Inr g \<and> m_who_from g = e \<and>
       m_start g = start \<and> m_len g = len)"
    by (induction rule: granted.induct) (auto simp: fits_def)
  with G k show ?thesis by blast
qed

text \<open>
  (C34) A vectored copy does not check the number of elements \<open>els\<close> that the caller gives.  For a readable vector and
  any \<open>els\<close>, the call goes wrong exactly when the number of bytes \<open>els * sizeof(struct vscp_vec)\<close>, taken modulo
  \<open>2 ^ 32\<close>, is larger than the kernel's buffer, or when \<open>els\<close> is larger than the buffer has elements and all copies
  that the buffer lists succeed, so that the loop runs past its end (the case of a product that wraps).  In
  particular, as long as the product does not wrap into the buffer's size, it goes wrong exactly for a negative \<open>els\<close> and for
  an \<open>els\<close> above the size of the buffer.
\<close>

theorem vsafecopy_overruns_buffer:
  assumes "0 < unat (sizeof_vec c)"
    and "read_vec c caller a (word_of_int els * sizeof_vec c) mem = (OK, vec)" "length vec = SCPVEC_NR c"
  shows "(do_vsafecopy c s caller a els mem = None \<longleftrightarrow>
      SCPVEC_NR c * unat (sizeof_vec c) < unat (word_of_int els * sizeof_vec c) \<or>
      (int (SCPVEC_NR c) < els \<and> (\<exists>mem'. copy_vector c s caller (SCPVEC_NR c) vec mem = Some (OK, mem')))) \<and>
    ((\<bar>els\<bar> + int (SCPVEC_NR c)) * uint (sizeof_vec c) < 2 ^ 32 \<longrightarrow>
      (do_vsafecopy c s caller a els mem = None \<longleftrightarrow> els < 0 \<or> int (SCPVEC_NR c) < els))"
proof -
  let ?w = "word_of_int els * sizeof_vec c"
  let ?over = "SCPVEC_NR c * unat (sizeof_vec c) < unat ?w"
  have loop: "copy_vector c s caller (nat els) vec mem = None \<longleftrightarrow>
      int (SCPVEC_NR c) < els \<and> (\<exists>mem'. copy_vector c s caller (SCPVEC_NR c) vec mem = Some (OK, mem'))"
    using copy_vector_past [of vec "nat els" c s caller mem] copy_vector_safe [of "nat els" vec c s caller mem] assms(3)
    by (cases "int (SCPVEC_NR c) < els") auto
  have one: "do_vsafecopy c s caller a els mem = None \<longleftrightarrow>
      ?over \<or> (int (SCPVEC_NR c) < els \<and> (\<exists>mem'. copy_vector c s caller (SCPVEC_NR c) vec mem = Some (OK, mem')))"
    by (auto simp: do_vsafecopy_def Let_def assms(2) loop)
  have "?over \<longleftrightarrow> els < 0 \<or> int (SCPVEC_NR c) < els" if "(\<bar>els\<bar> + int (SCPVEC_NR c)) * uint (sizeof_vec c) < 2 ^ 32"
    using over_unwrapped [OF assms(1) that] .
  with one show ?thesis by blast
qed


subsection \<open>An example\<close>

text \<open>
  The process 2 (slot 4) has one grant: 100 bytes from 1000 on, for reading by the process manager 0.  The memory is a
  number that every copy increments.
\<close>

definition demo_grant :: grant where
  "demo_grant = \<lparr>cp_flags = 1 OR 4 OR 16 OR 128, d_who_to = 0, d_start = 1000, d_len = 100, i_who_to = 0, i_who_from = 0, i_grant = 0,
     m_who_from = 0, m_who_to = 0, m_start = 0, m_len = 0\<rparr>"

definition demo_vec :: vscp_vec where
  "demo_vec = \<lparr>v_from = 2, v_to = SELF (ic demo_xcfg), v_gid = 0, v_goff = 10, v_addr = 0, v_bytes = 20\<rparr>"

definition demo_gcfg :: "nat gcfg" where
  "demo_gcfg = \<lparr>gi = ic demo_xcfg, CPF_READ = 1, CPF_WRITE = 2, CPF_MAP = 8, CPF_USED = 4, CPF_DIRECT = 16, CPF_INDIRECT = 32,
     CPF_MAGIC = 64, CPF_VALID = 128, GRANT_VALID = (\<lambda>g. 0 \<le> g), sizeof_grant = 20, sizeof_vec = 24, VFS_PROC_NR = 1,
     KERNEL = - 3, D_seg = 1, SCPVEC_NR = 2, read_grant = (\<lambda>_ e a. if e = 2 \<and> a = 500 then Some demo_grant else None),
     virtual_copy_vmcheck = (\<lambda>_ _ _ _ m. (OK, m + 1)), read_vec = (\<lambda>_ _ _ _. (OK, [demo_vec, demo_vec]))\<rparr>"

definition demo_gx :: xstate where
  "demo_gx = demo_x\<lparr>pexts := replicate 4 (demo_pext\<lparr>s_grant_table := 500, s_grant_entries := 1\<rparr>)\<rparr>"


theorem safecopy_within_grant_witness:
  "\<exists>n start len. n \<le> 5 \<and> granted demo_gcfg demo_gx 0 n 2 0 0 1 2 start len \<and> 10 + 20 \<le> unat len"
proof -
  have r: "safecopy demo_gcfg demo_gx 2 2 0 0 1 1 20 10 0 1 0 = (OK, 1)" by code_simp
  have p: "virtual_copy_vmcheck demo_gcfg 2 a b n 0 = (OK, 1)" for a b n by (simp add: demo_gcfg_def)
  have v: "verify_grant demo_gcfg demo_gx 0 2 0 0 20 1 10 = Inr (1010, 2)" by code_simp
  from safecopy_within_grant [OF r] obtain n start len e where
    "n \<le> 5" "granted demo_gcfg demo_gx 0 n 2 0 0 1 e start len" "unat (10 :: 32 word) + unat (20 :: 32 word) \<le> unat len"
    by auto
  moreover from this have "verify_grant demo_gcfg demo_gx 0 2 0 0 20 1 10 = Inr (start + 10, e)"
    using granted_add [of demo_gcfg demo_gx 0 n 2 0 0 1 e start len 10 20] by (simp add: MAX_INDIRECT_DEPTH_def)
  ultimately show ?thesis using v by auto
qed

theorem vsafecopy_overruns_buffer_witness:
  "do_vsafecopy demo_gcfg demo_gx 2 0 3 0 = None \<and> do_vsafecopy demo_gcfg demo_gx 2 0 2 0 \<noteq> None \<and>
   do_vsafecopy demo_gcfg demo_gx 2 0 (- 1) 0 = None"
proof -
  have c: "sizeof_vec demo_gcfg = 24" "SCPVEC_NR demo_gcfg = 2" "length [demo_vec, demo_vec] = SCPVEC_NR demo_gcfg"
    by (simp_all add: demo_gcfg_def)
  have rv: "read_vec demo_gcfg 2 0 b 0 = (OK, [demo_vec, demo_vec])" for b by (simp add: demo_gcfg_def)
  have z: "0 < unat (sizeof_vec demo_gcfg)" by (simp add: c)
  have "do_vsafecopy demo_gcfg demo_gx 2 0 els 0 = None \<longleftrightarrow> els < 0 \<or> 2 < els" if "(\<bar>els\<bar> + 2) * 24 < 2 ^ 32" for els
    using vsafecopy_overruns_buffer [OF z rv c(3), of demo_gx els, THEN conjunct2] that unfolding c by simp
  from this [of 3] this [of 2] this [of "- 1"]
  show ?thesis by simp
qed

end
