(* ===== verification/KSafemap.thy ===== *)
theory KSafemap
  imports KGrant KCallMain
begin

text \<open>
  Shared mappings through grants: \<^verbatim>\<open>src/Project_2/kernel/system/do_safemap.c\<close> and \<^verbatim>\<open>umap_local\<close> of
  \<^verbatim>\<open>kernel/arch/i386/memory.c\<close>.  A mapping is recorded in a table of the kernel, and the request to set it up or take
  it down is queued for the virtual memory server, which blocks the caller.

  The memory of the processes and the calls that read it are those of \<^verbatim>\<open>KGrant\<close>.  \<^const>\<open>None\<close> is a failed assertion,
  a panic or an access through a null pointer.  Of \<^verbatim>\<open>p_vmrequest\<close> the fields of mapping requests are kept.
\<close>

unbundle bit_operations_syntax

subsection \<open>State and parameters\<close>

definition RTS_VMREQTARGET :: "16 word" where "RTS_VMREQTARGET = 0x1000"

record map_info_s =
  mi_flag :: int
  grantor :: int
  gid :: int
  offset :: "32 word"
  address_Dseg :: "32 word"
  grantee :: int
  mi_seg :: int
  address :: "32 word"
  mi_bytes :: "32 word"

record mem_map =
  mem_vir :: "32 word"
  mem_phys :: "32 word"
  mem_len :: "32 word"

record vm_request =
  vr_map :: bool                     \<comment> \<open>the type is \<^verbatim>\<open>VMSTYPE_MAP\<close>\<close>
  req_type :: int
  vr_target :: int
  vir_d :: "32 word"
  ep_s :: int
  vir_s :: "32 word"
  vr_length :: "32 word"
  writeflag :: "8 word"
  nextrequestor :: "nat option"

record mstate =
  mx :: xstate
  map_info :: "map_info_s list"
  p_memmap :: "(int \<Rightarrow> mem_map) list"
  p_vmrequest :: "vm_request list"
  vmrequest :: "nat option"

record 'm mcfg =
  mg :: "'m gcfg"
  CLICK_SHIFT :: nat
  T_seg :: int
  S_seg :: int
  VMPTYPE_SMAP :: int
  VMPTYPE_SUNMAP :: int
  VM_PROC_NR :: int
  SIGKMEM :: int

abbreviation mi :: "'m mcfg \<Rightarrow> icfg" where
  "mi c \<equiv> gi (mg c)"

abbreviation mok :: "'m mcfg \<Rightarrow> mstate \<Rightarrow> int \<Rightarrow> nat option" where
  "mok c st e \<equiv> isokendpt (kc (mi c)) (ks (xi (mx st))) e"

subsection \<open>The table of mappings\<close>

definition add_info ::
  "int \<Rightarrow> int \<Rightarrow> int \<Rightarrow> 32 word \<Rightarrow> 32 word \<Rightarrow> int \<Rightarrow> 32 word \<Rightarrow> 32 word \<Rightarrow> mstate \<Rightarrow> errno \<times> mstate" where
  "add_info grantor' grantee' gid' offset' address_Dseg' seg' address' bytes' st =
     (case first_idx (\<lambda>i. mi_flag i = 0) (map_info st) of
        None \<Rightarrow> (EBUSY, st)
      | Some i \<Rightarrow>
          (OK, st\<lparr>map_info := (map_info st)[i := \<lparr>mi_flag = 1, grantor = grantor', gid = gid', offset = offset',
                address_Dseg = address_Dseg', grantee = grantee', mi_seg = seg', address = address', mi_bytes = bytes'\<rparr>]\<rparr>))"

definition revocable :: "int \<Rightarrow> int \<Rightarrow> int \<Rightarrow> map_info_s \<Rightarrow> bool" where
  "revocable grantor' flag arg i \<longleftrightarrow> mi_flag i = 1 \<and> grantor i = grantor' \<and>
     (if flag \<noteq> 0 then gid i = arg else address_Dseg i = word_of_int arg)"

definition get_revoke_info :: "int \<Rightarrow> int \<Rightarrow> int \<Rightarrow> mstate \<Rightarrow> nat option" where
  "get_revoke_info grantor' flag arg st = first_idx (revocable grantor' flag arg) (map_info st)"

definition unmappable :: "int \<Rightarrow> int \<Rightarrow> 32 word \<Rightarrow> map_info_s \<Rightarrow> bool" where
  "unmappable grantee' seg' address' i \<longleftrightarrow> mi_flag i = 1 \<and> grantee i = grantee' \<and> mi_seg i = seg' \<and> address i = address'"

definition get_unmap_info :: "int \<Rightarrow> int \<Rightarrow> 32 word \<Rightarrow> mstate \<Rightarrow> nat option" where
  "get_unmap_info grantee' seg' address' st = first_idx (unmappable grantee' seg' address') (map_info st)"

definition clear_info :: "nat \<Rightarrow> mstate \<Rightarrow> mstate" where
  "clear_info p st = st\<lparr>map_info := (map_info st)[p := (map_info st ! p)\<lparr>mi_flag := 0\<rparr>]\<rparr>"

subsection \<open>Requests to the virtual memory server\<close>

definition umap_local :: "'m mcfg \<Rightarrow> mstate \<Rightarrow> nat option \<Rightarrow> int \<Rightarrow> 32 word \<Rightarrow> 32 word \<Rightarrow> 32 word option" where
  "umap_local c st rp seg vir bytes =
     (if seg \<noteq> T_seg c \<and> seg \<noteq> D_seg (mg c) \<and> seg \<noteq> S_seg c then None
      else if bytes = 0 then Some 0
      else if vir + bytes \<le> vir then Some 0
      else case rp of None \<Rightarrow> None
      | Some p \<Rightarrow>
          let m = p_memmap st ! p;
              vc = drop_bit (CLICK_SHIFT c) (vir + bytes - 1);
              seg1 = (if seg \<noteq> T_seg c
                      then (if vc < mem_vir (m (D_seg (mg c))) + mem_len (m (D_seg (mg c))) then D_seg (mg c) else S_seg c)
                      else if mem_len (m (T_seg c)) = 0 then D_seg (mg c) else seg);
              end1 = mem_vir (m seg1) + mem_len (m seg1) in
          if drop_bit (CLICK_SHIFT c) vir \<ge> end1 then Some 0
          else if vc \<ge> end1 then Some 0
          else Some (push_bit (CLICK_SHIFT c) (mem_phys (m seg1)) + (vir - push_bit (CLICK_SHIFT c) (mem_vir (m seg1)))))"

definition page_aligned :: "'m mcfg \<Rightarrow> 32 word \<Rightarrow> bool" where
  "page_aligned c a \<longleftrightarrow> take_bit (CLICK_SHIFT c) a = 0"

definition map_invoke_vm ::
  "'m mcfg \<Rightarrow> nat \<Rightarrow> int \<Rightarrow> int \<Rightarrow> int \<Rightarrow> 32 word \<Rightarrow> int \<Rightarrow> int \<Rightarrow> 32 word \<Rightarrow> 32 word \<Rightarrow> int \<Rightarrow> mstate
     \<Rightarrow> (errno \<times> mstate) option" where
  "map_invoke_vm c caller rtype end_d seg_d off_d end_s seg_s off_s bytes flag st =
     do {
       lin_src \<leftarrow> umap_local c st (mok c st end_s) seg_s off_s bytes;
       lin_dst \<leftarrow> umap_local c st (mok c st end_d) seg_d off_d bytes;
       if lin_src = 0 \<or> lin_dst = 0 then Some (EINVAL, st)
       else if \<not> page_aligned c lin_src \<or> \<not> page_aligned c lin_dst then Some (EINVAL, st)
       else case mok c st end_d of None \<Rightarrow> None
       | Some dst \<Rightarrow>
           if RTS_ISSET (xp (mx st) caller) RTS_VMREQUEST \<or> RTS_ISSET (xp (mx st) caller) RTS_VMREQTARGET
              \<or> RTS_ISSET (xp (mx st) dst) RTS_VMREQUEST \<or> RTS_ISSET (xp (mx st) dst) RTS_VMREQTARGET then None
           else do {
             x1 \<leftarrow> on_xi (SET_RTS caller RTS_VMREQUEST) (mx st);
             x2 \<leftarrow> on_xi (SET_RTS dst RTS_VMREQTARGET) x1;
             let r = \<lparr>vr_map = True, req_type = rtype, vr_target = end_d, vir_d = lin_dst, ep_s = end_s, vir_s = lin_src,
                      vr_length = bytes, writeflag = word_of_int flag, nextrequestor = vmrequest st\<rparr>;
             x3 \<leftarrow> (if vmrequest st = None then on_xi (send_sig (mi c) (VM_PROC_NR c) (SIGKMEM c)) x2 else Some x2);
             Some (OK, st\<lparr>mx := x3, p_vmrequest := (p_vmrequest st)[caller := r], vmrequest := Some caller\<rparr>)
           }
     }"

subsection \<open>The kernel calls\<close>

record smap_msg =
  SMAP_EP :: int
  SMAP_GID :: int
  SMAP_OFFSET :: "32 word"
  SMAP_SEG :: int
  SMAP_ADDRESS :: "32 word"
  SMAP_BYTES :: "32 word"
  SMAP_FLAG :: int

definition do_safemap :: "'m mcfg \<Rightarrow> nat \<Rightarrow> smap_msg \<Rightarrow> 'm \<Rightarrow> mstate \<Rightarrow> (errno \<times> mstate) option" where
  "do_safemap c caller m mem st =
     (let me = p_endpoint (xp (mx st) caller);
          acc = (CPF_MAP (mg c) OR CPF_READ (mg c)) OR (if SMAP_FLAG m \<noteq> 0 then CPF_WRITE (mg c) else 0) in
      case verify_grant (mg c) (mx st) mem (SMAP_EP m) me (SMAP_GID m) (SMAP_BYTES m) acc (SMAP_OFFSET m) of
        Inl r \<Rightarrow> Some (r, st)
      | Inr (offset_result, new_grantor) \<Rightarrow>
          let (r, st1) = add_info new_grantor me (SMAP_GID m) (SMAP_OFFSET m) offset_result (SMAP_SEG m) (SMAP_ADDRESS m)
                           (SMAP_BYTES m) st in
          if r \<noteq> OK then Some (r, st1)
          else map_invoke_vm c caller (VMPTYPE_SMAP c) me (SMAP_SEG m) (SMAP_ADDRESS m) new_grantor (D_seg (mg c)) offset_result
                 (SMAP_BYTES m) (SMAP_FLAG m) st1)"

definition safeunmap :: "'m mcfg \<Rightarrow> nat \<Rightarrow> nat \<Rightarrow> 'm \<Rightarrow> mstate \<Rightarrow> (errno \<times> mstate) option" where
  "safeunmap c caller p mem st =
     (let i = map_info st ! p in
      case verify_grant (mg c) (mx st) mem (grantor i) (grantee i) (gid i) (mi_bytes i) (CPF_MAP (mg c)) (offset i) of
        Inl r \<Rightarrow> Some (r, st)
      | Inr (offset_result, new_grantor) \<Rightarrow>
          map_option (\<lambda>(r, st1). (r, clear_info p st1))
            (map_invoke_vm c caller (VMPTYPE_SUNMAP c) (grantee i) (mi_seg i) (address i) new_grantor (D_seg (mg c)) offset_result
               (mi_bytes i) 0 st))"

text \<open>The loops of \<^verbatim>\<open>do_saferevmap\<close> and \<^verbatim>\<open>do_safeunmap\<close>; \<open>get\<close> finds the next mapping.\<close>

partial_function (option) unmap_loop ::
  "'m mcfg \<Rightarrow> nat \<Rightarrow> (mstate \<Rightarrow> nat option) \<Rightarrow> 'm \<Rightarrow> mstate \<Rightarrow> (errno \<times> mstate) option" where
  "unmap_loop c caller get mem st =
     (case get st of
        None \<Rightarrow> Some (OK, st)
      | Some p \<Rightarrow>
          (case safeunmap c caller p mem st of
             None \<Rightarrow> None
           | Some (r, st1) \<Rightarrow> if r \<noteq> OK then Some (r, st1) else unmap_loop c caller get mem st1))"

definition do_saferevmap :: "'m mcfg \<Rightarrow> nat \<Rightarrow> smap_msg \<Rightarrow> 'm \<Rightarrow> mstate \<Rightarrow> (errno \<times> mstate) option" where
  "do_saferevmap c caller m mem st =
     unmap_loop c caller (get_revoke_info (p_endpoint (xp (mx st) caller)) (SMAP_FLAG m) (SMAP_GID m)) mem st"

definition do_safeunmap :: "'m mcfg \<Rightarrow> nat \<Rightarrow> smap_msg \<Rightarrow> 'm \<Rightarrow> mstate \<Rightarrow> (errno \<times> mstate) option" where
  "do_safeunmap c caller m mem st =
     unmap_loop c caller (get_unmap_info (p_endpoint (xp (mx st) caller)) (SMAP_SEG m) (SMAP_ADDRESS m)) mem st"

subsection \<open>What a request leaves behind\<close>

lemma flag_bits:
  "bit (w AND NOT RTS_RECEIVING) 11 = bit w 11" "bit (w OR RTS_VMREQUEST) 11"
proof -
  have f: "RTS_RECEIVING = push_bit 3 1" "RTS_VMREQUEST = push_bit 11 1" by (simp_all add: RTS_RECEIVING_def RTS_VMREQUEST_def)
  show "bit (w AND NOT RTS_RECEIVING) 11 = bit w 11"
    unfolding f by (simp add: bit_and_iff bit_not_iff bit_push_bit_iff)
  show "bit (w OR RTS_VMREQUEST) 11" unfolding f by (simp add: bit_or_iff bit_push_bit_iff)
qed

definition keeps_flag :: "nat \<Rightarrow> istate \<Rightarrow> istate \<Rightarrow> bool" where
  "keeps_flag n i i' \<longleftrightarrow> length (kprocs (ks i')) = length (kprocs (ks i)) \<and>
     (\<forall>y < length (kprocs (ks i)). bit (p_rts_flags (ip i y)) n \<longrightarrow> bit (p_rts_flags (ip i' y)) n)"

lemma keeps_flag_trans: "keeps_flag n i j \<Longrightarrow> keeps_flag n j k \<Longrightarrow> keeps_flag n i k"
  by (simp add: keeps_flag_def)

lemma keeps_flag_upd:
  "(\<And>p. p_rts_flags (f p) = p_rts_flags p) \<Longrightarrow> keeps_flag n i (upd_ip x f i)" "keeps_flag n i (upd_priv j g i)"
proof -
  show "keeps_flag n i (upd_priv j g i)" by (simp add: keeps_flag_def upd_priv_def)
  assume f: "\<And>p. p_rts_flags (f p) = p_rts_flags p"
  have "p_rts_flags (ip (upd_ip x f i) y) = p_rts_flags (ip i y)" if "y < length (kprocs (ks i))" for y
    using that f by (cases "y = x") simp_all
  then show "keeps_flag n i (upd_ip x f i)" by (simp add: keeps_flag_def)
qed

lemma keeps_flag_set: "SET_RTS x f i = Some i' \<Longrightarrow> keeps_flag n i i'"
proof -
  assume "SET_RTS x f i = Some i'"
  then obtain k where k: "RTS_SET x f (ks i) = Some k" "i' = i\<lparr>ks := k\<rparr>" by (rule SET_RTS_cases)
  show ?thesis using RTS_SET_flags [OF k(1)] same_core_fields(1) [OF RTS_frames(1) [OF k(1)]]
    by (simp add: keeps_flag_def k(2) bit_or_iff)
qed

lemma keeps_flag_receiving:
  assumes "UNSET_RTS c x RTS_RECEIVING i = Some i'" shows "keeps_flag 11 i i'"
proof -
  from assms obtain k where k: "RTS_UNSET (kc c) x RTS_RECEIVING (ks i) = Some k" "i' = i\<lparr>ks := k\<rparr>" by (rule UNSET_RTS_cases)
  have "bit (p_rts_flags (kp k y)) 11" if "y < length (kprocs (ks i))" "bit (p_rts_flags (ip i y)) 11" for y
  proof -
    have "bit (if y = x then p_rts_flags (ip i y) AND NOT RTS_RECEIVING else p_rts_flags (ip i y)) 11"
      using that(2) by (cases "y = x") (simp_all only: if_True if_False refl flag_bits)
    with RTS_UNSET_flags [OF k(1) that(1)] show ?thesis by (elim disjE) (simp_all only: bit_or_iff simp_thms)
  qed
  then show ?thesis using same_core_fields(1) [OF RTS_frames(2) [OF k(1)]] by (simp add: keeps_flag_def k(2))
qed

lemma mini_notify_flag:
  assumes "mini_notify c x e s = Some (r, s')" shows "keeps_flag 11 s s'"
proof (cases "isokendpt (kc c) (ks s) e")
  case None
  with assms show ?thesis by (simp add: mini_notify_def keeps_flag_def)
next
  case (Some d)
  show ?thesis
  proof (cases "WILLRECEIVE c (ip s d) (p_endpoint (ip s x)) \<and> \<not> mf (ip s d) MF_REPLY_PEND")
    case False
    with assms Some show ?thesis by (auto simp: mini_notify_def intro: keeps_flag_upd)
  next
    case True
    let ?src = "p_nr (ip s x)"
    let ?m = "(notify_message c ?src d s)\<lparr>k_source := p_endpoint (ip s x)\<rparr>"
    let ?f = "\<lambda>p. IPC_STATUS_ADD (STATUS_CALL_TO c (NOTIFY c)) (set_mf MF_DELIVERMSG (p\<lparr>p_delivermsg := ?m\<rparr>))"
    let ?t = "notify_consume c ?src d s"
    have "keeps_flag 11 s ?t" unfolding notify_consume_def by (rule keeps_flag_upd)
    moreover have "keeps_flag 11 ?t (upd_ip d ?f ?t)" by (rule keeps_flag_upd) (simp add: IPC_STATUS_ADD_def set_mf_def)
    moreover have "UNSET_RTS c d RTS_RECEIVING (upd_ip d ?f ?t) = Some s'"
      using assms Some True by (auto simp: mini_notify_def kassert_def Let_def split: if_split_asm)
    then have "keeps_flag 11 (upd_ip d ?f ?t) s'" by (rule keeps_flag_receiving)
    ultimately show ?thesis using keeps_flag_trans by blast
  qed
qed

lemma send_sig_flag:
  assumes "send_sig c e sig s = Some s'" shows "keeps_flag 11 s s'"
proof -
  from assms obtain rp r where
    "mini_notify c (slot (kc c) (SYSTEM c)) (p_endpoint (ip s rp))
       (upd_priv (p_priv (ip s rp)) (\<lambda>p. p\<lparr>s_sig_pending := insert sig (s_sig_pending p)\<rparr>) s) = Some (r, s')"
    by (auto simp: send_sig_def kassert_def split: option.split_asm if_split_asm)
  from keeps_flag_trans [OF keeps_flag_upd(2) mini_notify_flag [OF this]] show ?thesis .
qed

lemma vmrequest_bit: "RTS_ISSET p RTS_VMREQUEST \<longleftrightarrow> bit (p_rts_flags p) 11"
  using and_exp_iff [of 11 "p_rts_flags p"] by (simp add: RTS_ISSET_def RTS_VMREQUEST_def)

text \<open>A request that is accepted blocks the caller and puts it at the head of the queue.\<close>

lemma map_invoke_vm_ok:
  assumes "map_invoke_vm c caller rt ed sd od es ss os n fl st = Some (r, st')"
  shows "map_info st' = map_info st"
    "r = OK \<Longrightarrow> \<not> RTS_ISSET (xp (mx st) caller) RTS_VMREQUEST \<and> vmrequest st' = Some caller"
    "r = OK \<Longrightarrow> caller < length (kprocs (ks (xi (mx st)))) \<Longrightarrow> RTS_ISSET (xp (mx st') caller) RTS_VMREQUEST"
proof -
  have "st' = st \<and> r \<noteq> OK \<or> (\<exists>x1 x2 x3 dst q. r = OK \<and> \<not> RTS_ISSET (xp (mx st) caller) RTS_VMREQUEST \<and>
      on_xi (SET_RTS caller RTS_VMREQUEST) (mx st) = Some x1 \<and> on_xi (SET_RTS dst RTS_VMREQTARGET) x1 = Some x2 \<and>
      (x3 = x2 \<or> on_xi (send_sig (mi c) (VM_PROC_NR c) (SIGKMEM c)) x2 = Some x3) \<and>
      st' = st\<lparr>mx := x3, p_vmrequest := q, vmrequest := Some caller\<rparr>)"
    using assms by (auto simp: map_invoke_vm_def bind_eq_Some_conv Let_def split: if_split_asm option.split_asm)
  then consider (err) "st' = st" "r \<noteq> OK"
    | (ok) x1 x2 x3 dst q where "r = OK" "\<not> RTS_ISSET (xp (mx st) caller) RTS_VMREQUEST"
      "on_xi (SET_RTS caller RTS_VMREQUEST) (mx st) = Some x1" "on_xi (SET_RTS dst RTS_VMREQTARGET) x1 = Some x2"
      "x3 = x2 \<or> on_xi (send_sig (mi c) (VM_PROC_NR c) (SIGKMEM c)) x2 = Some x3"
      "st' = st\<lparr>mx := x3, p_vmrequest := q, vmrequest := Some caller\<rparr>" by blast
  then have "map_info st' = map_info st \<and>
    (r = OK \<longrightarrow> \<not> RTS_ISSET (xp (mx st) caller) RTS_VMREQUEST \<and> vmrequest st' = Some caller \<and>
      (caller < length (kprocs (ks (xi (mx st)))) \<longrightarrow> RTS_ISSET (xp (mx st') caller) RTS_VMREQUEST))"
  proof cases
    case err
    then show ?thesis by simp
  next
    case ok
    have s1: "SET_RTS caller RTS_VMREQUEST (xi (mx st)) = Some (xi x1)" and s2: "SET_RTS dst RTS_VMREQTARGET (xi x1) = Some (xi x2)"
      using ok(3,4) by (auto simp: on_xi_Some)
    have k3: "keeps_flag 11 (xi x2) (xi x3)"
      using ok(5) send_sig_flag by (auto simp: on_xi_Some keeps_flag_def)
    from s1 obtain k where k: "RTS_SET caller RTS_VMREQUEST (ks (xi (mx st))) = Some k" "xi x1 = (xi (mx st))\<lparr>ks := k\<rparr>"
      by (rule SET_RTS_cases)
    have "bit (p_rts_flags (xp x3 caller)) 11" if c: "caller < length (kprocs (ks (xi (mx st))))"
    proof -
      have l: "length (kprocs (ks (xi x1))) = length (kprocs (ks (xi (mx st))))"
        using keeps_flag_set [OF s1] by (simp add: keeps_flag_def)
      have "bit (p_rts_flags (xp x1 caller)) 11"
        using RTS_SET_flags [OF k(1) c] flag_bits(2) by (simp add: k(2))
      then show ?thesis using keeps_flag_trans [OF keeps_flag_set [OF s2] k3] c l by (simp add: keeps_flag_def)
    qed
    then show ?thesis using ok by (simp add: vmrequest_bit)
  qed
  then show "map_info st' = map_info st"
    "r = OK \<Longrightarrow> \<not> RTS_ISSET (xp (mx st) caller) RTS_VMREQUEST \<and> vmrequest st' = Some caller"
    "r = OK \<Longrightarrow> caller < length (kprocs (ks (xi (mx st)))) \<Longrightarrow> RTS_ISSET (xp (mx st') caller) RTS_VMREQUEST" by blast+
qed


lemma verify_error: "verify_grant c s mem granter gtee i bytes acc off \<noteq> Inl OK"
proof -
  have f: "fetch_grant c s mem x j \<noteq> Inl OK" for x j
    by (simp add: fetch_grant_def Let_def split: option.split)
  have "follow c s mem left x y j \<noteq> Inl OK" for "left" x y j
  proof (induction "left" arbitrary: x y j)
    case 0
    show ?case using f [of x j] by (subst follow.simps) (auto split: sum.split)
  next
    case (Suc n)
    show ?case using f [of x j] Suc by (subst follow.simps) (auto split: sum.split)
  qed
  then have "verify_grant c s mem granter gtee i bytes acc off = Inl OK \<Longrightarrow> False"
    unfolding verify_grant_def by (simp split: sum.split_asm prod.split_asm if_split_asm)
  then show ?thesis by blast
qed

lemma safeunmap_ok:
  assumes "safeunmap c caller p mem st = Some (OK, st')"
  shows "\<not> RTS_ISSET (xp (mx st) caller) RTS_VMREQUEST" "vmrequest st' = Some caller"
    "map_info st' = (map_info st)[p := (map_info st ! p)\<lparr>mi_flag := 0\<rparr>]"
    "caller < length (kprocs (ks (xi (mx st)))) \<Longrightarrow> RTS_ISSET (xp (mx st') caller) RTS_VMREQUEST"
proof -
  from assms obtain o' e st1 where
    v: "map_invoke_vm c caller (VMPTYPE_SUNMAP c) (grantee (map_info st ! p)) (mi_seg (map_info st ! p)) (address (map_info st ! p)) e
        (D_seg (mg c)) o' (mi_bytes (map_info st ! p)) 0 st = Some (OK, st1)" "st' = clear_info p st1"
    using verify_error by (fastforce simp: safeunmap_def Let_def split: sum.split_asm)
  note M = map_invoke_vm_ok [OF v(1)]
  show "\<not> RTS_ISSET (xp (mx st) caller) RTS_VMREQUEST" "vmrequest st' = Some caller"
    "map_info st' = (map_info st)[p := (map_info st ! p)\<lparr>mi_flag := 0\<rparr>]"
    "caller < length (kprocs (ks (xi (mx st)))) \<Longrightarrow> RTS_ISSET (xp (mx st') caller) RTS_VMREQUEST"
    using M by (simp_all add: v(2) clear_info_def)
qed

lemma one_at_most:
  assumes "\<And>j. j < length xs \<Longrightarrow> j \<noteq> p \<Longrightarrow> \<not> P (xs ! j)" shows "length (List.filter P xs) \<le> 1"
proof -
  have "{i. i < length xs \<and> P (xs ! i)} \<subseteq> {p}" using assms by auto
  from card_mono [OF _ this] show ?thesis by (simp add: length_filter_conv_card)
qed

lemma unmap_loop_ok:
  assumes "unmap_loop c caller (\<lambda>st. first_idx P (map_info st)) mem st = Some (OK, st')"
    and "caller < length (kprocs (ks (xi (mx st))))"
  shows "length (List.filter P (map_info st)) \<le> 1 \<and> List.filter P (map_info st') = [] \<and>
    (List.filter P (map_info st) = [] \<longrightarrow> st' = st) \<and> (List.filter P (map_info st) \<noteq> [] \<longrightarrow> vmrequest st' = Some caller)"
proof (cases "first_idx P (map_info st)")
  case None
  then have "List.filter P (map_info st) = []" by (simp add: filter_empty_conv first_idx_None_iff)
  moreover have "st' = st" using assms(1) None by (subst (asm) unmap_loop.simps) simp
  ultimately show ?thesis by simp
next
  case (Some p)
  then obtain r st1 where s1: "safeunmap c caller p mem st = Some (r, st1)"
    using assms(1) by (subst (asm) unmap_loop.simps) (auto split: option.split_asm)
  then have r: "r = OK" and l1: "unmap_loop c caller (\<lambda>st. first_idx P (map_info st)) mem st1 = Some (OK, st')"
    using assms(1) Some by (subst (asm) unmap_loop.simps, simp split: if_split_asm)+
  note S = safeunmap_ok [OF s1 [unfolded r]]
  have "first_idx P (map_info st1) = None"
  proof (rule ccontr)
    assume "first_idx P (map_info st1) \<noteq> None"
    then obtain q where q: "first_idx P (map_info st1) = Some q" by blast
    obtain st2 where s2: "safeunmap c caller q mem st1 = Some (OK, st2)"
      using l1 q by (subst (asm) unmap_loop.simps) (auto split: option.split_asm if_split_asm)
    show False using safeunmap_ok(1) [OF s2] S(4) [OF assms(2)] by simp
  qed
  then have n: "List.filter P (map_info st1) = []" and e: "st' = st1"
    using l1 by (simp add: filter_empty_conv first_idx_None_iff, subst (asm) unmap_loop.simps, simp)
  have p: "p < length (map_info st)" "P (map_info st ! p)" using first_idx_SomeD [OF Some] by simp_all
  have "\<not> P (map_info st ! j)" if "j < length (map_info st)" "j \<noteq> p" for j
  proof -
    have "map_info st1 ! j = map_info st ! j" "j < length (map_info st1)" using that by (simp_all add: S(3))
    then show ?thesis using n nth_mem [of j "map_info st1"] by (auto simp: filter_empty_conv)
  qed
  then have "length (List.filter P (map_info st)) \<le> 1" by (rule one_at_most)
  moreover have "List.filter P (map_info st) \<noteq> []" using p nth_mem [of p "map_info st"] by (auto simp: filter_empty_conv)
  ultimately show ?thesis using n S(2) by (simp add: e)
qed

subsection \<open>Results\<close>

text \<open>
  (C33) One call takes down one mapping.  A call of \<^verbatim>\<open>do_saferevmap\<close> or \<^verbatim>\<open>do_safeunmap\<close> that succeeds found at most
  one mapping to take down, although both loop over all of them: the first request blocks the caller, and the second
  round of the loop runs into the assertion that it is not blocked.  After a success no mapping of the kind is left,
  and if there was one, the caller waits for the virtual memory server.
\<close>

theorem unmap_takes_one:
  assumes "P = revocable (p_endpoint (xp (mx st) caller)) (SMAP_FLAG m) (SMAP_GID m) \<and> do_saferevmap c caller m mem st = Some (OK, st') \<or>
     P = unmappable (p_endpoint (xp (mx st) caller)) (SMAP_SEG m) (SMAP_ADDRESS m) \<and> do_safeunmap c caller m mem st = Some (OK, st')"
    and "caller < length (kprocs (ks (xi (mx st))))"
  shows "length (List.filter P (map_info st)) \<le> 1 \<and> List.filter P (map_info st') = [] \<and>
    (if List.filter P (map_info st) = [] then st' = st else vmrequest st' = Some caller)"
proof -
  have "unmap_loop c caller (\<lambda>st. first_idx P (map_info st)) mem st = Some (OK, st')"
    using assms(1) by (auto simp: do_saferevmap_def do_safeunmap_def get_revoke_info_def [abs_def] get_unmap_info_def [abs_def])
  from unmap_loop_ok [OF this assms(2)] show ?thesis by simp
qed

text \<open>
  (C16) A mapping needs a grant.  When \<^verbatim>\<open>do_safemap\<close> succeeds, a chain of grants opens the mapped bytes to the caller for
  mapping and reading, and for writing when that was asked for; the mapping is recorded with its source in a slot that
  was free, all other records are as before, and the caller waits for the virtual memory server.
\<close>

theorem safemap_needs_grant:
  assumes "do_safemap c caller m mem st = Some (OK, st')"
  shows "\<exists>n start len e i. n \<le> 5 \<and>
    granted (mg c) (mx st) mem n (SMAP_EP m) (p_endpoint (xp (mx st) caller)) (SMAP_GID m)
      ((CPF_MAP (mg c) OR CPF_READ (mg c)) OR (if SMAP_FLAG m \<noteq> 0 then CPF_WRITE (mg c) else 0)) e start len \<and>
    unat (SMAP_OFFSET m) + unat (SMAP_BYTES m) \<le> unat len \<and>
    i < length (map_info st) \<and> mi_flag (map_info st ! i) = 0 \<and>
    map_info st' = (map_info st)[i := \<lparr>mi_flag = 1, grantor = e, gid = SMAP_GID m, offset = SMAP_OFFSET m,
      address_Dseg = start + SMAP_OFFSET m, grantee = p_endpoint (xp (mx st) caller), mi_seg = SMAP_SEG m,
      address = SMAP_ADDRESS m, mi_bytes = SMAP_BYTES m\<rparr>] \<and>
    vmrequest st' = Some caller"
proof -
  let ?me = "p_endpoint (xp (mx st) caller)"
  let ?acc = "(CPF_MAP (mg c) OR CPF_READ (mg c)) OR (if SMAP_FLAG m \<noteq> 0 then CPF_WRITE (mg c) else 0)"
  from assms obtain a e where v: "verify_grant (mg c) (mx st) mem (SMAP_EP m) ?me (SMAP_GID m) (SMAP_BYTES m) ?acc (SMAP_OFFSET m) = Inr (a, e)"
    using verify_error by (fastforce simp: do_safemap_def Let_def split: sum.split_asm)
  obtain r st1 where add: "add_info e ?me (SMAP_GID m) (SMAP_OFFSET m) a (SMAP_SEG m) (SMAP_ADDRESS m) (SMAP_BYTES m) st = (r, st1)"
    by force
  from assms v add have r: "r = OK" and k: "map_invoke_vm c caller (VMPTYPE_SMAP c) ?me (SMAP_SEG m) (SMAP_ADDRESS m) e (D_seg (mg c)) a
      (SMAP_BYTES m) (SMAP_FLAG m) st1 = Some (OK, st')"
    by (auto simp: do_safemap_def Let_def split: if_split_asm)
  from add r obtain i where i: "first_idx (\<lambda>i. mi_flag i = 0) (map_info st) = Some i"
    "map_info st1 = (map_info st)[i := \<lparr>mi_flag = 1, grantor = e, gid = SMAP_GID m, offset = SMAP_OFFSET m,
      address_Dseg = a, grantee = ?me, mi_seg = SMAP_SEG m, address = SMAP_ADDRESS m, mi_bytes = SMAP_BYTES m\<rparr>]"
    by (auto simp: add_info_def split: option.split_asm)
  from verify_granted [OF v] obtain n start len where G: "n \<le> 5" "granted (mg c) (mx st) mem n (SMAP_EP m) ?me (SMAP_GID m) ?acc e start len"
    "unat (SMAP_OFFSET m) + unat (SMAP_BYTES m) \<le> unat len" "a = start + SMAP_OFFSET m"
    unfolding MAX_INDIRECT_DEPTH_def by blast
  note M = map_invoke_vm_ok [OF k]
  show ?thesis
    by (rule exI [of _ n], rule exI [of _ start], rule exI [of _ len], rule exI [of _ e], rule exI [of _ i])
      (use G M i first_idx_SomeD [OF i(1)] in simp)
qed


subsection \<open>An example\<close>

text \<open>The process 2 lets the process manager 0 map its 100 bytes from 1000 on; clicks are single bytes.\<close>

declare unmap_loop.simps [code]

definition demo_mcfg :: "nat mcfg" where
  "demo_mcfg = \<lparr>mg = demo_gcfg\<lparr>read_grant := (\<lambda>_ e a. if e = 2 \<and> a = 500 then Some (demo_grant\<lparr>cp_flags := 157\<rparr>) else None)\<rparr>,
     CLICK_SHIFT = 0, T_seg = 0, S_seg = 2, VMPTYPE_SMAP = 1, VMPTYPE_SUNMAP = 2, VM_PROC_NR = 1, SIGKMEM = 9\<rparr>"

definition demo_free :: map_info_s where
  "demo_free = \<lparr>mi_flag = 0, grantor = 0, gid = 0, offset = 0, address_Dseg = 0, grantee = 0, mi_seg = 0, address = 0, mi_bytes = 0\<rparr>"

definition demo_m :: mstate where
  "demo_m = \<lparr>mx = demo_gx, map_info = [demo_free, demo_free],
     p_memmap = replicate 5 (\<lambda>_. \<lparr>mem_vir = 0, mem_phys = 7, mem_len = 5000\<rparr>),
     p_vmrequest = replicate 5 \<lparr>vr_map = False, req_type = 0, vr_target = 0, vir_d = 0, ep_s = 0, vir_s = 0, vr_length = 0,
       writeflag = 0, nextrequestor = None\<rparr>, vmrequest = Some 1\<rparr>"

definition demo_smsg :: smap_msg where
  "demo_smsg = \<lparr>SMAP_EP = 2, SMAP_GID = 0, SMAP_OFFSET = 10, SMAP_SEG = 1, SMAP_ADDRESS = 2000, SMAP_BYTES = 20, SMAP_FLAG = 0\<rparr>"

definition demo_mapped :: mstate where
  "demo_mapped = demo_m\<lparr>map_info := [demo_free, \<lparr>mi_flag = 1, grantor = 2, gid = 0, offset = 10, address_Dseg = 1010, grantee = 0,
     mi_seg = 1, address = 2000, mi_bytes = 20\<rparr>]\<rparr>"

theorem safemap_needs_grant_witness:
  "\<exists>st' n start len. do_safemap demo_mcfg 2 demo_smsg 0 demo_m = Some (OK, st') \<and> vmrequest st' = Some 2 \<and>
     granted (mg demo_mcfg) demo_gx 0 n 2 0 0 9 2 start len"
proof -
  have "map_option fst (do_safemap demo_mcfg 2 demo_smsg 0 demo_m) = Some OK" by code_simp
  then obtain st' where r: "do_safemap demo_mcfg 2 demo_smsg 0 demo_m = Some (OK, st')" by auto
  have e: "p_endpoint (xp demo_gx 2) = 0" by code_simp
  have v: "verify_grant (mg demo_mcfg) demo_gx 0 2 0 0 20 9 10 = Inr (1010, 2)" by code_simp
  have a: "(CPF_MAP (mg demo_mcfg) OR CPF_READ (mg demo_mcfg)) OR 0 = 9" by (simp add: demo_mcfg_def demo_gcfg_def)
  from safemap_needs_grant [OF r] obtain n start len x where
    g: "granted (mg demo_mcfg) demo_gx 0 n 2 0 0 9 x start len" "n \<le> 5" "unat (10 :: 32 word) + unat (20 :: 32 word) \<le> unat len"
    "vmrequest st' = Some 2"
    using e a by (auto simp: demo_smsg_def demo_m_def)
  from granted_add [OF g(1) _ g(3)] g(2) v have "x = 2" by (simp add: MAX_INDIRECT_DEPTH_def)
  with r g show ?thesis by blast
qed

theorem unmap_takes_one_witness:
  "\<exists>st'. do_safeunmap demo_mcfg 2 demo_smsg 0 demo_mapped = Some (OK, st') \<and>
     length (List.filter (unmappable 0 1 2000) (map_info demo_mapped)) = 1 \<and>
     List.filter (unmappable 0 1 2000) (map_info st') = [] \<and> vmrequest st' = Some 2"
proof -
  have "map_option fst (do_safeunmap demo_mcfg 2 demo_smsg 0 demo_mapped) = Some OK" by code_simp
  then obtain st' where r: "do_safeunmap demo_mcfg 2 demo_smsg 0 demo_mapped = Some (OK, st')" by auto
  have e: "p_endpoint (xp (mx demo_mapped) 2) = 0" "2 < length (kprocs (ks (xi (mx demo_mapped))))" by code_simp+
  have f: "length (List.filter (unmappable 0 1 2000) (map_info demo_mapped)) = 1" by code_simp
  have P: "unmappable 0 1 2000 = unmappable (p_endpoint (xp (mx demo_mapped) 2)) (SMAP_SEG demo_smsg) (SMAP_ADDRESS demo_smsg)"
    by (simp add: e demo_smsg_def)
  show ?thesis using unmap_takes_one [OF disjI2 [OF conjI [OF P r]] e(2)] r f by (auto split: if_split_asm)
qed

end
