(* ===== verification/KDevio.thy ===== *)
theory KDevio
  imports KCalls
begin

text \<open>
  Device I/O on behalf of drivers: \<^verbatim>\<open>do_devio\<close> and \<^verbatim>\<open>do_vdevio\<close> of \<^verbatim>\<open>src/Project_2/kernel/system\<close>.  A driver may only
  touch the I/O ports of its privilege structure.  What the ports do is a log of the instructions executed; the value
  an input instruction reads is a parameter, which may depend on the log.

  The buffer of \<^verbatim>\<open>do_vdevio\<close> is a list of bytes that is read through three pointers, \<^verbatim>\<open>pvb\<close>, \<^verbatim>\<open>pvw\<close> and \<^verbatim>\<open>pvl\<close>; the
  layout of the pairs comes from a header outside the repository and is a parameter, with the port in the first two
  bytes of a pair.  \<^const>\<open>None\<close> is an access outside the buffer or the \<^verbatim>\<open>panic\<close> for an unaligned port.
\<close>

unbundle bit_operations_syntax

subsection \<open>State and parameters\<close>

datatype io_type = DIO_BYTE | DIO_WORD | DIO_LONG

datatype io_op = Inp nat "32 word" | Outp nat "32 word" "32 word"

fun op_size :: "io_op \<Rightarrow> nat" where
  "op_size (Inp n p) = n"
| "op_size (Outp n p v) = n"

fun op_port :: "io_op \<Rightarrow> 32 word" where
  "op_port (Inp n p) = p"
| "op_port (Outp n p v) = p"

record dcfg =
  dxc :: xcfg
  io_type :: "int \<Rightarrow> io_type option"            \<comment> \<open>\<^verbatim>\<open>DIO_REQUEST & _DIO_TYPEMASK\<close>\<close>
  dio_input :: "int \<Rightarrow> bool"
  dio_output :: "int \<Rightarrow> bool"
  sizeof_pair :: "io_type \<Rightarrow> nat"
  value_off :: "io_type \<Rightarrow> nat"
  VDEVIO_BUF_SIZE :: nat
  port_in :: "io_op list \<Rightarrow> nat \<Rightarrow> 32 word \<Rightarrow> 32 word"
  copy_in :: "nat \<Rightarrow> nat \<Rightarrow> nat \<Rightarrow> errno \<times> 8 word list"
  copy_out :: "nat \<Rightarrow> nat \<Rightarrow> 8 word list \<Rightarrow> errno"

record dstate =
  dx :: xstate
  vdevio_buf :: "8 word list"
  iolog :: "io_op list"

fun io_size :: "io_type \<Rightarrow> nat" where
  "io_size DIO_BYTE = 1"
| "io_size DIO_WORD = 2"
| "io_size DIO_LONG = 4"

definition checked :: "dcfg \<Rightarrow> dstate \<Rightarrow> nat \<Rightarrow> bool" where
  "checked c st caller \<longleftrightarrow> s_flags (xpriv (dx st) (privx (dx st) caller)) AND CHECK_IO_PORT (dxc c) \<noteq> 0"

text \<open>The loop over the ranges of a driver.\<close>

definition io_ranges :: "dstate \<Rightarrow> nat \<Rightarrow> (32 word \<times> 32 word) list" where
  "io_ranges st caller = (let e = pexts (dx st) ! privx (dx st) caller in take (nat (s_nr_io_range e)) (s_io_tab e))"

definition port_ok :: "dstate \<Rightarrow> nat \<Rightarrow> nat \<Rightarrow> 32 word \<Rightarrow> bool" where
  "port_ok st caller sz port \<longleftrightarrow>
     list_ex (\<lambda>(ior_base, ior_limit). port \<ge> ior_base \<and> port + of_nat sz - 1 \<le> ior_limit) (io_ranges st caller)"

subsection \<open>\<^verbatim>\<open>do_devio\<close>\<close>

definition do_devio :: "dcfg \<Rightarrow> nat \<Rightarrow> int \<Rightarrow> 32 word \<Rightarrow> 32 word \<Rightarrow> dstate \<Rightarrow> errno \<times> 32 word \<times> dstate" where
  "do_devio c caller request port val st =
     (let sz = (case io_type c request of Some t \<Rightarrow> io_size t | None \<Rightarrow> 4) in
      if checked c st caller \<and> \<not> port_ok st caller sz port then (EPERM, val, st)
      else if port AND (of_nat sz - 1) \<noteq> 0 then (EPERM, val, st)
      else case io_type c request of
        None \<Rightarrow> (EINVAL, val, st)
      | Some t \<Rightarrow>
          if dio_input c request then
            (OK, port_in c (iolog st) (io_size t) port, st\<lparr>iolog := iolog st @ [Inp (io_size t) port]\<rparr>)
          else (OK, val, st\<lparr>iolog := iolog st @ [Outp (io_size t) port val]\<rparr>))"

subsection \<open>\<^verbatim>\<open>do_vdevio\<close>\<close>

definition le_bytes :: "nat \<Rightarrow> nat \<Rightarrow> 8 word list \<Rightarrow> nat" where
  "le_bytes off n b = foldr (\<lambda>x v. unat x + 256 * v) (take n (drop off b)) 0"

definition get_port :: "dcfg \<Rightarrow> io_type \<Rightarrow> 8 word list \<Rightarrow> nat \<Rightarrow> 32 word option" where
  "get_port c t b i =
     (let off = i * sizeof_pair c t in
      if off + 2 \<le> length b then Some (of_nat (unat (b ! off) + 256 * unat (b ! (off + 1)))) else None)"

definition get_value :: "dcfg \<Rightarrow> io_type \<Rightarrow> 8 word list \<Rightarrow> nat \<Rightarrow> 32 word option" where
  "get_value c t b i =
     (let off = i * sizeof_pair c t + value_off c t in
      if off + io_size t \<le> length b then Some (of_nat (le_bytes off (io_size t) b)) else None)"

definition set_value :: "dcfg \<Rightarrow> io_type \<Rightarrow> nat \<Rightarrow> 32 word \<Rightarrow> 8 word list \<Rightarrow> 8 word list option" where
  "set_value c t i v b =
     (let off = i * sizeof_pair c t + value_off c t in
      if off + io_size t \<le> length b
      then Some (List.map (\<lambda>x. if off \<le> x \<and> x < off + io_size t then of_nat (unat v div 256 ^ (x - off)) else b ! x) [0 ..< length b])
      else None)"

text \<open>The check of the ports, one by one.\<close>

fun check_ports :: "dcfg \<Rightarrow> dstate \<Rightarrow> nat \<Rightarrow> io_type \<Rightarrow> 8 word list \<Rightarrow> nat list \<Rightarrow> errno option" where
  "check_ports c st caller t b [] = Some OK"
| "check_ports c st caller t b (i # is) =
     (case get_port c t b i of
        None \<Rightarrow> None
      | Some port \<Rightarrow> if port_ok st caller (io_size t) port then check_ports c st caller t b is else Some EPERM)"

text \<open>One input or output; the output of a long value takes its port through \<^verbatim>\<open>pvb\<close>.\<close>

definition one_io :: "dcfg \<Rightarrow> io_type \<Rightarrow> bool \<Rightarrow> nat \<Rightarrow> 8 word list \<times> io_op list \<Rightarrow> (8 word list \<times> io_op list) option" where
  "one_io c t io_in i = (\<lambda>(b, log).
     do {
       port \<leftarrow> get_port c t b i;
       if port AND (of_nat (io_size t) - 1) \<noteq> 0 then None
       else if io_in then do {
         b' \<leftarrow> set_value c t i (port_in c log (io_size t) port) b;
         Some (b', log @ [Inp (io_size t) port])
       } else do {
         out \<leftarrow> get_port c (if t = DIO_LONG then DIO_BYTE else t) b i;
         v \<leftarrow> get_value c t b i;
         Some (b, log @ [Outp (io_size t) out v])
       }
     })"

fun all_io :: "dcfg \<Rightarrow> io_type \<Rightarrow> bool \<Rightarrow> nat list \<Rightarrow> 8 word list \<times> io_op list \<Rightarrow> (8 word list \<times> io_op list) option" where
  "all_io c t io_in [] x = Some x"
| "all_io c t io_in (i # is) x = one_io c t io_in i x \<bind> all_io c t io_in is"

definition do_vdevio :: "dcfg \<Rightarrow> nat \<Rightarrow> int \<Rightarrow> int \<Rightarrow> nat \<Rightarrow> dstate \<Rightarrow> (errno \<times> dstate) option" where
  "do_vdevio c caller request vec_size vec_addr st =
     (if \<not> dio_input c request \<and> \<not> dio_output c request then Some (EINVAL, st)
      else if vec_size \<le> 0 then Some (EINVAL, st)
      else case io_type c request of
        None \<Rightarrow> Some (EINVAL, st)
      | Some t \<Rightarrow>
          let n = unat (word_of_int vec_size * of_nat (sizeof_pair c t) :: 32 word); idx = [0 ..< nat vec_size] in
          if n > VDEVIO_BUF_SIZE c then Some (E2BIG, st)
          else
            let (r, data) = copy_in c caller vec_addr n in
            if r \<noteq> OK then Some (r, st)
            else
              let b = data @ drop n (vdevio_buf st); st1 = st\<lparr>vdevio_buf := b\<rparr> in
              (case (if checked c st caller then check_ports c st caller t b idx else Some OK) of
                 None \<Rightarrow> None
               | Some r \<Rightarrow>
                   if r \<noteq> OK then Some (r, st1)
                   else (case all_io c t (dio_input c request) idx (b, iolog st) of
                      None \<Rightarrow> None
                    | Some (b', log) \<Rightarrow>
                        Some (if dio_input c request then copy_out c caller vec_addr (take n b') else OK,
                              st\<lparr>vdevio_buf := b', iolog := log\<rparr>))))"

subsection \<open>The ports that are touched\<close>

text \<open>The instruction stays within one range of the driver, without wrapping around.\<close>

definition in_ranges :: "(32 word \<times> 32 word) list \<Rightarrow> io_op \<Rightarrow> bool" where
  "in_ranges rs op \<longleftrightarrow> list_ex (\<lambda>(base, lim). unat base \<le> unat (op_port op) \<and> unat (op_port op) + op_size op \<le> unat lim + 1) rs"

definition layout_ok :: "dcfg \<Rightarrow> bool" where
  "layout_ok c \<longleftrightarrow> list_all (\<lambda>t. 2 \<le> value_off c t \<and> value_off c t + io_size t \<le> sizeof_pair c t) [DIO_BYTE, DIO_WORD, DIO_LONG]"


lemma layout_okD: "layout_ok c \<Longrightarrow> 2 \<le> value_off c t \<and> value_off c t + io_size t \<le> sizeof_pair c t"
  by (cases t) (simp_all add: layout_ok_def)

lemma aligned_mod:
  fixes p :: "32 word"
  shows "p AND 1 = 0 \<Longrightarrow> unat p mod 2 = 0" "p AND 3 = 0 \<Longrightarrow> unat p mod 4 = 0"
proof -
  have t: "unat (take_bit n p) = unat p mod 2 ^ n" for n
    unfolding unsigned_take_bit_eq by (simp add: take_bit_eq_mod)
  show "unat p mod 2 = 0" if "p AND 1 = 0"
    using that t [of 1] by (simp add: take_bit_eq_mask)
  have "mask 2 = (3 :: 32 word)" by (simp add: mask_eq_exp_minus_1)
  then show "unat p mod 4 = 0" if "p AND 3 = 0"
    using that t [of 2] by (simp add: take_bit_eq_mask)
qed

lemma aligned_end:
  fixes p :: "32 word"
  assumes "p AND (of_nat (io_size t) - 1) = 0"
  shows "unat (p + of_nat (io_size t) - 1) + 1 = unat p + io_size t"
proof -
  have b: "unat p < 4294967296" using unsigned_less [of p] by simp
  have e: "unat (p + w) = unat p + unat w" if "unat p + unat w < 4294967296" for w :: "32 word"
    using that by (simp add: unat_word_ariths)
  show ?thesis
  proof (cases t)
    case DIO_BYTE
    then show ?thesis by simp
  next
    case DIO_WORD
    then have "unat p mod 2 = 0" using assms aligned_mod(1) [of p] by simp
    then have "unat p + 1 < 4294967296" using b by presburger
    then show ?thesis using e [of 1] DIO_WORD by (simp add: add_diff_eq [symmetric])
  next
    case DIO_LONG
    then have "unat p mod 4 = 0" using assms aligned_mod(2) [of p] by simp
    then have "unat p + 3 < 4294967296" using b by presburger
    then show ?thesis using e [of 3] DIO_LONG by (simp add: add_diff_eq [symmetric])
  qed
qed

lemma port_ok_ranges:
  assumes "port_ok st caller (io_size t) p" "p AND (of_nat (io_size t) - 1) = 0" "op_port op = p" "op_size op = io_size t"
  shows "in_ranges (io_ranges st caller) op"
proof -
  have "b \<le> p \<and> p + of_nat (io_size t) - 1 \<le> l \<Longrightarrow> unat b \<le> unat p \<and> unat p + io_size t \<le> unat l + 1" for b l
    using aligned_end [OF assms(2)] unfolding word_le_nat_alt by linarith
  then show ?thesis using assms(1,3,4) unfolding port_ok_def in_ranges_def list_ex_iff by fastforce
qed


subsection \<open>Vectors\<close>

text \<open>An input value never reaches the port of a pair.\<close>

lemma set_value_port:
  assumes "layout_ok c" "set_value c t i v b = Some b'"
  shows "get_port c t b' j = get_port c t b j" "length b' = length b"
proof -
  let ?k = "sizeof_pair c t" and ?o = "i * sizeof_pair c t + value_off c t"
  have L: "2 \<le> value_off c t" "value_off c t + io_size t \<le> ?k" using layout_okD [OF assms(1)] by auto
  show l: "length b' = length b" using assms(2) by (auto simp: set_value_def Let_def split: if_split_asm)
  have same: "b' ! x = b ! x" if "x < length b" "\<not> (?o \<le> x \<and> x < ?o + io_size t)" for x
    using assms(2) that by (auto simp: set_value_def Let_def split: if_split_asm)
  have out: "\<not> (?o \<le> j * ?k + d \<and> j * ?k + d < ?o + io_size t)" if "d < 2" for d
  proof (cases "j \<le> i")
    case True
    then have "j * ?k \<le> i * ?k" by simp
    then show ?thesis using L(1) that by linarith
  next
    case False
    then have "Suc i * ?k \<le> j * ?k" by (intro mult_le_mono1) simp
    then have "i * ?k + ?k \<le> j * ?k" by simp
    then show ?thesis using L(2) by linarith
  qed
  show "get_port c t b' j = get_port c t b j"
    using same [of "j * ?k"] same [of "j * ?k + 1"] out [of 0] out [of 1] by (simp add: get_port_def Let_def l)
qed

lemma check_ports_ok:
  "check_ports c st caller t b is = Some OK \<Longrightarrow> i \<in> set is \<Longrightarrow>
     \<exists>p. get_port c t b i = Some p \<and> port_ok st caller (io_size t) p"
  by (induction "is") (auto split: option.split_asm if_split_asm)

lemma check_ports_total:
  "(\<And>i. i \<in> set is \<Longrightarrow> get_port c t b i \<noteq> None) \<Longrightarrow> check_ports c st caller t b is \<noteq> None"
proof (induction "is")
  case (Cons i "is")
  then obtain p where "get_port c t b i = Some p" by force
  with Cons show ?case by simp
qed simp

lemma one_io_ports:
  assumes L: "layout_ok c" and t: "t \<noteq> DIO_LONG \<or> io_in" and x: "one_io c t io_in i (b, log) = Some (b', log')"
  shows "\<exists>p op. get_port c t b i = Some p \<and> p AND (of_nat (io_size t) - 1) = 0 \<and> log' = log @ [op] \<and> op_port op = p \<and>
    op_size op = io_size t \<and> (\<forall>j. get_port c t b' j = get_port c t b j)"
proof -
  obtain p where p: "get_port c t b i = Some p" "p AND (of_nat (io_size t) - 1) = 0"
    using x by (auto simp: one_io_def bind_eq_Some_conv split: if_split_asm)
  show ?thesis
  proof (cases io_in)
    case True
    with x p obtain b1 where "set_value c t i (port_in c log (io_size t) p) b = Some b1" "b' = b1" "log' = log @ [Inp (io_size t) p]"
      by (auto simp: one_io_def bind_eq_Some_conv)
    with p set_value_port(1) [OF L] show ?thesis by (intro exI [of _ p] exI [of _ "Inp (io_size t) p"]) simp
  next
    case False
    with x p t obtain v where "b' = b" "log' = log @ [Outp (io_size t) p v]"
      by (auto simp: one_io_def bind_eq_Some_conv)
    with p show ?thesis by (intro exI [of _ p] exI [of _ "Outp (io_size t) p v"]) simp
  qed
qed

lemma all_io_ports:
  assumes L: "layout_ok c" and t: "t \<noteq> DIO_LONG \<or> io_in"
  shows "all_io c t io_in is (b, log) = Some (b', log') \<Longrightarrow>
    (\<And>i. i \<in> set is \<Longrightarrow> \<exists>p. get_port c t b i = Some p \<and> port_ok st caller (io_size t) p) \<Longrightarrow>
    \<exists>ops. log' = log @ ops \<and> list_all (in_ranges (io_ranges st caller)) ops"
proof (induction "is" arbitrary: b log)
  case Nil
  then show ?case by simp
next
  case (Cons i "is")
  then obtain b1 log1 where s: "one_io c t io_in i (b, log) = Some (b1, log1)" "all_io c t io_in is (b1, log1) = Some (b', log')"
    by (auto simp: bind_eq_Some_conv)
  from one_io_ports [OF L t s(1)] obtain p op where
    p: "get_port c t b i = Some p" "p AND (of_nat (io_size t) - 1) = 0" "log1 = log @ [op]" "op_port op = p" "op_size op = io_size t"
      "\<And>j. get_port c t b1 j = get_port c t b j" by blast
  have "port_ok st caller (io_size t) p" using Cons.prems(2) [of i] p(1) by simp
  note o = port_ok_ranges [OF this p(2,4,5)]
  have "\<exists>q. get_port c t b1 j = Some q \<and> port_ok st caller (io_size t) q" if "j \<in> set is" for j
    using Cons.prems(2) [of j] that by (simp add: p(6))
  from Cons.IH [OF s(2) this] obtain ops where "log' = log1 @ ops" "list_all (in_ranges (io_ranges st caller)) ops" by blast
  with o p(3) show ?case by (intro exI [of _ "op # ops"]) simp
qed

subsection \<open>Results\<close>

text \<open>
  (C12) A driver whose ports are checked touches only its own ports.  Whatever \<^verbatim>\<open>do_devio\<close> and, for bytes, words and
  long inputs, \<^verbatim>\<open>do_vdevio\<close> are asked for, every I/O instruction they execute lies within one of the ranges in the
  privilege structure of the caller, with all of its two or four ports and without wrapping around the port space.
\<close>

theorem devio_within_ranges:
  assumes "checked c st caller" "layout_ok c"
    and "do_devio c caller request port val st = (r, val', st') \<or>
      do_vdevio c caller request vec_size a st = Some (r, st') \<and> (io_type c request \<noteq> Some DIO_LONG \<or> dio_input c request)"
  shows "\<exists>ops. iolog st' = iolog st @ ops \<and> list_all (in_ranges (io_ranges st caller)) ops"
  using assms(3)
proof
  assume d: "do_devio c caller request port val st = (r, val', st')"
  show ?thesis
  proof (cases "st' = st")
    case False
    with d obtain t op where t: "io_type c request = Some t" "port_ok st caller (io_size t) port" "port AND (of_nat (io_size t) - 1) = 0"
      "iolog st' = iolog st @ [op]" "op_port op = port" "op_size op = io_size t"
      using assms(1) by (auto simp: do_devio_def Let_def split: if_split_asm option.split_asm)
    from port_ok_ranges [OF t(2,3,5,6)] t(4) show ?thesis by (intro exI [of _ "[op]"]) simp
  qed simp
next
  assume "do_vdevio c caller request vec_size a st = Some (r, st') \<and> (io_type c request \<noteq> Some DIO_LONG \<or> dio_input c request)"
  then have v: "do_vdevio c caller request vec_size a st = Some (r, st')" and l: "io_type c request \<noteq> Some DIO_LONG \<or> dio_input c request"
    by blast+
  show ?thesis
  proof (cases "iolog st' = iolog st")
    case False
    with v assms(1) obtain t b b' where t: "io_type c request = Some t" "check_ports c st caller t b [0 ..< nat vec_size] = Some OK"
      "all_io c t (dio_input c request) [0 ..< nat vec_size] (b, iolog st) = Some (b', iolog st')"
      by (auto simp: do_vdevio_def Let_def split: if_split_asm option.split_asm prod.split_asm)
    have "t \<noteq> DIO_LONG \<or> dio_input c request" using l t(1) by simp
    from all_io_ports [OF assms(2) this t(3) check_ports_ok [OF t(2)]] show ?thesis by simp
  qed simp
qed


text \<open>
  (C35) The check does not hold for vectors of long outputs, where the port is taken through the pointer for bytes: with
  the usual layout (pairs of four and eight bytes), a driver that may use a single aligned port can write to any
  port.  The second pair passes the check with the port \<open>p\<close>, but the instruction takes the value of the first pair.
\<close>

theorem vdevio_long_output_escapes:
  assumes "sizeof_pair c DIO_LONG = 8" "sizeof_pair c DIO_BYTE = 4" "value_off c DIO_LONG = 4" "VDEVIO_BUF_SIZE c \<ge> 16"
    and "io_type c request = Some DIO_LONG" "dio_output c request" "\<not> dio_input c request"
    and "copy_in c caller a 16 = (OK, [of_nat (p mod 256), of_nat (p div 256), 0, 0, of_nat (q mod 256), of_nat (q div 256), 0, 0,
           of_nat (p mod 256), of_nat (p div 256), 0, 0, 0, 0, 0, 0])"
    and "p < 65536" "q < 65536" "p mod 4 = 0" "port_ok st caller 4 (of_nat p)"
  shows "\<exists>st'. do_vdevio c caller request 2 a st = Some (OK, st') \<and>
    iolog st' = iolog st @ [Outp 4 (of_nat p) (of_nat q), Outp 4 (of_nat q) 0]"
proof -
  define b where "b = [of_nat (p mod 256), of_nat (p div 256), 0, 0, of_nat (q mod 256), of_nat (q div 256), 0, 0,
           of_nat (p mod 256), of_nat (p div 256), 0, 0, 0, 0, 0, 0] @ drop 16 (vdevio_buf st)"
  have u: "unat (of_nat (n mod 256) :: 8 word) = n mod 256" "unat (of_nat (n div 256) :: 8 word) = n div 256"
    "n mod 256 + 256 * (n div 256) = n" if "n < 65536" for n :: nat
    using that by (simp_all add: unat_of_nat less_mult_imp_div_less)
  have g: "get_port c DIO_LONG b 0 = Some (of_nat p)" "get_port c DIO_LONG b 1 = Some (of_nat p)"
    "get_port c DIO_BYTE b 0 = Some (of_nat p)" "get_port c DIO_BYTE b 1 = Some (of_nat q)"
    "get_value c DIO_LONG b 0 = Some (of_nat q)" "get_value c DIO_LONG b 1 = Some 0"
    using u [OF assms(9)] u [OF assms(10)]
    by (simp_all add: get_port_def get_value_def le_bytes_def b_def assms(1-3))
  have al: "(of_nat p :: 32 word) AND (of_nat (io_size DIO_LONG) - 1) = 0"
  proof -
    have m: "(of_nat (io_size DIO_LONG) - 1 :: 32 word) = mask 2" by (simp add: mask_eq_exp_minus_1)
    have "take_bit 2 (of_nat p :: 32 word) = of_nat (take_bit 2 p)" by (simp add: of_nat_take_bit)
    also have "\<dots> = 0" using assms(11) by (simp add: take_bit_eq_mod)
    finally show ?thesis unfolding m take_bit_eq_mask [symmetric] .
  qed
  have two: "[0 ..< nat 2] = [0, 1]" by (simp add: upt_rec)
  have ck: "check_ports c st caller DIO_LONG b [0, 1] = Some OK" using g(1,2) assms(12) by simp
  have io: "all_io c DIO_LONG False [0, 1] (b, iolog st) = Some (b, iolog st @ [Outp 4 (of_nat p) (of_nat q), Outp 4 (of_nat q) 0])"
    using g al by (simp add: one_io_def)
  have n: "unat (word_of_int 2 * of_nat (sizeof_pair c DIO_LONG) :: 32 word) = 16" by (simp add: assms(1))
  show ?thesis
    unfolding do_vdevio_def Let_def n two assms(5,8) option.case prod.case b_def [symmetric]
    using assms(4,6,7) ck io by (simp del: check_ports.simps all_io.simps)
qed


subsection \<open>An example\<close>

text \<open>The process manager may use the ports 16 to 23, and wants to write the value 5 to port 96 (the keyboard).\<close>

definition demo_vec16 :: "8 word list" where
  "demo_vec16 = [of_nat (16 mod 256), of_nat (16 div 256), 0, 0, of_nat (96 mod 256), of_nat (96 div 256), 0, 0,
     of_nat (16 mod 256), of_nat (16 div 256), 0, 0, 0, 0, 0, 0]"

definition demo_dcfg :: dcfg where
  "demo_dcfg = \<lparr>dxc = demo_xcfg, io_type = (\<lambda>n. if n mod 4 = 0 then Some DIO_BYTE else if n mod 4 = 1 then Some DIO_WORD else Some DIO_LONG),
     dio_input = (\<lambda>n. n < 4), dio_output = (\<lambda>n. 4 \<le> n),
     sizeof_pair = (\<lambda>t. if t = DIO_LONG then 8 else 4), value_off = (\<lambda>t. if t = DIO_LONG then 4 else 2),
     VDEVIO_BUF_SIZE = 64, port_in = (\<lambda>_ _ _. 0), copy_in = (\<lambda>_ _ n. (OK, demo_vec16)), copy_out = (\<lambda>_ _ _. OK)\<rparr>"

definition demo_dstate :: dstate where
  "demo_dstate = \<lparr>dx = demo_x\<lparr>pexts := replicate 4 (demo_pext\<lparr>s_nr_io_range := 1, s_io_tab := [(16, 23), (0, 0)]\<rparr>),
       xi := upd_priv 1 (\<lambda>r. r\<lparr>s_flags := 17\<rparr>) (xi demo_x)\<rparr>,
     vdevio_buf = replicate 64 0, iolog = []\<rparr>"

lemma demo_dev: "checked demo_dcfg demo_dstate 2" "layout_ok demo_dcfg" "port_ok demo_dstate 2 4 16"
  "io_ranges demo_dstate 2 = [(16, 23)]"
  by code_simp+

theorem devio_within_ranges_witness:
  "\<exists>r st'. do_devio demo_dcfg 2 4 17 5 demo_dstate = (r, 5, st') \<and> iolog st' = [Outp 1 17 5] \<and> in_ranges [(16, 23)] (Outp 1 17 5)"
proof -
  have o: "fst (do_devio demo_dcfg 2 4 17 5 demo_dstate) = OK" "iolog (snd (snd (do_devio demo_dcfg 2 4 17 5 demo_dstate))) = [Outp 1 17 5]"
    "iolog demo_dstate = []" "fst (snd (do_devio demo_dcfg 2 4 17 5 demo_dstate)) = 5" by code_simp+
  obtain r v st' where d: "do_devio demo_dcfg 2 4 17 5 demo_dstate = (r, v, st')" by (cases "do_devio demo_dcfg 2 4 17 5 demo_dstate")
  from devio_within_ranges [OF demo_dev(1,2) disjI1 [OF d]] o d show ?thesis
    unfolding demo_dev(4) by auto
qed

theorem vdevio_long_output_escapes_witness:
  "\<exists>st'. do_vdevio demo_dcfg 2 6 2 0 demo_dstate = Some (OK, st') \<and> iolog st' = [Outp 4 16 96, Outp 4 96 0] \<and>
     \<not> in_ranges (io_ranges demo_dstate 2) (Outp 4 96 0)"
proof -
  have c: "sizeof_pair demo_dcfg DIO_LONG = 8" "sizeof_pair demo_dcfg DIO_BYTE = 4" "value_off demo_dcfg DIO_LONG = 4"
    "16 \<le> VDEVIO_BUF_SIZE demo_dcfg" "io_type demo_dcfg 6 = Some DIO_LONG" "dio_output demo_dcfg 6" "\<not> dio_input demo_dcfg 6"
    by (simp_all add: demo_dcfg_def)
  have v: "copy_in demo_dcfg 2 0 16 = (OK, [of_nat (16 mod 256), of_nat (16 div 256), 0, 0, of_nat (96 mod 256), of_nat (96 div 256), 0, 0,
     of_nat (16 mod 256), of_nat (16 div 256), 0, 0, 0, 0, 0, 0])" by (simp add: demo_dcfg_def demo_vec16_def)
  have p: "port_ok demo_dstate 2 4 (of_nat 16)" using demo_dev(3) by simp
  have l: "iolog demo_dstate = []" by (simp add: demo_dstate_def)
  from vdevio_long_output_escapes [OF c v _ _ _ p] show ?thesis by (simp add: l demo_dev(4) in_ranges_def)
qed

end
