(* ===== verification/DataStore.thy ===== *)
theory DataStore
  imports Prelude
begin

text \<open>
  The data store server (\<^verbatim>\<open>src/Project_2/servers/ds\<close>): a table of typed entries that other servers
  publish under a key, and a table of subscriptions whose owners are notified when a matching entry
  changes.

  An entry's union is a datatype with one constructor per member; reading it through a member that
  was not the one written last, freeing a block that is not allocated, writing outside a block and
  \<^verbatim>\<open>panic\<close> all make the model's result \<open>None\<close>.  Pointers are numbers with 0 for \<^verbatim>\<open>NULL\<close>, the heap
  maps the address of each allocated block to its bytes.  The constants of the message protocol,
  \<^verbatim>\<open>malloc\<close> and the regular expressions are the fields of \<open>ds_conf\<close>; the outcomes of the kernel
  calls made for one request are those of \<open>ds_env\<close>.
\<close>

unbundle bit_operations_syntax

section \<open>Parameters\<close>

record ds_conf =
  DSF_IN_USE :: "32 word"
  DSF_OVERWRITE :: "32 word"
  DSF_INITIAL :: "32 word"
  DSF_TYPE_U32 :: "32 word"
  DSF_TYPE_STR :: "32 word"
  DSF_TYPE_MEM :: "32 word"
  DSF_TYPE_MAP :: "32 word"
  DSF_TYPE_LABEL :: "32 word"
  DSF_MASK_TYPE :: "32 word"
  DSF_MASK_INTERNAL :: "32 word"
  DSF_PRIV_RETRIEVE :: "32 word"
  DSF_PRIV_OVERWRITE :: "32 word"
  DSF_PRIV_SNAPSHOT :: "32 word"
  DSF_PRIV_SUBSCRIBE :: "32 word"
  DSMF_MAP_MAPPED :: "32 word"
  DSMF_COPY_MAPPED :: "32 word"
  DSMF_COPY_SNAPSHOT :: "32 word"
  DS_MAX_KEYLEN :: nat
  CLICK_SIZE :: "32 word"
  DS_PROC_NR :: "32 word"
  RS_PROC_NR :: "32 word"
  DS_PUBLISH :: int
  DS_RETRIEVE :: int
  DS_RETRIEVE_LABEL :: int
  DS_DELETE :: int
  DS_SUBSCRIBE :: int
  DS_CHECK :: int
  DS_SNAPSHOT :: int
  GETSYSINFO :: int
  SI_DATA_STORE :: int
  SI_SUBSCRIPTION :: int
  is_notify_type :: "int \<Rightarrow> bool"
  regcomp :: "string \<Rightarrow> bool"
  regexec :: "string option \<Rightarrow> string \<Rightarrow> bool"
  malloc_at :: "(nat \<Rightarrow> char list option) \<Rightarrow> nat \<Rightarrow> nat option"

record ds_env =
  e_key :: "errno \<times> char list"
  e_stack :: "char list"
  e_val :: "errno \<times> char list"
  e_out :: errno
  e_safemap :: errno
  e_unmap :: errno
  e_revmap :: errno
  e_grant :: "32 word option"
  e_mapped :: "char list"

text \<open>
  \<open>e_key\<close> and \<open>e_val\<close> are the results of copying the key and the value from the caller and the
  bytes that arrive, \<open>e_stack\<close> the stale contents of the local key buffer, \<open>e_out\<close> the result of
  copying to the caller, \<open>e_grant\<close> the grant made for it (\<open>None\<close> when it is not valid) and
  \<open>e_mapped\<close> what the memory mapped by the caller holds at the moment.
\<close>

record ds_msg =
  dm_source :: "32 word"
  dm_type :: int
  dm_flags :: "32 word"
  dm_key_len :: int
  dm_val :: "32 word"
  dm_val_len :: "32 word"
  dm_nr_snapshot :: int
  dm_owner :: "32 word"
  dm_what :: int

section \<open>State\<close>

datatype ds_value =
    VU32 "32 word"
  | VMem (vm_data: nat) (vm_length: nat) (vm_reallen: nat)
  | VMap (vp_data: nat) (vp_length: nat) (vp_real: nat) (vp_snapshots: "nat option list")
      (vp_sindex: int)

record data_store =
  de_flags :: "32 word"
  de_key :: string
  de_owner :: string
  de_u :: ds_value

record subscription =
  su_flags :: "32 word"
  su_owner :: string
  su_regex :: "string option"
  su_old :: "bool list"

datatype ds_event =
    Notified "32 word"
  | CopiedOut "32 word" "char list"
  | StoreCopied "32 word" "data_store list"
  | SubsCopied "32 word" "subscription list"
  | DsReply "32 word" errno ds_msg

record ds_state =
  ds_store :: "data_store list"
  ds_subs :: "subscription list"
  ds_heap :: "nat \<Rightarrow> char list option"
  ds_log :: "ds_event list"

abbreviation NUL :: char where
  "NUL \<equiv> CHR 0x00"

definition NR_DS_SNAPSHOT :: nat where
  "NR_DS_SNAPSHOT = 5"

definition put_value :: "nat \<Rightarrow> ds_value \<Rightarrow> ds_state \<Rightarrow> ds_state" where
  "put_value i v s = s\<lparr>ds_store := (ds_store s)[i := (ds_store s ! i)\<lparr>de_u := v\<rparr>]\<rparr>"

definition log_event :: "ds_event \<Rightarrow> ds_state \<Rightarrow> ds_state" where
  "log_event ev s = s\<lparr>ds_log := ds_log s @ [ev]\<rparr>"

section \<open>The heap\<close>

definition alloc_block :: "ds_conf \<Rightarrow> nat \<Rightarrow> ds_state \<Rightarrow> (nat \<times> ds_state) option" where
  "alloc_block c n s =
     (case malloc_at c (ds_heap s) n of
        None \<Rightarrow> None
      | Some a \<Rightarrow> Some (a, s\<lparr>ds_heap := (ds_heap s)(a \<mapsto> replicate n NUL)\<rparr>))"

definition free_block :: "nat \<Rightarrow> ds_state \<Rightarrow> ds_state option" where
  "free_block a s =
     (if a = 0 then Some s
      else if ds_heap s a = None then None
      else Some (s\<lparr>ds_heap := (ds_heap s)(a := None)\<rparr>))"

definition write_block :: "nat \<Rightarrow> char list \<Rightarrow> ds_state \<Rightarrow> ds_state option" where
  "write_block a bs s =
     (case ds_heap s a of
        None \<Rightarrow> None
      | Some old \<Rightarrow>
          if length bs \<le> length old
          then Some (s\<lparr>ds_heap := (ds_heap s)(a \<mapsto> bs @ drop (length bs) old)\<rparr>)
          else None)"

definition poke_block :: "nat \<Rightarrow> nat \<Rightarrow> char \<Rightarrow> ds_state \<Rightarrow> ds_state option" where
  "poke_block a k ch s =
     (case ds_heap s a of
        None \<Rightarrow> None
      | Some old \<Rightarrow>
          if k < length old then Some (s\<lparr>ds_heap := (ds_heap s)(a \<mapsto> old[k := ch])\<rparr>) else None)"

definition read_block :: "nat \<Rightarrow> nat \<Rightarrow> ds_state \<Rightarrow> char list option" where
  "read_block a n s =
     (case ds_heap s a of
        None \<Rightarrow> None
      | Some bs \<Rightarrow> if n \<le> length bs then Some (take n bs) else None)"

section \<open>Lookups\<close>

definition in_use :: "ds_conf \<Rightarrow> 32 word \<Rightarrow> bool" where
  "in_use c f \<longleftrightarrow> f AND DSF_IN_USE c \<noteq> 0"

text \<open>The first word of the union, whichever member was written.\<close>

fun u32_of :: "ds_value \<Rightarrow> 32 word" where
  "u32_of (VU32 w) = w"
| "u32_of (VMem a _ _) = word_of_nat a"
| "u32_of (VMap a _ _ _ _) = word_of_nat a"

definition alloc_data_slot :: "ds_conf \<Rightarrow> ds_state \<Rightarrow> nat option" where
  "alloc_data_slot c s = first_idx (\<lambda>d. \<not> in_use c (de_flags d)) (ds_store s)"

definition alloc_sub_slot :: "ds_conf \<Rightarrow> ds_state \<Rightarrow> nat option" where
  "alloc_sub_slot c s = first_idx (\<lambda>p. \<not> in_use c (su_flags p)) (ds_subs s)"

definition lookup_entry :: "ds_conf \<Rightarrow> ds_state \<Rightarrow> string \<Rightarrow> 32 word \<Rightarrow> nat option" where
  "lookup_entry c s key_name ty =
     first_idx (\<lambda>d. in_use c (de_flags d) \<and> de_flags d AND ty \<noteq> 0 \<and> de_key d = key_name)
       (ds_store s)"

definition lookup_label_entry :: "ds_conf \<Rightarrow> ds_state \<Rightarrow> 32 word \<Rightarrow> nat option" where
  "lookup_label_entry c s num =
     first_idx (\<lambda>d. in_use c (de_flags d) \<and> de_flags d AND DSF_TYPE_LABEL c \<noteq> 0 \<and>
                    u32_of (de_u d) = num) (ds_store s)"

definition lookup_sub :: "ds_conf \<Rightarrow> ds_state \<Rightarrow> string \<Rightarrow> nat option" where
  "lookup_sub c s owner =
     first_idx (\<lambda>p. in_use c (su_flags p) \<and> su_owner p = owner) (ds_subs s)"

definition ds_getprocname :: "ds_conf \<Rightarrow> ds_state \<Rightarrow> 32 word \<Rightarrow> string option" where
  "ds_getprocname c s e =
     (if e = DS_PROC_NR c then Some ''ds''
      else map_option (\<lambda>i. de_key (ds_store s ! i)) (lookup_label_entry c s e))"

definition ds_getprocep :: "ds_conf \<Rightarrow> ds_state \<Rightarrow> string \<Rightarrow> 32 word" where
  "ds_getprocep c s name =
     (case lookup_entry c s name (DSF_TYPE_LABEL c) of
        Some i \<Rightarrow> u32_of (de_u (ds_store s ! i))
      | None \<Rightarrow> - 1)"

definition check_auth :: "ds_conf \<Rightarrow> ds_state \<Rightarrow> data_store \<Rightarrow> 32 word \<Rightarrow> 32 word \<Rightarrow> bool" where
  "check_auth c s d ep perm \<longleftrightarrow>
     de_flags d AND perm = 0 \<or> ds_getprocname c s ep = Some (de_owner d)"

text \<open>A C string ends at its first NUL; copying into a buffer keeps what lies behind.\<close>

definition c_string :: "char list \<Rightarrow> string" where
  "c_string buf = takeWhile (\<lambda>ch. ch \<noteq> NUL) buf"

definition get_key_name :: "ds_conf \<Rightarrow> ds_env \<Rightarrow> ds_msg \<Rightarrow> char list \<Rightarrow> errno + char list" where
  "get_key_name c e m buf =
     (if dm_key_len m > int (DS_MAX_KEYLEN c) \<or> dm_key_len m < 2 then Inl EINVAL
      else if fst (e_key e) \<noteq> OK then Inl (fst (e_key e))
      else let n = nat (dm_key_len m) in
        Inr ((take n (snd (e_key e)) @ drop n buf)[DS_MAX_KEYLEN c - 1 := NUL]))"

definition check_snapshot_index :: "ds_value \<Rightarrow> int \<Rightarrow> bool" where
  "check_snapshot_index v index \<longleftrightarrow>
     (let sindex = vp_sindex v;
          low = (if sindex < int NR_DS_SNAPSHOT then 0 else sindex - int NR_DS_SNAPSHOT + 1)
      in \<not> (low \<le> index \<and> index \<le> sindex))"

definition check_sub_match ::
    "ds_conf \<Rightarrow> ds_state \<Rightarrow> subscription \<Rightarrow> data_store \<Rightarrow> 32 word \<Rightarrow> bool" where
  "check_sub_match c s p d ep \<longleftrightarrow>
     check_auth c s d ep (DSF_PRIV_SUBSCRIBE c) \<and> regexec c (su_regex p) (de_key d)"

text \<open>The two \<^verbatim>\<open>continue\<close>s and the match of the loop in \<^verbatim>\<open>update_subscribers\<close>.\<close>

definition sub_affected :: "ds_conf \<Rightarrow> ds_state \<Rightarrow> data_store \<Rightarrow> subscription \<Rightarrow> bool" where
  "sub_affected c s d p \<longleftrightarrow>
     in_use c (su_flags p) \<and>
     su_flags p AND de_flags d AND DSF_MASK_TYPE c \<noteq> 0 \<and>
     check_sub_match c s p d (ds_getprocep c s (su_owner p))"

definition update_subscribers :: "ds_conf \<Rightarrow> nat \<Rightarrow> bool \<Rightarrow> ds_state \<Rightarrow> ds_state" where
  "update_subscribers c nr b s =
     (let d = ds_store s ! nr in
      s\<lparr>ds_subs := map (\<lambda>p. if sub_affected c s d p then p\<lparr>su_old := (su_old p)[nr := b]\<rparr> else p)
                      (ds_subs s),
        ds_log := ds_log s @
          map (\<lambda>p. Notified (ds_getprocep c s (su_owner p))) (filter (sub_affected c s d) (ds_subs s))\<rparr>)"

section \<open>Initialisation\<close>

definition map_service :: "ds_conf \<Rightarrow> string \<times> 32 word \<Rightarrow> ds_state \<Rightarrow> errno \<times> ds_state" where
  "map_service c rpub s =
     (case alloc_data_slot c s of
        None \<Rightarrow> (ENOMEM, s)
      | Some i \<Rightarrow>
          (OK, update_subscribers c i True
                 (s\<lparr>ds_store := (ds_store s)
                     [i := \<lparr>de_flags = DSF_IN_USE c OR DSF_TYPE_LABEL c, de_key = fst rpub,
                            de_owner = ''rs'', de_u = VU32 (snd rpub)\<rparr>]\<rparr>)))"

fun map_boot_services ::
    "ds_conf \<Rightarrow> (bool \<times> string \<times> 32 word) list \<Rightarrow> ds_state \<Rightarrow> ds_state option" where
  "map_boot_services c [] s = Some s"
| "map_boot_services c ((used, rpub) # rs) s =
     (if used
      then (case map_service c rpub s of
              (r, s') \<Rightarrow> if r \<noteq> OK then None else map_boot_services c rs s')
      else map_boot_services c rs s)"

definition ds_init_fresh ::
    "ds_conf \<Rightarrow> errno \<times> (bool \<times> string \<times> 32 word) list \<Rightarrow> ds_state \<Rightarrow> ds_state option" where
  "ds_init_fresh c boot s =
     (let s0 = s\<lparr>ds_store := map (\<lambda>d. d\<lparr>de_flags := 0\<rparr>) (ds_store s),
                 ds_subs := map (\<lambda>p. p\<lparr>su_flags := 0\<rparr>) (ds_subs s)\<rparr>
      in if fst boot \<noteq> OK then None else map_boot_services c (snd boot) s0)"

section \<open>Publishing\<close>

text \<open>The slot a publish request writes, or the error that ends it.\<close>

definition publish_slot :: "ds_conf \<Rightarrow> ds_msg \<Rightarrow> string \<Rightarrow> ds_state \<Rightarrow> errno + nat" where
  "publish_slot c m key_name s =
     (let flags = dm_flags m;
          found = (case lookup_entry c s key_name (flags AND DSF_MASK_TYPE c) of
                     Some i \<Rightarrow> Some i
                   | None \<Rightarrow>
                       if flags AND DSF_TYPE_LABEL c \<noteq> 0 then lookup_label_entry c s (dm_val m)
                       else None)
      in case found of
           None \<Rightarrow> (case alloc_data_slot c s of None \<Rightarrow> Inl ENOMEM | Some i \<Rightarrow> Inr i)
         | Some i \<Rightarrow>
             if flags AND DSF_OVERWRITE c \<noteq> 0
             then (if check_auth c s (ds_store s ! i) (dm_source m) (DSF_PRIV_OVERWRITE c)
                   then Inr i else Inl EPERM)
             else Inl EEXIST)"

text \<open>The data buffer of a string or memory entry: a new one for a fresh slot or when the old one
  is too short.  The flag says whether \<^verbatim>\<open>malloc\<close> succeeded.\<close>

definition mem_buffer :: "ds_conf \<Rightarrow> nat \<Rightarrow> nat \<Rightarrow> ds_state \<Rightarrow> (bool \<times> ds_state) option" where
  "mem_buffer c i len s =
     (let d = ds_store s ! i in
      if \<not> in_use c (de_flags d)
      then (case alloc_block c len s of
              None \<Rightarrow> Some (False, put_value i (VMem 0 0 0) s)
            | Some (a, s1) \<Rightarrow> Some (True, put_value i (VMem a 0 len) s1))
      else case de_u d of
             VMem a l rl \<Rightarrow>
               (if len > rl
                then (case free_block a s of
                        None \<Rightarrow> None
                      | Some s1 \<Rightarrow>
                          (case alloc_block c len s1 of
                             None \<Rightarrow> Some (False, put_value i (VMem 0 l rl) s1)
                           | Some (b, s2) \<Rightarrow> Some (True, put_value i (VMem b l len) s2)))
                else Some (True, s))
           | _ \<Rightarrow> None)"

definition store_mem :: "ds_conf \<Rightarrow> ds_env \<Rightarrow> ds_msg \<Rightarrow> nat \<Rightarrow> ds_state \<Rightarrow> (errno \<times> ds_state) option"
where
  "store_mem c e m i s =
     (let len = unat (dm_val_len m) in
      case mem_buffer c i len s of
        None \<Rightarrow> None
      | Some (False, s1) \<Rightarrow> Some (ENOMEM, s1)
      | Some (True, s1) \<Rightarrow>
          (let a = vm_data (de_u (ds_store s1 ! i)); rl = vm_reallen (de_u (ds_store s1 ! i)) in
           if fst (e_val e) \<noteq> OK
           then map_option (\<lambda>s2. (fst (e_val e), s2)) (free_block a s1)
           else case write_block a (take len (snd (e_val e))) s1 of
                  None \<Rightarrow> None
                | Some s2 \<Rightarrow>
                    (let s3 = put_value i (VMem a len rl) s2 in
                     if dm_flags m AND DSF_TYPE_STR c \<noteq> 0
                     then (if len = 0 then None
                           else map_option (\<lambda>s4. (OK, s4)) (poke_block a (len - 1) NUL s3))
                     else Some (OK, s3))))"

definition click_ceil :: "ds_conf \<Rightarrow> nat \<Rightarrow> nat" where
  "click_ceil c a = (let k = unat (CLICK_SIZE c) in (a + k - 1) div k * k)"

definition store_map :: "ds_conf \<Rightarrow> ds_env \<Rightarrow> ds_msg \<Rightarrow> nat \<Rightarrow> ds_state \<Rightarrow> (errno \<times> ds_state) option"
where
  "store_map c e m i s =
     (case alloc_block c (unat (dm_val_len m + CLICK_SIZE c)) s of
        None \<Rightarrow> Some (ENOMEM, s)
      | Some (a, s1) \<Rightarrow>
          if e_safemap e \<noteq> OK
          then map_option (\<lambda>s2. (e_safemap e, s2)) (free_block a s1)
          else Some (OK, put_value i (VMap (click_ceil c a) (unat (dm_val_len m)) a
                                        (replicate NR_DS_SNAPSHOT None) (- 1)) s1))"

definition store_value :: "ds_conf \<Rightarrow> ds_env \<Rightarrow> ds_msg \<Rightarrow> nat \<Rightarrow> ds_state \<Rightarrow> (errno \<times> ds_state) option"
where
  "store_value c e m i s =
     (let ty = dm_flags m AND DSF_MASK_TYPE c in
      if ty = DSF_TYPE_U32 c \<or> ty = DSF_TYPE_LABEL c then Some (OK, put_value i (VU32 (dm_val m)) s)
      else if ty = DSF_TYPE_STR c \<or> ty = DSF_TYPE_MEM c then store_mem c e m i s
      else if ty = DSF_TYPE_MAP c then store_map c e m i s
      else Some (EINVAL, s))"

definition set_attributes :: "ds_conf \<Rightarrow> ds_msg \<Rightarrow> string \<Rightarrow> string \<Rightarrow> nat \<Rightarrow> ds_state \<Rightarrow> ds_state" where
  "set_attributes c m key_name source i s =
     s\<lparr>ds_store := (ds_store s)
        [i := (ds_store s ! i)\<lparr>de_key := key_name, de_owner := source,
                de_flags := DSF_IN_USE c OR (dm_flags m AND DSF_MASK_INTERNAL c)\<rparr>]\<rparr>"

text \<open>
  The pointer \<^verbatim>\<open>source\<close> goes into the key of the sender's label entry.  When that is the entry that is written,
  \<^verbatim>\<open>strcpy(dsp->key, key_name)\<close> changes what \<^verbatim>\<open>strcpy(dsp->owner, source)\<close> copies.
\<close>

definition publish_owner :: "ds_conf \<Rightarrow> ds_msg \<Rightarrow> string \<Rightarrow> string \<Rightarrow> nat \<Rightarrow> ds_state \<Rightarrow> string" where
  "publish_owner c m key_name source i s =
     (if dm_source m \<noteq> DS_PROC_NR c \<and> lookup_label_entry c s (dm_source m) = Some i then key_name else source)"

definition do_publish :: "ds_conf \<Rightarrow> ds_env \<Rightarrow> ds_msg \<Rightarrow> ds_state \<Rightarrow> (errno \<times> ds_msg \<times> ds_state) option"
where
  "do_publish c e m s =
     (case ds_getprocname c s (dm_source m) of
        None \<Rightarrow> Some (EPERM, m, s)
      | Some source \<Rightarrow>
          if dm_flags m AND DSF_TYPE_LABEL c \<noteq> 0 \<and> dm_source m \<noteq> RS_PROC_NR c
          then Some (EPERM, m, s)
          else if dm_flags m AND DSF_TYPE_MAP c \<noteq> 0 \<and> dm_flags m AND DSF_OVERWRITE c \<noteq> 0
          then Some (EINVAL, m, s)
          else case get_key_name c e m (e_stack e) of
                 Inl r \<Rightarrow> Some (r, m, s)
               | Inr buf \<Rightarrow>
                   (case publish_slot c m (c_string buf) s of
                      Inl r \<Rightarrow> Some (r, m, s)
                    | Inr i \<Rightarrow>
                        (case store_value c e m i s of
                           None \<Rightarrow> None
                         | Some (r, s1) \<Rightarrow>
                             if r \<noteq> OK then Some (r, m, s1)
                             else Some (OK, m, update_subscribers c i True
                                          (set_attributes c m (c_string buf)
                                             (publish_owner c m (c_string buf) source i s) i s1)))))"

section \<open>Retrieving\<close>

definition copy_out :: "ds_env \<Rightarrow> ds_msg \<Rightarrow> char list \<Rightarrow> ds_state \<Rightarrow> errno \<times> ds_state" where
  "copy_out e m bs s =
     (if e_out e \<noteq> OK then (e_out e, s) else (OK, log_event (CopiedOut (dm_source m) bs) s))"

definition copy_value ::
    "ds_env \<Rightarrow> ds_msg \<Rightarrow> nat \<Rightarrow> char list \<Rightarrow> ds_state \<Rightarrow> errno \<times> ds_msg \<times> ds_state" where
  "copy_value e m len bs s =
     (case copy_out e m bs s of
        (r, s') \<Rightarrow> if r \<noteq> OK then (r, m, s') else (OK, m\<lparr>dm_val_len := word_of_nat len\<rparr>, s'))"

definition retrieve_map ::
    "ds_conf \<Rightarrow> ds_env \<Rightarrow> ds_msg \<Rightarrow> ds_value \<Rightarrow> ds_state \<Rightarrow> (errno \<times> ds_msg \<times> ds_state) option" where
  "retrieve_map c e m v s =
     (case v of
        VMap data len real snaps sindex \<Rightarrow>
          if dm_flags m AND DSMF_MAP_MAPPED c \<noteq> 0
          then (case e_grant e of
                  None \<Rightarrow> Some (EOTHER (- 1), m, s)
                | Some gid \<Rightarrow> Some (OK, m\<lparr>dm_val := gid, dm_val_len := word_of_nat len\<rparr>, s))
          else if dm_flags m AND (DSMF_COPY_MAPPED c OR DSMF_COPY_SNAPSHOT c) \<noteq> 0
          then (let n = min (unat (dm_val_len m)) len in
                if dm_flags m AND DSMF_COPY_MAPPED c \<noteq> 0
                then Some (copy_value e m n (take n (e_mapped e)) s)
                else if check_snapshot_index v (dm_nr_snapshot m) then Some (EINVAL, m, s)
                else (case snaps ! nat (dm_nr_snapshot m mod int NR_DS_SNAPSHOT) of
                        None \<Rightarrow> None
                      | Some a \<Rightarrow>
                          map_option (\<lambda>bs. copy_value e m n bs s) (read_block a n s)))
          else Some (EINVAL, m, s)
      | _ \<Rightarrow> None)"

text \<open>The switch over the type.\<close>

definition retrieve_value ::
    "ds_conf \<Rightarrow> ds_env \<Rightarrow> ds_msg \<Rightarrow> 32 word \<Rightarrow> ds_value \<Rightarrow> ds_state \<Rightarrow>
     (errno \<times> ds_msg \<times> ds_state) option" where
  "retrieve_value c e m ty v s =
     (if ty = DSF_TYPE_U32 c \<or> ty = DSF_TYPE_LABEL c then Some (OK, m\<lparr>dm_val := u32_of v\<rparr>, s)
      else if ty = DSF_TYPE_STR c \<or> ty = DSF_TYPE_MEM c
      then (case v of
              VMem a l rl \<Rightarrow>
                (let n = min (unat (dm_val_len m)) l in
                 map_option (\<lambda>bs. copy_value e m n bs s) (read_block a n s))
            | _ \<Rightarrow> None)
      else if ty = DSF_TYPE_MAP c then retrieve_map c e m v s
      else Some (EINVAL, m, s))"

definition do_retrieve :: "ds_conf \<Rightarrow> ds_env \<Rightarrow> ds_msg \<Rightarrow> ds_state \<Rightarrow> (errno \<times> ds_msg \<times> ds_state) option"
where
  "do_retrieve c e m s =
     (let ty = dm_flags m AND DSF_MASK_TYPE c in
      case get_key_name c e m (e_stack e) of
        Inl r \<Rightarrow> Some (r, m, s)
      | Inr buf \<Rightarrow>
          (case lookup_entry c s (c_string buf) ty of
             None \<Rightarrow> Some (ESRCH, m, s)
           | Some i \<Rightarrow>
               (let d = ds_store s ! i in
                if \<not> check_auth c s d (dm_source m) (DSF_PRIV_RETRIEVE c) then Some (EPERM, m, s)
                else retrieve_value c e m ty (de_u d) s)))"

definition do_retrieve_label ::
    "ds_conf \<Rightarrow> ds_env \<Rightarrow> ds_msg \<Rightarrow> ds_state \<Rightarrow> (errno \<times> ds_msg \<times> ds_state) option" where
  "do_retrieve_label c e m s =
     (case lookup_label_entry c s (dm_val m) of
        None \<Rightarrow> Some (ESRCH, m, s)
      | Some i \<Rightarrow>
          (case copy_out e m (de_key (ds_store s ! i) @ [NUL]) s of (r, s') \<Rightarrow> Some (r, m, s')))"

section \<open>Subscriptions\<close>

definition sub_pattern :: "ds_conf \<Rightarrow> char list \<Rightarrow> string" where
  "sub_pattern c buf = c_string (buf[DS_MAX_KEYLEN c - 1 := NUL]) @ ''$''"

definition subscribe_slot :: "ds_conf \<Rightarrow> ds_msg \<Rightarrow> string \<Rightarrow> ds_state \<Rightarrow> errno + nat" where
  "subscribe_slot c m owner s =
     (case lookup_sub c s owner of
        None \<Rightarrow> (case alloc_sub_slot c s of None \<Rightarrow> Inl EAGAIN | Some k \<Rightarrow> Inr k)
      | Some k \<Rightarrow> if dm_flags m AND DSF_OVERWRITE c = 0 then Inl EEXIST else Inr k)"

definition sub_type_set :: "ds_conf \<Rightarrow> ds_msg \<Rightarrow> 32 word" where
  "sub_type_set c m =
     (let t = dm_flags m AND DSF_MASK_TYPE c in if t = 0 then DSF_MASK_TYPE c else t)"

definition new_subscription :: "ds_conf \<Rightarrow> ds_msg \<Rightarrow> string \<Rightarrow> string \<Rightarrow> nat \<Rightarrow> subscription" where
  "new_subscription c m owner pat n =
     \<lparr>su_flags = DSF_IN_USE c OR sub_type_set c m, su_owner = owner, su_regex = Some pat,
      su_old = replicate n False\<rparr>"

text \<open>The loop behind \<^verbatim>\<open>DSF_INITIAL\<close>: the entries the subscriber is told of at once.\<close>

definition initial_hits :: "ds_conf \<Rightarrow> ds_msg \<Rightarrow> subscription \<Rightarrow> ds_state \<Rightarrow> bool list" where
  "initial_hits c m p s =
     map (\<lambda>d. in_use c (de_flags d) \<and> de_flags d AND sub_type_set c m \<noteq> 0 \<and>
              check_sub_match c s p d (dm_source m)) (ds_store s)"

definition install_subscription ::
    "ds_conf \<Rightarrow> ds_msg \<Rightarrow> nat \<Rightarrow> subscription \<Rightarrow> ds_state \<Rightarrow> ds_state" where
  "install_subscription c m k p s =
     (if dm_flags m AND DSF_INITIAL c = 0 then s\<lparr>ds_subs := (ds_subs s)[k := p]\<rparr>
      else let hits = initial_hits c m p s;
               s' = s\<lparr>ds_subs := (ds_subs s)[k := p\<lparr>su_old := hits\<rparr>]\<rparr>
           in if True \<in> set hits then log_event (Notified (dm_source m)) s' else s')"

definition do_subscribe :: "ds_conf \<Rightarrow> ds_env \<Rightarrow> ds_msg \<Rightarrow> ds_state \<Rightarrow> (errno \<times> ds_msg \<times> ds_state) option"
where
  "do_subscribe c e m s =
     (case ds_getprocname c s (dm_source m) of
        None \<Rightarrow> Some (ESRCH, m, s)
      | Some owner \<Rightarrow>
          (case subscribe_slot c m owner s of
             Inl r \<Rightarrow> Some (r, m, s)
           | Inr k \<Rightarrow>
               (case get_key_name c e m ((e_stack e)[0 := CHR ''^'']) of
                  Inl r \<Rightarrow> Some (r, m, s)
                | Inr buf \<Rightarrow>
                    (let pat = sub_pattern c buf in
                     if \<not> regcomp c pat
                     then Some (EINVAL, m,
                            s\<lparr>ds_subs := (ds_subs s)[k := (ds_subs s ! k)\<lparr>su_regex := None\<rparr>]\<rparr>)
                     else Some (OK, m, install_subscription c m k
                            (new_subscription c m owner pat (length (ds_store s))) s)))))"

definition do_check :: "ds_conf \<Rightarrow> ds_env \<Rightarrow> ds_msg \<Rightarrow> ds_state \<Rightarrow> (errno \<times> ds_msg \<times> ds_state) option"
where
  "do_check c e m s =
     (case ds_getprocname c s (dm_source m) of
        None \<Rightarrow> Some (ESRCH, m, s)
      | Some owner \<Rightarrow>
          (case lookup_sub c s owner of
             None \<Rightarrow> Some (ESRCH, m, s)
           | Some k \<Rightarrow>
               (let p = ds_subs s ! k in
                case first_idx (\<lambda>b. b) (su_old p) of
                  None \<Rightarrow> Some (ENOENT, m, s)
                | Some i \<Rightarrow>
                    (let d = ds_store s ! i in
                     case copy_out e m (de_key d @ [NUL]) s of
                       (r, s1) \<Rightarrow>
                         if r \<noteq> OK then Some (r, m, s1)
                         else if ds_getprocep c s1 (de_owner d) = - 1 then None
                         else Some (OK, m\<lparr>dm_flags := de_flags d AND DSF_MASK_TYPE c,
                                          dm_owner := ds_getprocep c s1 (de_owner d)\<rparr>,
                                s1\<lparr>ds_subs := (ds_subs s1)
                                    [k := p\<lparr>su_old := (su_old p)[i := False]\<rparr>]\<rparr>)))))"

section \<open>Deleting\<close>

text \<open>The two clean-up loops run when a label is deleted.\<close>

definition cleanup_label :: "ds_conf \<Rightarrow> string \<Rightarrow> ds_state \<Rightarrow> ds_state" where
  "cleanup_label c label s =
     s\<lparr>ds_subs := map (\<lambda>p. if in_use c (su_flags p) \<and> su_owner p = label
                           then p\<lparr>su_flags := 0\<rparr> else p) (ds_subs s),
       ds_store := map (\<lambda>d. if in_use c (de_flags d) \<and> de_owner d = label
                            then d\<lparr>de_flags := 0\<rparr> else d) (ds_store s)\<rparr>"

fun free_snapshots :: "nat option list \<Rightarrow> ds_state \<Rightarrow> ds_state option" where
  "free_snapshots [] s = Some s"
| "free_snapshots (None # xs) s = None"
| "free_snapshots (Some a # xs) s =
     (case free_block a s of None \<Rightarrow> None | Some s' \<Rightarrow> free_snapshots xs s')"

definition release_map :: "ds_env \<Rightarrow> ds_value \<Rightarrow> ds_state \<Rightarrow> (errno \<times> ds_state) option" where
  "release_map e v s =
     (case v of
        VMap data len real snaps sindex \<Rightarrow>
          if e_revmap e \<noteq> OK then Some (e_revmap e, s)
          else (case free_snapshots (take (nat (min (int NR_DS_SNAPSHOT - 1) sindex + 1)) snaps) s of
                  None \<Rightarrow> None
                | Some s1 \<Rightarrow> map_option (\<lambda>s2. (OK, s2)) (free_block real s1))
      | _ \<Rightarrow> None)"

definition release_value ::
    "ds_conf \<Rightarrow> ds_env \<Rightarrow> 32 word \<Rightarrow> data_store \<Rightarrow> ds_state \<Rightarrow> (errno \<times> ds_state) option" where
  "release_value c e ty d s =
     (if ty = DSF_TYPE_U32 c then Some (OK, s)
      else if ty = DSF_TYPE_LABEL c then Some (OK, cleanup_label c (de_key d) s)
      else if ty = DSF_TYPE_STR c \<or> ty = DSF_TYPE_MEM c
      then (case de_u d of
              VMem a l rl \<Rightarrow> map_option (\<lambda>s1. (OK, s1)) (free_block a s)
            | _ \<Rightarrow> None)
      else if ty = DSF_TYPE_MAP c then release_map e (de_u d) s
      else Some (EINVAL, s))"

definition clear_entry :: "nat \<Rightarrow> ds_state \<Rightarrow> ds_state" where
  "clear_entry i s = s\<lparr>ds_store := (ds_store s)[i := (ds_store s ! i)\<lparr>de_flags := 0\<rparr>]\<rparr>"

definition do_delete :: "ds_conf \<Rightarrow> ds_env \<Rightarrow> ds_msg \<Rightarrow> ds_state \<Rightarrow> (errno \<times> ds_msg \<times> ds_state) option"
where
  "do_delete c e m s =
     (let ty = dm_flags m AND DSF_MASK_TYPE c in
      case ds_getprocname c s (dm_source m) of
        None \<Rightarrow> Some (EPERM, m, s)
      | Some source \<Rightarrow>
          (case get_key_name c e m (e_stack e) of
             Inl r \<Rightarrow> Some (r, m, s)
           | Inr buf \<Rightarrow>
               (case lookup_entry c s (c_string buf) ty of
                  None \<Rightarrow> Some (ESRCH, m, s)
                | Some i \<Rightarrow>
                    if de_owner (ds_store s ! i) \<noteq> source then Some (EPERM, m, s)
                    else (case release_value c e ty (ds_store s ! i) s of
                            None \<Rightarrow> None
                          | Some (r, s1) \<Rightarrow>
                              if r \<noteq> OK then Some (r, m, s1)
                              else Some (OK, m, clear_entry i (update_subscribers c i False s1))))))"

section \<open>Snapshots and dumps\<close>

definition do_snapshot :: "ds_conf \<Rightarrow> ds_env \<Rightarrow> ds_msg \<Rightarrow> ds_state \<Rightarrow> (errno \<times> ds_msg \<times> ds_state) option"
where
  "do_snapshot c e m s =
     (case get_key_name c e m (e_stack e) of
        Inl r \<Rightarrow> Some (r, m, s)
      | Inr buf \<Rightarrow>
          (case lookup_entry c s (c_string buf) (DSF_TYPE_MAP c) of
             None \<Rightarrow> Some (ESRCH, m, s)
           | Some i \<Rightarrow>
               (let d = ds_store s ! i in
                if \<not> check_auth c s d (dm_source m) (DSF_PRIV_SNAPSHOT c) then Some (EPERM, m, s)
                else case de_u d of
                  VMap data len real snaps sindex \<Rightarrow>
                    (let sx = sindex + 1; k = nat (sx mod int (DS_MAX_KEYLEN c)) in
                     if k \<ge> length snaps then None
                     else case (if sx < int (DS_MAX_KEYLEN c)
                                then map_option (\<lambda>(a, s1). (Some a, s1)) (alloc_block c len s)
                                else Some (snaps ! k, s)) of
                            None \<Rightarrow> Some (ENOMEM, m,
                                       put_value i (VMap data len real (snaps[k := Some 0]) sindex) s)
                          | Some (None, s1) \<Rightarrow> None
                          | Some (Some a, s1) \<Rightarrow>
                              (case write_block a (take len (e_mapped e)) s1 of
                                 None \<Rightarrow> None
                               | Some s2 \<Rightarrow>
                                   Some (OK, m\<lparr>dm_nr_snapshot := sx\<rparr>,
                                     put_value i (VMap data len real (snaps[k := Some a]) sx) s2)))
                | _ \<Rightarrow> None)))"

definition ds_getsysinfo :: "ds_conf \<Rightarrow> ds_env \<Rightarrow> ds_msg \<Rightarrow> ds_state \<Rightarrow> (errno \<times> ds_msg \<times> ds_state) option"
where
  "ds_getsysinfo c e m s =
     (if dm_what m = SI_DATA_STORE c
      then Some (if e_out e \<noteq> OK then (e_out e, m, s)
                 else (OK, m, log_event (StoreCopied (dm_source m) (ds_store s)) s))
      else if dm_what m = SI_SUBSCRIPTION c
      then Some (if e_out e \<noteq> OK then (e_out e, m, s)
                 else (OK, m, log_event (SubsCopied (dm_source m) (ds_subs s)) s))
      else Some (EINVAL, m, s))"

section \<open>The main loop\<close>

definition ds_dispatch :: "ds_conf \<Rightarrow> ds_env \<Rightarrow> ds_msg \<Rightarrow> ds_state \<Rightarrow> (errno \<times> ds_msg \<times> ds_state) option"
where
  "ds_dispatch c e m s =
     (let n = dm_type m in
      if is_notify_type c n then Some (EINVAL, m, s)
      else if n = DS_PUBLISH c then do_publish c e m s
      else if n = DS_RETRIEVE c then do_retrieve c e m s
      else if n = DS_RETRIEVE_LABEL c then do_retrieve_label c e m s
      else if n = DS_DELETE c then do_delete c e m s
      else if n = DS_SUBSCRIBE c then do_subscribe c e m s
      else if n = DS_CHECK c then do_check c e m s
      else if n = DS_SNAPSHOT c then do_snapshot c e m s
      else if n = GETSYSINFO c then ds_getsysinfo c e m s
      else Some (EINVAL, m, s))"

text \<open>One iteration of the loop.  The type of the reply is the result.\<close>

definition ds_main_step :: "ds_conf \<Rightarrow> ds_env \<Rightarrow> ds_msg \<Rightarrow> ds_state \<Rightarrow> ds_state option" where
  "ds_main_step c e m s =
     (case ds_dispatch c e m s of
        None \<Rightarrow> None
      | Some (r, m', s') \<Rightarrow>
          if r \<noteq> EDONTREPLY then Some (log_event (DsReply (dm_source m) r m') s') else Some s')"

end
