(* ===== verification/DsTyped.thy ===== *)
theory DsTyped
  imports DataStore
begin

text \<open>
  The invariant of the data store's table: every entry in use has exactly one type, its union was
  last written through the member that belongs to that type, and a key names at most one entry of
  each type.
\<close>

unbundle bit_operations_syntax

section \<open>The documented constants\<close>

definition ds_types :: "ds_conf \<Rightarrow> 32 word list" where
  "ds_types c =
     [DSF_TYPE_U32 c, DSF_TYPE_STR c, DSF_TYPE_MEM c, DSF_TYPE_MAP c, DSF_TYPE_LABEL c]"

definition ds_flags_ok :: "ds_conf \<Rightarrow> bool" where
  "ds_flags_ok c \<longleftrightarrow>
     DSF_IN_USE c \<noteq> 0 \<and> DSF_IN_USE c AND DSF_MASK_TYPE c = 0 \<and>
     DSF_MASK_INTERNAL c AND DSF_MASK_TYPE c = DSF_MASK_TYPE c \<and>
     list_all (\<lambda>t. t \<noteq> 0 \<and> t AND DSF_MASK_TYPE c = t) (ds_types c) \<and>
     distinct (ds_types c) \<and>
     list_all (\<lambda>t. list_all (\<lambda>t'. t = t' \<or> t AND t' = 0) (ds_types c)) (ds_types c) \<and>
     NR_DS_SNAPSHOT < DS_MAX_KEYLEN c"

definition etype :: "ds_conf \<Rightarrow> data_store \<Rightarrow> 32 word" where
  "etype c d = de_flags d AND DSF_MASK_TYPE c"

lemma types_mem:
  "DSF_TYPE_U32 c \<in> set (ds_types c)" "DSF_TYPE_STR c \<in> set (ds_types c)"
  "DSF_TYPE_MEM c \<in> set (ds_types c)" "DSF_TYPE_MAP c \<in> set (ds_types c)"
  "DSF_TYPE_LABEL c \<in> set (ds_types c)"
  by (simp_all add: ds_types_def)

lemma types_neq:
  assumes "ds_flags_ok c"
  shows "DSF_TYPE_U32 c \<noteq> DSF_TYPE_STR c" "DSF_TYPE_U32 c \<noteq> DSF_TYPE_MEM c"
    "DSF_TYPE_U32 c \<noteq> DSF_TYPE_MAP c" "DSF_TYPE_U32 c \<noteq> DSF_TYPE_LABEL c"
    "DSF_TYPE_STR c \<noteq> DSF_TYPE_MEM c" "DSF_TYPE_STR c \<noteq> DSF_TYPE_MAP c"
    "DSF_TYPE_STR c \<noteq> DSF_TYPE_LABEL c" "DSF_TYPE_MEM c \<noteq> DSF_TYPE_MAP c"
    "DSF_TYPE_MEM c \<noteq> DSF_TYPE_LABEL c" "DSF_TYPE_MAP c \<noteq> DSF_TYPE_LABEL c"
  using assms by (simp_all add: ds_flags_ok_def ds_types_def)

text \<open>With one type per entry, testing a type bit is comparing types.\<close>

lemma type_bit:
  assumes ok: "ds_flags_ok c" and t: "f AND DSF_MASK_TYPE c \<in> set (ds_types c)"
    and ty: "ty \<in> set (ds_types c)"
  shows "f AND ty \<noteq> 0 \<longleftrightarrow> f AND DSF_MASK_TYPE c = ty"
proof -
  let ?t = "f AND DSF_MASK_TYPE c"
  from ok ty have m: "ty AND DSF_MASK_TYPE c = ty" "ty \<noteq> 0"
    by (simp_all add: ds_flags_ok_def list_all_iff)
  have "f AND ty = f AND (ty AND DSF_MASK_TYPE c)"
    by (simp add: m)
  also have "\<dots> = ?t AND ty"
    by (simp add: ac_simps)
  finally have e: "f AND ty = ?t AND ty" .
  from ok t ty have "?t = ty \<or> ?t AND ty = 0"
    by (auto simp: ds_flags_ok_def list_all_iff)
  with e m show ?thesis by auto
qed

lemma fresh_flags:
  assumes ok: "ds_flags_ok c"
  shows "in_use c (DSF_IN_USE c OR (f AND DSF_MASK_INTERNAL c))"
    and "(DSF_IN_USE c OR (f AND DSF_MASK_INTERNAL c)) AND DSF_MASK_TYPE c = f AND DSF_MASK_TYPE c"
proof -
  have "(DSF_IN_USE c OR (f AND DSF_MASK_INTERNAL c)) AND DSF_IN_USE c = DSF_IN_USE c"
    by (rule bit_eqI) (auto simp: bit_simps)
  with ok show "in_use c (DSF_IN_USE c OR (f AND DSF_MASK_INTERNAL c))"
    by (simp add: in_use_def ds_flags_ok_def)
  have "(f AND DSF_MASK_INTERNAL c) AND DSF_MASK_TYPE c = f AND DSF_MASK_TYPE c"
    using ok by (simp add: ds_flags_ok_def and.assoc)
  with ok show "(DSF_IN_USE c OR (f AND DSF_MASK_INTERNAL c)) AND DSF_MASK_TYPE c
      = f AND DSF_MASK_TYPE c"
    by (simp add: ds_flags_ok_def bit.conj_disj_distrib2)
qed

lemma label_flags:
  assumes ok: "ds_flags_ok c"
  shows "in_use c (DSF_IN_USE c OR DSF_TYPE_LABEL c)"
    and "(DSF_IN_USE c OR DSF_TYPE_LABEL c) AND DSF_MASK_TYPE c = DSF_TYPE_LABEL c"
proof -
  have "(DSF_IN_USE c OR DSF_TYPE_LABEL c) AND DSF_IN_USE c = DSF_IN_USE c"
    by (rule bit_eqI) (auto simp: bit_simps)
  with ok show "in_use c (DSF_IN_USE c OR DSF_TYPE_LABEL c)"
    by (simp add: in_use_def ds_flags_ok_def)
  from ok show "(DSF_IN_USE c OR DSF_TYPE_LABEL c) AND DSF_MASK_TYPE c = DSF_TYPE_LABEL c"
    by (simp add: ds_flags_ok_def bit.conj_disj_distrib2 ds_types_def)
qed

lemma not_in_use_0 [simp]: "\<not> in_use c 0"
  by (simp add: in_use_def)

section \<open>The invariant\<close>

fun value_ok :: "ds_conf \<Rightarrow> 32 word \<Rightarrow> ds_value \<Rightarrow> bool" where
  "value_ok c t (VU32 w) \<longleftrightarrow> t = DSF_TYPE_U32 c \<or> t = DSF_TYPE_LABEL c"
| "value_ok c t (VMem a l rl) \<longleftrightarrow> t = DSF_TYPE_STR c \<or> t = DSF_TYPE_MEM c"
| "value_ok c t (VMap a l r snaps sx) \<longleftrightarrow>
     t = DSF_TYPE_MAP c \<and> length snaps = NR_DS_SNAPSHOT \<and> - 1 \<le> sx \<and> sx < int NR_DS_SNAPSHOT \<and>
     list_all (\<lambda>x. x \<noteq> None) (take (nat (sx + 1)) snaps)"

definition entry_typed :: "ds_conf \<Rightarrow> data_store \<Rightarrow> bool" where
  "entry_typed c d \<longleftrightarrow>
     (in_use c (de_flags d) \<longrightarrow> etype c d \<in> set (ds_types c) \<and> value_ok c (etype c d) (de_u d))"

definition keys_unique :: "ds_conf \<Rightarrow> data_store list \<Rightarrow> bool" where
  "keys_unique c ds \<longleftrightarrow>
     (\<forall>i < length ds. \<forall>j < length ds.
        in_use c (de_flags (ds ! i)) \<longrightarrow> in_use c (de_flags (ds ! j)) \<longrightarrow>
        etype c (ds ! i) = etype c (ds ! j) \<longrightarrow> de_key (ds ! i) = de_key (ds ! j) \<longrightarrow> i = j)"

definition table_ok :: "ds_conf \<Rightarrow> data_store list \<Rightarrow> bool" where
  "table_ok c ds \<longleftrightarrow> list_all (entry_typed c) ds \<and> keys_unique c ds"

lemma table_okD:
  assumes "table_ok c ds" "i < length ds" "in_use c (de_flags (ds ! i))"
  shows "etype c (ds ! i) \<in> set (ds_types c)" "value_ok c (etype c (ds ! i)) (de_u (ds ! i))"
  using assms by (auto simp: table_ok_def list_all_length entry_typed_def)

lemma list_all_update:
  "list_all P xs \<Longrightarrow> P x \<Longrightarrow> list_all P (xs[i := x])"
  by (auto simp: list_all_iff dest!: set_update_subset_insert [THEN subsetD])

text \<open>Replacing one entry.\<close>

lemma table_ok_upd:
  assumes "table_ok c ds" "entry_typed c d"
    and new: "\<And>j. in_use c (de_flags d) \<Longrightarrow> j < length ds \<Longrightarrow> j \<noteq> i \<Longrightarrow>
       in_use c (de_flags (ds ! j)) \<Longrightarrow> etype c (ds ! j) = etype c d \<Longrightarrow> de_key (ds ! j) \<noteq> de_key d"
  shows "table_ok c (ds[i := d])"
proof (cases "i < length ds")
  case True
  have "keys_unique c (ds[i := d])"
    unfolding keys_unique_def
  proof (intro allI impI)
    fix a b
    assume ab: "a < length (ds[i := d])" "b < length (ds[i := d])"
      "in_use c (de_flags (ds[i := d] ! a))" "in_use c (de_flags (ds[i := d] ! b))"
      "etype c (ds[i := d] ! a) = etype c (ds[i := d] ! b)"
      "de_key (ds[i := d] ! a) = de_key (ds[i := d] ! b)"
    show "a = b"
    proof (cases "a = i")
      case ai: True
      show ?thesis
      proof (cases "b = i")
        case False
        with ab ai True new [of b] show ?thesis by simp
      qed (use ai in simp)
    next
      case ai: False
      show ?thesis
      proof (cases "b = i")
        case bi: True
        with ab ai True new [of a] show ?thesis by simp
      next
        case bi: False
        with ai ab assms(1) show ?thesis by (simp add: table_ok_def keys_unique_def)
      qed
    qed
  qed
  with assms show ?thesis
    by (simp add: table_ok_def list_all_update)
next
  case False
  then have "ds[i := d] = ds" by (simp add: list_update_beyond)
  with assms(1) show ?thesis by simp
qed

text \<open>Changing flags to zero, and changing values within the type.\<close>

lemma entry_typed_unused: "\<not> in_use c (de_flags d) \<Longrightarrow> entry_typed c d"
  by (simp add: entry_typed_def)

lemma table_ok_clear: "table_ok c ds \<Longrightarrow> table_ok c (ds[i := d\<lparr>de_flags := 0\<rparr>])"
  by (rule table_ok_upd) (auto simp: entry_typed_def)

lemma table_ok_value:
  assumes ok: "table_ok c ds"
    and v: "in_use c (de_flags (ds ! i)) \<Longrightarrow> value_ok c (etype c (ds ! i)) v"
  shows "table_ok c (ds[i := (ds ! i)\<lparr>de_u := v\<rparr>])"
proof (cases "i < length ds")
  case i: True
  have "etype c ((ds ! i)\<lparr>de_u := v\<rparr>) = etype c (ds ! i)" by (simp add: etype_def)
  with ok v i have "entry_typed c ((ds ! i)\<lparr>de_u := v\<rparr>)"
    by (simp add: entry_typed_def table_ok_def list_all_length)
  then show ?thesis
    using ok i by (intro table_ok_upd) (auto simp: table_ok_def keys_unique_def etype_def)
next
  case False
  then have "ds[i := (ds ! i)\<lparr>de_u := v\<rparr>] = ds" by (simp add: list_update_beyond)
  with ok show ?thesis by simp
qed

lemma table_ok_map_clear:
  assumes "table_ok c ds"
  shows "table_ok c (map (\<lambda>d. if P d then d\<lparr>de_flags := 0\<rparr> else d) ds)"
  using assms by (auto simp: table_ok_def list_all_length entry_typed_def keys_unique_def)

lemma lookup_entryD:
  assumes "lookup_entry c s k ty = Some i"
  shows "i < length (ds_store s)" "in_use c (de_flags (ds_store s ! i))"
    "de_flags (ds_store s ! i) AND ty \<noteq> 0" "de_key (ds_store s ! i) = k"
  using first_idx_SomeD [OF assms [unfolded lookup_entry_def]] by auto

lemma lookup_entry_None:
  assumes "lookup_entry c s k ty = None" "i < length (ds_store s)"
    "in_use c (de_flags (ds_store s ! i))" "de_flags (ds_store s ! i) AND ty \<noteq> 0"
  shows "de_key (ds_store s ! i) \<noteq> k"
  using assms by (auto simp: lookup_entry_def first_idx_None_iff)

lemma lookup_label_entryD:
  assumes "lookup_label_entry c s num = Some i"
  shows "i < length (ds_store s)" "in_use c (de_flags (ds_store s ! i))"
    "de_flags (ds_store s ! i) AND DSF_TYPE_LABEL c \<noteq> 0" "u32_of (de_u (ds_store s ! i)) = num"
  using first_idx_SomeD [OF assms [unfolded lookup_label_entry_def]] by auto

lemma alloc_data_slotD:
  assumes "alloc_data_slot c s = Some i"
  shows "i < length (ds_store s)" "\<not> in_use c (de_flags (ds_store s ! i))"
  using first_idx_SomeD [OF assms [unfolded alloc_data_slot_def]] by auto

section \<open>Frame lemmas\<close>

text \<open>What the small operations leave alone.\<close>

named_theorems ds_frame \<open>unchanged parts of the state\<close>

lemma put_value_sel [ds_frame]:
  "ds_store (put_value i v s) = (ds_store s)[i := (ds_store s ! i)\<lparr>de_u := v\<rparr>]"
  "ds_subs (put_value i v s) = ds_subs s" "ds_heap (put_value i v s) = ds_heap s"
  "ds_log (put_value i v s) = ds_log s"
  by (simp_all add: put_value_def)

lemma log_event_sel [ds_frame]:
  "ds_store (log_event ev s) = ds_store s" "ds_subs (log_event ev s) = ds_subs s"
  "ds_heap (log_event ev s) = ds_heap s" "ds_log (log_event ev s) = ds_log s @ [ev]"
  by (simp_all add: log_event_def)

lemma alloc_block_sel:
  assumes "alloc_block c n s = Some (a, s')"
  shows "ds_store s' = ds_store s" "ds_subs s' = ds_subs s" "ds_log s' = ds_log s"
    "ds_heap s' = (ds_heap s)(a \<mapsto> replicate n NUL)" "malloc_at c (ds_heap s) n = Some a"
  using assms by (auto simp: alloc_block_def split: option.splits)

lemma free_block_sel:
  assumes "free_block a s = Some s'"
  shows "ds_store s' = ds_store s" "ds_subs s' = ds_subs s" "ds_log s' = ds_log s"
    "ds_heap s' = (if a = 0 then ds_heap s else (ds_heap s)(a := None))"
  using assms by (auto simp: free_block_def split: if_splits)

lemma write_block_sel:
  assumes "write_block a bs s = Some s'"
  shows "ds_store s' = ds_store s" "ds_subs s' = ds_subs s" "ds_log s' = ds_log s"
    "\<exists>old. ds_heap s a = Some old \<and> length bs \<le> length old \<and>
       ds_heap s' = (ds_heap s)(a \<mapsto> bs @ drop (length bs) old)"
  using assms by (auto simp: write_block_def split: option.splits if_splits)

lemma poke_block_sel:
  assumes "poke_block a k ch s = Some s'"
  shows "ds_store s' = ds_store s" "ds_subs s' = ds_subs s" "ds_log s' = ds_log s"
    "\<exists>old. ds_heap s a = Some old \<and> k < length old \<and> ds_heap s' = (ds_heap s)(a \<mapsto> old[k := ch])"
  using assms by (auto simp: poke_block_def split: option.splits if_splits)

lemma update_subscribers_sel [ds_frame]:
  "ds_store (update_subscribers c i b s) = ds_store s"
  "ds_heap (update_subscribers c i b s) = ds_heap s"
  by (simp_all add: update_subscribers_def Let_def)

lemma set_attributes_sel [ds_frame]:
  "ds_subs (set_attributes c m k src i s) = ds_subs s"
  "ds_heap (set_attributes c m k src i s) = ds_heap s"
  "ds_log (set_attributes c m k src i s) = ds_log s"
  by (simp_all add: set_attributes_def)

lemma copy_out_sel:
  assumes "copy_out e m bs s = (r, s')"
  shows "ds_store s' = ds_store s" "ds_subs s' = ds_subs s" "ds_heap s' = ds_heap s"
  using assms by (auto simp: copy_out_def ds_frame split: if_splits)

lemma copy_value_sel:
  assumes "copy_value e m n bs s = (r, m', s')"
  shows "ds_store s' = ds_store s" "ds_subs s' = ds_subs s" "ds_heap s' = ds_heap s"
  using assms by (auto simp: copy_value_def dest: copy_out_sel split: prod.splits if_splits)

lemma mem_buffer_sel:
  assumes "mem_buffer c i len s = Some (b, s')" "i < length (ds_store s)"
  shows "ds_subs s' = ds_subs s \<and> ds_log s' = ds_log s \<and>
     (\<exists>a l rl. ds_store s' = (ds_store s)[i := (ds_store s ! i)\<lparr>de_u := VMem a l rl\<rparr>])"
proof (cases "in_use c (de_flags (ds_store s ! i))")
  case False
  show ?thesis
  proof (cases "alloc_block c len s")
    case None
    with False assms(1) have "s' = put_value i (VMem 0 0 0) s" by (simp add: mem_buffer_def)
    then show ?thesis by (simp add: ds_frame) blast
  next
    case (Some x)
    then obtain a s1 where al: "alloc_block c len s = Some (a, s1)" by (cases x) simp
    with False assms(1) have "s' = put_value i (VMem a 0 len) s1" by (simp add: mem_buffer_def)
    then show ?thesis by (simp add: ds_frame alloc_block_sel [OF al]) blast
  qed
next
  case True
  then obtain a l rl where u: "de_u (ds_store s ! i) = VMem a l rl"
    using assms(1) by (auto simp: mem_buffer_def Let_def split: ds_value.splits)
  show ?thesis
  proof (cases "len > rl")
    case False
    have "(ds_store s)[i := (ds_store s ! i)\<lparr>de_u := VMem a l rl\<rparr>] = ds_store s"
      using u by (metis data_store.surjective data_store.update_convs(4) list_update_id)
    moreover from True u False assms(1) have "s' = s" by (simp add: mem_buffer_def)
    ultimately show ?thesis by metis
  next
    case gt: True
    with True u assms(1) obtain s1 where f: "free_block a s = Some s1"
      by (auto simp: mem_buffer_def split: option.splits)
    show ?thesis
    proof (cases "alloc_block c len s1")
      case None
      with f gt True u assms(1) have "s' = put_value i (VMem 0 l rl) s1"
        by (simp add: mem_buffer_def)
      then show ?thesis by (simp add: ds_frame free_block_sel [OF f]) blast
    next
      case (Some x)
      then obtain b' s2 where al: "alloc_block c len s1 = Some (b', s2)" by (cases x) simp
      with f gt True u assms(1) have "s' = put_value i (VMem b' l len) s2"
        by (simp add: mem_buffer_def)
      then show ?thesis
        by (simp add: ds_frame free_block_sel [OF f] alloc_block_sel [OF al]) blast
    qed
  qed
qed

section \<open>Storing a value\<close>

text \<open>What the switch of \<^verbatim>\<open>do_publish\<close> does to the table, whatever its result.\<close>

lemma store_mem_sel:
  assumes "store_mem c e m i s = Some (r, s')" and i: "i < length (ds_store s)"
  shows "ds_subs s' = ds_subs s \<and> ds_log s' = ds_log s \<and>
     (\<exists>a l rl. ds_store s' = (ds_store s)[i := (ds_store s ! i)\<lparr>de_u := VMem a l rl\<rparr>])"
proof -
  let ?len = "unat (dm_val_len m)"
  from assms(1) obtain b s1 where mb: "mem_buffer c i ?len s = Some (b, s1)"
    by (cases "mem_buffer c i ?len s") (auto simp: store_mem_def)
  from mem_buffer_sel [OF mb i] obtain a l rl where
    s1: "ds_subs s1 = ds_subs s" "ds_log s1 = ds_log s"
      "ds_store s1 = (ds_store s)[i := (ds_store s ! i)\<lparr>de_u := VMem a l rl\<rparr>]"
    by blast
  then have u: "de_u (ds_store s1 ! i) = VMem a l rl" using i by simp
  show ?thesis
  proof (cases b)
    case False
    with mb assms(1) have "s' = s1" by (simp add: store_mem_def)
    with s1 show ?thesis by blast
  next
    case b: True
    show ?thesis
    proof (cases "fst (e_val e) = OK")
      case False
      with mb b u assms(1) obtain f: "free_block a s1 = Some s'"
        by (auto simp: store_mem_def Let_def)
      from s1 show ?thesis by (simp add: free_block_sel [OF f]) blast
    next
      case ok: True
      with mb b u assms(1) obtain s2 where
        w: "write_block a (take ?len (snd (e_val e))) s1 = Some s2"
        by (auto simp: store_mem_def Let_def split: option.splits)
      let ?s3 = "put_value i (VMem a ?len rl) s2"
      have "ds_subs ?s3 = ds_subs s" "ds_log ?s3 = ds_log s"
        "ds_store ?s3 = (ds_store s)[i := (ds_store s ! i)\<lparr>de_u := VMem a ?len rl\<rparr>]"
        using s1 i by (simp_all add: ds_frame write_block_sel(1-3) [OF w])
      moreover have "s' = ?s3 \<or> poke_block a (?len - 1) NUL ?s3 = Some s'"
        using assms(1) mb b u ok w by (auto simp: store_mem_def Let_def split: if_splits)
      ultimately show ?thesis using poke_block_sel(1-3) by metis
    qed
  qed
qed

lemma store_map_sel:
  assumes "store_map c e m i s = Some (r, s')" and i: "i < length (ds_store s)"
  shows "ds_subs s' = ds_subs s \<and> ds_log s' = ds_log s \<and>
     (r \<noteq> OK \<and> ds_store s' = ds_store s \<or>
      r = OK \<and> (\<exists>a b l. ds_store s' = (ds_store s)
        [i := (ds_store s ! i)\<lparr>de_u := VMap a l b (replicate NR_DS_SNAPSHOT None) (- 1)\<rparr>]))"
proof (cases "alloc_block c (unat (dm_val_len m + CLICK_SIZE c)) s")
  case None
  with assms(1) show ?thesis by (auto simp: store_map_def)
next
  case (Some x)
  then obtain a s1 where al: "alloc_block c (unat (dm_val_len m + CLICK_SIZE c)) s = Some (a, s1)"
    by (cases x) simp
  show ?thesis
  proof (cases "e_safemap e = OK")
    case True
    with al assms(1) have "r = OK" "s' = put_value i (VMap (click_ceil c a) (unat (dm_val_len m)) a
        (replicate NR_DS_SNAPSHOT None) (- 1)) s1"
      by (auto simp: store_map_def)
    then show ?thesis
      using alloc_block_sel [OF al] by (simp add: ds_frame del: data_store.simps) blast
  next
    case False
    with al assms(1) have "free_block a s1 = Some s'" "r = e_safemap e"
      by (auto simp: store_map_def)
    with False show ?thesis
      by (simp add: free_block_sel(1-3) alloc_block_sel [OF al])
  qed
qed

lemma store_value_cases:
  assumes ok: "ds_flags_ok c" and st: "store_value c e m i s = Some (r, s')"
  obtains (u32) "dm_flags m AND DSF_MASK_TYPE c \<in> {DSF_TYPE_U32 c, DSF_TYPE_LABEL c}" "r = OK"
      "s' = put_value i (VU32 (dm_val m)) s"
    | (mem) "dm_flags m AND DSF_MASK_TYPE c \<in> {DSF_TYPE_STR c, DSF_TYPE_MEM c}"
      "store_mem c e m i s = Some (r, s')"
    | (mp) "dm_flags m AND DSF_MASK_TYPE c = DSF_TYPE_MAP c" "store_map c e m i s = Some (r, s')"
    | (bad) "dm_flags m AND DSF_MASK_TYPE c \<notin> set (ds_types c)" "r = EINVAL" "s' = s"
proof -
  note ne = types_neq [OF ok]
  define ty where "ty = dm_flags m AND DSF_MASK_TYPE c"
  note st = st [unfolded store_value_def Let_def, folded ty_def]
  consider "ty = DSF_TYPE_U32 c" | "ty = DSF_TYPE_LABEL c" | "ty = DSF_TYPE_STR c"
    | "ty = DSF_TYPE_MEM c" | "ty = DSF_TYPE_MAP c" | "ty \<notin> set (ds_types c)"
    by (auto simp: ds_types_def)
  then show thesis
  proof cases
    case 1 then show thesis using st u32 by (simp add: ty_def)
  next
    case 2 then show thesis using st u32 by (simp add: ty_def)
  next
    case 3 then show thesis using st mem ne by (simp add: ty_def)
  next
    case 4 then show thesis using st mem ne by (simp add: ty_def)
  next
    case 5 then show thesis using st mp ne by (simp add: ty_def)
  next
    case 6 then show thesis using st bad by (simp add: ty_def ds_types_def)
  qed
qed

definition stored :: "ds_conf \<Rightarrow> ds_msg \<Rightarrow> nat \<Rightarrow> errno \<Rightarrow> ds_value \<Rightarrow> ds_state \<Rightarrow> ds_state \<Rightarrow> bool" where
  "stored c m i r v s s' \<longleftrightarrow>
     ds_subs s' = ds_subs s \<and> ds_log s' = ds_log s \<and>
     ds_store s' = (ds_store s)[i := (ds_store s ! i)\<lparr>de_u := v\<rparr>] \<and>
     (r \<noteq> OK \<and> v = de_u (ds_store s ! i) \<or>
      dm_flags m AND DSF_MASK_TYPE c \<in> set (ds_types c) \<and>
      value_ok c (dm_flags m AND DSF_MASK_TYPE c) v)"

lemma store_value_sel:
  assumes ok: "ds_flags_ok c" and st: "store_value c e m i s = Some (r, s')"
    and i: "i < length (ds_store s)"
  shows "\<exists>v. stored c m i r v s s'"
  using ok st
proof (cases rule: store_value_cases)
  case u32
  then have "dm_flags m AND DSF_MASK_TYPE c \<in> set (ds_types c)" using types_mem by auto
  with u32 have "stored c m i r (VU32 (dm_val m)) s s'" by (auto simp: stored_def ds_frame)
  then show ?thesis ..
next
  case mem
  then have t: "dm_flags m AND DSF_MASK_TYPE c \<in> set (ds_types c)" using types_mem by auto
  from store_mem_sel [OF mem(2) i] obtain a l rl where
    "ds_subs s' = ds_subs s" "ds_log s' = ds_log s"
    "ds_store s' = (ds_store s)[i := (ds_store s ! i)\<lparr>de_u := VMem a l rl\<rparr>]"
    by (elim conjE exE)
  with t mem(1) have "stored c m i r (VMem a l rl) s s'" by (auto simp: stored_def)
  then show ?thesis ..
next
  case mp
  then have t: "dm_flags m AND DSF_MASK_TYPE c \<in> set (ds_types c)" using types_mem by simp
  from store_map_sel [OF mp(2) i] have fr: "ds_subs s' = ds_subs s" "ds_log s' = ds_log s" by auto
  from store_map_sel [OF mp(2) i] show ?thesis
  proof (elim conjE disjE exE)
    assume "r \<noteq> OK" "ds_store s' = ds_store s"
    with fr have "stored c m i r (de_u (ds_store s ! i)) s s'" by (simp add: stored_def)
    then show ?thesis ..
  next
    fix a b l
    let ?v = "VMap a l b (replicate NR_DS_SNAPSHOT None) (- 1)"
    assume "ds_store s' = (ds_store s)[i := (ds_store s ! i)\<lparr>de_u := ?v\<rparr>]"
    with fr t mp(1) have "stored c m i r ?v s s'" by (simp add: stored_def NR_DS_SNAPSHOT_def)
    then show ?thesis ..
  qed
next
  case bad
  then have "stored c m i r (de_u (ds_store s ! i)) s s'" by (simp add: stored_def)
  then show ?thesis ..
qed

text \<open>The slot chosen for a key of one of the five types: nobody else holds that key.\<close>

lemma publish_slot_cases:
  assumes "publish_slot c m k s = Inr i"
  obtains (key) "lookup_entry c s k (dm_flags m AND DSF_MASK_TYPE c) = Some i"
      "dm_flags m AND DSF_OVERWRITE c \<noteq> 0"
      "check_auth c s (ds_store s ! i) (dm_source m) (DSF_PRIV_OVERWRITE c)"
    | (num) "lookup_entry c s k (dm_flags m AND DSF_MASK_TYPE c) = None"
      "dm_flags m AND DSF_TYPE_LABEL c \<noteq> 0" "lookup_label_entry c s (dm_val m) = Some i"
      "dm_flags m AND DSF_OVERWRITE c \<noteq> 0"
      "check_auth c s (ds_store s ! i) (dm_source m) (DSF_PRIV_OVERWRITE c)"
    | (fresh) "lookup_entry c s k (dm_flags m AND DSF_MASK_TYPE c) = None"
      "alloc_data_slot c s = Some i"
      "dm_flags m AND DSF_TYPE_LABEL c = 0 \<or> lookup_label_entry c s (dm_val m) = None"
  using assms by (auto simp: publish_slot_def Let_def split: option.splits if_splits)

lemma publish_slotD:
  assumes ok: "ds_flags_ok c" and t: "table_ok c (ds_store s)"
    and ps: "publish_slot c m k s = Inr i"
  defines "ty \<equiv> dm_flags m AND DSF_MASK_TYPE c"
  assumes ty: "ty \<in> set (ds_types c)"
  shows "i < length (ds_store s)"
    and "in_use c (de_flags (ds_store s ! i)) \<Longrightarrow> etype c (ds_store s ! i) = ty"
    and "\<lbrakk>j < length (ds_store s); j \<noteq> i; in_use c (de_flags (ds_store s ! j));
          etype c (ds_store s ! j) = ty\<rbrakk> \<Longrightarrow> de_key (ds_store s ! j) \<noteq> k"
proof -
  let ?e = "\<lambda>j. ds_store s ! j"
  have bit: "de_flags (?e j) AND t' \<noteq> 0 \<longleftrightarrow> etype c (?e j) = t'"
    if "j < length (ds_store s)" "in_use c (de_flags (?e j))" "t' \<in> set (ds_types c)" for j t'
    using type_bit [OF ok _ that(3)] table_okD [OF t that(1,2)] by (simp add: etype_def)
  have "i < length (ds_store s) \<and> (in_use c (de_flags (?e i)) \<longrightarrow> etype c (?e i) = ty) \<and>
     (\<forall>j < length (ds_store s). j \<noteq> i \<longrightarrow> in_use c (de_flags (?e j)) \<longrightarrow>
        etype c (?e j) = ty \<longrightarrow> de_key (?e j) \<noteq> k)"
    using ps
  proof (cases rule: publish_slot_cases)
    case key
    note D = lookup_entryD [OF key(1)]
    with bit [OF D(1,2)] ty have e: "etype c (?e i) = ty" by (simp add: ty_def)
    show ?thesis
      using D e t by (auto simp: table_ok_def keys_unique_def)
  next
    case num
    note D = lookup_label_entryD [OF num(3)]
    from num(2) type_bit [OF ok _ types_mem(5), of "dm_flags m"] ty
    have "ty = DSF_TYPE_LABEL c" by (simp add: ty_def)
    with D bit [OF D(1,2) types_mem(5)] have e: "etype c (?e i) = ty" by simp
    show ?thesis
      using D e lookup_entry_None [OF num(1)] bit ty by (auto simp: ty_def [symmetric])
  next
    case fresh
    show ?thesis
      using alloc_data_slotD [OF fresh(2)] lookup_entry_None [OF fresh(1)] bit ty
      by (auto simp: ty_def [symmetric])
  qed
  then show "i < length (ds_store s)"
    and "in_use c (de_flags (?e i)) \<Longrightarrow> etype c (?e i) = ty"
    and "\<lbrakk>j < length (ds_store s); j \<noteq> i; in_use c (de_flags (?e j)); etype c (?e j) = ty\<rbrakk>
       \<Longrightarrow> de_key (?e j) \<noteq> k"
    by auto
qed

lemma publish_slot_length: "publish_slot c m k s = Inr i \<Longrightarrow> i < length (ds_store s)"
  by (elim publish_slot_cases) (auto dest: lookup_entryD(1) lookup_label_entryD(1) alloc_data_slotD(1))

section \<open>Every handler keeps the table typed\<close>

lemma do_publish_cases:
  assumes "do_publish c e m s = Some (r, m', s')"
  obtains (refused) "s' = s" "r \<noteq> OK" "m' = m"
    | (stored) source buf i s1 where
        "ds_getprocname c s (dm_source m) = Some source"
        "get_key_name c e m (e_stack e) = Inr buf" "publish_slot c m (c_string buf) s = Inr i"
        "store_value c e m i s = Some (r, s1)" "m' = m"
        "r \<noteq> OK \<and> s' = s1 \<or> r = OK \<and>
           s' = update_subscribers c i True
                  (set_attributes c m (c_string buf) (publish_owner c m (c_string buf) source i s) i s1)"
proof -
  have kn: "r \<noteq> OK" if "get_key_name c e m (e_stack e) = Inl r" for r
    using that by (auto simp: get_key_name_def Let_def split: if_splits)
  have ps: "r \<noteq> OK" if "publish_slot c m k s = Inl r" for r k
    using that by (auto simp: publish_slot_def Let_def split: if_splits option.splits)
  show thesis
  proof (cases "ds_getprocname c s (dm_source m)")
    case None
    with assms refused show thesis by (simp add: do_publish_def)
  next
    case (Some source)
    note src = this
    show thesis
    proof (cases "dm_flags m AND DSF_TYPE_LABEL c \<noteq> 0 \<and> dm_source m \<noteq> RS_PROC_NR c \<or>
        dm_flags m AND DSF_TYPE_MAP c \<noteq> 0 \<and> dm_flags m AND DSF_OVERWRITE c \<noteq> 0")
      case True
      with src assms refused show thesis by (auto simp: do_publish_def split: if_splits)
    next
      case guards: False
      show thesis
      proof (cases "get_key_name c e m (e_stack e)")
        case (Inl r0)
        with kn [OF Inl] guards src assms refused show thesis by (auto simp: do_publish_def)
      next
        case (Inr buf)
        note key = this
        show thesis
        proof (cases "publish_slot c m (c_string buf) s")
          case (Inl r0)
          with ps [OF Inl] key guards src assms refused show thesis
            by (auto simp: do_publish_def)
        next
          case (Inr i)
          with key guards src assms obtain s1 where st: "store_value c e m i s = Some (r, s1)"
            by (auto simp: do_publish_def split: option.splits if_splits)
          with Inr key guards src assms have "m' = m"
            "r \<noteq> OK \<and> s' = s1 \<or> r = OK \<and>
               s' = update_subscribers c i True
                      (set_attributes c m (c_string buf) (publish_owner c m (c_string buf) source i s) i s1)"
            by (auto simp: do_publish_def split: if_splits)
          with src key Inr st show thesis by (rule stored)
        qed
      qed
    qed
  qed
qed

lemma do_publish_table:
  assumes ok: "ds_flags_ok c" and t: "table_ok c (ds_store s)"
    and st: "do_publish c e m s = Some (r, m', s')"
  shows "table_ok c (ds_store s')"
  using st
proof (cases rule: do_publish_cases)
  case refused
  with t show ?thesis by simp
next
  case (stored source buf i s1)
  let ?ty = "dm_flags m AND DSF_MASK_TYPE c"
  note i = publish_slot_length [OF stored(3)]
  from store_value_sel [OF ok stored(4) i] obtain v where v: "stored c m i r v s s1" ..
  show ?thesis
  proof (cases "?ty \<in> set (ds_types c) \<and> value_ok c ?ty v")
    case True
    note slot = publish_slotD [OF ok t stored(3)]
    have s1: "table_ok c (ds_store s1)"
      using v True slot(2) by (simp add: stored_def) (intro table_ok_value t, auto)
    show ?thesis
    proof (cases "r = OK")
      case False
      with stored(6) s1 show ?thesis by simp
    next
      case rok: True
      let ?d = "(ds_store s ! i)\<lparr>de_u := v, de_key := c_string buf,
        de_owner := publish_owner c m (c_string buf) source i s,
        de_flags := DSF_IN_USE c OR (dm_flags m AND DSF_MASK_INTERNAL c)\<rparr>"
      have "ds_store s' = (ds_store s)[i := ?d]"
        using stored(6) rok v i by (simp add: stored_def update_subscribers_sel set_attributes_def)
      moreover have d: "etype c ?d = ?ty" "de_key ?d = c_string buf"
        using fresh_flags [OF ok] by (simp_all add: etype_def)
      have "table_ok c ((ds_store s)[i := ?d])"
      proof (rule table_ok_upd [OF t])
        show "entry_typed c ?d" using True d(1) by (simp add: entry_typed_def)
      next
        fix j
        assume "j < length (ds_store s)" "j \<noteq> i" "in_use c (de_flags (ds_store s ! j))"
          "etype c (ds_store s ! j) = etype c ?d"
        with slot(3) True d show "de_key (ds_store s ! j) \<noteq> de_key ?d" by simp
      qed
      ultimately show ?thesis by simp
    qed
  next
    case False
    with v have "r \<noteq> OK" "ds_store s1 = ds_store s" by (auto simp: stored_def)
    with stored(6) t show ?thesis by simp
  qed
qed

text \<open>Four handlers only read the table.\<close>

lemma copy_out_frame:
  "copy_out e m bs s = (r, s') \<Longrightarrow>
     ds_store s' = ds_store s \<and> ds_subs s' = ds_subs s \<and> ds_heap s' = ds_heap s"
  by (simp add: copy_out_sel)

lemma copy_value_frame:
  "copy_value e m n bs s = (r, m', s') \<Longrightarrow>
     ds_store s' = ds_store s \<and> ds_subs s' = ds_subs s \<and> ds_heap s' = ds_heap s"
  by (simp add: copy_value_sel)

lemma free_block_frame:
  "free_block a s = Some s' \<Longrightarrow>
     ds_store s' = ds_store s \<and> ds_subs s' = ds_subs s \<and> ds_log s' = ds_log s"
  by (simp add: free_block_sel)

lemma retrieve_map_frame:
  assumes "retrieve_map c e m v s = Some (r, m', s')"
  shows "ds_store s' = ds_store s \<and> ds_subs s' = ds_subs s \<and> ds_heap s' = ds_heap s"
  using assms
  by (auto simp: retrieve_map_def Let_def dest!: copy_value_frame
      split: ds_value.splits if_splits option.splits)

lemma retrieve_value_frame:
  assumes "retrieve_value c e m ty v s = Some (r, m', s')"
  shows "ds_store s' = ds_store s \<and> ds_subs s' = ds_subs s \<and> ds_heap s' = ds_heap s"
  using assms
  by (auto simp: retrieve_value_def Let_def dest: retrieve_map_frame dest!: copy_value_frame
      split: ds_value.splits if_splits option.splits)

lemma do_retrieve_frame:
  assumes "do_retrieve c e m s = Some (r, m', s')"
  shows "ds_store s' = ds_store s \<and> ds_subs s' = ds_subs s \<and> ds_heap s' = ds_heap s"
  using assms
  by (auto simp: do_retrieve_def Let_def dest: retrieve_value_frame
      split: if_splits option.splits sum.splits)

lemma do_retrieve_label_frame:
  assumes "do_retrieve_label c e m s = Some (r, m', s')"
  shows "ds_store s' = ds_store s \<and> ds_subs s' = ds_subs s \<and> ds_heap s' = ds_heap s"
  using assms
  by (auto simp: do_retrieve_label_def dest!: copy_out_frame split: option.splits prod.splits)

lemma install_subscription_sel:
  "ds_store (install_subscription c m k p s) = ds_store s"
  "ds_heap (install_subscription c m k p s) = ds_heap s"
  by (simp_all add: install_subscription_def Let_def log_event_def)

lemma do_subscribe_frame:
  assumes "do_subscribe c e m s = Some (r, m', s')"
  shows "ds_store s' = ds_store s \<and> ds_heap s' = ds_heap s"
  using assms
  by (auto simp: do_subscribe_def Let_def install_subscription_sel
      split: option.splits sum.splits if_splits)

lemma do_check_frame:
  assumes "do_check c e m s = Some (r, m', s')"
  shows "ds_store s' = ds_store s \<and> ds_heap s' = ds_heap s"
  using assms
  by (auto simp: do_check_def Let_def dest!: copy_out_frame
      split: option.splits prod.splits if_splits)

lemma ds_getsysinfo_frame:
  assumes "ds_getsysinfo c e m s = Some (r, m', s')"
  shows "ds_store s' = ds_store s \<and> ds_subs s' = ds_subs s \<and> ds_heap s' = ds_heap s"
  using assms by (auto simp: ds_getsysinfo_def ds_frame split: if_splits)

lemma free_snapshots_sel:
  assumes "free_snapshots xs s = Some s'"
  shows "ds_store s' = ds_store s \<and> ds_subs s' = ds_subs s \<and> ds_log s' = ds_log s"
  using assms
  by (induction xs s rule: free_snapshots.induct)
    (auto dest: free_block_frame split: option.splits)

lemma release_map_sel:
  assumes "release_map e v s = Some (r, s')"
  shows "ds_store s' = ds_store s \<and> ds_subs s' = ds_subs s \<and> ds_log s' = ds_log s"
  using assms
  by (auto simp: release_map_def dest!: free_snapshots_sel free_block_frame
      split: ds_value.splits option.splits if_splits)

text \<open>Releasing a value leaves the table alone, except for the clean-up behind a label.\<close>

lemma release_value_cases:
  assumes "release_value c e ty d s = Some (r, s')"
  obtains (label) "ty = DSF_TYPE_LABEL c" "r = OK" "s' = cleanup_label c (de_key d) s"
    | (other) "ty = DSF_TYPE_LABEL c \<longrightarrow> ty = DSF_TYPE_U32 c" "ds_store s' = ds_store s"
      "ds_subs s' = ds_subs s" "ds_log s' = ds_log s"
proof (cases "ty = DSF_TYPE_LABEL c \<and> ty \<noteq> DSF_TYPE_U32 c")
  case True
  with assms have "r = OK" "s' = cleanup_label c (de_key d) s" by (auto simp: release_value_def)
  with True label show thesis by blast
next
  case False
  have "ds_store s' = ds_store s \<and> ds_subs s' = ds_subs s \<and> ds_log s' = ds_log s"
    using assms False
    by (auto simp: release_value_def dest!: release_map_sel free_block_frame
        split: ds_value.splits if_splits)
  with False other show thesis by blast
qed

lemma do_delete_cases:
  assumes "do_delete c e m s = Some (r, m', s')"
  obtains (refused) "s' = s" "r \<noteq> OK" "m' = m"
    | (released) source buf i s1 where
        "ds_getprocname c s (dm_source m) = Some source"
        "get_key_name c e m (e_stack e) = Inr buf"
        "lookup_entry c s (c_string buf) (dm_flags m AND DSF_MASK_TYPE c) = Some i"
        "de_owner (ds_store s ! i) = source"
        "release_value c e (dm_flags m AND DSF_MASK_TYPE c) (ds_store s ! i) s = Some (r, s1)"
        "m' = m"
        "r \<noteq> OK \<and> s' = s1 \<or> r = OK \<and> s' = clear_entry i (update_subscribers c i False s1)"
proof (cases "ds_getprocname c s (dm_source m)")
  case None
  with assms refused show thesis by (simp add: do_delete_def)
next
  case (Some source)
  note src = this
  have kn: "r \<noteq> OK" if "get_key_name c e m (e_stack e) = Inl r" for r
    using that by (auto simp: get_key_name_def Let_def split: if_splits)
  show thesis
  proof (cases "get_key_name c e m (e_stack e)")
    case (Inl r0)
    with kn [OF Inl] src assms refused show thesis by (auto simp: do_delete_def)
  next
    case (Inr buf)
    note key = this
    show thesis
    proof (cases "lookup_entry c s (c_string buf) (dm_flags m AND DSF_MASK_TYPE c)")
      case None
      with key src assms refused show thesis by (simp add: do_delete_def)
    next
      case (Some i)
      note hit = this
      show thesis
      proof (cases "de_owner (ds_store s ! i) = source")
        case False
        with hit key src assms refused show thesis by (simp add: do_delete_def)
      next
        case True
        with hit key src assms obtain s1 where
          rv: "release_value c e (dm_flags m AND DSF_MASK_TYPE c) (ds_store s ! i) s = Some (r, s1)"
          by (auto simp: do_delete_def split: option.splits if_splits)
        with True hit key src assms have "m' = m"
          "r \<noteq> OK \<and> s' = s1 \<or> r = OK \<and> s' = clear_entry i (update_subscribers c i False s1)"
          by (auto simp: do_delete_def split: if_splits)
        with src key hit True rv show thesis by (rule released)
      qed
    qed
  qed
qed

lemma do_delete_table:
  assumes t: "table_ok c (ds_store s)" and st: "do_delete c e m s = Some (r, m', s')"
  shows "table_ok c (ds_store s')"
  using st
proof (cases rule: do_delete_cases)
  case refused
  with t show ?thesis by simp
next
  case (released source buf i s1)
  have "table_ok c (ds_store s1)"
    using released(5)
  proof (cases rule: release_value_cases)
    case label
    with t show ?thesis by (simp add: cleanup_label_def table_ok_map_clear)
  next
    case other
    with t show ?thesis by simp
  qed
  then show ?thesis
    using released(7)
    by (auto simp: clear_entry_def update_subscribers_sel intro: table_ok_clear)
qed

lemma do_snapshot_cases:
  assumes "do_snapshot c e m s = Some (r, m', s')"
  obtains (refused) "s' = s" "r \<noteq> OK" "m' = m"
    | (nomem) buf i data len real snaps sx where
        "get_key_name c e m (e_stack e) = Inr buf"
        "lookup_entry c s (c_string buf) (DSF_TYPE_MAP c) = Some i"
        "de_u (ds_store s ! i) = VMap data len real snaps sx" "r = ENOMEM" "m' = m"
        "nat ((sx + 1) mod int (DS_MAX_KEYLEN c)) < length snaps"
        "s' = put_value i (VMap data len real
                (snaps[nat ((sx + 1) mod int (DS_MAX_KEYLEN c)) := Some 0]) sx) s"
    | (taken) buf i data len real snaps sx a s1 s2 where
        "get_key_name c e m (e_stack e) = Inr buf"
        "lookup_entry c s (c_string buf) (DSF_TYPE_MAP c) = Some i"
        "de_u (ds_store s ! i) = VMap data len real snaps sx" "r = OK"
        "m' = m\<lparr>dm_nr_snapshot := sx + 1\<rparr>"
        "nat ((sx + 1) mod int (DS_MAX_KEYLEN c)) < length snaps"
        "if sx + 1 < int (DS_MAX_KEYLEN c) then alloc_block c len s = Some (a, s1)
         else s1 = s \<and> snaps ! nat ((sx + 1) mod int (DS_MAX_KEYLEN c)) = Some a"
        "write_block a (take len (e_mapped e)) s1 = Some s2"
        "s' = put_value i (VMap data len real
                (snaps[nat ((sx + 1) mod int (DS_MAX_KEYLEN c)) := Some a]) (sx + 1)) s2"
proof (cases "get_key_name c e m (e_stack e)")
  case (Inl r0)
  then have "r0 \<noteq> OK" by (auto simp: get_key_name_def Let_def split: if_splits)
  with Inl assms refused show thesis by (auto simp: do_snapshot_def)
next
  case (Inr buf)
  note key = this
  show thesis
  proof (cases "lookup_entry c s (c_string buf) (DSF_TYPE_MAP c)")
    case None
    with key assms refused show thesis by (simp add: do_snapshot_def)
  next
    case (Some i)
    note hit = this
    let ?d = "ds_store s ! i"
    show thesis
    proof (cases "check_auth c s ?d (dm_source m) (DSF_PRIV_SNAPSHOT c)")
      case False
      with hit key assms refused show thesis by (simp add: do_snapshot_def)
    next
      case auth: True
      with hit key assms obtain data len real snaps sx where
        u: "de_u ?d = VMap data len real snaps sx"
        by (cases "de_u ?d") (auto simp: do_snapshot_def)
      define k where "k = nat ((sx + 1) mod int (DS_MAX_KEYLEN c))"
      from u auth hit key assms have k: "k < length snaps"
        by (auto simp: do_snapshot_def Let_def k_def split: if_splits)
      define got where "got = (if sx + 1 < int (DS_MAX_KEYLEN c)
          then map_option (\<lambda>(a, s1). (Some a, s1)) (alloc_block c len s) else Some (snaps ! k, s))"
      have run: "(case got of
              None \<Rightarrow> Some (ENOMEM, m, put_value i (VMap data len real (snaps[k := Some 0]) sx) s)
            | Some (None, s1) \<Rightarrow> None
            | Some (Some a, s1) \<Rightarrow>
                (case write_block a (take len (e_mapped e)) s1 of
                   None \<Rightarrow> None
                 | Some s2 \<Rightarrow> Some (OK, m\<lparr>dm_nr_snapshot := sx + 1\<rparr>,
                     put_value i (VMap data len real (snaps[k := Some a]) (sx + 1)) s2)))
          = Some (r, m', s')"
        using assms key hit auth u k [unfolded k_def]
        unfolding got_def k_def by (simp add: do_snapshot_def Let_def split del: if_split)
      show thesis
      proof (cases got)
        case None
        with run nomem [OF key hit u] k show thesis by (simp add: k_def)
      next
        case (Some x)
        with run obtain a s1 s2 where g: "got = Some (Some a, s1)"
          and w: "write_block a (take len (e_mapped e)) s1 = Some s2"
          and res: "r = OK" "m' = m\<lparr>dm_nr_snapshot := sx + 1\<rparr>"
            "s' = put_value i (VMap data len real (snaps[k := Some a]) (sx + 1)) s2"
          by (auto split: option.splits prod.splits)
        from g have "if sx + 1 < int (DS_MAX_KEYLEN c) then alloc_block c len s = Some (a, s1)
            else s1 = s \<and> snaps ! k = Some a"
          by (auto simp: got_def split: if_splits)
        from taken [OF key hit u res(1,2) k [unfolded k_def] this [unfolded k_def] w
            res(3) [unfolded k_def]]
        show thesis .
      qed
    qed
  qed
qed

text \<open>The next snapshot slot: the index is below the size of the array as long as there is no
  wrap-around at \<^verbatim>\<open>DS_MAX_KEYLEN\<close>, which is larger.\<close>

lemma snapshot_slot:
  assumes ok: "ds_flags_ok c" and "- 1 \<le> sx" "sx < int NR_DS_SNAPSHOT"
    and k: "nat ((sx + 1) mod int (DS_MAX_KEYLEN c)) < NR_DS_SNAPSHOT"
  shows "nat ((sx + 1) mod int (DS_MAX_KEYLEN c)) = nat (sx + 1)" "sx + 1 < int NR_DS_SNAPSHOT"
    "sx + 1 < int (DS_MAX_KEYLEN c)"
proof -
  have "(sx + 1) mod int (DS_MAX_KEYLEN c) = sx + 1"
    using ok assms(2,3) by (intro mod_pos_pos_trivial) (simp_all add: ds_flags_ok_def)
  then show "nat ((sx + 1) mod int (DS_MAX_KEYLEN c)) = nat (sx + 1)" by simp
  with k assms(2) show "sx + 1 < int NR_DS_SNAPSHOT" by simp
  with ok show "sx + 1 < int (DS_MAX_KEYLEN c)" by (simp add: ds_flags_ok_def)
qed

lemma do_snapshot_table:
  assumes ok: "ds_flags_ok c" and t: "table_ok c (ds_store s)"
    and st: "do_snapshot c e m s = Some (r, m', s')"
  shows "table_ok c (ds_store s')"
  using st
proof (cases rule: do_snapshot_cases)
  case refused
  with t show ?thesis by simp
next
  case (nomem buf i data len real snaps sx)
  note D = lookup_entryD [OF nomem(2)]
  note v = table_okD(2) [OF t D(1,2), unfolded nomem(3)]
  then have sx: "- 1 \<le> sx" "sx < int NR_DS_SNAPSHOT" "length snaps = NR_DS_SNAPSHOT" by simp_all
  note k = snapshot_slot(1) [OF ok sx(1,2) nomem(6) [unfolded sx(3)]]
  have "value_ok c (etype c (ds_store s ! i)) (VMap data len real (snaps[nat (sx + 1) := Some 0]) sx)"
    using v by simp
  then show ?thesis
    using nomem(7) by (simp only: k put_value_sel) (intro table_ok_value t)
next
  case (taken buf i data len real snaps sx a s1 s2)
  note D = lookup_entryD [OF taken(2)]
  note v = table_okD(2) [OF t D(1,2), unfolded taken(3)]
  then have sx: "- 1 \<le> sx" "sx < int NR_DS_SNAPSHOT" "length snaps = NR_DS_SNAPSHOT" by simp_all
  note k = snapshot_slot [OF ok sx(1,2) taken(6) [unfolded sx(3)]]
  have s2: "ds_store s2 = ds_store s"
    using taken(7) k(3) by (simp add: write_block_sel(1) [OF taken(8)] alloc_block_sel(1))
  have "value_ok c (etype c (ds_store s ! i))
      (VMap data len real (snaps[nat (sx + 1) := Some a]) (sx + 1))"
  proof -
    have "nat (sx + 1 + 1) = Suc (nat (sx + 1))" using sx by simp
    moreover have "nat (sx + 1) < length snaps" using sx k by simp
    ultimately show ?thesis
      using v sx k by (simp add: take_Suc_conv_app_nth)
  qed
  then show ?thesis
    using taken(9) by (simp only: k(1) put_value_sel s2) (intro table_ok_value t)
qed

lemma ds_dispatch_cases:
  assumes "ds_dispatch c e m s = x"
  obtains "x = do_publish c e m s" "dm_type m = DS_PUBLISH c"
    | "x = do_retrieve c e m s" "dm_type m = DS_RETRIEVE c"
    | "x = do_retrieve_label c e m s" "dm_type m = DS_RETRIEVE_LABEL c"
    | "x = do_delete c e m s" "dm_type m = DS_DELETE c"
    | "x = do_subscribe c e m s" "dm_type m = DS_SUBSCRIBE c"
    | "x = do_check c e m s" "dm_type m = DS_CHECK c"
    | "x = do_snapshot c e m s" "dm_type m = DS_SNAPSHOT c"
    | "x = ds_getsysinfo c e m s" "dm_type m = GETSYSINFO c"
    | "x = Some (EINVAL, m, s)"
  using assms unfolding ds_dispatch_def Let_def by argo

lemma ds_dispatch_table:
  assumes ok: "ds_flags_ok c" and t: "table_ok c (ds_store s)"
    and st: "ds_dispatch c e m s = Some (r, m', s')"
  shows "table_ok c (ds_store s')"
  using st
proof (cases rule: ds_dispatch_cases)
  case 1
  from do_publish_table [OF ok t 1(1) [symmetric]] show ?thesis .
next
  case 2
  from do_retrieve_frame [OF 2(1) [symmetric]] t show ?thesis by simp
next
  case 3
  from do_retrieve_label_frame [OF 3(1) [symmetric]] t show ?thesis by simp
next
  case 4
  from do_delete_table [OF t 4(1) [symmetric]] show ?thesis .
next
  case 5
  from do_subscribe_frame [OF 5(1) [symmetric]] t show ?thesis by simp
next
  case 6
  from do_check_frame [OF 6(1) [symmetric]] t show ?thesis by simp
next
  case 7
  from do_snapshot_table [OF ok t 7(1) [symmetric]] show ?thesis .
next
  case 8
  from ds_getsysinfo_frame [OF 8(1) [symmetric]] t show ?thesis by simp
next
  case 9 then show ?thesis using t by simp
qed

section \<open>Initialisation and reachable states\<close>

lemma map_service_table:
  assumes ok: "ds_flags_ok c" and t: "table_ok c (ds_store s)"
    and st: "map_service c rpub s = (OK, s')"
    and new: "\<And>d. d \<in> set (ds_store s) \<Longrightarrow> in_use c (de_flags d) \<Longrightarrow> de_key d \<noteq> fst rpub"
  shows "table_ok c (ds_store s')"
    and "d \<in> set (ds_store s') \<Longrightarrow> in_use c (de_flags d) \<Longrightarrow>
      de_key d = fst rpub \<or> d \<in> set (ds_store s)"
proof -
  let ?d = "\<lparr>de_flags = DSF_IN_USE c OR DSF_TYPE_LABEL c, de_key = fst rpub, de_owner = ''rs'',
    de_u = VU32 (snd rpub)\<rparr>"
  from st obtain i where i: "alloc_data_slot c s = Some i"
    and s': "ds_store s' = (ds_store s)[i := ?d]"
    by (auto simp: map_service_def update_subscribers_sel split: option.splits)
  have "table_ok c ((ds_store s)[i := ?d])"
  proof (rule table_ok_upd [OF t])
    show "entry_typed c ?d"
      using label_flags [OF ok] types_mem by (simp add: entry_typed_def etype_def)
  next
    fix j
    assume "j < length (ds_store s)" "in_use c (de_flags (ds_store s ! j))"
    with new show "de_key (ds_store s ! j) \<noteq> de_key ?d" by simp
  qed
  with s' show "table_ok c (ds_store s')" by simp
  show "d \<in> set (ds_store s') \<Longrightarrow> in_use c (de_flags d) \<Longrightarrow>
      de_key d = fst rpub \<or> d \<in> set (ds_store s)"
    using s' set_update_subset_insert [of "ds_store s" i ?d] by auto
qed

lemma map_boot_services_table:
  assumes ok: "ds_flags_ok c"
  shows "map_boot_services c boot s = Some s' \<Longrightarrow> table_ok c (ds_store s) \<Longrightarrow>
     distinct (map (fst \<circ> snd) (filter fst boot)) \<Longrightarrow>
     (\<And>d. d \<in> set (ds_store s) \<Longrightarrow> in_use c (de_flags d) \<Longrightarrow>
        de_key d \<notin> set (map (fst \<circ> snd) (filter fst boot))) \<Longrightarrow>
     table_ok c (ds_store s')"
proof (induction boot arbitrary: s)
  case Nil
  then show ?case by simp
next
  case (Cons b boot)
  obtain used rpub where b: "b = (used, rpub)" by (cases b)
  show ?case
  proof (cases used)
    case False
    with Cons b show ?thesis by simp
  next
    case True
    then obtain s1 where ms: "map_service c rpub s = (OK, s1)"
      and rest: "map_boot_services c boot s1 = Some s'"
      using Cons.prems(1) b by (auto split: prod.splits if_splits)
    have new: "de_key d \<noteq> fst rpub" if "d \<in> set (ds_store s)" "in_use c (de_flags d)" for d
      using Cons.prems(4) [OF that] True b by simp
    have step: "table_ok c (ds_store s1)"
      "\<And>d. d \<in> set (ds_store s1) \<Longrightarrow> in_use c (de_flags d) \<Longrightarrow>
        de_key d = fst rpub \<or> d \<in> set (ds_store s)"
      using map_service_table [OF ok Cons.prems(2) ms] new by blast+
    show ?thesis
    proof (rule Cons.IH [OF rest])
      show "table_ok c (ds_store s1)" by (rule step(1))
      show "distinct (map (fst \<circ> snd) (filter fst boot))"
        using Cons.prems(3) True b by (simp add: comp_def)
      fix d
      assume d: "d \<in> set (ds_store s1)" "in_use c (de_flags d)"
      have "fst rpub \<notin> set (map (fst \<circ> snd) (filter fst boot))"
        using Cons.prems(3) True b by (simp add: comp_def)
      moreover have "de_key d' \<notin> set (map (fst \<circ> snd) (filter fst boot))"
        if "d' \<in> set (ds_store s)" "in_use c (de_flags d')" for d'
        using Cons.prems(4) [OF that] True b by simp
      ultimately show "de_key d \<notin> set (map (fst \<circ> snd) (filter fst boot))"
        using step(2) [OF d] d(2) by metis
    qed
  qed
qed

text \<open>The states of the server: what start-up produces, and what requests make of it.\<close>

inductive ds_reach :: "ds_conf \<Rightarrow> ds_state \<Rightarrow> bool" for c where
  start: "ds_init_fresh c (OK, boot) s0 = Some s \<Longrightarrow>
     distinct (map (fst \<circ> snd) (filter fst boot)) \<Longrightarrow> ds_reach c s"
| request: "ds_reach c s \<Longrightarrow> ds_main_step c e m s = Some s' \<Longrightarrow> ds_reach c s'"

lemma ds_main_step_cases:
  assumes "ds_main_step c e m s = Some s'"
  obtains r m' s1 where "ds_dispatch c e m s = Some (r, m', s1)"
    "ds_store s' = ds_store s1" "ds_subs s' = ds_subs s1" "ds_heap s' = ds_heap s1"
  using assms by (auto simp: ds_main_step_def log_event_sel split: option.splits if_splits)

lemma ds_init_table:
  assumes ok: "ds_flags_ok c" and "ds_init_fresh c (r, boot) s0 = Some s"
    and "distinct (map (fst \<circ> snd) (filter fst boot))"
  shows "table_ok c (ds_store s)"
proof (rule map_boot_services_table [OF ok _ _ assms(3)])
  let ?s0 = "s0\<lparr>ds_store := map (\<lambda>d. d\<lparr>de_flags := 0\<rparr>) (ds_store s0),
    ds_subs := map (\<lambda>p. p\<lparr>su_flags := 0\<rparr>) (ds_subs s0)\<rparr>"
  show "map_boot_services c boot ?s0 = Some s"
    using assms(2) by (auto simp: ds_init_fresh_def split: if_splits)
  show "table_ok c (ds_store ?s0)"
    by (auto simp: table_ok_def keys_unique_def list_all_iff entry_typed_def)
qed auto

lemma ds_reach_table:
  assumes ok: "ds_flags_ok c"
  shows "ds_reach c s \<Longrightarrow> table_ok c (ds_store s)"
proof (induction rule: ds_reach.induct)
  case (start boot s0 s)
  then show ?case using ds_init_table [OF ok] by blast
next
  case (request s e m s')
  from request.hyps(2) obtain r m' s1 where
    "ds_dispatch c e m s = Some (r, m', s1)" "ds_store s' = ds_store s1"
    by (rule ds_main_step_cases)
  with ds_dispatch_table [OF ok request.IH] show ?case by simp
qed

end
