(* ===== verification/DsHeap.thy ===== *)
theory DsHeap
  imports DsTyped
begin

text \<open>
  The heap of the data store: every block an entry refers to is allocated, belongs to that entry
  alone and has the size the entry records, as long as no overwriting publish fails half-way.
\<close>

unbundle bit_operations_syntax

section \<open>The heap invariant\<close>

text \<open>The blocks an entry owns, and what must hold of them.\<close>

fun blocks :: "ds_value \<Rightarrow> nat list" where
  "blocks (VU32 w) = []"
| "blocks (VMem a l rl) = [a]"
| "blocks (VMap a l real snaps sx) = real # map the (take (nat (sx + 1)) snaps)"

fun sized :: "(nat \<Rightarrow> char list option) \<Rightarrow> ds_value \<Rightarrow> bool" where
  "sized h (VU32 w) \<longleftrightarrow> True"
| "sized h (VMem a l rl) \<longleftrightarrow> l \<le> rl \<and> (\<exists>bs. h a = Some bs \<and> length bs = rl)"
| "sized h (VMap a l real snaps sx) \<longleftrightarrow>
     h real \<noteq> None \<and>
     list_all (\<lambda>b. \<exists>bs. h (the b) = Some bs \<and> length bs = l) (take (nat (sx + 1)) snaps)"

definition value_live :: "(nat \<Rightarrow> char list option) \<Rightarrow> ds_value \<Rightarrow> bool" where
  "value_live h v \<longleftrightarrow> sized h v \<and> distinct (blocks v) \<and> 0 \<notin> set (blocks v)"

definition entry_blocks :: "ds_conf \<Rightarrow> data_store \<Rightarrow> nat set" where
  "entry_blocks c d = (if in_use c (de_flags d) then set (blocks (de_u d)) else {})"

definition heap_ok :: "ds_conf \<Rightarrow> ds_state \<Rightarrow> bool" where
  "heap_ok c s \<longleftrightarrow>
     (\<forall>i < length (ds_store s). in_use c (de_flags (ds_store s ! i)) \<longrightarrow>
        value_live (ds_heap s) (de_u (ds_store s ! i))) \<and>
     (\<forall>i < length (ds_store s). \<forall>j < length (ds_store s). i \<noteq> j \<longrightarrow>
        entry_blocks c (ds_store s ! i) \<inter> entry_blocks c (ds_store s ! j) = {})"

lemma heap_okD:
  assumes "heap_ok c s" "i < length (ds_store s)" "in_use c (de_flags (ds_store s ! i))"
  shows "value_live (ds_heap s) (de_u (ds_store s ! i))"
  using assms by (simp add: heap_ok_def)

lemma heap_ok_disjoint:
  assumes "heap_ok c s" "i < length (ds_store s)" "j < length (ds_store s)" "i \<noteq> j"
  shows "entry_blocks c (ds_store s ! i) \<inter> entry_blocks c (ds_store s ! j) = {}"
  using assms by (simp add: heap_ok_def)

lemma sized_blocks: "sized h v \<Longrightarrow> a \<in> set (blocks v) \<Longrightarrow> h a \<noteq> None"
  by (cases v) (auto simp: list_all_iff)

lemma sized_cong: "(\<And>a. a \<in> set (blocks v) \<Longrightarrow> h' a = h a) \<Longrightarrow> sized h v \<Longrightarrow> sized h' v"
  by (cases v) (auto simp: list_all_iff)

lemma value_live_cong:
  "(\<And>a. a \<in> set (blocks v) \<Longrightarrow> h' a = h a) \<Longrightarrow> value_live h v \<Longrightarrow> value_live h' v"
  using sized_cong by (auto simp: value_live_def)

text \<open>One entry and its blocks change.\<close>

lemma heap_ok_step:
  assumes ok: "heap_ok c s" and i: "i < length (ds_store s)"
    and st: "ds_store s' = (ds_store s)[i := d]"
    and live: "in_use c (de_flags d) \<Longrightarrow> value_live (ds_heap s') (de_u d)"
    and others: "\<And>j a. j < length (ds_store s) \<Longrightarrow> j \<noteq> i \<Longrightarrow> a \<in> entry_blocks c (ds_store s ! j) \<Longrightarrow>
      ds_heap s' a = ds_heap s a \<and> a \<notin> entry_blocks c d"
  shows "heap_ok c s'"
  unfolding heap_ok_def
proof (intro conjI allI impI)
  fix j
  assume j: "j < length (ds_store s')" "in_use c (de_flags (ds_store s' ! j))"
  show "value_live (ds_heap s') (de_u (ds_store s' ! j))"
  proof (cases "j = i")
    case True
    with live i st j show ?thesis by simp
  next
    case False
    with j st have j': "j < length (ds_store s)" "in_use c (de_flags (ds_store s ! j))"
      by simp_all
    with others [OF j'(1) False] show ?thesis
      using heap_okD [OF ok j'] st False
      by (auto simp: entry_blocks_def elim!: value_live_cong [rotated])
  qed
next
  fix j k
  assume jk: "j < length (ds_store s')" "k < length (ds_store s')" "j \<noteq> k"
  then have jk': "j < length (ds_store s)" "k < length (ds_store s)" using st by simp_all
  show "entry_blocks c (ds_store s' ! j) \<inter> entry_blocks c (ds_store s' ! k) = {}"
  proof (cases "j = i")
    case True
    with jk jk' others [of k] st i show ?thesis by auto
  next
    case False
    show ?thesis
    proof (cases "k = i")
      case True
      with False jk jk' others [of j] st i show ?thesis by auto
    next
      case ki: False
      with False heap_ok_disjoint [OF ok jk' jk(3)] st show ?thesis by simp
    qed
  qed
qed

lemma heap_ok_same:
  assumes "heap_ok c s" "ds_store s' = ds_store s" "ds_heap s' = ds_heap s"
  shows "heap_ok c s'"
  using assms by (simp add: heap_ok_def)

section \<open>Allocation\<close>

text \<open>The documented behaviour of \<^verbatim>\<open>malloc\<close>: a block that is handed out was free.\<close>

definition malloc_ok :: "ds_conf \<Rightarrow> bool" where
  "malloc_ok c \<longleftrightarrow> (\<forall>h n. case malloc_at c h n of None \<Rightarrow> True | Some a \<Rightarrow> a \<noteq> 0 \<and> h a = None)"

lemma alloc_fresh:
  assumes "malloc_ok c" "alloc_block c n s = Some (a, s')"
  shows "a \<noteq> 0" "ds_heap s a = None"
  using assms(1) alloc_block_sel(5) [OF assms(2)]
  by (auto simp: malloc_ok_def split: option.splits dest: spec)

lemma alloc_not_owned:
  assumes "malloc_ok c" "alloc_block c n s = Some (a, s')" "heap_ok c s"
    "j < length (ds_store s)"
  shows "a \<notin> entry_blocks c (ds_store s ! j)"
  using alloc_fresh [OF assms(1,2)] heap_okD [OF assms(3,4)]
  by (auto simp: entry_blocks_def value_live_def dest: sized_blocks)

lemma free_owned:
  assumes "value_live (ds_heap s) v" "a \<in> set (blocks v)"
  shows "free_block a s = Some (s\<lparr>ds_heap := (ds_heap s)(a := None)\<rparr>)" "a \<noteq> 0"
proof -
  show "a \<noteq> 0" using assms by (metis value_live_def)
  with assms show "free_block a s = Some (s\<lparr>ds_heap := (ds_heap s)(a := None)\<rparr>)"
    by (auto simp: free_block_def value_live_def dest: sized_blocks)
qed

section \<open>Publishing a memory value\<close>

text \<open>The allocation that a request may need, as a condition on the state before it.\<close>

definition buffer_available :: "ds_conf \<Rightarrow> nat \<Rightarrow> nat \<Rightarrow> ds_state \<Rightarrow> bool" where
  "buffer_available c i len s =
     (let d = ds_store s ! i in
      if \<not> in_use c (de_flags d) then malloc_at c (ds_heap s) len \<noteq> None
      else case de_u d of
             VMem a l rl \<Rightarrow> len \<le> rl \<or> malloc_at c ((ds_heap s)(a := None)) len \<noteq> None
           | _ \<Rightarrow> False)"

lemma mem_buffer_ok:
  assumes mk: "malloc_ok c" and ok: "heap_ok c s" and i: "i < length (ds_store s)"
    and av: "buffer_available c i len s"
  obtains a l rl s1 bs where
    "mem_buffer c i len s = Some (True, s1)"
    "ds_store s1 = (ds_store s)[i := (ds_store s ! i)\<lparr>de_u := VMem a l rl\<rparr>]"
    "ds_heap s1 a = Some bs" "length bs = rl" "len \<le> rl" "a \<noteq> 0"
    "\<And>j b. j < length (ds_store s) \<Longrightarrow> j \<noteq> i \<Longrightarrow> b \<in> entry_blocks c (ds_store s ! j) \<Longrightarrow>
       ds_heap s1 b = ds_heap s b \<and> b \<noteq> a"
proof -
  let ?d = "ds_store s ! i"
  show thesis
  proof (cases "in_use c (de_flags ?d)")
    case False
    with av obtain a where "malloc_at c (ds_heap s) len = Some a"
      by (auto simp: buffer_available_def)
    then obtain s0 where al: "alloc_block c len s = Some (a, s0)"
      by (simp add: alloc_block_def)
    note sel = alloc_block_sel [OF al]
    show thesis
    proof (rule that [of "put_value i (VMem a 0 len) s0" a 0 len "replicate len NUL"])
      show "mem_buffer c i len s = Some (True, put_value i (VMem a 0 len) s0)"
        using False al by (simp add: mem_buffer_def)
      fix j b
      assume "j < length (ds_store s)" "j \<noteq> i" "b \<in> entry_blocks c (ds_store s ! j)"
      with alloc_not_owned [OF mk al ok] have "b \<noteq> a" by blast
      with sel show "ds_heap (put_value i (VMem a 0 len) s0) b = ds_heap s b \<and> b \<noteq> a"
        by (simp add: ds_frame)
    qed (use sel alloc_fresh [OF mk al] in \<open>simp_all add: ds_frame\<close>)
  next
    case used: True
    with av obtain a l rl where u: "de_u ?d = VMem a l rl"
      by (auto simp: buffer_available_def Let_def split: ds_value.splits)
    from heap_okD [OF ok i used] u have live: "value_live (ds_heap s) (VMem a l rl)" by simp
    have mine: "entry_blocks c ?d = {a}" using used u by (simp add: entry_blocks_def)
    have notmine: "b \<noteq> a" if "j < length (ds_store s)" "j \<noteq> i" "b \<in> entry_blocks c (ds_store s ! j)"
      for j b
      using heap_ok_disjoint [OF ok that(1) i that(2)] that(3) mine by blast
    show thesis
    proof (cases "len \<le> rl")
      case True
      from live obtain bs where bs: "ds_heap s a = Some bs" "length bs = rl" "a \<noteq> 0"
        by (auto simp: value_live_def)
      show thesis
      proof (rule that [of s a l rl bs])
        show "mem_buffer c i len s = Some (True, s)"
          using used u True by (simp add: mem_buffer_def)
        show "ds_store s = (ds_store s)[i := ?d\<lparr>de_u := VMem a l rl\<rparr>]"
          using u by (metis data_store.surjective data_store.update_convs(4) list_update_id)
      qed (use bs True notmine in auto)
    next
      case False
      note fr = free_owned [OF live, of a, simplified]
      let ?s1 = "s\<lparr>ds_heap := (ds_heap s)(a := None)\<rparr>"
      from av used u False obtain b where "malloc_at c (ds_heap ?s1) len = Some b"
        by (auto simp: buffer_available_def)
      then obtain s2 where al: "alloc_block c len ?s1 = Some (b, s2)"
        by (simp add: alloc_block_def)
      note sel = alloc_block_sel [OF al]
      show thesis
      proof (rule that [of "put_value i (VMem b l len) s2" b l len "replicate len NUL"])
        show "mem_buffer c i len s = Some (True, put_value i (VMem b l len) s2)"
          using used u False al fr by (simp add: mem_buffer_def)
        fix j x
        assume jx: "j < length (ds_store s)" "j \<noteq> i" "x \<in> entry_blocks c (ds_store s ! j)"
        then have "x \<noteq> a" by (rule notmine)
        moreover have "ds_heap s x \<noteq> None"
          using jx heap_okD [OF ok jx(1)] sized_blocks
          by (auto simp: entry_blocks_def value_live_def split: if_splits)
        ultimately have "x \<noteq> b" using alloc_fresh(2) [OF mk al] by auto
        with \<open>x \<noteq> a\<close> sel
        show "ds_heap (put_value i (VMem b l len) s2) x = ds_heap s x \<and> x \<noteq> b"
          by (simp add: ds_frame)
      qed (use sel alloc_fresh [OF mk al] in \<open>simp_all add: ds_frame\<close>)
    qed
  qed
qed

text \<open>The bytes a string or memory entry holds after the copy.\<close>

definition mem_content :: "ds_conf \<Rightarrow> ds_env \<Rightarrow> ds_msg \<Rightarrow> char list" where
  "mem_content c e m =
     (let len = unat (dm_val_len m); bs = take len (snd (e_val e)) in
      if dm_flags m AND DSF_TYPE_STR c \<noteq> 0 then bs[len - 1 := NUL] else bs)"

definition same_others :: "ds_conf \<Rightarrow> nat \<Rightarrow> ds_state \<Rightarrow> ds_state \<Rightarrow> bool" where
  "same_others c i s s' \<longleftrightarrow>
     (\<forall>j < length (ds_store s). j \<noteq> i \<longrightarrow>
        (\<forall>b \<in> entry_blocks c (ds_store s ! j). ds_heap s' b = ds_heap s b))"

lemma same_othersI:
  "(\<And>j b. j < length (ds_store s) \<Longrightarrow> j \<noteq> i \<Longrightarrow> b \<in> entry_blocks c (ds_store s ! j) \<Longrightarrow>
      ds_heap s' b = ds_heap s b) \<Longrightarrow> same_others c i s s'"
  by (simp add: same_others_def)

definition mem_stored :: "ds_conf \<Rightarrow> ds_env \<Rightarrow> ds_msg \<Rightarrow> nat \<Rightarrow> nat \<Rightarrow> ds_state \<Rightarrow> ds_state \<Rightarrow> bool" where
  "mem_stored c e m i a s s' \<longleftrightarrow>
     (\<exists>rl bs. ds_store s' = (ds_store s)
            [i := (ds_store s ! i)\<lparr>de_u := VMem a (unat (dm_val_len m)) rl\<rparr>] \<and>
        ds_heap s' a = Some bs \<and> length bs = rl \<and> unat (dm_val_len m) \<le> rl \<and> a \<noteq> 0 \<and>
        (unat (dm_val_len m) \<le> length (snd (e_val e)) \<longrightarrow>
           take (unat (dm_val_len m)) bs = mem_content c e m)) \<and>
     (\<forall>j < length (ds_store s). j \<noteq> i \<longrightarrow> a \<notin> entry_blocks c (ds_store s ! j)) \<and>
     same_others c i s s'"

lemma store_mem_ok:
  assumes mk: "malloc_ok c" and ok: "heap_ok c s" and i: "i < length (ds_store s)"
    and av: "buffer_available c i (unat (dm_val_len m)) s" and copy: "fst (e_val e) = OK"
    and ne: "dm_flags m AND DSF_TYPE_STR c \<noteq> 0 \<Longrightarrow> dm_val_len m \<noteq> 0"
  obtains s' a where "store_mem c e m i s = Some (OK, s')" "mem_stored c e m i a s s'"
proof -
  let ?len = "unat (dm_val_len m)"
  let ?bs = "take ?len (snd (e_val e))"
  obtain a l rl s1 bs where mb: "mem_buffer c i ?len s = Some (True, s1)"
    and st1: "ds_store s1 = (ds_store s)[i := (ds_store s ! i)\<lparr>de_u := VMem a l rl\<rparr>]"
    and bs: "ds_heap s1 a = Some bs" "length bs = rl" "?len \<le> rl" "a \<noteq> 0"
    and oth: "\<And>j b. j < length (ds_store s) \<Longrightarrow> j \<noteq> i \<Longrightarrow> b \<in> entry_blocks c (ds_store s ! j) \<Longrightarrow>
       ds_heap s1 b = ds_heap s b \<and> b \<noteq> a"
    by (rule mem_buffer_ok [OF mk ok i av]) blast
  from st1 i have u: "de_u (ds_store s1 ! i) = VMem a l rl" by simp
  define s2 where "s2 = s1\<lparr>ds_heap := (ds_heap s1)(a \<mapsto> ?bs @ drop (length ?bs) bs)\<rparr>"
  have w: "write_block a ?bs s1 = Some s2"
    using bs by (auto simp: write_block_def s2_def)
  define s3 where "s3 = put_value i (VMem a ?len rl) s2"
  have st3: "ds_store s3 = (ds_store s)[i := (ds_store s ! i)\<lparr>de_u := VMem a ?len rl\<rparr>]"
    "ds_heap s3 a = Some (?bs @ drop (length ?bs) bs)"
    "\<And>b. b \<noteq> a \<Longrightarrow> ds_heap s3 b = ds_heap s1 b"
    using st1 i by (simp_all add: s3_def s2_def ds_frame)
  have len3: "length (?bs @ drop (length ?bs) bs) = rl" using bs by simp
  have run: "store_mem c e m i s =
      (if dm_flags m AND DSF_TYPE_STR c \<noteq> 0 then map_option (Pair OK) (poke_block a (?len - 1) NUL s3)
       else Some (OK, s3))"
    using mb u copy w ne by (simp add: store_mem_def s3_def Let_def unat_eq_0)
  show thesis
  proof (cases "dm_flags m AND DSF_TYPE_STR c = 0")
    case True
    have "take ?len (?bs @ drop (length ?bs) bs) = ?bs" if "?len \<le> length (snd (e_val e))"
      using that by simp
    with True st3 len3 bs oth have "mem_stored c e m i a s s3"
      by (auto simp: mem_stored_def same_others_def mem_content_def)
    with run True that show thesis by simp
  next
    case False
    with ne have "0 < ?len" by (simp add: unat_gt_0)
    then have lt: "?len - 1 < rl" using bs by simp
    define bs4 where "bs4 = (?bs @ drop (length ?bs) bs)[?len - 1 := NUL]"
    define s4 where "s4 = s3\<lparr>ds_heap := (ds_heap s3)(a \<mapsto> bs4)\<rparr>"
    have "poke_block a (?len - 1) NUL s3 = Some s4"
      using st3(2) len3 lt by (simp add: poke_block_def s4_def bs4_def)
    moreover have "mem_stored c e m i a s s4"
      unfolding mem_stored_def
    proof (intro conjI exI [of _ rl] exI [of _ bs4])
      show "length bs4 = rl" using len3 by (simp add: bs4_def)
      show "?len \<le> length (snd (e_val e)) \<longrightarrow> take ?len bs4 = mem_content c e m"
        using False \<open>0 < ?len\<close> by (simp add: bs4_def mem_content_def take_update_swap Let_def)
      show "same_others c i s s4"
        using st3(3) oth by (auto simp: same_others_def s4_def)
    qed (use st3 bs oth in \<open>auto simp: s4_def\<close>)
    ultimately show thesis using run False that by simp
  qed
qed

text \<open>The failures that only concern a slot that is not in use.\<close>

lemma store_mem_fresh_fails:
  assumes mk: "malloc_ok c" and ok: "heap_ok c s" and i: "i < length (ds_store s)"
    and free: "\<not> in_use c (de_flags (ds_store s ! i))"
    and bad: "malloc_at c (ds_heap s) (unat (dm_val_len m)) = None \<or> fst (e_val e) \<noteq> OK"
  obtains r s' v where "store_mem c e m i s = Some (r, s')" "r \<noteq> OK"
    "ds_store s' = (ds_store s)[i := (ds_store s ! i)\<lparr>de_u := v\<rparr>]" "same_others c i s s'"
proof (cases "malloc_at c (ds_heap s) (unat (dm_val_len m))")
  case None
  then have "alloc_block c (unat (dm_val_len m)) s = None" by (simp add: alloc_block_def)
  with free have "store_mem c e m i s = Some (ENOMEM, put_value i (VMem 0 0 0) s)"
    by (simp add: store_mem_def mem_buffer_def)
  then show thesis by (rule that) (simp_all add: ds_frame same_others_def)
next
  case (Some a)
  then obtain s1 where al: "alloc_block c (unat (dm_val_len m)) s = Some (a, s1)"
    by (simp add: alloc_block_def)
  from Some bad have copy: "fst (e_val e) \<noteq> OK" by simp
  note sel = alloc_block_sel [OF al]
  let ?s2 = "put_value i (VMem a 0 (unat (dm_val_len m))) s1"
  let ?s3 = "?s2\<lparr>ds_heap := (ds_heap ?s2)(a := None)\<rparr>"
  have "free_block a ?s2 = Some ?s3"
    using sel alloc_fresh [OF mk al] by (simp add: free_block_def ds_frame)
  with free al copy i sel have "store_mem c e m i s = Some (fst (e_val e), ?s3)"
    by (simp add: store_mem_def mem_buffer_def ds_frame Let_def)
  then show thesis
    using copy
  proof (rule that)
    show "same_others c i s ?s3"
    proof (rule same_othersI)
      fix j b
      assume "j < length (ds_store s)" "j \<noteq> i" "b \<in> entry_blocks c (ds_store s ! j)"
      with alloc_not_owned [OF mk al ok] have "b \<noteq> a" by blast
      with sel show "ds_heap ?s3 b = ds_heap s b" by (simp add: ds_frame)
    qed
  qed (use sel in \<open>simp add: ds_frame\<close>)
qed

end
