(* ===== verification/DsSpec.thy ===== *)
theory DsSpec
  imports DsHeap
begin

text \<open>
  What the data store promises: a map from types and keys to owned values.  The abstraction reads
  the table through its own lookup; the lemmas below say how replacing one entry, or clearing
  several, changes the map.
\<close>

unbundle bit_operations_syntax

section \<open>The abstract store\<close>

datatype abs_value =
    AWord "32 word"
  | ABytes "char list"
  | AMapped nat "char list list"

type_synonym abs_store = "32 word \<times> string \<Rightarrow> (32 word \<times> string \<times> abs_value) option"

fun value_abs :: "(nat \<Rightarrow> char list option) \<Rightarrow> ds_value \<Rightarrow> abs_value" where
  "value_abs h (VU32 w) = AWord w"
| "value_abs h (VMem a l rl) = ABytes (take l (the (h a)))"
| "value_abs h (VMap a l real snaps sx) =
     AMapped l (map (\<lambda>b. the (h (the b))) (take (nat (sx + 1)) snaps))"

definition entry_abs :: "(nat \<Rightarrow> char list option) \<Rightarrow> data_store \<Rightarrow> 32 word \<times> string \<times> abs_value"
where
  "entry_abs h d = (de_flags d, de_owner d, value_abs h (de_u d))"

definition store_abs :: "ds_conf \<Rightarrow> ds_state \<Rightarrow> abs_store" where
  "store_abs c s = (\<lambda>(t, k).
     if t \<in> set (ds_types c)
     then map_option (\<lambda>i. entry_abs (ds_heap s) (ds_store s ! i)) (lookup_entry c s k t)
     else None)"

definition names :: "ds_conf \<Rightarrow> data_store \<Rightarrow> 32 word \<times> string \<Rightarrow> bool" where
  "names c d x \<longleftrightarrow> in_use c (de_flags d) \<and> (etype c d, de_key d) = x"

lemma value_abs_cong:
  "(\<And>a. a \<in> set (blocks v) \<Longrightarrow> h' a = h a) \<Longrightarrow> value_abs h' v = value_abs h v"
  by (cases v) (auto intro!: map_cong)

lemma entry_abs_cong:
  assumes "in_use c (de_flags d)" "\<And>a. a \<in> entry_blocks c d \<Longrightarrow> h' a = h a"
  shows "entry_abs h' d = entry_abs h d"
  using assms by (auto simp: entry_abs_def entry_blocks_def intro: value_abs_cong)

lemma lookup_iff:
  assumes ok: "ds_flags_ok c" and t: "table_ok c (ds_store s)" and ty: "ty \<in> set (ds_types c)"
  shows "lookup_entry c s k ty = Some i \<longleftrightarrow> i < length (ds_store s) \<and> names c (ds_store s ! i) (ty, k)"
proof -
  have bit: "de_flags (ds_store s ! j) AND ty \<noteq> 0 \<longleftrightarrow> etype c (ds_store s ! j) = ty"
    if "j < length (ds_store s)" "in_use c (de_flags (ds_store s ! j))" for j
    using type_bit [OF ok _ ty] table_okD(1) [OF t that] by (simp add: etype_def)
  show ?thesis
  proof
    assume "lookup_entry c s k ty = Some i"
    with bit lookup_entryD [OF this] show "i < length (ds_store s) \<and> names c (ds_store s ! i) (ty, k)"
      by (simp add: names_def)
  next
    assume i: "i < length (ds_store s) \<and> names c (ds_store s ! i) (ty, k)"
    show "lookup_entry c s k ty = Some i"
      unfolding lookup_entry_def
    proof (rule first_idx_unique)
      show "i < length (ds_store s)" using i ..
      with i bit show "in_use c (de_flags (ds_store s ! i)) \<and> de_flags (ds_store s ! i) AND ty \<noteq> 0 \<and>
          de_key (ds_store s ! i) = k"
        by (simp add: names_def)
      fix j
      assume "j < length (ds_store s)" "in_use c (de_flags (ds_store s ! j)) \<and>
          de_flags (ds_store s ! j) AND ty \<noteq> 0 \<and> de_key (ds_store s ! j) = k"
      with i bit t show "j = i" by (auto simp: names_def table_ok_def keys_unique_def)
    qed
  qed
qed

lemma store_abs_hit:
  assumes ok: "ds_flags_ok c" and t: "table_ok c (ds_store s)"
    and i: "i < length (ds_store s)" "names c (ds_store s ! i) x"
  shows "store_abs c s x = Some (entry_abs (ds_heap s) (ds_store s ! i))"
proof -
  obtain ty k where x: "x = (ty, k)" by (cases x)
  with i table_okD(1) [OF t i(1)] have "ty \<in> set (ds_types c)" by (auto simp: names_def)
  with lookup_iff [OF ok t this, of k i] i x show ?thesis by (simp add: store_abs_def)
qed

lemma store_abs_miss:
  assumes ok: "ds_flags_ok c" and t: "table_ok c (ds_store s)"
    and i: "\<And>i. i < length (ds_store s) \<Longrightarrow> \<not> names c (ds_store s ! i) x"
  shows "store_abs c s x = None"
proof -
  obtain ty k where x: "x = (ty, k)" by (cases x)
  show ?thesis
  proof (cases "ty \<in> set (ds_types c)")
    case True
    with lookup_iff [OF ok t this, of k] i x have "lookup_entry c s k ty = None"
      by (cases "lookup_entry c s k ty") auto
    with x show ?thesis by (simp add: store_abs_def)
  qed (simp add: store_abs_def x)
qed

lemma store_abs_cases:
  assumes ok: "ds_flags_ok c" and t: "table_ok c (ds_store s)"
  obtains (hit) i where "i < length (ds_store s)" "names c (ds_store s ! i) x"
      "store_abs c s x = Some (entry_abs (ds_heap s) (ds_store s ! i))"
    | (miss) "\<And>i. i < length (ds_store s) \<Longrightarrow> \<not> names c (ds_store s ! i) x"
      "store_abs c s x = None"
  using store_abs_hit [OF ok t] store_abs_miss [OF ok t] by metis

section \<open>How the map changes\<close>

definition drop_named :: "ds_conf \<Rightarrow> data_store \<Rightarrow> abs_store \<Rightarrow> abs_store" where
  "drop_named c d A = (\<lambda>x. if names c d x then None else A x)"

definition add_named :: "ds_conf \<Rightarrow> (nat \<Rightarrow> char list option) \<Rightarrow> data_store \<Rightarrow> abs_store \<Rightarrow> abs_store"
where
  "add_named c h d A = (\<lambda>x. if names c d x then Some (entry_abs h d) else A x)"

lemma store_abs_replace:
  assumes ok: "ds_flags_ok c" and t: "table_ok c (ds_store s)" "table_ok c (ds_store s')"
    and i: "i < length (ds_store s)" and st: "ds_store s' = (ds_store s)[i := d]"
    and oth: "same_others c i s s'"
  shows "store_abs c s' = add_named c (ds_heap s') d (drop_named c (ds_store s ! i) (store_abs c s))"
proof
  fix x
  have keep: "entry_abs (ds_heap s') (ds_store s' ! j) = entry_abs (ds_heap s) (ds_store s ! j)"
    if "j < length (ds_store s)" "j \<noteq> i" "names c (ds_store s ! j) x" for j
    using oth that st by (auto simp: same_others_def names_def intro!: entry_abs_cong)
  have uniq: "j = k" if "j < length (ds_store s)" "k < length (ds_store s)"
    "names c (ds_store s ! j) x" "names c (ds_store s ! k) x" for j k
    using t(1) that by (auto simp: table_ok_def keys_unique_def names_def)
  show "store_abs c s' x =
      add_named c (ds_heap s') d (drop_named c (ds_store s ! i) (store_abs c s)) x"
    using ok t(2)
  proof (cases rule: store_abs_cases [where x = x])
    case (hit j)
    show ?thesis
    proof (cases "j = i")
      case True
      with hit st i show ?thesis by (simp add: add_named_def)
    next
      case False
      with hit st have j: "j < length (ds_store s)" "names c (ds_store s ! j) x" by simp_all
      have "\<not> names c (ds_store s ! i) x" using uniq [OF j(1) i j(2)] False by blast
      moreover have "\<not> names c d x"
      proof
        assume "names c d x"
        with hit(1,2) st i False t(2) show False
          by (auto simp: table_ok_def keys_unique_def names_def)
      qed
      ultimately show ?thesis
        using hit(3) keep [OF j(1) False j(2)] store_abs_hit [OF ok t(1) j]
        by (simp add: add_named_def drop_named_def)
    qed
  next
    case miss
    have "\<not> names c d x" using miss(1) [of i] st i by simp
    moreover have "names c (ds_store s ! i) x \<or> store_abs c s x = None"
      using ok t(1)
    proof (cases rule: store_abs_cases [where x = x])
      case (hit j)
      have "j = i"
      proof (rule ccontr)
        assume "j \<noteq> i"
        with hit st have "names c (ds_store s' ! j) x" "j < length (ds_store s')" by simp_all
        with miss(1) show False by blast
      qed
      with hit show ?thesis by simp
    qed simp
    ultimately show ?thesis
      using miss(2) by (auto simp: add_named_def drop_named_def)
  qed
qed

lemma store_abs_same:
  "ds_store s' = ds_store s \<Longrightarrow> ds_heap s' = ds_heap s \<Longrightarrow> store_abs c s' = store_abs c s"
  unfolding store_abs_def lookup_entry_def by (simp only:)

lemma named_unused [simp]:
  "\<not> in_use c (de_flags d) \<Longrightarrow> drop_named c d A = A"
  "\<not> in_use c (de_flags d) \<Longrightarrow> add_named c h d A = A"
  by (simp_all add: drop_named_def add_named_def names_def)

lemma add_named_upd:
  "in_use c (de_flags d) \<Longrightarrow>
     add_named c h d A = A((etype c d, de_key d) \<mapsto> entry_abs h d)"
  by (auto simp: add_named_def names_def)

lemma drop_named_upd:
  "in_use c (de_flags d) \<Longrightarrow> drop_named c d A = A((etype c d, de_key d) := None)"
  by (auto simp: drop_named_def names_def)

text \<open>Clearing every entry that satisfies a condition.\<close>

lemma store_abs_clear:
  assumes ok: "ds_flags_ok c" and t: "table_ok c (ds_store s)"
    and st: "ds_store s' = map (\<lambda>d. if P d then d\<lparr>de_flags := 0\<rparr> else d) (ds_store s)"
    and h: "ds_heap s' = ds_heap s"
    and P: "\<And>d. P d \<Longrightarrow> in_use c (de_flags d) \<and> Q (entry_abs (ds_heap s) d)"
    and Q: "\<And>d. in_use c (de_flags d) \<Longrightarrow> Q (entry_abs (ds_heap s) d) \<Longrightarrow> P d"
  shows "store_abs c s' x = (case store_abs c s x of None \<Rightarrow> None
           | Some y \<Rightarrow> if Q y then None else Some y)"
proof -
  have t': "table_ok c (ds_store s')" unfolding st by (rule table_ok_map_clear [OF t])
  show ?thesis
    using ok t
  proof (cases rule: store_abs_cases [where x = x])
    case (hit i)
    show ?thesis
    proof (cases "P (ds_store s ! i)")
      case False
      have i': "i < length (ds_store s')" "names c (ds_store s' ! i) x"
        using hit False st by simp_all
      from False Q hit(2) have "\<not> Q (entry_abs (ds_heap s) (ds_store s ! i))"
        by (auto simp: names_def)
      with store_abs_hit [OF ok t' i'] hit False st h show ?thesis by simp
    next
      case True
      have "store_abs c s' x = None"
      proof (rule store_abs_miss [OF ok t'])
        fix j
        assume j: "j < length (ds_store s')"
        show "\<not> names c (ds_store s' ! j) x"
        proof (cases "j = i")
          case False
          with j hit st t show ?thesis
            by (auto simp: names_def table_ok_def keys_unique_def)
        qed (use True j st in \<open>simp add: names_def\<close>)
      qed
      with P [OF True] hit show ?thesis by simp
    qed
  next
    case miss
    have "store_abs c s' x = None"
      using st miss(1) by (intro store_abs_miss [OF ok t']) (auto simp: names_def)
    with miss show ?thesis by simp
  qed
qed

end
