(* ===== verification/DsRefine.thy ===== *)
theory DsRefine
  imports DsSpec
begin

text \<open>
  Every request the data store serves does to its table what the abstract store prescribes, keeps
  the heap consistent and does not crash, as long as no overwriting publish fails half-way.  The
  last part shows what happens when one does, and the other requests that bring the server down.
\<close>

unbundle bit_operations_syntax

section \<open>Publishing\<close>

definition value_stored :: "ds_conf \<Rightarrow> ds_env \<Rightarrow> ds_msg \<Rightarrow> abs_value" where
  "value_stored c e m =
     (let ty = dm_flags m AND DSF_MASK_TYPE c in
      if ty = DSF_TYPE_U32 c \<or> ty = DSF_TYPE_LABEL c then AWord (dm_val m)
      else if ty = DSF_TYPE_STR c \<or> ty = DSF_TYPE_MEM c then ABytes (mem_content c e m)
      else AMapped (unat (dm_val_len m)) [])"

text \<open>A request whose value fits: a string is not empty, and the value of an entry that is
  overwritten can be copied and stored.\<close>

definition value_fits :: "ds_conf \<Rightarrow> ds_env \<Rightarrow> ds_msg \<Rightarrow> nat \<Rightarrow> ds_state \<Rightarrow> bool" where
  "value_fits c e m i s \<longleftrightarrow>
     (let ty = dm_flags m AND DSF_MASK_TYPE c in
      (ty = DSF_TYPE_STR c \<longrightarrow> dm_val_len m \<noteq> 0) \<and>
      (ty = DSF_TYPE_STR c \<or> ty = DSF_TYPE_MEM c \<longrightarrow> in_use c (de_flags (ds_store s ! i)) \<longrightarrow>
         fst (e_val e) = OK \<and> buffer_available c i (unat (dm_val_len m)) s))"

definition publish_fits :: "ds_conf \<Rightarrow> ds_env \<Rightarrow> ds_msg \<Rightarrow> ds_state \<Rightarrow> bool" where
  "publish_fits c e m s \<longleftrightarrow>
     (case get_key_name c e m (e_stack e) of
        Inl r \<Rightarrow> True
      | Inr buf \<Rightarrow>
          (case publish_slot c m (c_string buf) s of
             Inl r \<Rightarrow> True
           | Inr i \<Rightarrow> value_fits c e m i s))"

definition copy_complete :: "ds_env \<Rightarrow> ds_msg \<Rightarrow> bool" where
  "copy_complete e m \<longleftrightarrow> (fst (e_val e) = OK \<longrightarrow> unat (dm_val_len m) \<le> length (snd (e_val e)))"

text \<open>The outcomes of the switch on a slot.\<close>

definition value_kept :: "ds_conf \<Rightarrow> nat \<Rightarrow> ds_state \<Rightarrow> ds_state \<Rightarrow> bool" where
  "value_kept c i s s' \<longleftrightarrow>
     (\<exists>v. ds_store s' = (ds_store s)[i := (ds_store s ! i)\<lparr>de_u := v\<rparr>] \<and>
          (in_use c (de_flags (ds_store s ! i)) \<longrightarrow>
             v = de_u (ds_store s ! i) \<and>
             (\<forall>a \<in> set (blocks v). ds_heap s' a = ds_heap s a))) \<and>
     same_others c i s s'"

definition value_placed :: "ds_conf \<Rightarrow> ds_env \<Rightarrow> ds_msg \<Rightarrow> nat \<Rightarrow> ds_value \<Rightarrow> ds_state \<Rightarrow> ds_state \<Rightarrow> bool"
where
  "value_placed c e m i v s s' \<longleftrightarrow>
     ds_store s' = (ds_store s)[i := (ds_store s ! i)\<lparr>de_u := v\<rparr>] \<and>
     dm_flags m AND DSF_MASK_TYPE c \<in> set (ds_types c) \<and>
     value_live (ds_heap s') v \<and>
     (\<forall>j < length (ds_store s). j \<noteq> i \<longrightarrow> set (blocks v) \<inter> entry_blocks c (ds_store s ! j) = {}) \<and>
     (copy_complete e m \<longrightarrow> value_abs (ds_heap s') v = value_stored c e m) \<and>
     same_others c i s s'"

lemma same_others_refl: "ds_heap s' = ds_heap s \<Longrightarrow> same_others c i s s'"
  by (simp add: same_others_def)

lemma value_kept_refl: "value_kept c i s s"
  unfolding value_kept_def by (intro conjI exI [of _ "de_u (ds_store s ! i)"])
    (simp_all add: same_others_def)

lemma store_mem_outcome:
  assumes fl: "ds_flags_ok c" and mk: "malloc_ok c" and ok: "heap_ok c s"
    and i: "i < length (ds_store s)" and fits: "value_fits c e m i s"
    and ty: "dm_flags m AND DSF_MASK_TYPE c \<in> {DSF_TYPE_STR c, DSF_TYPE_MEM c}"
  obtains s' v where "store_mem c e m i s = Some (OK, s')" "value_placed c e m i v s s'"
    | r s' where "store_mem c e m i s = Some (r, s')" "r \<noteq> OK" "value_kept c i s s'"
      "\<not> in_use c (de_flags (ds_store s ! i))"
proof -
  note placed = that(1)
  have t: "dm_flags m AND DSF_MASK_TYPE c \<in> set (ds_types c)" using ty types_mem by auto
  have str: "dm_flags m AND DSF_TYPE_STR c \<noteq> 0 \<longleftrightarrow> dm_flags m AND DSF_MASK_TYPE c = DSF_TYPE_STR c"
    by (rule type_bit [OF fl t types_mem(2)])
  have ne: "dm_val_len m \<noteq> 0" if "dm_flags m AND DSF_TYPE_STR c \<noteq> 0"
    using that fits str by (simp add: value_fits_def)
  have ty': "dm_flags m AND DSF_MASK_TYPE c \<noteq> DSF_TYPE_U32 c"
    "dm_flags m AND DSF_MASK_TYPE c \<noteq> DSF_TYPE_LABEL c"
    using ty types_neq [OF fl] by auto
  have good: thesis if av: "buffer_available c i (unat (dm_val_len m)) s" and cp: "fst (e_val e) = OK"
  proof -
    obtain s' a where run: "store_mem c e m i s = Some (OK, s')" and ms: "mem_stored c e m i a s s'"
      by (rule store_mem_ok [OF mk ok i av cp ne])
    from ms obtain rl bs where b: "ds_store s' = (ds_store s)
            [i := (ds_store s ! i)\<lparr>de_u := VMem a (unat (dm_val_len m)) rl\<rparr>]"
      "ds_heap s' a = Some bs" "length bs = rl" "unat (dm_val_len m) \<le> rl" "a \<noteq> 0"
      "unat (dm_val_len m) \<le> length (snd (e_val e)) \<longrightarrow>
           take (unat (dm_val_len m)) bs = mem_content c e m"
      unfolding mem_stored_def by blast
    have "value_placed c e m i (VMem a (unat (dm_val_len m)) rl) s s'"
      using b ms t ty ty' cp
      by (auto simp: value_placed_def value_live_def value_stored_def copy_complete_def Let_def
          mem_stored_def)
    with run show thesis by (rule placed)
  qed
  show thesis
  proof (cases "in_use c (de_flags (ds_store s ! i))")
    case True
    with fits ty good show thesis by (auto simp: value_fits_def Let_def)
  next
    case False
    show thesis
    proof (cases "malloc_at c (ds_heap s) (unat (dm_val_len m)) = None \<or> fst (e_val e) \<noteq> OK")
      case True
      obtain r s' v where "store_mem c e m i s = Some (r, s')" "r \<noteq> OK"
        "ds_store s' = (ds_store s)[i := (ds_store s ! i)\<lparr>de_u := v\<rparr>]" "same_others c i s s'"
        by (rule store_mem_fresh_fails [OF mk ok i False True])
      with False that(2) show thesis by (auto simp: value_kept_def)
    next
      case go: False
      with False have "buffer_available c i (unat (dm_val_len m)) s"
        by (simp add: buffer_available_def)
      with go good show thesis by blast
    qed
  qed
qed

lemma store_map_outcome:
  assumes fl: "ds_flags_ok c" and mk: "malloc_ok c" and ok: "heap_ok c s"
    and i: "i < length (ds_store s)" and ty: "dm_flags m AND DSF_MASK_TYPE c = DSF_TYPE_MAP c"
  obtains s' v where "store_map c e m i s = Some (OK, s')" "value_placed c e m i v s s'"
    | r s' where "store_map c e m i s = Some (r, s')" "r \<noteq> OK" "ds_store s' = ds_store s"
      "\<And>a. ds_heap s a \<noteq> None \<Longrightarrow> ds_heap s' a = ds_heap s a"
proof (cases "alloc_block c (unat (dm_val_len m + CLICK_SIZE c)) s")
  case None
  then have "store_map c e m i s = Some (ENOMEM, s)" by (simp add: store_map_def)
  then show thesis by (rule that(2)) simp_all
next
  case (Some x)
  then obtain a s1 where al: "alloc_block c (unat (dm_val_len m + CLICK_SIZE c)) s = Some (a, s1)"
    by (cases x) simp
  note sel = alloc_block_sel [OF al] and fresh = alloc_fresh [OF mk al]
  show thesis
  proof (cases "e_safemap e = OK")
    case False
    let ?s2 = "s1\<lparr>ds_heap := (ds_heap s1)(a := None)\<rparr>"
    have "store_map c e m i s = Some (e_safemap e, ?s2)"
      using al False sel fresh by (simp add: store_map_def free_block_def)
    then show thesis
      by (rule that(2)) (use False sel fresh in \<open>auto simp del: not_None_eq\<close>)
  next
    case True
    let ?v = "VMap (click_ceil c a) (unat (dm_val_len m)) a (replicate NR_DS_SNAPSHOT None) (- 1)"
    have "store_map c e m i s = Some (OK, put_value i ?v s1)"
      using al True by (simp add: store_map_def)
    moreover have "value_placed c e m i ?v s (put_value i ?v s1)"
      unfolding value_placed_def
    proof (intro conjI allI impI)
      show "dm_flags m AND DSF_MASK_TYPE c \<in> set (ds_types c)" using ty types_mem by simp
      show "value_abs (ds_heap (put_value i ?v s1)) ?v = value_stored c e m"
        using ty types_neq [OF fl] by (auto simp: value_stored_def)
      show "same_others c i s (put_value i ?v s1)"
      proof (rule same_othersI)
        fix j b
        assume "j < length (ds_store s)" "b \<in> entry_blocks c (ds_store s ! j)"
        with alloc_not_owned [OF mk al ok] have "b \<noteq> a" by blast
        with sel show "ds_heap (put_value i ?v s1) b = ds_heap s b" by (simp add: ds_frame)
      qed
    qed (use sel fresh alloc_not_owned [OF mk al ok] in \<open>auto simp: ds_frame value_live_def\<close>)
    ultimately show thesis by (rule that(1))
  qed
qed

lemma store_value_outcome:
  assumes fl: "ds_flags_ok c" and mk: "malloc_ok c" and ok: "heap_ok c s"
    and i: "i < length (ds_store s)" and fits: "value_fits c e m i s"
  obtains s' v where "store_value c e m i s = Some (OK, s')" "value_placed c e m i v s s'"
    | r s' where "store_value c e m i s = Some (r, s')" "r \<noteq> OK" "value_kept c i s s'"
proof -
  define ty where "ty = dm_flags m AND DSF_MASK_TYPE c"
  note ne = types_neq [OF fl]
  consider (u32) "ty \<in> {DSF_TYPE_U32 c, DSF_TYPE_LABEL c}" | (mem) "ty \<in> {DSF_TYPE_STR c, DSF_TYPE_MEM c}"
    | (mp) "ty = DSF_TYPE_MAP c" | (bad) "ty \<notin> set (ds_types c)"
    by (auto simp: ds_types_def)
  then show thesis
  proof cases
    case u32
    then have "store_value c e m i s = Some (OK, put_value i (VU32 (dm_val m)) s)"
      by (auto simp: store_value_def ty_def [symmetric])
    moreover have "value_placed c e m i (VU32 (dm_val m)) s (put_value i (VU32 (dm_val m)) s)"
      using u32 types_mem
      by (auto simp: value_placed_def ds_frame value_live_def value_stored_def ty_def [symmetric]
          same_others_def)
    ultimately show thesis by (rule that(1))
  next
    case mem
    then have eq: "store_value c e m i s = store_mem c e m i s"
      using ne by (auto simp: store_value_def ty_def [symmetric])
    from fl mk ok i fits mem [unfolded ty_def] show thesis
      by (rule store_mem_outcome) (use that eq in auto)
  next
    case mp
    then have eq: "store_value c e m i s = store_map c e m i s"
      using ne by (auto simp: store_value_def ty_def [symmetric])
    from fl mk ok i mp [unfolded ty_def] show thesis
    proof (rule store_map_outcome)
      fix r s'
      assume r: "store_map c e m i s = Some (r, s')" "r \<noteq> OK" and st: "ds_store s' = ds_store s"
        and hp: "\<And>a. ds_heap s a \<noteq> None \<Longrightarrow> ds_heap s' a = ds_heap s a"
      have owned: "ds_heap s a \<noteq> None" if "j < length (ds_store s)" "in_use c (de_flags (ds_store s ! j))"
        "a \<in> set (blocks (de_u (ds_store s ! j)))" for j a
        using heap_okD [OF ok that(1,2)] that(3) sized_blocks unfolding value_live_def by blast
      have "value_kept c i s s'"
        unfolding value_kept_def
      proof (intro conjI exI [of _ "de_u (ds_store s ! i)"] impI ballI)
        show "same_others c i s s'"
          by (rule same_othersI, rule hp) (auto simp: entry_blocks_def dest: owned split: if_splits)
      qed (use st hp owned [OF i] in auto)
      with r eq show thesis by (intro that(2)) simp_all
    qed (use that(1) eq in auto)
  next
    case bad
    then have "store_value c e m i s = Some (EINVAL, s)"
      by (auto simp: store_value_def ty_def [symmetric] ds_types_def)
    then show thesis by (rule that(2)) (simp_all add: value_kept_refl)
  qed
qed

lemma value_kept_ok:
  assumes fl: "ds_flags_ok c" and t: "table_ok c (ds_store s)" "table_ok c (ds_store s')"
    and ok: "heap_ok c s" and i: "i < length (ds_store s)" and vk: "value_kept c i s s'"
  shows "heap_ok c s'" "store_abs c s' = store_abs c s"
proof -
  let ?d = "ds_store s ! i"
  from vk obtain v where st: "ds_store s' = (ds_store s)[i := ?d\<lparr>de_u := v\<rparr>]"
    and used: "in_use c (de_flags ?d) \<longrightarrow> v = de_u ?d \<and>
             (\<forall>a \<in> set (blocks v). ds_heap s' a = ds_heap s a)"
    and oth: "same_others c i s s'"
    unfolding value_kept_def by blast
  have same: "?d\<lparr>de_u := v\<rparr> = ?d" if "in_use c (de_flags ?d)" using used that by simp
  show "heap_ok c s'"
  proof (rule heap_ok_step [OF ok i st])
    show "in_use c (de_flags (?d\<lparr>de_u := v\<rparr>)) \<Longrightarrow>
        value_live (ds_heap s') (de_u (?d\<lparr>de_u := v\<rparr>))"
      using heap_okD [OF ok i] used by (auto intro: value_live_cong)
    fix j a
    assume j: "j < length (ds_store s)" "j \<noteq> i" "a \<in> entry_blocks c (ds_store s ! j)"
    moreover have "a \<notin> entry_blocks c (?d\<lparr>de_u := v\<rparr>)"
      using heap_ok_disjoint [OF ok j(1) i j(2)] j(3) used
      by (auto simp: entry_blocks_def split: if_splits)
    ultimately show "ds_heap s' a = ds_heap s a \<and> a \<notin> entry_blocks c (?d\<lparr>de_u := v\<rparr>)"
      using oth by (simp add: same_others_def)
  qed
  note rep = store_abs_replace [OF fl t i st oth]
  show "store_abs c s' = store_abs c s"
  proof (cases "in_use c (de_flags ?d)")
    case False
    with rep show ?thesis by simp
  next
    case True
    have "entry_abs (ds_heap s') ?d = entry_abs (ds_heap s) ?d"
      using used True by (intro entry_abs_cong [OF True]) (simp add: entry_blocks_def)
    moreover have "store_abs c s x = Some (entry_abs (ds_heap s) ?d)" if "names c ?d x" for x
      by (rule store_abs_hit [OF fl t(1) i that])
    ultimately show ?thesis
      using rep same [OF True] by (auto simp: add_named_def drop_named_def fun_eq_iff)
  qed
qed

text \<open>The entry \<^verbatim>\<open>do_publish\<close> leaves in its slot.\<close>

definition published :: "ds_conf \<Rightarrow> ds_msg \<Rightarrow> string \<Rightarrow> string \<Rightarrow> ds_value \<Rightarrow> data_store" where
  "published c m k source v =
     \<lparr>de_flags = DSF_IN_USE c OR (dm_flags m AND DSF_MASK_INTERNAL c), de_key = k,
      de_owner = source, de_u = v\<rparr>"

lemma published_names:
  assumes "ds_flags_ok c"
  shows "in_use c (de_flags (published c m k source v))"
    "etype c (published c m k source v) = dm_flags m AND DSF_MASK_TYPE c"
    "de_key (published c m k source v) = k" "de_u (published c m k source v) = v"
  using fresh_flags [OF assms] by (simp_all add: published_def etype_def)

definition publish_effect ::
    "ds_conf \<Rightarrow> ds_env \<Rightarrow> ds_msg \<Rightarrow> string \<Rightarrow> string \<Rightarrow> abs_store \<Rightarrow> abs_store" where
  "publish_effect c e m source k A =
     A((dm_flags m AND DSF_MASK_TYPE c, k) \<mapsto>
         (DSF_IN_USE c OR (dm_flags m AND DSF_MASK_INTERNAL c), source, value_stored c e m))"

text \<open>An existing entry may be changed only on request, and only by its owner if it is private.\<close>

definition may_replace :: "ds_conf \<Rightarrow> ds_msg \<Rightarrow> string \<Rightarrow> 32 word \<times> string \<times> abs_value \<Rightarrow> bool" where
  "may_replace c m source x \<longleftrightarrow>
     dm_flags m AND DSF_OVERWRITE c \<noteq> 0 \<and> (fst x AND DSF_PRIV_OVERWRITE c = 0 \<or> fst (snd x) = source)"

definition may_overwrite :: "ds_conf \<Rightarrow> ds_msg \<Rightarrow> string \<Rightarrow> string \<Rightarrow> abs_store \<Rightarrow> bool" where
  "may_overwrite c m source k A \<longleftrightarrow>
     (case A (dm_flags m AND DSF_MASK_TYPE c, k) of None \<Rightarrow> True | Some x \<Rightarrow> may_replace c m source x)"

text \<open>
  Publishing a label binds its key like any other publish, if the key is bound already or no label has the number;
  otherwise a label with that number is renamed: its old key goes.  A process that renames its own label becomes its
  own owner under the new name.
\<close>

definition label_effect ::
    "ds_conf \<Rightarrow> ds_env \<Rightarrow> ds_msg \<Rightarrow> string \<Rightarrow> string \<Rightarrow> abs_store \<Rightarrow> abs_store \<Rightarrow> bool" where
  "label_effect c e m source k A A' \<longleftrightarrow>
     (let ty = dm_flags m AND DSF_MASK_TYPE c; numbered = (\<lambda>old x. A (ty, old) = Some x \<and> snd (snd x) = AWord (dm_val m)) in
      if A (ty, k) \<noteq> None \<or> (\<forall>old x. \<not> numbered old x)
      then may_overwrite c m source k A \<and> A' = publish_effect c e m source k A
      else (\<exists>old x. numbered old x \<and> may_replace c m source x \<and>
              A' = publish_effect c e m
                     (if dm_source m \<noteq> DS_PROC_NR c \<and> dm_val m = dm_source m then k else source) k
                     (A((ty, old) := None))))"

lemma placed_heap_ok:
  assumes ok: "heap_ok c s" and i: "i < length (ds_store s)" and vp: "value_placed c e m i v s s1"
    and st: "ds_store s' = (ds_store s)[i := d]" "de_u d = v" "ds_heap s' = ds_heap s1"
  shows "heap_ok c s'"
proof (rule heap_ok_step [OF ok i st(1)])
  show "value_live (ds_heap s') (de_u d)" using vp st by (simp add: value_placed_def)
  fix j a
  assume j: "j < length (ds_store s)" "j \<noteq> i" "a \<in> entry_blocks c (ds_store s ! j)"
  moreover have "a \<notin> set (blocks v)" using vp j unfolding value_placed_def by blast
  ultimately show "ds_heap s' a = ds_heap s a \<and> a \<notin> entry_blocks c d"
    using vp st by (auto simp: value_placed_def same_others_def entry_blocks_def)
qed

lemma do_publish_outcome:
  assumes fl: "ds_flags_ok c" and mk: "malloc_ok c" and t: "table_ok c (ds_store s)"
    and ok: "heap_ok c s" and fits: "publish_fits c e m s"
  obtains (unchanged) r s' where "do_publish c e m s = Some (r, m, s')" "r \<noteq> OK" "heap_ok c s'"
      "store_abs c s' = store_abs c s"
    | (stored) source buf i v s1 s' where
        "ds_getprocname c s (dm_source m) = Some source"
        "get_key_name c e m (e_stack e) = Inr buf" "publish_slot c m (c_string buf) s = Inr i"
        "value_placed c e m i v s s1" "do_publish c e m s = Some (OK, m, s')" "heap_ok c s'"
        "ds_store s' = (ds_store s)
           [i := published c m (c_string buf) (publish_owner c m (c_string buf) source i s) v]"
        "ds_heap s' = ds_heap s1"
proof (cases "do_publish c e m s")
  case None
  then obtain source buf i where b: "get_key_name c e m (e_stack e) = Inr buf"
    "publish_slot c m (c_string buf) s = Inr i" and n: "store_value c e m i s = None"
    by (auto simp: do_publish_def split: option.splits if_splits sum.splits)
  have "value_fits c e m i s" using fits b by (simp add: publish_fits_def)
  with fl mk ok publish_slot_length [OF b(2)] have "store_value c e m i s \<noteq> None"
    by (rule store_value_outcome) simp_all
  with n show thesis by simp
next
  case (Some x)
  then obtain r m' s' where run: "do_publish c e m s = Some (r, m', s')" by (cases x) auto
  note t' = do_publish_table [OF fl t run]
  from run show thesis
  proof (cases rule: do_publish_cases)
    case refused
    with run ok unchanged show thesis by simp
  next
    case (stored source buf i s1)
    note i = publish_slot_length [OF stored(3)]
    have vf: "value_fits c e m i s" using fits stored by (simp add: publish_fits_def)
    from fl mk ok i vf show thesis
    proof (rule store_value_outcome)
      fix s2 v
      assume sv: "store_value c e m i s = Some (OK, s2)" and vp: "value_placed c e m i v s s2"
      with stored have s': "s' = update_subscribers c i True
          (set_attributes c m (c_string buf) (publish_owner c m (c_string buf) source i s) i s2)" and r: "r = OK" and s1: "s2 = s1" by auto
      have "ds_store s' = (ds_store s)
          [i := published c m (c_string buf) (publish_owner c m (c_string buf) source i s) v]"
        using vp i by (cases "ds_store s ! i")
          (simp add: s' ds_frame set_attributes_def published_def value_placed_def)
      moreover have "ds_heap s' = ds_heap s2" by (simp add: s' ds_frame)
      moreover from placed_heap_ok [OF ok i vp calculation(1) _ this] have "heap_ok c s'"
        by (simp add: published_def)
      ultimately show thesis
        using that(2) stored(1-3) vp run r stored(5) by blast
    next
      fix r' s2
      assume sv: "store_value c e m i s = Some (r', s2)" "r' \<noteq> OK" and vk: "value_kept c i s s2"
      with stored have "s' = s2" "r = r'" by auto
      with value_kept_ok [OF fl t _ ok i vk] t' run sv stored(5) show thesis
        by (intro unchanged [of r s']) simp_all
    qed
  qed
qed

definition publish_result ::
    "ds_conf \<Rightarrow> ds_env \<Rightarrow> ds_msg \<Rightarrow> string \<Rightarrow> string \<Rightarrow> abs_store \<Rightarrow> abs_store \<Rightarrow> bool" where
  "publish_result c e m source k A A' \<longleftrightarrow>
     (if dm_flags m AND DSF_MASK_TYPE c = DSF_TYPE_LABEL c then label_effect c e m source k A A'
      else may_overwrite c m source k A \<and> A' = publish_effect c e m source k A)"

lemma label_bindI:
  fixes c m defines "ty \<equiv> dm_flags m AND DSF_MASK_TYPE c"
  assumes "A (ty, k) \<noteq> None \<or> (\<forall>old x. \<not> (A (ty, old) = Some x \<and> snd (snd x) = AWord (dm_val m)))"
    and "may_overwrite c m source k A" "A' = publish_effect c e m source k A"
  shows "label_effect c e m source k A A'"
  unfolding label_effect_def Let_def ty_def [symmetric] if_P [OF assms(2)] using assms(3,4) by blast

lemma label_renameI:
  fixes c m defines "ty \<equiv> dm_flags m AND DSF_MASK_TYPE c"
  assumes "A (ty, k) = None" "A (ty, old) = Some x" "snd (snd x) = AWord (dm_val m)" "may_replace c m source x"
    and "A' = publish_effect c e m (if dm_source m \<noteq> DS_PROC_NR c \<and> dm_val m = dm_source m then k else source) k
      (A((ty, old) := None))"
  shows "label_effect c e m source k A A'"
proof -
  have n: "\<not> (A (ty, k) \<noteq> None \<or> (\<forall>old x. \<not> (A (ty, old) = Some x \<and> snd (snd x) = AWord (dm_val m))))"
    using assms(2-4) by blast
  show ?thesis unfolding label_effect_def Let_def ty_def [symmetric] if_not_P [OF n] using assms(3-6) by blast
qed

lemma publish_owner_same:
  assumes "ds_getprocname c s (dm_source m) = Some source"
    and "de_key (ds_store s ! i) = k \<or> \<not> in_use c (de_flags (ds_store s ! i))"
  shows "publish_owner c m k source i s = source"
proof (cases "dm_source m \<noteq> DS_PROC_NR c \<and> lookup_label_entry c s (dm_source m) = Some i")
  case True
  then have "de_key (ds_store s ! i) = source" "in_use c (de_flags (ds_store s ! i))"
    using assms(1) lookup_label_entryD(2) by (auto simp: ds_getprocname_def)
  with assms(2) show ?thesis by (auto simp: publish_owner_def)
qed (auto simp: publish_owner_def)

lemma publish_owner_num:
  assumes "lookup_label_entry c s (dm_val m) = Some i"
  shows "publish_owner c m k source i s =
    (if dm_source m \<noteq> DS_PROC_NR c \<and> dm_val m = dm_source m then k else source)"
  using assms lookup_label_entryD(4) [OF assms] lookup_label_entryD(4) [of c s "dm_source m" i]
  by (auto simp: publish_owner_def)

lemma label_value:
  assumes t: "table_ok c (ds_store s)" and fl: "ds_flags_ok c"
    and j: "j < length (ds_store s)" "in_use c (de_flags (ds_store s ! j))" "etype c (ds_store s ! j) = DSF_TYPE_LABEL c"
  shows "value_abs h (de_u (ds_store s ! j)) = AWord (u32_of (de_u (ds_store s ! j)))"
  using table_okD(2) [OF t j(1,2)] types_neq [OF fl] j(3) by (cases "de_u (ds_store s ! j)") auto

text \<open>The slot belongs to the key, or it is renamed, or it is free.\<close>

lemma publish_slot_abs:
  fixes c :: ds_conf and m :: ds_msg
  defines "ty \<equiv> dm_flags m AND DSF_MASK_TYPE c"
  assumes fl: "ds_flags_ok c" and t: "table_ok c (ds_store s)"
    and src: "ds_getprocname c s (dm_source m) = Some source"
    and ps: "publish_slot c m k s = Inr i" and ty: "ty \<in> set (ds_types c)"
  obtains (bound) "names c (ds_store s ! i) (ty, k)" "may_overwrite c m source k (store_abs c s)"
      "store_abs c s (ty, k) \<noteq> None" "publish_owner c m k source i s = source"
    | (renamed) x where "ty = DSF_TYPE_LABEL c" "store_abs c s (ty, k) = None"
      "names c (ds_store s ! i) (ty, de_key (ds_store s ! i))"
      "store_abs c s (ty, de_key (ds_store s ! i)) = Some x" "snd (snd x) = AWord (dm_val m)" "may_replace c m source x"
      "publish_owner c m k source i s = (if dm_source m \<noteq> DS_PROC_NR c \<and> dm_val m = dm_source m then k else source)"
    | (fresh) "\<not> in_use c (de_flags (ds_store s ! i))" "store_abs c s (ty, k) = None"
      "\<And>old x. ty = DSF_TYPE_LABEL c \<Longrightarrow> store_abs c s (ty, old) = Some x \<Longrightarrow> snd (snd x) = AWord (dm_val m) \<Longrightarrow> False"
      "publish_owner c m k source i s = source"
  using ps
proof (cases rule: publish_slot_cases)
  case key
  from key(1) lookup_iff [OF fl t ty] have i: "i < length (ds_store s)" "names c (ds_store s ! i) (ty, k)"
    by (simp_all add: ty_def)
  note hit = store_abs_hit [OF fl t i]
  have "may_overwrite c m source k (store_abs c s)"
    using hit key(2,3) src by (auto simp: may_overwrite_def may_replace_def entry_abs_def check_auth_def ty_def)
  moreover have "publish_owner c m k source i s = source"
    using i(2) by (intro publish_owner_same [OF src]) (simp add: names_def)
  ultimately show thesis using bound i(2) hit by simp
next
  case num
  note D = lookup_label_entryD [OF num(3)]
  have lab: "ty = DSF_TYPE_LABEL c" using type_bit [OF fl ty [unfolded ty_def] types_mem(5)] num(2) by (simp add: ty_def)
  have et: "etype c (ds_store s ! i) = ty"
    using type_bit [OF fl _ types_mem(5), of "de_flags (ds_store s ! i)"] table_okD(1) [OF t D(1,2)] D(3) lab
    by (simp add: etype_def)
  have n: "names c (ds_store s ! i) (ty, de_key (ds_store s ! i))" using D(2) et by (simp add: names_def)
  note hit = store_abs_hit [OF fl t D(1) n]
  have "value_abs (ds_heap s) (de_u (ds_store s ! i)) = AWord (dm_val m)"
    using label_value [OF t fl D(1,2)] et lab D(4) by simp
  moreover have "store_abs c s (ty, k) = None" using num(1) ty by (simp add: store_abs_def ty_def)
  moreover have "may_replace c m source (entry_abs (ds_heap s) (ds_store s ! i))"
    using num(4,5) src by (auto simp: may_replace_def entry_abs_def check_auth_def)
  ultimately show thesis using renamed [OF lab _ n hit] publish_owner_num [OF num(3)] by (simp add: entry_abs_def)
next
  case fresh0: fresh
  have "False" if "ty = DSF_TYPE_LABEL c" "store_abs c s (ty, old) = Some x" "snd (snd x) = AWord (dm_val m)" for old x
    using fl t
  proof (cases rule: store_abs_cases [where x = "(ty, old)"])
    case (hit j)
    have j: "in_use c (de_flags (ds_store s ! j))" "etype c (ds_store s ! j) = DSF_TYPE_LABEL c"
      using hit(2) that(1) by (simp_all add: names_def)
    have "u32_of (de_u (ds_store s ! j)) = dm_val m"
      using label_value [OF t fl hit(1) j] hit(3) that(2,3) by (simp add: entry_abs_def)
    moreover have "de_flags (ds_store s ! j) AND DSF_TYPE_LABEL c \<noteq> 0"
      using type_bit [OF fl _ types_mem(5), of "de_flags (ds_store s ! j)"] j(2) types_mem(5) by (simp add: etype_def)
    moreover have "dm_flags m AND DSF_TYPE_LABEL c \<noteq> 0"
      using type_bit [OF fl ty [unfolded ty_def] types_mem(5)] that(1) by (simp add: ty_def)
    ultimately show False using fresh0(3) j(1) nth_mem [OF hit(1)] by (auto simp: lookup_label_entry_def first_idx_None_iff)
  qed (use that in simp)
  moreover from fresh0(1) ty have "store_abs c s (ty, k) = None" by (simp add: store_abs_def ty_def)
  moreover note u = alloc_data_slotD(2) [OF fresh0(2)]
  moreover have "publish_owner c m k source i s = source" using u by (intro publish_owner_same [OF src]) simp
  ultimately show thesis using fresh by blast
qed

lemma do_publish_refines:
  assumes fl: "ds_flags_ok c" and mk: "malloc_ok c" and t: "table_ok c (ds_store s)"
    and ok: "heap_ok c s" and fits: "publish_fits c e m s" and cp: "copy_complete e m"
    and run: "do_publish c e m s = Some (r, m', s')"
  shows "m' = m \<and> (if r = OK
     then \<exists>source buf. ds_getprocname c s (dm_source m) = Some source \<and>
            get_key_name c e m (e_stack e) = Inr buf \<and>
            publish_result c e m source (c_string buf) (store_abs c s) (store_abs c s')
     else store_abs c s' = store_abs c s)"
  using fl mk t ok fits
proof (cases rule: do_publish_outcome)
  case (unchanged r1 s1)
  with run show ?thesis by simp
next
  case (stored source buf i v s1 s2)
  with run have eq: "r = OK" "m' = m" "s' = s2" by simp_all
  let ?k = "c_string buf" and ?ty = "dm_flags m AND DSF_MASK_TYPE c" and ?A = "store_abs c s"
  let ?o = "publish_owner c m ?k source i s"
  let ?d = "published c m ?k ?o v"
  have ty: "?ty \<in> set (ds_types c)"
    and va: "value_abs (ds_heap s') v = value_stored c e m" and so: "same_others c i s s'"
    using stored(4,8) cp eq by (simp_all add: value_placed_def same_others_def)
  have "store_abs c s' = add_named c (ds_heap s') ?d (drop_named c (ds_store s ! i) ?A)"
    using store_abs_replace [OF fl t do_publish_table [OF fl t run] publish_slot_length [OF stored(3)] _ so]
      stored(7) eq by simp
  also have "\<dots> = publish_effect c e m ?o ?k (drop_named c (ds_store s ! i) ?A)"
    using va by (simp add: add_named_upd published_names [OF fl] publish_effect_def entry_abs_def)
      (simp add: published_def)
  finally have A: "store_abs c s' = publish_effect c e m ?o ?k (drop_named c (ds_store s ! i) ?A)" .
  have "publish_result c e m source ?k ?A (store_abs c s')"
    using fl t stored(1,3) ty
  proof (cases rule: publish_slot_abs)
    case bound
    then have "drop_named c (ds_store s ! i) ?A = ?A((?ty, ?k) := None)" by (auto simp: drop_named_upd names_def)
    then have e: "store_abs c s' = publish_effect c e m source ?k ?A" using A bound(4) by (simp add: publish_effect_def)
    have "label_effect c e m source ?k ?A (store_abs c s')" by (rule label_bindI [OF disjI1 [OF bound(3)] bound(2) e])
    then show ?thesis using bound(2) e by (simp add: publish_result_def)
  next
    case (renamed x)
    then have "drop_named c (ds_store s ! i) ?A = ?A((?ty, de_key (ds_store s ! i)) := None)"
      by (auto simp: drop_named_upd names_def)
    with A label_renameI [OF renamed(2,4-6)] renamed(1,7) show ?thesis unfolding publish_result_def by (simp only: if_True refl)
  next
    case fresh
    then have o: "may_overwrite c m source ?k ?A" by (simp add: may_overwrite_def)
    have e: "store_abs c s' = publish_effect c e m source ?k ?A" using A fresh(1,4) by simp
    show ?thesis
    proof (cases "?ty = DSF_TYPE_LABEL c")
      case True
      have "label_effect c e m source ?k ?A (store_abs c s')" by (rule label_bindI [OF _ o e]) (use fresh(3) True in blast)
      with True show ?thesis by (simp add: publish_result_def)
    qed (use o e in \<open>simp add: publish_result_def\<close>)
  qed
  with eq stored show ?thesis by auto
qed

section \<open>Retrieving\<close>

definition may_retrieve :: "ds_conf \<Rightarrow> 32 word \<Rightarrow> string option \<Rightarrow> 32 word \<times> string \<times> abs_value \<Rightarrow> bool"
where
  "may_retrieve c perm source x \<longleftrightarrow> (fst x AND perm = 0 \<or> source = Some (fst (snd x)))"

text \<open>What a successful retrieval of a word, string or memory entry returns.\<close>

fun retrieved :: "ds_msg \<Rightarrow> abs_value \<Rightarrow> ds_msg \<Rightarrow> ds_event list \<Rightarrow> bool" where
  "retrieved m (AWord w) m' evs \<longleftrightarrow> m' = m\<lparr>dm_val := w\<rparr> \<and> evs = []"
| "retrieved m (ABytes bs) m' evs \<longleftrightarrow>
     (let n = min (unat (dm_val_len m)) (length bs) in
      m' = m\<lparr>dm_val_len := word_of_nat n\<rparr> \<and> evs = [CopiedOut (dm_source m) (take n bs)])"
| "retrieved m (AMapped len snaps) m' evs \<longleftrightarrow> True"

lemma check_auth_retrieve:
  "check_auth c s d ep perm \<longleftrightarrow> may_retrieve c perm (ds_getprocname c s ep) (entry_abs h d)"
  by (simp add: check_auth_def may_retrieve_def entry_abs_def)

lemma read_live:
  assumes "sized h (VMem a l rl)" "n \<le> l" "ds_heap s = h"
  shows "read_block a n s = Some (take n (the (h a)))"
  using assms by (auto simp: read_block_def)

lemma snapshot_index_valid:
  assumes fl: "ds_flags_ok c" and v: "value_ok c t (VMap data len real snaps sx)"
    and ix: "\<not> check_snapshot_index (VMap data len real snaps sx) index"
  shows "nat (index mod int NR_DS_SNAPSHOT) = nat index" "nat index < nat (sx + 1)"
    "\<exists>a. snaps ! nat index = Some a \<and> Some a \<in> set (take (nat (sx + 1)) snaps)"
proof -
  from v ix have b: "0 \<le> index" "index \<le> sx" "sx < int NR_DS_SNAPSHOT" "length snaps = NR_DS_SNAPSHOT"
    by (auto simp: check_snapshot_index_def Let_def split: if_splits)
  then show "nat (index mod int NR_DS_SNAPSHOT) = nat index" "nat index < nat (sx + 1)"
    by simp_all
  then have n: "nat index < length (take (nat (sx + 1)) snaps)" using b by simp
  with v have "take (nat (sx + 1)) snaps ! nat index \<noteq> None" by (simp add: list_all_length)
  with n nth_mem [OF n] show "\<exists>a. snaps ! nat index = Some a \<and> Some a \<in> set (take (nat (sx + 1)) snaps)"
    by auto
qed

lemma get_key_name_Inl: "get_key_name c e m buf = Inl r \<Longrightarrow> r \<noteq> OK"
  by (auto simp: get_key_name_def Let_def split: if_splits)

lemma retrieve_map_total:
  assumes fl: "ds_flags_ok c" and v: "value_ok c (DSF_TYPE_MAP c) v" and live: "sized (ds_heap s) v"
  shows "retrieve_map c e m v s \<noteq> None"
proof -
  obtain data len real snaps sx where u: "v = VMap data len real snaps sx"
    using v types_neq [OF fl] by (cases v) auto
  let ?n = "min (unat (dm_val_len m)) len"
  have snap: "(case snaps ! nat (dm_nr_snapshot m mod int NR_DS_SNAPSHOT) of
        None \<Rightarrow> None | Some a \<Rightarrow> map_option (\<lambda>bs. copy_value e m ?n bs s) (read_block a ?n s)) \<noteq> None"
    if ix: "\<not> check_snapshot_index v (dm_nr_snapshot m)"
  proof -
    note V = snapshot_index_valid [OF fl v [unfolded u] ix [unfolded u]]
    from V(3) obtain a where a: "snaps ! nat (dm_nr_snapshot m) = Some a"
      "Some a \<in> set (take (nat (sx + 1)) snaps)" by blast
    with live u obtain bs where "ds_heap s a = Some bs" "length bs = len"
      by (auto simp: list_all_iff dest!: bspec [OF _ a(2)])
    with V(1) a show ?thesis by (simp add: read_block_def)
  qed
  show ?thesis
    using snap unfolding u retrieve_map_def
    by (auto simp: Let_def u simp del: not_None_eq split: option.split)
qed

lemma retrieve_value_total:
  assumes fl: "ds_flags_ok c" and v: "ty \<in> set (ds_types c) \<Longrightarrow> value_ok c ty v"
    and live: "sized (ds_heap s) v"
  shows "retrieve_value c e m ty v s \<noteq> None"
proof -
  consider (u32) "ty = DSF_TYPE_U32 c \<or> ty = DSF_TYPE_LABEL c"
    | (mem) "ty = DSF_TYPE_STR c \<or> ty = DSF_TYPE_MEM c" | (mp) "ty = DSF_TYPE_MAP c"
    | (bad) "ty \<notin> set (ds_types c)"
    by (auto simp: ds_types_def)
  then show ?thesis
  proof cases
    case u32
    then show ?thesis by (simp add: retrieve_value_def)
  next
    case mem
    with v types_mem have "value_ok c ty v" by auto
    with mem obtain a l rl where u: "v = VMem a l rl" using types_neq [OF fl] by (cases v) auto
    let ?n = "min (unat (dm_val_len m)) l"
    have "read_block a ?n s = Some (take ?n (the (ds_heap s a)))"
      by (rule read_live [OF live [unfolded u] _ refl]) simp
    with mem u show ?thesis
      by (cases "copy_value e m ?n (take ?n (the (ds_heap s a))) s")
        (simp add: retrieve_value_def Let_def)
  next
    case mp
    with v types_mem have "value_ok c (DSF_TYPE_MAP c) v" by auto
    from mp types_neq [OF fl] retrieve_map_total [OF fl this live] show ?thesis
      by (simp add: retrieve_value_def)
  next
    case bad
    then show ?thesis by (simp add: retrieve_value_def ds_types_def)
  qed
qed

lemma hit_value_ok:
  assumes fl: "ds_flags_ok c" and t: "table_ok c (ds_store s)"
    and hit: "lookup_entry c s k ty = Some i" and ty: "ty \<in> set (ds_types c)"
  shows "value_ok c ty (de_u (ds_store s ! i))"
proof -
  from hit lookup_iff [OF fl t ty] have i: "i < length (ds_store s)"
    and nm: "names c (ds_store s ! i) (ty, k)" by simp_all
  then show ?thesis using table_okD(2) [OF t i] by (auto simp: names_def)
qed

lemma do_retrieve_total:
  assumes fl: "ds_flags_ok c" and t: "table_ok c (ds_store s)" and ok: "heap_ok c s"
  shows "do_retrieve c e m s \<noteq> None"
proof (cases "get_key_name c e m (e_stack e)")
  case (Inl r)
  then show ?thesis by (simp add: do_retrieve_def)
next
  case (Inr buf)
  note key = this
  show ?thesis
  proof (cases "lookup_entry c s (c_string buf) (dm_flags m AND DSF_MASK_TYPE c)")
    case None
    with key show ?thesis by (simp add: do_retrieve_def)
  next
    case (Some i)
    note D = lookup_entryD [OF Some]
    from heap_okD [OF ok D(1,2)] have "sized (ds_heap s) (de_u (ds_store s ! i))"
      by (simp add: value_live_def)
    from retrieve_value_total [OF fl hit_value_ok [OF fl t Some] this] key Some show ?thesis
      by (simp add: do_retrieve_def Let_def)
  qed
qed

lemma retrieve_value_refines:
  assumes fl: "ds_flags_ok c" and v: "value_ok c ty v" and live: "sized (ds_heap s) v"
    and nm: "ty \<noteq> DSF_TYPE_MAP c" and run: "retrieve_value c e m ty v s = Some (OK, m', s')"
  shows "\<exists>evs. ds_log s' = ds_log s @ evs \<and> retrieved m (value_abs (ds_heap s) v) m' evs"
proof (cases v)
  case (VU32 w)
  with v run have "m' = m\<lparr>dm_val := w\<rparr>" "s' = s" by (auto simp: retrieve_value_def)
  with VU32 show ?thesis by simp
next
  case (VMem a l rl)
  let ?n = "min (unat (dm_val_len m)) l"
  from live VMem have sz: "sized (ds_heap s) (VMem a l rl)" by simp
  then have "l \<le> rl" "length (the (ds_heap s a)) = rl" by auto
  then have len: "length (take l (the (ds_heap s a))) = l" by simp
  have rb: "read_block a ?n s = Some (take ?n (the (ds_heap s a)))"
    by (rule read_live [OF sz _ refl]) simp
  have ty: "ty = DSF_TYPE_STR c \<or> ty = DSF_TYPE_MEM c" using VMem v by simp
  then have "\<not> (ty = DSF_TYPE_U32 c \<or> ty = DSF_TYPE_LABEL c)" using types_neq [OF fl] by auto
  with ty VMem run rb have "copy_value e m ?n (take ?n (the (ds_heap s a))) s = (OK, m', s')"
    by (simp add: retrieve_value_def Let_def)
  then have "m' = m\<lparr>dm_val_len := word_of_nat ?n\<rparr>"
    "ds_log s' = ds_log s @ [CopiedOut (dm_source m) (take ?n (the (ds_heap s a)))]"
    by (auto simp: copy_value_def copy_out_def ds_frame split: if_splits)
  moreover have "retrieved m (value_abs (ds_heap s) v) (m\<lparr>dm_val_len := word_of_nat ?n\<rparr>)
      [CopiedOut (dm_source m) (take ?n (the (ds_heap s a)))]"
    unfolding VMem value_abs.simps retrieved.simps Let_def len by simp
  ultimately show ?thesis by blast
next
  case (VMap data len real snaps sx)
  with v nm show ?thesis by simp
qed

lemma do_retrieve_refines:
  assumes fl: "ds_flags_ok c" and t: "table_ok c (ds_store s)" and ok: "heap_ok c s"
    and run: "do_retrieve c e m s = Some (OK, m', s')"
  shows "\<exists>buf x evs. get_key_name c e m (e_stack e) = Inr buf \<and>
     store_abs c s (dm_flags m AND DSF_MASK_TYPE c, c_string buf) = Some x \<and>
     may_retrieve c (DSF_PRIV_RETRIEVE c) (ds_getprocname c s (dm_source m)) x \<and>
     (dm_flags m AND DSF_MASK_TYPE c \<noteq> DSF_TYPE_MAP c \<longrightarrow>
        ds_log s' = ds_log s @ evs \<and> retrieved m (snd (snd x)) m' evs)"
proof -
  define ty where "ty = dm_flags m AND DSF_MASK_TYPE c"
  from run obtain buf i where key: "get_key_name c e m (e_stack e) = Inr buf"
    and hit: "lookup_entry c s (c_string buf) ty = Some i"
    and auth: "check_auth c s (ds_store s ! i) (dm_source m) (DSF_PRIV_RETRIEVE c)"
    and rv: "retrieve_value c e m ty (de_u (ds_store s ! i)) s = Some (OK, m', s')"
    using get_key_name_Inl [of c e m "e_stack e"]
    by (auto simp: do_retrieve_def Let_def ty_def split: sum.splits option.splits if_splits)
  have ty: "ty \<in> set (ds_types c)"
    using rv by (auto simp: retrieve_value_def ds_types_def split: if_splits)
  let ?d = "ds_store s ! i"
  have i: "i < length (ds_store s)" and nm: "names c ?d (ty, c_string buf)"
    using hit lookup_iff [OF fl t ty] by simp_all
  have live: "sized (ds_heap s) (de_u ?d)"
    using heap_okD [OF ok i] nm by (simp add: names_def value_live_def)
  have abs: "store_abs c s (ty, c_string buf) = Some (entry_abs (ds_heap s) ?d)"
    by (rule store_abs_hit [OF fl t i nm])
  have may: "may_retrieve c (DSF_PRIV_RETRIEVE c) (ds_getprocname c s (dm_source m))
      (entry_abs (ds_heap s) ?d)"
    using auth check_auth_retrieve by simp
  show ?thesis
  proof (cases "ty = DSF_TYPE_MAP c")
    case True
    with key abs may show ?thesis unfolding ty_def by (intro exI conjI) simp_all
  next
    case False
    from retrieve_value_refines [OF fl hit_value_ok [OF fl t hit ty] live False rv]
    obtain evs where "ds_log s' = ds_log s @ evs"
      "retrieved m (value_abs (ds_heap s) (de_u ?d)) m' evs" by blast
    with key abs may show ?thesis unfolding ty_def by (auto simp: entry_abs_def)
  qed
qed

lemma do_retrieve_missing:
  assumes "get_key_name c e m (e_stack e) = Inr buf"
    and "dm_flags m AND DSF_MASK_TYPE c \<in> set (ds_types c)"
    and "store_abs c s (dm_flags m AND DSF_MASK_TYPE c, c_string buf) = None"
  shows "do_retrieve c e m s = Some (ESRCH, m, s)"
  using assms by (simp add: do_retrieve_def store_abs_def)

section \<open>Deleting\<close>

lemma free_snapshots_ok:
  assumes "list_all (\<lambda>x. x \<noteq> None) xs" "distinct (map the xs)" "0 \<notin> set (map the xs)"
    and "\<And>a. a \<in> set (map the xs) \<Longrightarrow> ds_heap s a \<noteq> None"
  shows "free_snapshots xs s =
     Some (s\<lparr>ds_heap := (\<lambda>a. if a \<in> set (map the xs) then None else ds_heap s a)\<rparr>)"
  using assms
proof (induction xs arbitrary: s)
  case (Cons x xs)
  then obtain a where x: "x = Some a" by auto
  let ?s = "s\<lparr>ds_heap := (ds_heap s)(a := None)\<rparr>"
  have "free_block a s = Some ?s"
    using Cons.prems(3,4) x by (auto simp: free_block_def)
  moreover have "free_snapshots xs ?s =
      Some (?s\<lparr>ds_heap := (\<lambda>b. if b \<in> set (map the xs) then None else ds_heap ?s b)\<rparr>)"
  proof (rule Cons.IH)
    fix b
    assume "b \<in> set (map the xs)"
    with Cons.prems(2,4) x show "ds_heap ?s b \<noteq> None" by auto
  qed (use Cons.prems x in auto)
  ultimately show ?case
    using x by (auto simp: fun_eq_iff intro!: arg_cong [where f = "\<lambda>h. s\<lparr>ds_heap := h\<rparr>"])
qed simp

text \<open>Releasing an owned value frees exactly its blocks.\<close>

definition blocks_freed :: "ds_value \<Rightarrow> ds_state \<Rightarrow> ds_state \<Rightarrow> bool" where
  "blocks_freed v s s' \<longleftrightarrow>
     ds_store s' = ds_store s \<and>
     ds_heap s' = (\<lambda>a. if a \<in> set (blocks v) then None else ds_heap s a)"

lemma release_map_ok:
  assumes fl: "ds_flags_ok c" and v: "value_ok c (DSF_TYPE_MAP c) v" and live: "value_live (ds_heap s) v"
  obtains s' where "release_map e v s = Some (OK, s')" "blocks_freed v s s'"
    | "e_revmap e \<noteq> OK" "release_map e v s = Some (e_revmap e, s)"
proof -
  obtain data len real snaps sx where u: "v = VMap data len real snaps sx"
    using v types_neq [OF fl] by (cases v) auto
  show thesis
  proof (cases "e_revmap e = OK")
    case False
    with u that(2) show thesis by (simp add: release_map_def)
  next
    case True
    let ?xs = "take (nat (sx + 1)) snaps"
    from v u have top: "nat (min (int NR_DS_SNAPSHOT - 1) sx + 1) = nat (sx + 1)" by simp
    have hp: "ds_heap s a \<noteq> None" if "a \<in> set (blocks v)" for a
      using live that sized_blocks unfolding value_live_def by blast
    let ?s1 = "s\<lparr>ds_heap := (\<lambda>a. if a \<in> set (map the ?xs) then None else ds_heap s a)\<rparr>"
    have fs: "free_snapshots ?xs s = Some ?s1"
      using v u live hp by (intro free_snapshots_ok) (auto simp: value_live_def)
    let ?s2 = "?s1\<lparr>ds_heap := (ds_heap ?s1)(real := None)\<rparr>"
    have "free_block real ?s1 = Some ?s2"
      using u live hp [of real] by (auto simp: free_block_def value_live_def)
    with fs True u top have "release_map e v s = Some (OK, ?s2)" by (simp add: release_map_def)
    moreover have "blocks_freed v s ?s2" by (auto simp: blocks_freed_def u fun_eq_iff)
    ultimately show thesis by (rule that(1))
  qed
qed

lemma release_value_outcome:
  assumes fl: "ds_flags_ok c"
    and v: "ty \<in> set (ds_types c) \<Longrightarrow> value_ok c ty (de_u d)" and live: "value_live (ds_heap s) (de_u d)"
  obtains (freed) s' where "ty \<noteq> DSF_TYPE_LABEL c" "ty \<in> set (ds_types c)"
      "release_value c e ty d s = Some (OK, s')" "blocks_freed (de_u d) s s'"
    | (label) "ty = DSF_TYPE_LABEL c"
      "release_value c e ty d s = Some (OK, cleanup_label c (de_key d) s)"
    | (refused) r where "r \<noteq> OK" "release_value c e ty d s = Some (r, s)"
proof -
  note ne = types_neq [OF fl]
  consider (u32) "ty = DSF_TYPE_U32 c" | (lab) "ty = DSF_TYPE_LABEL c"
    | (mem) "ty = DSF_TYPE_STR c \<or> ty = DSF_TYPE_MEM c" | (mp) "ty = DSF_TYPE_MAP c"
    | (bad) "ty \<notin> set (ds_types c)"
    by (auto simp: ds_types_def)
  then show thesis
  proof cases
    case u32
    with v types_mem have "value_ok c (DSF_TYPE_U32 c) (de_u d)" by simp
    then obtain w where "de_u d = VU32 w" using ne by (cases "de_u d") auto
    with u32 ne types_mem show thesis
      by (intro freed [of s]) (simp_all add: release_value_def blocks_freed_def)
  next
    case lab
    with ne show thesis by (intro label) (simp_all add: release_value_def)
  next
    case mem
    with v types_mem have "value_ok c ty (de_u d)" by auto
    with mem obtain a l rl where u: "de_u d = VMem a l rl" using ne by (cases "de_u d") auto
    let ?s = "s\<lparr>ds_heap := (ds_heap s)(a := None)\<rparr>"
    have fb: "free_block a s = Some ?s" using free_owned(1) [OF live] u by simp
    have t: "ty \<noteq> DSF_TYPE_U32 c" "ty \<noteq> DSF_TYPE_LABEL c" "ty \<in> set (ds_types c)"
      using mem ne types_mem by auto
    then have "release_value c e ty d s = Some (OK, ?s)"
      using mem u fb by (simp add: release_value_def)
    moreover have "blocks_freed (de_u d) s ?s" by (auto simp: blocks_freed_def u)
    ultimately show thesis using t by (intro freed)
  next
    case mp
    with v types_mem have "value_ok c (DSF_TYPE_MAP c) (de_u d)" by simp
    from fl this live show thesis
      by (rule release_map_ok [where e = e])
        (use mp ne types_mem in \<open>auto simp: release_value_def intro: freed refused\<close>)
  next
    case bad
    then have "release_value c e ty d s = Some (EINVAL, s)" by (simp add: release_value_def ds_types_def)
    then show thesis by (rule refused [rotated]) simp
  qed
qed

text \<open>Clearing an entry whose blocks are gone.\<close>

lemma heap_ok_clear:
  assumes ok: "heap_ok c s" and i: "i < length (ds_store s)"
    and used: "in_use c (de_flags (ds_store s ! i))"
    and st: "ds_store s' = (ds_store s)[i := d\<lparr>de_flags := 0\<rparr>]"
    and hp: "\<And>a. a \<notin> set (blocks (de_u (ds_store s ! i))) \<Longrightarrow> ds_heap s' a = ds_heap s a"
  shows "heap_ok c s'" "same_others c i s s'"
proof -
  have keep: "ds_heap s' a = ds_heap s a"
    if "j < length (ds_store s)" "j \<noteq> i" "a \<in> entry_blocks c (ds_store s ! j)" for j a
    using heap_ok_disjoint [OF ok that(1) i that(2)] that(3) used
    by (intro hp) (auto simp: entry_blocks_def)
  then show "same_others c i s s'" by (simp add: same_others_def)
  show "heap_ok c s'"
    by (rule heap_ok_step [OF ok i st]) (use keep in \<open>auto simp: entry_blocks_def\<close>)
qed

lemma heap_ok_map_clear:
  assumes "heap_ok c s" "ds_store s' = map (\<lambda>d. if P d then d\<lparr>de_flags := 0\<rparr> else d) (ds_store s)"
    "ds_heap s' = ds_heap s"
  shows "heap_ok c s'"
proof -
  have sub: "entry_blocks c (ds_store s' ! j) \<subseteq> entry_blocks c (ds_store s ! j)"
    and used: "in_use c (de_flags (ds_store s' ! j)) \<Longrightarrow> in_use c (de_flags (ds_store s ! j)) \<and>
      de_u (ds_store s' ! j) = de_u (ds_store s ! j)"
    if "j < length (ds_store s)" for j
    using that assms(2) by (auto simp: entry_blocks_def split: if_splits)
  from assms(2) have len: "length (ds_store s') = length (ds_store s)" by simp
  show ?thesis
    unfolding heap_ok_def len
  proof (intro conjI allI impI)
    fix i
    assume "i < length (ds_store s)" "in_use c (de_flags (ds_store s' ! i))"
    with used [of i] heap_okD [OF assms(1), of i] assms(3)
    show "value_live (ds_heap s') (de_u (ds_store s' ! i))" by simp
  next
    fix i j
    assume "i < length (ds_store s)" "j < length (ds_store s)" "i \<noteq> j"
    with sub [of i] sub [of j] heap_ok_disjoint [OF assms(1), of i j]
    show "entry_blocks c (ds_store s' ! i) \<inter> entry_blocks c (ds_store s' ! j) = {}" by blast
  qed
qed

definition delete_effect :: "ds_conf \<Rightarrow> ds_msg \<Rightarrow> string \<Rightarrow> abs_store \<Rightarrow> abs_store" where
  "delete_effect c m k A =
     (let ty = dm_flags m AND DSF_MASK_TYPE c;
          A' = (if ty = DSF_TYPE_LABEL c
                then (\<lambda>x. case A x of None \<Rightarrow> None
                          | Some y \<Rightarrow> if fst (snd y) = k then None else Some y)
                else A)
      in A'((ty, k) := None))"

lemma do_delete_outcome:
  assumes fl: "ds_flags_ok c" and t: "table_ok c (ds_store s)" and ok: "heap_ok c s"
  obtains (unchanged) r where "do_delete c e m s = Some (r, m, s)" "r \<noteq> OK"
    | (deleted) source buf s' where
        "ds_getprocname c s (dm_source m) = Some source" "get_key_name c e m (e_stack e) = Inr buf"
        "do_delete c e m s = Some (OK, m, s')" "heap_ok c s'"
        "\<exists>f v. store_abs c s (dm_flags m AND DSF_MASK_TYPE c, c_string buf) = Some (f, source, v)"
        "store_abs c s' = delete_effect c m (c_string buf) (store_abs c s)"
proof (cases "ds_getprocname c s (dm_source m)")
  case None
  then show thesis by (intro unchanged) (auto simp: do_delete_def)
next
  case (Some source)
  note src = this
  define ty where "ty = dm_flags m AND DSF_MASK_TYPE c"
  show thesis
  proof (cases "get_key_name c e m (e_stack e)")
    case (Inl r)
    with get_key_name_Inl [OF this] src show thesis by (intro unchanged) (auto simp: do_delete_def)
  next
    case (Inr buf)
    note key = this
    show thesis
    proof (cases "lookup_entry c s (c_string buf) ty")
      case None
      with key src show thesis by (intro unchanged) (auto simp: do_delete_def ty_def)
    next
      case (Some i)
      note hit = this
      let ?d = "ds_store s ! i"
      show thesis
      proof (cases "de_owner ?d = source")
        case False
        with hit key src show thesis by (intro unchanged) (auto simp: do_delete_def ty_def)
      next
        case owner: True
        note D = lookup_entryD [OF hit]
        have run: "do_delete c e m s = (case release_value c e ty ?d s of
            None \<Rightarrow> None
          | Some (r, s1) \<Rightarrow> if r \<noteq> OK then Some (r, m, s1)
              else Some (OK, m, clear_entry i (update_subscribers c i False s1)))"
          using hit key src owner by (simp add: do_delete_def ty_def)
        have abs: "\<exists>f v. store_abs c s (ty, c_string buf) = Some (f, source, v)" if "ty \<in> set (ds_types c)"
          using lookup_iff [OF fl t that, of "c_string buf" i] hit owner
            store_abs_hit [OF fl t D(1), of "(ty, c_string buf)"]
          by (simp add: entry_abs_def)
        from fl hit_value_ok [OF fl t hit] heap_okD [OF ok D(1,2)] show thesis
        proof (rule release_value_outcome [where e = e])
          fix r
          assume "r \<noteq> OK" "release_value c e ty ?d s = Some (r, s)"
          with run show thesis by (intro unchanged) simp_all
        next
          fix s1
          assume nl: "ty \<noteq> DSF_TYPE_LABEL c" and ty: "ty \<in> set (ds_types c)"
            and rv: "release_value c e ty ?d s = Some (OK, s1)" and bf: "blocks_freed (de_u ?d) s s1"
          let ?s' = "clear_entry i (update_subscribers c i False s1)"
          from rv run have run': "do_delete c e m s = Some (OK, m, ?s')" by simp
          have st: "ds_store ?s' = (ds_store s)[i := ?d\<lparr>de_flags := 0\<rparr>]"
            using bf by (simp add: clear_entry_def ds_frame blocks_freed_def)
          have hp: "ds_heap ?s' a = ds_heap s a" if "a \<notin> set (blocks (de_u ?d))" for a
            using bf that by (simp add: clear_entry_def ds_frame blocks_freed_def)
          note cl = heap_ok_clear [OF ok D(1,2) st hp]
          have "store_abs c ?s' = drop_named c ?d (store_abs c s)"
            using store_abs_replace [OF fl t do_delete_table [OF t run'] D(1) st cl(2)] by simp
          also have "\<dots> = delete_effect c m (c_string buf) (store_abs c s)"
            using lookup_iff [OF fl t ty, of "c_string buf" i] hit nl D(2)
            by (simp add: drop_named_upd delete_effect_def ty_def [symmetric] names_def)
          finally show thesis
            using src key run' cl(1) abs [OF ty] by (intro deleted) (simp_all add: ty_def)
        next
          assume lab: "ty = DSF_TYPE_LABEL c"
            and rv: "release_value c e ty ?d s = Some (OK, cleanup_label c (de_key ?d) s)"
          let ?s1 = "cleanup_label c (de_key ?d) s"
          let ?s' = "clear_entry i (update_subscribers c i False ?s1)"
          from rv run have run': "do_delete c e m s = Some (OK, m, ?s')" by simp
          have ty: "ty \<in> set (ds_types c)" using lab types_mem by simp
          have nm: "names c ?d (ty, c_string buf)" using lookup_iff [OF fl t ty] hit by simp
          have kd: "de_key ?d = c_string buf" using nm by (simp add: names_def)
          have s1: "ds_store ?s1 = map (\<lambda>d. if in_use c (de_flags d) \<and> de_owner d = de_key ?d
              then d\<lparr>de_flags := 0\<rparr> else d) (ds_store s)" "ds_heap ?s1 = ds_heap s"
            by (simp_all add: cleanup_label_def)
          have t1: "table_ok c (ds_store ?s1)" unfolding s1(1) by (rule table_ok_map_clear [OF t])
          have ok1: "heap_ok c ?s1" by (rule heap_ok_map_clear [OF ok s1])
          have abs1: "store_abs c ?s1 x = (case store_abs c s x of None \<Rightarrow> None
              | Some y \<Rightarrow> if fst (snd y) = c_string buf then None else Some y)" for x
            by (rule store_abs_clear [OF fl t s1]) (simp_all add: entry_abs_def kd)
          have i1: "i < length (ds_store ?s1)" using D(1) s1 by simp
          have st: "ds_store ?s' = (ds_store ?s1)[i := (ds_store ?s1 ! i)\<lparr>de_flags := 0\<rparr>]"
            "ds_heap ?s' = ds_heap ?s1"
            by (simp_all add: clear_entry_def ds_frame)
          have so: "same_others c i ?s1 ?s'" by (rule same_others_refl [OF st(2)])
          have "heap_ok c ?s'"
            by (rule heap_ok_step [OF ok1 i1 st(1)]) (simp_all add: st(2) entry_blocks_def)
          moreover have "store_abs c ?s' = drop_named c (ds_store ?s1 ! i) (store_abs c ?s1)"
            using store_abs_replace [OF fl t1 do_delete_table [OF t run'] i1 st(1) so] by simp
          moreover have "drop_named c (ds_store ?s1 ! i) (store_abs c ?s1) =
              (store_abs c ?s1)((ty, c_string buf) := None)"
          proof (cases "in_use c (de_flags (ds_store ?s1 ! i))")
            case True
            then have "ds_store ?s1 ! i = ?d" using s1(1) D(1) by (auto split: if_splits)
            with True nm show ?thesis by (simp add: drop_named_upd names_def)
          next
            case False
            then have "de_owner ?d = de_key ?d" using s1(1) D(1,2) by (auto split: if_splits)
            then have "store_abs c ?s1 (ty, c_string buf) = None"
              using abs1 [of "(ty, c_string buf)"] store_abs_hit [OF fl t D(1) nm]
              by (simp add: entry_abs_def kd)
            with False show ?thesis by (simp add: fun_upd_idem)
          qed
          moreover have "(store_abs c ?s1)((ty, c_string buf) := None) =
              delete_effect c m (c_string buf) (store_abs c s)"
            using abs1 lab by (simp add: delete_effect_def ty_def [symmetric] fun_eq_iff)
          ultimately show thesis
            using src key run' abs [OF ty] by (intro deleted) (simp_all add: ty_def)
        qed
      qed
    qed
  qed
qed

section \<open>Snapshots and the other requests\<close>

definition snapshot_effect ::
    "ds_conf \<Rightarrow> ds_env \<Rightarrow> string \<Rightarrow> abs_store \<Rightarrow> abs_store \<Rightarrow> bool" where
  "snapshot_effect c e k A A' \<longleftrightarrow>
     (\<exists>f owner len snaps.
        A (DSF_TYPE_MAP c, k) = Some (f, owner, AMapped len snaps) \<and>
        (len \<le> length (e_mapped e) \<longrightarrow>
           A' = A((DSF_TYPE_MAP c, k) \<mapsto>
                   (f, owner, AMapped len (snaps @ [take len (e_mapped e)])))))"

lemma value_live_extend:
  assumes v: "value_live h (VMap data len real snaps sx)" and sx: "- 1 \<le> sx"
    and lt: "nat (sx + 1) < length snaps" and new: "h a = None" "a \<noteq> 0"
    and bs: "h' a = Some bs" "length bs = len" and oth: "\<And>b. b \<noteq> a \<Longrightarrow> h' b = h b"
  shows "value_live h' (VMap data len real (snaps[nat (sx + 1) := Some a]) (sx + 1))"
    "value_abs h' (VMap data len real (snaps[nat (sx + 1) := Some a]) (sx + 1)) =
       AMapped len (map (\<lambda>b. the (h (the b))) (take (nat (sx + 1)) snaps) @ [bs])"
    "blocks (VMap data len real (snaps[nat (sx + 1) := Some a]) (sx + 1)) =
       blocks (VMap data len real snaps sx) @ [a]"
proof -
  have n: "nat (2 + sx) = Suc (nat (sx + 1))" using sx by simp
  have tk: "take (nat (2 + sx)) (snaps[nat (sx + 1) := Some a]) =
      take (nat (sx + 1)) snaps @ [Some a]"
    using lt by (simp add: n take_Suc_conv_app_nth)
  have nota: "b \<noteq> a" if "b \<in> set (blocks (VMap data len real snaps sx))" for b
    using sized_blocks [OF _ that, of h] v new(1) by (auto simp only: value_live_def)
  then have na: "real \<noteq> a" "\<And>b. b \<in> set (take (nat (sx + 1)) snaps) \<Longrightarrow> the b \<noteq> a" by auto
  show "value_live h' (VMap data len real (snaps[nat (sx + 1) := Some a]) (sx + 1))"
    using v na new(2) bs oth by (auto simp: value_live_def tk list_all_iff image_iff)
  show "value_abs h' (VMap data len real (snaps[nat (sx + 1) := Some a]) (sx + 1)) =
       AMapped len (map (\<lambda>b. the (h (the b))) (take (nat (sx + 1)) snaps) @ [bs])"
    using na(2) bs oth by (simp add: tk)
  show "blocks (VMap data len real (snaps[nat (sx + 1) := Some a]) (sx + 1)) =
       blocks (VMap data len real snaps sx) @ [a]"
    by (simp add: tk)
qed

text \<open>The first five snapshots of an entry succeed or report that there is no memory.\<close>

definition snapshot_fits :: "ds_conf \<Rightarrow> ds_env \<Rightarrow> ds_msg \<Rightarrow> ds_state \<Rightarrow> bool" where
  "snapshot_fits c e m s \<longleftrightarrow>
     (case get_key_name c e m (e_stack e) of
        Inl r \<Rightarrow> True
      | Inr buf \<Rightarrow>
          (case lookup_entry c s (c_string buf) (DSF_TYPE_MAP c) of
             None \<Rightarrow> True
           | Some i \<Rightarrow> vp_sindex (de_u (ds_store s ! i)) < int NR_DS_SNAPSHOT - 1))"

lemma do_snapshot_outcome:
  assumes fl: "ds_flags_ok c" and mk: "malloc_ok c" and t: "table_ok c (ds_store s)"
    and ok: "heap_ok c s" and fits: "snapshot_fits c e m s"
  obtains (unchanged) r s' where "do_snapshot c e m s = Some (r, m, s')" "r \<noteq> OK" "heap_ok c s'"
      "store_abs c s' = store_abs c s"
    | (taken) buf m' s' where "get_key_name c e m (e_stack e) = Inr buf"
        "do_snapshot c e m s = Some (OK, m', s')" "heap_ok c s'"
        "snapshot_effect c e (c_string buf) (store_abs c s) (store_abs c s')"
proof (cases "get_key_name c e m (e_stack e)")
  case (Inl r)
  with get_key_name_Inl [OF this] ok show thesis
    by (intro unchanged [of r s]) (auto simp: do_snapshot_def)
next
  case (Inr buf)
  note key = this
  show thesis
  proof (cases "lookup_entry c s (c_string buf) (DSF_TYPE_MAP c)")
    case None
    with key ok show thesis by (intro unchanged [of ESRCH s]) (auto simp: do_snapshot_def)
  next
    case (Some i)
    note hit = this
    let ?d = "ds_store s ! i"
    note D = lookup_entryD [OF hit]
    from hit_value_ok [OF fl t hit types_mem(4)] obtain data len real snaps sx where
      u: "de_u ?d = VMap data len real snaps sx"
      using types_neq [OF fl] by (cases "de_u ?d") auto
    note v = hit_value_ok [OF fl t hit types_mem(4), unfolded u]
    note live = heap_okD [OF ok D(1,2), unfolded u]
    have sx: "- 1 \<le> sx" "sx + 1 < int NR_DS_SNAPSHOT" "length snaps = NR_DS_SNAPSHOT"
      using v fits key hit u by (simp_all add: snapshot_fits_def)
    then have lt: "nat (sx + 1) < length snaps" by simp
    have k: "nat ((sx + 1) mod int (DS_MAX_KEYLEN c)) = nat (sx + 1)" "sx + 1 < int (DS_MAX_KEYLEN c)"
      using fl sx by (simp_all add: ds_flags_ok_def)
    show thesis
    proof (cases "check_auth c s ?d (dm_source m) (DSF_PRIV_SNAPSHOT c)")
      case False
      with key hit ok show thesis by (intro unchanged [of EPERM s]) (auto simp: do_snapshot_def)
    next
      case auth: True
      show thesis
      proof (cases "alloc_block c len s")
        case None
        let ?v = "VMap data len real (snaps[nat (sx + 1) := Some 0]) sx"
        let ?s' = "put_value i ?v s"
        have run: "do_snapshot c e m s = Some (ENOMEM, m, ?s')"
          using key hit auth u k lt None by (simp add: do_snapshot_def Let_def)
        have bl: "blocks ?v = blocks (VMap data len real snaps sx)"
          "value_abs (ds_heap s) ?v = value_abs (ds_heap s) (VMap data len real snaps sx)"
          by simp_all
        have vl: "value_live (ds_heap s) ?v"
          using live by (simp add: value_live_def)
        have st: "ds_store ?s' = (ds_store s)[i := ?d\<lparr>de_u := ?v\<rparr>]" "ds_heap ?s' = ds_heap s"
          by (simp_all add: ds_frame)
        have hk: "heap_ok c ?s'"
        proof (rule heap_ok_step [OF ok D(1) st(1)])
          show "value_live (ds_heap ?s') (de_u (?d\<lparr>de_u := ?v\<rparr>))" using vl st by simp
          fix j a
          assume j: "j < length (ds_store s)" "j \<noteq> i" "a \<in> entry_blocks c (ds_store s ! j)"
          have "entry_blocks c (?d\<lparr>de_u := ?v\<rparr>) = entry_blocks c ?d"
            using bl(1) u by (simp add: entry_blocks_def)
          with heap_ok_disjoint [OF ok j(1) D(1) j(2)] j(3)
          show "ds_heap ?s' a = ds_heap s a \<and> a \<notin> entry_blocks c (?d\<lparr>de_u := ?v\<rparr>)"
            unfolding st(2) by blast
        qed
        have "store_abs c ?s' = add_named c (ds_heap s) (?d\<lparr>de_u := ?v\<rparr>)
            (drop_named c ?d (store_abs c s))"
          using store_abs_replace [OF fl t do_snapshot_table [OF fl t run] D(1) st(1)
              same_others_refl [OF st(2)]] st(2) by simp
        also have "\<dots> = store_abs c s"
          using store_abs_hit [OF fl t D(1)] bl(2) u
          by (auto simp: add_named_def drop_named_def names_def etype_def entry_abs_def fun_eq_iff)
        finally show thesis using run hk by (intro unchanged [of ENOMEM ?s']) simp_all
      next
        case (Some x)
        then obtain a s1 where al: "alloc_block c len s = Some (a, s1)" by (cases x) simp
        note sel = alloc_block_sel [OF al] and fresh = alloc_fresh [OF mk al]
        let ?bs = "take len (e_mapped e)"
        define bs where "bs = ?bs @ drop (length ?bs) (replicate len NUL)"
        let ?s2 = "s1\<lparr>ds_heap := (ds_heap s1)(a \<mapsto> bs)\<rparr>"
        have lbs: "length bs = len" by (simp add: bs_def)
        have w: "write_block a ?bs s1 = Some ?s2" using sel(4) by (simp add: write_block_def bs_def)
        let ?v = "VMap data len real (snaps[nat (sx + 1) := Some a]) (sx + 1)"
        let ?s' = "put_value i ?v ?s2"
        have run: "do_snapshot c e m s = Some (OK, m\<lparr>dm_nr_snapshot := sx + 1\<rparr>, ?s')"
          using key hit auth u k lt al w by (simp add: do_snapshot_def Let_def)
        have st: "ds_store ?s' = (ds_store s)[i := ?d\<lparr>de_u := ?v\<rparr>]"
          "ds_heap ?s' = (ds_heap s)(a \<mapsto> bs)"
          using sel by (simp_all add: ds_frame)
        have hp: "ds_heap ?s' a = Some bs" "\<And>b. b \<noteq> a \<Longrightarrow> ds_heap ?s' b = ds_heap s b"
          unfolding st(2) by simp_all
        note ext = value_live_extend [OF live sx(1) lt fresh(2,1) hp(1) lbs hp(2)]
        have keep: "ds_heap ?s' b = ds_heap s b \<and> b \<noteq> a"
          if "j < length (ds_store s)" "j \<noteq> i" "b \<in> entry_blocks c (ds_store s ! j)" for j b
          using alloc_not_owned [OF mk al ok that(1)] that(3) hp(2) by metis
        have hk: "heap_ok c ?s'"
        proof (rule heap_ok_step [OF ok D(1) st(1)])
          show "value_live (ds_heap ?s') (de_u (?d\<lparr>de_u := ?v\<rparr>))" using ext(1) by simp
          fix j b
          assume j: "j < length (ds_store s)" "j \<noteq> i" "b \<in> entry_blocks c (ds_store s ! j)"
          have "b \<notin> set (blocks (VMap data len real snaps sx))"
            using heap_ok_disjoint [OF ok j(1) D(1) j(2)] j(3) D(2) u
            by (auto simp only: entry_blocks_def if_True)
          with keep [OF j] show "ds_heap ?s' b = ds_heap s b \<and> b \<notin> entry_blocks c (?d\<lparr>de_u := ?v\<rparr>)"
            using ext(3) by (simp add: entry_blocks_def)
        qed
        have so: "same_others c i s ?s'" using keep by (intro same_othersI) blast
        have nm: "names c ?d (DSF_TYPE_MAP c, c_string buf)"
          using lookup_iff [OF fl t types_mem(4)] hit by simp
        have "store_abs c ?s' = add_named c (ds_heap ?s') (?d\<lparr>de_u := ?v\<rparr>)
            (drop_named c ?d (store_abs c s))"
          by (rule store_abs_replace [OF fl t do_snapshot_table [OF fl t run] D(1) st(1) so])
        also have "\<dots> = (store_abs c s)((DSF_TYPE_MAP c, c_string buf) \<mapsto>
            entry_abs (ds_heap ?s') (?d\<lparr>de_u := ?v\<rparr>))"
          using nm by (auto simp: add_named_def drop_named_def names_def etype_def fun_eq_iff)
        finally have abs: "store_abs c ?s' = (store_abs c s)((DSF_TYPE_MAP c, c_string buf) \<mapsto>
            entry_abs (ds_heap ?s') (?d\<lparr>de_u := ?v\<rparr>))" .
        have "bs = ?bs" if "len \<le> length (e_mapped e)" using that by (simp add: bs_def)
        with abs store_abs_hit [OF fl t D(1) nm] u ext(2)
        have "snapshot_effect c e (c_string buf) (store_abs c s) (store_abs c ?s')"
          by (simp add: snapshot_effect_def entry_abs_def)
        with key run hk show thesis by (rule taken)
      qed
    qed
  qed
qed

end
