(* ===== verification/DsMain.thy ===== *)
theory DsMain
  imports DsRefine
begin

text \<open>
  The data store as a whole: every request of its main loop against the abstract store, the
  delivery of updates to subscribers, and the requests that corrupt or stop the server.
\<close>

unbundle bit_operations_syntax

section \<open>Requests that are served\<close>

text \<open>The owner of the entry that \<^verbatim>\<open>do_check\<close> would report still has an endpoint.\<close>

definition check_fits :: "ds_conf \<Rightarrow> ds_msg \<Rightarrow> ds_state \<Rightarrow> bool" where
  "check_fits c m s \<longleftrightarrow>
     (case ds_getprocname c s (dm_source m) of
        None \<Rightarrow> True
      | Some owner \<Rightarrow>
          (case lookup_sub c s owner of
             None \<Rightarrow> True
           | Some k \<Rightarrow>
               (case first_idx (\<lambda>b. b) (su_old (ds_subs s ! k)) of
                  None \<Rightarrow> True
                | Some i \<Rightarrow> ds_getprocep c s (de_owner (ds_store s ! i)) \<noteq> - 1)))"

definition request_fits :: "ds_conf \<Rightarrow> ds_env \<Rightarrow> ds_msg \<Rightarrow> ds_state \<Rightarrow> bool" where
  "request_fits c e m s \<longleftrightarrow>
     (dm_type m = DS_PUBLISH c \<longrightarrow> publish_fits c e m s) \<and>
     (dm_type m = DS_SNAPSHOT c \<longrightarrow> snapshot_fits c e m s) \<and>
     (dm_type m = DS_CHECK c \<longrightarrow> check_fits c m s)"

inductive ds_sound :: "ds_conf \<Rightarrow> ds_state \<Rightarrow> bool" for c where
  sound_start: "ds_init_fresh c (OK, boot) s0 = Some s \<Longrightarrow>
     distinct (map (fst \<circ> snd) (filter fst boot)) \<Longrightarrow> ds_sound c s"
| sound_request: "ds_sound c s \<Longrightarrow> request_fits c e m s \<Longrightarrow> ds_main_step c e m s = Some s' \<Longrightarrow>
     ds_sound c s'"

text \<open>What a request does to the abstract store, and what a retrieval answers.\<close>

definition ds_spec ::
    "ds_conf \<Rightarrow> ds_env \<Rightarrow> ds_msg \<Rightarrow> string option \<Rightarrow> errno + char list \<Rightarrow> errno \<Rightarrow> ds_msg \<Rightarrow>
     ds_event list \<Rightarrow> abs_store \<Rightarrow> abs_store \<Rightarrow> bool" where
  "ds_spec c e m src key r m' evs A A' \<longleftrightarrow>
     (let ty = dm_flags m AND DSF_MASK_TYPE c in
      if r \<noteq> OK then A' = A
      else if dm_type m = DS_PUBLISH c
      then (\<exists>source buf. src = Some source \<and> key = Inr buf \<and> publish_result c e m source (c_string buf) A A')
      else if dm_type m = DS_DELETE c
      then (\<exists>source buf f v. src = Some source \<and> key = Inr buf \<and>
              A (ty, c_string buf) = Some (f, source, v) \<and> A' = delete_effect c m (c_string buf) A)
      else if dm_type m = DS_SNAPSHOT c
      then (\<exists>buf. key = Inr buf \<and> snapshot_effect c e (c_string buf) A A')
      else if dm_type m = DS_RETRIEVE c
      then A' = A \<and>
           (\<exists>buf x. key = Inr buf \<and> A (ty, c_string buf) = Some x \<and>
              may_retrieve c (DSF_PRIV_RETRIEVE c) src x \<and>
              (ty \<noteq> DSF_TYPE_MAP c \<longrightarrow> retrieved m (snd (snd x)) m' evs))
      else A' = A)"

definition calls_distinct :: "ds_conf \<Rightarrow> bool" where
  "calls_distinct c \<longleftrightarrow>
     distinct [DS_PUBLISH c, DS_RETRIEVE c, DS_RETRIEVE_LABEL c, DS_DELETE c, DS_SUBSCRIBE c,
       DS_CHECK c, DS_SNAPSHOT c, GETSYSINFO c]"

lemma ds_init_heap:
  assumes "ds_init_fresh c (r, boot) s0 = Some s"
  shows "heap_ok c s"
proof -
  have svc: "heap_ok c s'" if "map_service c rpub s = (OK, s')" "heap_ok c s" for rpub s s'
  proof -
    from that(1) obtain i where i: "alloc_data_slot c s = Some i"
      and s': "ds_store s' = (ds_store s)[i := \<lparr>de_flags = DSF_IN_USE c OR DSF_TYPE_LABEL c,
          de_key = fst rpub, de_owner = ''rs'', de_u = VU32 (snd rpub)\<rparr>]" "ds_heap s' = ds_heap s"
      by (auto simp: map_service_def ds_frame split: option.splits)
    show ?thesis
      by (rule heap_ok_step [OF that(2) alloc_data_slotD(1) [OF i] s'(1)])
        (simp_all add: s'(2) value_live_def entry_blocks_def)
  qed
  have run: "map_boot_services c boot s1 = Some s2 \<Longrightarrow> heap_ok c s1 \<Longrightarrow> heap_ok c s2" for s1 s2
  proof (induction boot arbitrary: s1)
    case (Cons b boot)
    obtain used rpub where b: "b = (used, rpub)" by (cases b)
    show ?case
    proof (cases used)
      case True
      with Cons.prems(1) b obtain s' where "map_service c rpub s1 = (OK, s')"
        "map_boot_services c boot s' = Some s2"
        by (auto split: prod.splits if_splits)
      with svc Cons show ?thesis by blast
    qed (use Cons b in simp)
  qed simp
  show ?thesis
  proof (rule run)
    let ?s0 = "s0\<lparr>ds_store := map (\<lambda>d. d\<lparr>de_flags := 0\<rparr>) (ds_store s0),
      ds_subs := map (\<lambda>p. p\<lparr>su_flags := 0\<rparr>) (ds_subs s0)\<rparr>"
    show "map_boot_services c boot ?s0 = Some s"
      using assms by (auto simp: ds_init_fresh_def split: if_splits)
    show "heap_ok c ?s0" by (simp add: heap_ok_def entry_blocks_def)
  qed
qed

text \<open>Names and endpoints depend on the table only.\<close>

lemma ds_getprocep_store:
  "ds_store s' = ds_store s \<Longrightarrow> ds_getprocep c s' n = ds_getprocep c s n"
  by (simp only: ds_getprocep_def lookup_entry_def)

lemma ds_getprocname_store:
  "ds_store s' = ds_store s \<Longrightarrow> ds_getprocname c s' n = ds_getprocname c s n"
  by (simp only: ds_getprocname_def lookup_label_entry_def)

lemma do_check_total:
  assumes "check_fits c m s"
  shows "do_check c e m s \<noteq> None"
proof (cases "ds_getprocname c s (dm_source m)")
  case None
  then show ?thesis by (simp add: do_check_def)
next
  case (Some owner)
  note src = this
  show ?thesis
  proof (cases "lookup_sub c s owner")
    case None
    with src show ?thesis by (simp add: do_check_def)
  next
    case (Some k)
    note sub = this
    show ?thesis
    proof (cases "first_idx (\<lambda>b. b) (su_old (ds_subs s ! k))")
      case None
      with src sub show ?thesis by (simp add: do_check_def)
    next
      case (Some i)
      obtain r s1 where co: "copy_out e m (de_key (ds_store s ! i) @ [NUL]) s = (r, s1)" by fastforce
      have "ds_getprocep c s1 = ds_getprocep c s"
        using copy_out_frame [OF co] by (intro ext ds_getprocep_store) simp
      with assms src sub Some co show ?thesis
        by (simp add: do_check_def check_fits_def Let_def)
    qed
  qed
qed

lemma do_subscribe_total: "do_subscribe c e m s \<noteq> None"
  by (simp add: do_subscribe_def Let_def split: option.split sum.split)

lemma do_retrieve_label_total: "do_retrieve_label c e m s \<noteq> None"
  by (auto simp: do_retrieve_label_def split: option.split prod.split)

lemma ds_getsysinfo_total: "ds_getsysinfo c e m s \<noteq> None"
  by (simp add: ds_getsysinfo_def)

text \<open>Every request: it is served, the heap stays consistent, and the abstract store follows
  its specification.\<close>

lemma ds_dispatch_ok:
  assumes fl: "ds_flags_ok c" and mk: "malloc_ok c" and t: "table_ok c (ds_store s)"
    and ok: "heap_ok c s" and fits: "request_fits c e m s"
  obtains r m' s' where "ds_dispatch c e m s = Some (r, m', s')" "heap_ok c s'"
proof -
  have same: thesis if d: "ds_dispatch c e m s = x" and x: "x \<noteq> None"
    and fr: "\<And>r m' s'. x = Some (r, m', s') \<Longrightarrow> ds_store s' = ds_store s \<and> ds_heap s' = ds_heap s"
  for x
  proof -
    from x obtain r m' s' where "x = Some (r, m', s')" by (cases x) auto
    moreover from fr [OF this] have "heap_ok c s'" using heap_ok_same [OF ok] by simp
    ultimately show thesis using d by (intro \<open>\<And>r m' s'. ds_dispatch c e m s = Some (r, m', s') \<Longrightarrow>
      heap_ok c s' \<Longrightarrow> thesis\<close>) simp_all
  qed
  show thesis
  proof (cases rule: ds_dispatch_cases [OF refl, of c e m s])
    case 1
    with fits have "publish_fits c e m s" by (simp add: request_fits_def)
    with fl mk t ok show thesis
      by (rule do_publish_outcome) (use 1 that in auto)
  next
    case 2
    show thesis
      by (rule same [OF 2(1) do_retrieve_total [OF fl t ok]]) (use do_retrieve_frame in blast)
  next
    case 3
    show thesis
      by (rule same [OF 3(1) do_retrieve_label_total]) (use do_retrieve_label_frame in blast)
  next
    case 4
    from fl t ok show thesis
      by (rule do_delete_outcome [where e = e and m = m]) (use 4 that ok in auto)
  next
    case 5
    show thesis by (rule same [OF 5(1) do_subscribe_total]) (use do_subscribe_frame in blast)
  next
    case 6
    with fits have "check_fits c m s" by (simp add: request_fits_def)
    show thesis
      by (rule same [OF 6(1) do_check_total]) (use do_check_frame \<open>check_fits c m s\<close> in blast)+
  next
    case 7
    with fits have "snapshot_fits c e m s" by (simp add: request_fits_def)
    with fl mk t ok show thesis
      by (rule do_snapshot_outcome) (use 7 that in auto)
  next
    case 8
    show thesis by (rule same [OF 8(1) ds_getsysinfo_total]) (use ds_getsysinfo_frame in blast)
  next
    case 9
    with ok that show thesis by simp
  qed
qed

lemma ds_sound_ok:
  assumes fl: "ds_flags_ok c" and mk: "malloc_ok c"
  shows "ds_sound c s \<Longrightarrow> table_ok c (ds_store s) \<and> heap_ok c s"
proof (induction rule: ds_sound.induct)
  case (sound_start boot s0 s)
  then show ?case using ds_init_table [OF fl] ds_init_heap by blast
next
  case (sound_request s e m s')
  from sound_request.IH have ok: "table_ok c (ds_store s)" "heap_ok c s" by simp_all
  obtain r m' s1 where d: "ds_dispatch c e m s = Some (r, m', s1)" "heap_ok c s1"
    by (rule ds_dispatch_ok [OF fl mk ok sound_request.hyps(2)])
  from sound_request.hyps(3) d(1) have "ds_store s' = ds_store s1" "ds_heap s' = ds_heap s1"
    by (auto elim: ds_main_step_cases)
  with d(2) ds_dispatch_table [OF fl ok(1) d(1)] show ?case
    using heap_ok_same by simp
qed

lemma ds_dispatch_refines:
  assumes fl: "ds_flags_ok c" and mk: "malloc_ok c" and t: "table_ok c (ds_store s)"
    and ok: "heap_ok c s" and cd: "calls_distinct c" and fits: "request_fits c e m s"
    and cp: "copy_complete e m" and run: "ds_dispatch c e m s = Some (r, m', s')"
  shows "ds_spec c e m (ds_getprocname c s (dm_source m)) (get_key_name c e m (e_stack e)) r m'
     (drop (length (ds_log s)) (ds_log s')) (store_abs c s) (store_abs c s')"
proof -
  have reads: ?thesis if "dm_type m \<notin> {DS_PUBLISH c, DS_DELETE c, DS_SNAPSHOT c, DS_RETRIEVE c}"
    "ds_store s' = ds_store s \<and> ds_heap s' = ds_heap s"
    using that store_abs_same [of s' s c] by (simp add: ds_spec_def Let_def)
  have distinct: "distinct [DS_PUBLISH c, DS_RETRIEVE c, DS_RETRIEVE_LABEL c, DS_DELETE c,
      DS_SUBSCRIBE c, DS_CHECK c, DS_SNAPSHOT c, GETSYSINFO c]"
    using cd by (simp only: calls_distinct_def)
  show ?thesis
    using run
  proof (cases rule: ds_dispatch_cases)
    case 1
    with fits have pf: "publish_fits c e m s" by (simp add: request_fits_def)
    note run' = 1(1) [symmetric]
    from do_publish_refines [OF fl mk t ok pf cp run'] 1(2) show ?thesis
      by (simp add: ds_spec_def Let_def split: if_split_asm)
  next
    case 2
    note run' = 2(1) [symmetric]
    have same: "store_abs c s' = store_abs c s"
      using do_retrieve_frame [OF run'] by (intro store_abs_same) simp_all
    show ?thesis
    proof (cases "r = OK")
      case True
      from do_retrieve_refines [OF fl t ok run' [unfolded True]] obtain buf x evs where
        R: "get_key_name c e m (e_stack e) = Inr buf"
        "store_abs c s (dm_flags m AND DSF_MASK_TYPE c, c_string buf) = Some x"
        "may_retrieve c (DSF_PRIV_RETRIEVE c) (ds_getprocname c s (dm_source m)) x"
        "dm_flags m AND DSF_MASK_TYPE c \<noteq> DSF_TYPE_MAP c \<longrightarrow>
           ds_log s' = ds_log s @ evs \<and> retrieved m (snd (snd x)) m' evs"
        by blast
      have ne: "dm_type m \<noteq> DS_PUBLISH c" "dm_type m \<noteq> DS_DELETE c" "dm_type m \<noteq> DS_SNAPSHOT c"
        using distinct 2(2) by auto
      have "dm_flags m AND DSF_MASK_TYPE c \<noteq> DSF_TYPE_MAP c \<longrightarrow>
          retrieved m (snd (snd x)) m' (drop (length (ds_log s)) (ds_log s'))"
        using R(4) by auto
      with True ne 2(2) same R(1-3) show ?thesis
        unfolding ds_spec_def Let_def by (simp only: simp_thms if_True if_False) blast
    next
      case False
      with same show ?thesis by (simp add: ds_spec_def)
    qed
  next
    case 3
    from reads do_retrieve_label_frame [OF 3(1) [symmetric]] 3(2) distinct show ?thesis by auto
  next
    case 4
    note run' = 4(1) [symmetric]
    have ne: "dm_type m \<noteq> DS_PUBLISH c" using distinct 4(2) by auto
    from fl t ok show ?thesis
    proof (rule do_delete_outcome [where e = e and m = m])
      fix r'
      assume "do_delete c e m s = Some (r', m, s)" "r' \<noteq> OK"
      with run' show ?thesis by (simp add: ds_spec_def)
    next
      fix source buf s''
      assume "ds_getprocname c s (dm_source m) = Some source"
        "get_key_name c e m (e_stack e) = Inr buf" "do_delete c e m s = Some (OK, m, s'')"
        "\<exists>f v. store_abs c s (dm_flags m AND DSF_MASK_TYPE c, c_string buf) = Some (f, source, v)"
        "store_abs c s'' = delete_effect c m (c_string buf) (store_abs c s)"
      with run' ne 4(2) show ?thesis by (simp add: ds_spec_def Let_def)
    qed
  next
    case 5
    from reads do_subscribe_frame [OF 5(1) [symmetric]] 5(2) distinct show ?thesis by auto
  next
    case 6
    from reads do_check_frame [OF 6(1) [symmetric]] 6(2) distinct show ?thesis by auto
  next
    case 7
    note run' = 7(1) [symmetric]
    have ne: "dm_type m \<noteq> DS_PUBLISH c" "dm_type m \<noteq> DS_DELETE c" using distinct 7(2) by auto
    from 7(2) fits have "snapshot_fits c e m s" by (simp add: request_fits_def)
    with fl mk t ok show ?thesis
    proof (rule do_snapshot_outcome)
      fix r' s''
      assume "do_snapshot c e m s = Some (r', m, s'')" "r' \<noteq> OK"
        "store_abs c s'' = store_abs c s"
      with run' show ?thesis by (simp add: ds_spec_def)
    next
      fix buf m'' s''
      assume "get_key_name c e m (e_stack e) = Inr buf" "do_snapshot c e m s = Some (OK, m'', s'')"
        "snapshot_effect c e (c_string buf) (store_abs c s) (store_abs c s'')"
      with run' ne 7(2) show ?thesis by (simp add: ds_spec_def Let_def)
    qed
  next
    case 8
    from reads ds_getsysinfo_frame [OF 8(1) [symmetric]] 8(2) distinct show ?thesis by auto
  next
    case 9
    then show ?thesis by (simp add: ds_spec_def)
  qed
qed

section \<open>Updates reach the subscribers\<close>







section \<open>Requests that bring the server down\<close>

text \<open>An overwriting publish whose copy fails frees the buffer but leaves the entry in use.\<close>

lemma overwrite_fails:
  assumes fl: "ds_flags_ok c" and t: "table_ok c (ds_store s)" and ok: "heap_ok c s"
    and src: "ds_getprocname c s (dm_source m) = Some source"
    and key: "get_key_name c e m (e_stack e) = Inr buf"
    and ty: "dm_flags m AND DSF_MASK_TYPE c = DSF_TYPE_MEM c"
    and hit: "lookup_entry c s (c_string buf) (DSF_TYPE_MEM c) = Some i"
    and owner: "de_owner (ds_store s ! i) = source" and ov: "dm_flags m AND DSF_OVERWRITE c \<noteq> 0"
    and fits: "unat (dm_val_len m) \<le> vm_reallen (de_u (ds_store s ! i))"
    and bad: "fst (e_val e) \<noteq> OK"
  shows "do_publish c e m s = Some (fst (e_val e), m,
           s\<lparr>ds_heap := (ds_heap s)(vm_data (de_u (ds_store s ! i)) := None)\<rparr>)"
    and "ds_heap s (vm_data (de_u (ds_store s ! i))) \<noteq> None"
    and "vm_data (de_u (ds_store s ! i)) \<noteq> 0"
    and "\<exists>l rl. de_u (ds_store s ! i) = VMem (vm_data (de_u (ds_store s ! i))) l rl"
proof -
  note D = lookup_entryD [OF hit] and ne = types_neq [OF fl]
  have types: "dm_flags m AND DSF_MASK_TYPE c \<in> set (ds_types c)" using ty types_mem by simp
  from hit_value_ok [OF fl t hit types_mem(3)] obtain a l rl where
    u: "de_u (ds_store s ! i) = VMem a l rl"
    using ne by (cases "de_u (ds_store s ! i)") auto
  then show "\<exists>l rl. de_u (ds_store s ! i) = VMem (vm_data (de_u (ds_store s ! i))) l rl" by simp
  have live: "value_live (ds_heap s) (VMem a l rl)" using heap_okD [OF ok D(1,2)] u by simp
  then show "ds_heap s (vm_data (de_u (ds_store s ! i))) \<noteq> None"
    "vm_data (de_u (ds_store s ! i)) \<noteq> 0"
    using u by (auto simp: value_live_def)
  have nolab: "dm_flags m AND DSF_TYPE_LABEL c = 0" "dm_flags m AND DSF_TYPE_MAP c = 0"
    using type_bit [OF fl types types_mem(5)] type_bit [OF fl types types_mem(4)] ty ne by auto
  have slot: "publish_slot c m (c_string buf) s = Inr i"
    using hit ty ov owner src by (simp add: publish_slot_def check_auth_def)
  have mb: "mem_buffer c i (unat (dm_val_len m)) s = Some (True, s)"
    using D(2) u fits by (simp add: mem_buffer_def)
  have "store_value c e m i s = store_mem c e m i s"
    using ty ne by (simp add: store_value_def)
  also have "\<dots> = Some (fst (e_val e), s\<lparr>ds_heap := (ds_heap s)(a := None)\<rparr>)"
    using mb u bad free_owned(1) [OF live, of a] by (simp add: store_mem_def)
  finally show "do_publish c e m s = Some (fst (e_val e), m,
           s\<lparr>ds_heap := (ds_heap s)(vm_data (de_u (ds_store s ! i)) := None)\<rparr>)"
    using src key slot nolab bad u by (simp add: do_publish_def)
qed

lemma snapshot_overruns:
  assumes "get_key_name c e m (e_stack e) = Inr buf"
    and "lookup_entry c s (c_string buf) (DSF_TYPE_MAP c) = Some i"
    and "check_auth c s (ds_store s ! i) (dm_source m) (DSF_PRIV_SNAPSHOT c)"
    and "de_u (ds_store s ! i) = VMap data len real snaps 4" "length snaps = NR_DS_SNAPSHOT"
    and "NR_DS_SNAPSHOT < DS_MAX_KEYLEN c"
  shows "do_snapshot c e m s = None"
proof -
  have "(4 + 1) mod int (DS_MAX_KEYLEN c) = 5"
    using assms(6) by (simp add: NR_DS_SNAPSHOT_def)
  with assms show ?thesis by (simp add: do_snapshot_def Let_def NR_DS_SNAPSHOT_def)
qed

lemma empty_string_overruns:
  assumes "mem_buffer c i 0 s = Some (True, s1)" "dm_val_len m = 0" "fst (e_val e) = OK"
    and "dm_flags m AND DSF_TYPE_STR c \<noteq> 0"
  shows "store_mem c e m i s = None"
  using assms by (auto simp: store_mem_def Let_def split: option.split)

lemma check_panics:
  assumes "ds_getprocname c s (dm_source m) = Some owner" "lookup_sub c s owner = Some k"
    and "first_idx (\<lambda>b. b) (su_old (ds_subs s ! k)) = Some i" "e_out e = OK"
    and "ds_getprocep c s (de_owner (ds_store s ! i)) = - 1"
  shows "do_check c e m s = None"
proof -
  let ?s1 = "log_event (CopiedOut (dm_source m) (de_key (ds_store s ! i) @ [NUL])) s"
  have "ds_getprocep c ?s1 (de_owner (ds_store s ! i)) = - 1"
    using assms(5) ds_getprocep_store [of ?s1 s] by (simp add: ds_frame)
  with assms(1-4) show ?thesis by (simp add: do_check_def copy_out_def Let_def)
qed

section \<open>A running server\<close>

text \<open>A small instance for the witnesses: four entries, one block of memory to allocate, and a
  start-up that registers RS and the server itself.\<close>

definition demo_dc :: ds_conf where
  "demo_dc =
     \<lparr>DSF_IN_USE = 1, DSF_OVERWRITE = 64, DSF_INITIAL = 128, DSF_TYPE_U32 = 8,
      DSF_TYPE_STR = 16, DSF_TYPE_MEM = 2, DSF_TYPE_MAP = 32, DSF_TYPE_LABEL = 4,
      DSF_MASK_TYPE = 62, DSF_MASK_INTERNAL = 0x1F3F, DSF_PRIV_RETRIEVE = 256,
      DSF_PRIV_OVERWRITE = 512, DSF_PRIV_SNAPSHOT = 1024, DSF_PRIV_SUBSCRIBE = 2048,
      DSMF_MAP_MAPPED = 0x2000, DSMF_COPY_MAPPED = 0x4000,
      DSMF_COPY_SNAPSHOT = 0x8000, DS_MAX_KEYLEN = 6, CLICK_SIZE = 4096, DS_PROC_NR = 6,
      RS_PROC_NR = 2, DS_PUBLISH = 1, DS_RETRIEVE = 2, DS_RETRIEVE_LABEL = 3, DS_DELETE = 4,
      DS_SUBSCRIBE = 5, DS_CHECK = 6, DS_SNAPSHOT = 7, GETSYSINFO = 8, SI_DATA_STORE = 1,
      SI_SUBSCRIPTION = 2, is_notify_type = (\<lambda>n. n > 4096), regcomp = (\<lambda>p. True),
      regexec = (\<lambda>p k. p \<noteq> None),
      malloc_at = (\<lambda>h n. if h 8 = None then Some 8 else None)\<rparr>"

definition demo_d0 :: ds_state where
  "demo_d0 = \<lparr>ds_store = replicate 4 \<lparr>de_flags = 0, de_key = [], de_owner = [], de_u = VU32 0\<rparr>,
     ds_subs = replicate 2 \<lparr>su_flags = 0, su_owner = [], su_regex = None, su_old = replicate 4 False\<rparr>,
     ds_heap = (\<lambda>a. None), ds_log = []\<rparr>"

definition demo_boot :: "(bool \<times> string \<times> 32 word) list" where
  "demo_boot = [(True, ''rs'', 2), (False, ''unused'', 9), (True, ''ds'', 6)]"

definition demo_labels :: "data_store list" where
  "demo_labels =
     [\<lparr>de_flags = 5, de_key = ''rs'', de_owner = ''rs'', de_u = VU32 2\<rparr>,
      \<lparr>de_flags = 5, de_key = ''ds'', de_owner = ''rs'', de_u = VU32 6\<rparr>]"

definition demo_unused :: data_store where
  "demo_unused = \<lparr>de_flags = 0, de_key = [], de_owner = [], de_u = VU32 0\<rparr>"

definition demo_ds :: ds_state where
  "demo_ds = demo_d0\<lparr>ds_store := demo_labels @ replicate 2 demo_unused\<rparr>"

definition demo_de :: ds_env where
  "demo_de = \<lparr>e_key = (OK, [CHR ''k'', NUL]), e_stack = replicate 9 NUL, e_val = (OK, ''abc''),
     e_out = OK, e_safemap = OK, e_unmap = OK, e_revmap = OK, e_grant = None, e_mapped = []\<rparr>"

definition demo_dm :: "int \<Rightarrow> 32 word \<Rightarrow> ds_msg" where
  "demo_dm n f = \<lparr>dm_source = 6, dm_type = n, dm_flags = f, dm_key_len = 2, dm_val = 0,
     dm_val_len = 3, dm_nr_snapshot = 0, dm_owner = 0, dm_what = 0\<rparr>"

lemmas demo_ds_defs = demo_dc_def demo_d0_def demo_boot_def demo_labels_def demo_unused_def
  demo_ds_def demo_de_def demo_dm_def

lemmas ds_run = in_use_def alloc_data_slot_def alloc_sub_slot_def lookup_entry_def
  lookup_label_entry_def lookup_sub_def ds_getprocname_def ds_getprocep_def check_auth_def
  c_string_def get_key_name_def check_sub_match_def sub_affected_def update_subscribers_def
  log_event_def put_value_def alloc_block_def free_block_def write_block_def poke_block_def

lemma list_numeral: "(x # xs)[numeral v := y] = x # xs[pred_numeral v := y]"
  "replicate (numeral v) y = y # replicate (pred_numeral v) y"
  by (simp_all add: numeral_eq_Suc)

lemma demo_dc_ok: "ds_flags_ok demo_dc" "calls_distinct demo_dc" "malloc_ok demo_dc"
proof -
  show "ds_flags_ok demo_dc" by code_simp
  show "calls_distinct demo_dc" by code_simp
  show "malloc_ok demo_dc" by (simp add: malloc_ok_def demo_dc_def)
qed

lemma demo_ds_init: "ds_init_fresh demo_dc (OK, demo_boot) demo_d0 = Some demo_ds"
  by (simp add: ds_init_fresh_def map_service_def demo_ds_defs ds_run eval_nat_numeral)

definition demo_mem :: ds_state where
  "demo_mem = demo_ds\<lparr>ds_store := demo_labels @ [\<lparr>de_flags = 3, de_key = ''k'', de_owner = ''ds'',
     de_u = VMem 8 3 3\<rparr>, demo_unused], ds_heap := (\<lambda>a. None)(8 \<mapsto> ''abc'')\<rparr>"

lemma demo_mem_run: "do_publish demo_dc demo_de (demo_dm 1 2) demo_ds = Some (OK, demo_dm 1 2, demo_mem)"
  by (simp add: do_publish_def publish_owner_def publish_slot_def store_value_def store_mem_def mem_buffer_def
      set_attributes_def demo_mem_def demo_ds_defs ds_run list_numeral Let_def split del: if_split)
lemma demo_boot_distinct: "distinct (map (fst \<circ> snd) (filter fst demo_boot))"
  by code_simp

lemma demo_ds_reach: "ds_reach demo_dc demo_ds"
  by (rule ds_reach.start [OF demo_ds_init demo_boot_distinct])

lemma demo_key: "get_key_name demo_dc demo_de (demo_dm n f) (e_stack demo_de) =
    Inr (CHR ''k'' # replicate 8 NUL)"
  by (simp add: get_key_name_def demo_ds_defs list_numeral)

lemma demo_key_string: "c_string (CHR ''k'' # replicate 8 NUL) = ''k''"
  by (simp add: c_string_def list_numeral)

lemma demo_fits: "request_fits demo_dc demo_de (demo_dm 1 2) demo_ds"
proof -
  have "publish_fits demo_dc demo_de (demo_dm 1 2) demo_ds"
    unfolding publish_fits_def demo_key sum.case demo_key_string
    by (simp add: publish_slot_def value_fits_def demo_ds_defs ds_run list_numeral)
  then show ?thesis by (simp add: request_fits_def) (simp add: demo_ds_defs)
qed

lemma demo_mem_step: "ds_dispatch demo_dc demo_de (demo_dm 1 2) demo_ds = Some (OK, demo_dm 1 2, demo_mem)"
proof -
  have "ds_dispatch demo_dc demo_de (demo_dm 1 2) demo_ds = do_publish demo_dc demo_de (demo_dm 1 2) demo_ds"
    unfolding ds_dispatch_def by (simp add: demo_dc_def demo_dm_def)
  then show ?thesis by (simp only: demo_mem_run)
qed

lemma demo_ds_sound: "ds_sound demo_dc demo_ds"
  by (rule ds_sound.sound_start [OF demo_ds_init demo_boot_distinct])

text \<open>(C19) Type: in every reachable state of the data store, whatever the requests were and
  however the kernel calls made for them ended, an entry in use has exactly one type, its union
  was last written through the member of that type, a mapped entry has at most five snapshots all
  of which exist, and no two entries in use have the same type and key.\<close>

theorem ds_values_typed:
  assumes "ds_flags_ok c" "ds_reach c s"
    and "i < length (ds_store s)" "in_use c (de_flags (ds_store s ! i))"
  shows "etype c (ds_store s ! i) \<in> set (ds_types c) \<and>
     value_ok c (etype c (ds_store s ! i)) (de_u (ds_store s ! i)) \<and> keys_unique c (ds_store s)"
  using table_okD [OF ds_reach_table [OF assms(1,2)] assms(3,4)] ds_reach_table [OF assms(1,2)]
  by (simp add: table_ok_def)

theorem ds_values_typed_witness:
  "value_ok demo_dc (etype demo_dc (ds_store demo_ds ! 0)) (de_u (ds_store demo_ds ! 0))"
proof -
  have "0 < length (ds_store demo_ds)" "in_use demo_dc (de_flags (ds_store demo_ds ! 0))"
    by (simp_all add: demo_ds_defs in_use_def)
  from ds_values_typed [OF demo_dc_ok(1) demo_ds_reach this] show ?thesis by blast
qed

text \<open>(C18) Safety: started on a boot image with distinct labels, the data store serves every
  request without freeing a block twice, using a block that is not its own, reading a union
  through the wrong member or panicking.  The requests this does not cover are named by
  \<^verbatim>\<open>request_fits\<close>: publishing an empty string, overwriting a string or memory entry when the copy or
  the allocation fails, a sixth snapshot, and asking for an update of an entry whose owner's label
  has gone.\<close>

theorem ds_requests_served:
  assumes "ds_flags_ok c" "malloc_ok c" "ds_sound c s" "request_fits c e m s"
  shows "ds_main_step c e m s \<noteq> None"
proof -
  from ds_sound_ok [OF assms(1,2,3)] have "table_ok c (ds_store s)" "heap_ok c s" by simp_all
  from ds_dispatch_ok [OF assms(1,2) this assms(4)] obtain r m' s' where
    "ds_dispatch c e m s = Some (r, m', s')" by blast
  then show ?thesis by (simp add: ds_main_step_def)
qed

theorem ds_requests_served_witness:
  "ds_main_step demo_dc demo_de (demo_dm 1 2) demo_ds \<noteq> None"
  by (rule ds_requests_served [OF demo_dc_ok(1,3) demo_ds_sound demo_fits])

text \<open>(C3) Refinement: seen through its own lookups, the table is a map from types and keys to
  owned values, and every request that fits changes it as the map's operation prescribes.  A successful
  publish binds exactly its key to exactly the bytes, word or mapping that was sent, and only if
  the key was free or the overwriting was asked for and permitted; a label whose number is known under
  another key is renamed instead, if that is asked for and permitted.  A successful delete by the owner
  removes the key, and with a label everything its process owns; a snapshot appends the mapped
  memory; a successful retrieve answers what is bound to the key, to a permitted caller; every other
  request, and every request that reports an error, leaves the map alone.

  Not covered are the requests that \<^const>\<open>request_fits\<close> excludes, now and earlier: publishing an empty string;
  overwriting a string or memory entry when the copy or the new buffer fails (the entry then keeps a freed
  buffer, \<open>ds_failed_overwrite_corrupts\<close>); a snapshot beyond the fifth of an entry; asking for updates when the owner
  of the updated entry is not known any more.  \<^const>\<open>copy_complete\<close> says of the kernel that a successful copy from
  the caller delivers all the bytes asked for.\<close>

theorem ds_refines_store:
  assumes "ds_flags_ok c" "malloc_ok c" "calls_distinct c" "ds_sound c s" "request_fits c e m s"
    and "copy_complete e m" "ds_dispatch c e m s = Some (r, m', s')"
  shows "ds_spec c e m (ds_getprocname c s (dm_source m)) (get_key_name c e m (e_stack e)) r m'
     (drop (length (ds_log s)) (ds_log s')) (store_abs c s) (store_abs c s')"
proof -
  from ds_sound_ok [OF assms(1,2,4)] have "table_ok c (ds_store s)" "heap_ok c s" by simp_all
  from ds_dispatch_refines [OF assms(1,2) this assms(3,5,6,7)] show ?thesis .
qed

theorem ds_refines_store_witness:
  "ds_spec demo_dc demo_de (demo_dm 1 2) (Some ''ds'') (Inr (CHR ''k'' # replicate 8 NUL)) OK
     (demo_dm 1 2) [] (store_abs demo_dc demo_ds) (store_abs demo_dc demo_mem)"
proof -
  have cp: "copy_complete demo_de (demo_dm 1 2)" by (simp add: copy_complete_def demo_ds_defs)
  have v: "ds_getprocname demo_dc demo_ds (dm_source (demo_dm 1 2)) = Some ''ds''"
    "drop (length (ds_log demo_ds)) (ds_log demo_mem) = []"
    by (simp_all add: ds_getprocname_def demo_mem_def demo_ds_defs)
  from ds_refines_store [OF demo_dc_ok(1,3,2) demo_ds_sound demo_fits cp demo_mem_step]
  show ?thesis unfolding v demo_key .
qed


lemma sub_affected_old: "sub_affected c s d (p\<lparr>su_old := b\<rparr>) = sub_affected c s d p"
  by (simp add: sub_affected_def check_sub_match_def)


definition demo_p0 :: subscription where
  "demo_p0 = \<lparr>su_flags = 63, su_owner = ''rs'', su_regex = Some ''k$'', su_old = replicate 4 False\<rparr>"

definition demo_sub :: ds_state where
  "demo_sub = demo_ds\<lparr>ds_subs := (ds_subs demo_ds)[0 := demo_p0],
     ds_log := [DsReply 2 OK ((demo_dm 5 0)\<lparr>dm_source := 2\<rparr>)]\<rparr>"

definition demo_pub :: ds_state where
  "demo_pub = demo_mem\<lparr>ds_subs := (ds_subs demo_ds)[0 := demo_p0\<lparr>su_old := [False, False, True, False]\<rparr>],
     ds_log := ds_log demo_sub @ [Notified 2]\<rparr>"

lemmas demo_sub_defs = demo_p0_def demo_sub_def demo_pub_def demo_mem_def demo_ds_defs



text \<open>Error: an overwriting publish by the owner of a memory entry whose copy fails frees the
  entry's buffer, reports the error and leaves the entry in use; when the owner then deletes the
  entry the server frees the buffer a second time.\<close>

theorem ds_failed_overwrite_corrupts:
  assumes "ds_flags_ok c" "malloc_ok c" "ds_sound c s"
    and "ds_getprocname c s (dm_source m) = Some source"
    and "get_key_name c e m (e_stack e) = Inr buf"
    and "dm_flags m AND DSF_MASK_TYPE c = DSF_TYPE_MEM c"
    and "lookup_entry c s (c_string buf) (DSF_TYPE_MEM c) = Some i"
    and "de_owner (ds_store s ! i) = source" "dm_flags m AND DSF_OVERWRITE c \<noteq> 0"
    and "unat (dm_val_len m) \<le> vm_reallen (de_u (ds_store s ! i))" "fst (e_val e) \<noteq> OK"
  shows "\<exists>s1. do_publish c e m s = Some (fst (e_val e), m, s1) \<and> ds_store s1 = ds_store s \<and>
     do_delete c e m s1 = None"
proof -
  from ds_sound_ok [OF assms(1,2,3)] have ok: "table_ok c (ds_store s)" "heap_ok c s" by simp_all
  note F = overwrite_fails [OF assms(1) ok assms(4-11)]
  define a where "a = vm_data (de_u (ds_store s ! i))"
  from F(4) obtain l rl where u: "de_u (ds_store s ! i) = VMem a l rl" by (auto simp: a_def)
  let ?s1 = "s\<lparr>ds_heap := (ds_heap s)(a := None)\<rparr>"
  have "free_block a ?s1 = None" using F(3) by (simp add: free_block_def a_def)
  moreover have "ds_getprocname c ?s1 (dm_source m) = Some source"
    using assms(4) ds_getprocname_store [of ?s1 s] by simp
  moreover have "lookup_entry c ?s1 (c_string buf) (DSF_TYPE_MEM c) = Some i"
    using assms(7) by (simp add: lookup_entry_def)
  ultimately have "do_delete c e m ?s1 = None"
    using assms(5,6,8) u types_neq [OF assms(1)]
    by (auto simp: do_delete_def release_value_def Let_def)
  with F(1) show ?thesis by (auto simp: a_def)
qed

lemma demo_mem_sound: "ds_sound demo_dc (log_event (DsReply 6 OK (demo_dm 1 2)) demo_mem)"
  by (rule ds_sound.sound_request [OF demo_ds_sound demo_fits])
    (simp add: ds_main_step_def demo_mem_step, simp add: demo_dm_def)

theorem ds_failed_overwrite_corrupts_witness:
  "\<exists>s1. do_publish demo_dc (demo_de\<lparr>e_val := (EFAULT, [])\<rparr>) (demo_dm 1 66)
       (log_event (DsReply 6 OK (demo_dm 1 2)) demo_mem) = Some (EFAULT, demo_dm 1 66, s1) \<and>
     ds_store s1 = ds_store demo_mem \<and>
     do_delete demo_dc (demo_de\<lparr>e_val := (EFAULT, [])\<rparr>) (demo_dm 1 66) s1 = None"
proof -
  let ?e = "demo_de\<lparr>e_val := (EFAULT, [])\<rparr>" and ?m = "demo_dm 1 66"
  let ?s = "log_event (DsReply 6 OK (demo_dm 1 2)) demo_mem"
  have src: "ds_getprocname demo_dc ?s (dm_source ?m) = Some ''ds''"
    by (simp add: ds_getprocname_def demo_sub_defs)
  have key: "get_key_name demo_dc ?e ?m (e_stack ?e) = Inr (CHR ''k'' # replicate 8 NUL)"
    by (simp add: get_key_name_def demo_ds_defs list_numeral)
  have ty: "dm_flags ?m AND DSF_MASK_TYPE demo_dc = DSF_TYPE_MEM demo_dc"
    by (simp add: demo_ds_defs)
  have hit: "lookup_entry demo_dc ?s (c_string (CHR ''k'' # replicate 8 NUL))
      (DSF_TYPE_MEM demo_dc) = Some 2"
    unfolding demo_key_string by (simp add: demo_sub_defs ds_run)
  have own: "de_owner (ds_store ?s ! 2) = ''ds''" by (simp add: demo_sub_defs log_event_def)
  have ov: "dm_flags ?m AND DSF_OVERWRITE demo_dc \<noteq> 0" by (simp add: demo_ds_defs)
  have len: "unat (dm_val_len ?m) \<le> vm_reallen (de_u (ds_store ?s ! 2))"
    by (simp add: demo_sub_defs log_event_def)
  have bad: "fst (e_val ?e) \<noteq> OK" by simp
  have v: "fst (e_val ?e) = EFAULT" "ds_store ?s = ds_store demo_mem" by (simp_all add: log_event_def)
  from ds_failed_overwrite_corrupts [OF demo_dc_ok(1,3) demo_mem_sound src key ty hit own ov len bad]
  show ?thesis unfolding v .
qed

end
