(* ===== verification/IpcSem.thy ===== *)
theory IpcSem
  imports Prelude
begin

text \<open>
  The semaphores of the IPC server: \<^verbatim>\<open>src/Project_2/servers/ipc/sem.c\<close> and \<^verbatim>\<open>utility.c\<close>.

  The list of semaphore sets holds the first \<^verbatim>\<open>sem_list_nr\<close> elements of the array.  A waiting list
  is the block that \<^verbatim>\<open>realloc\<close> returned last (\<open>None\<close> is \<^verbatim>\<open>NULL\<close>) with a 16-bit count beside it; the
  block keeps stale entries behind the count, as in the code.  The result \<open>None\<close> of an operation is
  an access outside a block, which includes \<^verbatim>\<open>memmove\<close> with a size below zero.  Identities, times
  and the outcomes of copies and allocations are the fields of \<open>sem_env\<close>.
\<close>

unbundle bit_operations_syntax

section \<open>Parameters\<close>

record ipc_conf =
  IPC_PRIVATE :: int
  IPC_CREAT :: "32 word"
  IPC_EXCL :: "32 word"
  IPC_NOWAIT :: "32 word"
  SEMMSL :: nat
  SEMMNI :: nat
  SEMOPM :: nat
  SEMVMX :: int
  SHM_RND :: "32 word"
  SHM_RDONLY :: "32 word"
  SHM_DEST :: "32 word"
  SHMMNI :: int
  I386_PAGE_SIZE :: int

record ipc_perm =
  ip_uid :: int
  ip_gid :: int
  ip_cuid :: int
  ip_cgid :: int
  ip_mode :: "32 word"

text \<open>One operation of \<^verbatim>\<open>semop\<close>: a \<^verbatim>\<open>struct sembuf\<close>.\<close>

record sembuf =
  sb_num :: nat
  sb_op :: int
  sb_flg :: "32 word"

record sem_env =
  se_uid :: "int \<Rightarrow> int"
  se_gid :: "int \<Rightarrow> int"
  se_pid :: "int \<Rightarrow> int"
  se_time :: int
  se_malloc :: bool
  se_copy :: errno
  se_realloc :: "nat \<Rightarrow> bool"
  se_perm :: ipc_perm
  se_vals :: "16 word list"
  se_ops :: "sembuf list"

section \<open>State\<close>

record waiting =
  w_who :: int
  w_val :: int

record semaphore =
  semval :: "16 word"
  semzcnt :: "16 word"
  semncnt :: "16 word"
  zlist :: "waiting list option"
  nlist :: "waiting list option"
  sempid :: int

record sem_struct =
  ss_key :: int
  ss_id :: int
  ss_perm :: ipc_perm
  ss_nsems :: int
  ss_otime :: int
  ss_ctime :: int
  ss_sems :: "semaphore list"

record sem_state =
  sem_list :: "sem_struct list"
  next_id :: int
  sent :: "(int \<times> errno) list"

definition null_semaphore :: semaphore where
  "null_semaphore =
     \<lparr>semval = 0, semzcnt = 0, semncnt = 0, zlist = None, nlist = None, sempid = 0\<rparr>"

section \<open>Permissions\<close>

text \<open>\<^verbatim>\<open>check_perm\<close>; the octal masks 0666 and 0007 are 438 and 7.\<close>

definition check_perm :: "sem_env \<Rightarrow> ipc_perm \<Rightarrow> int \<Rightarrow> 32 word \<Rightarrow> bool" where
  "check_perm e req who mode =
     (let uid = se_uid e who; gid = se_gid e who; mode = mode AND 438 in
      if uid = 0 then True
      else
        let shift = (if uid = ip_uid req \<or> uid = ip_cuid req then 6
                     else if gid = ip_gid req \<or> gid = ip_cgid req then 3 else 0);
            req_mode = drop_bit shift (ip_mode req) AND 7;
            cur_mode = drop_bit shift mode AND 7
        in cur_mode \<noteq> 0 \<and> cur_mode AND req_mode = cur_mode)"

definition owner_or_root :: "ipc_perm \<Rightarrow> int \<Rightarrow> bool" where
  "owner_or_root p uid \<longleftrightarrow> uid = ip_cuid p \<or> uid = ip_uid p \<or> uid = 0"

text \<open>The part of \<^verbatim>\<open>IPC_SET\<close> that copies the permissions; 0777 is 511.\<close>

definition set_perm :: "ipc_perm \<Rightarrow> ipc_perm \<Rightarrow> ipc_perm" where
  "set_perm new p =
     p\<lparr>ip_uid := ip_uid new, ip_gid := ip_gid new,
       ip_mode := (ip_mode p AND NOT 511) OR (ip_mode new AND 438)\<rparr>"

section \<open>Finding and creating sets\<close>

definition sem_find_key :: "ipc_conf \<Rightarrow> int \<Rightarrow> 'a sem_state_scheme \<Rightarrow> nat option" where
  "sem_find_key c key s =
     (if key = IPC_PRIVATE c then None else first_idx (\<lambda>x. ss_key x = key) (sem_list s))"

definition sem_find_id :: "int \<Rightarrow> 'a sem_state_scheme \<Rightarrow> nat option" where
  "sem_find_id sid s = first_idx (\<lambda>x. ss_id x = sid) (sem_list s)"

text \<open>\<^verbatim>\<open>identifier++\<close> on a 32-bit signed counter.\<close>

definition next_ident :: "int \<Rightarrow> int" where
  "next_ident n = sint (word_of_int (n + 1) :: 32 word)"

lemma next_ident_small:
  assumes "0 \<le> n" "n + 1 < 2 ^ 31" shows "next_ident n = n + 1"
  unfolding next_ident_def sint_sbintrunc' by (rule signed_take_bit_int_eq_self) (use assms in simp_all)

definition new_sem_struct ::
    "ipc_conf \<Rightarrow> sem_env \<Rightarrow> int \<Rightarrow> int \<Rightarrow> int \<Rightarrow> 32 word \<Rightarrow> int \<Rightarrow> sem_struct" where
  "new_sem_struct c e who key nsems flag sid =
     \<lparr>ss_key = key, ss_id = sid,
      ss_perm = \<lparr>ip_uid = se_uid e who, ip_gid = se_gid e who, ip_cuid = se_uid e who,
                 ip_cgid = se_gid e who, ip_mode = flag AND 511\<rparr>,
      ss_nsems = nsems, ss_otime = 0, ss_ctime = se_time e,
      ss_sems = replicate (SEMMSL c) null_semaphore\<rparr>"

definition do_semget ::
    "ipc_conf \<Rightarrow> sem_env \<Rightarrow> int \<Rightarrow> int \<Rightarrow> int \<Rightarrow> 32 word \<Rightarrow> 'a sem_state_scheme \<Rightarrow> (errno + int) \<times> 'a sem_state_scheme" where
  "do_semget c e who key nsems flag s =
     (case sem_find_key c key s of
        Some i \<Rightarrow>
          (let sem = sem_list s ! i in
           (if flag AND IPC_CREAT c \<noteq> 0 \<and> flag AND IPC_EXCL c \<noteq> 0 then Inl EEXIST
            else if \<not> check_perm e (ss_perm sem) who flag then Inl EACCES
            else if nsems > ss_nsems sem then Inl EINVAL
            else Inr (ss_id sem), s))
      | None \<Rightarrow>
          if flag AND IPC_CREAT c = 0 then (Inl ENOENT, s)
          else if nsems < 0 \<or> nsems \<ge> int (SEMMSL c) then (Inl EINVAL, s)
          else if length (sem_list s) = SEMMNI c then (Inl ENOSPC, s)
          else (Inr (next_id s),
                s\<lparr>sem_list := sem_list s @ [new_sem_struct c e who key nsems flag (next_id s)],
                  next_id := next_ident (next_id s)\<rparr>))"

section \<open>Waiting lists\<close>

definition send_message_to_process :: "int \<Rightarrow> errno \<Rightarrow> 'a sem_state_scheme \<Rightarrow> 'a sem_state_scheme" where
  "send_message_to_process who ret s = s\<lparr>sent := sent s @ [(who, ret)]\<rparr>"

text \<open>Taking entry \<open>j\<close> out of a list of \<open>n\<close> entries with \<^verbatim>\<open>memmove\<close>.  The size of the move is
  \<open>n - j - 1\<close> entries, and what lies behind the count stays.\<close>

definition drop_entry :: "nat \<Rightarrow> nat \<Rightarrow> waiting list \<Rightarrow> waiting list option" where
  "drop_entry j n ws =
     (if j < n \<and> n \<le> length ws
      then Some (take j ws @ take (n - j - 1) (drop (j + 1) ws) @ drop (n - 1) ws) else None)"

text \<open>Appending a process with \<^verbatim>\<open>realloc\<close>: the block is resized to the new count.  Should the 16-bit
  count have wrapped to 0, the resizing to no bytes is taken to return \<^verbatim>\<open>NULL\<close>.\<close>

definition push_entry :: "int \<Rightarrow> int \<Rightarrow> nat \<Rightarrow> waiting list option \<Rightarrow> waiting list option" where
  "push_entry who val n ws =
     (if n = 0 then None
      else let old = (case ws of None \<Rightarrow> [] | Some b \<Rightarrow> b);
               new = take n old @ replicate (n - length old) \<lparr>w_who = 0, w_val = 0\<rparr>
           in Some (new[n - 1 := \<lparr>w_who = who, w_val = val\<rparr>]))"

text \<open>The entries that a loop up to the count reads.\<close>

definition listed :: "16 word \<Rightarrow> waiting list option \<Rightarrow> waiting list option" where
  "listed n ws =
     (case ws of
        None \<Rightarrow> if n = 0 then Some [] else None
      | Some b \<Rightarrow> if unat n \<le> length b then Some (take (unat n) b) else None)"

text \<open>The processes that really wait.\<close>

definition zwaiters :: "semaphore \<Rightarrow> waiting list" where
  "zwaiters sm = (case zlist sm of None \<Rightarrow> [] | Some b \<Rightarrow> take (unat (semzcnt sm)) b)"

definition nwaiters :: "semaphore \<Rightarrow> waiting list" where
  "nwaiters sm = (case nlist sm of None \<Rightarrow> [] | Some b \<Rightarrow> take (unat (semncnt sm)) b)"

text \<open>A loop over an array that may fail in an element and collects the processes to be told.\<close>

fun gather :: "('a \<Rightarrow> ('a \<times> 'w list) option) \<Rightarrow> 'a list \<Rightarrow> ('a list \<times> 'w list) option" where
  "gather f [] = Some ([], [])"
| "gather f (x # xs) =
     (case f x of
        None \<Rightarrow> None
      | Some (y, w) \<Rightarrow>
          (case gather f xs of None \<Rightarrow> None | Some (ys, w') \<Rightarrow> Some (y # ys, w @ w')))"

lemma gather_unchanged: "\<forall>x \<in> set xs. f x = Some (x, []) \<Longrightarrow> gather f xs = Some (xs, [])"
  by (induction xs) auto

lemma gather_one:
  assumes "k < length xs" "\<forall>j < length xs. j \<noteq> k \<longrightarrow> f (xs ! j) = Some (xs ! j, [])"
    and "f (xs ! k) = Some (y, w)"
  shows "gather f xs = Some (xs[k := y], w)"
  using assms
proof (induction xs arbitrary: k)
  case (Cons x xs)
  show ?case
  proof (cases k)
    case 0
    have "f z = Some (z, [])" if "z \<in> set xs" for z
    proof -
      from that obtain j where "j < length xs" "z = xs ! j" by (auto simp: in_set_conv_nth)
      with Cons.prems(2) 0 show ?thesis by (auto dest!: spec [where x = "Suc j"])
    qed
    then show ?thesis using Cons.prems(3) 0 by (simp add: gather_unchanged)
  next
    case (Suc j)
    have "f x = Some (x, [])" using Cons.prems(2) Suc by (auto dest!: spec [where x = 0])
    moreover have "gather f xs = Some (xs[j := y], w)"
    proof (rule Cons.IH)
      show "\<forall>l < length xs. l \<noteq> j \<longrightarrow> f (xs ! l) = Some (xs ! l, [])"
        using Cons.prems(2) Suc by (metis Suc_less_eq length_Cons nat.inject nth_Cons_Suc)
    qed (use Cons.prems Suc in auto)
    ultimately show ?thesis using Suc by simp
  qed
qed simp

section \<open>Waking up\<close>

text \<open>The first half of the loop body of \<^verbatim>\<open>update_one_semaphore\<close>: a process that waits for zero.\<close>

definition wake_zero :: "semaphore \<Rightarrow> (semaphore \<times> int list) option" where
  "wake_zero sm =
     (case zlist sm of
        None \<Rightarrow> Some (sm, [])
      | Some b \<Rightarrow>
          if semval sm \<noteq> 0 then Some (sm, [])
          else (case drop_entry 0 (unat (semzcnt sm)) b of
                  None \<Rightarrow> None
                | Some b' \<Rightarrow> Some (sm\<lparr>zlist := Some b', semzcnt := semzcnt sm - 1\<rparr>, [w_who (b ! 0)])))"

text \<open>The second half: the first process whose decrease is possible.\<close>

definition wake_increase :: "semaphore \<Rightarrow> (semaphore \<times> int list) option" where
  "wake_increase sm =
     (case nlist sm of
        None \<Rightarrow> Some (sm, [])
      | Some b \<Rightarrow>
          (case listed (semncnt sm) (Some b) of
             None \<Rightarrow> None
           | Some ws \<Rightarrow>
               (case first_idx (\<lambda>w. w_val w \<le> uint (semval sm)) ws of
                  None \<Rightarrow> Some (sm, [])
                | Some j \<Rightarrow>
                    (case drop_entry j (unat (semncnt sm)) b of
                       None \<Rightarrow> None
                     | Some b' \<Rightarrow>
                         Some (sm\<lparr>semval := semval sm - word_of_int (w_val (b ! j)),
                                  nlist := Some b', semncnt := semncnt sm - 1\<rparr>,
                               [w_who (b ! j)])))))"

definition update_semaphore :: "semaphore \<Rightarrow> (semaphore \<times> int list) option" where
  "update_semaphore sm =
     (case wake_zero sm of
        None \<Rightarrow> None
      | Some (sm1, w1) \<Rightarrow>
          (case wake_increase sm1 of
             None \<Rightarrow> None
           | Some (sm2, w2) \<Rightarrow> Some (sm2, w1 @ w2)))"

text \<open>\<^verbatim>\<open>update_one_semaphore(sem, 0)\<close> on the first \<^verbatim>\<open>sem_nsems\<close> semaphores of a set.\<close>

definition update_set :: "sem_struct \<Rightarrow> (sem_struct \<times> int list) option" where
  "update_set x =
     (let n = nat (ss_nsems x) in
      case gather update_semaphore (take n (ss_sems x)) of
        None \<Rightarrow> None
      | Some (ys, w) \<Rightarrow> Some (x\<lparr>ss_sems := ys @ drop n (ss_sems x)\<rparr>, w))"

definition update_semaphores :: "'a sem_state_scheme \<Rightarrow> 'a sem_state_scheme option" where
  "update_semaphores s =
     (case gather update_set (sem_list s) of
        None \<Rightarrow> None
      | Some (xs, w) \<Rightarrow> Some (s\<lparr>sem_list := xs, sent := sent s @ map (\<lambda>p. (p, OK)) w\<rparr>))"

text \<open>\<^verbatim>\<open>update_one_semaphore(sem, 1)\<close> tells everybody that waits, and \<^verbatim>\<open>remove_semaphore\<close> moves the last
  set of the list into the place of the removed one.\<close>

definition tell_waiters :: "semaphore \<Rightarrow> (semaphore \<times> int list) option" where
  "tell_waiters sm =
     (case (listed (semzcnt sm) (zlist sm), listed (semncnt sm) (nlist sm)) of
        (Some zs, Some ns) \<Rightarrow> Some (sm, map w_who zs @ map w_who ns)
      | _ \<Rightarrow> None)"

definition remove_semaphore :: "nat \<Rightarrow> 'a sem_state_scheme \<Rightarrow> 'a sem_state_scheme" where
  "remove_semaphore i s =
     (let n = length (sem_list s) - 1 in
      s\<lparr>sem_list := (if n \<noteq> i then (butlast (sem_list s))[i := last (sem_list s)]
                     else butlast (sem_list s))\<rparr>)"

definition remove_set :: "nat \<Rightarrow> 'a sem_state_scheme \<Rightarrow> 'a sem_state_scheme option" where
  "remove_set i s =
     (let x = sem_list s ! i in
      case gather tell_waiters (take (nat (ss_nsems x)) (ss_sems x)) of
        None \<Rightarrow> None
      | Some (_, told) \<Rightarrow>
          Some (remove_semaphore i (s\<lparr>sent := sent s @ map (\<lambda>p. (p, EIDRM)) told\<rparr>)))"

section \<open>\<^verbatim>\<open>semctl\<close>\<close>

datatype semctl_cmd =
    SemStat bool | SemSet | SemRmid | SemInfoCmd | SemGetAll | SemGetNCnt | SemGetPid | SemGetVal
  | SemGetZCnt | SemSetAll | SemSetVal int | SemOther

text \<open>
  The commands; \<open>SemStat\<close> tells whether the buffer is a null pointer, \<open>SemInfoCmd\<close> stands for the
  three commands that do nothing, and \<open>SemSetVal\<close> carries the value.  The answers are the value that
  goes to \<^verbatim>\<open>SHMCTL_RET\<close>, if any, and the data copied to the caller.
\<close>

datatype sem_answer =
    NoAnswer | AnswerInt int | AnswerStat sem_struct | AnswerVals "16 word list"

text \<open>The loop of \<^verbatim>\<open>SETALL\<close>: it stops at the first value out of range, after the earlier ones have
  been stored.\<close>

fun set_values :: "int \<Rightarrow> 16 word list \<Rightarrow> semaphore list \<Rightarrow> bool \<times> semaphore list" where
  "set_values mx (v # vs) (x # xs) =
     (if uint v > mx then (False, x # xs)
      else case set_values mx vs xs of (ok, ys) \<Rightarrow> (ok, x\<lparr>semval := v\<rparr> # ys))"
| "set_values mx _ xs = (True, xs)"

definition put_set :: "nat \<Rightarrow> sem_struct \<Rightarrow> 'a sem_state_scheme \<Rightarrow> 'a sem_state_scheme" where
  "put_set i x s = s\<lparr>sem_list := (sem_list s)[i := x]\<rparr>"

definition get_field ::
    "int \<Rightarrow> sem_struct \<Rightarrow> (semaphore \<Rightarrow> int) \<Rightarrow> 'a sem_state_scheme \<Rightarrow> (errno \<times> sem_answer \<times> 'a sem_state_scheme) option" where
  "get_field num x f s =
     (if num < 0 \<or> num \<ge> ss_nsems x then Some (EINVAL, NoAnswer, s)
      else Some (OK, AnswerInt (f (ss_sems x ! nat num)), s))"

definition semctl_set ::
    "sem_env \<Rightarrow> int \<Rightarrow> nat \<Rightarrow> 'a sem_state_scheme \<Rightarrow> (errno \<times> sem_answer \<times> 'a sem_state_scheme) option" where
  "semctl_set e who i s =
     (let x = sem_list s ! i in
      if \<not> owner_or_root (ss_perm x) (se_uid e who) then Some (EPERM, NoAnswer, s)
      else if se_copy e \<noteq> OK then Some (EINVAL, NoAnswer, s)
      else Some (OK, NoAnswer,
             put_set i (x\<lparr>ss_perm := set_perm (se_perm e) (ss_perm x), ss_ctime := se_time e\<rparr>) s))"

definition semctl_setall ::
    "ipc_conf \<Rightarrow> sem_env \<Rightarrow> nat \<Rightarrow> 'a sem_state_scheme \<Rightarrow> (errno \<times> sem_answer \<times> 'a sem_state_scheme) option" where
  "semctl_setall c e i s =
     (let x = sem_list s ! i; n = nat (ss_nsems x) in
      if \<not> se_malloc e then Some (ENOMEM, NoAnswer, s)
      else if se_copy e \<noteq> OK then Some (EINVAL, NoAnswer, s)
      else case set_values (SEMVMX c) (take n (se_vals e)) (ss_sems x) of
             (ok, ys) \<Rightarrow>
               map_option (\<lambda>s'. (if ok then OK else ERANGE, NoAnswer, s'))
                 (update_semaphores (put_set i (x\<lparr>ss_sems := ys\<rparr>) s)))"

definition semctl_setval ::
    "ipc_conf \<Rightarrow> sem_env \<Rightarrow> int \<Rightarrow> int \<Rightarrow> int \<Rightarrow> nat \<Rightarrow> 'a sem_state_scheme \<Rightarrow>
     (errno \<times> sem_answer \<times> 'a sem_state_scheme) option" where
  "semctl_setval c e who num val i s =
     (let x = sem_list s ! i in
      if \<not> check_perm e (ss_perm x) who 146 then Some (EACCES, NoAnswer, s)
      else if num < 0 \<or> num \<ge> ss_nsems x then Some (EINVAL, NoAnswer, s)
      else if val < 0 \<or> val > SEMVMX c then Some (ERANGE, NoAnswer, s)
      else map_option (\<lambda>s'. (OK, NoAnswer, s'))
             (update_semaphores
               (put_set i (x\<lparr>ss_sems := (ss_sems x)
                  [nat num := (ss_sems x ! nat num)\<lparr>semval := word_of_int val\<rparr>],
                  ss_ctime := se_time e\<rparr>) s)))"

definition do_semctl ::
    "ipc_conf \<Rightarrow> sem_env \<Rightarrow> int \<Rightarrow> int \<Rightarrow> int \<Rightarrow> semctl_cmd \<Rightarrow> 'a sem_state_scheme \<Rightarrow>
     (errno \<times> sem_answer \<times> 'a sem_state_scheme) option" where
  "do_semctl c e who sid num cmd s =
     (case sem_find_id sid s of
        None \<Rightarrow> Some (EINVAL, NoAnswer, s)
      | Some i \<Rightarrow>
          (let x = sem_list s ! i in
           if cmd \<noteq> SemSet \<and> cmd \<noteq> SemRmid \<and> \<not> check_perm e (ss_perm x) who 292
           then Some (EACCES, NoAnswer, s)
           else case cmd of
             SemStat null \<Rightarrow>
               (if null then Some (EFAULT, NoAnswer, s)
                else if se_copy e \<noteq> OK then Some (EINVAL, NoAnswer, s)
                else Some (OK, AnswerStat x, s))
           | SemSet \<Rightarrow> semctl_set e who i s
           | SemRmid \<Rightarrow>
               (if \<not> owner_or_root (ss_perm x) (se_uid e who) then Some (EPERM, NoAnswer, s)
                else map_option (\<lambda>s'. (OK, NoAnswer, s')) (remove_set i s))
           | SemInfoCmd \<Rightarrow> Some (OK, NoAnswer, s)
           | SemGetAll \<Rightarrow>
               (if \<not> se_malloc e then Some (ENOMEM, NoAnswer, s)
                else if se_copy e \<noteq> OK then Some (EINVAL, NoAnswer, s)
                else Some (OK, AnswerVals (map semval (take (nat (ss_nsems x)) (ss_sems x))), s))
           | SemGetNCnt \<Rightarrow> get_field num x (\<lambda>sm. uint (semncnt sm)) s
           | SemGetPid \<Rightarrow> get_field num x sempid s
           | SemGetVal \<Rightarrow> get_field num x (\<lambda>sm. uint (semval sm)) s
           | SemGetZCnt \<Rightarrow> get_field num x (\<lambda>sm. uint (semzcnt sm)) s
           | SemSetAll \<Rightarrow> semctl_setall c e i s
           | SemSetVal val \<Rightarrow> semctl_setval c e who num val i s
           | SemOther \<Rightarrow> Some (EINVAL, NoAnswer, s)))"

section \<open>\<^verbatim>\<open>semop\<close>\<close>

definition would_block :: "ipc_conf \<Rightarrow> sem_struct \<Rightarrow> sembuf \<Rightarrow> bool" where
  "would_block c x b \<longleftrightarrow>
     (let val = uint (semval (ss_sems x ! sb_num b)) in
      sb_flg b AND IPC_NOWAIT c \<noteq> 0 \<and>
      (sb_op b = 0 \<and> val \<noteq> 0 \<or> sb_op b < 0 \<and> - sb_op b > val))"

text \<open>The \<^verbatim>\<open>realloc\<close> of a waiting list with the entry written behind it; \<open>None\<close> is the lost list.\<close>

definition grow ::
    "sem_env \<Rightarrow> sembuf \<Rightarrow> int \<Rightarrow> int \<Rightarrow> nat \<Rightarrow> waiting list option \<Rightarrow> waiting list option" where
  "grow e b who val n ws = (if se_realloc e (sb_num b) then push_entry who val n ws else None)"

text \<open>One operation: the semaphore afterwards and whether the caller sleeps; the outer sum is the
  missing permission, \<open>Inr None\<close> the break when a waiting list is lost.\<close>

definition one_semop ::
    "sem_env \<Rightarrow> ipc_perm \<Rightarrow> int \<Rightarrow> sembuf \<Rightarrow> semaphore \<Rightarrow> semaphore \<times> (unit + bool option)" where
  "one_semop e perm who b sm0 =
     (let sm = sm0\<lparr>sempid := se_pid e who\<rparr>; op_n = sb_op b in
      if op_n > 0 then
        (if \<not> check_perm e perm who 146 then (sm, Inl ())
         else (sm\<lparr>semval := semval sm + word_of_int op_n\<rparr>, Inr (Some False)))
      else if op_n = 0 then
        (if semval sm = 0 then (sm, Inr (Some False))
         else let sm1 = sm\<lparr>semzcnt := semzcnt sm + 1\<rparr> in
           (case grow e b who op_n (unat (semzcnt sm1)) (zlist sm1) of
              None \<Rightarrow> (sm1\<lparr>zlist := None\<rparr>, Inr None)
            | Some ws \<Rightarrow> (sm1\<lparr>zlist := Some ws\<rparr>, Inr (Some True))))
      else
        (if \<not> check_perm e perm who 146 then (sm, Inl ())
         else if uint (semval sm) \<ge> - op_n
         then (sm\<lparr>semval := semval sm + word_of_int op_n\<rparr>, Inr (Some False))
         else let sm1 = sm\<lparr>semncnt := semncnt sm + 1\<rparr> in
           (case grow e b who (- op_n) (unat (semncnt sm1)) (nlist sm1) of
              None \<Rightarrow> (sm1\<lparr>nlist := None\<rparr>, Inr None)
            | Some ws \<Rightarrow> (sm1\<lparr>nlist := Some ws\<rparr>, Inr (Some True)))))"

text \<open>The loop over the operations, with the number of replies that are withheld.\<close>

fun semop_loop ::
    "sem_env \<Rightarrow> int \<Rightarrow> sembuf list \<Rightarrow> sem_struct \<Rightarrow> nat \<Rightarrow> errno \<times> sem_struct \<times> nat" where
  "semop_loop e who [] x n = (OK, x, n)"
| "semop_loop e who (b # bs) x n =
     (case one_semop e (ss_perm x) who b (ss_sems x ! sb_num b) of
        (sm, res) \<Rightarrow>
          (let x' = x\<lparr>ss_sems := (ss_sems x)[sb_num b := sm]\<rparr> in
           case res of
             Inl _ \<Rightarrow> (EACCES, x', n)
           | Inr None \<Rightarrow> (OK, x', n)
           | Inr (Some sleeps) \<Rightarrow> semop_loop e who bs x' (if sleeps then n + 1 else n)))"

text \<open>The checks in front of the loop.\<close>

definition semop_checks ::
    "ipc_conf \<Rightarrow> sem_env \<Rightarrow> int \<Rightarrow> nat \<Rightarrow> sem_struct \<Rightarrow> errno" where
  "semop_checks c e who nsops x =
     (if nsops = 0 then EINVAL
      else if nsops > SEMOPM c then E2BIG
      else if \<not> check_perm e (ss_perm x) who 292 then EACCES
      else if \<not> se_malloc e then ENOMEM
      else if se_copy e \<noteq> OK then EINVAL
      else if \<not> list_all (\<lambda>b. int (sb_num b) < ss_nsems x) (take nsops (se_ops e)) then EFBIG
      else if \<not> distinct (map sb_num (take nsops (se_ops e))) then EINVAL
      else if list_ex (would_block c x) (take nsops (se_ops e)) then EAGAIN
      else OK)"

definition do_semop ::
    "ipc_conf \<Rightarrow> sem_env \<Rightarrow> int \<Rightarrow> int \<Rightarrow> nat \<Rightarrow> 'a sem_state_scheme \<Rightarrow> 'a sem_state_scheme option" where
  "do_semop c e who sid nsops s =
     (let (r, s1, no_reply) =
        (case sem_find_id sid s of
           None \<Rightarrow> (EINVAL, s, 0)
         | Some i \<Rightarrow>
             (let r = semop_checks c e who nsops (sem_list s ! i) in
              if r \<noteq> OK then (r, s, 0)
              else case semop_loop e who (take nsops (se_ops e)) (sem_list s ! i) 0 of
                     (r', x, n) \<Rightarrow> (r', put_set i x s, n)))
      in update_semaphores
           (if r \<noteq> OK \<or> no_reply = 0 then send_message_to_process who r s1 else s1))"

section \<open>Processes that exit\<close>

definition remove_waiter ::
    "int \<Rightarrow> 16 word \<Rightarrow> waiting list option \<Rightarrow> (16 word \<times> waiting list option \<times> int list) option" where
  "remove_waiter pt n ws =
     (case (listed n ws, ws) of
        (None, _) \<Rightarrow> None
      | (Some ks, None) \<Rightarrow> Some (n, None, [])
      | (Some ks, Some b) \<Rightarrow>
          (case first_idx (\<lambda>w. w_who w = pt) ks of
             None \<Rightarrow> Some (n, Some b, [])
           | Some k \<Rightarrow>
               (case drop_entry k (unat n) b of
                  None \<Rightarrow> None
                | Some b' \<Rightarrow> Some (n - 1, Some b', [pt]))))"

definition remove_from_semaphore :: "int \<Rightarrow> semaphore \<Rightarrow> (semaphore \<times> int list) option" where
  "remove_from_semaphore pt sm =
     (case remove_waiter pt (semzcnt sm) (zlist sm) of
        None \<Rightarrow> None
      | Some (zn, zl, w1) \<Rightarrow>
          (case remove_waiter pt (semncnt sm) (nlist sm) of
             None \<Rightarrow> None
           | Some (nn, nl, w2) \<Rightarrow>
               Some (sm\<lparr>semzcnt := zn, zlist := zl, semncnt := nn, nlist := nl\<rparr>, w1 @ w2)))"

definition remove_from_set :: "int \<Rightarrow> sem_struct \<Rightarrow> (sem_struct \<times> int list) option" where
  "remove_from_set pt x =
     (let n = nat (ss_nsems x) in
      case gather (remove_from_semaphore pt) (take n (ss_sems x)) of
        None \<Rightarrow> None
      | Some (ys, w) \<Rightarrow> Some (x\<lparr>ss_sems := ys @ drop n (ss_sems x)\<rparr>, w))"

definition remove_process :: "int \<Rightarrow> 'a sem_state_scheme \<Rightarrow> 'a sem_state_scheme option" where
  "remove_process pt s =
     (case gather (remove_from_set pt) (sem_list s) of
        None \<Rightarrow> None
      | Some (xs, w) \<Rightarrow> Some (s\<lparr>sem_list := xs, sent := sent s @ map (\<lambda>p. (p, EINTR)) w\<rparr>))"

text \<open>\<^verbatim>\<open>sem_process_vm_notify\<close>: the successive answers of \<^verbatim>\<open>vm_query_exit\<close>.\<close>

fun sem_process_vm_notify :: "(int \<times> int) list \<Rightarrow> 'a sem_state_scheme \<Rightarrow> 'a sem_state_scheme option" where
  "sem_process_vm_notify [] s = Some s"
| "sem_process_vm_notify ((r, pt) # rs) s =
     (if r < 0 then Some s
      else case remove_process pt s of
             None \<Rightarrow> None
           | Some s' \<Rightarrow> if r = 0 then Some s' else sem_process_vm_notify rs s')"

end
