(* ===== verification/IpcShm.thy ===== *)
theory IpcShm
  imports IpcSem
begin

text \<open>
  The shared memory segments and the main loop of the IPC server: \<^verbatim>\<open>src/Project_2/servers/ipc/shm.c\<close>
  and \<^verbatim>\<open>main.c\<close>.

  The segments extend the state of the semaphores, since both take their identities from the same
  counter.  The calls to the virtual memory server are logged in \<open>vm_log\<close>; its answers are the fields
  of \<open>vm_env\<close>.  Sizes are signed 32-bit integers, and the rounding wraps as they do.
\<close>

section \<open>State\<close>

record shm_struct =
  sh_key :: int
  sh_id :: int
  sh_perm :: ipc_perm
  sh_segsz :: int
  sh_atime :: int
  sh_dtime :: int
  sh_ctime :: int
  sh_cpid :: int
  sh_lpid :: int
  sh_nattch :: int
  sh_page :: int
  sh_phys :: int

datatype vm_call =
    VmMmap int int | VmMunmap int int | VmRemap int int int int | VmUnmap int int

text \<open>\<open>VmMmap\<close> and \<open>VmMunmap\<close> carry the page and the size, \<open>VmRemap\<close> the process, its address, the
  server's page and the size, \<open>VmUnmap\<close> the process and its address.\<close>

record ipc_state = sem_state +
  shm_list :: "shm_struct list"
  vm_log :: "vm_call list"

record vm_env =
  ve_mmap :: "int option"
  ve_getphys :: "int \<Rightarrow> int"
  ve_client_phys :: int
  ve_remap :: "int option"
  ve_refcount :: "int \<Rightarrow> 8 word"

definition MAX_SHM_NR :: nat where "MAX_SHM_NR = 1024"

definition s32 :: "int \<Rightarrow> int" where "s32 n = sint (word_of_int n :: 32 word)"

text \<open>Rounding a size up to a multiple of the page size.\<close>

definition round_up :: "ipc_conf \<Rightarrow> int \<Rightarrow> int" where
  "round_up c n =
     (if n mod I386_PAGE_SIZE c \<noteq> 0 then s32 (n + (I386_PAGE_SIZE c - n mod I386_PAGE_SIZE c)) else n)"

definition shm_find_key :: "ipc_conf \<Rightarrow> int \<Rightarrow> ipc_state \<Rightarrow> nat option" where
  "shm_find_key c key s =
     (if key = IPC_PRIVATE c then None else first_idx (\<lambda>x. sh_key x = key) (shm_list s))"

definition shm_find_id :: "int \<Rightarrow> ipc_state \<Rightarrow> nat option" where
  "shm_find_id sid s = first_idx (\<lambda>x. sh_id x = sid) (shm_list s)"

section \<open>\<^verbatim>\<open>shmget\<close>\<close>

definition new_shm_struct ::
    "sem_env \<Rightarrow> vm_env \<Rightarrow> int \<Rightarrow> int \<Rightarrow> int \<Rightarrow> 32 word \<Rightarrow> int \<Rightarrow> int \<Rightarrow> shm_struct" where
  "new_shm_struct e v who key segsz flag sid page =
     \<lparr>sh_key = key, sh_id = sid,
      sh_perm = \<lparr>ip_uid = se_uid e who, ip_gid = se_gid e who, ip_cuid = se_uid e who,
                 ip_cgid = se_gid e who, ip_mode = flag AND 511\<rparr>,
      sh_segsz = segsz, sh_atime = 0, sh_dtime = 0, sh_ctime = se_time e,
      sh_cpid = se_pid e who, sh_lpid = 0, sh_nattch = 0, sh_page = page,
      sh_phys = ve_getphys v page\<rparr>"

definition do_shmget ::
    "ipc_conf \<Rightarrow> sem_env \<Rightarrow> vm_env \<Rightarrow> int \<Rightarrow> int \<Rightarrow> int \<Rightarrow> 32 word \<Rightarrow> ipc_state \<Rightarrow>
     (errno + int) \<times> ipc_state" where
  "do_shmget c e v who key segsz flag s =
     (case shm_find_key c key s of
        Some i \<Rightarrow>
          (let shm = shm_list s ! i in
           (if \<not> check_perm e (sh_perm shm) who flag then Inl EACCES
            else if flag AND IPC_CREAT c \<noteq> 0 \<and> flag AND IPC_EXCL c \<noteq> 0 then Inl EEXIST
            else if segsz \<noteq> 0 \<and> sh_segsz shm < segsz then Inl EINVAL
            else Inr (sh_id shm), s))
      | None \<Rightarrow>
          if flag AND IPC_CREAT c = 0 then (Inl ENOENT, s)
          else if segsz \<le> 0 then (Inl EINVAL, s)
          else if round_up c segsz \<le> 0 then (Inl EINVAL, s)
          else if length (shm_list s) = MAX_SHM_NR then (Inl ENOMEM, s)
          else if next_id s = SHMMNI c then (Inl ENOSPC, s)
          else (case ve_mmap v of
                  None \<Rightarrow> (Inl ENOMEM, s)
                | Some page \<Rightarrow>
                    (Inr (next_id s),
                     s\<lparr>shm_list := shm_list s @ [new_shm_struct e v who key segsz flag (next_id s) page],
                       next_id := next_ident (next_id s),
                       vm_log := vm_log s @ [VmMmap page (round_up c segsz)]\<rparr>)))"

section \<open>\<^verbatim>\<open>shmat\<close>\<close>

definition put_shm :: "nat \<Rightarrow> shm_struct \<Rightarrow> ipc_state \<Rightarrow> ipc_state" where
  "put_shm i x s = s\<lparr>shm_list := (shm_list s)[i := x]\<rparr>"

definition shmat_addr :: "ipc_conf \<Rightarrow> int \<Rightarrow> 32 word \<Rightarrow> int option" where
  "shmat_addr c addr flag =
     (if addr \<noteq> 0 \<and> addr mod I386_PAGE_SIZE c \<noteq> 0 then
        if flag AND SHM_RND c \<noteq> 0 then Some (addr - addr mod I386_PAGE_SIZE c) else None
      else Some addr)"

definition do_shmat ::
    "ipc_conf \<Rightarrow> sem_env \<Rightarrow> vm_env \<Rightarrow> int \<Rightarrow> int \<Rightarrow> int \<Rightarrow> 32 word \<Rightarrow> ipc_state \<Rightarrow>
     (errno + int) \<times> ipc_state" where
  "do_shmat c e v who sid addr0 flag s =
     (case shmat_addr c addr0 flag of
        None \<Rightarrow> (Inl EINVAL, s)
      | Some addr \<Rightarrow>
          (case shm_find_id sid s of
             None \<Rightarrow> (Inl EINVAL, s)
           | Some i \<Rightarrow>
               (let shm = shm_list s ! i; mode = (if flag AND SHM_RDONLY c \<noteq> 0 then 292 else 438) in
                if \<not> check_perm e (sh_perm shm) who mode then (Inl EACCES, s)
                else (case ve_remap v of
                        None \<Rightarrow> (Inl ENOMEM, s)
                      | Some ret \<Rightarrow>
                          (Inr ret,
                           (put_shm i (shm\<lparr>sh_atime := se_time e, sh_lpid := se_pid e who\<rparr>) s)
                             \<lparr>vm_log := vm_log s @ [VmRemap who addr (sh_page shm) (sh_segsz shm)]\<rparr>)))))"

section \<open>Updating the reference counts\<close>

text \<open>
  The scan over the list: the segments that stay, with their count, and the calls of \<^verbatim>\<open>munmap\<close>.  A
  count of 255, the answer \<^verbatim>\<open>(u8_t) -1\<close>, leaves the segment out without unmapping it.
\<close>

definition marked_for_removal :: "ipc_conf \<Rightarrow> shm_struct \<Rightarrow> bool" where
  "marked_for_removal c x \<longleftrightarrow> ip_mode (sh_perm x) AND SHM_DEST c \<noteq> 0"

fun refresh_segments ::
    "ipc_conf \<Rightarrow> vm_env \<Rightarrow> shm_struct list \<Rightarrow> shm_struct list \<times> vm_call list" where
  "refresh_segments c v [] = ([], [])"
| "refresh_segments c v (x # xs) =
     (case refresh_segments c v xs of
        (ys, calls) \<Rightarrow>
          (let rc = ve_refcount v (sh_page x) in
           if rc = - 1 then (ys, calls)
           else let x' = x\<lparr>sh_nattch := uint rc - 1\<rparr> in
             if sh_nattch x' \<noteq> 0 \<or> \<not> marked_for_removal c x then (x' # ys, calls)
             else (ys, VmMunmap (sh_page x) (round_up c (sh_segsz x)) # calls)))"

definition update_refcount_and_destroy :: "ipc_conf \<Rightarrow> vm_env \<Rightarrow> ipc_state \<Rightarrow> ipc_state" where
  "update_refcount_and_destroy c v s =
     (case refresh_segments c v (shm_list s) of
        (ys, calls) \<Rightarrow> s\<lparr>shm_list := ys, vm_log := vm_log s @ calls\<rparr>)"

section \<open>\<^verbatim>\<open>shmdt\<close>\<close>

definition detach :: "sem_env \<Rightarrow> int \<Rightarrow> int \<Rightarrow> int \<Rightarrow> ipc_state \<Rightarrow> ipc_state" where
  "detach e who addr paddr s =
     (case first_idx (\<lambda>x. sh_phys x = paddr) (shm_list s) of
        None \<Rightarrow> s
      | Some i \<Rightarrow>
          (put_shm i ((shm_list s ! i)\<lparr>sh_atime := se_time e, sh_lpid := se_pid e who\<rparr>) s)
            \<lparr>vm_log := vm_log s @ [VmUnmap who addr]\<rparr>)"

definition do_shmdt ::
    "ipc_conf \<Rightarrow> sem_env \<Rightarrow> vm_env \<Rightarrow> int \<Rightarrow> int \<Rightarrow> ipc_state \<Rightarrow> errno \<times> ipc_state" where
  "do_shmdt c e v who addr s =
     (let paddr = ve_client_phys v in
      if paddr = 0 then (EINVAL, s)
      else (OK, update_refcount_and_destroy c v (detach e who addr paddr s)))"

section \<open>\<^verbatim>\<open>shmctl\<close>\<close>

datatype shmctl_cmd = ShmStatId | ShmSet | ShmRmid | ShmIpcInfo | ShmInfoCmd | ShmStatIndex | ShmOther

text \<open>\<open>ShmStatId\<close> is \<^verbatim>\<open>IPC_STAT\<close> and \<open>ShmStatIndex\<close> is \<^verbatim>\<open>SHM_STAT\<close>, which takes an index.  The answers
  are the structure copied out and the value in \<^verbatim>\<open>SHMCTL_RET\<close>.\<close>

datatype shm_answer =
    ShmNone | ShmDs shm_struct "int option" | ShmLimits int int | ShmUsage int int int

definition last_index :: "ipc_state \<Rightarrow> int" where
  "last_index s = (if length (shm_list s) = 0 then 0 else int (length (shm_list s)) - 1)"

definition shm_total :: "ipc_conf \<Rightarrow> ipc_state \<Rightarrow> int" where
  "shm_total c s = sum_list (map (\<lambda>x. sh_segsz x div I386_PAGE_SIZE c) (shm_list s))"

definition shmctl_stat ::
    "ipc_conf \<Rightarrow> sem_env \<Rightarrow> int \<Rightarrow> int \<Rightarrow> bool \<Rightarrow> ipc_state \<Rightarrow> errno \<times> shm_answer \<times> ipc_state" where
  "shmctl_stat c e who sid null s =
     (case shm_find_id sid s of
        None \<Rightarrow> (EINVAL, ShmNone, s)
      | Some i \<Rightarrow>
          if null then (EFAULT, ShmNone, s)
          else if \<not> check_perm e (sh_perm (shm_list s ! i)) who 292 then (EACCES, ShmNone, s)
          else if se_copy e \<noteq> OK then (EFAULT, ShmNone, s)
          else (OK, ShmDs (shm_list s ! i) None, s))"

definition shmctl_set ::
    "sem_env \<Rightarrow> int \<Rightarrow> int \<Rightarrow> ipc_state \<Rightarrow> errno \<times> shm_answer \<times> ipc_state" where
  "shmctl_set e who sid s =
     (case shm_find_id sid s of
        None \<Rightarrow> (EINVAL, ShmNone, s)
      | Some i \<Rightarrow>
          (let x = shm_list s ! i in
           if \<not> owner_or_root (sh_perm x) (se_uid e who) then (EPERM, ShmNone, s)
           else if se_copy e \<noteq> OK then (EFAULT, ShmNone, s)
           else (OK, ShmNone,
                 put_shm i (x\<lparr>sh_perm := set_perm (se_perm e) (sh_perm x), sh_ctime := se_time e\<rparr>) s)))"

definition shmctl_rmid ::
    "ipc_conf \<Rightarrow> sem_env \<Rightarrow> vm_env \<Rightarrow> int \<Rightarrow> int \<Rightarrow> ipc_state \<Rightarrow> errno \<times> shm_answer \<times> ipc_state" where
  "shmctl_rmid c e v who sid s =
     (case shm_find_id sid s of
        None \<Rightarrow> (EINVAL, ShmNone, s)
      | Some i \<Rightarrow>
          (let x = shm_list s ! i; p = sh_perm x in
           if \<not> owner_or_root p (se_uid e who) then (EPERM, ShmNone, s)
           else (OK, ShmNone, update_refcount_and_destroy c v
                  (put_shm i (x\<lparr>sh_perm := p\<lparr>ip_mode := ip_mode p OR SHM_DEST c\<rparr>\<rparr>) s))))"

definition do_shmctl ::
    "ipc_conf \<Rightarrow> sem_env \<Rightarrow> vm_env \<Rightarrow> int \<Rightarrow> int \<Rightarrow> shmctl_cmd \<Rightarrow> bool \<Rightarrow> ipc_state \<Rightarrow>
     errno \<times> shm_answer \<times> ipc_state" where
  "do_shmctl c e v who sid cmd null s =
     (case cmd of
        ShmStatId \<Rightarrow> shmctl_stat c e who sid null (update_refcount_and_destroy c v s)
      | ShmSet \<Rightarrow> shmctl_set e who sid s
      | ShmRmid \<Rightarrow> shmctl_rmid c e v who sid s
      | ShmIpcInfo \<Rightarrow>
          if null then (EFAULT, ShmNone, s)
          else if se_copy e \<noteq> OK then (EFAULT, ShmNone, s)
          else (OK, ShmLimits (int MAX_SHM_NR) (last_index s), s)
      | ShmInfoCmd \<Rightarrow>
          if null then (EFAULT, ShmNone, s)
          else if se_copy e \<noteq> OK then (EFAULT, ShmNone, s)
          else (OK, ShmUsage (int (length (shm_list s))) (shm_total c s) (last_index s), s)
      | ShmStatIndex \<Rightarrow>
          if sid < 0 \<or> sid \<ge> int (length (shm_list s)) then (EINVAL, ShmNone, s)
          else if se_copy e \<noteq> OK then (EFAULT, ShmNone, s)
          else (OK, ShmDs (shm_list s ! nat sid) (Some (sh_id (shm_list s ! nat sid))), s)
      | ShmOther \<Rightarrow> (EINVAL, ShmNone, s))"

section \<open>The main loop\<close>

text \<open>A received message: the call type selects the constructor, which carries the fields read.\<close>

datatype ipc_message =
    NotifyVm "(int \<times> int) list" | NotifyOther
  | ShmGet int int "32 word" | ShmAt int int "32 word" | ShmDt int | ShmCtl int shmctl_cmd bool
  | SemGet int int "32 word" | SemCtl int int semctl_cmd | SemOp int nat | UnknownCall

definition reply_errno :: "errno + int \<Rightarrow> errno" where
  "reply_errno r = (case r of Inl err \<Rightarrow> err | Inr _ \<Rightarrow> OK)"

text \<open>A handler of the table and the reply that follows it.\<close>

definition ipc_dispatch ::
    "ipc_conf \<Rightarrow> sem_env \<Rightarrow> vm_env \<Rightarrow> int \<Rightarrow> ipc_message \<Rightarrow> ipc_state \<Rightarrow> ipc_state option" where
  "ipc_dispatch c e v who m s =
     (case m of
        ShmGet key segsz flag \<Rightarrow>
          (case do_shmget c e v who key segsz flag s of
             (r, s') \<Rightarrow> Some (send_message_to_process who (reply_errno r) s'))
      | ShmAt sid addr flag \<Rightarrow>
          (case do_shmat c e v who sid addr flag s of
             (r, s') \<Rightarrow> Some (send_message_to_process who (reply_errno r) s'))
      | ShmDt addr \<Rightarrow>
          (case do_shmdt c e v who addr s of
             (r, s') \<Rightarrow> Some (send_message_to_process who r s'))
      | ShmCtl sid cmd null \<Rightarrow>
          (case do_shmctl c e v who sid cmd null s of
             (r, _, s') \<Rightarrow> Some (send_message_to_process who r s'))
      | SemGet key nsems flag \<Rightarrow>
          (case do_semget c e who key nsems flag s of
             (r, s') \<Rightarrow> Some (send_message_to_process who (reply_errno r) s'))
      | SemCtl sid num cmd \<Rightarrow>
          map_option (\<lambda>(r, _, s'). send_message_to_process who r s') (do_semctl c e who sid num cmd s)
      | SemOp sid nsops \<Rightarrow> do_semop c e who sid nsops s
      | _ \<Rightarrow> Some s)"

text \<open>One turn of the loop: a notification is served alone, and every other message is followed by
  the update of the reference counts.\<close>

definition ipc_main_step ::
    "ipc_conf \<Rightarrow> ipc_state \<Rightarrow> sem_env \<times> vm_env \<times> int \<times> ipc_message \<Rightarrow> ipc_state option" where
  "ipc_main_step c s = (\<lambda>(e, v, who, m).
     case m of
       NotifyVm rs \<Rightarrow> sem_process_vm_notify rs s
     | NotifyOther \<Rightarrow> Some s
     | _ \<Rightarrow> map_option (update_refcount_and_destroy c v) (ipc_dispatch c e v who m s))"

definition ipc_init :: ipc_state where
  "ipc_init = \<lparr>sem_list = [], next_id = 0x1234, sent = [], shm_list = [], vm_log = []\<rparr>"

definition is_sem_nil :: "'a sem_state_scheme \<Rightarrow> bool" where "is_sem_nil s \<longleftrightarrow> sem_list s = []"

definition is_shm_nil :: "ipc_state \<Rightarrow> bool" where "is_shm_nil s \<longleftrightarrow> shm_list s = []"

text \<open>What the handler of the termination signal prints: whether objects are left.\<close>

definition unclean_exit :: "bool \<Rightarrow> ipc_state \<Rightarrow> bool" where
  "unclean_exit sigterm s \<longleftrightarrow> sigterm \<and> (\<not> is_sem_nil s \<or> \<not> is_shm_nil s)"

end
