(* ===== verification/IpcUnits.thy ===== *)
theory IpcUnits
  imports IpcSem
begin

text \<open>
  The semaphores of the IPC server as counting semaphores.  When every operation takes or gives one
  unit, a set of the server is a list of counting semaphores with a value and a queue of callers;
  this theory states that abstract object, relates \<^verbatim>\<open>do_semop\<close> with its wake-ups to it, and derives
  the counts that users of a semaphore rely on.
\<close>

section \<open>Updates that change nothing\<close>

definition quiet :: "semaphore \<Rightarrow> bool" where
  "quiet sm \<longleftrightarrow> update_semaphore sm = Some (sm, [])"

definition quiet_set :: "sem_struct \<Rightarrow> bool" where
  "quiet_set x \<longleftrightarrow> (\<forall>sm \<in> set (take (nat (ss_nsems x)) (ss_sems x)). quiet sm)"

lemma update_set_quiet: "quiet_set x \<Longrightarrow> update_set x = Some (x, [])"
  by (simp add: quiet_set_def quiet_def update_set_def gather_unchanged Let_def)

lemma update_set_one:
  assumes "k < nat (ss_nsems x)" "nat (ss_nsems x) \<le> length (ss_sems x)"
    and "\<forall>j < nat (ss_nsems x). j \<noteq> k \<longrightarrow> quiet (ss_sems x ! j)"
    and "update_semaphore (ss_sems x ! k) = Some (y, w)"
  shows "update_set x = Some (x\<lparr>ss_sems := (ss_sems x)[k := y]\<rparr>, w)"
proof -
  let ?n = "nat (ss_nsems x)"
  have "gather update_semaphore (take ?n (ss_sems x)) = Some ((take ?n (ss_sems x))[k := y], w)"
    using assms by (intro gather_one) (auto simp: quiet_def)
  moreover have "(take ?n (ss_sems x))[k := y] @ drop ?n (ss_sems x) = (ss_sems x)[k := y]"
    using assms(1,2) by (simp add: list_update_append1 [symmetric])
  ultimately show ?thesis by (simp add: update_set_def Let_def)
qed

lemma update_semaphores_one:
  assumes "i < length (sem_list s)" "\<forall>j < length (sem_list s). j \<noteq> i \<longrightarrow> quiet_set (sem_list s ! j)"
    and "update_set (sem_list s ! i) = Some (y, w)"
  shows "update_semaphores s = Some (s\<lparr>sem_list := (sem_list s)[i := y],
                                       sent := sent s @ map (\<lambda>p. (p, OK)) w\<rparr>)"
  using gather_one [of i "sem_list s" update_set, OF assms(1) _ assms(3)] assms(2)
  by (simp add: update_semaphores_def update_set_quiet)

lemma update_semaphores_quiet:
  "\<forall>x \<in> set (sem_list s). quiet_set x \<Longrightarrow> update_semaphores s = Some s"
  by (simp add: update_semaphores_def gather_unchanged update_set_quiet)

section \<open>Semaphores of unit operations\<close>

text \<open>What a semaphore looks like when all operations so far were unit operations.\<close>

definition unit_sem :: "semaphore \<Rightarrow> bool" where
  "unit_sem sm \<longleftrightarrow>
     zlist sm = None \<and>
     (case nlist sm of None \<Rightarrow> semncnt sm = 0 | Some b \<Rightarrow> unat (semncnt sm) \<le> length b) \<and>
     (\<forall>w \<in> set (nwaiters sm). w_val w = 1) \<and>
     (nwaiters sm \<noteq> [] \<longrightarrow> semval sm = 0)"

definition unit_set :: "sem_struct \<Rightarrow> bool" where
  "unit_set x \<longleftrightarrow> 0 \<le> ss_nsems x \<and> nat (ss_nsems x) \<le> length (ss_sems x) \<and>
     (\<forall>sm \<in> set (take (nat (ss_nsems x)) (ss_sems x)). unit_sem sm)"

definition unit_state :: "'a sem_state_scheme \<Rightarrow> bool" where
  "unit_state s \<longleftrightarrow> (\<forall>x \<in> set (sem_list s). unit_set x)"

lemma nwaiters_length: "unit_sem sm \<Longrightarrow> length (nwaiters sm) = unat (semncnt sm)"
  by (auto simp: unit_sem_def nwaiters_def split: option.splits)

lemma unit_sem_quiet: "unit_sem sm \<Longrightarrow> quiet sm"
proof -
  assume u: "unit_sem sm"
  then have z: "wake_zero sm = Some (sm, [])" by (simp add: unit_sem_def wake_zero_def)
  have "wake_increase sm = Some (sm, [])"
  proof (cases "nlist sm")
    case (Some b)
    let ?ws = "take (unat (semncnt sm)) b"
    have e: "nwaiters sm = ?ws" using Some by (simp add: nwaiters_def)
    have "\<not> w_val w \<le> uint (semval sm)" if w: "w \<in> set ?ws" for w
    proof -
      have w': "w \<in> set (nwaiters sm)" using w by (simp only: e)
      then have "nwaiters sm \<noteq> []" by auto
      with u w' show ?thesis by (simp add: unit_sem_def)
    qed
    then have "first_idx (\<lambda>w. w_val w \<le> uint (semval sm)) ?ws = None"
      by (simp add: first_idx_None_iff)
    then show ?thesis using u Some by (simp add: wake_increase_def listed_def unit_sem_def)
  qed (simp add: wake_increase_def)
  with z show "quiet sm" by (simp add: quiet_def update_semaphore_def)
qed

lemma unit_set_quiet: "unit_set x \<Longrightarrow> quiet_set x"
  by (auto simp: unit_set_def quiet_set_def intro: unit_sem_quiet)

section \<open>The abstract counting semaphores\<close>

text \<open>A value and the queue of the callers that sleep.\<close>

type_synonym csem = "nat \<times> int list"

record cset =
  cs_id :: int
  cs_perm :: ipc_perm
  cs_sems :: "csem list"

definition cs_down :: "int \<Rightarrow> csem \<Rightarrow> csem \<times> (int \<times> errno) list" where
  "cs_down who = (\<lambda>(v, q). if 0 < v then ((v - 1, q), [(who, OK)]) else ((0, q @ [who]), []))"

definition cs_up :: "int \<Rightarrow> csem \<Rightarrow> csem \<times> (int \<times> errno) list" where
  "cs_up who = (\<lambda>(v, q). case q of
       [] \<Rightarrow> ((v + 1, []), [(who, OK)])
     | p # ps \<Rightarrow> ((v, ps), [(who, OK), (p, OK)]))"

definition cs_apply :: "sembuf \<Rightarrow> int \<Rightarrow> csem \<Rightarrow> csem \<times> (int \<times> errno) list" where
  "cs_apply b who = (if 0 < sb_op b then cs_up who else cs_down who)"

text \<open>Why a request is refused, in the order of the checks.\<close>

definition cs_refusal :: "ipc_conf \<Rightarrow> sem_env \<Rightarrow> int \<Rightarrow> sembuf \<Rightarrow> cset \<Rightarrow> errno" where
  "cs_refusal c e who b x =
     (if \<not> check_perm e (cs_perm x) who 292 then EACCES
      else if \<not> se_malloc e then ENOMEM
      else if se_copy e \<noteq> OK then EINVAL
      else if length (cs_sems x) \<le> sb_num b then EFBIG
      else if sb_flg b AND IPC_NOWAIT c \<noteq> 0 \<and> sb_op b < 0 \<and> fst (cs_sems x ! sb_num b) = 0 then EAGAIN
      else if \<not> check_perm e (cs_perm x) who 146 then EACCES
      else OK)"

definition cs_semop ::
    "ipc_conf \<Rightarrow> sem_env \<Rightarrow> int \<Rightarrow> int \<Rightarrow> sembuf \<Rightarrow> cset list \<Rightarrow> cset list \<times> (int \<times> errno) list" where
  "cs_semop c e who sid b A =
     (case first_idx (\<lambda>x. cs_id x = sid) A of
        None \<Rightarrow> (A, [(who, EINVAL)])
      | Some i \<Rightarrow>
          (let x = A ! i in
           if cs_refusal c e who b x \<noteq> OK then (A, [(who, cs_refusal c e who b x)])
           else case cs_apply b who (cs_sems x ! sb_num b) of
                  (cs, told) \<Rightarrow> (A[i := x\<lparr>cs_sems := (cs_sems x)[sb_num b := cs]\<rparr>], told)))"

text \<open>The abstraction of the server's sets.\<close>

definition abs_sem :: "semaphore \<Rightarrow> csem" where
  "abs_sem sm = (unat (semval sm), map w_who (nwaiters sm))"

definition abs_set :: "sem_struct \<Rightarrow> cset" where
  "abs_set x = \<lparr>cs_id = ss_id x, cs_perm = ss_perm x,
                cs_sems = map abs_sem (take (nat (ss_nsems x)) (ss_sems x))\<rparr>"

definition abs_sets :: "'a sem_state_scheme \<Rightarrow> cset list" where
  "abs_sets s = map abs_set (sem_list s)"

section \<open>One operation on one semaphore\<close>

definition unit_op :: "sembuf \<Rightarrow> bool" where
  "unit_op b \<longleftrightarrow> sb_op b = 1 \<or> sb_op b = - 1"

text \<open>Room for one more unit in the 16-bit value and count.\<close>

definition sem_load :: "csem \<Rightarrow> nat" where
  "sem_load cs = fst cs + length (snd cs)"

lemma unat16_plus_one: "unat (w :: 16 word) + 1 < 65536 \<Longrightarrow> unat (w + 1) = unat w + 1"
  by (simp add: unat_word_ariths)

lemma unit_semI:
  "zlist sm = None \<Longrightarrow> nlist sm = Some b \<Longrightarrow> unat (semncnt sm) \<le> length b \<Longrightarrow>
   \<forall>w \<in> set (take (unat (semncnt sm)) b). w_val w = 1 \<Longrightarrow> semval sm = 0 \<Longrightarrow> unit_sem sm"
  by (simp add: unit_sem_def nwaiters_def)

lemma push_entry_waiters:
  assumes "unit_sem sm" "unat (semncnt sm) + 1 < 65536"
  shows "\<exists>b. push_entry who val (unat (semncnt sm + 1)) (nlist sm) = Some b \<and>
             length b = unat (semncnt sm + 1) \<and>
             b = nwaiters sm @ [\<lparr>w_who = who, w_val = val\<rparr>]"
proof -
  let ?n = "unat (semncnt sm)"
  let ?old = "case nlist sm of None \<Rightarrow> [] | Some b \<Rightarrow> b"
  have n: "unat (semncnt sm + 1) = ?n + 1" by (rule unat16_plus_one) (rule assms(2))
  have l: "?n \<le> length ?old" using assms(1) by (auto simp: unit_sem_def split: option.splits)
  have w: "nwaiters sm = take ?n ?old"
    using assms(1) by (auto simp: unit_sem_def nwaiters_def split: option.splits)
  let ?new = "take (?n + 1) ?old @ replicate (?n + 1 - length ?old) \<lparr>w_who = 0, w_val = 0\<rparr>"
  have "?new[?n := x] = take ?n ?old @ [x]" for x
  proof (rule nth_equalityI)
    show "length (?new[?n := x]) = length (take ?n ?old @ [x])" using l by simp
  next
    fix i assume "i < length (?new[?n := x])"
    then have "i < ?n + 1" using l by simp
    then show "?new[?n := x] ! i = (take ?n ?old @ [x]) ! i"
      using l by (cases "i = ?n") (simp_all add: nth_append nth_list_update)
  qed
  then show ?thesis using w l n by (simp add: push_entry_def Let_def)
qed

lemma drop_first_waiter:
  assumes "0 < n" "n \<le> length b"
  shows "drop_entry 0 n b = Some (take (n - 1) (drop 1 b) @ drop (n - 1) b)"
  using assms by (simp add: drop_entry_def)

lemma nwaiters_simps [simp]:
  "nwaiters (sm\<lparr>semval := v\<rparr>) = nwaiters sm" "nwaiters (sm\<lparr>sempid := p\<rparr>) = nwaiters sm"
  by (simp_all add: nwaiters_def cong: option.case_cong)

lemma unit_sem_pid [simp]: "unit_sem (sm\<lparr>sempid := p\<rparr>) = unit_sem sm"
  by (simp add: unit_sem_def cong: option.case_cong)

lemma abs_sem_pid [simp]: "abs_sem (sm\<lparr>sempid := p\<rparr>) = abs_sem sm"
  by (simp add: abs_sem_def)

text \<open>Taking a unit that is there.\<close>

lemma unit_take:
  assumes "unit_sem sm" "semval sm \<noteq> 0"
  shows "unit_sem (sm\<lparr>semval := semval sm - 1\<rparr>)"
    and "abs_sem (sm\<lparr>semval := semval sm - 1\<rparr>) = (fst (abs_sem sm) - 1, snd (abs_sem sm))"
  using assms by (auto simp: unit_sem_def abs_sem_def unat_minus_one cong: option.case_cong)

text \<open>Giving a unit that nobody waits for.\<close>

lemma unit_give:
  assumes "unit_sem sm" "nwaiters sm = []" "unat (semval sm) + 1 < 65536"
  shows "unit_sem (sm\<lparr>semval := semval sm + 1\<rparr>)"
    and "abs_sem (sm\<lparr>semval := semval sm + 1\<rparr>) = (fst (abs_sem sm) + 1, [])"
  using assms unat16_plus_one [OF assms(3)] 
  by (auto simp: unit_sem_def abs_sem_def cong: option.case_cong)

text \<open>Going to sleep.\<close>

lemma unit_sleep:
  assumes "unit_sem sm" "semval sm = 0" "unat (semncnt sm) + 1 < 65536"
    and sm': "sm' = sm\<lparr>semncnt := semncnt sm + 1,
                       nlist := push_entry who 1 (unat (semncnt sm + 1)) (nlist sm)\<rparr>"
  shows "unit_sem sm' \<and> abs_sem sm' = (0, snd (abs_sem sm) @ [who])"
proof -
  obtain b where b: "push_entry who 1 (unat (semncnt sm + 1)) (nlist sm) = Some b"
      "length b = unat (semncnt sm + 1)" "b = nwaiters sm @ [\<lparr>w_who = who, w_val = 1\<rparr>]"
    using push_entry_waiters [OF assms(1,3)] by blast
  have w: "nwaiters sm' = b" using b(1,2) by (simp add: sm' nwaiters_def)
  have "unit_sem sm'"
    using assms(1,2) b w by (auto simp: sm' unit_sem_def)
  moreover have "abs_sem sm' = (0, snd (abs_sem sm) @ [who])"
    using assms(2) w b(3) by (simp add: abs_sem_def) (simp add: sm')
  ultimately show ?thesis ..
qed

text \<open>Giving a unit to the first of those who wait.\<close>

lemma unit_hand_over:
  assumes "unit_sem sm" "nwaiters sm = p # ps"
  shows "\<exists>sm'. update_semaphore (sm\<lparr>semval := semval sm + 1\<rparr>) = Some (sm', [w_who p]) \<and>
               unit_sem sm' \<and> abs_sem sm' = (0, map w_who ps)"
proof -
  let ?n = "unat (semncnt sm)"
  have v: "semval sm = 0" using assms by (simp add: unit_sem_def)
  from assms(2) obtain b where b: "nlist sm = Some b" and tb: "take ?n b = p # ps"
    by (auto simp: nwaiters_def split: option.splits)
  have n: "0 < ?n" "?n \<le> length b"
    using assms b tb by (cases "?n = 0"; simp add: unit_sem_def)+
  have b0: "b ! 0 = p" using tb n by (metis nth_Cons_0 nth_take)
  have wp: "w_val p = 1" "\<forall>w \<in> set ps. w_val w = 1"
    using assms by (simp_all add: unit_sem_def)
  define b' where "b' = take (?n - 1) (drop 1 b) @ drop (?n - 1) b"
  define sm' where "sm' = sm\<lparr>nlist := Some b', semncnt := semncnt sm - 1\<rparr>"
  have n': "unat (semncnt sm - 1) = ?n - 1" using n(1) by (intro unat_minus_one) auto
  have ps: "take (?n - 1) (drop 1 b) = ps" using tb n by (cases b; cases ?n) auto
  have lps: "length ps = ?n - 1" using n unfolding ps [symmetric] by simp
  have wake: "wake_increase (sm\<lparr>semval := 1\<rparr>) = Some (sm', [w_who p])"
    using b n b0 wp v drop_first_waiter [OF n]
    by (simp add: wake_increase_def listed_def tb sm'_def b'_def)
  have "update_semaphore (sm\<lparr>semval := semval sm + 1\<rparr>) = Some (sm', [w_who p])"
    using assms(1) v wake by (simp add: update_semaphore_def wake_zero_def unit_sem_def)
  moreover have w': "nwaiters sm' = ps"
    using n ps lps by (simp add: nwaiters_def sm'_def n' b'_def)
  moreover have "unit_sem sm'"
    using assms(1) v w' wp(2) n by (simp add: unit_sem_def sm'_def n' b'_def)
  moreover have "abs_sem sm' = (0, map w_who ps)"
    using v w' by (simp add: abs_sem_def) (simp add: sm'_def)
  ultimately show ?thesis by blast
qed

text \<open>One operation with the update that follows it, as a step of the counting semaphore.\<close>

definition op_outcome :: "int \<Rightarrow> bool \<Rightarrow> int list \<Rightarrow> (int \<times> errno) list" where
  "op_outcome who sleeps w = (if sleeps then [] else [(who, OK)]) @ map (\<lambda>p. (p, OK)) w"

lemma one_semop_unit:
  assumes u: "unit_sem sm" "unit_op b" and perm: "check_perm e perm who 146"
    and mem: "se_realloc e (sb_num b)" and room: "sem_load (abs_sem sm) + 1 < 65536"
  shows "\<exists>sm1 sleeps sm2 w. one_semop e perm who b sm = (sm1, Inr (Some sleeps)) \<and>
           update_semaphore sm1 = Some (sm2, w) \<and> unit_sem sm2 \<and>
           cs_apply b who (abs_sem sm) = (abs_sem sm2, op_outcome who sleeps w)"
proof -
  let ?sm = "sm\<lparr>sempid := se_pid e who\<rparr>"
  have u': "unit_sem ?sm" using u by simp
  have load: "unat (semval sm) + 1 < 65536" "unat (semncnt sm) + 1 < 65536"
    using room nwaiters_length [OF u(1)] by (simp_all add: sem_load_def abs_sem_def)
  consider (up) "sb_op b = 1" "nwaiters sm = []" | (hand) p ps where "sb_op b = 1" "nwaiters sm = p # ps"
    | (down) "sb_op b = - 1" "semval sm \<noteq> 0" | (sleep) "sb_op b = - 1" "semval sm = 0"
    using u(2) by (cases "nwaiters sm") (auto simp: unit_op_def)
  then show ?thesis
  proof cases
    case up
    have g: "unit_sem (?sm\<lparr>semval := semval ?sm + 1\<rparr>)"
        "abs_sem (?sm\<lparr>semval := semval ?sm + 1\<rparr>) = (fst (abs_sem sm) + 1, [])"
      using unit_give [OF u'] up(2) load(1) by simp_all
    show ?thesis using up perm g unit_sem_quiet [OF g(1)]
      by (auto simp: one_semop_def cs_apply_def cs_up_def op_outcome_def quiet_def abs_sem_def)
  next
    case hand
    obtain sm' where s: "update_semaphore (?sm\<lparr>semval := semval ?sm + 1\<rparr>) = Some (sm', [w_who p])"
        "unit_sem sm'" "abs_sem sm' = (0, map w_who ps)"
      using unit_hand_over [OF u', of p ps] hand(2) by auto
    have "semval sm = 0" using u(1) hand(2) by (simp add: unit_sem_def)
    then show ?thesis using hand perm s
      by (auto simp: one_semop_def cs_apply_def cs_up_def op_outcome_def abs_sem_def)
  next
    case down
    have "uint (semval sm) \<noteq> 0" using down(2) by (simp add: uint_0_iff)
    then have "1 \<le> uint (semval sm)" using uint_ge_0 [of "semval sm"] by linarith
    moreover have g: "unit_sem (?sm\<lparr>semval := semval ?sm - 1\<rparr>)"
        "abs_sem (?sm\<lparr>semval := semval ?sm - 1\<rparr>) = (fst (abs_sem sm) - 1, snd (abs_sem sm))"
      using unit_take [OF u'] down(2) by simp_all
    ultimately show ?thesis using down perm unit_sem_quiet [OF g(1)]
      by (auto simp: one_semop_def cs_apply_def cs_down_def op_outcome_def quiet_def abs_sem_def
          unat_gt_0)
  next
    case sleep
    define sm1 where "sm1 = ?sm\<lparr>semncnt := semncnt ?sm + 1,
        nlist := push_entry who 1 (unat (semncnt ?sm + 1)) (nlist ?sm)\<rparr>"
    have g: "unit_sem sm1 \<and> abs_sem sm1 = (0, snd (abs_sem ?sm) @ [who])"
      by (rule unit_sleep [OF u' _ _ sm1_def]) (use sleep load in simp_all)
    obtain ws where "push_entry who 1 (unat (semncnt sm + 1)) (nlist sm) = Some ws"
      using push_entry_waiters [OF u(1) load(2)] by blast
    then have "one_semop e perm who b sm = (sm1, Inr (Some True))"
      using sleep perm mem by (simp add: one_semop_def grow_def sm1_def Let_def)
    moreover have "update_semaphore sm1 = Some (sm1, [])"
      using unit_sem_quiet [of sm1] g by (simp add: quiet_def)
    moreover have "cs_apply b who (abs_sem sm) = (abs_sem sm1, op_outcome who True [])"
      using g sleep by (simp add: cs_apply_def cs_down_def op_outcome_def) (simp add: abs_sem_def)
    ultimately show ?thesis using g by blast
  qed
qed

section \<open>A request of one operation\<close>

lemma first_idx_map: "first_idx P (map f xs) = first_idx (\<lambda>x. P (f x)) xs"
  by (induction xs) simp_all

lemma uint_16_zero: "1 > uint (w :: 16 word) \<longleftrightarrow> unat w = 0"
proof
  assume "1 > uint w"
  then have "uint w = 0" using uint_ge_0 [of w] by linarith
  then show "unat w = 0" by (simp add: uint_0_iff)
qed (simp add: unat_eq_zero)

lemma semop_checks_unit:
  assumes "unit_set x" "take 1 (se_ops e) = [b]" "unit_op b" "1 \<le> SEMOPM c"
  shows "cs_refusal c e who b (abs_set x) =
     (if semop_checks c e who 1 x \<noteq> OK then semop_checks c e who 1 x
      else if check_perm e (ss_perm x) who 146 then OK else EACCES)"
    and "semop_checks c e who 1 x = OK \<Longrightarrow> sb_num b < nat (ss_nsems x)"
proof -
  have n: "int (sb_num b) < ss_nsems x \<longleftrightarrow> sb_num b < length (cs_sems (abs_set x))"
    using assms(1) by (auto simp: unit_set_def abs_set_def)
  have blk: "would_block c x b \<longleftrightarrow> sb_flg b AND IPC_NOWAIT c \<noteq> 0 \<and> sb_op b < 0 \<and>
      fst (cs_sems (abs_set x) ! sb_num b) = 0" if "int (sb_num b) < ss_nsems x"
  proof -
    from that have "sb_num b < nat (ss_nsems x)" by linarith
    then have "cs_sems (abs_set x) ! sb_num b = abs_sem (ss_sems x ! sb_num b)"
      using assms(1) by (simp add: abs_set_def unit_set_def)
    then show ?thesis
      using assms(3) uint_16_zero [of "semval (ss_sems x ! sb_num b)"]
      by (auto simp: would_block_def unit_op_def abs_sem_def Let_def)
  qed
  show "cs_refusal c e who b (abs_set x) =
     (if semop_checks c e who 1 x \<noteq> OK then semop_checks c e who 1 x
      else if check_perm e (ss_perm x) who 146 then OK else EACCES)"
    using assms(2,4) n blk
    by (simp add: cs_refusal_def semop_checks_def not_less [symmetric]) (simp add: abs_set_def)
  show "semop_checks c e who 1 x = OK \<Longrightarrow> sb_num b < nat (ss_nsems x)"
    using assms(2) by (auto simp: semop_checks_def split: if_splits)
qed

lemma abs_set_update:
  assumes "k < nat (ss_nsems x)" "unit_set x" "unit_sem sm"
  shows "unit_set (x\<lparr>ss_sems := (ss_sems x)[k := sm]\<rparr>)"
    and "abs_set (x\<lparr>ss_sems := (ss_sems x)[k := sm]\<rparr>) =
           (abs_set x)\<lparr>cs_sems := (cs_sems (abs_set x))[k := abs_sem sm]\<rparr>"
  using assms
  by (auto simp: unit_set_def abs_set_def take_update_swap map_update dest!: set_update_subset_insert [THEN subsetD])

text \<open>The caller's rights and the room in the set, as far as the request depends on them.\<close>

definition unit_request :: "ipc_conf \<Rightarrow> sem_env \<Rightarrow> sembuf \<Rightarrow> bool" where
  "unit_request c e b \<longleftrightarrow>
     take 1 (se_ops e) = [b] \<and> unit_op b \<and> 1 \<le> SEMOPM c \<and> se_realloc e (sb_num b)"

definition sem_room :: "cset list \<Rightarrow> nat \<Rightarrow> bool" where
  "sem_room A n \<longleftrightarrow> (\<forall>x \<in> set A. \<forall>cs \<in> set (cs_sems x). sem_load cs + n < 65536)"

lemma semop_loop_one:
  "semop_loop e who [b] x 0 =
     (case one_semop e (ss_perm x) who b (ss_sems x ! sb_num b) of (sm, res) \<Rightarrow>
        (case res of Inl _ \<Rightarrow> EACCES | Inr _ \<Rightarrow> OK,
         x\<lparr>ss_sems := (ss_sems x)[sb_num b := sm]\<rparr>,
         case res of Inr (Some True) \<Rightarrow> 1 | _ \<Rightarrow> 0))"
  by (auto simp: Let_def split: prod.splits sum.splits option.splits)

lemma unit_state_set: "unit_state s \<Longrightarrow> i < length (sem_list s) \<Longrightarrow> unit_set (sem_list s ! i)"
  by (simp add: unit_state_def)

lemma unit_state_quiet: "unit_state s \<Longrightarrow> \<forall>x \<in> set (sem_list s). quiet_set x"
  by (simp add: unit_state_def unit_set_quiet)

lemma unit_state_put:
  assumes "unit_state s" "i < length (sem_list s)" "unit_set x"
  shows "unit_state (put_set i x s)" "abs_sets (put_set i x s) = (abs_sets s)[i := abs_set x]"
  using assms
  by (auto simp: unit_state_def put_set_def abs_sets_def map_update
      dest!: set_update_subset_insert [THEN subsetD])

text \<open>A refusal leaves everything as it was, except for the process number of the last operation.\<close>

lemma one_semop_denied:
  assumes "unit_op b" "\<not> check_perm e perm who 146"
  shows "one_semop e perm who b sm = (sm\<lparr>sempid := se_pid e who\<rparr>, Inl ())"
  using assms by (auto simp: one_semop_def unit_op_def Let_def)

lemma do_semop_refused:
  assumes u: "unit_state s" and req: "unit_request c e b" and i: "i < length (sem_list s)"
    and f: "sem_find_id sid s = Some i"
    and ref: "cs_refusal c e who b (abs_set (sem_list s ! i)) \<noteq> OK"
  shows "\<exists>s'. do_semop c e who sid 1 s = Some s' \<and> unit_state s' \<and> abs_sets s' = abs_sets s \<and>
           sent s' = sent s @ [(who, cs_refusal c e who b (abs_set (sem_list s ! i)))]"
proof -
  let ?x = "sem_list s ! i"
  let ?r = "cs_refusal c e who b (abs_set ?x)"
  have ux: "unit_set ?x" using u i by (rule unit_state_set)
  have b: "take 1 (se_ops e) = [b]" "unit_op b" "1 \<le> SEMOPM c"
    using req by (simp_all add: unit_request_def)
  note chk = semop_checks_unit [OF ux b]
  have send: "unit_state (send_message_to_process who r t) = unit_state t" 
      "abs_sets (send_message_to_process who r t) = abs_sets t"
      "sent (send_message_to_process who r t) = sent t @ [(who, r)]" for r and t :: "'a sem_state_scheme"
    by (simp_all add: unit_state_def abs_sets_def send_message_to_process_def)
  show ?thesis
  proof (cases "semop_checks c e who 1 ?x = OK")
    case False
    then have r: "semop_checks c e who 1 ?x = ?r" using chk(1) ref by (simp split: if_splits)
    have "do_semop c e who sid 1 s = update_semaphores (send_message_to_process who ?r s)"
      using f r ref by (simp add: do_semop_def Let_def)
    moreover have "update_semaphores (send_message_to_process who ?r s) =
        Some (send_message_to_process who ?r s)"
      using u send(1) by (intro update_semaphores_quiet unit_state_quiet) simp
    ultimately show ?thesis using u by (simp add: send)
  next
    case True
    let ?sm = "(ss_sems ?x ! sb_num b)\<lparr>sempid := se_pid e who\<rparr>"
    let ?x' = "?x\<lparr>ss_sems := (ss_sems ?x)[sb_num b := ?sm]\<rparr>"
    let ?t = "send_message_to_process who EACCES (put_set i ?x' s)"
    have k: "sb_num b < nat (ss_nsems ?x)" using chk(2) True by blast
    have denied: "\<not> check_perm e (ss_perm ?x) who 146" and r: "?r = EACCES"
      using chk(1) ref True by (auto split: if_splits)
    have us: "unit_sem (ss_sems ?x ! sb_num b)"
      using ux k by (force simp: unit_set_def in_set_conv_nth)
    have "cs_sems (abs_set ?x) ! sb_num b = abs_sem ?sm"
      using k ux by (simp add: abs_set_def unit_set_def)
    then have same: "(cs_sems (abs_set ?x))[sb_num b := abs_sem ?sm] = cs_sems (abs_set ?x)"
      by (metis list_update_id)
    have x': "unit_set ?x'" "abs_set ?x' = abs_set ?x"
      using abs_set_update [OF k ux, of ?sm] us unfolding same by simp_all
    have "do_semop c e who sid 1 s = update_semaphores ?t"
      using f True b denied one_semop_denied [OF b(2) denied]
      by (simp add: do_semop_def semop_loop_one del: semop_loop.simps)
    moreover have t: "unit_state ?t" using unit_state_put(1) [OF u i x'(1)] by (simp add: send)
    moreover have "update_semaphores ?t = Some ?t"
      using t by (intro update_semaphores_quiet unit_state_quiet)
    moreover have "abs_sets ?t = abs_sets s"
    proof -
      have "(abs_sets s)[i := abs_set ?x] = abs_sets s"
        using list_update_id [of "abs_sets s" i] i by (simp add: abs_sets_def)
      then show ?thesis using unit_state_put(2) [OF u i x'(1)] x'(2) by (simp add: send)
    qed
    ultimately show ?thesis by (simp add: send r put_set_def)
  qed
qed

lemma do_semop_accepted:
  assumes u: "unit_state s" and req: "unit_request c e b" and i: "i < length (sem_list s)"
    and f: "sem_find_id sid s = Some i" and room: "sem_room (abs_sets s) 1"
    and acc: "cs_refusal c e who b (abs_set (sem_list s ! i)) = OK"
    and app: "cs_apply b who (cs_sems (abs_set (sem_list s ! i)) ! sb_num b) = (cs, told)"
  shows "\<exists>s'. do_semop c e who sid 1 s = Some s' \<and> unit_state s' \<and>
           abs_sets s' = (abs_sets s)[i := (abs_set (sem_list s ! i))
             \<lparr>cs_sems := (cs_sems (abs_set (sem_list s ! i)))[sb_num b := cs]\<rparr>] \<and>
           sent s' = sent s @ told"
proof -
  let ?x = "sem_list s ! i" and ?k = "sb_num b"
  have ux: "unit_set ?x" using u i by (rule unit_state_set)
  have b: "take 1 (se_ops e) = [b]" "unit_op b" "1 \<le> SEMOPM c"
    using req by (simp_all add: unit_request_def)
  note chk = semop_checks_unit [OF ux b]
  have ok: "semop_checks c e who 1 ?x = OK" and perm: "check_perm e (ss_perm ?x) who 146"
    using chk(1) acc by (auto split: if_splits)
  have k: "?k < nat (ss_nsems ?x)" using chk(2) ok by blast
  then have kl: "?k < length (ss_sems ?x)" using ux by (simp add: unit_set_def)
  have us: "unit_sem (ss_sems ?x ! ?k)" using ux k by (force simp: unit_set_def in_set_conv_nth)
  have cs: "cs_sems (abs_set ?x) ! ?k = abs_sem (ss_sems ?x ! ?k)"
    using k ux by (simp add: abs_set_def unit_set_def)
  have "abs_set ?x \<in> set (abs_sets s)" using i by (simp add: abs_sets_def)
  moreover have "cs_sems (abs_set ?x) ! ?k \<in> set (cs_sems (abs_set ?x))"
    using k ux by (intro nth_mem) (simp add: abs_set_def unit_set_def)
  ultimately have "sem_load (abs_sem (ss_sems ?x ! ?k)) + 1 < 65536"
    using room by (auto simp: sem_room_def cs [symmetric])
  then obtain sm1 sleeps sm2 w where
      op: "one_semop e (ss_perm ?x) who b (ss_sems ?x ! ?k) = (sm1, Inr (Some sleeps))"
      and upd: "update_semaphore sm1 = Some (sm2, w)" and u2: "unit_sem sm2"
      and ap: "cs_apply b who (abs_sem (ss_sems ?x ! ?k)) = (abs_sem sm2, op_outcome who sleeps w)"
    using one_semop_unit [OF us b(2) perm] req by (auto simp: unit_request_def)
  let ?x1 = "?x\<lparr>ss_sems := (ss_sems ?x)[?k := sm1]\<rparr>"
  let ?x2 = "?x\<lparr>ss_sems := (ss_sems ?x)[?k := sm2]\<rparr>"
  let ?s1 = "put_set i ?x1 s"
  let ?t = "if sleeps then ?s1 else send_message_to_process who OK ?s1"
  have run: "do_semop c e who sid 1 s = update_semaphores ?t"
    using f ok b op by (simp add: do_semop_def semop_loop_one del: semop_loop.simps)
  have sl: "sem_list ?t = (sem_list s)[i := ?x1]"
    by (simp add: put_set_def send_message_to_process_def)
  have st: "sent ?t = sent s @ (if sleeps then [] else [(who, OK)])"
    by (simp add: put_set_def send_message_to_process_def)
  have q: "quiet (ss_sems ?x ! j)" if "j < nat (ss_nsems ?x)" for j
    using that ux unit_set_quiet [OF ux] by (force simp: unit_set_def quiet_set_def in_set_conv_nth)
  have us1: "update_set ?x1 = Some (?x1\<lparr>ss_sems := (ss_sems ?x1)[?k := sm2]\<rparr>, w)"
    by (rule update_set_one)
       (use k kl ux upd q in \<open>simp_all add: unit_set_def\<close>)
  have "update_semaphores ?t = Some (?t\<lparr>sem_list := (sem_list ?t)[i := ?x2],
          sent := sent ?t @ map (\<lambda>p. (p, OK)) w\<rparr>)"
    by (rule update_semaphores_one)
       (use i sl us1 unit_state_quiet [OF u] in \<open>auto simp: nth_list_update\<close>)
  moreover have "unit_state (?t\<lparr>sem_list := (sem_list ?t)[i := ?x2],
          sent := sent ?t @ map (\<lambda>p. (p, OK)) w\<rparr>)" (is "unit_state ?t'")
    using unit_state_put(1) [OF u i abs_set_update(1) [OF k ux u2]] sl
    by (simp add: unit_state_def put_set_def)
  moreover have "abs_sets ?t' = (abs_sets s)[i := abs_set ?x2]"
    using unit_state_put(2) [OF u i abs_set_update(1) [OF k ux u2]] sl
    by (simp add: abs_sets_def put_set_def)
  moreover have "cs = abs_sem sm2" "told = op_outcome who sleeps w" using app ap cs by simp_all
  ultimately show ?thesis
    using run st abs_set_update(2) [OF k ux u2] by (simp add: op_outcome_def)
qed

text \<open>Both cases together: one request is one step of the abstract sets.\<close>

lemma find_abs: "first_idx (\<lambda>x. cs_id x = sid) (abs_sets s) = sem_find_id sid s"
  by (simp add: abs_sets_def first_idx_map sem_find_id_def abs_set_def)

lemma abs_sets_nth [simp]: "i < length (sem_list s) \<Longrightarrow> abs_sets s ! i = abs_set (sem_list s ! i)"
  by (simp add: abs_sets_def)

lemma do_semop_unit:
  assumes u: "unit_state s" and req: "unit_request c e b" and room: "sem_room (abs_sets s) 1"
    and step: "cs_semop c e who sid b (abs_sets s) = (A, told)"
  shows "\<exists>s'. do_semop c e who sid 1 s = Some s' \<and> unit_state s' \<and> abs_sets s' = A \<and>
           sent s' = sent s @ told"
proof (cases "sem_find_id sid s")
  case None
  let ?t = "send_message_to_process who EINVAL s"
  have "do_semop c e who sid 1 s = update_semaphores ?t" using None by (simp add: do_semop_def)
  moreover have t: "unit_state ?t" using u by (simp add: unit_state_def send_message_to_process_def)
  moreover have "update_semaphores ?t = Some ?t"
    using t by (intro update_semaphores_quiet unit_state_quiet)
  moreover have "abs_sets ?t = abs_sets s" "sent ?t = sent s @ [(who, EINVAL)]"
    by (simp_all add: abs_sets_def send_message_to_process_def)
  moreover have "A = abs_sets s" "told = [(who, EINVAL)]"
    using step None by (simp_all add: cs_semop_def find_abs)
  ultimately show ?thesis by simp
next
  case (Some i)
  then have i: "i < length (sem_list s)" unfolding sem_find_id_def by (rule first_idx_length)
  let ?x = "abs_set (sem_list s ! i)"
  show ?thesis
  proof (cases "cs_refusal c e who b ?x = OK")
    case False
    with step Some i show ?thesis
      using do_semop_refused [OF u req i Some False] by (simp add: cs_semop_def find_abs)
  next
    case True
    obtain cs w where ap: "cs_apply b who (cs_sems ?x ! sb_num b) = (cs, w)" by fastforce
    with step Some i True show ?thesis
      using do_semop_accepted [OF u req i Some room True ap]
      by (auto simp: cs_semop_def find_abs Let_def)
  qed
qed

section \<open>Runs\<close>

text \<open>A request: the circumstances of the call, the caller and the set it names.\<close>

type_synonym sem_event = "sem_env \<times> int \<times> int"

definition semop_step :: "ipc_conf \<Rightarrow> 'a sem_state_scheme \<Rightarrow> sem_event \<Rightarrow> 'a sem_state_scheme option" where
  "semop_step c s = (\<lambda>(e, who, sid). do_semop c e who sid 1 s)"

fun cs_run ::
    "ipc_conf \<Rightarrow> sem_event list \<Rightarrow> cset list \<Rightarrow> (int \<times> errno) list \<Rightarrow>
     cset list \<times> (int \<times> errno) list" where
  "cs_run c [] A m = (A, m)"
| "cs_run c ((e, who, sid) # evs) A m =
     (case cs_semop c e who sid (hd (se_ops e)) A of (A', told) \<Rightarrow> cs_run c evs A' (m @ told))"

definition unit_event :: "ipc_conf \<Rightarrow> sem_event \<Rightarrow> bool" where
  "unit_event c = (\<lambda>(e, who, sid). se_ops e \<noteq> [] \<and> unit_request c e (hd (se_ops e)))"

lemma cs_apply_load:
  "cs_apply b who cs = (cs', told) \<Longrightarrow> sem_load cs' \<le> sem_load cs + 1"
  by (cases cs)
     (auto simp: cs_apply_def cs_up_def cs_down_def sem_load_def split: if_splits list.splits)

lemma cs_refusal_index: "cs_refusal c e who b x = OK \<Longrightarrow> sb_num b < length (cs_sems x)"
  by (auto simp: cs_refusal_def split: if_splits)

lemma sem_room_less: "sem_room A (Suc n) \<Longrightarrow> sem_room A n"
proof (unfold sem_room_def, intro ballI)
  fix x cs
  assume "\<forall>x \<in> set A. \<forall>cs \<in> set (cs_sems x). sem_load cs + Suc n < 65536"
    and "x \<in> set A" "cs \<in> set (cs_sems x)"
  then have "sem_load cs + Suc n < 65536" by blast
  then show "sem_load cs + n < 65536" by linarith
qed

lemma sem_room_update:
  assumes "sem_room A n" "i < length A" "sem_load cs + n < 65536"
  shows "sem_room (A[i := (A ! i)\<lparr>cs_sems := (cs_sems (A ! i))[k := cs]\<rparr>]) n"
proof -
  have *: "\<forall>y \<in> set (cs_sems x). sem_load y + n < 65536" if "x \<in> set A" for x
    using assms(1) that unfolding sem_room_def by blast
  have "\<forall>y \<in> set ((cs_sems (A ! i))[k := cs]). sem_load y + n < 65536"
    using * [OF nth_mem [OF assms(2)]] assms(3) set_update_subset_insert [of "cs_sems (A ! i)" k cs]
    by blast
  then show ?thesis
    using * set_update_subset_insert [of A i] unfolding sem_room_def
    by (metis (no_types, lifting) insertE select_convs(3) subsetD surjective update_convs(3))
qed

lemma cs_semop_room:
  assumes "cs_semop c e who sid b A = (A', told)" "sem_room A (Suc n)"
  shows "sem_room A' n"
proof (cases "first_idx (\<lambda>x. cs_id x = sid) A")
  case None
  then show ?thesis using assms sem_room_less by (simp add: cs_semop_def)
next
  case (Some i)
  then have i: "i < length A" by (rule first_idx_length)
  let ?x = "A ! i"
  show ?thesis
  proof (cases "cs_refusal c e who b ?x = OK")
    case False
    then show ?thesis using assms Some sem_room_less by (simp add: cs_semop_def)
  next
    case True
    have k: "sb_num b < length (cs_sems ?x)" using True by (rule cs_refusal_index)
    obtain cs w where ap: "cs_apply b who (cs_sems ?x ! sb_num b) = (cs, w)" by fastforce
    have A': "A' = A[i := ?x\<lparr>cs_sems := (cs_sems ?x)[sb_num b := cs]\<rparr>]"
      using assms(1) Some True ap by (simp add: cs_semop_def Let_def)
    have "sem_load cs + n < 65536"
    proof -
      have "sem_load (cs_sems ?x ! sb_num b) + Suc n < 65536"
        using assms(2) nth_mem [OF i] nth_mem [OF k] unfolding sem_room_def by blast
      then show ?thesis using cs_apply_load [OF ap] by linarith
    qed
    then show ?thesis
      unfolding A' by (rule sem_room_update [OF sem_room_less [OF assms(2)] i])
  qed
qed

lemma semop_run_unit:
  assumes "unit_state s" "list_all (unit_event c) evs" "sem_room (abs_sets s) (length evs)"
  shows "\<exists>s'. run_ops (semop_step c) s evs = Some s' \<and> unit_state s' \<and>
           (abs_sets s', sent s') = cs_run c evs (abs_sets s) (sent s)"
  using assms
proof (induction evs arbitrary: s)
  case (Cons ev evs)
  obtain e who sid where ev: "ev = (e, who, sid)" by (cases ev)
  let ?b = "hd (se_ops e)"
  have req: "unit_request c e ?b" using Cons.prems(2) ev by (simp add: unit_event_def)
  obtain A told where step: "cs_semop c e who sid ?b (abs_sets s) = (A, told)" by fastforce
  have "sem_room (abs_sets s) 1"
    using Cons.prems(3) by (fastforce simp: sem_room_def)
  then obtain s1 where s1: "do_semop c e who sid 1 s = Some s1" "unit_state s1" "abs_sets s1 = A"
      "sent s1 = sent s @ told"
    using do_semop_unit [OF Cons.prems(1) req _ step] by blast
  have "sem_room A (length evs)"
    using cs_semop_room [OF step] Cons.prems(3) by simp
  then obtain s2 where "run_ops (semop_step c) s1 evs = Some s2" "unit_state s2"
      "(abs_sets s2, sent s2) = cs_run c evs (abs_sets s1) (sent s1)"
    using Cons.IH [OF s1(2)] Cons.prems(2) s1(3) by auto
  moreover have "semop_step c s ev = Some s1" using s1(1) ev by (simp add: semop_step_def)
  ultimately show ?case using s1 step ev by simp
qed simp

text \<open>
  (C4) The semaphores of the IPC server implement counting semaphores with a queue: every sequence of
  \<^verbatim>\<open>semop\<close> requests of one unit each is served without a crash, the values and waiting lists of the
  server are those of the abstract object, and exactly the abstract object's answers are sent, in
  its order (a unit that is given goes to the process that has waited longest; a request is refused
  with the first error that applies and then changes nothing).  The 16-bit values must not be able
  to overflow, and a waiting list must not fail to grow.
\<close>

theorem semop_refines_counting:
  assumes "unit_state s" "list_all (unit_event c) evs" "sem_room (abs_sets s) (length evs)"
  shows "\<exists>s'. run_ops (semop_step c) s evs = Some s' \<and> unit_state s' \<and>
           (abs_sets s', sent s') = cs_run c evs (abs_sets s) (sent s)"
  using assms by (rule semop_run_unit)

definition demo_ipc :: ipc_conf where
  "demo_ipc = \<lparr>IPC_PRIVATE = 0, IPC_CREAT = 0x200, IPC_EXCL = 0x400, IPC_NOWAIT = 0x800,
               SEMMSL = 4, SEMMNI = 10, SEMOPM = 100, SEMVMX = 32767,
               SHM_RND = 0x2000, SHM_RDONLY = 0x1000, SHM_DEST = 0x200, SHMMNI = 4096,
               I386_PAGE_SIZE = 4096\<rparr>"

text \<open>The superuser calls with the given operations, and nothing fails.\<close>

definition demo_env :: "sembuf list \<Rightarrow> sem_env" where
  "demo_env ops =
     \<lparr>se_uid = (\<lambda>_. 0), se_gid = (\<lambda>_. 0), se_pid = (\<lambda>_. 50), se_time = 9, se_malloc = True,
      se_copy = OK, se_realloc = (\<lambda>_. True),
      se_perm = \<lparr>ip_uid = 0, ip_gid = 0, ip_cuid = 0, ip_cgid = 0, ip_mode = 0x1B6\<rparr>,
      se_vals = [], se_ops = ops\<rparr>"

definition demo_op :: "int \<Rightarrow> sembuf" where
  "demo_op n = \<lparr>sb_num = 0, sb_op = n, sb_flg = 0\<rparr>"

definition demo_sem :: "16 word \<Rightarrow> semaphore" where
  "demo_sem v = null_semaphore\<lparr>semval := v\<rparr>"

text \<open>One set with one semaphore.\<close>

definition demo_sems :: "16 word \<Rightarrow> sem_state" where
  "demo_sems v =
     \<lparr>sem_list = [\<lparr>ss_key = 77, ss_id = 0x1234,
        ss_perm = \<lparr>ip_uid = 0, ip_gid = 0, ip_cuid = 0, ip_cgid = 0, ip_mode = 0x1B6\<rparr>,
        ss_nsems = 1, ss_otime = 0, ss_ctime = 9,
        ss_sems = [demo_sem v, null_semaphore, null_semaphore, null_semaphore]\<rparr>],
      next_id = 0x1235, sent = []\<rparr>"

definition demo_event :: "int \<Rightarrow> int \<Rightarrow> sem_event" where
  "demo_event who n = (demo_env [demo_op n], who, 0x1234)"

lemmas ipc_demo_defs =
  demo_ipc_def demo_env_def demo_op_def demo_sem_def demo_sems_def demo_event_def

lemma demo_unit_state: "unit_state (demo_sems v)"
  by (simp add: ipc_demo_defs unit_state_def unit_set_def unit_sem_def null_semaphore_def nwaiters_def)

lemma demo_unit_event: "unit_event demo_ipc (demo_event who 1)" "unit_event demo_ipc (demo_event who (- 1))"
  by (simp_all add: ipc_demo_defs unit_event_def unit_request_def unit_op_def)

lemma demo_abs:
  "abs_sets (demo_sems v) =
     [\<lparr>cs_id = 0x1234,
       cs_perm = \<lparr>ip_uid = 0, ip_gid = 0, ip_cuid = 0, ip_cgid = 0, ip_mode = 0x1B6\<rparr>,
       cs_sems = [(unat v, [])]\<rparr>]"
  by (simp add: ipc_demo_defs abs_sets_def abs_set_def abs_sem_def nwaiters_def null_semaphore_def)

theorem semop_refines_counting_witness:
  "\<exists>s'. run_ops (semop_step demo_ipc) (demo_sems 1)
          [demo_event 7 (- 1), demo_event 8 (- 1), demo_event 7 1] = Some s' \<and> unit_state s' \<and>
        abs_sets s' = abs_sets (demo_sems 0) \<and> sent s' = [(7, OK), (7, OK), (8, OK)]"
proof -
  let ?evs = "[demo_event 7 (- 1), demo_event 8 (- 1), demo_event 7 1]"
  have "cs_run demo_ipc ?evs (abs_sets (demo_sems 1)) (sent (demo_sems 1)) =
      (abs_sets (demo_sems 0), [(7, OK), (7, OK), (8, OK)])"
    unfolding demo_abs
    by (simp add: ipc_demo_defs cs_semop_def cs_refusal_def check_perm_def cs_apply_def cs_up_def
        cs_down_def Let_def)
  moreover have "list_all (unit_event demo_ipc) ?evs" by (simp add: demo_unit_event)
  moreover have "sem_room (abs_sets (demo_sems 1)) (length ?evs)"
    by (simp add: demo_abs sem_room_def sem_load_def)
  ultimately show ?thesis
    using semop_refines_counting [of "demo_sems 1" demo_ipc ?evs] demo_unit_state by auto
qed

section \<open>Counting units\<close>

















end
