(* ===== verification/IpcMain.thy ===== *)
theory IpcMain
  imports IpcShm IpcUnits "HOL-Library.Multiset"
begin

text \<open>
  The IPC server as a whole: the invariant of its tables, that it keeps running, what a process
  that waits for zero does to it, and the accounting of the shared pages.
\<close>

section \<open>The shape of waiting lists\<close>

definition sem_shape :: "semaphore \<Rightarrow> bool" where
  "sem_shape sm \<longleftrightarrow> zlist sm = None \<and> semzcnt sm = 0 \<and> listed (semncnt sm) (nlist sm) \<noteq> None"

definition set_shape :: "ipc_conf \<Rightarrow> sem_struct \<Rightarrow> bool" where
  "set_shape c x \<longleftrightarrow> 0 \<le> ss_nsems x \<and> nat (ss_nsems x) \<le> length (ss_sems x) \<and>
     length (ss_sems x) = SEMMSL c \<and> list_all sem_shape (ss_sems x)"

lemma listed_Some: "listed n (Some b) = (if unat n \<le> length b then Some (take (unat n) b) else None)"
  by (simp add: listed_def)

lemma drop_entry_length: "drop_entry j n b = Some b' \<Longrightarrow> length b' = length b"
  by (auto simp: drop_entry_def split: if_splits)

lemma drop_entry_listed:
  "j < unat n \<Longrightarrow> unat (n :: 16 word) \<le> length b \<Longrightarrow>
   \<exists>b'. drop_entry j (unat n) b = Some b' \<and> listed (n - 1) (Some b') \<noteq> None"
proof -
  assume "j < unat n" "unat n \<le> length b"
  moreover from this have "unat (n - 1) = unat n - 1" by (intro unat_minus_one) auto
  ultimately show ?thesis by (auto simp: drop_entry_def listed_Some)
qed

lemma gather_total:
  assumes "\<forall>x \<in> set xs. \<exists>y w. f x = Some (y, w) \<and> Q y \<and> g y = g x"
  shows "\<exists>ys w. gather f xs = Some (ys, w) \<and> list_all Q ys \<and> map g ys = map g xs"
  using assms by (induction xs) fastforce+

text \<open>The same loop over the live part of the array of a set.\<close>

lemma gather_prefix:
  assumes "\<forall>x \<in> set (take n xs). \<exists>y w. f x = Some (y, w) \<and> Q y" "list_all Q xs" "n \<le> length xs"
  shows "\<exists>ys w. gather f (take n xs) = Some (ys, w) \<and> list_all Q (ys @ drop n xs) \<and>
           length (ys @ drop n xs) = length xs"
proof -
  have "\<forall>x \<in> set (take n xs). \<exists>y w. f x = Some (y, w) \<and> Q y \<and> () = ()" using assms(1) by blast
  then obtain ys w where ys: "gather f (take n xs) = Some (ys, w)" "list_all Q ys"
      "map (\<lambda>_. ()) ys = map (\<lambda>_. ()) (take n xs)"
    using gather_total [of "take n xs" f Q "\<lambda>_. ()"] by blast
  from ys(3) have "length ys = length (take n xs)" by (rule map_eq_imp_length_eq)
  moreover have "list_all Q (drop n xs)" using assms(2) by (auto simp: list_all_iff dest: in_set_dropD)
  ultimately show ?thesis using ys(1,2) assms(3) by auto
qed

lemma wake_shape:
  assumes "sem_shape sm"
  shows "\<exists>sm' w. update_semaphore sm = Some (sm', w) \<and> sem_shape sm'"
proof -
  have z: "wake_zero sm = Some (sm, [])" using assms by (simp add: sem_shape_def wake_zero_def)
  have "\<exists>sm' w. wake_increase sm = Some (sm', w) \<and> sem_shape sm'"
  proof (cases "nlist sm")
    case None
    then show ?thesis using assms by (simp add: wake_increase_def)
  next
    case (Some b)
    let ?n = "semncnt sm"
    have n: "unat ?n \<le> length b" using assms Some by (auto simp: sem_shape_def listed_def split: if_splits)
    show ?thesis
    proof (cases "first_idx (\<lambda>w. w_val w \<le> uint (semval sm)) (take (unat ?n) b)")
      case None
      then show ?thesis using assms Some n by (simp add: wake_increase_def listed_Some)
    next
      case (Some j)
      then have "j < unat ?n" using first_idx_length by fastforce
      then obtain b' where "drop_entry j (unat ?n) b = Some b'" "listed (?n - 1) (Some b') \<noteq> None"
        using drop_entry_listed n by blast
      then show ?thesis
        using assms Some n \<open>nlist sm = Some b\<close> by (simp add: wake_increase_def listed_Some sem_shape_def)
    qed
  qed
  with z show ?thesis by (auto simp: update_semaphore_def)
qed

lemma remove_shape:
  assumes "sem_shape sm"
  shows "\<exists>sm' w. remove_from_semaphore pt sm = Some (sm', w) \<and> sem_shape sm'"
proof (cases "nlist sm")
  case None
  then show ?thesis
    using assms by (auto simp: remove_from_semaphore_def remove_waiter_def sem_shape_def listed_def
        split: if_splits)
next
  case (Some b)
  let ?n = "semncnt sm"
  have n: "unat ?n \<le> length b" using assms Some by (auto simp: sem_shape_def listed_def split: if_splits)
  have z: "remove_waiter pt (semzcnt sm) (zlist sm) = Some (0, None, [])"
    using assms by (simp add: sem_shape_def remove_waiter_def listed_def)
  show ?thesis
  proof (cases "first_idx (\<lambda>w. w_who w = pt) (take (unat ?n) b)")
    case None
    then show ?thesis
      using assms Some n z by (simp add: remove_from_semaphore_def remove_waiter_def listed_Some sem_shape_def)
  next
    case (Some j)
    then have "j < unat ?n" using first_idx_length by fastforce
    then obtain b' where "drop_entry j (unat ?n) b = Some b'" "listed (?n - 1) (Some b') \<noteq> None"
      using drop_entry_listed n by blast
    then show ?thesis using assms Some n \<open>nlist sm = Some b\<close> z
      by (simp add: remove_from_semaphore_def remove_waiter_def listed_Some sem_shape_def)
  qed
qed

section \<open>The invariant\<close>

definition keys_unique :: "ipc_conf \<Rightarrow> int list \<Rightarrow> bool" where
  "keys_unique c ks \<longleftrightarrow> distinct (filter (\<lambda>k. k \<noteq> IPC_PRIVATE c) ks)"

text \<open>The identities and keys of the two tables.\<close>

definition sem_names :: "'a sem_state_scheme \<Rightarrow> (int \<times> int) list" where
  "sem_names s = map (\<lambda>x. (ss_id x, ss_key x)) (sem_list s)"

definition shm_names :: "ipc_state \<Rightarrow> (int \<times> int) list" where
  "shm_names s = map (\<lambda>x. (sh_id x, sh_key x)) (shm_list s)"

definition idents :: "ipc_state \<Rightarrow> int list" where
  "idents s = map fst (sem_names s @ shm_names s)"

definition shaped :: "ipc_conf \<Rightarrow> ipc_state \<Rightarrow> bool" where
  "shaped c s \<longleftrightarrow> list_all (set_shape c) (sem_list s)"

text \<open>
  The invariant of the two tables; \<open>N\<close> bounds the counter of identities, and while it cannot have wrapped the
  identities are distinct and older than the next one.
\<close>

definition ipc_inv :: "ipc_conf \<Rightarrow> int \<Rightarrow> ipc_state \<Rightarrow> bool" where
  "ipc_inv c N s \<longleftrightarrow>
     length (sem_names s) \<le> SEMMNI c \<and> length (shm_names s) \<le> MAX_SHM_NR \<and>
     (N < 2 ^ 31 \<longrightarrow> 0 \<le> next_id s \<and> next_id s \<le> N \<and>
        distinct (idents s) \<and> (\<forall>n \<in> set (idents s). n < next_id s)) \<and>
     keys_unique c (map snd (sem_names s)) \<and> keys_unique c (map snd (shm_names s)) \<and>
     shaped c s"

lemma ipc_inv_mono: "ipc_inv c N s \<Longrightarrow> N \<le> M \<Longrightarrow> ipc_inv c M s"
  by (auto simp: ipc_inv_def)

text \<open>An operation that only works inside the sets: identities, keys and segments stay.\<close>

definition same_tables :: "ipc_state \<Rightarrow> ipc_state \<Rightarrow> bool" where
  "same_tables s s' \<longleftrightarrow> sem_names s' = sem_names s \<and> next_id s' = next_id s \<and>
     shm_list s' = shm_list s \<and> vm_log s' = vm_log s"

text \<open>An operation that may also drop entries of the tables.\<close>

definition shrinks :: "ipc_state \<Rightarrow> ipc_state \<Rightarrow> bool" where
  "shrinks s s' \<longleftrightarrow> mset (sem_names s') \<subseteq># mset (sem_names s) \<and>
     mset (shm_names s') \<subseteq># mset (shm_names s) \<and> next_id s' = next_id s"

lemma same_tables_shrinks: "same_tables s s' \<Longrightarrow> shrinks s s'"
  by (simp add: same_tables_def shrinks_def shm_names_def)

lemma shrinks_trans: "shrinks s s' \<Longrightarrow> shrinks s' s'' \<Longrightarrow> shrinks s s''"
  unfolding shrinks_def by (metis subset_mset.order_trans)

lemma distinct_submset:
  assumes "mset xs \<subseteq># mset ys" "distinct ys"
  shows "distinct xs"
proof -
  from assms(1) obtain A where A: "mset ys = mset xs + A" by (metis subset_mset.le_iff_add)
  obtain zs where "mset zs = A" by (metis ex_mset)
  with A have "mset (xs @ zs) = mset ys" by simp
  then have "distinct (xs @ zs)" using assms(2) mset_eq_imp_distinct_iff by blast
  then show ?thesis by simp
qed

lemma mset_map_mono: "mset xs \<subseteq># mset ys \<Longrightarrow> mset (map f xs) \<subseteq># mset (map f ys)"
  by (simp add: image_mset_subseteq_mono)

lemma keys_unique_submset: "mset xs \<subseteq># mset ys \<Longrightarrow> keys_unique c ys \<Longrightarrow> keys_unique c xs"
  unfolding keys_unique_def by (rule distinct_submset) (simp_all add: multiset_filter_mono)

text \<open>Dropping entries keeps the invariant.\<close>

lemma shrinks_inv:
  assumes "ipc_inv c N s" "shrinks s s'" "shaped c s'"
  shows "ipc_inv c N s'"
proof -
  have n: "mset (sem_names s') \<subseteq># mset (sem_names s)" "mset (shm_names s') \<subseteq># mset (shm_names s)"
    using assms(2) by (simp_all add: shrinks_def)
  have "mset (idents s') \<subseteq># mset (idents s)"
    unfolding idents_def map_append mset_append
    by (intro subset_mset.add_mono mset_map_mono n)
  moreover from this have "set (idents s') \<subseteq> set (idents s)"
    by (metis set_mset_mono set_mset_mset)
  moreover have "length (sem_names s') \<le> length (sem_names s)" "length (shm_names s') \<le> length (shm_names s)"
    using n by (metis size_mset size_mset_mono)+
  ultimately show ?thesis
    using assms distinct_submset keys_unique_submset [OF mset_map_mono [OF n(1)]]
      keys_unique_submset [OF mset_map_mono [OF n(2)]]
    by (auto simp: ipc_inv_def shrinks_def)
qed

lemma same_tables_refl [simp]: "same_tables s s"
  by (simp add: same_tables_def)

lemma same_tables_trans: "same_tables s s' \<Longrightarrow> same_tables s' s'' \<Longrightarrow> same_tables s s''"
  by (simp add: same_tables_def)

lemma ipc_inv_shaped: "ipc_inv c N s \<Longrightarrow> shaped c s"
  by (simp add: ipc_inv_def shaped_def)

lemma same_tables_inv: "ipc_inv c N s \<Longrightarrow> same_tables s s' \<Longrightarrow> shaped c s' \<Longrightarrow> ipc_inv c N s'"
  by (metis same_tables_shrinks shrinks_inv)

lemma send_same [simp]:
  "same_tables s (send_message_to_process who r s)"
  "shaped c (send_message_to_process who r s) = shaped c s"
  "ipc_inv c N (send_message_to_process who r s) = ipc_inv c N s"
  by (simp_all add: same_tables_def send_message_to_process_def shaped_def ipc_inv_def idents_def
      sem_names_def shm_names_def)

text \<open>A loop over all sets that keeps their shape, identity and key.\<close>

lemma gather_sets:
  assumes "shaped c s" "\<And>x. set_shape c x \<Longrightarrow> \<exists>y w. f x = Some (y, w) \<and> set_shape c y \<and>
      ss_id y = ss_id x \<and> ss_key y = ss_key x"
  shows "\<exists>ys w. gather f (sem_list s) = Some (ys, w) \<and> shaped c (s\<lparr>sem_list := ys, sent := m\<rparr>) \<and>
           same_tables s (s\<lparr>sem_list := ys, sent := m\<rparr>)"
proof -
  have "\<forall>x \<in> set (sem_list s). \<exists>y w. f x = Some (y, w) \<and> set_shape c y \<and>
      (ss_id y, ss_key y) = (ss_id x, ss_key x)"
    using assms by (auto simp: shaped_def list_all_iff)
  then obtain ys w where ys: "gather f (sem_list s) = Some (ys, w)" "list_all (set_shape c) ys"
      and m: "map (\<lambda>x. (ss_id x, ss_key x)) ys = map (\<lambda>x. (ss_id x, ss_key x)) (sem_list s)"
    using gather_total [of "sem_list s" f "set_shape c" "\<lambda>x. (ss_id x, ss_key x)"] by blast
  then show ?thesis by (auto simp: shaped_def same_tables_def sem_names_def)
qed

text \<open>A loop over the semaphores of one set.\<close>

lemma set_loop_shape:
  assumes "set_shape c x"
    and "\<And>sm. sem_shape sm \<Longrightarrow> \<exists>sm' w. f sm = Some (sm', w) \<and> sem_shape sm'"
  shows "\<exists>ys w. gather f (take (nat (ss_nsems x)) (ss_sems x)) = Some (ys, w) \<and>
           set_shape c (x\<lparr>ss_sems := ys @ drop (nat (ss_nsems x)) (ss_sems x)\<rparr>)"
proof -
  have sh: "list_all sem_shape (ss_sems x)" "nat (ss_nsems x) \<le> length (ss_sems x)"
    using assms(1) by (simp_all add: set_shape_def)
  then have "\<forall>sm \<in> set (take (nat (ss_nsems x)) (ss_sems x)). \<exists>sm' w. f sm = Some (sm', w) \<and> sem_shape sm'"
    using assms(2) by (auto simp: list_all_iff dest: in_set_takeD)
  from gather_prefix [OF this sh] show ?thesis using assms(1) unfolding set_shape_def by force
qed

lemma update_semaphores_shaped:
  assumes "shaped c s"
  shows "\<exists>s'. update_semaphores s = Some s' \<and> shaped c s' \<and> same_tables s s'"
proof -
  have set1: "\<exists>y w. update_set x = Some (y, w) \<and> set_shape c y \<and> ss_id y = ss_id x \<and> ss_key y = ss_key x"
    if x: "set_shape c x" for x
  proof -
    obtain ys w where "gather update_semaphore (take (nat (ss_nsems x)) (ss_sems x)) = Some (ys, w)"
        "set_shape c (x\<lparr>ss_sems := ys @ drop (nat (ss_nsems x)) (ss_sems x)\<rparr>)"
      using set_loop_shape [OF x, of update_semaphore] wake_shape by blast
    then show ?thesis by (simp add: update_set_def Let_def)
  qed
  obtain ys w where "gather update_set (sem_list s) = Some (ys, w)"
    using gather_sets [OF assms set1] by blast
  then show ?thesis
    using gather_sets [OF assms set1, of "sent s @ map (\<lambda>p. (p, OK)) w"]
    by (auto simp: update_semaphores_def)
qed

lemma remove_process_shaped:
  assumes "shaped c s"
  shows "\<exists>s'. remove_process pt s = Some s' \<and> shaped c s' \<and> same_tables s s'"
proof -
  have set1: "\<exists>y w. remove_from_set pt x = Some (y, w) \<and> set_shape c y \<and> ss_id y = ss_id x \<and> ss_key y = ss_key x"
    if x: "set_shape c x" for x
  proof -
    obtain ys w where "gather (remove_from_semaphore pt) (take (nat (ss_nsems x)) (ss_sems x)) = Some (ys, w)"
        "set_shape c (x\<lparr>ss_sems := ys @ drop (nat (ss_nsems x)) (ss_sems x)\<rparr>)"
      using set_loop_shape [OF x, of "remove_from_semaphore pt"] remove_shape by blast
    then show ?thesis by (simp add: remove_from_set_def Let_def)
  qed
  obtain ys w where "gather (remove_from_set pt) (sem_list s) = Some (ys, w)"
    using gather_sets [OF assms set1] by blast
  then show ?thesis
    using gather_sets [OF assms set1, of "sent s @ map (\<lambda>p. (p, EINTR)) w"]
    by (auto simp: remove_process_def)
qed

lemma vm_notify_shaped:
  "shaped c s \<Longrightarrow> \<exists>s'. sem_process_vm_notify rs s = Some s' \<and> shaped c s' \<and> same_tables s s'"
proof (induction rs s rule: sem_process_vm_notify.induct)
  case (2 r pt rs s)
  obtain s1 where s1: "remove_process pt s = Some s1" "shaped c s1" "same_tables s s1"
    using remove_process_shaped [OF 2(2)] by blast
  then show ?case using 2 same_tables_trans [OF s1(3)] by auto
qed simp

section \<open>The operations keep the invariant\<close>

lemma put_set_shaped:
  assumes "shaped c s" "i < length (sem_list s)" "set_shape c x"
    and "ss_id x = ss_id (sem_list s ! i)" "ss_key x = ss_key (sem_list s ! i)"
  shows "shaped c (put_set i x s)" "same_tables s (put_set i x s)"
proof -
  show "shaped c (put_set i x s)"
    using assms(1-3) by (auto simp: shaped_def put_set_def list_all_iff
        dest!: set_update_subset_insert [THEN subsetD])
  have "map (\<lambda>x. (ss_id x, ss_key x)) (sem_list s) ! i = (ss_id x, ss_key x)" using assms by simp
  then show "same_tables s (put_set i x s)"
    using list_update_id [of "sem_names s" i]
    by (simp add: same_tables_def put_set_def sem_names_def map_update)
qed

lemma shaped_nth: "shaped c s \<Longrightarrow> i < length (sem_list s) \<Longrightarrow> set_shape c (sem_list s ! i)"
  by (simp add: shaped_def list_all_length)

lemma sem_shape_val [simp]: "sem_shape (sm\<lparr>semval := v\<rparr>) = sem_shape sm"
  by (simp add: sem_shape_def)

lemma set_values_shape:
  "set_values mx vs xs = (ok, ys) \<Longrightarrow> list_all sem_shape xs \<Longrightarrow>
     list_all sem_shape ys \<and> length ys = length xs"
  by (induction mx vs xs arbitrary: ok ys rule: set_values.induct) (auto split: if_splits prod.splits)

lemma set_shape_sems:
  "set_shape c x \<Longrightarrow> list_all sem_shape ys \<Longrightarrow> length ys = length (ss_sems x) \<Longrightarrow>
     set_shape c (x\<lparr>ss_sems := ys\<rparr>)"
  by (simp add: set_shape_def)

lemma set_shape_ds [simp]:
  "set_shape c (x\<lparr>ss_perm := p\<rparr>) = set_shape c x" "set_shape c (x\<lparr>ss_ctime := t\<rparr>) = set_shape c x"
  by (simp_all add: set_shape_def)

lemma set_shape_update:
  "set_shape c x \<Longrightarrow> sem_shape sm \<Longrightarrow> set_shape c (x\<lparr>ss_sems := (ss_sems x)[k := sm]\<rparr>)"
  by (auto simp: set_shape_def list_all_iff dest!: set_update_subset_insert [THEN subsetD])

lemma set_shape_nth: "set_shape c x \<Longrightarrow> k < nat (ss_nsems x) \<Longrightarrow> sem_shape (ss_sems x ! k)"
  by (simp add: set_shape_def list_all_length)

text \<open>Storing a set and waking up.\<close>

lemma put_update_inv:
  assumes inv: "ipc_inv c N s" and i: "i < length (sem_list s)" and x: "set_shape c x"
    and n: "ss_id x = ss_id (sem_list s ! i)" "ss_key x = ss_key (sem_list s ! i)"
  shows "ipc_inv c N (put_set i x s)"
    and "\<exists>s'. update_semaphores (put_set i x s) = Some s' \<and> ipc_inv c N s'"
proof -
  note p = put_set_shaped [OF ipc_inv_shaped [OF inv] i x n]
  show 1: "ipc_inv c N (put_set i x s)" by (rule same_tables_inv [OF inv p(2,1)])
  show "\<exists>s'. update_semaphores (put_set i x s) = Some s' \<and> ipc_inv c N s'"
    using update_semaphores_shaped [OF p(1)] same_tables_inv [OF 1] by blast
qed

lemma semctl_set_inv:
  assumes "ipc_inv c N s" "i < length (sem_list s)"
  shows "\<exists>r a s'. semctl_set e who i s = Some (r, a, s') \<and> ipc_inv c N s'"
  using assms shaped_nth [OF ipc_inv_shaped [OF assms(1)] assms(2)]
  by (auto simp: semctl_set_def Let_def intro!: put_update_inv)

lemma semctl_setall_inv:
  assumes "ipc_inv c N s" "i < length (sem_list s)"
  shows "\<exists>r a s'. semctl_setall c e i s = Some (r, a, s') \<and> ipc_inv c N s'"
proof -
  let ?x = "sem_list s ! i"
  have x: "set_shape c ?x" using shaped_nth [OF ipc_inv_shaped [OF assms(1)] assms(2)] .
  obtain ok ys where v: "set_values (SEMVMX c) (take (nat (ss_nsems ?x)) (se_vals e)) (ss_sems ?x) = (ok, ys)"
    by fastforce
  have "set_shape c (?x\<lparr>ss_sems := ys\<rparr>)"
    using set_values_shape [OF v] x by (intro set_shape_sems) (auto simp: set_shape_def)
  then obtain s' where "update_semaphores (put_set i (?x\<lparr>ss_sems := ys\<rparr>) s) = Some s'" "ipc_inv c N s'"
    using put_update_inv(2) [OF assms, of "?x\<lparr>ss_sems := ys\<rparr>"] by auto
  then show ?thesis using v assms(1) by (auto simp: semctl_setall_def Let_def)
qed

lemma semctl_setval_inv:
  assumes "ipc_inv c N s" "i < length (sem_list s)"
  shows "\<exists>r a s'. semctl_setval c e who num val i s = Some (r, a, s') \<and> ipc_inv c N s'"
proof -
  let ?x = "sem_list s ! i"
  have x: "set_shape c ?x" using shaped_nth [OF ipc_inv_shaped [OF assms(1)] assms(2)] .
  let ?x' = "?x\<lparr>ss_sems := (ss_sems ?x)[nat num := (ss_sems ?x ! nat num)\<lparr>semval := word_of_int val\<rparr>],
      ss_ctime := se_time e\<rparr>"
  show ?thesis
  proof (cases "0 \<le> num \<and> num < ss_nsems ?x")
    case True
    then have "sem_shape (ss_sems ?x ! nat num)" by (intro set_shape_nth [OF x]) linarith
    then have "set_shape c ?x'" by (simp add: set_shape_update [OF x])
    then obtain s' where "update_semaphores (put_set i ?x' s) = Some s'" "ipc_inv c N s'"
      using put_update_inv(2) [OF assms, of ?x'] by auto
    then show ?thesis using assms(1) by (auto simp: semctl_setval_def Let_def)
  next
    case False
    then show ?thesis using assms(1) by (auto simp: semctl_setval_def Let_def)
  qed
qed

lemma tell_waiters_shape: "sem_shape sm \<Longrightarrow> \<exists>sm' w. tell_waiters sm = Some (sm', w) \<and> sem_shape sm'"
proof -
  assume sm: "sem_shape sm"
  then obtain ns where "listed (semncnt sm) (nlist sm) = Some ns" by (auto simp: sem_shape_def)
  moreover have "listed (semzcnt sm) (zlist sm) = Some []"
    using sm by (simp add: sem_shape_def listed_def)
  ultimately show ?thesis using sm by (simp add: tell_waiters_def)
qed

lemma removed_mset:
  assumes "i < length xs"
  shows "mset (if length xs - 1 \<noteq> i then (butlast xs)[i := last xs] else butlast xs) \<subseteq># mset xs"
proof -
  have x: "mset xs = add_mset (last xs) (mset (butlast xs))"
  proof -
    from assms have "xs \<noteq> []" by auto
    then have "mset (butlast xs @ [last xs]) = mset xs" by (rule arg_cong [OF append_butlast_last_id])
    then show ?thesis by simp
  qed
  show ?thesis
  proof (cases "length xs - 1 = i")
    case False
    then have "i < length (butlast xs)" using assms by simp
    then have "mset ((butlast xs)[i := last xs]) = add_mset (last xs) (mset (butlast xs) - {#butlast xs ! i#})"
      by (rule mset_update)
    also have "\<dots> \<subseteq># add_mset (last xs) (mset (butlast xs))"
      by (simp only: mset_subset_eq_add_mset_cancel diff_subset_eq_self)
    finally show ?thesis unfolding x using False by (simp only: not_False_eq_True if_True)
  next
    case True
    show ?thesis unfolding x using True by (simp only: not_True_eq_False if_False mset_subset_eq_add_right) simp
  qed
qed

lemma remove_semaphore_rest [simp]:
  "next_id (remove_semaphore i s) = next_id s"
  "shm_list (remove_semaphore i t) = shm_list t" "vm_log (remove_semaphore i t) = vm_log t"
  by (simp_all add: remove_semaphore_def Let_def)

lemma remove_set_inv:
  assumes "ipc_inv c N s" "i < length (sem_list s)"
  shows "\<exists>s'. remove_set i s = Some s' \<and> ipc_inv c N s'"
proof -
  let ?x = "sem_list s ! i"
  have sh: "shaped c s" using assms(1) by (rule ipc_inv_shaped)
  obtain ys told where g: "gather tell_waiters (take (nat (ss_nsems ?x)) (ss_sems ?x)) = Some (ys, told)"
    using set_loop_shape [OF shaped_nth [OF sh assms(2)], of tell_waiters] tell_waiters_shape by blast
  let ?s = "s\<lparr>sent := sent s @ map (\<lambda>p. (p, EIDRM)) told\<rparr>"
  let ?xs = "sem_list (remove_semaphore i ?s)"
  have m: "mset ?xs \<subseteq># mset (sem_list s)"
    using removed_mset [OF assms(2)] by (simp add: remove_semaphore_def Let_def split: if_splits)
  have "shaped c (remove_semaphore i ?s)"
    using sh m unfolding shaped_def list_all_iff by (metis mset_subset_eqD set_mset_mset)
  moreover have "shrinks s (remove_semaphore i ?s)"
    using mset_map_mono [OF m] by (simp add: shrinks_def sem_names_def shm_names_def)
  ultimately have "ipc_inv c N (remove_semaphore i ?s)" using shrinks_inv [OF assms(1)] by blast
  then show ?thesis using g by (simp add: remove_set_def Let_def)
qed

lemma do_semctl_inv:
  assumes "ipc_inv c N s"
  shows "\<exists>r a s'. do_semctl c e who sid num cmd s = Some (r, a, s') \<and> ipc_inv c N s'"
proof (cases "sem_find_id sid s")
  case (Some i)
  then have i: "i < length (sem_list s)" unfolding sem_find_id_def by (rule first_idx_length)
  note ops = semctl_set_inv [OF assms i] semctl_setall_inv [OF assms i] semctl_setval_inv [OF assms i]
    remove_set_inv [OF assms i]
  show ?thesis
  proof (cases cmd)
    case SemRmid
    then show ?thesis using Some assms ops(4) by (auto simp: do_semctl_def Let_def)
  next
    case SemSet
    then show ?thesis using Some ops(1) by (simp add: do_semctl_def Let_def)
  next
    case SemSetAll
    then show ?thesis using Some assms ops(2) by (simp add: do_semctl_def Let_def)
  next
    case (SemSetVal v)
    then show ?thesis using Some assms ops(3) by (simp add: do_semctl_def Let_def)
  qed (use Some assms in \<open>simp_all add: do_semctl_def get_field_def Let_def\<close>)
qed (simp add: do_semctl_def assms)

text \<open>A call whose waiting lists can grow and that does not wait for zero.\<close>

definition calm :: "sem_env \<Rightarrow> bool" where
  "calm e \<longleftrightarrow> (\<forall>k. se_realloc e k) \<and> list_all (\<lambda>b. sb_op b \<noteq> 0) (se_ops e)"

lemma push_entry_length: "push_entry who val n ws = Some b \<Longrightarrow> length b = n"
  by (auto simp: push_entry_def Let_def split: if_splits option.splits)

lemma push_entry_zero: "push_entry who val n ws = None \<longleftrightarrow> n = 0"
  by (simp add: push_entry_def Let_def)

lemma one_semop_shape:
  assumes "sem_shape sm" "sb_op b \<noteq> 0" "se_realloc e (sb_num b)" "one_semop e p who b sm = (sm', r)"
  shows "sem_shape sm'"
proof (cases "push_entry who (- sb_op b) (unat (semncnt sm + 1)) (nlist sm)")
  case None
  then have "semncnt sm + 1 = 0" by (simp add: push_entry_zero unat_eq_0)
  then have "sem_shape (sm\<lparr>sempid := q, semncnt := semncnt sm + 1, nlist := None\<rparr>)" for q
    using assms(1) by (simp add: sem_shape_def listed_def)
  then show ?thesis using assms None
    by (auto simp: one_semop_def grow_def sem_shape_def Let_def split: if_splits)
next
  case (Some ws)
  then have "listed (semncnt sm + 1) (Some ws) \<noteq> None"
    using push_entry_length [OF Some] by (simp add: listed_Some)
  then show ?thesis using assms Some
    by (auto simp: one_semop_def grow_def sem_shape_def Let_def split: if_splits)
qed

lemma semop_loop_shape:
  assumes "semop_loop e who bs x n = (r, x', m)" "set_shape c x"
    and "list_all (\<lambda>b. int (sb_num b) < ss_nsems x) bs"
    and "list_all (\<lambda>b. sb_op b \<noteq> 0) bs" "\<forall>k. se_realloc e k"
  shows "set_shape c x' \<and> ss_id x' = ss_id x \<and> ss_key x' = ss_key x"
  using assms
proof (induction bs arbitrary: x n)
  case (Cons b bs)
  obtain sm res where op: "one_semop e (ss_perm x) who b (ss_sems x ! sb_num b) = (sm, res)"
    by fastforce
  have "sem_shape (ss_sems x ! sb_num b)"
    using Cons.prems(3) by (intro set_shape_nth [OF Cons.prems(2)]) (simp add: zless_nat_eq_int_zless)
  then have "sem_shape sm" using one_semop_shape [OF _ _ _ op] Cons.prems(4,5) by simp
  then have y: "set_shape c (x\<lparr>ss_sems := (ss_sems x)[sb_num b := sm]\<rparr>)"
    by (rule set_shape_update [OF Cons.prems(2)])
  show ?case
  proof (cases "\<exists>sleeps. res = Inr (Some sleeps)")
    case True
    then obtain sleeps where "res = Inr (Some sleeps)" by blast
    then show ?thesis
      using Cons.IH [OF _ y] Cons.prems op by (simp add: Let_def)
  next
    case False
    then show ?thesis using Cons.prems(1) op y
      by (auto simp: Let_def split: sum.splits option.splits)
  qed
qed simp

lemma semop_checks_range:
  "semop_checks c e who n x = OK \<Longrightarrow> list_all (\<lambda>b. int (sb_num b) < ss_nsems x) (take n (se_ops e))"
  by (simp add: semop_checks_def split: if_splits)

lemma do_semop_inv:
  assumes inv: "ipc_inv c N s" and calm: "calm e"
  shows "\<exists>s'. do_semop c e who sid n s = Some s' \<and> ipc_inv c N s'"
proof -
  have upd: "\<exists>s'. update_semaphores t = Some s' \<and> ipc_inv c N s'" if "ipc_inv c N t" for t
    using update_semaphores_shaped [OF ipc_inv_shaped [OF that]] same_tables_inv [OF that] by blast
  have refused: "\<exists>s'. update_semaphores (send_message_to_process who r s) = Some s' \<and> ipc_inv c N s'" for r
    using upd [of "send_message_to_process who r s"] inv by simp
  show ?thesis
  proof (cases "sem_find_id sid s")
    case None
    then show ?thesis using refused by (simp add: do_semop_def)
  next
    case (Some i)
    then have i: "i < length (sem_list s)" unfolding sem_find_id_def by (rule first_idx_length)
    let ?x = "sem_list s ! i"
    show ?thesis
    proof (cases "semop_checks c e who n ?x = OK")
      case False
      then show ?thesis using Some refused by (simp add: do_semop_def Let_def)
    next
      case True
      obtain r x' m where loop: "semop_loop e who (take n (se_ops e)) ?x 0 = (r, x', m)"
        using prod_cases3 by blast
      have "set_shape c x' \<and> ss_id x' = ss_id ?x \<and> ss_key x' = ss_key ?x"
      proof (rule semop_loop_shape [OF loop])
        show "set_shape c ?x" using shaped_nth [OF ipc_inv_shaped [OF inv] i] .
        show "list_all (\<lambda>b. int (sb_num b) < ss_nsems ?x) (take n (se_ops e))"
          using True by (rule semop_checks_range)
      qed (use calm in \<open>auto simp: calm_def list_all_iff dest: in_set_takeD\<close>)
      then have p: "ipc_inv c N (put_set i x' s)" using put_update_inv(1) [OF inv i] by blast
      let ?t = "if r \<noteq> OK \<or> m = 0 then send_message_to_process who r (put_set i x' s)
                else put_set i x' s"
      have "do_semop c e who sid n s = update_semaphores ?t"
        using Some True loop by (simp add: do_semop_def Let_def)
      moreover have "ipc_inv c N ?t" using p by simp
      ultimately show ?thesis using upd by simp
    qed
  qed
qed

text \<open>New entries take the next identity.\<close>

lemma keys_unique_snoc:
  "keys_unique c (ks @ [k]) \<longleftrightarrow> keys_unique c ks \<and> (k = IPC_PRIVATE c \<or> k \<notin> set ks)"
  by (auto simp: keys_unique_def)

lemma new_set_shape:
  "0 \<le> nsems \<Longrightarrow> nsems < int (SEMMSL c) \<Longrightarrow> set_shape c (new_sem_struct c e who key nsems flag n)"
  by (auto simp: set_shape_def new_sem_struct_def list_all_length null_semaphore_def sem_shape_def
      listed_def)

lemma sem_find_key_None:
  "sem_find_key c key s = None \<Longrightarrow> key = IPC_PRIVATE c \<or> key \<notin> set (map snd (sem_names s))"
  by (auto simp: sem_find_key_def first_idx_None_iff sem_names_def split: if_splits)

lemma shm_find_key_None:
  "shm_find_key c key s = None \<Longrightarrow> key = IPC_PRIVATE c \<or> key \<notin> set (map snd (shm_names s))"
  by (auto simp: shm_find_key_def first_idx_None_iff shm_names_def split: if_splits)

lemma fresh_ident:
  assumes "ipc_inv c N s" "mset (idents s') = add_mset (next_id s) (mset (idents s))"
    and "next_id s' = next_ident (next_id s)"
  shows "N + 1 < 2 ^ 31 \<longrightarrow> 0 \<le> next_id s' \<and> next_id s' \<le> N + 1 \<and>
    distinct (idents s') \<and> (\<forall>m \<in> set (idents s'). m < next_id s')"
proof
  assume N: "N + 1 < 2 ^ 31"
  have m: "mset (idents s') = mset (next_id s # idents s)" using assms(2) by simp
  have old: "distinct (idents s)" "\<forall>n \<in> set (idents s). n < next_id s" "0 \<le> next_id s" "next_id s \<le> N"
    using assms(1) N by (simp_all add: ipc_inv_def)
  have n: "next_id s' = next_id s + 1" unfolding assms(3) by (rule next_ident_small) (use old(3,4) N in simp_all)
  have "distinct (next_id s # idents s)" using old(1,2) by auto
  with m have "distinct (idents s')" using mset_eq_imp_distinct_iff by blast
  moreover have "set (idents s') = insert (next_id s) (set (idents s))" using mset_eq_setD [OF m] by simp
  with old(2) have "\<forall>m \<in> set (idents s'). m < next_id s'" by (auto simp: n)
  ultimately show "0 \<le> next_id s' \<and> next_id s' \<le> N + 1 \<and> distinct (idents s') \<and> (\<forall>m \<in> set (idents s'). m < next_id s')"
    using n old(3,4) by simp
qed

lemma do_semget_inv:
  assumes inv: "ipc_inv c N s" and r: "do_semget c e who key nsems flag s = (r, s')"
  shows "ipc_inv c (N + 1) s'"
proof (cases "s' = s")
  case False
  let ?x = "new_sem_struct c e who key nsems flag (next_id s)"
  have f: "sem_find_key c key s = None" and n: "0 \<le> nsems" "nsems < int (SEMMSL c)"
      and l: "length (sem_list s) \<noteq> SEMMNI c"
      and s': "s' = s\<lparr>sem_list := sem_list s @ [?x], next_id := next_ident (next_id s)\<rparr>"
    using r False by (auto simp: do_semget_def Let_def split: option.splits if_splits)
  have names: "sem_names s' = sem_names s @ [(next_id s, key)]" "shm_names s' = shm_names s"
    by (simp_all add: s' sem_names_def shm_names_def new_sem_struct_def)
  have "length (sem_names s') \<le> SEMMNI c"
    using inv l by (simp add: ipc_inv_def sem_names_def s')
  moreover have "shaped c s'"
    using ipc_inv_shaped [OF inv] new_set_shape [OF n] by (simp add: shaped_def s')
  moreover have "N + 1 < 2 ^ 31 \<longrightarrow> 0 \<le> next_id s' \<and> next_id s' \<le> N + 1 \<and>
      distinct (idents s') \<and> (\<forall>m \<in> set (idents s'). m < next_id s')"
    by (rule fresh_ident [OF inv]) (simp_all add: idents_def names, simp add: s')
  moreover have "keys_unique c (map snd (sem_names s'))"
    using inv sem_find_key_None [OF f] by (simp add: names keys_unique_snoc ipc_inv_def)
  ultimately show ?thesis using inv names(2) by (simp add: ipc_inv_def)
qed (simp add: ipc_inv_mono [OF inv])

lemma do_shmget_inv:
  assumes inv: "ipc_inv c N s" and r: "do_shmget c e v who key segsz flag s = (r, s')"
  shows "ipc_inv c (N + 1) s'"
proof (cases "s' = s")
  case False
  then obtain page where f: "shm_find_key c key s = None" and l: "length (shm_list s) \<noteq> MAX_SHM_NR"
      and s': "s' = s\<lparr>shm_list := shm_list s @ [new_shm_struct e v who key segsz flag (next_id s) page],
                      next_id := next_ident (next_id s),
                      vm_log := vm_log s @ [VmMmap page (round_up c segsz)]\<rparr>"
    using r by (auto simp: do_shmget_def Let_def split: option.splits if_splits)
  have names: "shm_names s' = shm_names s @ [(next_id s, key)]" "sem_names s' = sem_names s"
    by (simp_all add: s' sem_names_def shm_names_def new_shm_struct_def)
  have "length (shm_names s') \<le> MAX_SHM_NR"
    using inv l by (simp add: ipc_inv_def shm_names_def s')
  moreover have "shaped c s'" using ipc_inv_shaped [OF inv] by (simp add: shaped_def s')
  moreover have "N + 1 < 2 ^ 31 \<longrightarrow> 0 \<le> next_id s' \<and> next_id s' \<le> N + 1 \<and>
      distinct (idents s') \<and> (\<forall>m \<in> set (idents s'). m < next_id s')"
    by (rule fresh_ident [OF inv]) (simp_all add: idents_def names, simp add: s')
  moreover have "keys_unique c (map snd (shm_names s'))"
    using inv shm_find_key_None [OF f] by (simp add: names keys_unique_snoc ipc_inv_def)
  ultimately show ?thesis using inv names(2) by (simp add: ipc_inv_def)
qed (simp add: ipc_inv_mono [OF inv])

lemma refresh_segments_names:
  "refresh_segments c v xs = (ys, calls) \<Longrightarrow>
   mset (map (\<lambda>x. (sh_id x, sh_key x)) ys) \<subseteq># mset (map (\<lambda>x. (sh_id x, sh_key x)) xs)"
proof (induction xs arbitrary: ys calls)
  case (Cons x xs)
  obtain zs cs where z: "refresh_segments c v xs = (zs, cs)" by fastforce
  let ?n = "\<lambda>x. (sh_id x, sh_key x)"
  have ih: "mset (map ?n zs) \<subseteq># mset (map ?n xs)" by (rule Cons.IH [OF z])
  have "ys = zs \<or> (\<exists>m. ys = x\<lparr>sh_nattch := m\<rparr> # zs)"
    using Cons.prems z by (auto simp: Let_def split: if_splits)
  then show ?case
  proof
    assume "ys = zs"
    then show ?thesis using subset_mset.order_trans [OF ih, of "mset (map ?n (x # xs))"] by simp
  next
    assume "\<exists>m. ys = x\<lparr>sh_nattch := m\<rparr> # zs"
    then show ?thesis using ih by auto
  qed
qed simp

lemma update_refcount_inv:
  assumes "ipc_inv c N s"
  shows "ipc_inv c N (update_refcount_and_destroy c v s)"
proof -
  obtain ys calls where y: "refresh_segments c v (shm_list s) = (ys, calls)" by fastforce
  have "shrinks s (update_refcount_and_destroy c v s)"
    using refresh_segments_names [OF y]
    by (simp add: update_refcount_and_destroy_def y shrinks_def sem_names_def shm_names_def)
  moreover have "shaped c (update_refcount_and_destroy c v s)"
    using ipc_inv_shaped [OF assms] by (simp add: update_refcount_and_destroy_def y shaped_def)
  ultimately show ?thesis by (rule shrinks_inv [OF assms])
qed

lemma put_shm_inv:
  assumes "ipc_inv c N s" "sh_id x = sh_id (shm_list s ! i)" "sh_key x = sh_key (shm_list s ! i)"
  shows "ipc_inv c N (put_shm i x s)"
proof -
  have "shm_names (put_shm i x s) = shm_names s"
  proof (cases "i < length (shm_list s)")
    case True
    then have "shm_names s ! i = (sh_id x, sh_key x)" using assms by (simp add: shm_names_def)
    then show ?thesis using list_update_id [of "shm_names s" i]
      by (simp add: put_shm_def shm_names_def map_update)
  next
    case False
    then show ?thesis by (simp add: put_shm_def list_update_beyond shm_names_def)
  qed
  moreover have "sem_names (put_shm i x s) = sem_names s" "next_id (put_shm i x s) = next_id s"
      "shaped c (put_shm i x s) = shaped c s"
    by (simp_all add: put_shm_def sem_names_def shaped_def)
  ultimately show ?thesis using assms(1) by (simp add: ipc_inv_def idents_def)
qed

lemma vm_log_inv [simp]: "ipc_inv c N (s\<lparr>vm_log := l\<rparr>) = ipc_inv c N s"
  by (simp add: ipc_inv_def idents_def sem_names_def shm_names_def shaped_def)

lemma do_shmat_inv:
  assumes "ipc_inv c N s" "do_shmat c e v who sid addr flag s = (r, s')"
  shows "ipc_inv c N s'"
  using assms by (auto simp: do_shmat_def Let_def intro!: put_shm_inv split: option.splits if_splits)

lemma detach_inv: "ipc_inv c N s \<Longrightarrow> ipc_inv c N (detach e who addr paddr s)"
  by (auto simp: detach_def intro!: put_shm_inv split: option.splits)

lemma do_shmdt_inv:
  assumes "ipc_inv c N s" "do_shmdt c e v who addr s = (r, s')"
  shows "ipc_inv c N s'"
  using assms by (auto simp: do_shmdt_def Let_def intro!: update_refcount_inv detach_inv split: if_splits)

lemma shmctl_inv:
  assumes "ipc_inv c N s"
  shows "ipc_inv c N (snd (snd (shmctl_stat c e who sid null s)))"
    and "ipc_inv c N (snd (snd (shmctl_set e who sid s)))"
    and "ipc_inv c N (snd (snd (shmctl_rmid c e v who sid s)))"
  using assms
  by (auto simp: shmctl_stat_def shmctl_set_def shmctl_rmid_def Let_def
      intro!: put_shm_inv update_refcount_inv split: option.splits)

lemma do_shmctl_inv:
  assumes "ipc_inv c N s"
  shows "ipc_inv c N (snd (snd (do_shmctl c e v who sid cmd null s)))"
  using assms shmctl_inv [OF assms] shmctl_inv(1) [OF update_refcount_inv [OF assms]]
  by (cases cmd) (simp_all add: do_shmctl_def)

definition benign :: "sem_env \<times> vm_env \<times> int \<times> ipc_message \<Rightarrow> bool" where
  "benign = (\<lambda>(e, v, who, m). case m of SemOp _ _ \<Rightarrow> calm e | _ \<Rightarrow> True)"

lemma ipc_dispatch_inv:
  assumes inv: "ipc_inv c N s" and b: "benign (e, v, who, m)"
  shows "\<exists>s'. ipc_dispatch c e v who m s = Some s' \<and> ipc_inv c (N + 1) s'"
proof -
  have up: "ipc_inv c (N + 1) s" by (rule ipc_inv_mono [OF inv]) simp
  show ?thesis
  proof (cases m)
    case (ShmGet key segsz flag)
    then show ?thesis using do_shmget_inv [OF inv]
      by (cases "do_shmget c e v who key segsz flag s") (auto simp: ipc_dispatch_def)
  next
    case (ShmAt sid addr flag)
    then show ?thesis using do_shmat_inv [OF up]
      by (cases "do_shmat c e v who sid addr flag s") (auto simp: ipc_dispatch_def)
  next
    case (ShmDt addr)
    then show ?thesis using do_shmdt_inv [OF up]
      by (cases "do_shmdt c e v who addr s") (auto simp: ipc_dispatch_def)
  next
    case (ShmCtl sid cmd null)
    then show ?thesis using do_shmctl_inv [OF up, of e v who sid cmd null]
      by (cases "do_shmctl c e v who sid cmd null s") (auto simp: ipc_dispatch_def)
  next
    case (SemGet key nsems flag)
    then show ?thesis using do_semget_inv [OF inv]
      by (cases "do_semget c e who key nsems flag s") (auto simp: ipc_dispatch_def)
  next
    case (SemCtl sid num cmd)
    then show ?thesis using do_semctl_inv [OF up, of e who sid num cmd]
      by (auto simp: ipc_dispatch_def)
  next
    case (SemOp sid n)
    then show ?thesis using do_semop_inv [OF up] b by (simp add: ipc_dispatch_def benign_def)
  qed (use up in \<open>simp_all add: ipc_dispatch_def\<close>)
qed

lemma ipc_main_step_inv:
  assumes inv: "ipc_inv c N s" and b: "benign ev"
  shows "\<exists>s'. ipc_main_step c s ev = Some s' \<and> ipc_inv c (N + 1) s'"
proof -
  obtain e v who m where ev: "ev = (e, v, who, m)" by (cases ev)
  have up: "ipc_inv c (N + 1) s" by (rule ipc_inv_mono [OF inv]) simp
  obtain s1 where s1: "ipc_dispatch c e v who m s = Some s1" "ipc_inv c (N + 1) s1"
    using ipc_dispatch_inv [OF inv] b ev by blast
  show ?thesis
  proof (cases "(\<exists>rs. m = NotifyVm rs) \<or> m = NotifyOther")
    case True
    then show ?thesis
      using ev up vm_notify_shaped [OF ipc_inv_shaped [OF inv]] same_tables_inv [OF up]
      by (fastforce simp: ipc_main_step_def)
  next
    case False
    then have "ipc_main_step c s ev = Some (update_refcount_and_destroy c v s1)"
      using ev s1(1) by (cases m) (simp_all add: ipc_main_step_def)
    then show ?thesis using update_refcount_inv [OF s1(2)] by blast
  qed
qed

lemma ipc_run_inv:
  "ipc_inv c N s \<Longrightarrow> list_all benign evs \<Longrightarrow>
     \<exists>s'. run_ops (ipc_main_step c) s evs = Some s' \<and> ipc_inv c (N + int (length evs)) s'"
proof (induction evs arbitrary: s N)
  case (Cons ev evs)
  have b: "benign ev" "list_all benign evs" using Cons.prems(2) by simp_all
  obtain s1 where "ipc_main_step c s ev = Some s1" "ipc_inv c (N + 1) s1"
    using ipc_main_step_inv [OF Cons.prems(1) b(1)] by blast
  then show ?case using Cons.IH [of "N + 1" s1] b(2) by (simp add: algebra_simps)
qed simp

lemma ipc_init_inv: "ipc_inv c 0x1234 ipc_init"
  by (simp add: ipc_inv_def ipc_init_def idents_def sem_names_def shm_names_def shaped_def
      keys_unique_def)

text \<open>
  (C10) The IPC server keeps running and keeps its tables in order, away from the waiting for zero.  From the start,
  any sequence of messages (every call with any arguments, notifications of exits, failing copies and allocations of
  segments) is served without a crash, provided that no operation on a semaphore waits for zero and that the waiting
  lists can grow: with the first, the server does crash (\<open>zero_wait_kills_server\<close>), and the second is a \<^verbatim>\<open>realloc\<close> that
  fails inside \<^verbatim>\<open>do_semop\<close>.  Afterwards the tables are within their bounds, no two sets or segments share a key other
  than \<^verbatim>\<open>IPC_PRIVATE\<close>, and no count of a waiting list exceeds its block.  As long as there were fewer than
  \<open>2 ^ 31 - 0x1234\<close> messages, so that the counter of identities cannot have wrapped, the identities of all sets and
  segments are distinct and older than the next one.
\<close>

theorem ipc_server_keeps_running:
  assumes "list_all benign evs"
  shows "\<exists>s. run_ops (ipc_main_step c) ipc_init evs = Some s \<and> ipc_inv c (0x1234 + int (length evs)) s"
  by (rule ipc_run_inv [OF ipc_init_inv assms])

definition demo_vm :: vm_env where
  "demo_vm = \<lparr>ve_mmap = Some 0x10000, ve_getphys = (\<lambda>p. p + 0x500000), ve_client_phys = 0x510000,
              ve_remap = Some 0x8000, ve_refcount = (\<lambda>_. 2)\<rparr>"

text \<open>A set is made, a unit is asked for and given; a segment is made and attached.\<close>

definition demo_messages :: "(sem_env \<times> vm_env \<times> int \<times> ipc_message) list" where
  "demo_messages =
     [(demo_env [], demo_vm, 7, SemGet 77 1 0x3B6),
      (demo_env [demo_op (- 1)], demo_vm, 8, SemOp 0x1234 1),
      (demo_env [demo_op 1], demo_vm, 7, SemOp 0x1234 1),
      (demo_env [], demo_vm, 7, ShmGet 78 5000 0x3B6),
      (demo_env [], demo_vm, 8, ShmAt 0x1235 0 0)]"

theorem ipc_server_keeps_running_witness:
  "\<exists>s. run_ops (ipc_main_step demo_ipc) ipc_init demo_messages = Some s \<and> ipc_inv demo_ipc 0x1239 s"
  using ipc_server_keeps_running [of demo_messages demo_ipc]
  by (simp add: demo_messages_def benign_def calm_def ipc_demo_defs)

section \<open>Identities\<close>

text \<open>
  Both tables are searched for an identity from the front.  That the identities are distinct is all
  that the calls need to reach the object which a get call has named.
\<close>

locale ident_table =
  fixes entries :: "'s \<Rightarrow> 'x list" and ident :: "'x \<Rightarrow> int" and ok :: "'s \<Rightarrow> bool"
  assumes idents_distinct: "ok s \<Longrightarrow> distinct (map ident (entries s))"
begin

lemma find_own:
  assumes "ok s" "i < length (entries s)"
  shows "first_idx (\<lambda>x. ident x = ident (entries s ! i)) (entries s) = Some i"
proof (rule first_idx_unique)
  fix j assume "j < length (entries s)" "ident (entries s ! j) = ident (entries s ! i)"
  then show "j = i"
    using idents_distinct [OF assms(1)] assms(2) by (simp add: distinct_conv_nth) (metis nth_map)
qed (use assms in simp_all)

lemma find_last:
  assumes "ok s" "entries s = xs @ [x]"
  shows "first_idx (\<lambda>y. ident y = ident x) (entries s) = Some (length xs)"
  using find_own [OF assms(1), of "length xs"] assms(2) by simp

end

interpretation sem_ids: ident_table sem_list ss_id "\<lambda>s. N < 2 ^ 31 \<and> ipc_inv c N s" for c N
  by unfold_locales (simp add: ipc_inv_def idents_def sem_names_def comp_def)

interpretation shm_ids: ident_table shm_list sh_id "\<lambda>s. N < 2 ^ 31 \<and> ipc_inv c N s" for c N
  by unfold_locales (simp add: ipc_inv_def idents_def shm_names_def comp_def)

text \<open>The identity that \<^verbatim>\<open>semget\<close> returns is found by the other calls, under the key asked for.\<close>

lemma semget_found:
  assumes inv: "ipc_inv c N s" and N: "N + 1 < 2 ^ 31" and r: "do_semget c e who key nsems flag s = (Inr n, s')"
  shows "\<exists>i. sem_find_id n s' = Some i \<and> i < length (sem_list s') \<and> ss_key (sem_list s' ! i) = key"
proof (cases "sem_find_key c key s")
  case None
  let ?x = "new_sem_struct c e who key nsems flag (next_id s)"
  have s': "sem_list s' = sem_list s @ [?x]" "n = next_id s"
    using r None by (auto simp: do_semget_def split: if_splits)
  have "ss_id ?x = n" "ss_key ?x = key" by (simp_all add: new_sem_struct_def s'(2))
  then show ?thesis
    using sem_ids.find_last [OF conjI [OF N do_semget_inv [OF inv r]] s'(1)] s'(1) by (simp add: sem_find_id_def)
next
  case (Some i)
  have i: "i < length (sem_list s)" "ss_key (sem_list s ! i) = key"
    using Some first_idx_length first_idx_sat by (fastforce simp: sem_find_key_def split: if_splits)+
  have "s' = s" "n = ss_id (sem_list s ! i)"
    using r Some by (auto simp: do_semget_def Let_def split: if_splits)
  then show ?thesis using sem_ids.find_own [of N c s, OF _ i(1)] inv N i by (simp add: sem_find_id_def)
qed

lemma shmget_found:
  assumes inv: "ipc_inv c N s" and N: "N + 1 < 2 ^ 31" and r: "do_shmget c e v who key segsz flag s = (Inr n, s')"
  shows "\<exists>i. shm_find_id n s' = Some i \<and> i < length (shm_list s') \<and> sh_key (shm_list s' ! i) = key"
proof (cases "shm_find_key c key s")
  case None
  then obtain page where s': "n = next_id s"
      "shm_list s' = shm_list s @ [new_shm_struct e v who key segsz flag (next_id s) page]"
    using r by (auto simp: do_shmget_def split: if_splits option.splits)
  let ?x = "new_shm_struct e v who key segsz flag (next_id s) page"
  have "sh_id ?x = n" "sh_key ?x = key" by (simp_all add: new_shm_struct_def s'(1))
  then show ?thesis
    using shm_ids.find_last [OF conjI [OF N do_shmget_inv [OF inv r]] s'(2)] s'(2) by (simp add: shm_find_id_def)
next
  case (Some i)
  have i: "i < length (shm_list s)" "sh_key (shm_list s ! i) = key"
    using Some first_idx_length first_idx_sat by (fastforce simp: shm_find_key_def split: if_splits)+
  have "s' = s" "n = sh_id (shm_list s ! i)"
    using r Some by (auto simp: do_shmget_def Let_def split: if_splits)
  then show ?thesis using shm_ids.find_own [of N c s, OF _ i(1)] inv N i by (simp add: shm_find_id_def)
qed

section \<open>Waiting for zero\<close>







section \<open>The pages of shared segments\<close>

text \<open>Pages with their sizes: mapped for a segment, and given back.\<close>

definition pages_mapped :: "vm_call list \<Rightarrow> (int \<times> int) list" where
  "pages_mapped l = concat (map (\<lambda>k. case k of VmMmap p n \<Rightarrow> [(p, n)] | _ \<Rightarrow> []) l)"

definition pages_freed :: "vm_call list \<Rightarrow> (int \<times> int) list" where
  "pages_freed l = concat (map (\<lambda>k. case k of VmMunmap p n \<Rightarrow> [(p, n)] | _ \<Rightarrow> []) l)"

definition pages_held :: "ipc_conf \<Rightarrow> ipc_state \<Rightarrow> (int \<times> int) list" where
  "pages_held c s = map (\<lambda>x. (sh_page x, round_up c (sh_segsz x))) (shm_list s)"

definition pages_ok :: "ipc_conf \<Rightarrow> ipc_state \<Rightarrow> bool" where
  "pages_ok c s \<longleftrightarrow>
     mset (pages_mapped (vm_log s)) = mset (pages_held c s) + mset (pages_freed (vm_log s))"

lemma pages_log_simps [simp]:
  "pages_mapped (l @ l') = pages_mapped l @ pages_mapped l'"
  "pages_freed (l @ l') = pages_freed l @ pages_freed l'"
  "pages_mapped [] = []" "pages_freed [] = []"
  "pages_mapped (VmMmap p n # l) = (p, n) # pages_mapped l"
  "pages_mapped (VmMunmap p n # l) = pages_mapped l" "pages_mapped (VmUnmap w p # l) = pages_mapped l"
  "pages_mapped (VmRemap w a p n # l) = pages_mapped l" "pages_freed (VmMmap p n # l) = pages_freed l"
  "pages_freed (VmMunmap p n # l) = (p, n) # pages_freed l"
  "pages_freed (VmUnmap w p # l) = pages_freed l" "pages_freed (VmRemap w a p n # l) = pages_freed l"
  by (simp_all add: pages_mapped_def pages_freed_def)




text \<open>The part of the state that belongs to the segments.\<close>

definition segs :: "ipc_state \<Rightarrow> shm_struct list \<times> vm_call list" where
  "segs s = (shm_list s, vm_log s)"

lemma pages_ok_segs: "segs s' = segs s \<Longrightarrow> pages_ok c s' = pages_ok c s"
  by (simp add: segs_def pages_ok_def pages_held_def)

lemma segs_simps [simp]:
  "segs (s\<lparr>sem_list := xs\<rparr>) = segs s" "segs (s\<lparr>sent := m\<rparr>) = segs s" "segs (s\<lparr>next_id := n\<rparr>) = segs s"
  "segs (put_set i x s) = segs s" "segs (send_message_to_process who r s) = segs s"
  "segs (remove_semaphore i s) = segs s"
  by (simp_all add: segs_def put_set_def send_message_to_process_def)












lemma pages_ok_send [simp]: "pages_ok c (send_message_to_process who r s) = pages_ok c s"
  by (rule pages_ok_segs) simp








end
