(* ===== verification/Spec2Isabelle.thy ===== *)
theory Spec2Isabelle
  imports Slugmem Shell SchedKernel KCallIrq KSafemap KDevio DsMain IpcMain
begin

text \<open>
  The repository holds three course projects.  \<^verbatim>\<open>Project_1\<close> is a command shell, \<^verbatim>\<open>Project_2\<close> is the
  operating system MINIX 3 (kernel, servers, file systems) in which the students replaced the
  user-level scheduler by a lottery scheduler (\<^verbatim>\<open>Project_2/src\<close>), and \<^verbatim>\<open>Project_3\<close> is a library that
  tracks the allocations of a program.  This development models the code the projects wrote and,
  of the operating system, the parts that code runs on and depends on: the kernel's process table,
  ready queues and message passing, its interrupt hooks, privileges and grants with the kernel calls
  that work on them, the process manager's scheduling and identity calls, the data store through
  which servers find each other, and the server of semaphores and shared memory.

  How the parts interact.  A process calls the kernel with a message; \<^verbatim>\<open>do_ipc\<close> in
  \<^verbatim>\<open>kernel/proc.c\<close> delivers it, queues the sender or blocks the receiver.  The kernel keeps ready
  queues by priority and asks a user-level scheduler when a quantum runs out
  (\<^verbatim>\<open>notify_scheduler\<close>); the scheduler SCHED draws a lottery and answers with the kernel call
  \<^verbatim>\<open>sys_schedule\<close>, which ends in \<^verbatim>\<open>sched_proc\<close> of \<^verbatim>\<open>kernel/system.c\<close>.  Every other kernel call passes
  through \<^verbatim>\<open>kernel_call\<close> there, which looks at the caller's mask, calls the handler from its table and
  writes the reply; handlers change the same processes and privilege structures as message passing, and
  notify managers and drivers through \<^verbatim>\<open>mini_notify\<close>.  An interrupt calls the hooks of its line, which
  a driver installed with \<^verbatim>\<open>sys_irqctl\<close>.  Memory is shared through grants: \<^verbatim>\<open>verify_grant\<close> decides for
  the safe copies and for the mappings, which the kernel asks the virtual memory server to make.  The process manager PM hands
  processes to SCHED and forwards nice values.  Servers register their labels in the data store DS.
  The IPC server is a client of the virtual memory server, which tells it how often a page of a
  segment is mapped and which processes have exited.

  The theories, in the order of their imports:

  \<^item> \<open>Prelude\<close>: the error codes, scans of fixed tables, wrap-around, runs of fallible operations,
    and the locale \<open>endpoint_table\<close>, the law of a table in which an endpoint names its own slot;
    it is interpreted on the tables of SCHED, PM and the kernel.
  \<^item> \<open>Slugmem\<close>: \<^verbatim>\<open>Project_3/slugmem.c\<close>.  The hash table with its linear probing and doubling, the
    wrappers \<^verbatim>\<open>slug_malloc\<close> and \<^verbatim>\<open>slug_free\<close>, the exit handler and the statistics.  The probing loops
    are \<open>partial_function (option)\<close>, so that a full table would hang; the invariant keeps the load
    below one half, and the properties say that the loops end, that the table is the multiset of
    the records, what the tool reports, and when the exit handlers do something undefined.
  \<^item> \<open>Shell\<close>: \<^verbatim>\<open>Project_1/src\<close> without the generated scanner.  The flex rules of \<^verbatim>\<open>lex.c\<close> over the
    static array, \<^verbatim>\<open>parse\<close> and \<^verbatim>\<open>execute\<close> of \<^verbatim>\<open>shell.c\<close> and \<^verbatim>\<open>myshell.c\<close>.  The scanner and the parser
    are related to reference functions on token lists.
  \<^item> \<open>Sched\<close>: \<^verbatim>\<open>Project_2/src/sched/schedule.c\<close> with the main loop and helpers of
    \<^verbatim>\<open>servers/sched\<close>.  The table of processes, the tickets, the draw, and one step of the loop per
    message.  \<^verbatim>\<open>random()\<close> and the replies of the kernel are arguments.
  \<^item> \<open>ProcMan\<close>: \<^verbatim>\<open>Project_2/src/pm\<close> and \<^verbatim>\<open>servers/pm/getset.c\<close>.
  \<^item> \<open>Chain\<close>, \<open>KProc\<close>: linked lists in an array, and the ready queues of \<^verbatim>\<open>kernel/proc.c\<close> with the
    macros of \<^verbatim>\<open>proc.h\<close> and the consistency check of \<^verbatim>\<open>kernel/debug.c\<close>, which is the invariant.
  \<^item> \<open>KIpc\<close>, \<open>KWait\<close>, \<open>KDeadlock\<close>: message passing.  \<open>KIpc\<close> is the model of \<^verbatim>\<open>proc.c\<close> and of the signal
    and clean-up routines of \<^verbatim>\<open>system.c\<close>; \<open>KWait\<close> is the graph of who waits for whom, with the
    invariant that makes \<^verbatim>\<open>deadlock\<close> exact; \<open>KDeadlock\<close> shows that every synchronous call keeps it, except
    calls to the caller's own endpoint (\<open>self_call\<close>), and as long as tables of asynchronous messages can be
    written back (\<open>tables_writable\<close>); two lemmas show what the kernel does otherwise: it hangs, or it panics.
  \<^item> \<open>KIrq\<close>: \<^verbatim>\<open>kernel/interrupt.c\<close>, and its refinement of lists of hooks by line with a set of busy hooks.
  \<^item> \<open>KPriv\<close>: the privileges of \<^verbatim>\<open>kernel/system.c\<close> (\<^verbatim>\<open>get_priv\<close>, the send masks) and \<^verbatim>\<open>do_privctl.c\<close>.  The
    state \<open>xstate\<close> of all kernel calls is declared here: processes and messages, the rest of the privilege
    structures, hooks, the slots for suspended calls and the messages in the memory of processes.
  \<^item> \<open>KFrame\<close>, \<open>KCallInv\<close>: what the operations of message passing leave alone, and how signals and blocking
    change the fields on which the invariants of the kernel calls rest.
  \<^item> \<open>KCalls\<close>: the dispatcher, the table and the start-up of \<^verbatim>\<open>kernel/system.c\<close>, and the calls \<^verbatim>\<open>do_kill\<close>,
    \<^verbatim>\<open>do_getksig\<close>, \<^verbatim>\<open>do_endksig\<close>, \<^verbatim>\<open>do_exit\<close>, \<^verbatim>\<open>do_runctl\<close>, \<^verbatim>\<open>do_statectl\<close>, \<^verbatim>\<open>do_setgrant\<close>, \<^verbatim>\<open>do_irqctl\<close> and
    \<^verbatim>\<open>do_clear\<close>.
  \<^item> \<open>KCallMain\<close>: the locales \<open>kernel_steps\<close> and \<open>kernel_calls\<close>, the contract between the dispatcher and the
    handlers in its table, for a relation between the states before and after and, as the special case of a
    kept predicate, for an invariant.  The interpretations give the two invariants of the table of calls, the
    symmetry of the send masks and the protocol of signals, and how the signals of a process can move in one call.
    Also the delivery of signals to their managers and refused calls.
  \<^item> \<open>KCallIrq\<close>: the hooks in use are those on the lines; \<^verbatim>\<open>do_irqctl\<close> and \<^verbatim>\<open>do_clear\<close> keep this, and
    \<^verbatim>\<open>do_irqctl\<close> leaves the hooks of others as they are, enabled or disabled.
  \<^item> \<open>KGrant\<close>, \<open>KSafemap\<close>: \<^verbatim>\<open>do_safecopy.c\<close> and \<^verbatim>\<open>do_safemap.c\<close>.  Chains of grants are the inductive relation
    \<open>granted\<close>, which \<^verbatim>\<open>verify_grant\<close> decides; copies and mappings stay within it.
  \<^item> \<open>KDevio\<close>: \<^verbatim>\<open>do_devio.c\<close> and \<^verbatim>\<open>do_vdevio.c\<close>, with the instructions executed as a log.
  \<^item> \<open>DataStore\<close>, \<open>DsTyped\<close>, \<open>DsHeap\<close>, \<open>DsSpec\<close>, \<open>DsRefine\<close>, \<open>DsMain\<close>: the data store of
    \<^verbatim>\<open>servers/ds\<close>.  The model with its heap; one type per entry and unique keys; ownership of heap
    blocks; the abstract map of keys to values; each request, the publishing of labels included, against it;
    the main loop.
  \<^item> \<open>SchedKernel\<close>: PM, SCHED and the kernel together.  The calls that the theories of PM and SCHED leave
    to parameters are answered by the model of the callee: what becomes of a process whose quantum
    is used up, of the winner of a lottery whose request the kernel refuses, and of a caller of
    \<^verbatim>\<open>setpriority\<close>.
  \<^item> \<open>IpcSem\<close>, \<open>IpcShm\<close>, \<open>IpcUnits\<close>, \<open>IpcMain\<close>: \<^verbatim>\<open>servers/ipc\<close>.  The model of \<^verbatim>\<open>sem.c\<close>; the model of
    \<^verbatim>\<open>shm.c\<close> and of the main loop, whose state extends that of the semaphores by the segments; the
    refinement of counting semaphores; the invariant of the server, its running without a crash,
    the fault of waiting for zero, and the accounting of pages.  The counter of identities wraps as the
    \<^verbatim>\<open>int\<close> of the code does, so that the invariant has a bound on the number of messages for the identities
    to be distinct.  The locale \<open>ident_table\<close> is the law
    of a table with distinct identities; it is interpreted on the sets and on the segments.

  Conventions.  A C structure is a \<open>record\<close>, a table is a list, a slot pointer is its index, and a
  chain through a pointer field is an optional index.  Integers that the code lets wrap are words of
  their width; others are \<open>int\<close> or \<open>nat\<close>.  A handler is one definition that returns its error code
  (\<open>errno\<close>) and the new state.  \<open>None\<close> as the result of an operation is always a crash of the
  program: a failed assertion, a \<^verbatim>\<open>panic\<close>, an access outside an array or block, a wrong union
  member, a double free or a division by zero; for a \<open>partial_function\<close> it is also a loop that does
  not end.  Properties that an operation returns are therefore stated as \<open>\<noteq> None\<close> or as an
  existential result, never as ``if it returns''; an invariant of a call says what holds when it has
  returned.  No fuel is used in the model; a manager that repeats \<^verbatim>\<open>do_getksig\<close> is given a number of calls,
  and one more than the number of waiting processes is shown to be enough.

  Parameters.  Constants from headers that are not in the repository (\<^verbatim>\<open>minix/com.h\<close>,
  \<^verbatim>\<open>minix/ds.h\<close>, \<^verbatim>\<open>sys/resource.h\<close> and so on) are fields of a configuration record per component, and
  what the code relies on is a named predicate on it (\<open>ds_flags_ok\<close>: the type bits are disjoint;
  \<open>malloc_ok\<close>: a block handed out was free; \<open>cfg_ok\<close>: endpoints and call numbers are distinct;
  \<open>tables_writable\<close>: a table of asynchronous messages that was read can be written; \<open>calm\<close> and \<open>counted\<close>: waiting lists can grow, and reference counts stay below 255).  The
  results of calls into other servers, copies between address spaces (in message passing the fields
  \<open>entry_msg\<close>, \<open>put_result\<close> and \<open>put_flags\<close> say which copies of an entry succeed), the casts to \<^verbatim>\<open>uid_t\<close> and
  \<^verbatim>\<open>gid_t\<close> (\<open>as_uid\<close>, \<open>as_gid\<close>), whose width is in a header, and random numbers are arguments.  Every such predicate is instantiated in the witnesses.

  Not modelled.  The scanner generated by flex; the unfinished copy of SCHED in
  \<^verbatim>\<open>servers/sched/schedule.c\<close>, which does not compile; the kernel calls for fork, exec, tracing, updates,
  copies between address spaces, alarms and times, the memory control of the virtual memory server, and
  queries, so that the table of \<open>system_calls\<close> holds only the calls of \<open>KCalls\<close> and \<open>KPriv\<close>; the calls of
  \<open>KGrant\<close>, \<open>KSafemap\<close> and \<open>KDevio\<close> have states of their own (memory, map records, an I/O log) and are
  modelled beside the table; the clock and the i386 code but for \<^verbatim>\<open>umap_local\<close>; the file systems, VFS, the network stack, virtual memory,
  RS, the boot programs; signals, fork and exit in PM; benchmarks and tests.  Most of it is the unchanged operating system; hardware and
  assembly code have no definition in the repository to translate.  The printing of diagnostics is
  left out everywhere except where it is the program's purpose (the reports of slugmem).  In the
  data store the contents of the union of an unused slot are only kept where the code reads them
  again, and the storing of a mapping's pages is the kernel's business, so that the mapped memory is
  an argument of the requests that read it.
\<close>

end
